(* ===== verification/Prelude.thy ===== *)
theory Prelude
  imports Main "HOL-Library.Word" "HOL-Library.Monad_Syntax" "HOL-Library.Signed_Division"
begin

text \<open>
  Shared vocabulary of the development: the fixed-width C types, the theorem collections the
  component proofs are tuned with, the positional-digit loop that three printing routines of the
  firmware share, and the interface of anything a routine can push elements into
  (\<open>sink\<close>).
\<close>

unbundle bit_operations_syntax

section \<open>C types\<close>

text \<open>
  \<open>unsigned char\<close>, \<open>unsigned short\<close>, \<open>unsigned int\<close> and \<open>unsigned long long\<close> of the ILP32
  target are words of their width, so that \<open>+\<close>, \<open>-\<close> and \<open>*\<close> wrap as in C.  A C \<open>int\<close> is a
  HOL \<^typ>\<open>int\<close> wherever the code never overflows it (overflow is undefined behaviour there, and the
  bounds theorems state its absence); the place where the firmware lets an accumulator wrap on
  purpose uses words.
\<close>

type_synonym u8 = "8 word"
type_synonym u16 = "16 word"
type_synonym u32 = "32 word"
type_synonym u64 = "64 word"

text \<open>\<open>(int)(short)(w & 0xFFFF)\<close>: the low half-word read as two's complement.\<close>

definition s16 :: "u32 \<Rightarrow> int" where
  "s16 w = sint (ucast w :: 16 word)"

lemma and_masks:
  fixes x :: "'a::len word"
  shows "x AND 0xF = take_bit 4 x" and "x AND 0x3F = take_bit 6 x" and "x AND 0xFF = take_bit 8 x"
    and "x AND 0x3FF = take_bit 10 x" and "x AND 0xFFFF = take_bit 16 x" and "x AND 1 = take_bit 1 x"
  by (simp_all add: take_bit_eq_mask mask_eq_exp_minus_1)

lemma unat_take_bit: "unat (take_bit n (x :: 'a::len word)) = unat x mod 2 ^ n"
  by (simp only: unsigned_take_bit_eq take_bit_eq_mod [where ?'a = nat])

lemma unat_drop_bit: "unat (drop_bit n (x :: 'a::len word)) = unat x div 2 ^ n"
  by (simp only: unsigned_drop_bit_eq drop_bit_eq_div [where ?'a = nat] take_bit_nat_eq_self [OF unsigned_less])

lemma unat_bound: "unat (x :: 'a::len word) < 2 ^ LENGTH('a)"
  by (rule unsigned_less)

lemma of_char_conv_nat: "(of_char c :: 'a::len word) = word_of_nat (of_char c)"
  by (metis of_nat_of_char)

text \<open>The signed reading of a word in terms of the unsigned one.\<close>

lemma sint_mod:
  "sint (v :: 'a::len word) =
     (uint v + 2 ^ (LENGTH('a) - 1)) mod 2 ^ LENGTH('a) - 2 ^ (LENGTH('a) - 1)"
  by (simp add: sint_uint signed_take_bit_eq_take_bit_shift take_bit_eq_mod)

lemma uint_u32_bounds: "0 \<le> uint v \<and> uint v < 2 ^ 32" for v :: u32
  using unsigned_less [of v, where ?'a = int] by simp

lemma sint_u32: "sint (v :: u32) = (if uint v < 2 ^ 31 then uint v else uint v - 2 ^ 32)"
proof (cases "uint v < 2 ^ 31")
  case True
  then have "(uint v + 2 ^ 31) mod 2 ^ 32 = uint v + 2 ^ 31"
    using uint_u32_bounds [of v] by (intro mod_pos_pos_trivial) simp_all
  then show ?thesis using True by (simp add: sint_mod)
next
  case False
  have "(uint v + 2 ^ 31) mod 2 ^ 32 = ((uint v - 2 ^ 31) + 2 ^ 32) mod 2 ^ 32" by (simp add: add.commute)
  also have "\<dots> = (uint v - 2 ^ 31) mod 2 ^ 32" by (rule mod_add_self2)
  also have "\<dots> = uint v - 2 ^ 31"
    using False uint_u32_bounds [of v] by (intro mod_pos_pos_trivial) simp_all
  finally show ?thesis using False by (simp add: sint_mod)
qed

lemma sint_nonneg_u32: "0 \<le> sint v \<Longrightarrow> sint v = uint v" for v :: u32
  using uint_u32_bounds [of v] unfolding sint_u32 by (cases "uint v < 2 ^ 31") simp_all

lemma uint_minus_u32: "uint (- v :: u32) = (if v = 0 then 0 else 2 ^ 32 - uint v)"
proof (cases "v = 0")
  case False
  then have "uint v \<noteq> 0" by (simp add: unsigned_eq_0_iff)
  moreover have "uint (- v) = (- uint v) mod 2 ^ 32" by (simp add: uint_word_ariths)
  moreover have "uint v mod 2 ^ 32 = uint v"
    using uint_u32_bounds [of v] by (intro mod_pos_pos_trivial) simp_all
  ultimately show ?thesis using False by (simp add: zmod_zminus1_eq_if)
qed simp

text \<open>The magnitude of a signed word, that of the most negative value included.\<close>

lemma unat_abs_u32: "unat (if sint v < 0 then - v else v) = nat \<bar>sint v\<bar>" for v :: u32
proof (cases "sint v < 0")
  case True
  then have "\<not> uint v < 2 ^ 31" by (auto simp: sint_u32 split: if_splits)
  moreover from this have "v \<noteq> 0" by auto
  ultimately have "uint (- v) = - sint v" by (simp add: sint_u32 uint_minus_u32)
  then have "unat (- v) = nat (- sint v)" by (metis nat_uint_eq)
  then show ?thesis using True by simp
next
  case False
  then have "sint v = uint v" by (intro sint_nonneg_u32) simp
  then show ?thesis using False by simp
qed

section \<open>Halves of a 64-bit word\<close>

lemma unat_join: "unat (push_bit 32 (ucast hi) OR ucast lo :: u64) = unat hi * 2 ^ 32 + unat lo"
  for hi lo :: u32
proof -
  have hi: "unat (push_bit 32 (ucast hi) :: u64) = unat hi * 2 ^ 32"
    using unat_bound [of hi] by (simp add: push_bit_eq_mult unat_word_ariths unsigned_ucast_eq take_bit_eq_mod)
  have lo: "unat (ucast lo :: u64) = unat lo"
    using unat_bound [of lo] by (simp add: unsigned_ucast_eq take_bit_eq_mod)
  have "bit lo n \<Longrightarrow> n < 32" for n
    using bit_imp_le_length [of lo n] by simp
  then have "push_bit 32 (ucast hi) AND (ucast lo :: u64) = 0"
    by (intro bit_eqI) (force simp: bit_simps)
  then have "push_bit 32 (ucast hi) OR (ucast lo :: u64) = push_bit 32 (ucast hi) + ucast lo"
    by (rule disjunctive_add_eq_or [symmetric])
  then show ?thesis
    using unat_bound [of hi] unat_bound [of lo] hi lo by (simp add: unat_word_ariths)
qed

lemma unat_low_half: "unat (ucast (t AND 0xFFFFFFFF) :: u32) = unat t mod 2 ^ 32" for t :: u64
proof -
  have "t AND 0xFFFFFFFF = take_bit 32 t"
    by (simp add: take_bit_eq_mask mask_eq_exp_minus_1)
  then show ?thesis
    by (simp only: unsigned_ucast_eq take_bit_eq_mod [where ?'a = nat] unat_take_bit) simp
qed

lemma unat_high_half: "unat (ucast (drop_bit 32 t) :: u32) = unat t div 2 ^ 32" for t :: u64
proof -
  have "unat t div 2 ^ 32 < 2 ^ 32"
    using unat_bound [of t] by (simp add: div_less_iff_less_mult)
  then show ?thesis by (simp only: unsigned_ucast_eq unat_drop_bit take_bit_eq_mod) simp
qed

named_theorems frame_simps \<open>what an operation leaves unchanged\<close>
named_theorems log_simps \<open>what an operation appends to the access log\<close>

section \<open>Options as computations that may not return\<close>

lemma bind_SomeE:
  assumes "Option.bind x f = Some y"
  obtains a where "x = Some a" and "f a = Some y"
  using assms by (cases x) auto

section \<open>Positional digits\<close>

text \<open>
  The loop \<open>do { buf[n++] = v % base; v /= base; } while (v && n < lim);\<close> of the number
  printers, least significant digit first; the first argument after the base is the room left in
  the buffer.
\<close>

fun digits_loop :: "nat \<Rightarrow> nat \<Rightarrow> nat \<Rightarrow> nat list" where
  "digits_loop b 0 v = []"
| "digits_loop b (Suc k) v =
     v mod b # (if v div b \<noteq> 0 \<and> k \<noteq> 0 then digits_loop b k (v div b) else [])"

text \<open>The value a little-endian digit list denotes.\<close>

primrec digits_val :: "nat \<Rightarrow> nat list \<Rightarrow> nat" where
  "digits_val b [] = 0"
| "digits_val b (d # ds) = d + b * digits_val b ds"

lemma digits_loop_val:
  assumes "0 < b" and "0 < k" and "v < b ^ k"
  shows "digits_val b (digits_loop b k v) = v"
  using assms(2,3)
proof (induction b k v rule: digits_loop.induct)
  case (1 b v)
  then show ?case by simp
next
  case (2 b k v)
  show ?case
  proof (cases "v div b \<noteq> 0 \<and> k \<noteq> 0")
    case True
    from "2.prems" have "v div b < b ^ k"
      by (metis less_mult_imp_div_less mult.commute power_Suc)
    with True 2 show ?thesis by simp
  next
    case False
    from "2.prems" False have "v div b = 0" by auto
    then show ?thesis using False div_mult_mod_eq [of v b] by auto
  qed
qed

lemma digits_loop_length: "length (digits_loop b k v) \<le> k"
  by (induction b k v rule: digits_loop.induct) auto

lemma digits_loop_nonempty: "0 < k \<Longrightarrow> digits_loop b k v \<noteq> []"
  by (cases k) auto

lemma digits_loop_lt:
  "0 < b \<Longrightarrow> d \<in> set (digits_loop b k v) \<Longrightarrow> d < b"
  by (induction b k v rule: digits_loop.induct) (auto split: if_splits)

text \<open>No leading zero: the last digit written is only 0 when the value is 0.\<close>

lemma digits_loop_last:
  assumes "1 < b" and "0 < k" and "v < b ^ k" and "v \<noteq> 0"
  shows "last (digits_loop b k v) \<noteq> 0"
  using assms
proof (induction b k v rule: digits_loop.induct)
  case (1 b v)
  then show ?case by simp
next
  case (2 b k v)
  show ?case
  proof (cases "v div b \<noteq> 0 \<and> k \<noteq> 0")
    case True
    from "2.prems" have "v div b < b ^ k"
      by (metis less_mult_imp_div_less mult.commute power_Suc)
    with True 2 show ?thesis by (auto simp: digits_loop_nonempty)
  next
    case False
    with "2.prems" have "v div b = 0" by auto
    with "2.prems" False show ?thesis by (auto simp: div_eq_0_iff)
  qed
qed

text \<open>
  The same loop with no bound on the buffer, \<open>do { buf[i++] = v % base; v /= base; } while (v);\<close>.
  The guard \<open>1 < b\<close> only excludes bases the code never uses.
\<close>

function digits :: "nat \<Rightarrow> nat \<Rightarrow> nat list" where
  "digits b v = v mod b # (if 1 < b \<and> v div b \<noteq> 0 then digits b (v div b) else [])"
  by pat_completeness auto
termination
  by (relation "measure snd") (auto simp: div_eq_0_iff)

declare digits.simps [simp del]

text \<open>A buffer long enough makes the bounded loop the unbounded one.\<close>

lemma digits_loop_eq_digits:
  assumes "1 < b" and "0 < k" and "v < b ^ k"
  shows "digits_loop b k v = digits b v"
  using assms
proof (induction b k v rule: digits_loop.induct)
  case (1 b v)
  then show ?case by simp
next
  case (2 b k v)
  show ?case
  proof (cases "v div b \<noteq> 0 \<and> k \<noteq> 0")
    case True
    from "2.prems" have "v div b < b ^ k"
      by (metis less_mult_imp_div_less mult.commute power_Suc)
    with True 2 show ?thesis by (subst digits.simps) simp
  next
    case False
    with "2.prems" have "v div b = 0" by auto
    then show ?thesis by (subst digits.simps) simp
  qed
qed

lemma digits_val_append_zeros: "digits_val b (ds @ replicate n 0) = digits_val b ds"
proof (induction ds)
  case Nil
  show ?case by (induction n) auto
next
  case (Cons d ds)
  then show ?case by simp
qed

text \<open>Digits taken by position instead of by a loop.\<close>

lemma digits_val_positions:
  assumes "0 < b"
  shows "digits_val b (map (\<lambda>i. n div b ^ i mod b) [0..<k]) = n mod b ^ k"
proof (induction k arbitrary: n)
  case 0
  then show ?case by simp
next
  case (Suc k)
  have "map (\<lambda>i. n div b ^ i mod b) [0..<Suc k] =
      n mod b # map (\<lambda>i. (n div b) div b ^ i mod b) [0..<k]"
    unfolding upt_rec [of 0 "Suc k"]
    by (simp add: map_Suc_upt [symmetric] div_mult2_eq comp_def del: upt_Suc)
  then have "digits_val b (map (\<lambda>i. n div b ^ i mod b) [0..<Suc k]) = n mod b + b * (n div b mod b ^ k)"
    using Suc.IH [of "n div b"] by simp
  also have "\<dots> = n mod b ^ Suc k"
    by (simp add: mod_mult2_eq)
  finally show ?case .
qed

section \<open>Sinks\<close>

text \<open>
  A \<open>sink\<close> is any operation that takes one element and, when it returns, has appended a fixed
  translation of it to an observable output: a byte to a serial line, a byte to a bus.  What a
  routine that feeds a whole list into it has produced then follows once for all of them.
\<close>

fun put_all :: "('c \<Rightarrow> 's \<Rightarrow> 's option) \<Rightarrow> 'c list \<Rightarrow> 's \<Rightarrow> 's option" where
  "put_all put [] s = Some s"
| "put_all put (c # cs) s = do { s \<leftarrow> put c s; put_all put cs s }"

lemma put_all_append:
  "put_all put (xs @ ys) s = do { s \<leftarrow> put_all put xs s; put_all put ys s }"
  by (induction xs arbitrary: s) (auto split: bind_splits)

locale sink =
  fixes put :: "'c \<Rightarrow> 's \<Rightarrow> 's option"
    and out :: "'s \<Rightarrow> 'o list"
    and emit :: "'c \<Rightarrow> 'o list"
  assumes put_out: "put c s = Some s' \<Longrightarrow> out s' = out s @ emit c"
begin

lemma put_all_out:
  "put_all put cs s = Some s' \<Longrightarrow> out s' = out s @ concat (map emit cs)"
  by (induction cs arbitrary: s) (auto dest: put_out elim!: bind_SomeE)

end

text \<open>
  A sink whose elements are written unchanged, with a condition on the state under which a put
  always returns.
\<close>

locale live_sink = sink +
  fixes ready :: "'s \<Rightarrow> bool"
  assumes put_returns: "ready s \<Longrightarrow> \<exists>s'. put c s = Some s' \<and> ready s'"
begin

lemma put_all_returns: "ready s \<Longrightarrow> \<exists>s'. put_all put cs s = Some s' \<and> ready s'"
proof (induction cs arbitrary: s)
  case Nil
  then show ?case by simp
next
  case (Cons c cs)
  from put_returns [OF Cons.prems] obtain t where "put c s = Some t" "ready t" by blast
  with Cons.IH [of t] show ?case by auto
qed

end

end
