(* ===== verification/Machine.thy ===== *)
theory Machine
  imports Prelude
begin

text \<open>
  The machine the firmware runs on, as the firmware sees it: memory-mapped registers and CSRs
  behind a bus, and the static variables of the driver headers.  The peripherals themselves are a
  parameter (\<open>hw\<close>): each register read and write is an arbitrary function of the device state.
  Every access is also appended to a log, which the drivers never look at; it is what their
  theorems speak about.
\<close>

section \<open>The register map\<close>

datatype uart_reg = UART_TXDATA | UART_RXDATA | UART_STATUS | UART_CTRL
datatype timer_reg = TIMER_MTIME_LO | TIMER_MTIME_HI | TIMER_MTIMECMP_LO | TIMER_MTIMECMP_HI
datatype i2c_reg = I2C_STATUS | I2C_CTRL | I2C_CLKDIV | I2C_CMD | I2C_TXDATA | I2C_RXDATA | I2C_IRQ
datatype spi_reg = SPI_STATUS | SPI_CTRL | SPI_CLKDIV | SPI_CS | SPI_TXDATA | SPI_RXDATA | SPI_IRQ
datatype gpio_reg = GPIO_VALUE | GPIO_OUT | GPIO_DIR | GPIO_INT_TYPE | GPIO_INT_EN | GPIO_INT_STATUS
datatype plic_reg = PLIC_PENDING | PLIC_ENABLE | PLIC_CLAIM
datatype fft_reg = FFT_CTRL | FFT_STATUS | FFT_IRQ | FFT_CONF | FFT_SCALE | FFT_CYCLES | FFT_DATA nat
datatype i2s_reg = I2S_STATUS | I2S_CTRL | I2S_WATER | I2S_RXDATA | I2S_IRQ | I2S_CLKDIV

datatype mreg =
    Uart uart_reg | Timer timer_reg | MSIP | I2c i2c_reg | Spi spi_reg | Gpio gpio_reg
  | Plic plic_reg | Fft fft_reg | I2s i2s_reg | Dmem u32

fun uart_addr :: "uart_reg \<Rightarrow> u32" where
  "uart_addr UART_TXDATA = 0x10000000 + 0x00"
| "uart_addr UART_RXDATA = 0x10000000 + 0x04"
| "uart_addr UART_STATUS = 0x10000000 + 0x08"
| "uart_addr UART_CTRL   = 0x10000000 + 0x0C"

fun timer_addr :: "timer_reg \<Rightarrow> u32" where
  "timer_addr TIMER_MTIME_LO    = 0x10001000 + 0x00"
| "timer_addr TIMER_MTIME_HI    = 0x10001000 + 0x04"
| "timer_addr TIMER_MTIMECMP_LO = 0x10001000 + 0x08"
| "timer_addr TIMER_MTIMECMP_HI = 0x10001000 + 0x0C"

fun i2c_addr :: "i2c_reg \<Rightarrow> u32" where
  "i2c_addr I2C_STATUS = 0x10005000 + 0x00"
| "i2c_addr I2C_CTRL   = 0x10005000 + 0x04"
| "i2c_addr I2C_CLKDIV = 0x10005000 + 0x08"
| "i2c_addr I2C_CMD    = 0x10005000 + 0x0C"
| "i2c_addr I2C_TXDATA = 0x10005000 + 0x10"
| "i2c_addr I2C_RXDATA = 0x10005000 + 0x14"
| "i2c_addr I2C_IRQ    = 0x10005000 + 0x18"

fun spi_addr :: "spi_reg \<Rightarrow> u32" where
  "spi_addr SPI_STATUS = 0x10006000 + 0x00"
| "spi_addr SPI_CTRL   = 0x10006000 + 0x04"
| "spi_addr SPI_CLKDIV = 0x10006000 + 0x08"
| "spi_addr SPI_CS     = 0x10006000 + 0x0C"
| "spi_addr SPI_TXDATA = 0x10006000 + 0x10"
| "spi_addr SPI_RXDATA = 0x10006000 + 0x14"
| "spi_addr SPI_IRQ    = 0x10006000 + 0x18"

fun gpio_addr :: "gpio_reg \<Rightarrow> u32" where
  "gpio_addr GPIO_VALUE      = 0x10007000 + 0x00"
| "gpio_addr GPIO_OUT        = 0x10007000 + 0x04"
| "gpio_addr GPIO_DIR        = 0x10007000 + 0x08"
| "gpio_addr GPIO_INT_TYPE   = 0x10007000 + 0x0C"
| "gpio_addr GPIO_INT_EN     = 0x10007000 + 0x10"
| "gpio_addr GPIO_INT_STATUS = 0x10007000 + 0x14"

fun plic_addr :: "plic_reg \<Rightarrow> u32" where
  "plic_addr PLIC_PENDING = 0x10008000 + 0x00"
| "plic_addr PLIC_ENABLE  = 0x10008000 + 0x04"
| "plic_addr PLIC_CLAIM   = 0x10008000 + 0x08"

fun fft_addr :: "fft_reg \<Rightarrow> u32" where
  "fft_addr FFT_CTRL   = 0x1000A000 + 0x00"
| "fft_addr FFT_STATUS = 0x1000A000 + 0x04"
| "fft_addr FFT_IRQ    = 0x1000A000 + 0x08"
| "fft_addr FFT_CONF   = 0x1000A000 + 0x0C"
| "fft_addr FFT_SCALE  = 0x1000A000 + 0x10"
| "fft_addr FFT_CYCLES = 0x1000A000 + 0x14"
| "fft_addr (FFT_DATA i) = 0x1000A000 + 0x1000 + 4 * of_nat i"

fun i2s_addr :: "i2s_reg \<Rightarrow> u32" where
  "i2s_addr I2S_STATUS = 0x1000C000 + 0x00"
| "i2s_addr I2S_CTRL   = 0x1000C000 + 0x04"
| "i2s_addr I2S_WATER  = 0x1000C000 + 0x08"
| "i2s_addr I2S_RXDATA = 0x1000C000 + 0x0C"
| "i2s_addr I2S_IRQ    = 0x1000C000 + 0x10"
| "i2s_addr I2S_CLKDIV = 0x1000C000 + 0x14"

fun mmio_addr :: "mreg \<Rightarrow> u32" where
  "mmio_addr (Uart r) = uart_addr r"
| "mmio_addr (Timer r) = timer_addr r"
| "mmio_addr MSIP = 0x10003000"
| "mmio_addr (I2c r) = i2c_addr r"
| "mmio_addr (Spi r) = spi_addr r"
| "mmio_addr (Gpio r) = gpio_addr r"
| "mmio_addr (Plic r) = plic_addr r"
| "mmio_addr (Fft r) = fft_addr r"
| "mmio_addr (I2s r) = i2s_addr r"
| "mmio_addr (Dmem a) = a"

text \<open>
  The registers a program can name: sample slots of the coprocessor window below its 1024 words,
  and data memory below the peripheral bit.
\<close>

fun mreg_ok :: "mreg \<Rightarrow> bool" where
  "mreg_ok (Fft (FFT_DATA i)) = (i < 1024)"
| "mreg_ok (Dmem a) = (a < 0x10000000)"
| "mreg_ok _ = True"

section \<open>CSRs, events, the bus\<close>

datatype csr = MSTATUS | MIE | MIP | MTVEC | MEPC | MCAUSE | MTVAL | MCYCLE | MINSTRET | MSCRATCH
datatype csr_op = CsrWrite | CsrSet | CsrClear

datatype event =
    Rd mreg u32              \<comment> \<open>a load and the value it returned\<close>
  | Wr mreg u32              \<comment> \<open>a store\<close>
  | CsrRd csr u32
  | CsrOp csr_op csr u32
  | Wfi

record 'd hw =
  hw_rd :: "mreg \<Rightarrow> 'd \<Rightarrow> u32 \<times> 'd"
  hw_wr :: "mreg \<Rightarrow> u32 \<Rightarrow> 'd \<Rightarrow> 'd"
  hw_csr_rd :: "csr \<Rightarrow> 'd \<Rightarrow> u32 \<times> 'd"
  hw_csr_op :: "csr_op \<Rightarrow> csr \<Rightarrow> u32 \<Rightarrow> 'd \<Rightarrow> 'd"
  hw_wfi :: "'d \<Rightarrow> 'd"

text \<open>Registers that always read the same, and ignore what is written.\<close>

definition const_hw :: "(mreg \<Rightarrow> u32) \<Rightarrow> unit hw" where
  "const_hw f = \<lparr>hw_rd = \<lambda>r d. (f r, d), hw_wr = \<lambda>r v d. d, hw_csr_rd = \<lambda>c d. (0, d),
                 hw_csr_op = \<lambda>f c v d. d, hw_wfi = \<lambda>d. d\<rparr>"

record 'd mach =
  dev :: 'd
  evs :: "event list"

type_synonym ('d, 'z) m = "('d, 'z) mach_scheme"

definition rd :: "'d hw \<Rightarrow> mreg \<Rightarrow> ('d, 'z) m \<Rightarrow> u32 \<times> ('d, 'z) m" where
  "rd hw r s = (let (v, d) = hw_rd hw r (dev s)
                in (v, s\<lparr>dev := d, evs := evs s @ [Rd r v]\<rparr>))"

definition wr :: "'d hw \<Rightarrow> mreg \<Rightarrow> u32 \<Rightarrow> ('d, 'z) m \<Rightarrow> ('d, 'z) m" where
  "wr hw r v s = s\<lparr>dev := hw_wr hw r v (dev s), evs := evs s @ [Wr r v]\<rparr>"

definition csr_rd :: "'d hw \<Rightarrow> csr \<Rightarrow> ('d, 'z) m \<Rightarrow> u32 \<times> ('d, 'z) m" where
  "csr_rd hw c s = (let (v, d) = hw_csr_rd hw c (dev s)
                    in (v, s\<lparr>dev := d, evs := evs s @ [CsrRd c v]\<rparr>))"

definition csr_op :: "'d hw \<Rightarrow> csr_op \<Rightarrow> csr \<Rightarrow> u32 \<Rightarrow> ('d, 'z) m \<Rightarrow> ('d, 'z) m" where
  "csr_op hw f c v s = s\<lparr>dev := hw_csr_op hw f c v (dev s), evs := evs s @ [CsrOp f c v]\<rparr>"

definition wfi :: "'d hw \<Rightarrow> ('d, 'z) m \<Rightarrow> ('d, 'z) m" where
  "wfi hw s = s\<lparr>dev := hw_wfi hw (dev s), evs := evs s @ [Wfi]\<rparr>"

text \<open>\<open>R |= x\<close> and \<open>R &= x\<close> on a volatile register: one load, then one store.\<close>

definition rmw :: "'d hw \<Rightarrow> mreg \<Rightarrow> (u32 \<Rightarrow> u32) \<Rightarrow> ('d, 'z) m \<Rightarrow> ('d, 'z) m" where
  "rmw hw r f s = (let (v, s) = rd hw r s in wr hw r (f v) s)"

text \<open>
  \<open>while (!ok(R)) ;\<close>: the value that ended the wait.  There is no time-out, so a device that
  never satisfies the condition is the result \<^const>\<open>None\<close>.
\<close>

partial_function (option) wait_reg ::
  "'d hw \<Rightarrow> mreg \<Rightarrow> (u32 \<Rightarrow> bool) \<Rightarrow> ('d, 'z) m \<Rightarrow> (u32 \<times> ('d, 'z) m) option" where
  "wait_reg hw r ok s =
     (let (v, s) = rd hw r s in if ok v then Some (v, s) else wait_reg hw r ok s)"

declare wait_reg.simps [code]

section \<open>Reading the log\<close>

fun writes :: "event list \<Rightarrow> (mreg \<times> u32) list" where
  "writes [] = []"
| "writes (Wr r v # es) = (r, v) # writes es"
| "writes (_ # es) = writes es"

fun reads :: "mreg \<Rightarrow> event list \<Rightarrow> u32 list" where
  "reads r [] = []"
| "reads r (Rd r' v # es) = (if r' = r then v # reads r es else reads r es)"
| "reads r (_ # es) = reads r es"

definition writes_to :: "mreg \<Rightarrow> event list \<Rightarrow> u32 list" where
  "writes_to r es = map snd (filter (\<lambda>(r', v). r' = r) (writes es))"

lemma writes_append [log_simps, simp]: "writes (xs @ ys) = writes xs @ writes ys"
  by (induction xs rule: writes.induct) auto

lemma reads_append [log_simps, simp]: "reads r (xs @ ys) = reads r xs @ reads r ys"
  by (induction xs rule: reads.induct) auto

lemma writes_map_Rd [log_simps, simp]: "writes (map (Rd r) vs) = []"
  by (induction vs) auto

lemma reads_map_Rd [log_simps, simp]: "reads r (map (Rd r') vs) = (if r' = r then vs else [])"
  by (induction vs) auto

lemma writes_to_append [log_simps, simp]:
  "writes_to r (xs @ ys) = writes_to r xs @ writes_to r ys"
  by (simp add: writes_to_def)

lemma writes_to_simps [log_simps, simp]:
  "writes_to r [] = []"
  "writes_to r (Wr r' v # es) = (if r' = r then v # writes_to r es else writes_to r es)"
  "writes_to r (Rd r' v # es) = writes_to r es"
  "writes_to r (CsrRd c v # es) = writes_to r es"
  "writes_to r (CsrOp f c v # es) = writes_to r es"
  "writes_to r (Wfi # es) = writes_to r es"
  by (auto simp: writes_to_def)

lemma writes_to_map_Rd [log_simps, simp]: "writes_to r (map (Rd r') vs) = []"
  by (induction vs) auto

section \<open>What accesses do to the machine\<close>

text \<open>Bus traffic changes the device and the log only.\<close>

definition only_bus :: "('d, 'z) m \<Rightarrow> ('d, 'z) m \<Rightarrow> bool" where
  "only_bus s s' \<longleftrightarrow> s' = s\<lparr>dev := dev s', evs := evs s'\<rparr>"

lemma only_bus_refl [simp]: "only_bus s s"
  by (simp add: only_bus_def)

lemma only_bus_trans: "only_bus s t \<Longrightarrow> only_bus t u \<Longrightarrow> only_bus s u"
  by (cases s; cases t; cases u) (simp add: only_bus_def)

lemma only_bus_wr [frame_simps, simp]: "only_bus s (wr hw r v s)"
  by (simp add: only_bus_def wr_def)

lemma only_bus_rd [frame_simps, simp]: "only_bus s (snd (rd hw r s))"
  by (simp add: only_bus_def rd_def split: prod.splits)

lemma evs_wr [log_simps, simp]: "evs (wr hw r v s) = evs s @ [Wr r v]"
  by (simp add: wr_def)

lemma evs_rd [log_simps, simp]: "evs (snd (rd hw r s)) = evs s @ [Rd r (fst (rd hw r s))]"
  by (simp add: rd_def split: prod.splits)

lemma rd_eqD: "rd hw r s = (v, s') \<Longrightarrow> evs s' = evs s @ [Rd r v] \<and> only_bus s s'"
  by (metis evs_rd only_bus_rd fst_conv snd_conv)

lemma evs_csr_op [log_simps, simp]: "evs (csr_op hw f c v s) = evs s @ [CsrOp f c v]"
  by (simp add: csr_op_def)

lemma csr_rd_eqD: "csr_rd hw c s = (v, s') \<Longrightarrow> evs s' = evs s @ [CsrRd c v] \<and> only_bus s s'"
  by (auto simp: csr_rd_def only_bus_def split: prod.splits)

lemma evs_rmw [log_simps, simp]:
  "evs (rmw hw r f s) = evs s @ [Rd r (fst (rd hw r s)), Wr r (f (fst (rd hw r s)))]"
  by (simp add: rmw_def rd_def split: prod.splits)

lemma only_bus_rmw [frame_simps, simp]: "only_bus s (rmw hw r f s)"
  by (simp add: rmw_def rd_def wr_def only_bus_def split: prod.splits)

lemma wait_reg_log:
  assumes "wait_reg hw r ok s = Some (v, s')"
  shows "ok v \<and> only_bus s s' \<and>
    (\<exists>vs. evs s' = evs s @ map (Rd r) vs @ [Rd r v] \<and> (\<forall>x \<in> set vs. \<not> ok x))"
proof -
  have "case (v, s') of (v, s') \<Rightarrow> ok v \<and> only_bus s s' \<and>
    (\<exists>vs. evs s' = evs s @ map (Rd r) vs @ [Rd r v] \<and> (\<forall>x \<in> set vs. \<not> ok x))"
  proof (rule wait_reg.raw_induct [where P = "\<lambda>hw r ok s (v, s'). ok v \<and> only_bus s s' \<and>
      (\<exists>vs. evs s' = evs s @ map (Rd r) vs @ [Rd r v] \<and> (\<forall>x \<in> set vs. \<not> ok x))", OF _ assms])
    fix f :: "'d hw \<Rightarrow> mreg \<Rightarrow> (u32 \<Rightarrow> bool) \<Rightarrow> ('d, 'z) m \<Rightarrow> (u32 \<times> ('d, 'z) m) option"
    fix hw r ok s and res :: "u32 \<times> ('d, 'z) m"
    assume IH: "\<And>hw r ok s res. f hw r ok s = Some res \<Longrightarrow>
      (case res of (v, s') \<Rightarrow> ok v \<and> only_bus s s' \<and>
        (\<exists>vs. evs s' = evs s @ map (Rd r) vs @ [Rd r v] \<and> (\<forall>x \<in> set vs. \<not> ok x)))"
    assume eq: "(let (v, s) = rd hw r s in if ok v then Some (v, s) else f hw r ok s) = Some res"
    obtain x t where t: "rd hw r s = (x, t)" by (cases "rd hw r s")
    from rd_eqD [OF t] have ev: "evs t = evs s @ [Rd r x]" and ob: "only_bus s t" by auto
    show "case res of (v, s') \<Rightarrow> ok v \<and> only_bus s s' \<and>
        (\<exists>vs. evs s' = evs s @ map (Rd r) vs @ [Rd r v] \<and> (\<forall>x \<in> set vs. \<not> ok x))"
    proof (cases "ok x")
      case True
      with eq t ev ob show ?thesis by (auto intro!: exI [of _ "[]"])
    next
      case False
      with eq t have "f hw r ok t = Some res" by simp
      from IH [OF this] obtain v s' vs where res: "res = (v, s')" and "ok v"
        and "only_bus t s'" and vs: "evs s' = evs t @ map (Rd r) vs @ [Rd r v]"
        and nok: "\<forall>x \<in> set vs. \<not> ok x"
        by (cases res) auto
      have "evs s' = evs s @ map (Rd r) (x # vs) @ [Rd r v]"
        using vs ev by simp
      moreover have "\<forall>y \<in> set (x # vs). \<not> ok y"
        using nok False by simp
      ultimately have "\<exists>vs. evs s' = evs s @ map (Rd r) vs @ [Rd r v] \<and> (\<forall>y \<in> set vs. \<not> ok y)"
        by blast
      then show ?thesis
        using res \<open>ok v\<close> only_bus_trans [OF ob \<open>only_bus t s'\<close>] by simp
    qed
  qed
  then show ?thesis by simp
qed

text \<open>
  The form the drivers use: a wait writes nothing, reads its own register only, and ends on a value
  that satisfies the condition.
\<close>

lemma wait_regD:
  assumes "wait_reg hw r ok s = Some (v, s')"
  shows "ok v" and "only_bus s s'" and "writes (evs s') = writes (evs s)"
    and "writes_to q (evs s') = writes_to q (evs s)"
    and "r' \<noteq> r \<Longrightarrow> reads r' (evs s') = reads r' (evs s)"
  using wait_reg_log [OF assms] by auto

text \<open>
  A wait returns as soon as the device, polled, eventually satisfies the condition: if the first
  \<open>n\<close> reads leave the device in a state whose next read is accepted, the wait ends.
\<close>

fun poll_dev :: "'d hw \<Rightarrow> mreg \<Rightarrow> nat \<Rightarrow> 'd \<Rightarrow> 'd" where
  "poll_dev hw r 0 d = d"
| "poll_dev hw r (Suc n) d = poll_dev hw r n (snd (hw_rd hw r d))"

lemma wait_reg_returns:
  "ok (fst (hw_rd hw r (poll_dev hw r n (dev s)))) \<Longrightarrow> \<exists>v s'. wait_reg hw r ok s = Some (v, s')"
proof (induction n arbitrary: s)
  case 0
  then show ?case by (subst wait_reg.simps) (auto simp: rd_def split: prod.splits)
next
  case (Suc n)
  obtain x t where t: "rd hw r s = (x, t)" by (cases "rd hw r s")
  then have "dev t = snd (hw_rd hw r (dev s))"
    by (auto simp: rd_def split: prod.splits)
  with Suc.prems have "ok (fst (hw_rd hw r (poll_dev hw r n (dev t))))" by simp
  from Suc.IH [OF this] show ?case
    by (subst wait_reg.simps) (auto simp: t)
qed

text \<open>The exact device state a wait leaves: the one after the first accepted poll.\<close>

lemma wait_reg_ends:
  "ok (fst (hw_rd hw r (poll_dev hw r n (dev s)))) \<Longrightarrow>
   \<exists>k v t. wait_reg hw r ok s = Some (v, t) \<and> k \<le> n \<and> v = fst (hw_rd hw r (poll_dev hw r k (dev s))) \<and>
     ok v \<and> dev t = poll_dev hw r (Suc k) (dev s)"
proof (induction n arbitrary: s)
  case 0
  then show ?case by (subst wait_reg.simps) (auto simp: rd_def split: prod.splits)
next
  case (Suc n)
  obtain x t where t: "rd hw r s = (x, t)" by (cases "rd hw r s")
  then have x: "x = fst (hw_rd hw r (dev s))" and dt: "dev t = snd (hw_rd hw r (dev s))"
    by (auto simp: rd_def split: prod.splits)
  show ?case
  proof (cases "ok x")
    case True
    then show ?thesis
      by (subst wait_reg.simps) (auto simp: t x dt intro!: exI [of _ 0])
  next
    case False
    from Suc.prems dt have "ok (fst (hw_rd hw r (poll_dev hw r n (dev t))))" by simp
    from Suc.IH [OF this] obtain k v u where "wait_reg hw r ok t = Some (v, u)" "k \<le> n"
      "v = fst (hw_rd hw r (poll_dev hw r k (dev t)))" "ok v" "dev u = poll_dev hw r (Suc k) (dev t)" by blast
    then show ?thesis
      using False by (subst wait_reg.simps) (auto simp: t dt intro!: exI [of _ "Suc k"])
  qed
qed

lemma rd_const: "rd (const_hw f) r s = (f r, s\<lparr>evs := evs s @ [Rd r (f r)]\<rparr>)"
  by (simp add: rd_def const_hw_def)

section \<open>No two registers share an address\<close>

lemma fft_data_addr:
  "i < 1024 \<Longrightarrow> unat (fft_addr (FFT_DATA i)) = 0x1000B000 + 4 * i"
  by (simp add: unat_word_ariths unat_of_nat)

text \<open>The peripheral window a register lies in: the 4 KiB page of its address.\<close>

definition page_of :: "u32 \<Rightarrow> u32" where
  "page_of a = drop_bit 12 a"

end
