(* ===== verification/Uart.thy ===== *)
theory Uart
  imports Machine
begin

text \<open>
  \<open>sim/sw/common/uart.h\<close>: polled byte output and input, and the hexadecimal printer.  The build
  default \<open>UART_TX_PACED == 0\<close> is modelled.
\<close>

definition UART_TX_READY_BIT :: u32 where "UART_TX_READY_BIT = 0x1"
definition UART_RX_READY_BIT :: u32 where "UART_RX_READY_BIT = 0x2"

definition uart_getc :: "'d hw \<Rightarrow> ('d, 'z) m \<Rightarrow> (char \<times> ('d, 'z) m) option" where
  "uart_getc hw s = do {
     (_, s) \<leftarrow> wait_reg hw (Uart UART_STATUS) (\<lambda>v. v AND UART_RX_READY_BIT \<noteq> 0) s;
     let (v, s) = rd hw (Uart UART_RXDATA) s;
     Some (char_of (unat (v AND 0xFF)), s)
   }"

definition uart_putc :: "'d hw \<Rightarrow> char \<Rightarrow> ('d, 'z) m \<Rightarrow> ('d, 'z) m option" where
  "uart_putc hw c s = do {
     (_, s) \<leftarrow> wait_reg hw (Uart UART_STATUS) (\<lambda>v. v AND UART_TX_READY_BIT \<noteq> 0) s;
     Some (wr hw (Uart UART_TXDATA) (of_char c) s)
   }"

definition uart_puts :: "'d hw \<Rightarrow> string \<Rightarrow> ('d, 'z) m \<Rightarrow> ('d, 'z) m option" where
  "uart_puts hw str s = put_all (uart_putc hw) str s"

definition hex_upper :: string where
  "hex_upper = ''0123456789ABCDEF''"

text \<open>The nibbles of a word from bit 28 down, as the two printing loops walk them.\<close>

definition hex_nibbles :: "u32 \<Rightarrow> nat list" where
  "hex_nibbles v = map (\<lambda>i. unat (drop_bit i v AND 0xF)) [28, 24, 20, 16, 12, 8, 4, 0]"

definition uart_put_hex32 :: "'d hw \<Rightarrow> u32 \<Rightarrow> ('d, 'z) m \<Rightarrow> ('d, 'z) m option" where
  "uart_put_hex32 hw v s = do {
     s \<leftarrow> uart_puts hw ''0x'' s;
     put_all (uart_putc hw) (map (\<lambda>d. hex_upper ! d) (hex_nibbles v)) s
   }"

section \<open>What has gone out on the line\<close>

definition uart_out :: "('d, 'z) m \<Rightarrow> string" where
  "uart_out s = map (\<lambda>v. char_of (unat v)) (writes_to (Uart UART_TXDATA) (evs s))"

lemma unat_of_char_u32 [simp]: "unat (of_char c :: u32) = of_char c"
proof -
  have "of_char c mod 2 ^ 32 = (of_char c :: nat)"
    by (rule mod_less) (rule less_trans [OF nat_of_char_less_256], simp)
  then show ?thesis by (simp add: of_char_conv_nat unat_of_nat)
qed

lemma uart_putc_log:
  assumes "uart_putc hw c s = Some s'"
  shows "writes (evs s') = writes (evs s) @ [(Uart UART_TXDATA, of_char c)] \<and> only_bus s s'"
proof -
  from assms obtain v t where w: "wait_reg hw (Uart UART_STATUS) (\<lambda>v. v AND UART_TX_READY_BIT \<noteq> 0) s = Some (v, t)"
    and s': "s' = wr hw (Uart UART_TXDATA) (of_char c) t"
    by (auto simp: uart_putc_def elim!: bind_SomeE)
  show ?thesis
    using wait_regD(3) [OF w] only_bus_trans [OF wait_regD(2) [OF w] only_bus_wr]
    by (simp add: s')
qed

lemma uart_putc_out: "uart_putc hw c s = Some s' \<Longrightarrow> uart_out s' = uart_out s @ [c]"
  using uart_putc_log [of hw c s s'] by (simp add: uart_out_def writes_to_def)

text \<open>
  The transmitter keeps up: polled, TX_READY eventually reads as set, and after the byte that is
  then written the same holds again.  It is the documented behaviour of the TX FIFO that every
  busy-wait of \<open>uart.h\<close> relies on.
\<close>

coinductive tx_live :: "'d hw \<Rightarrow> 'd \<Rightarrow> bool" for hw where
  tx_live:
    "fst (hw_rd hw (Uart UART_STATUS) (poll_dev hw (Uart UART_STATUS) n d)) AND UART_TX_READY_BIT \<noteq> 0 \<Longrightarrow>
     (\<And>i. i < n \<Longrightarrow>
       fst (hw_rd hw (Uart UART_STATUS) (poll_dev hw (Uart UART_STATUS) i d)) AND UART_TX_READY_BIT = 0) \<Longrightarrow>
     (\<And>v. tx_live hw (hw_wr hw (Uart UART_TXDATA) v (poll_dev hw (Uart UART_STATUS) (Suc n) d))) \<Longrightarrow>
     tx_live hw d"

lemma uart_putc_returns:
  assumes "tx_live hw (dev s)"
  shows "\<exists>s'. uart_putc hw c s = Some s' \<and> tx_live hw (dev s')"
  using assms
proof (cases rule: tx_live.cases)
  case (tx_live n)
  from wait_reg_ends [where ok = "\<lambda>v. v AND UART_TX_READY_BIT \<noteq> 0" and s = s, OF tx_live(1)] tx_live(2)
  obtain v t where "wait_reg hw (Uart UART_STATUS) (\<lambda>v. v AND UART_TX_READY_BIT \<noteq> 0) s = Some (v, t)"
    and t: "dev t = poll_dev hw (Uart UART_STATUS) (Suc n) (dev s)"
    by (metis le_neq_implies_less)
  then have "uart_putc hw c s = Some (wr hw (Uart UART_TXDATA) (of_char c) t)"
    by (simp add: uart_putc_def)
  moreover have "tx_live hw (dev (wr hw (Uart UART_TXDATA) (of_char c) t))"
    using tx_live(3) by (simp add: wr_def t)
  ultimately show ?thesis by blast
qed

text \<open>The line is a sink that appends the character itself, and a live one while the device is.\<close>

interpretation uart_line: sink "uart_putc hw" uart_out "\<lambda>c. [c]" for hw
  by unfold_locales (rule uart_putc_out)

interpretation uart_live: live_sink "uart_putc hw" uart_out "\<lambda>c. [c]" "\<lambda>s. tx_live hw (dev s)" for hw
  by unfold_locales (rule uart_putc_returns)

lemma concat_singletons [simp]: "concat (map (\<lambda>x. [x]) xs) = xs"
  by (induction xs) auto

lemma uart_puts_out: "uart_puts hw str s = Some s' \<Longrightarrow> uart_out s' = uart_out s @ str"
  using uart_line.put_all_out [of hw str s s'] by (simp add: uart_puts_def)

section \<open>Hexadecimal\<close>

lemma hex_nibbles_eq:
  "hex_nibbles v = rev (map (\<lambda>i. unat v div 16 ^ i mod 16) [0..<8])"
proof -
  have nib: "unat (drop_bit (4 * i) v AND 0xF) = unat v div 16 ^ i mod 16" for i
  proof -
    have "unat (drop_bit (4 * i) v AND 0xF) = unat v div 2 ^ (4 * i) mod 16"
      by (simp add: and_masks unat_take_bit unat_drop_bit)
    then show ?thesis by (simp add: power_mult)
  qed
  have "[28, 24, 20, 16, 12, 8, 4, 0] = map (\<lambda>i. 4 * i) (rev [0..<8])"
    by code_simp
  then show ?thesis
    by (simp only: hex_nibbles_def map_map comp_def nib rev_map)
qed

lemma hex_nibbles_val: "digits_val 16 (rev (hex_nibbles v)) = unat v"
proof -
  have "unat v < 16 ^ 8" using unat_bound [of v] by simp
  then show ?thesis
    using digits_val_positions [of 16 "unat v" 8] by (simp add: hex_nibbles_eq)
qed

lemma hex_nibbles_length [simp]: "length (hex_nibbles v) = 8"
  by (simp add: hex_nibbles_def)

lemma hex_nibbles_lt: "d \<in> set (hex_nibbles v) \<Longrightarrow> d < 16"
  by (auto simp: hex_nibbles_eq)


text \<open>
  A device whose status register always reads ready keeps up.
\<close>

lemma tx_live_const:
  assumes "f (Uart UART_STATUS) AND UART_TX_READY_BIT \<noteq> 0"
  shows "tx_live (const_hw f) d"
proof (coinduction arbitrary: d rule: tx_live.coinduct)
  case tx_live
  then show ?case using assms by (auto simp: const_hw_def intro!: exI [of _ 0])
qed

section \<open>Properties\<close>

text \<open>While the transmitter drains, \<open>uart_puts\<close> returns and has put exactly the string on the
  line, in order.\<close>

theorem uart_puts_delivers:
  assumes "tx_live hw (dev s)"
  shows "\<exists>s'. uart_puts hw str s = Some s' \<and> tx_live hw (dev s') \<and> uart_out s' = uart_out s @ str"
  using uart_live.put_all_returns [OF assms, of str] uart_puts_out [of hw str s]
  by (auto simp: uart_puts_def)

theorem uart_puts_delivers_witness:
  "\<exists>s'. uart_puts (const_hw (\<lambda>_. 3)) ''ok'' \<lparr>dev = (), evs = []\<rparr> = Some s' \<and> uart_out s' = ''ok''"
proof -
  have "tx_live (const_hw (\<lambda>_. 3)) ()"
    by (rule tx_live_const) (simp add: UART_TX_READY_BIT_def)
  with uart_puts_delivers [of "const_hw (\<lambda>_. 3)" "\<lparr>dev = (), evs = []\<rparr>" "''ok''"]
  show ?thesis by (auto simp: uart_out_def)
qed

end
