(* ===== verification/Printf.thy ===== *)
theory Printf
  imports Uart
begin

text \<open>
  \<open>sim/sw/common/ee_printf.c\<close>: the integer \<open>printf\<close> over the UART.  A conversion that finds no
  argument of its kind, and a format that ends inside a conversion, are undefined behaviour of the
  C program and give \<^const>\<open>None\<close>.
\<close>

definition put_char :: "'d hw \<Rightarrow> char \<Rightarrow> ('d, 'z) m \<Rightarrow> ('d, 'z) m option" where
  "put_char hw c s =
     (if c = CHR 0x0A
      then do { s \<leftarrow> uart_putc hw (CHR 0x0D) s; uart_putc hw c s }
      else uart_putc hw c s)"

definition put_str :: "'d hw \<Rightarrow> string \<Rightarrow> ('d, 'z) m \<Rightarrow> ('d, 'z) m option" where
  "put_str hw str s = put_all (put_char hw) str s"

definition dec_char :: "nat \<Rightarrow> char" where
  "dec_char d = char_of (48 + d)"

text \<open>The zero padding: \<open>while (i < width && i < sizeof buf) buf[i++] = '0';\<close>.\<close>

definition pad_zeros :: "int \<Rightarrow> nat \<Rightarrow> nat list \<Rightarrow> nat list" where
  "pad_zeros width room ds = ds @ replicate (min (nat width) room - length ds) 0"

definition put_dec :: "'d hw \<Rightarrow> u32 \<Rightarrow> bool \<Rightarrow> int \<Rightarrow> ('d, 'z) m \<Rightarrow> ('d, 'z) m option" where
  "put_dec hw v is_signed width s = do {
     (v, s) \<leftarrow> (if is_signed \<and> sint v < 0
               then do { s \<leftarrow> put_char hw (CHR ''-'') s; Some (- v, s) }
               else Some (v, s));
     let buf = pad_zeros width 12 (digits 10 (unat v));
     put_all (put_char hw) (map dec_char (rev buf)) s
   }"

definition hex_lower :: string where
  "hex_lower = ''0123456789abcdef''"

definition put_hex :: "'d hw \<Rightarrow> u32 \<Rightarrow> int \<Rightarrow> ('d, 'z) m \<Rightarrow> ('d, 'z) m option" where
  "put_hex hw v width s =
     (let buf = pad_zeros width 8 (digits 16 (unat v))
      in put_all (put_char hw) (map (\<lambda>d. hex_lower ! d) (rev buf)) s)"

datatype va = VWord u32 | VStr string

text \<open>The width loop of a conversion: the number read and the rest of the format.\<close>

fun scan_width :: "int \<Rightarrow> string \<Rightarrow> int \<times> string" where
  "scan_width width [] = (width, [])"
| "scan_width width (c # cs) =
     (if 48 \<le> (of_char c :: nat) \<and> (of_char c :: nat) \<le> 57
      then scan_width (width * 10 + (int (of_char c) - 48)) cs
      else (width, c # cs))"

lemma scan_width_length: "length (snd (scan_width w cs)) \<le> length cs"
  by (induction w cs rule: scan_width.induct) auto

text \<open>One conversion character applied to the argument list.\<close>

fun conversion :: "'d hw \<Rightarrow> char \<Rightarrow> int \<Rightarrow> va list \<Rightarrow> ('d, 'z) m \<Rightarrow> (va list \<times> ('d, 'z) m) option" where
  "conversion hw c width ap s =
     (if c = CHR ''d'' then
        (case ap of VWord v # ap \<Rightarrow> do { s \<leftarrow> put_dec hw v True width s; Some (ap, s) } | _ \<Rightarrow> None)
      else if c = CHR ''u'' then
        (case ap of VWord v # ap \<Rightarrow> do { s \<leftarrow> put_dec hw v False width s; Some (ap, s) } | _ \<Rightarrow> None)
      else if c = CHR ''x'' then
        (case ap of VWord v # ap \<Rightarrow> do { s \<leftarrow> put_hex hw v width s; Some (ap, s) } | _ \<Rightarrow> None)
      else if c = CHR ''s'' then
        (case ap of VStr t # ap \<Rightarrow> do { s \<leftarrow> put_str hw t s; Some (ap, s) } | _ \<Rightarrow> None)
      else if c = CHR ''c'' then
        (case ap of VWord v # ap \<Rightarrow>
           do { s \<leftarrow> put_char hw (char_of (unat (v AND 0xFF))) s; Some (ap, s) } | _ \<Rightarrow> None)
      else if c = CHR ''%'' then do { s \<leftarrow> put_char hw (CHR ''%'') s; Some (ap, s) }
      else Some (ap, s))"

lemma printf_shrinks:
  assumes "scan_width 0 fmt = (w, rest)" and "dropWhile P rest = c # fmt'"
  shows "length fmt' < Suc (length fmt)"
proof -
  have "length rest \<le> length fmt" using scan_width_length [of 0 fmt] assms(1) by simp
  moreover have "length (c # fmt') \<le> length rest"
    using length_dropWhile_le [of P rest] assms(2) by simp
  ultimately show ?thesis by simp
qed

function printf :: "'d hw \<Rightarrow> string \<Rightarrow> va list \<Rightarrow> ('d, 'z) m \<Rightarrow> ('d, 'z) m option" where
  "printf hw [] ap s = Some s"
| "printf hw (c # fmt) ap s =
     (if c \<noteq> CHR ''%'' then do { s \<leftarrow> put_char hw c s; printf hw fmt ap s }
      else (let (width, fmt) = scan_width 0 fmt;
                fmt = dropWhile (\<lambda>c. c = CHR ''l'') fmt
            in case fmt of
                 [] \<Rightarrow> None
               | c # fmt \<Rightarrow> do { (ap, s) \<leftarrow> conversion hw c width ap s; printf hw fmt ap s }))"
  by pat_completeness auto

termination
  by (relation "measure (\<lambda>(hw, fmt, ap, s). length fmt)") (auto dest: printf_shrinks [OF sym sym])

text \<open>The line through \<open>put_char\<close> is a sink that expands a newline to CR LF.\<close>

definition crlf :: "char \<Rightarrow> string" where
  "crlf c = (if c = CHR 0x0A then [CHR 0x0D, c] else [c])"

lemma put_char_out: "put_char hw c s = Some s' \<Longrightarrow> uart_out s' = uart_out s @ crlf c"
  by (auto simp: put_char_def crlf_def split: if_splits elim!: bind_SomeE dest!: uart_putc_out)

interpretation crlf_line: sink "put_char hw" uart_out crlf for hw
  by unfold_locales (rule put_char_out)

lemma put_char_returns:
  "tx_live hw (dev s) \<Longrightarrow> \<exists>s'. put_char hw c s = Some s' \<and> tx_live hw (dev s')"
proof -
  assume live: "tx_live hw (dev s)"
  obtain t where t: "uart_putc hw (CHR 0x0D) s = Some t" "tx_live hw (dev t)"
    using uart_putc_returns [OF live] by blast
  obtain u where u: "uart_putc hw (CHR 0x0A) t = Some u" "tx_live hw (dev u)"
    using uart_putc_returns [OF t(2)] by blast
  obtain q where q: "uart_putc hw c s = Some q" "tx_live hw (dev q)"
    using uart_putc_returns [OF live] by blast
  show ?thesis using t u q by (simp add: put_char_def)
qed

interpretation crlf_live: live_sink "put_char hw" uart_out crlf "\<lambda>s. tx_live hw (dev s)" for hw
  by unfold_locales (rule put_char_returns)

lemma crlf_plain [simp]: "c \<noteq> CHR 0x0A \<Longrightarrow> crlf c = [c]"
  by (simp add: crlf_def)

lemma of_char_dec_char: "d < 10 \<Longrightarrow> of_char (dec_char d) = 48 + d"
  by (simp add: dec_char_def)

lemma dec_char_plain: "d < 10 \<Longrightarrow> dec_char d \<noteq> CHR 0x0A"
  using of_char_dec_char [of d] by auto

lemma hex_lower_plain: "d < 16 \<Longrightarrow> hex_lower ! d \<noteq> CHR 0x0A"
proof -
  assume "d < 16"
  then have "hex_lower ! d \<in> set hex_lower"
    by (intro nth_mem) (simp add: hex_lower_def)
  moreover have "CHR 0x0A \<notin> set hex_lower" by (simp add: hex_lower_def)
  ultimately show ?thesis by metis
qed

lemma concat_map_crlf: "\<forall>c \<in> set cs. c \<noteq> CHR 0x0A \<Longrightarrow> concat (map crlf cs) = cs"
  by (induction cs) auto

lemma digits_lt: "1 < b \<Longrightarrow> d \<in> set (digits b v) \<Longrightarrow> d < b"
proof (induction b v rule: digits.induct)
  case (1 b v)
  from "1.prems"(2) show ?case
    by (subst (asm) digits.simps) (use 1 in \<open>auto split: if_splits\<close>)
qed

lemma pad_zeros_lt: "0 < b \<Longrightarrow> \<forall>d \<in> set ds. d < b \<Longrightarrow> d \<in> set (pad_zeros w r ds) \<Longrightarrow> d < b"
  by (auto simp: pad_zeros_def)

lemma digits_val_digits: "1 < b \<Longrightarrow> digits_val b (digits b v) = v"
proof (induction b v rule: digits.induct)
  case (1 b v)
  show ?case
  proof (cases "v div b = 0")
    case True
    then show ?thesis using div_mult_mod_eq [of v b] by (subst digits.simps) simp
  next
    case False
    then show ?thesis using 1 by (subst digits.simps) simp
  qed
qed

lemma length_pad_zeros: "length (pad_zeros w r ds) = max (length ds) (min (nat w) r)"
  by (simp add: pad_zeros_def)

lemma digits_val_pad_zeros: "digits_val b (pad_zeros w r ds) = digits_val b ds"
  by (simp add: pad_zeros_def digits_val_append_zeros)

lemma put_dec_magnitude:
  "unat (if is_signed \<and> sint v < 0 then - v else v) = (if is_signed then nat \<bar>sint v\<bar> else unat v)"
  for v :: u32
  using unat_abs_u32 [of v] by (cases is_signed) simp_all

section \<open>What a format denotes\<close>

text \<open>
  The text of a conversion and of a whole format, with no machine in sight and by definitions of its own: the
  specification the printer is proved to implement.  A width is read as a decimal number, and a number is written by
  its places, \<open>n div b ^ i mod b\<close>, most significant first.  \<^const>\<open>None\<close> is a format the C program may not
  be called with.
\<close>

definition is_decimal :: "char \<Rightarrow> bool" where
  "is_decimal c \<longleftrightarrow> c \<in> set ''0123456789''"

definition decimal :: "string \<Rightarrow> nat" where
  "decimal ds = (\<Sum>i < length ds. (of_char (ds ! i) - 48) * 10 ^ (length ds - 1 - i))"

text \<open>The number of places of a number below \<open>b ^ 32\<close>, and the lowest \<open>k\<close> of them.\<close>

definition places :: "nat \<Rightarrow> nat \<Rightarrow> nat" where
  "places b n = Suc (length (filter (\<lambda>k. b ^ k \<le> n) [1..<32]))"

definition figures :: "nat \<Rightarrow> nat \<Rightarrow> nat \<Rightarrow> nat list" where
  "figures b k n = map (\<lambda>i. n div b ^ i mod b) (rev [0..<k])"

text \<open>The buffers hold 12 decimal and 8 hexadecimal digits, which bounds the padding.\<close>

definition dec_text :: "u32 \<Rightarrow> bool \<Rightarrow> nat \<Rightarrow> string" where
  "dec_text v is_signed width =
     (let n = (if is_signed then nat \<bar>sint v\<bar> else unat v)
      in (if is_signed \<and> sint v < 0 then ''-'' else []) @
         map (\<lambda>d. ''0123456789'' ! d) (figures 10 (max (places 10 n) (min width 12)) n))"

definition hex_text :: "u32 \<Rightarrow> nat \<Rightarrow> string" where
  "hex_text v width =
     map (\<lambda>d. ''0123456789abcdef'' ! d) (figures 16 (max (places 16 (unat v)) (min width 8)) (unat v))"

fun conv_text :: "char \<Rightarrow> nat \<Rightarrow> va list \<Rightarrow> (string \<times> va list) option" where
  "conv_text c width (VWord v # ap) =
     (if c = CHR ''d'' then Some (dec_text v True width, ap)
      else if c = CHR ''u'' then Some (dec_text v False width, ap)
      else if c = CHR ''x'' then Some (hex_text v width, ap)
      else if c = CHR ''s'' then None
      else if c = CHR ''c'' then Some ([char_of (unat (v AND 0xFF))], ap)
      else Some (if c = CHR ''%'' then ''%'' else [], VWord v # ap))"
| "conv_text c width (VStr t # ap) =
     (if c = CHR ''s'' then Some (t, ap)
      else if c \<in> set ''duxc'' then None
      else Some (if c = CHR ''%'' then ''%'' else [], VStr t # ap))"
| "conv_text c width [] =
     (if c \<in> set ''duxsc'' then None else Some (if c = CHR ''%'' then ''%'' else [], []))"

function format_text :: "string \<Rightarrow> va list \<Rightarrow> string option" where
  "format_text [] ap = Some []"
| "format_text (c # fmt) ap =
     (if c \<noteq> CHR ''%'' then map_option ((#) c) (format_text fmt ap)
      else (case dropWhile (\<lambda>c. c = CHR ''l'') (dropWhile is_decimal fmt) of
              [] \<Rightarrow> None
            | d # fmt' \<Rightarrow> do { (t, ap') \<leftarrow> conv_text d (decimal (takeWhile is_decimal fmt)) ap;
                             rest \<leftarrow> format_text fmt' ap';
                             Some (t @ rest) }))"
  by pat_completeness auto
termination
proof (relation "measure (\<lambda>(fmt, ap). length fmt)")
  fix c :: char and fmt :: string and ap ap' :: "va list" and d fmt' t and x :: "string \<times> va list"
  assume "dropWhile (\<lambda>c. c = CHR ''l'') (dropWhile is_decimal fmt) = d # fmt'"
  then have "Suc (length fmt') \<le> length fmt"
    using length_dropWhile_le [of "\<lambda>c. c = CHR ''l''" "dropWhile is_decimal fmt"] length_dropWhile_le [of is_decimal fmt] by simp
  then show "((fmt', ap'), c # fmt, ap) \<in> measure (\<lambda>(fmt, ap). length fmt)" by simp
qed simp_all

section \<open>The code's numbers are those of the specification\<close>

lemma is_decimal_chars [simp]:
  "is_decimal (CHR ''0'')" "is_decimal (CHR ''2'')" "is_decimal (CHR ''3'')" "\<not> is_decimal (CHR ''%'')" "\<not> is_decimal (CHR ''.'')"
  "\<not> is_decimal (CHR ''u'')" "\<not> is_decimal (CHR ''d'')" "\<not> is_decimal (CHR ''x'')" "\<not> is_decimal (CHR ''s'')" "\<not> is_decimal (CHR ''l'')"
  by (simp_all add: is_decimal_def)

lemma decimal_values [simp]: "decimal [] = 0" "decimal ''02'' = 2" "decimal ''03'' = 3"
  by (simp_all add: decimal_def)

lemma dec_char_numeral: "d < 10 \<Longrightarrow> dec_char d = ''0123456789'' ! d"
proof -
  assume "d < 10"
  then have "d \<in> {0, 1, 2, 3, 4, 5, 6, 7, 8, 9}" by auto
  then show ?thesis by (auto simp: dec_char_def char_of_def bit_0)
qed

lemma is_decimal_code: "is_decimal c \<longleftrightarrow> 48 \<le> (of_char c :: nat) \<and> (of_char c :: nat) \<le> 57"
proof
  assume "is_decimal c"
  then show "48 \<le> (of_char c :: nat) \<and> (of_char c :: nat) \<le> 57" by (auto simp: is_decimal_def)
next
  define d :: nat where "d = of_char c - 48"
  assume a: "48 \<le> (of_char c :: nat) \<and> (of_char c :: nat) \<le> 57"
  then have d: "d < 10" unfolding d_def by linarith
  have "dec_char d = c" using a by (simp add: dec_char_def d_def)
  then have "c = ''0123456789'' ! d" using dec_char_numeral [OF d] by simp
  moreover have "''0123456789'' ! d \<in> set ''0123456789''" by (rule nth_mem) (use d in simp)
  ultimately show "is_decimal c" unfolding is_decimal_def by metis
qed

lemma decimal_Cons: "decimal (c # cs) = (of_char c - 48) * 10 ^ length cs + decimal cs"
  unfolding decimal_def by (simp add: sum.lessThan_Suc_shift del: sum.lessThan_Suc)

lemma scan_width_decimal:
  "scan_width w cs = (w * 10 ^ length (takeWhile is_decimal cs) + int (decimal (takeWhile is_decimal cs)), dropWhile is_decimal cs)"
proof (induction w cs rule: scan_width.induct)
  case (1 w)
  show ?case by (simp add: decimal_def)
next
  case (2 w c cs)
  show ?case
  proof (cases "is_decimal c")
    case True
    define ds where "ds = takeWhile is_decimal cs"
    have c: "48 \<le> (of_char c :: nat) \<and> (of_char c :: nat) \<le> 57" using True by (simp only: is_decimal_code)
    have "int (of_char c - 48) = int (of_char c) - 48" using c by (simp add: of_nat_diff)
    then have "int (decimal (c # ds)) = (int (of_char c) - 48) * 10 ^ length ds + int (decimal ds)" by (simp only: decimal_Cons) simp
    then have "(w * 10 + (int (of_char c) - 48)) * 10 ^ length ds + int (decimal ds) = w * 10 ^ length (c # ds) + int (decimal (c # ds))"
      by (simp add: algebra_simps)
    moreover have "takeWhile is_decimal (c # cs) = c # ds" "dropWhile is_decimal (c # cs) = dropWhile is_decimal cs"
      using True by (simp_all add: ds_def)
    ultimately show ?thesis using 2 [OF c] c by (simp only: scan_width.simps simp_thms if_True ds_def)
  next
    case False
    then have "\<not> (48 \<le> (of_char c :: nat) \<and> (of_char c :: nat) \<le> 57)" unfolding is_decimal_code .
    then show ?thesis using False by (simp only: scan_width.simps takeWhile.simps dropWhile.simps if_False) (simp add: decimal_def)
  qed
qed

lemma length_digits_le: "1 < b \<Longrightarrow> 0 < k \<Longrightarrow> length (digits b n) \<le> k \<longleftrightarrow> n < b ^ k"
proof (induction b n arbitrary: k rule: digits.induct)
  case (1 b n)
  obtain j where k: "k = Suc j" using "1.prems"(2) by (cases k) simp_all
  show ?case
  proof (cases "n div b = 0")
    case True
    then have "n < b" using 1 by (simp add: div_eq_0_iff)
    also have "b \<le> b ^ k" using 1 k by (simp add: one_le_power)
    finally show ?thesis using True k by (subst digits.simps) simp
  next
    case False
    then have e: "digits b n = n mod b # digits b (n div b)" using 1 by (subst digits.simps) simp
    show ?thesis
    proof (cases j)
      case 0
      have "digits b (n div b) \<noteq> []" by (subst digits.simps) simp
      moreover have "\<not> n < b" using False by auto
      ultimately show ?thesis using e k 0 by simp
    next
      case (Suc i)
      have "n div b < b ^ j \<longleftrightarrow> n < b ^ k"
        using "1.prems"(1) k by (simp add: less_mult_imp_div_less div_less_iff_less_mult mult.commute)
      then show ?thesis using "1.IH" [of j] False 1 k e Suc by simp
    qed
  qed
qed

lemma length_digits:
  assumes "1 < b" and "n < b ^ 32"
  shows "length (digits b n) = places b n"
proof -
  define L where "L = length (digits b n)"
  have L: "0 < L" "L \<le> 32" using length_digits_le [OF assms(1), of 32 n] assms(2) digits.simps [of b n] by (simp_all add: L_def)
  have "b ^ k \<le> n \<longleftrightarrow> k < L" if "k \<in> set [1..<32]" for k
    using length_digits_le [OF assms(1), of k n] that by (auto simp: L_def simp del: upt_rec_numeral)
  then have "filter (\<lambda>k. b ^ k \<le> n) [1..<32] = filter (\<lambda>k. k < L) [1..<32]" by (intro filter_cong) simp_all
  moreover have "[1..<32] = [1..<L] @ [L..<32]" using upt_add_eq_append [of 1 L "32 - L"] L by simp
  moreover have "filter (\<lambda>k. k < L) [1..<L] = [1..<L]" "filter (\<lambda>k. k < L) [L..<32] = []"
    by (simp_all add: filter_id_conv filter_empty_conv del: upt_rec_numeral)
  ultimately show ?thesis using L by (simp add: places_def L_def del: upt_rec_numeral)
qed

lemma digits_padded:
  "1 < b \<Longrightarrow> length (digits b n) \<le> k \<Longrightarrow> digits b n @ replicate (k - length (digits b n)) 0 = map (\<lambda>i. n div b ^ i mod b) [0..<k]"
proof (induction b n arbitrary: k rule: digits.induct)
  case (1 b n)
  obtain j where k: "k = Suc j" using "1.prems"(2) digits.simps [of b n] by (cases k) auto
  have u: "map (\<lambda>i. n div b ^ i mod b) [0..<k] = n mod b # map (\<lambda>i. n div b div b ^ i mod b) [0..<j]"
    unfolding k by (simp add: upt_conv_Cons map_Suc_upt [symmetric] div_mult2_eq o_def del: upt_Suc)
  show ?case
  proof (cases "n div b = 0")
    case True
    then have "digits b n = [n mod b]" by (subst digits.simps) simp
    moreover have "map (\<lambda>i. n div b div b ^ i mod b) [0..<j] = replicate j 0" by (simp add: True map_replicate_const)
    ultimately show ?thesis unfolding u by (simp add: k)
  next
    case False
    then have e: "digits b n = n mod b # digits b (n div b)" using 1 by (subst digits.simps) simp
    then show ?thesis unfolding u using "1.IH" [of j] False 1 k by simp
  qed
qed

lemma pad_zeros_figures:
  assumes "1 < b" and "n < b ^ 32"
  shows "rev (pad_zeros width room (digits b n)) = figures b (max (places b n) (min (nat width) room)) n"
proof -
  let ?k = "max (places b n) (min (nat width) room)"
  have "min (nat width) room - length (digits b n) = ?k - length (digits b n)" using length_digits [OF assms] by simp
  then have "pad_zeros width room (digits b n) = map (\<lambda>i. n div b ^ i mod b) [0..<?k]"
    unfolding pad_zeros_def using digits_padded [OF assms(1), of n ?k] length_digits [OF assms] by simp
  then show ?thesis by (simp add: figures_def rev_map)
qed

lemma figures_lt: "0 < b \<Longrightarrow> d \<in> set (figures b k n) \<Longrightarrow> d < b"
  by (auto simp: figures_def)

lemma u32_below: "unat v < 10 ^ 32" "unat v < 16 ^ 32" "nat \<bar>sint v\<bar> < 10 ^ 32" for v :: u32
  using unat_bound [of v] sint_ge [of v] sint_lt [of v] by (simp_all add: nat_less_iff)

lemma dec_text_digits:
  "dec_text v is_signed w = (if is_signed \<and> sint v < 0 then ''-'' else []) @
     map dec_char (rev (pad_zeros (int w) 12 (digits 10 (if is_signed then nat \<bar>sint v\<bar> else unat v))))"
proof -
  define n where "n = (if is_signed then nat \<bar>sint v\<bar> else unat v)"
  have "n < 10 ^ 32" using u32_below by (simp add: n_def)
  then have e: "rev (pad_zeros (int w) 12 (digits 10 n)) = figures 10 (max (places 10 n) (min w 12)) n"
    using pad_zeros_figures [of 10 n "int w" 12] by (simp only: nat_int)
  have "map dec_char (rev (pad_zeros (int w) 12 (digits 10 n))) = map (\<lambda>d. ''0123456789'' ! d) (figures 10 (max (places 10 n) (min w 12)) n)"
    unfolding e using figures_lt [of 10] by (intro map_cong refl dec_char_numeral) simp
  then show ?thesis by (simp only: dec_text_def n_def [symmetric] Let_def)
qed

lemma hex_text_digits: "hex_text v w = map (\<lambda>d. hex_lower ! d) (rev (pad_zeros (int w) 8 (digits 16 (unat v))))"
proof -
  have "rev (pad_zeros (int w) 8 (digits 16 (unat v))) = figures 16 (max (places 16 (unat v)) (min w 8)) (unat v)"
    using pad_zeros_figures [of 16 "unat v" "int w" 8] u32_below(2) [of v] by (simp only: nat_int)
  then show ?thesis by (simp only: hex_text_def hex_lower_def)
qed

lemma put_all_single: "put_all put [c] s = put c s"
  by (cases "put c s") simp_all

lemma put_dec_text: "put_dec hw v is_signed (int width) s = put_all (put_char hw) (dec_text v is_signed width) s"
proof -
  have "digits 10 (if is_signed then nat \<bar>sint v\<bar> else unat v) =
      digits 10 (unat (if is_signed \<and> sint v < 0 then - v else v))"
    by (simp only: put_dec_magnitude)
  then show ?thesis
    by (simp add: put_dec_def dec_text_digits put_all_append put_all_single)
qed

lemma put_hex_text: "put_hex hw v (int width) s = put_all (put_char hw) (hex_text v width) s"
  by (simp add: put_hex_def hex_text_digits)

lemma conversion_text:
  "conversion hw c (int width) ap s = do {
     (t, ap') \<leftarrow> conv_text c width ap; s \<leftarrow> put_all (put_char hw) t s; Some (ap', s) }"
  by (cases "(c, width, ap)" rule: conv_text.cases)
     (auto simp: put_dec_text put_hex_text put_str_def put_all_single)

declare conversion.simps [simp del]

lemma printf_text:
  "printf hw fmt ap s = do { t \<leftarrow> format_text fmt ap; put_all (put_char hw) t s }"
  for s :: "('d, 'z) m"
proof (induction fmt ap arbitrary: s rule: format_text.induct)
  case (1 ap)
  then show ?case by simp
next
  case (2 c fmt ap)
  show ?case
  proof (cases "c = CHR ''%''")
    case False
    then show ?thesis
      using 2(1) by (cases "format_text fmt ap"; cases "put_char hw c s") auto
  next
    case True
    show ?thesis
    proof (cases "dropWhile (\<lambda>c. c = CHR ''l'') (dropWhile is_decimal fmt)")
      case Nil
      with True show ?thesis by (simp add: scan_width_decimal del: dropWhile_eq_Nil_conv)
    next
      case (Cons d fmt')
      show ?thesis
      proof (cases "conv_text d (decimal (takeWhile is_decimal fmt)) ap")
        case None
        with True Cons show ?thesis by (simp add: scan_width_decimal conversion_text)
      next
        case (Some r)
        obtain t ap' where r: "r = (t, ap')" by (cases r)
        have "printf hw fmt' ap' u = do { t \<leftarrow> format_text fmt' ap'; put_all (put_char hw) t u }"
          for u :: "('d, 'z) m"
          using 2(2) [of d fmt' "(t, ap')" t ap' u] True Cons Some r by simp
        with True Cons Some r show ?thesis
          by (cases "format_text fmt' ap'"; cases "put_all (put_char hw) t s")
             (simp_all add: scan_width_decimal conversion_text put_all_append)
      qed
    qed
  qed
qed

section \<open>Properties\<close>

lemma put_char_text:
  assumes "tx_live hw (dev s)"
  shows "\<exists>s'. put_all (put_char hw) t s = Some s' \<and> tx_live hw (dev s') \<and>
    uart_out s' = uart_out s @ concat (map crlf t)"
  using crlf_live.put_all_returns [OF assms, of t] crlf_line.put_all_out [of hw t s] by blast

lemma dec_text_plain: "concat (map crlf (dec_text v sg w)) = dec_text v sg w"
proof -
  have plain: "\<forall>c \<in> set (map dec_char (rev (pad_zeros (int w) 12 (digits 10 n)))). c \<noteq> CHR 0x0A" for n
    using pad_zeros_lt [of 10 "digits 10 n" _ "int w" 12] digits_lt [of 10 _ n]
    by (auto dest: dec_char_plain)
  show ?thesis
    unfolding dec_text_digits by (intro concat_map_crlf ballI) (use plain in \<open>force split: if_splits\<close>)
qed

text \<open>C11: while the transmitter drains, \<open>printf\<close> with any well-formed format and matching arguments
  returns, having sent exactly the text the format denotes, each newline as CR LF: the width read as a decimal number,
  numbers written by their decimal or hexadecimal places, padded with zeros to the width up to 12 or 8 of them.\<close>

theorem printf_prints:
  assumes "tx_live hw (dev s)" and "format_text fmt ap = Some t"
  shows "\<exists>s'. printf hw fmt ap s = Some s' \<and> uart_out s' = uart_out s @ concat (map crlf t)"
  using put_char_text [OF assms(1), of t] assms(2) by (auto simp: printf_text)

theorem printf_prints_witness:
  "\<exists>s'. printf (const_hw (\<lambda>_. 1)) ''T=%03d%%'' [VWord (- 7)] \<lparr>dev = (), evs = []\<rparr> = Some s' \<and>
        uart_out s' = ''T=-007%''"
proof -
  have live: "tx_live (const_hw (\<lambda>_. 1)) ()"
    by (rule tx_live_const) (simp add: UART_TX_READY_BIT_def)
  have "places 10 7 = 1" "figures 10 3 7 = [0, 0, 7]"
    by (simp_all add: places_def figures_def upt_rec)
  then have "format_text ''T=%03d%%'' [VWord (- 7)] = Some ''T=-007%''"
    by (simp add: dec_text_def)
  with printf_prints [of "const_hw (\<lambda>_. 1)" "\<lparr>dev = (), evs = []\<rparr>" "''T=%03d%%''" "[VWord (- 7)]" "''T=-007%''"] live
  show ?thesis by (simp add: uart_out_def)
qed

text \<open>While the transmitter drains, the number printer returns and has printed the number: a minus
  sign exactly when a signed negative value was asked for, then decimal digits whose value is the
  magnitude (that of the most negative word included), left-padded with zeros to the width asked for
  but never past the 12-byte buffer, which no value overruns.\<close>

theorem put_dec_prints:
  assumes "tx_live hw (dev s)"
  shows "\<exists>s' ds. put_dec hw v is_signed width s = Some s' \<and>
            uart_out s' = uart_out s @ (if is_signed \<and> sint v < 0 then ''-'' else []) @
              map dec_char (rev ds) \<and>
            digits_val 10 ds = (if is_signed then nat \<bar>sint v\<bar> else unat v) \<and>
            (\<forall>d \<in> set ds. d < 10) \<and>
            length ds = max (length (digits 10 (digits_val 10 ds))) (min (nat width) 12) \<and>
            length ds \<le> 12"
proof -
  define n where "n = (if is_signed then nat \<bar>sint v\<bar> else unat v)"
  define ds where "ds = pad_zeros width 12 (digits 10 n)"
  have dv: "digits_val 10 ds = n"
    by (simp add: ds_def digits_val_pad_zeros digits_val_digits)
  have "n = unat (if is_signed \<and> sint v < 0 then - v else v)"
    unfolding n_def by (rule put_dec_magnitude [symmetric])
  then have "n < 10 ^ 12"
    using unat_bound [of "if is_signed \<and> sint v < 0 then - v else v"] by simp
  then have len: "length (digits 10 n) \<le> 12" using length_digits_le [of 10 12 n] by simp
  have pad: "pad_zeros width 12 = pad_zeros (int (nat width)) 12" by (rule ext) (simp add: pad_zeros_def)
  then have "put_dec hw v is_signed width s = put_dec hw v is_signed (int (nat width)) s" by (simp add: put_dec_def)
  then obtain s' where s': "put_dec hw v is_signed width s = Some s'"
    and out: "uart_out s' = uart_out s @ dec_text v is_signed (nat width)"
    using put_char_text [OF assms, of "dec_text v is_signed (nat width)"]
    unfolding put_dec_text dec_text_plain by auto
  moreover have "\<forall>d \<in> set ds. d < 10"
    unfolding ds_def using pad_zeros_lt [of 10 "digits 10 n"] digits_lt [of 10] by auto
  moreover have "uart_out s' = uart_out s @ (if is_signed \<and> sint v < 0 then ''-'' else []) @ map dec_char (rev ds)"
    by (simp only: out dec_text_digits ds_def n_def pad)
  ultimately show ?thesis
    using dv len by (intro exI [of _ s'] exI [of _ ds]) (simp add: ds_def n_def length_pad_zeros)
qed

theorem put_dec_prints_witness:
  "\<exists>s' ds. put_dec (const_hw (\<lambda>_. 1)) 0x80000000 True 3 \<lparr>dev = (), evs = []\<rparr> = Some s' \<and>
     uart_out s' = CHR ''-'' # map dec_char (rev ds) \<and> digits_val 10 ds = 2147483648"
proof -
  have live: "tx_live (const_hw (\<lambda>_. 1)) ()"
    by (rule tx_live_const) (simp add: UART_TX_READY_BIT_def)
  obtain s' ds where "put_dec (const_hw (\<lambda>_. 1)) 0x80000000 True 3 \<lparr>dev = (), evs = []\<rparr> = Some s'"
    and "uart_out s' = uart_out \<lparr>dev = (), evs = []\<rparr> @
        (if True \<and> sint (0x80000000 :: u32) < 0 then ''-'' else []) @ map dec_char (rev ds)"
    and "digits_val 10 ds = (if True then nat \<bar>sint (0x80000000 :: u32)\<bar> else unat (0x80000000 :: u32))"
    using put_dec_prints [of "const_hw (\<lambda>_. 1)" "\<lparr>dev = (), evs = []\<rparr>" "0x80000000" True 3] live by auto
  then show ?thesis by (intro exI [of _ s'] exI [of _ ds]) (simp add: uart_out_def)
qed

end
