(* ===== verification/Sys.thy ===== *)
theory Sys
  imports Machine
begin

text \<open>
  \<open>sim/sw/common/sys.h\<close>: CSR accessors, interrupt enables and the cause-indexed ISR table.  The
  table holds function pointers; they are names here (\<open>'f\<close>, \<open>'u\<close>) and what calling one does is an
  argument of the dispatcher, so its theorems hold for any handlers.  The register save and the
  \<open>mret\<close> that \<open>interrupt("machine")\<close> adds are the compiler's.
\<close>

section \<open>CSR accessors\<close>

definition sys_mstatus :: "'d hw \<Rightarrow> ('d, 'z) m \<Rightarrow> u32 \<times> ('d, 'z) m" where
  "sys_mstatus hw s = csr_rd hw MSTATUS s"
definition sys_mie :: "'d hw \<Rightarrow> ('d, 'z) m \<Rightarrow> u32 \<times> ('d, 'z) m" where
  "sys_mie hw s = csr_rd hw MIE s"
definition sys_mip :: "'d hw \<Rightarrow> ('d, 'z) m \<Rightarrow> u32 \<times> ('d, 'z) m" where
  "sys_mip hw s = csr_rd hw MIP s"
definition sys_mcause :: "'d hw \<Rightarrow> ('d, 'z) m \<Rightarrow> u32 \<times> ('d, 'z) m" where
  "sys_mcause hw s = csr_rd hw MCAUSE s"
definition sys_mepc :: "'d hw \<Rightarrow> ('d, 'z) m \<Rightarrow> u32 \<times> ('d, 'z) m" where
  "sys_mepc hw s = csr_rd hw MEPC s"
definition sys_mtval :: "'d hw \<Rightarrow> ('d, 'z) m \<Rightarrow> u32 \<times> ('d, 'z) m" where
  "sys_mtval hw s = csr_rd hw MTVAL s"
definition sys_mtvec :: "'d hw \<Rightarrow> ('d, 'z) m \<Rightarrow> u32 \<times> ('d, 'z) m" where
  "sys_mtvec hw s = csr_rd hw MTVEC s"
definition sys_cycle :: "'d hw \<Rightarrow> ('d, 'z) m \<Rightarrow> u32 \<times> ('d, 'z) m" where
  "sys_cycle hw s = csr_rd hw MCYCLE s"
definition sys_instret :: "'d hw \<Rightarrow> ('d, 'z) m \<Rightarrow> u32 \<times> ('d, 'z) m" where
  "sys_instret hw s = csr_rd hw MINSTRET s"

definition SYS_MSTATUS_MIE :: u32 where "SYS_MSTATUS_MIE = push_bit 3 1"
definition SYS_MIE_MSIE :: u32 where "SYS_MIE_MSIE = push_bit 3 1"
definition SYS_MIE_MTIE :: u32 where "SYS_MIE_MTIE = push_bit 7 1"
definition SYS_MIE_MEIE :: u32 where "SYS_MIE_MEIE = push_bit 11 1"
definition SYS_MCAUSE_IRQ :: u32 where "SYS_MCAUSE_IRQ = push_bit 31 1"
definition SYS_MCAUSE_MSI :: u32 where "SYS_MCAUSE_MSI = 3"
definition SYS_MCAUSE_MTI :: u32 where "SYS_MCAUSE_MTI = 7"
definition SYS_MCAUSE_MEI :: u32 where "SYS_MCAUSE_MEI = 11"

definition sys_cause_is_interrupt :: "u32 \<Rightarrow> bool" where
  "sys_cause_is_interrupt mcause \<longleftrightarrow> mcause AND SYS_MCAUSE_IRQ \<noteq> 0"
definition sys_cause_code :: "u32 \<Rightarrow> u32" where
  "sys_cause_code mcause = mcause AND NOT SYS_MCAUSE_IRQ"

definition sys_irq_global_enable :: "'d hw \<Rightarrow> ('d, 'z) m \<Rightarrow> ('d, 'z) m" where
  "sys_irq_global_enable hw s = csr_op hw CsrSet MSTATUS SYS_MSTATUS_MIE s"
definition sys_irq_global_disable :: "'d hw \<Rightarrow> ('d, 'z) m \<Rightarrow> ('d, 'z) m" where
  "sys_irq_global_disable hw s = csr_op hw CsrClear MSTATUS SYS_MSTATUS_MIE s"
definition sys_irq_source_enable :: "'d hw \<Rightarrow> u32 \<Rightarrow> ('d, 'z) m \<Rightarrow> ('d, 'z) m" where
  "sys_irq_source_enable hw bits s = csr_op hw CsrSet MIE bits s"
definition sys_irq_source_disable :: "'d hw \<Rightarrow> u32 \<Rightarrow> ('d, 'z) m \<Rightarrow> ('d, 'z) m" where
  "sys_irq_source_disable hw bits s = csr_op hw CsrClear MIE bits s"
definition sys_wfi :: "'d hw \<Rightarrow> ('d, 'z) m \<Rightarrow> ('d, 'z) m" where
  "sys_wfi hw s = wfi hw s"

section \<open>The ISR table\<close>

definition SYS_ISR_MAX :: u32 where "SYS_ISR_MAX = 16"

record ('d, 'f, 'u) sys = "'d mach" +
  sys_isr_tab :: "'f option list"
  sys_isr_unhandled :: "'u option"

text \<open>The static table before the first call: sixteen null pointers.\<close>

definition sys_isr_tab_init :: "'f option list" where
  "sys_isr_tab_init = replicate 16 None"

definition sys_isr_entry ::
  "'d hw \<Rightarrow> ('f \<Rightarrow> ('d, 'f, 'u, 'z) sys_scheme \<Rightarrow> ('d, 'f, 'u, 'z) sys_scheme option)
   \<Rightarrow> ('u \<Rightarrow> u32 \<Rightarrow> ('d, 'f, 'u, 'z) sys_scheme \<Rightarrow> ('d, 'f, 'u, 'z) sys_scheme option)
   \<Rightarrow> ('d, 'f, 'u, 'z) sys_scheme \<Rightarrow> ('d, 'f, 'u, 'z) sys_scheme option" where
  "sys_isr_entry hw call call_unhandled s =
     (let (mcause, s) = csr_rd hw MCAUSE s;
          code = sys_cause_code mcause;
          unhandled = (case sys_isr_unhandled s of
              Some u \<Rightarrow> call_unhandled u mcause s
            | None \<Rightarrow> Some (csr_op hw CsrClear MSTATUS SYS_MSTATUS_MIE s))
      in if sys_cause_is_interrupt mcause \<and> code < SYS_ISR_MAX
         then (case sys_isr_tab s ! unat code of Some f \<Rightarrow> call f s | None \<Rightarrow> unhandled)
         else unhandled)"

definition sys_isr_install :: "'d hw \<Rightarrow> u32 \<Rightarrow> ('d, 'z) m \<Rightarrow> ('d, 'z) m" where
  "sys_isr_install hw entry_addr s = csr_op hw CsrWrite MTVEC entry_addr s"

definition sys_interrupt_attach ::
  "u32 \<Rightarrow> 'f \<Rightarrow> ('d, 'f, 'u, 'z) sys_scheme \<Rightarrow> ('d, 'f, 'u, 'z) sys_scheme" where
  "sys_interrupt_attach cause_code fn s =
     (if cause_code < SYS_ISR_MAX
      then s\<lparr>sys_isr_tab := (sys_isr_tab s)[unat cause_code := Some fn]\<rparr> else s)"

definition sys_interrupt_detach ::
  "u32 \<Rightarrow> ('d, 'f, 'u, 'z) sys_scheme \<Rightarrow> ('d, 'f, 'u, 'z) sys_scheme" where
  "sys_interrupt_detach cause_code s =
     (if cause_code < SYS_ISR_MAX
      then s\<lparr>sys_isr_tab := (sys_isr_tab s)[unat cause_code := None]\<rparr> else s)"

definition sys_isr_set_unhandled ::
  "'u option \<Rightarrow> ('d, 'f, 'u, 'z) sys_scheme \<Rightarrow> ('d, 'f, 'u, 'z) sys_scheme" where
  "sys_isr_set_unhandled fn s = s\<lparr>sys_isr_unhandled := fn\<rparr>"

section \<open>Tables of handlers\<close>

text \<open>
  What a client of a handler table relies on, whatever holds the table: keys below a limit, attach
  overwrites, detach empties, other keys keep theirs.  A command list is a history of such calls.
\<close>

datatype ('k, 'f) table_cmd = Attach 'k 'f | Detach 'k

text \<open>The handler a history leaves at a key, over what was there before.\<close>

fun last_handler :: "('k, 'f) table_cmd list \<Rightarrow> 'k \<Rightarrow> 'f option \<Rightarrow> 'f option" where
  "last_handler [] k f = f"
| "last_handler (Attach j g # cs) k f = last_handler cs k (if j = k then Some g else f)"
| "last_handler (Detach j # cs) k f = last_handler cs k (if j = k then None else f)"

locale handler_table =
  fixes attach :: "'k \<Rightarrow> 'f \<Rightarrow> 's \<Rightarrow> 's"
    and detach :: "'k \<Rightarrow> 's \<Rightarrow> 's"
    and lookup :: "'s \<Rightarrow> 'k \<Rightarrow> 'f option"
    and valid :: "'k \<Rightarrow> bool"
    and wf :: "'s \<Rightarrow> bool"
  assumes wf_attach: "wf s \<Longrightarrow> wf (attach k f s)"
    and wf_detach: "wf s \<Longrightarrow> wf (detach k s)"
    and lookup_attach: "wf s \<Longrightarrow> valid k \<Longrightarrow> lookup (attach j f s) k = (if j = k then Some f else lookup s k)"
    and lookup_detach: "wf s \<Longrightarrow> valid k \<Longrightarrow> lookup (detach j s) k = (if j = k then None else lookup s k)"
begin

fun run_cmds :: "('k, 'f) table_cmd list \<Rightarrow> 's \<Rightarrow> 's" where
  "run_cmds [] s = s"
| "run_cmds (Attach k f # cs) s = run_cmds cs (attach k f s)"
| "run_cmds (Detach k # cs) s = run_cmds cs (detach k s)"

lemma wf_run_cmds: "wf s \<Longrightarrow> wf (run_cmds cs s)"
  by (induction cs s rule: run_cmds.induct) (auto intro: wf_attach wf_detach)

lemma lookup_run_cmds:
  "wf s \<Longrightarrow> valid k \<Longrightarrow> lookup (run_cmds cs s) k = last_handler cs k (lookup s k)"
proof (induction cs s rule: run_cmds.induct)
  case (1 s)
  then show ?case by simp
next
  case (2 j f cs s)
  then show ?case by (simp add: wf_attach lookup_attach)
next
  case (3 j cs s)
  then show ?case by (simp add: wf_detach lookup_detach)
qed

end

definition sys_wf :: "('d, 'f, 'u, 'z) sys_scheme \<Rightarrow> bool" where
  "sys_wf s \<longleftrightarrow> length (sys_isr_tab s) = 16"

definition sys_lookup :: "('d, 'f, 'u, 'z) sys_scheme \<Rightarrow> u32 \<Rightarrow> 'f option" where
  "sys_lookup s k = (if k < SYS_ISR_MAX then sys_isr_tab s ! unat k else None)"

lemma less_isr_max: "k < SYS_ISR_MAX \<longleftrightarrow> unat k < 16"
  by (simp add: SYS_ISR_MAX_def word_less_nat_alt)

interpretation isr: handler_table sys_interrupt_attach sys_interrupt_detach sys_lookup
    "\<lambda>k. k < SYS_ISR_MAX" sys_wf
  by unfold_locales
     (auto simp: sys_interrupt_attach_def sys_interrupt_detach_def sys_lookup_def sys_wf_def
       less_isr_max nth_list_update word_unat_eq_iff)

text \<open>The history of attach and detach calls a program has made, as one step on the state.\<close>

fun sys_history :: "(u32, 'f) table_cmd list \<Rightarrow> ('d, 'f, 'u, 'z) sys_scheme \<Rightarrow> ('d, 'f, 'u, 'z) sys_scheme" where
  "sys_history [] s = s"
| "sys_history (Attach k f # cs) s = sys_history cs (sys_interrupt_attach k f s)"
| "sys_history (Detach k # cs) s = sys_history cs (sys_interrupt_detach k s)"

lemma sys_history_run: "sys_history cs s = isr.run_cmds cs s"
  by (induction cs s rule: sys_history.induct) auto

lemma csr_rd_fields [simp]:
  "sys_isr_tab (snd (csr_rd hw c s)) = sys_isr_tab s"
  "sys_isr_unhandled (snd (csr_rd hw c s)) = sys_isr_unhandled s"
  by (auto simp: csr_rd_def split: prod.splits)

lemma sys_isr_entry_lookup:
  "sys_isr_entry hw call call_unhandled s =
     (let (mcause, t) = csr_rd hw MCAUSE s in
      case (if sys_cause_is_interrupt mcause then sys_lookup s (sys_cause_code mcause) else None) of
        Some f \<Rightarrow> call f t
      | None \<Rightarrow> (case sys_isr_unhandled s of
            Some u \<Rightarrow> call_unhandled u mcause t
          | None \<Rightarrow> Some (csr_op hw CsrClear MSTATUS SYS_MSTATUS_MIE t)))"
  using csr_rd_fields [of hw MCAUSE s]
  by (cases "csr_rd hw MCAUSE s") (simp add: sys_isr_entry_def sys_lookup_def Let_def split: option.splits)

lemma sys_history_unhandled [simp]: "sys_isr_unhandled (sys_history cs s) = sys_isr_unhandled s"
  by (induction cs s rule: sys_history.induct)
     (simp_all add: sys_interrupt_attach_def sys_interrupt_detach_def)

section \<open>Properties\<close>

text \<open>After any history of attach and detach calls on the sixteen-entry table, a trap runs the
  handler last attached for its interrupt cause, and the hook, or the masking of interrupts when
  there is no hook, in every other case: exceptions, causes above 15, and detached causes.\<close>

theorem sys_dispatch_last_attached:
  assumes "sys_wf s" and "csr_rd hw MCAUSE (sys_history cs s) = (mcause, t)"
  shows "sys_isr_entry hw call call_unhandled (sys_history cs s) =
    (case (if sys_cause_is_interrupt mcause \<and> sys_cause_code mcause < SYS_ISR_MAX
           then last_handler cs (sys_cause_code mcause) (sys_lookup s (sys_cause_code mcause))
           else None) of
       Some f \<Rightarrow> call f t
     | None \<Rightarrow> (case sys_isr_unhandled s of
           Some u \<Rightarrow> call_unhandled u mcause t
         | None \<Rightarrow> Some (csr_op hw CsrClear MSTATUS SYS_MSTATUS_MIE t)))"
proof -
  have "(if sys_cause_is_interrupt mcause then sys_lookup (sys_history cs s) (sys_cause_code mcause) else None) =
    (if sys_cause_is_interrupt mcause \<and> sys_cause_code mcause < SYS_ISR_MAX
     then last_handler cs (sys_cause_code mcause) (sys_lookup s (sys_cause_code mcause)) else None)"
    using isr.lookup_run_cmds [OF assms(1), of "sys_cause_code mcause" cs]
    by (simp add: sys_history_run) (simp add: sys_lookup_def)
  then show ?thesis
    by (simp add: sys_isr_entry_lookup assms(2) split: option.splits)
qed

definition mti_hw :: "unit hw" where
  "mti_hw = (const_hw (\<lambda>_. 0))\<lparr>hw_csr_rd := \<lambda>_ d. (0x80000007, d)\<rparr>"

theorem sys_dispatch_last_attached_witness:
  "map_option evs (sys_isr_entry mti_hw (\<lambda>f s. Some (wr mti_hw MSIP f s)) (\<lambda>(u :: unit) _ _. None)
      (sys_history [Attach 7 1, Attach 3 2, Attach 7 4, Detach 3]
        \<lparr>dev = (), evs = [], sys_isr_tab = sys_isr_tab_init, sys_isr_unhandled = None\<rparr>))
    = Some [CsrRd MCAUSE 0x80000007, Wr MSIP 4]"
proof -
  let ?s = "\<lparr>dev = (), evs = [], sys_isr_tab = sys_isr_tab_init, sys_isr_unhandled = None\<rparr>"
  let ?cs = "[Attach 7 1, Attach 3 2, Attach 7 4, Detach 3] :: (u32, u32) table_cmd list"
  have wf: "sys_wf ?s" by (simp add: sys_wf_def sys_isr_tab_init_def)
  have trap: "csr_rd mti_hw MCAUSE (sys_history ?cs ?s) =
      (0x80000007, sys_history ?cs ?s\<lparr>evs := [CsrRd MCAUSE 0x80000007]\<rparr>)"
    by (simp add: csr_rd_def mti_hw_def const_hw_def sys_interrupt_attach_def sys_interrupt_detach_def)
  have "sys_cause_is_interrupt 0x80000007" "sys_cause_code 0x80000007 = 7"
    by code_simp+
  then show ?thesis
    by (subst sys_dispatch_last_attached [OF wf trap]) (simp add: SYS_ISR_MAX_def)
qed

end
