(* ===== verification/Plic.thy ===== *)
theory Plic
  imports Sys
begin

text \<open>
  \<open>sim/sw/common/plic.h\<close>: source enables and the per-source handler table behind the
  machine-external cause.  The table's dispatcher \<open>plic_mei_isr\<close> is itself an entry of the ISR table
  of \<open>sys.h\<close>, so a function pointer of that table is either a program's own or the dispatcher.
\<close>

datatype 'f isr = UserIsr 'f | PlicMeiIsr

record ('d, 'f, 'u, 'p) plic = "('d, 'f isr, 'u) sys" +
  plic_tab :: "'p option list"

definition PLIC_SRC_NONE :: u32 where "PLIC_SRC_NONE = 0"
definition PLIC_SRC_N :: u32 where "PLIC_SRC_N = 16"

definition plic_pending :: "'d hw \<Rightarrow> ('d, 'z) m \<Rightarrow> u32 \<times> ('d, 'z) m" where
  "plic_pending hw s = rd hw (Plic PLIC_PENDING) s"

definition plic_enable :: "'d hw \<Rightarrow> u32 \<Rightarrow> ('d, 'z) m \<Rightarrow> ('d, 'z) m" where
  "plic_enable hw src s = rmw hw (Plic PLIC_ENABLE) (\<lambda>v. v OR push_bit (unat src) 1) s"

definition plic_disable :: "'d hw \<Rightarrow> u32 \<Rightarrow> ('d, 'z) m \<Rightarrow> ('d, 'z) m" where
  "plic_disable hw src s = rmw hw (Plic PLIC_ENABLE) (\<lambda>v. v AND NOT (push_bit (unat src) 1)) s"

definition plic_claim :: "'d hw \<Rightarrow> ('d, 'z) m \<Rightarrow> u32 \<times> ('d, 'z) m" where
  "plic_claim hw s = (let (v, s) = rd hw (Plic PLIC_CLAIM) s in (v AND 0xFF, s))"

definition plic_tab_init :: "'p option list" where
  "plic_tab_init = replicate 16 None"

definition plic_mei_isr ::
  "'d hw \<Rightarrow> ('p \<Rightarrow> u32 \<Rightarrow> ('d, 'f, 'u, 'p, 'z) plic_scheme \<Rightarrow> ('d, 'f, 'u, 'p, 'z) plic_scheme option)
   \<Rightarrow> ('d, 'f, 'u, 'p, 'z) plic_scheme \<Rightarrow> ('d, 'f, 'u, 'p, 'z) plic_scheme option" where
  "plic_mei_isr hw call s =
     (let (src, s) = plic_claim hw s
      in if src \<noteq> PLIC_SRC_NONE \<and> src < PLIC_SRC_N
         then (case plic_tab s ! unat src of Some f \<Rightarrow> call f src s | None \<Rightarrow> Some s)
         else Some s)"

definition plic_attach ::
  "u32 \<Rightarrow> 'p \<Rightarrow> ('d, 'f, 'u, 'p, 'z) plic_scheme \<Rightarrow> ('d, 'f, 'u, 'p, 'z) plic_scheme" where
  "plic_attach src fn s =
     (if src < PLIC_SRC_N
      then sys_interrupt_attach SYS_MCAUSE_MEI PlicMeiIsr
             (s\<lparr>plic_tab := (plic_tab s)[unat src := Some fn]\<rparr>)
      else s)"

definition plic_detach ::
  "u32 \<Rightarrow> ('d, 'f, 'u, 'p, 'z) plic_scheme \<Rightarrow> ('d, 'f, 'u, 'p, 'z) plic_scheme" where
  "plic_detach src s =
     (if src < PLIC_SRC_N then s\<lparr>plic_tab := (plic_tab s)[unat src := None]\<rparr> else s)"

text \<open>What calling an entry of the ISR table does: a program's own handler, or the dispatcher.\<close>

definition call_isr ::
  "'d hw \<Rightarrow> ('f \<Rightarrow> ('d, 'f, 'u, 'p, 'z) plic_scheme \<Rightarrow> ('d, 'f, 'u, 'p, 'z) plic_scheme option)
   \<Rightarrow> ('p \<Rightarrow> u32 \<Rightarrow> ('d, 'f, 'u, 'p, 'z) plic_scheme \<Rightarrow> ('d, 'f, 'u, 'p, 'z) plic_scheme option)
   \<Rightarrow> 'f isr \<Rightarrow> ('d, 'f, 'u, 'p, 'z) plic_scheme \<Rightarrow> ('d, 'f, 'u, 'p, 'z) plic_scheme option" where
  "call_isr hw user call f s =
     (case f of UserIsr g \<Rightarrow> user g s | PlicMeiIsr \<Rightarrow> plic_mei_isr hw call s)"

section \<open>The table as a handler table\<close>

definition plic_wf :: "('d, 'f, 'u, 'p, 'z) plic_scheme \<Rightarrow> bool" where
  "plic_wf s \<longleftrightarrow> sys_wf s \<and> length (plic_tab s) = 16"

definition plic_lookup :: "('d, 'f, 'u, 'p, 'z) plic_scheme \<Rightarrow> u32 \<Rightarrow> 'p option" where
  "plic_lookup s k = (if k < PLIC_SRC_N then plic_tab s ! unat k else None)"

lemma less_src_n: "k < PLIC_SRC_N \<longleftrightarrow> unat k < 16"
  by (simp add: PLIC_SRC_N_def word_less_nat_alt)

lemma plic_tab_sys_attach [simp]: "plic_tab (sys_interrupt_attach c f s) = plic_tab s"
  by (simp add: sys_interrupt_attach_def)

interpretation plic: handler_table plic_attach plic_detach plic_lookup "\<lambda>k. k < PLIC_SRC_N" plic_wf
  by unfold_locales
     (auto simp: plic_attach_def plic_detach_def plic_lookup_def plic_wf_def sys_wf_def
       sys_interrupt_attach_def less_src_n nth_list_update word_unat_eq_iff)

fun plic_history :: "(u32, 'p) table_cmd list \<Rightarrow> ('d, 'f, 'u, 'p, 'z) plic_scheme \<Rightarrow> ('d, 'f, 'u, 'p, 'z) plic_scheme" where
  "plic_history [] s = s"
| "plic_history (Attach k f # cs) s = plic_history cs (plic_attach k f s)"
| "plic_history (Detach k # cs) s = plic_history cs (plic_detach k s)"

lemma plic_history_run: "plic_history cs s = plic.run_cmds cs s"
  by (induction cs s rule: plic_history.induct) auto

text \<open>Once a valid source has been attached, the external cause stays hooked.\<close>

lemma mei_valid: "SYS_MCAUSE_MEI < SYS_ISR_MAX"
  by (simp add: SYS_MCAUSE_MEI_def SYS_ISR_MAX_def)

lemma mei_attach:
  "plic_wf s \<Longrightarrow> sys_lookup (plic_attach k f s) SYS_MCAUSE_MEI =
     (if k < PLIC_SRC_N then Some PlicMeiIsr else sys_lookup s SYS_MCAUSE_MEI)"
  using isr.lookup_attach [OF _ mei_valid, of "s\<lparr>plic_tab := (plic_tab s)[unat k := Some f]\<rparr>" SYS_MCAUSE_MEI PlicMeiIsr]
  by (simp add: plic_attach_def plic_wf_def sys_wf_def)

lemma mei_detach: "sys_lookup (plic_detach k s) c = sys_lookup s c"
  by (simp add: plic_detach_def sys_lookup_def)

lemma mei_hooked:
  "plic_wf s \<Longrightarrow> sys_lookup s SYS_MCAUSE_MEI = Some PlicMeiIsr \<or> (\<exists>k f. Attach k f \<in> set cs \<and> k < PLIC_SRC_N) \<Longrightarrow>
   sys_lookup (plic_history cs s) SYS_MCAUSE_MEI = Some PlicMeiIsr"
proof (induction cs s rule: plic_history.induct)
  case (1 s)
  then show ?case by simp
next
  case (2 k f cs s)
  have "plic_wf (plic_attach k f s)" using 2 by (intro plic.wf_attach)
  with 2 show ?case by (auto simp: mei_attach split: if_splits)
next
  case (3 k cs s)
  have "plic_wf (plic_detach k s)" using 3 by (intro plic.wf_detach)
  with 3 show ?case by (auto simp: mei_detach)
qed

lemma csr_rd_plic_tab [simp]: "plic_tab (snd (csr_rd hw c s)) = plic_tab s"
  by (auto simp: csr_rd_def split: prod.splits)

lemma rd_plic_tab [simp]: "plic_tab (snd (rd hw r s)) = plic_tab s"
  by (auto simp: rd_def split: prod.splits)

section \<open>Properties\<close>

text \<open>C10: once any source has been attached, an external interrupt reads CLAIM exactly once and
  runs the handler last attached to the source it names, with that source as its argument; a claim
  of 0, of an ID above 15 or of a detached source returns having touched nothing else.\<close>

theorem plic_dispatch_last_attached:
  assumes "plic_wf s" and "Attach k f \<in> set cs" and "k < PLIC_SRC_N"
    and "csr_rd hw MCAUSE (plic_history cs s) = (mcause, t)"
    and "sys_cause_is_interrupt mcause" and "sys_cause_code mcause = SYS_MCAUSE_MEI"
    and "rd hw (Plic PLIC_CLAIM) t = (v, t')"
  shows "sys_isr_entry hw (call_isr hw user call) call_unhandled (plic_history cs s) =
    (case (if v AND 0xFF \<noteq> 0 \<and> v AND 0xFF < 16
           then last_handler cs (v AND 0xFF) (plic_lookup s (v AND 0xFF)) else None) of
       Some g \<Rightarrow> call g (v AND 0xFF) t'
     | None \<Rightarrow> Some t')"
proof -
  let ?src = "v AND 0xFF" and ?h = "plic_history cs s"
  have "sys_lookup ?h SYS_MCAUSE_MEI = Some PlicMeiIsr"
    using assms(1-3) by (intro mei_hooked) auto
  then have "sys_isr_entry hw (call_isr hw user call) call_unhandled ?h = plic_mei_isr hw call t"
    using assms(4-6) by (simp add: sys_isr_entry_lookup call_isr_def)
  moreover have "plic_tab t' = plic_tab ?h"
    using rd_plic_tab [of hw "Plic PLIC_CLAIM" t] csr_rd_plic_tab [of hw MCAUSE ?h] assms(4,7) by simp
  moreover have "?src < 16 \<Longrightarrow> plic_tab ?h ! unat ?src = last_handler cs ?src (plic_lookup s ?src)"
    using plic.lookup_run_cmds [OF assms(1), of ?src cs]
    by (simp add: plic_history_run plic_lookup_def PLIC_SRC_N_def)
  ultimately show ?thesis
    using assms(7)
    by (simp add: plic_mei_isr_def plic_claim_def PLIC_SRC_NONE_def PLIC_SRC_N_def split: option.splits)
qed

definition mei_hw :: "unit hw" where
  "mei_hw = (const_hw (\<lambda>r. if r = Plic PLIC_CLAIM then 4 else 0))\<lparr>hw_csr_rd := \<lambda>_ d. (0x8000000B, d)\<rparr>"

theorem plic_dispatch_last_attached_witness:
  "map_option evs (sys_isr_entry mei_hw
      (call_isr mei_hw (\<lambda>(_ :: unit) _. None) (\<lambda>f src s. Some (wr mei_hw MSIP (f + src) s)))
      (\<lambda>(u :: unit) _ _. None)
      (plic_history [Attach 4 100, Attach 1 200]
        \<lparr>dev = (), evs = [], sys_isr_tab = sys_isr_tab_init, sys_isr_unhandled = None, plic_tab = plic_tab_init\<rparr>))
    = Some [CsrRd MCAUSE 0x8000000B, Rd (Plic PLIC_CLAIM) 4, Wr MSIP 104]"
proof -
  let ?s = "\<lparr>dev = (), evs = [], sys_isr_tab = sys_isr_tab_init, sys_isr_unhandled = None, plic_tab = plic_tab_init\<rparr>"
  let ?cs = "[Attach 4 100, Attach 1 200] :: (u32, u32) table_cmd list"
  have wf: "plic_wf ?s" by (simp add: plic_wf_def sys_wf_def sys_isr_tab_init_def plic_tab_init_def)
  have trap: "csr_rd mei_hw MCAUSE (plic_history ?cs ?s) =
      (0x8000000B, plic_history ?cs ?s\<lparr>evs := [CsrRd MCAUSE 0x8000000B]\<rparr>)" (is "_ = (_, ?t)")
    by (simp add: csr_rd_def mei_hw_def const_hw_def plic_attach_def sys_interrupt_attach_def)
  have claim: "rd mei_hw (Plic PLIC_CLAIM) ?t = (4, ?t\<lparr>evs := [CsrRd MCAUSE 0x8000000B, Rd (Plic PLIC_CLAIM) 4]\<rparr>)"
    by (simp add: rd_def mei_hw_def const_hw_def)
  have "Attach 4 100 \<in> set ?cs" "(4 :: u32) < PLIC_SRC_N" by (simp_all add: PLIC_SRC_N_def)
  moreover have "sys_cause_is_interrupt 0x8000000B" "sys_cause_code 0x8000000B = SYS_MCAUSE_MEI"
    by code_simp+
  ultimately show ?thesis
    by (subst plic_dispatch_last_attached [OF wf _ _ trap _ _ claim, of 4 100]) simp_all
qed

end
