(* ===== verification/Gpio.thy ===== *)
theory Gpio
  imports Machine
begin

text \<open>
  \<open>sim/sw/common/gpio.h\<close>: the Arduino-style pin driver.  Pin numbers below 32 (below 16 for the
  two-bit interrupt fields) are the ones for which the C shifts are defined.
\<close>

definition gpio_pin_mode :: "'d hw \<Rightarrow> u32 \<Rightarrow> u32 \<Rightarrow> ('d, 'z) m \<Rightarrow> ('d, 'z) m" where
  "gpio_pin_mode hw pin mode s =
     (let bit = push_bit (unat pin) 1
      in if mode \<noteq> 0 then rmw hw (Gpio GPIO_DIR) (\<lambda>v. v OR bit) s
         else rmw hw (Gpio GPIO_DIR) (\<lambda>v. v AND NOT bit) s)"

definition gpio_digital_write :: "'d hw \<Rightarrow> u32 \<Rightarrow> u32 \<Rightarrow> ('d, 'z) m \<Rightarrow> ('d, 'z) m" where
  "gpio_digital_write hw pin val s =
     (let bit = push_bit (unat pin) 1
      in if val \<noteq> 0 then rmw hw (Gpio GPIO_OUT) (\<lambda>v. v OR bit) s
         else rmw hw (Gpio GPIO_OUT) (\<lambda>v. v AND NOT bit) s)"

definition gpio_digital_read :: "'d hw \<Rightarrow> u32 \<Rightarrow> ('d, 'z) m \<Rightarrow> u32 \<times> ('d, 'z) m" where
  "gpio_digital_read hw pin s =
     (let (v, s) = rd hw (Gpio GPIO_VALUE) s in (drop_bit (unat pin) v AND 1, s))"

definition gpio_write_all :: "'d hw \<Rightarrow> u32 \<Rightarrow> ('d, 'z) m \<Rightarrow> ('d, 'z) m" where
  "gpio_write_all hw bits s = wr hw (Gpio GPIO_OUT) bits s"

definition gpio_read_all :: "'d hw \<Rightarrow> ('d, 'z) m \<Rightarrow> u32 \<times> ('d, 'z) m" where
  "gpio_read_all hw s = rd hw (Gpio GPIO_VALUE) s"

text \<open>The new INT_TYPE word from the old one.\<close>

definition int_type_update :: "u32 \<Rightarrow> u32 \<Rightarrow> u32 \<Rightarrow> u32" where
  "int_type_update pin type v =
     (let shift = 2 * pin; field = push_bit (unat shift) 3
      in (v AND NOT field) OR push_bit (unat shift) (type AND 3))"

definition gpio_int_config :: "'d hw \<Rightarrow> u32 \<Rightarrow> u32 \<Rightarrow> ('d, 'z) m \<Rightarrow> ('d, 'z) m" where
  "gpio_int_config hw pin type s = rmw hw (Gpio GPIO_INT_TYPE) (int_type_update pin type) s"

definition gpio_int_enable :: "'d hw \<Rightarrow> u32 \<Rightarrow> ('d, 'z) m \<Rightarrow> ('d, 'z) m" where
  "gpio_int_enable hw pin s = rmw hw (Gpio GPIO_INT_EN) (\<lambda>v. v OR push_bit (unat pin) 1) s"

definition gpio_int_disable :: "'d hw \<Rightarrow> u32 \<Rightarrow> ('d, 'z) m \<Rightarrow> ('d, 'z) m" where
  "gpio_int_disable hw pin s = rmw hw (Gpio GPIO_INT_EN) (\<lambda>v. v AND NOT (push_bit (unat pin) 1)) s"

definition gpio_int_status :: "'d hw \<Rightarrow> ('d, 'z) m \<Rightarrow> u32 \<times> ('d, 'z) m" where
  "gpio_int_status hw s = rd hw (Gpio GPIO_INT_STATUS) s"

definition gpio_int_clear :: "'d hw \<Rightarrow> u32 \<Rightarrow> ('d, 'z) m \<Rightarrow> ('d, 'z) m" where
  "gpio_int_clear hw bits s = wr hw (Gpio GPIO_INT_STATUS) bits s"

definition gpio_int_arm :: "'d hw \<Rightarrow> u32 \<Rightarrow> u32 \<Rightarrow> ('d, 'z) m \<Rightarrow> ('d, 'z) m" where
  "gpio_int_arm hw pin type s =
     (let s = gpio_int_config hw pin type s;
          s = gpio_int_clear hw (push_bit (unat pin) 1) s
      in gpio_int_enable hw pin s)"

definition gpio_int_disarm :: "'d hw \<Rightarrow> u32 \<Rightarrow> ('d, 'z) m \<Rightarrow> ('d, 'z) m" where
  "gpio_int_disarm hw pin s =
     (let s = gpio_int_disable hw pin s in gpio_int_clear hw (push_bit (unat pin) 1) s)"

section \<open>The interrupt-type word\<close>

definition type_field :: "nat \<Rightarrow> u32 \<Rightarrow> u32" where
  "type_field q v = drop_bit (2 * q) v AND 3"

lemma unat_double: "unat p < 16 \<Longrightarrow> unat (2 * p) = 2 * unat p" for p :: u32
  by (simp add: unat_word_ariths)

lemma three_mask: "(3 :: u32) = mask 2"
  by (simp add: mask_eq_exp_minus_1)

lemma bit_type_field: "bit (type_field q v) n \<longleftrightarrow> n < 2 \<and> bit v (2 * q + n)"
  unfolding type_field_def three_mask by (auto simp: bit_and_iff bit_drop_bit_eq bit_mask_iff)

lemma type_field_update:
  assumes "unat p < 16" and "q < 16"
  shows "type_field q (int_type_update p type v) = (if q = unat p then type AND 3 else type_field q v)"
proof (rule bit_eqI)
  fix n assume "possible_bit TYPE(u32) n"
  have split: "2 * q + n < 2 * unat p + 2 \<and> 2 * unat p \<le> 2 * q + n \<longleftrightarrow> q = unat p" if "n < 2"
    using that by auto
  show "bit (type_field q (int_type_update p type v)) n =
      bit (if q = unat p then type AND 3 else type_field q v) n"
  proof (cases "n < 2")
    case True
    have "2 * q + n < 32" using assms(2) True by simp
    then have upd: "bit (int_type_update p type v) (2 * q + n) =
        (bit v (2 * q + n) \<and> \<not> q = unat p \<or>
         2 * unat p \<le> 2 * q + n \<and> bit type (2 * q + n - 2 * unat p) \<and> q = unat p)"
      using split [OF True] unat_double [OF assms(1)]
      unfolding int_type_update_def three_mask Let_def by (auto simp: bit_simps)
    show ?thesis
      using True unfolding three_mask by (auto simp: bit_type_field upd bit_and_iff bit_mask_iff)
  next
    case False
    then show ?thesis unfolding three_mask by (simp add: bit_type_field bit_and_iff bit_mask_iff)
  qed
qed

lemma evs_gpio_int_config:
  "evs (gpio_int_config hw pin type s) =
     evs s @ [Rd (Gpio GPIO_INT_TYPE) v, Wr (Gpio GPIO_INT_TYPE) (int_type_update pin type v)]"
  if "v = fst (rd hw (Gpio GPIO_INT_TYPE) s)"
  using that by (simp add: gpio_int_config_def)

section \<open>The peripheral\<close>

text \<open>
  The registers of \<open>src/rtl/utils/axi4_lite_gpio.sv\<close> and its clock edge, at the widest configuration
  whose INT_TYPE fits one word.  \<open>gpio_i\<close> is the synchronized input; a bus write is one more term of
  the edge on which it is accepted, and any number of edges may pass before it.
\<close>

record gpio_dev =
  gpio_i :: u32
  out_q :: u32
  dir_q :: u32
  gpio_prev_q :: u32
  int_type_q :: u32
  int_en_q :: u32
  pend_q :: u32

definition ev_bit :: "gpio_dev \<Rightarrow> nat \<Rightarrow> bool" where
  "ev_bit d p =
     (let rise = \<not> bit (gpio_prev_q d) p \<and> bit (gpio_i d) p;
          fall = bit (gpio_prev_q d) p \<and> \<not> bit (gpio_i d) p;
          ty = type_field p (int_type_q d)
      in ty = 0 \<and> bit (gpio_i d) p \<or> ty = 1 \<and> rise \<or> ty = 2 \<and> fall \<or> ty = 3 \<and> (rise \<or> fall))"

definition pend_set :: "gpio_dev \<Rightarrow> u32" where
  "pend_set d = horner_sum of_bool 2 (map (ev_bit d) [0..<16])"

fun gpio_edge :: "(gpio_reg \<times> u32) option \<Rightarrow> gpio_dev \<Rightarrow> gpio_dev" where
  "gpio_edge w d =
     (let set = pend_set d;
          d' = d\<lparr>gpio_prev_q := gpio_i d,
                 pend_q := (case w of Some (GPIO_INT_STATUS, v) \<Rightarrow> (pend_q d AND NOT v) OR set
                                    | _ \<Rightarrow> pend_q d OR set)\<rparr>
      in case w of
           Some (GPIO_OUT, v) \<Rightarrow> d'\<lparr>out_q := v AND 0xFFFF\<rparr>
         | Some (GPIO_DIR, v) \<Rightarrow> d'\<lparr>dir_q := v AND 0xFFFF\<rparr>
         | Some (GPIO_INT_TYPE, v) \<Rightarrow> d'\<lparr>int_type_q := v\<rparr>
         | Some (GPIO_INT_EN, v) \<Rightarrow> d'\<lparr>int_en_q := v AND 0xFFFF\<rparr>
         | _ \<Rightarrow> d')"

fun gpio_mux :: "gpio_reg \<Rightarrow> gpio_dev \<Rightarrow> u32" where
  "gpio_mux GPIO_VALUE d = gpio_i d"
| "gpio_mux GPIO_OUT d = out_q d"
| "gpio_mux GPIO_DIR d = dir_q d"
| "gpio_mux GPIO_INT_TYPE d = int_type_q d"
| "gpio_mux GPIO_INT_EN d = int_en_q d"
| "gpio_mux GPIO_INT_STATUS d = pend_q d"

text \<open>The peripheral behind the bus, \<open>gap\<close> idle edges before each access.\<close>

definition gpio_hw :: "nat \<Rightarrow> gpio_dev hw" where
  "gpio_hw gap = \<lparr>
     hw_rd = \<lambda>r d. (let d = (gpio_edge None ^^ gap) d in
        case r of Gpio g \<Rightarrow> (gpio_mux g d, gpio_edge None d) | _ \<Rightarrow> (0, gpio_edge None d)),
     hw_wr = \<lambda>r v d. (let d = (gpio_edge None ^^ gap) d in
        case r of Gpio g \<Rightarrow> gpio_edge (Some (g, v)) d | _ \<Rightarrow> gpio_edge None d),
     hw_csr_rd = \<lambda>c d. (0, d), hw_csr_op = \<lambda>f c v d. d, hw_wfi = \<lambda>d. d\<rparr>"

definition gpio_irq :: "gpio_dev \<Rightarrow> bool" where
  "gpio_irq d \<longleftrightarrow> pend_q d AND int_en_q d \<noteq> 0"

lemma bit_pend_set: "bit (pend_set d) p \<longleftrightarrow> p < 16 \<and> ev_bit d p"
  by (auto simp: pend_set_def bit_horner_sum_bit_iff possible_bit_def)

text \<open>One edge with the input held: the state of one pin that matters for its interrupt.\<close>

definition pin_quiet :: "nat \<Rightarrow> gpio_dev \<Rightarrow> bool" where
  "pin_quiet p d \<longleftrightarrow> gpio_prev_q d = gpio_i d \<and> type_field p (int_type_q d) \<noteq> 0 \<and> \<not> bit (pend_q d) p"

lemma no_event: "gpio_prev_q d = gpio_i d \<Longrightarrow> type_field p (int_type_q d) \<noteq> 0 \<Longrightarrow> \<not> ev_bit d p"
  by (auto simp: ev_bit_def Let_def)

lemma edge_fields [simp]:
  "gpio_i (gpio_edge w d) = gpio_i d"
  "gpio_prev_q (gpio_edge w d) = gpio_i d"
  "int_type_q (gpio_edge w d) = (case w of Some (GPIO_INT_TYPE, v) \<Rightarrow> v | _ \<Rightarrow> int_type_q d)"
  "int_en_q (gpio_edge w d) = (case w of Some (GPIO_INT_EN, v) \<Rightarrow> v AND 0xFFFF | _ \<Rightarrow> int_en_q d)"
  "pend_q (gpio_edge w d) = (case w of Some (GPIO_INT_STATUS, v) \<Rightarrow> (pend_q d AND NOT v) OR pend_set d
                                     | _ \<Rightarrow> pend_q d OR pend_set d)"
  by (auto simp: Let_def split: option.splits prod.splits gpio_reg.splits)

declare gpio_edge.simps [simp del]

lemma idle_fields [simp]:
  "gpio_i ((gpio_edge None ^^ n) d) = gpio_i d"
  "int_type_q ((gpio_edge None ^^ n) d) = int_type_q d"
  "int_en_q ((gpio_edge None ^^ n) d) = int_en_q d"
  by (induction n) auto

lemma idle_prev: "gpio_prev_q d = gpio_i d \<Longrightarrow> gpio_prev_q ((gpio_edge None ^^ n) d) = gpio_i d"
  by (induction n) auto

lemma quiet_edge:
  assumes "pin_quiet p d" and "\<And>v. w \<noteq> Some (GPIO_INT_TYPE, v)"
  shows "pin_quiet p (gpio_edge w d)"
  using assms no_event [of d p]
  by (auto simp: pin_quiet_def bit_pend_set bit_simps split: option.splits prod.splits gpio_reg.splits)

lemma quiet_idle: "pin_quiet p d \<Longrightarrow> pin_quiet p ((gpio_edge None ^^ n) d)"
  by (induction n) (auto intro: quiet_edge)

text \<open>Accesses on this bus, as edges.\<close>

abbreviation idle :: "nat \<Rightarrow> gpio_dev \<Rightarrow> gpio_dev" where
  "idle n \<equiv> gpio_edge None ^^ n"

lemma dev_gpio_wr:
  "dev (wr (gpio_hw gap) (Gpio g) v s) = gpio_edge (Some (g, v)) (idle gap (dev s))"
  by (simp add: wr_def gpio_hw_def Let_def)

lemma dev_gpio_rmw:
  "dev (rmw (gpio_hw gap) (Gpio g) f s) =
     gpio_edge (Some (g, f (gpio_mux g (idle gap (dev s)))))
       (idle gap (gpio_edge None (idle gap (dev s))))"
  by (simp add: rmw_def rd_def wr_def gpio_hw_def Let_def)

lemma prev_after_edge: "gpio_prev_q (idle n (gpio_edge w d)) = gpio_i d"
  using idle_prev [of "gpio_edge w d" n] by simp

text \<open>After the retype the clear sticks, and after the clear the pin is quiet.\<close>

lemma quiet_after_clear:
  assumes "gpio_prev_q d = gpio_i d" and "type_field p (int_type_q d) \<noteq> 0" and "p < 16"
  shows "pin_quiet p (gpio_edge (Some (GPIO_INT_STATUS, push_bit p 1)) d)"
  using assms no_event [of d p] by (auto simp: pin_quiet_def bit_pend_set bit_simps)

section \<open>Properties\<close>

text \<open>\<open>gpio_int_config\<close> stores, in one read-modify-write of INT_TYPE, a word in which the pin's
  two-bit field is the new type and the field of every other pin is what was read.\<close>

theorem gpio_int_config_field:
  assumes "unat pin < 16" and "rd hw (Gpio GPIO_INT_TYPE) s = (v, t)"
  shows "\<exists>w. evs (gpio_int_config hw pin type s) =
              evs s @ [Rd (Gpio GPIO_INT_TYPE) v, Wr (Gpio GPIO_INT_TYPE) w] \<and>
            (\<forall>q < 16. type_field q w = (if q = unat pin then type AND 3 else type_field q v))"
  using assms evs_gpio_int_config [of v hw s pin type] type_field_update [OF assms(1)] by auto

theorem gpio_int_config_field_witness:
  "\<exists>w. evs (gpio_int_config (const_hw (\<lambda>_. 0x55)) 1 2 \<lparr>dev = (), evs = []\<rparr>) =
        [Rd (Gpio GPIO_INT_TYPE) 0x55, Wr (Gpio GPIO_INT_TYPE) w] \<and>
      type_field 1 w = 2 \<and> type_field 2 w = 1"
proof -
  let ?s = "\<lparr>dev = (), evs = []\<rparr>"
  have rd: "rd (const_hw (\<lambda>_. 0x55)) (Gpio GPIO_INT_TYPE) ?s =
      (0x55, ?s\<lparr>evs := [Rd (Gpio GPIO_INT_TYPE) 0x55]\<rparr>)"
    by (simp add: rd_def const_hw_def)
  obtain w where "evs (gpio_int_config (const_hw (\<lambda>_. 0x55)) 1 2 ?s) =
        evs ?s @ [Rd (Gpio GPIO_INT_TYPE) 0x55, Wr (Gpio GPIO_INT_TYPE) w]"
    and w: "\<forall>q < 16. type_field q w = (if q = unat (1 :: u32) then 2 AND 3 else type_field q 0x55)"
    using gpio_int_config_field [OF _ rd, of 1 2] by auto
  moreover have "type_field 1 w = 2" "type_field 2 w = 1"
    using w [rule_format, of 1] w [rule_format, of 2] by (simp_all add: type_field_def)
  ultimately show ?thesis by auto
qed

text \<open>What the pins do later: one clock per sample of the inputs.\<close>

definition watch :: "u32 list \<Rightarrow> gpio_dev \<Rightarrow> gpio_dev" where
  "watch js d = fold (\<lambda>j d. gpio_edge None (d\<lparr>gpio_i := j\<rparr>)) js d"

text \<open>Whether the samples hold an edge that the type selects: 1 rising, 2 falling, 3 either.\<close>

fun edge_in :: "u32 \<Rightarrow> nat \<Rightarrow> u32 \<Rightarrow> u32 list \<Rightarrow> bool" where
  "edge_in ty p i [] \<longleftrightarrow> False"
| "edge_in ty p i (j # js) \<longleftrightarrow>
     (\<not> bit i p \<and> bit j p \<and> ty \<in> {1, 3}) \<or> (bit i p \<and> \<not> bit j p \<and> ty \<in> {2, 3}) \<or> edge_in ty p j js"

lemma watch_pending:
  assumes "p < 16" and "type_field p (int_type_q d) \<noteq> 0" and "gpio_prev_q d = i"
  shows "bit (pend_q (watch js d)) p \<longleftrightarrow> bit (pend_q d) p \<or> edge_in (type_field p (int_type_q d)) p i js"
  using assms(2,3)
proof (induction js arbitrary: d i)
  case (Cons j js)
  let ?d = "gpio_edge None (d\<lparr>gpio_i := j\<rparr>)"
  have "bit (pend_q (watch js ?d)) p \<longleftrightarrow> bit (pend_q ?d) p \<or> edge_in (type_field p (int_type_q d)) p j js"
    using Cons.IH [of ?d j] Cons.prems by simp
  then show ?case using assms(1) Cons.prems by (auto simp: watch_def bit_simps bit_pend_set ev_bit_def Let_def)
qed (simp add: watch_def)

text \<open>C7: with an edge type, and the pin's input held while it runs, \<open>gpio_int_arm\<close> leaves the pin enabled and
  not pending, whatever was pending before and however long each access takes.  From then on, for any samples of the
  inputs, the pin becomes pending exactly when they hold an edge of the type that was asked for: no phantom
  interrupt out of reset, and no edge missed.  The types and enables of the other pins are unchanged.\<close>

theorem gpio_int_arm_no_phantom:
  assumes "unat pin < 16" and "type AND 3 \<noteq> 0"
  shows "let d = dev (gpio_int_arm (gpio_hw gap) pin type s) in
     bit (int_en_q d) (unat pin) \<and> \<not> bit (pend_q (idle n d)) (unat pin) \<and>
     (bit (pend_q (watch js (idle n d))) (unat pin) \<longleftrightarrow> edge_in (type AND 3) (unat pin) (gpio_i (dev s)) js) \<and>
     (\<forall>q < 16. q \<noteq> unat pin \<longrightarrow>
        type_field q (int_type_q d) = type_field q (int_type_q (dev s)) \<and>
        bit (int_en_q d) q = bit (int_en_q (dev s)) q)"
proof -
  let ?p = "unat pin"
  define d1 where "d1 = idle gap (dev s)"
  define d2 where "d2 = gpio_edge (Some (GPIO_INT_TYPE, int_type_update pin type (int_type_q d1)))
      (idle gap (gpio_edge None d1))"
  define d3 where "d3 = gpio_edge (Some (GPIO_INT_STATUS, push_bit ?p 1)) (idle gap d2)"
  define d4 where "d4 = idle gap (gpio_edge None (idle gap d3))"
  define d5 where "d5 = gpio_edge (Some (GPIO_INT_EN, int_en_q (idle gap d3) OR push_bit ?p 1)) d4"
  have d: "dev (gpio_int_arm (gpio_hw gap) pin type s) = d5"
    by (simp add: gpio_int_arm_def gpio_int_config_def gpio_int_clear_def gpio_int_enable_def Let_def
        dev_gpio_wr dev_gpio_rmw d1_def d2_def d3_def d4_def d5_def)
  have ty: "int_type_q d5 = int_type_update pin type (int_type_q (dev s))"
    by (simp add: d5_def d4_def d3_def d2_def d1_def)
  have "type_field ?p (int_type_q (idle gap d2)) \<noteq> 0"
    using assms type_field_update [of pin ?p type "int_type_q d1"] by (simp add: d2_def)
  then have "pin_quiet ?p d3"
    unfolding d3_def using assms(1)
    by (intro quiet_after_clear) (simp_all add: prev_after_edge d2_def)
  then have "pin_quiet ?p d5"
    unfolding d5_def d4_def by (intro quiet_edge quiet_idle) auto
  then have quiet: "pin_quiet ?p (idle n d5)" by (rule quiet_idle)
  have "type_field ?p (int_type_q (idle n d5)) = type AND 3" using type_field_update [OF assms(1)] assms(1) by (simp add: ty)
  moreover have "gpio_i (idle n d5) = gpio_i (dev s)" by (simp add: d5_def d4_def d3_def d2_def d1_def)
  ultimately have "bit (pend_q (watch js (idle n d5))) ?p \<longleftrightarrow> edge_in (type AND 3) ?p (gpio_i (dev s)) js"
    using watch_pending [of ?p "idle n d5" "gpio_i (dev s)" js] quiet assms(1) by (simp add: pin_quiet_def)
  note quiet this
  moreover have "bit (int_en_q d5) q = (bit (int_en_q (dev s)) q \<or> q = ?p)" if "q < 16" for q
  proof -
    have "bit (v AND 0xFFFF) q = bit v q" for v :: u32
      using that by (simp only: and_masks bit_take_bit_iff simp_thms)
    then show ?thesis
      using that by (simp add: d5_def d4_def d3_def d2_def d1_def) (auto simp: bit_simps)
  qed
  ultimately show ?thesis
    using assms(1) ty type_field_update [OF assms(1)] by (simp add: d pin_quiet_def Let_def)
qed

theorem gpio_int_arm_no_phantom_witness:
  "let d = dev (gpio_int_arm (gpio_hw 3) 2 1
      \<lparr>dev = \<lparr>gpio_i = 0xF, out_q = 0, dir_q = 0, gpio_prev_q = 0, int_type_q = 0, int_en_q = 0, pend_q = 0xF\<rparr>, evs = []\<rparr>)
   in \<not> bit (pend_q (idle 5 d)) 2 \<and> \<not> bit (pend_q (watch [0xF, 0] (idle 5 d))) 2 \<and> bit (pend_q (watch [0xF, 0, 4] (idle 5 d))) 2"
proof -
  let ?s = "\<lparr>dev = \<lparr>gpio_i = 0xF, out_q = 0, dir_q = 0, gpio_prev_q = 0, int_type_q = 0, int_en_q = 0, pend_q = 0xF\<rparr>,
         evs = []\<rparr> :: gpio_dev mach"
  have "edge_in 1 2 0xF [0xF, 0, 4]" "\<not> edge_in 1 2 0xF [0xF, 0]" by (simp_all add: bit_numeral_rec)
  then show ?thesis
    using gpio_int_arm_no_phantom [where pin = 2 and type = 1 and gap = 3 and n = 5 and s = ?s and js = "[0xF, 0, 4]"]
      gpio_int_arm_no_phantom [where pin = 2 and type = 1 and gap = 3 and n = 5 and s = ?s and js = "[0xF, 0]"]
    by (simp add: Let_def)
qed

end
