(* ===== verification/Timer.thy ===== *)
theory Timer
  imports Sys
begin

text \<open>
  \<open>sim/sw/common/timer.h\<close>: busy-wait delays on the 32-bit cycle counter and the 64-bit machine timer
  reached through 32-bit halves.
\<close>

definition TIMER_CORE_HZ :: u32 where "TIMER_CORE_HZ = 50000000"
definition TIMER_CYCLES_PER_US :: u32 where "TIMER_CYCLES_PER_US = TIMER_CORE_HZ div 1000000"

text \<open>\<open>while ((sys_cycle() - t0) < wait) ;\<close>\<close>

partial_function (option) cycle_wait :: "'d hw \<Rightarrow> u32 \<Rightarrow> u32 \<Rightarrow> ('d, 'z) m \<Rightarrow> ('d, 'z) m option" where
  "cycle_wait hw t0 wait s =
     (let (c, s) = sys_cycle hw s in if c - t0 < wait then cycle_wait hw t0 wait s else Some s)"

definition delay_us :: "'d hw \<Rightarrow> u32 \<Rightarrow> ('d, 'z) m \<Rightarrow> ('d, 'z) m option" where
  "delay_us hw us s =
     (let wait = us * TIMER_CYCLES_PER_US; (t0, s) = sys_cycle hw s in cycle_wait hw t0 wait s)"

fun delay_loop :: "'d hw \<Rightarrow> nat \<Rightarrow> ('d, 'z) m \<Rightarrow> ('d, 'z) m option" where
  "delay_loop hw 0 s = Some s"
| "delay_loop hw (Suc ms) s = do { s \<leftarrow> delay_us hw 1000 s; delay_loop hw ms s }"

definition delay_ms :: "'d hw \<Rightarrow> u32 \<Rightarrow> ('d, 'z) m \<Rightarrow> ('d, 'z) m option" where
  "delay_ms hw ms s = delay_loop hw (unat ms) s"

definition micros :: "'d hw \<Rightarrow> ('d, 'z) m \<Rightarrow> u32 \<times> ('d, 'z) m" where
  "micros hw s = (let (c, s) = sys_cycle hw s in (c div TIMER_CYCLES_PER_US, s))"

definition millis :: "'d hw \<Rightarrow> ('d, 'z) m \<Rightarrow> u32 \<times> ('d, 'z) m" where
  "millis hw s = (let (u, s) = micros hw s in (u div 1000, s))"

definition timer_mtime :: "'d hw \<Rightarrow> ('d, 'z) m \<Rightarrow> u64 \<times> ('d, 'z) m" where
  "timer_mtime hw s =
     (let (hi, s) = rd hw (Timer TIMER_MTIME_HI) s;
          (lo, s) = rd hw (Timer TIMER_MTIME_LO) s;
          (hi2, s) = rd hw (Timer TIMER_MTIME_HI) s;
          (hi, lo, s) = (if hi \<noteq> hi2
             then let (lo, s) = rd hw (Timer TIMER_MTIME_LO) s in (hi2, lo, s)
             else (hi, lo, s))
      in (push_bit 32 (ucast hi) OR ucast lo, s))"

definition timer_arm_us :: "'d hw \<Rightarrow> u32 \<Rightarrow> ('d, 'z) m \<Rightarrow> ('d, 'z) m" where
  "timer_arm_us hw delta_us s =
     (let (now, s) = timer_mtime hw s;
          target = now + ucast delta_us * ucast TIMER_CYCLES_PER_US;
          s = wr hw (Timer TIMER_MTIMECMP_HI) 0xFFFFFFFF s;
          s = wr hw (Timer TIMER_MTIMECMP_LO) (ucast (target AND 0xFFFFFFFF)) s
      in wr hw (Timer TIMER_MTIMECMP_HI) (ucast (drop_bit 32 target)) s)"

definition timer_cancel :: "'d hw \<Rightarrow> ('d, 'z) m \<Rightarrow> ('d, 'z) m" where
  "timer_cancel hw s =
     (let s = wr hw (Timer TIMER_MTIMECMP_HI) 0xFFFFFFFF s;
          s = wr hw (Timer TIMER_MTIMECMP_LO) 0xFFFFFFFF s
      in wr hw (Timer TIMER_MTIMECMP_HI) 0xFFFFFFFF s)"

definition timer_pending :: "'d hw \<Rightarrow> ('d, 'z) m \<Rightarrow> bool \<times> ('d, 'z) m" where
  "timer_pending hw s = (let (v, s) = sys_mip hw s in (v AND push_bit 7 1 \<noteq> 0, s))"

definition timer_irq_enable :: "'d hw \<Rightarrow> ('d, 'z) m \<Rightarrow> ('d, 'z) m" where
  "timer_irq_enable hw s = sys_irq_source_enable hw SYS_MIE_MTIE s"

definition timer_irq_disable :: "'d hw \<Rightarrow> ('d, 'z) m \<Rightarrow> ('d, 'z) m" where
  "timer_irq_disable hw s = sys_irq_source_disable hw SYS_MIE_MTIE s"


section \<open>A running clock\<close>

text \<open>
  The counters as the timer hardware presents them: \<open>c k\<close> is the 64-bit time at the \<open>k\<close>-th access,
  the cycle CSR is its low word, and the two halves of \<open>mtime\<close> are read one at a time.
\<close>

definition clock_hw :: "(nat \<Rightarrow> nat) \<Rightarrow> nat hw" where
  "clock_hw c = \<lparr>
     hw_rd = \<lambda>r n. (if r = Timer TIMER_MTIME_HI then of_nat (c n div 2 ^ 32)
                   else if r = Timer TIMER_MTIME_LO then of_nat (c n mod 2 ^ 32) else 0, Suc n),
     hw_wr = \<lambda>r v n. Suc n,
     hw_csr_rd = \<lambda>r n. (if r = MCYCLE then of_nat (c n) else 0, Suc n),
     hw_csr_op = \<lambda>f r v n. Suc n,
     hw_wfi = Suc\<rparr>"

lemma clock_cycle: "sys_cycle (clock_hw c) s =
    (of_nat (c (dev s)), s\<lparr>dev := Suc (dev s), evs := evs s @ [CsrRd MCYCLE (of_nat (c (dev s)))]\<rparr>)"
  by (simp add: sys_cycle_def csr_rd_def clock_hw_def)

lemma clock_rd:
  "rd (clock_hw c) (Timer TIMER_MTIME_HI) s = (of_nat (c (dev s) div 2 ^ 32),
     s\<lparr>dev := Suc (dev s), evs := evs s @ [Rd (Timer TIMER_MTIME_HI) (of_nat (c (dev s) div 2 ^ 32))]\<rparr>)"
  "rd (clock_hw c) (Timer TIMER_MTIME_LO) s = (of_nat (c (dev s) mod 2 ^ 32),
     s\<lparr>dev := Suc (dev s), evs := evs s @ [Rd (Timer TIMER_MTIME_LO) (of_nat (c (dev s) mod 2 ^ 32))]\<rparr>)"
  by (simp_all add: rd_def clock_hw_def)

lemma elapsed:
  assumes "b \<le> a" and "a - b < 2 ^ 32"
  shows "unat (of_nat a - of_nat b :: u32) = a - b"
proof -
  have "(of_nat a - of_nat b :: u32) = of_nat (a - b)"
    using assms(1) by (simp add: of_nat_diff)
  then show ?thesis using assms(2) by (simp add: unat_of_nat)
qed

lemma cycle_wait_clock:
  fixes w :: u32
  assumes adv: "\<And>k. c k < c (Suc k) \<and> c (Suc k) < c k + gap" and room: "unat w + gap \<le> 2 ^ 32"
  shows "start \<le> c (dev s) \<Longrightarrow> c (dev s) < start + unat w + gap \<Longrightarrow>
    \<exists>s' k. cycle_wait (clock_hw c) (of_nat start) w s = Some s' \<and> dev s' = Suc k \<and>
        start + unat w \<le> c k \<and> c k < start + unat w + gap"
proof (induction "start + unat w - c (dev s)" arbitrary: s rule: less_induct)
  case less
  have el: "unat (of_nat (c (dev s)) - of_nat start :: u32) = c (dev s) - start"
    using less.prems room by (intro elapsed) auto
  show ?case
  proof (cases "c (dev s) - start < unat w")
    case True
    let ?s = "s\<lparr>dev := Suc (dev s), evs := evs s @ [CsrRd MCYCLE (of_nat (c (dev s)))]\<rparr>"
    have "\<exists>s' k. cycle_wait (clock_hw c) (of_nat start) w ?s = Some s' \<and> dev s' = Suc k \<and>
        start + unat w \<le> c k \<and> c k < start + unat w + gap"
      using less.hyps [of ?s] less.prems adv [of "dev s"] True by auto
    then show ?thesis
      using True el by (subst cycle_wait.simps) (simp add: clock_cycle word_less_nat_alt)
  next
    case False
    then show ?thesis
      using el less.prems by (subst cycle_wait.simps) (auto simp: clock_cycle word_less_nat_alt)
  qed
qed

section \<open>The compare register\<close>

text \<open>What \<open>mtimecmp\<close> holds after each of a list of stores, as a number, from its two halves.\<close>

fun cmp_step :: "mreg \<times> u32 \<Rightarrow> u32 \<times> u32 \<Rightarrow> u32 \<times> u32" where
  "cmp_step (r, v) (hi, lo) =
     (if r = Timer TIMER_MTIMECMP_HI then (v, lo)
      else if r = Timer TIMER_MTIMECMP_LO then (hi, v) else (hi, lo))"

definition cmp_val :: "u32 \<times> u32 \<Rightarrow> nat" where
  "cmp_val p = unat (fst p) * 2 ^ 32 + unat (snd p)"

fun cmp_trace :: "(mreg \<times> u32) list \<Rightarrow> u32 \<times> u32 \<Rightarrow> nat list" where
  "cmp_trace [] p = []"
| "cmp_trace (w # ws) p = cmp_val (cmp_step w p) # cmp_trace ws (cmp_step w p)"

lemma cmp_val_hi_max: "cmp_val (hi, lo) \<le> cmp_val (0xFFFFFFFF, lo)"
proof -
  have "unat hi \<le> unat (0xFFFFFFFF :: u32)" using unat_bound [of hi] by simp
  then show ?thesis by (simp add: cmp_val_def)
qed

lemma timer_mtime_writes: "writes (evs (snd (timer_mtime hw s))) = writes (evs s)"
  by (auto simp: timer_mtime_def Let_def split: prod.splits dest!: rd_eqD)

lemma of_nat_u32_inj: "a < 2 ^ 32 \<Longrightarrow> b < 2 ^ 32 \<Longrightarrow> (of_nat a :: u32) = of_nat b \<longleftrightarrow> a = b"
  by (auto simp: word_unat_eq_iff unat_of_nat)

text \<open>The value and the number of accesses of one \<open>timer_mtime\<close>, read off the clock.\<close>

lemma timer_mtime_clock:
  fixes c :: "nat \<Rightarrow> nat"
  defines "hi \<equiv> \<lambda>k. of_nat (c k div 2 ^ 32) :: u32" and "lo \<equiv> \<lambda>k. of_nat (c k mod 2 ^ 32) :: u32"
  assumes "timer_mtime (clock_hw c) s = (v, s')" and "n = dev s"
  shows "if hi n = hi (Suc (Suc n))
    then v = push_bit 32 (ucast (hi n)) OR ucast (lo (Suc n)) \<and> dev s' = Suc (Suc (Suc n))
    else v = push_bit 32 (ucast (hi (Suc (Suc n)))) OR ucast (lo (Suc (Suc (Suc n)))) \<and>
      dev s' = Suc (Suc (Suc (Suc n)))"
  using assms(3) unfolding timer_mtime_def clock_rd Let_def assms(4) hi_def lo_def
  by (auto simp: clock_rd split: if_splits)

lemma clock_join:
  assumes "a < 2 ^ 64" and "h = a div 2 ^ 32"
  shows "unat (push_bit 32 (ucast (of_nat h :: u32)) OR ucast (of_nat (a mod 2 ^ 32) :: u32) :: u64) = a"
proof -
  have "h < 2 ^ 32" using assms by (simp add: div_less_iff_less_mult)
  then have "unat (of_nat h :: u32) = h" and "unat (of_nat (a mod 2 ^ 32) :: u32) = a mod 2 ^ 32"
    by (simp_all add: unat_of_nat)
  then show ?thesis
    using assms(2) div_mult_mod_eq [of a "2 ^ 32"] by (simp only: unat_join)
qed

section \<open>Properties\<close>

text \<open>C8: while the 64-bit counter advances by less than one low-word period during the call,
  \<open>timer_mtime\<close> returns a value the counter really had at one of its own accesses, even when the low
  half rolls over between the two reads.\<close>

theorem timer_mtime_linearizable:
  assumes "\<And>i j. i \<le> j \<Longrightarrow> c i \<le> c j" and "c (dev s + 3) < c (dev s) + 2 ^ 32"
    and "c (dev s + 3) < 2 ^ 64" and "timer_mtime (clock_hw c) s = (v, s')"
  shows "\<exists>k. dev s \<le> k \<and> k < dev s' \<and> unat v = c k"
proof -
  define n where "n = dev s"
  define n1 n2 n3 where "n1 = Suc n" "n2 = Suc n1" "n3 = Suc n2"
  have n3: "dev s + 3 = n3" by (simp add: n_def n1_n2_n3_def)
  have mono: "c n \<le> c n1" "c n1 \<le> c n2" "c n2 \<le> c n3"
    using assms(1) by (simp_all add: n1_n2_n3_def)
  have small: "c n1 < 2 ^ 64" "c n3 < 2 ^ 64" and near: "c n3 < c n + 2 ^ 32"
    using assms(2,3) mono unfolding n3 n_def by linarith+
  have div_mono: "c n div 2 ^ 32 \<le> c n1 div 2 ^ 32" "c n1 div 2 ^ 32 \<le> c n2 div 2 ^ 32"
    "c n2 div 2 ^ 32 \<le> c n3 div 2 ^ 32"
    using mono by (intro div_le_mono; simp)+
  have div_near: "c n3 div 2 ^ 32 \<le> c n div 2 ^ 32 + 1"
    using div_le_mono [of "c n3" "c n + 2 ^ 32" "2 ^ 32"] near by simp
  note read = timer_mtime_clock [OF assms(4) n_def, folded n1_n2_n3_def]
  have inj: "(of_nat (c n div 2 ^ 32) :: u32) = of_nat (c n2 div 2 ^ 32) \<longleftrightarrow> c n div 2 ^ 32 = c n2 div 2 ^ 32"
    using small(2) mono by (intro of_nat_u32_inj) (auto simp: div_less_iff_less_mult)
  show ?thesis
  proof (cases "c n div 2 ^ 32 = c n2 div 2 ^ 32")
    case True
    with div_mono have "c n div 2 ^ 32 = c n1 div 2 ^ 32" by linarith
    then have "unat v = c n1" and "dev s' = n3"
      using read inj True clock_join [OF small(1)] by auto
    then show ?thesis by (intro exI [of _ n1]) (simp add: n_def n1_n2_n3_def)
  next
    case False
    with div_mono div_near have "c n2 div 2 ^ 32 = c n3 div 2 ^ 32" by linarith
    then have "unat v = c n3" and "dev s' = Suc n3"
      using read inj False clock_join [OF small(2)] by auto
    then show ?thesis by (intro exI [of _ n3]) (simp add: n_def n1_n2_n3_def)
  qed
qed

theorem timer_mtime_linearizable_witness:
  "\<exists>k v s'. timer_mtime (clock_hw (\<lambda>k. 0xFFFFFFFF + k)) \<lparr>dev = 0, evs = []\<rparr> = (v, s') \<and> k < 4 \<and> unat v = 0xFFFFFFFF + k"
proof -
  let ?c = "\<lambda>k :: nat. 0xFFFFFFFF + k" and ?s = "\<lparr>dev = 0, evs = []\<rparr> :: nat mach"
  obtain v s' where r: "timer_mtime (clock_hw ?c) ?s = (v, s')" by (cases "timer_mtime (clock_hw ?c) ?s")
  have "dev s' = 4" using timer_mtime_clock [OF r refl] by (auto split: if_splits)
  then obtain k where "k < 4" "unat v = ?c k"
    using timer_mtime_linearizable [OF _ _ _ r] by auto
  then show ?thesis using r by blast
qed

text \<open>C9: arming the timer stores exactly the compare value \<open>mtime + delta\<close> (in cycles), and no value
  the compare register holds on the way is below both the old and the new one, so the interrupt
  condition \<open>mtime >= mtimecmp\<close> can become true only if it holds for one of the two.\<close>

theorem timer_arm_no_spurious:
  assumes "timer_mtime hw s = (now, t)"
  shows "\<exists>ws. writes (evs (timer_arm_us hw delta_us s)) = writes (evs s) @ ws \<and>
    (let target = unat (now + ucast delta_us * ucast TIMER_CYCLES_PER_US)
     in last (cmp_trace ws old) = target \<and> (\<forall>c \<in> set (cmp_trace ws old). min (cmp_val old) target \<le> c))"
proof -
  define target where "target = now + ucast delta_us * ucast TIMER_CYCLES_PER_US"
  define lo hi :: u32 where "lo = ucast (target AND 0xFFFFFFFF)" and "hi = ucast (drop_bit 32 target)"
  let ?ws = "[(Timer TIMER_MTIMECMP_HI, 0xFFFFFFFF), (Timer TIMER_MTIMECMP_LO, lo), (Timer TIMER_MTIMECMP_HI, hi)]"
  have val: "cmp_val (hi, lo) = unat target"
    by (simp only: cmp_val_def fst_conv snd_conv hi_def lo_def unat_high_half unat_low_half div_mult_mod_eq)
  have "writes (evs (timer_arm_us hw delta_us s)) = writes (evs s) @ ?ws"
    using timer_mtime_writes [of hw s] assms
    by (simp add: timer_arm_us_def Let_def target_def lo_def hi_def)
  moreover have "last (cmp_trace ?ws old) = unat target"
    by (cases old) (simp add: val)
  moreover have "\<forall>c \<in> set (cmp_trace ?ws old). min (cmp_val old) (unat target) \<le> c"
    using cmp_val_hi_max [of "fst old" "snd old"] cmp_val_hi_max [of hi lo] val by (cases old) auto
  ultimately show ?thesis unfolding target_def Let_def by blast
qed

theorem timer_arm_no_spurious_witness:
  "\<exists>ws. writes (evs (timer_arm_us (clock_hw (\<lambda>k. 1000 + k)) 3 \<lparr>dev = 0, evs = []\<rparr>)) = ws \<and>
    last (cmp_trace ws (5, 7)) = 1151"
proof -
  have "timer_mtime (clock_hw (\<lambda>k. 1000 + k)) \<lparr>dev = 0, evs = []\<rparr> =
      (1001, snd (timer_mtime (clock_hw (\<lambda>k. 1000 + k)) \<lparr>dev = 0, evs = []\<rparr>))"
    by (simp add: timer_mtime_def clock_rd)
  from timer_arm_no_spurious [OF this, of 3 "(5, 7)"] show ?thesis
    by (auto simp: TIMER_CYCLES_PER_US_def TIMER_CORE_HZ_def Let_def)
qed

text \<open>On a cycle counter that advances by at least one and fewer than \<open>gap\<close> cycles from one read to
  the next, \<open>delay_us\<close> returns, after at least the cycles asked for and less than \<open>gap\<close> more, also
  when the 32-bit counter wraps, as long as the delay and one step fit the counter.\<close>

theorem delay_us_waits:
  assumes "\<And>k. c k < c (Suc k) \<and> c (Suc k) < c k + gap" and "unat us * 50 + gap \<le> 2 ^ 32"
  shows "\<exists>s' k. delay_us (clock_hw c) us s = Some s' \<and> dev s' = Suc k \<and>
    c (dev s) + unat us * 50 \<le> c k \<and> c k < c (dev s) + unat us * 50 + gap"
proof -
  let ?s = "s\<lparr>dev := Suc (dev s), evs := evs s @ [CsrRd MCYCLE (of_nat (c (dev s)))]\<rparr>"
  have "0 < gap" using assms(1) [of 0] by simp
  then have "unat us * 50 < 2 ^ 32" using assms(2) by linarith
  then have w: "unat (us * TIMER_CYCLES_PER_US) = unat us * 50"
    by (simp add: TIMER_CYCLES_PER_US_def TIMER_CORE_HZ_def unat_word_ariths)
  have "unat (us * TIMER_CYCLES_PER_US) + gap \<le> 2 ^ 32" using w assms(2) by simp
  from cycle_wait_clock [where c = c, OF assms(1) this, where s = ?s and start = "c (dev s)"]
  show ?thesis
    using assms(1) [of "dev s"] by (simp add: delay_us_def clock_cycle w)
qed

theorem delay_us_waits_witness:
  "\<exists>s' k. delay_us (clock_hw (\<lambda>k. 0xFFFFFFF0 + 7 * k)) 2 \<lparr>dev = 0, evs = []\<rparr> = Some s' \<and> dev s' = Suc k \<and>
     100 \<le> 7 * k \<and> 7 * k < 108"
  using delay_us_waits [of "\<lambda>k. 0xFFFFFFF0 + 7 * k" 8 2 "\<lparr>dev = 0, evs = []\<rparr>"] by simp

end
