(* ===== verification/I2c.thy ===== *)
theory I2c
  imports Machine
begin

text \<open>
  \<open>sim/sw/common/i2c.h\<close>: the polled I2C master.  A transaction returns its C error code and, for a
  read, the bytes stored into the caller's buffer; buffers are lists of exactly the length passed.
\<close>

definition I2C_STATUS_BUSY :: u32 where "I2C_STATUS_BUSY = 0x01"
definition I2C_STATUS_TX_FULL :: u32 where "I2C_STATUS_TX_FULL = 0x02"
definition I2C_STATUS_NACK :: u32 where "I2C_STATUS_NACK = 0x20"
definition I2C_STATUS_ARBLOST :: u32 where "I2C_STATUS_ARBLOST = 0x40"
definition I2C_CTRL_ENABLE :: u32 where "I2C_CTRL_ENABLE = 0x01"
definition I2C_CTRL_IE_ALL :: u32 where "I2C_CTRL_IE_ALL = 0x7E"
definition I2C_CMD_START :: u32 where "I2C_CMD_START = 0x01"
definition I2C_CMD_STOP :: u32 where "I2C_CMD_STOP = 0x02"
definition I2C_CMD_READ :: u32 where "I2C_CMD_READ = 0x04"
definition I2C_CMD_NACK :: u32 where "I2C_CMD_NACK = 0x08"
definition I2C_IRQ_NACK :: u32 where "I2C_IRQ_NACK = 0x08"
definition I2C_IRQ_ARBLOST :: u32 where "I2C_IRQ_ARBLOST = 0x10"
definition I2C_IRQ_ALL :: u32 where "I2C_IRQ_ALL = 0x3F"

definition I2C_OK :: int where "I2C_OK = 0"
definition I2C_ERR_NACK :: int where "I2C_ERR_NACK = - 1"
definition I2C_ERR_ARB :: int where "I2C_ERR_ARB = - 2"
definition I2C_CORE_HZ :: u32 where "I2C_CORE_HZ = 50000000"

section \<open>Set-up\<close>

definition i2c_clkdiv_for :: "u32 \<Rightarrow> u32 \<Rightarrow> u32" where
  "i2c_clkdiv_for core_hz scl_hz =
     (let d = core_hz div (4 * scl_hz) in if d \<noteq> 0 then d - 1 else 0)"

definition i2c_set_clkdiv :: "'d hw \<Rightarrow> u32 \<Rightarrow> ('d, 'z) m \<Rightarrow> ('d, 'z) m" where
  "i2c_set_clkdiv hw d s = wr hw (I2c I2C_CLKDIV) d s"

definition i2c_begin :: "'d hw \<Rightarrow> u32 \<Rightarrow> u32 \<Rightarrow> ('d, 'z) m \<Rightarrow> ('d, 'z) m" where
  "i2c_begin hw core_hz scl_hz s =
     (let s = wr hw (I2c I2C_CTRL) I2C_CTRL_ENABLE s;
          s = wr hw (I2c I2C_CLKDIV) (i2c_clkdiv_for core_hz scl_hz) s
      in wr hw (I2c I2C_IRQ) I2C_IRQ_ALL s)"

definition i2c_begin_hz :: "'d hw \<Rightarrow> u32 \<Rightarrow> ('d, 'z) m \<Rightarrow> ('d, 'z) m" where
  "i2c_begin_hz hw scl_hz s = i2c_begin hw I2C_CORE_HZ scl_hz s"

section \<open>Primitives\<close>

definition i2c_busy :: "'d hw \<Rightarrow> ('d, 'z) m \<Rightarrow> bool \<times> ('d, 'z) m" where
  "i2c_busy hw s = (let (v, s) = rd hw (I2c I2C_STATUS) s in (v AND I2C_STATUS_BUSY \<noteq> 0, s))"

definition not_busy :: "u32 \<Rightarrow> bool" where
  "not_busy v \<longleftrightarrow> v AND I2C_STATUS_BUSY = 0"

definition tx_room :: "u32 \<Rightarrow> bool" where
  "tx_room v \<longleftrightarrow> v AND I2C_STATUS_TX_FULL = 0"

definition i2c_wait_idle :: "'d hw \<Rightarrow> ('d, 'z) m \<Rightarrow> ('d, 'z) m option" where
  "i2c_wait_idle hw s = do { (_, s) \<leftarrow> wait_reg hw (I2c I2C_STATUS) not_busy s; Some s }"

definition i2c_push :: "'d hw \<Rightarrow> u8 \<Rightarrow> ('d, 'z) m \<Rightarrow> ('d, 'z) m option" where
  "i2c_push hw b s = do {
     (_, s) \<leftarrow> wait_reg hw (I2c I2C_STATUS) tx_room s;
     Some (wr hw (I2c I2C_TXDATA) (ucast b) s) }"

definition i2c_cmd :: "'d hw \<Rightarrow> u32 \<Rightarrow> ('d, 'z) m \<Rightarrow> ('d, 'z) m" where
  "i2c_cmd hw cmd s = wr hw (I2c I2C_CMD) cmd s"

definition i2c_pop :: "'d hw \<Rightarrow> ('d, 'z) m \<Rightarrow> u8 \<times> ('d, 'z) m" where
  "i2c_pop hw s = (let (v, s) = rd hw (I2c I2C_RXDATA) s in (ucast (v AND 0xFF), s))"

definition err_of :: "u32 \<Rightarrow> int" where
  "err_of st =
     (if st AND I2C_STATUS_ARBLOST \<noteq> 0 then I2C_ERR_ARB
      else if st AND I2C_STATUS_NACK \<noteq> 0 then I2C_ERR_NACK else I2C_OK)"

definition i2c_check_err :: "'d hw \<Rightarrow> ('d, 'z) m \<Rightarrow> int \<times> ('d, 'z) m" where
  "i2c_check_err hw s = (let (st, s) = rd hw (I2c I2C_STATUS) s in (err_of st, s))"

definition i2c_clear_err :: "'d hw \<Rightarrow> ('d, 'z) m \<Rightarrow> ('d, 'z) m" where
  "i2c_clear_err hw s = wr hw (I2c I2C_IRQ) (I2C_IRQ_NACK OR I2C_IRQ_ARBLOST) s"

definition i2c_stop :: "'d hw \<Rightarrow> ('d, 'z) m \<Rightarrow> ('d, 'z) m option" where
  "i2c_stop hw s = i2c_wait_idle hw (wr hw (I2c I2C_CMD) (I2C_CMD_START OR I2C_CMD_STOP) s)"

section \<open>Transactions\<close>

definition i2c_write :: "'d hw \<Rightarrow> u8 \<Rightarrow> u8 list \<Rightarrow> ('d, 'z) m \<Rightarrow> (int \<times> ('d, 'z) m) option" where
  "i2c_write hw addr buf s = do {
     let s = i2c_clear_err hw s;
     s \<leftarrow> i2c_push hw (push_bit 1 addr) s;
     let s = wr hw (I2c I2C_CMD) (I2C_CMD_START OR I2C_CMD_STOP) s;
     s \<leftarrow> put_all (i2c_push hw) buf s;
     s \<leftarrow> i2c_wait_idle hw s;
     Some (i2c_check_err hw s) }"

text \<open>The per-byte read loop; the argument is \<open>len - i\<close>.\<close>

fun i2c_read_loop :: "'d hw \<Rightarrow> nat \<Rightarrow> ('d, 'z) m \<Rightarrow> (u8 list \<times> ('d, 'z) m) option" where
  "i2c_read_loop hw 0 s = Some ([], s)"
| "i2c_read_loop hw (Suc k) s = do {
     let last = (k = 0);
     let s = wr hw (I2c I2C_CMD) (I2C_CMD_READ OR (if last then I2C_CMD_NACK OR I2C_CMD_STOP else 0)) s;
     s \<leftarrow> i2c_wait_idle hw s;
     let (b, s) = i2c_pop hw s;
     (bs, s) \<leftarrow> i2c_read_loop hw k s;
     Some (b # bs, s) }"

text \<open>The tail the two read transactions share: the bytes, the release of the bus, the error check.\<close>

definition i2c_read_tail :: "'d hw \<Rightarrow> nat \<Rightarrow> ('d, 'z) m \<Rightarrow> (int \<times> u8 list \<times> ('d, 'z) m) option" where
  "i2c_read_tail hw len s = do {
     (bs, s) \<leftarrow> i2c_read_loop hw len s;
     s \<leftarrow> (if len = 0 then i2c_stop hw s else Some s);
     let (rc, s) = i2c_check_err hw s;
     Some (rc, bs, s) }"

text \<open>The step every addressing phase of a read ends with: START, wait, check.\<close>

definition i2c_addressed :: "'d hw \<Rightarrow> ('d, 'z) m \<Rightarrow> (int \<times> ('d, 'z) m) option" where
  "i2c_addressed hw s = do {
     let s = wr hw (I2c I2C_CMD) I2C_CMD_START s;
     s \<leftarrow> i2c_wait_idle hw s;
     Some (i2c_check_err hw s) }"

definition i2c_read :: "'d hw \<Rightarrow> u8 \<Rightarrow> nat \<Rightarrow> ('d, 'z) m \<Rightarrow> (int \<times> u8 list \<times> ('d, 'z) m) option" where
  "i2c_read hw addr len s = do {
     let s = i2c_clear_err hw s;
     s \<leftarrow> i2c_push hw (push_bit 1 addr OR 1) s;
     (rc, s) \<leftarrow> i2c_addressed hw s;
     if rc \<noteq> I2C_OK then Some (rc, [], s) else i2c_read_tail hw len s }"

definition i2c_probe :: "'d hw \<Rightarrow> u8 \<Rightarrow> ('d, 'z) m \<Rightarrow> (int \<times> ('d, 'z) m) option" where
  "i2c_probe hw addr s = i2c_write hw addr [] s"

definition i2c_write_reg :: "'d hw \<Rightarrow> u8 \<Rightarrow> u8 \<Rightarrow> u8 \<Rightarrow> ('d, 'z) m \<Rightarrow> (int \<times> ('d, 'z) m) option" where
  "i2c_write_reg hw addr reg val s = i2c_write hw addr [reg, val] s"

definition i2c_write_regs :: "'d hw \<Rightarrow> u8 \<Rightarrow> u8 \<Rightarrow> u8 list \<Rightarrow> ('d, 'z) m \<Rightarrow> (int \<times> ('d, 'z) m) option" where
  "i2c_write_regs hw addr reg buf s = do {
     let s = i2c_clear_err hw s;
     s \<leftarrow> i2c_push hw (push_bit 1 addr) s;
     s \<leftarrow> i2c_push hw reg s;
     let s = wr hw (I2c I2C_CMD) (I2C_CMD_START OR I2C_CMD_STOP) s;
     s \<leftarrow> put_all (i2c_push hw) buf s;
     s \<leftarrow> i2c_wait_idle hw s;
     Some (i2c_check_err hw s) }"

definition i2c_read_regs :: "'d hw \<Rightarrow> u8 \<Rightarrow> u8 \<Rightarrow> nat \<Rightarrow> ('d, 'z) m \<Rightarrow> (int \<times> u8 list \<times> ('d, 'z) m) option" where
  "i2c_read_regs hw addr reg len s = do {
     let s = i2c_clear_err hw s;
     s \<leftarrow> i2c_push hw (push_bit 1 addr) s;
     s \<leftarrow> i2c_push hw reg s;
     (rc, s) \<leftarrow> i2c_addressed hw s;
     if rc \<noteq> I2C_OK then Some (rc, [], s) else do {
       s \<leftarrow> i2c_push hw (push_bit 1 addr OR 1) s;
       (rc, s) \<leftarrow> i2c_addressed hw s;
       if rc \<noteq> I2C_OK then Some (rc, [], s) else i2c_read_tail hw len s } }"

definition i2c_read_reg :: "'d hw \<Rightarrow> u8 \<Rightarrow> u8 \<Rightarrow> ('d, 'z) m \<Rightarrow> (int \<times> u8 list \<times> ('d, 'z) m) option" where
  "i2c_read_reg hw addr reg s = i2c_read_regs hw addr reg 1 s"

section \<open>Interrupt plumbing\<close>

definition i2c_irq_flags :: "'d hw \<Rightarrow> ('d, 'z) m \<Rightarrow> u32 \<times> ('d, 'z) m" where
  "i2c_irq_flags hw s = rd hw (I2c I2C_IRQ) s"

definition i2c_irq_clear :: "'d hw \<Rightarrow> u32 \<Rightarrow> ('d, 'z) m \<Rightarrow> ('d, 'z) m" where
  "i2c_irq_clear hw bits s = wr hw (I2c I2C_IRQ) bits s"

definition i2c_irq_enable :: "'d hw \<Rightarrow> u32 \<Rightarrow> ('d, 'z) m \<Rightarrow> ('d, 'z) m" where
  "i2c_irq_enable hw ie s =
     rmw hw (I2c I2C_CTRL) (\<lambda>v. (v AND NOT I2C_CTRL_IE_ALL) OR (ie AND I2C_CTRL_IE_ALL)) s"

section \<open>Properties\<close>

text \<open>The helpers touch the bus only.\<close>

lemma i2c_push_only: "i2c_push hw b s = Some t \<Longrightarrow> only_bus s t"
  by (auto simp: i2c_push_def elim!: bind_SomeE dest: wait_regD(2) intro: only_bus_trans)

lemma i2c_push_all_only: "put_all (i2c_push hw) bs s = Some t \<Longrightarrow> only_bus s t"
  by (induction bs arbitrary: s) (auto elim!: bind_SomeE dest: i2c_push_only intro: only_bus_trans)

lemma i2c_wait_idle_only: "i2c_wait_idle hw s = Some t \<Longrightarrow> only_bus s t"
  by (auto simp: i2c_wait_idle_def elim!: bind_SomeE dest: wait_regD(2))

text \<open>The divider programmed for an I2C clock gives a clock at or above the request, and one more
  step of the divider would be below it, for every rate of at least 1 Hz that the core clock can
  reach; a faster request gets the fastest clock.\<close>

theorem i2c_clkdiv_bounds:
  assumes "0 < unat scl_hz" and "4 * unat scl_hz < 2 ^ 32"
  shows "let d = unat (i2c_clkdiv_for core_hz scl_hz) in
    (4 * unat scl_hz \<le> unat core_hz \<longrightarrow>
       4 * (d + 1) * unat scl_hz \<le> unat core_hz \<and> unat core_hz < 4 * (d + 2) * unat scl_hz) \<and>
    (unat core_hz < 4 * unat scl_hz \<longrightarrow> d = 0)"
proof -
  let ?c = "unat core_hz" and ?q = "4 * unat scl_hz"
  have div: "unat (core_hz div (4 * scl_hz)) = ?c div ?q"
    using assms(2) by (simp add: unat_div_distrib unat_word_ariths)
  show ?thesis
  proof (cases "?q \<le> ?c")
    case True
    then have pos: "0 < ?c div ?q" using assms(1) by (simp add: div_greater_zero_iff)
    then have "core_hz div (4 * scl_hz) \<noteq> 0" using div by (metis less_irrefl unsigned_0)
    then have d: "unat (i2c_clkdiv_for core_hz scl_hz) + 1 = ?c div ?q"
      using pos div by (simp add: i2c_clkdiv_for_def Let_def unat_minus_one)
    have "?c div ?q * ?q \<le> ?c" and "?c < (?c div ?q + 1) * ?q"
      using assms(1) dividend_less_div_times [of ?q ?c] div_times_less_eq_dividend [of ?c ?q]
      by (simp_all add: algebra_simps)
    then show ?thesis
      using True unfolding d [symmetric] Let_def by (auto simp: algebra_simps)
  next
    case False
    then have "core_hz div (4 * scl_hz) = 0" using div by (simp add: word_unat_eq_iff)
    then show ?thesis using False by (simp add: i2c_clkdiv_for_def)
  qed
qed

theorem i2c_clkdiv_bounds_witness: "unat (i2c_clkdiv_for 50000000 100000) = 124"
  using i2c_clkdiv_bounds [of 100000 50000000] by (simp add: Let_def)

end
