(* ===== verification/I2c_Engine.thy ===== *)
theory I2c_Engine
  imports I2c
begin

unbundle bit_operations_syntax

text \<open>
  The I2C master of \<open>src/rtl/utils/axi4_lite_i2c.sv\<close> at the level of bytes, with whatever hangs on the bus as an
  argument, and the drivers of \<open>i2c.h\<close> on it.  A START, a byte with its acknowledge and a STOP take 4, 36 and 4
  phases of the clock divider; the engine runs while the firmware computes, so the number of clocks before each
  access is an argument too (\<open>gap\<close>), and so is the rest of the board (\<open>rest\<close>).  The flags change at the end of
  the byte they are about.  A target that stretches the clock, a second master and the interrupt flags other than
  those of NACK and overrun are left out.
\<close>

section \<open>The engine\<close>

text \<open>What hangs on the bus: what a START, a byte from the master, a byte to the master (which the master
  acknowledges or not) and a STOP do to it.\<close>

record 'x target =
  on_start :: "'x \<Rightarrow> 'x"
  on_write :: "u8 \<Rightarrow> 'x \<Rightarrow> bool \<times> 'x"
  on_read :: "bool \<Rightarrow> 'x \<Rightarrow> u8 \<times> 'x"
  on_stop :: "'x \<Rightarrow> 'x"

datatype i2c_st = I_IDLE | I_START nat | I_WRITE nat u8 | I_READ nat | I_STOP nat | I_DONE nat

record 'x i2c_dev =
  ctrl_q :: u32
  div_q :: nat
  cmd_q :: "u32 option"
  txq :: "u8 list"
  rxq :: "u8 list"
  st_q :: i2c_st
  read_q :: bool
  last_q :: bool
  stop_q :: bool
  nack_q :: bool
  ovr_q :: bool
  target_q :: 'x

definition phases :: "nat \<Rightarrow> 'x i2c_dev \<Rightarrow> nat" where
  "phases p d = p * Suc (div_q d) - 1"

text \<open>The next byte of the queue, or what the operation ends with.\<close>

definition next_byte :: "i2c_st \<Rightarrow> 'x i2c_dev \<Rightarrow> 'x i2c_dev" where
  "next_byte fin d = (case txq d of [] \<Rightarrow> d\<lparr>st_q := fin\<rparr> | b # bs \<Rightarrow> d\<lparr>txq := bs, st_q := I_WRITE (phases 36 d) b\<rparr>)"

definition take_cmd :: "u32 \<Rightarrow> 'x i2c_dev \<Rightarrow> 'x i2c_dev" where
  "take_cmd c d =
     (let d = d\<lparr>cmd_q := None, read_q := bit c 2, last_q := bit c 3, stop_q := bit c 1\<rparr> in
      if bit c 0 then d\<lparr>st_q := I_START (phases 4 d)\<rparr>
      else if bit c 2 then d\<lparr>st_q := I_READ (phases 36 d)\<rparr> else next_byte I_IDLE d)"

definition started :: "'x target \<Rightarrow> 'x i2c_dev \<Rightarrow> 'x i2c_dev" where
  "started T d =
     (let d = d\<lparr>target_q := on_start T (target_q d)\<rparr> in
      if read_q d then d\<lparr>st_q := I_READ (phases 36 d)\<rparr> else next_byte (I_STOP (phases 4 d)) d)"

definition written :: "'x target \<Rightarrow> u8 \<Rightarrow> 'x i2c_dev \<Rightarrow> 'x i2c_dev" where
  "written T b d =
     (let (ack, x) = on_write T b (target_q d); d = d\<lparr>target_q := x\<rparr> in
      if \<not> ack then d\<lparr>nack_q := True, txq := [], st_q := I_STOP (phases 4 d)\<rparr>
      else next_byte (if stop_q d then I_STOP (phases 4 d) else I_DONE (phases 1 d)) d)"

definition was_read :: "'x target \<Rightarrow> 'x i2c_dev \<Rightarrow> 'x i2c_dev" where
  "was_read T d =
     (let (b, x) = on_read T (\<not> last_q d) (target_q d); d = d\<lparr>target_q := x\<rparr>;
          d = (if length (rxq d) < 16 then d\<lparr>rxq := rxq d @ [b]\<rparr> else d\<lparr>ovr_q := True\<rparr>) in
      if stop_q d \<or> last_q d then d\<lparr>st_q := I_STOP (phases 4 d)\<rparr>
      else (case cmd_q d of
          Some c \<Rightarrow> d\<lparr>cmd_q := None, last_q := bit c 3, stop_q := bit c 1, st_q := I_READ (phases 36 d)\<rparr>
        | None \<Rightarrow> d\<lparr>st_q := I_DONE (phases 1 d)\<rparr>))"

text \<open>One clock; a disabled engine is frozen, and keeps the command.\<close>

definition i2c_clk :: "'x target \<Rightarrow> 'x i2c_dev \<Rightarrow> 'x i2c_dev" where
  "i2c_clk T d = (if \<not> bit (ctrl_q d) 0 then d else case st_q d of
       I_IDLE \<Rightarrow> (case cmd_q d of None \<Rightarrow> d | Some c \<Rightarrow> take_cmd c d)
     | I_START (Suc n) \<Rightarrow> d\<lparr>st_q := I_START n\<rparr>
     | I_START 0 \<Rightarrow> started T d
     | I_WRITE (Suc n) b \<Rightarrow> d\<lparr>st_q := I_WRITE n b\<rparr>
     | I_WRITE 0 b \<Rightarrow> written T b d
     | I_READ (Suc n) \<Rightarrow> d\<lparr>st_q := I_READ n\<rparr>
     | I_READ 0 \<Rightarrow> was_read T d
     | I_STOP (Suc n) \<Rightarrow> d\<lparr>st_q := I_STOP n\<rparr>
     | I_STOP 0 \<Rightarrow> d\<lparr>target_q := on_stop T (target_q d), st_q := I_DONE (phases 1 d)\<rparr>
     | I_DONE (Suc n) \<Rightarrow> d\<lparr>st_q := I_DONE n\<rparr>
     | I_DONE 0 \<Rightarrow> d\<lparr>st_q := I_IDLE\<rparr>)"

definition i2c_status :: "'x i2c_dev \<Rightarrow> u32" where
  "i2c_status d =
     (if st_q d \<noteq> I_IDLE then 0x01 else 0) OR (if length (txq d) = 16 then 0x02 else 0) OR
     (if rxq d = [] then 0x04 else 0) OR (if txq d = [] then 0x08 else 0) OR
     (if length (rxq d) = 16 then 0x10 else 0) OR (if nack_q d then 0x20 else 0) OR (if ovr_q d then 0x80 else 0)"

definition i2c_reg_rd :: "i2c_reg \<Rightarrow> 'x i2c_dev \<Rightarrow> u32 \<times> 'x i2c_dev" where
  "i2c_reg_rd q d = (case q of
       I2C_STATUS \<Rightarrow> (i2c_status d, d)
     | I2C_CTRL \<Rightarrow> (ctrl_q d, d)
     | I2C_CLKDIV \<Rightarrow> (of_nat (div_q d), d)
     | I2C_RXDATA \<Rightarrow> (case rxq d of [] \<Rightarrow> (0, d) | b # bs \<Rightarrow> (ucast b, d\<lparr>rxq := bs\<rparr>))
     | _ \<Rightarrow> (0, d))"

definition i2c_reg_wr :: "i2c_reg \<Rightarrow> u32 \<Rightarrow> 'x i2c_dev \<Rightarrow> 'x i2c_dev" where
  "i2c_reg_wr q v d = (case q of
       I2C_CTRL \<Rightarrow> d\<lparr>ctrl_q := v AND 0x7F\<rparr>
     | I2C_CLKDIV \<Rightarrow> d\<lparr>div_q := unat (v AND 0xFFFF)\<rparr>
     | I2C_CMD \<Rightarrow> d\<lparr>cmd_q := Some v\<rparr>
     | I2C_TXDATA \<Rightarrow> (if length (txq d) < 16 then d\<lparr>txq := txq d @ [ucast v]\<rparr> else d)
     | I2C_IRQ \<Rightarrow> d\<lparr>nack_q := (nack_q d \<and> \<not> bit v 3), ovr_q := (ovr_q d \<and> \<not> bit v 5)\<rparr>
     | _ \<Rightarrow> d)"

text \<open>The machine: the engine on a board, whose other registers and whose notion of time \<open>rest\<close> stands for.  It sees
  every access, those to the engine too.\<close>

definition i2c_hw :: "'x target \<Rightarrow> ('o \<Rightarrow> nat) \<Rightarrow> 'o hw \<Rightarrow> ('o \<times> 'x i2c_dev) hw" where
  "i2c_hw T gap rest = \<lparr>
     hw_rd = \<lambda>r (b, d). (let d = (i2c_clk T ^^ Suc (gap b)) d; (v, b) = hw_rd rest r b in
         case r of I2c q \<Rightarrow> (let (v, d) = i2c_reg_rd q d in (v, b, d)) | _ \<Rightarrow> (v, b, d)),
     hw_wr = \<lambda>r v (b, d). (let d = (i2c_clk T ^^ Suc (gap b)) d in
         (hw_wr rest r v b, case r of I2c q \<Rightarrow> i2c_reg_wr q v d | _ \<Rightarrow> d)),
     hw_csr_rd = \<lambda>c (b, d). (let (v, b) = hw_csr_rd rest c b in (v, b, d)),
     hw_csr_op = \<lambda>f c v (b, d). (hw_csr_op rest f c v b, d), hw_wfi = \<lambda>(b, d). (hw_wfi rest b, d)\<rparr>"

abbreviation eng :: "('o \<times> 'x i2c_dev, 'z) m \<Rightarrow> 'x i2c_dev" where
  "eng s \<equiv> snd (dev s)"

section \<open>What a write operation amounts to\<close>

text \<open>The bytes of a queue given to the bus up to the first that is not acknowledged.\<close>

fun drain :: "'x target \<Rightarrow> u8 list \<Rightarrow> 'x \<Rightarrow> bool \<times> 'x" where
  "drain T [] x = (True, x)"
| "drain T (b # bs) x = (let (ack, x) = on_write T b x in if ack then drain T bs x else (False, x))"

lemma drain_append: "drain T (xs @ ys) x = (let (ack, x) = drain T xs x in if ack then drain T ys x else (False, x))"
  by (induction xs arbitrary: x) (auto split: prod.splits)

text \<open>An operation that starts with START: whether every byte was acknowledged, and the bus afterwards.  It
  ends with STOP when asked to, after a byte that was refused, and when there was no byte.\<close>

definition operation :: "'x target \<Rightarrow> bool \<Rightarrow> u8 list \<Rightarrow> 'x \<Rightarrow> bool \<times> 'x" where
  "operation T stop bs x = (let (ack, y) = drain T bs (on_start T x)
     in (ack, if stop \<or> \<not> ack \<or> bs = [] then on_stop T y else y))"


section \<open>A write operation under way\<close>

text \<open>
  A write operation was commanded with the bus in state \<open>x\<close>, and the bytes \<open>bs\<close> have been queued for it so far.  Of
  these \<open>out\<close> are on the bus, all acknowledged.
\<close>

definition under_way :: "'x target \<Rightarrow> bool \<Rightarrow> 'x \<Rightarrow> u8 list \<Rightarrow> 'x i2c_dev \<Rightarrow> bool" where
  "under_way T stop x bs d \<longleftrightarrow> bit (ctrl_q d) 0 \<and> rxq d = [] \<and> \<not> nack_q d \<and> \<not> ovr_q d \<and>
     (case st_q d of
        I_IDLE \<Rightarrow> \<exists>c. cmd_q d = Some c \<and> bit c 0 \<and> \<not> bit c 2 \<and> bit c 1 = stop \<and> target_q d = x \<and> txq d = bs
      | I_START n \<Rightarrow> cmd_q d = None \<and> \<not> read_q d \<and> stop_q d = stop \<and> target_q d = x \<and> txq d = bs
      | I_WRITE n b \<Rightarrow> cmd_q d = None \<and> stop_q d = stop \<and>
          (\<exists>out. bs = out @ b # txq d \<and> drain T out (on_start T x) = (True, target_q d))
      | _ \<Rightarrow> False)"

text \<open>It is over, or on its way to STOP.\<close>

definition ended :: "'x target \<Rightarrow> bool \<Rightarrow> 'x \<Rightarrow> u8 list \<Rightarrow> 'x i2c_dev \<Rightarrow> bool" where
  "ended T stop x bs d \<longleftrightarrow> bit (ctrl_q d) 0 \<and> rxq d = [] \<and> txq d = [] \<and> cmd_q d = None \<and> \<not> ovr_q d \<and>
     nack_q d = (\<not> fst (operation T stop bs x)) \<and>
     (case st_q d of
        I_STOP n \<Rightarrow> on_stop T (target_q d) = snd (operation T stop bs x)
      | I_DONE n \<Rightarrow> target_q d = snd (operation T stop bs x)
      | I_IDLE \<Rightarrow> target_q d = snd (operation T stop bs x)
      | _ \<Rightarrow> False)"

text \<open>The clocks it still takes if nothing more is queued, at most.\<close>

definition togo :: "'x i2c_dev \<Rightarrow> nat" where
  "togo d = (let B = Suc (phases 36 d); S = Suc (phases 4 d) + Suc (phases 1 d) in
     case st_q d of
       I_IDLE \<Rightarrow> (if cmd_q d = None then 0 else Suc (Suc (phases 4 d)) + Suc (length (txq d)) * B + S)
     | I_START n \<Rightarrow> Suc n + length (txq d) * B + S
     | I_WRITE n b \<Rightarrow> Suc n + length (txq d) * B + S
     | I_READ n \<Rightarrow> Suc n + S
     | I_STOP n \<Rightarrow> Suc n + Suc (phases 1 d)
     | I_DONE n \<Rightarrow> Suc n)"

lemma phases_upd [simp]:
  "phases p (d\<lparr>ctrl_q := a\<rparr>) = phases p d" "phases p (d\<lparr>cmd_q := b\<rparr>) = phases p d" "phases p (d\<lparr>txq := c\<rparr>) = phases p d"
  "phases p (d\<lparr>rxq := c\<rparr>) = phases p d" "phases p (d\<lparr>st_q := e\<rparr>) = phases p d" "phases p (d\<lparr>read_q := f\<rparr>) = phases p d"
  "phases p (d\<lparr>last_q := f\<rparr>) = phases p d" "phases p (d\<lparr>stop_q := f\<rparr>) = phases p d" "phases p (d\<lparr>nack_q := f\<rparr>) = phases p d"
  "phases p (d\<lparr>ovr_q := f\<rparr>) = phases p d" "phases p (d\<lparr>target_q := x\<rparr>) = phases p d"
  by (simp_all add: phases_def)

lemmas clk_defs = i2c_clk_def take_cmd_def started_def written_def next_byte_def Let_def

lemma clk_under_way:
  assumes "under_way T stop x bs d"
  shows "(under_way T stop x bs (i2c_clk T d) \<and> st_q (i2c_clk T d) \<noteq> I_IDLE) \<or> ended T stop x bs (i2c_clk T d)"
    and "togo (i2c_clk T d) < togo d"
proof -
  have on: "bit (ctrl_q d) 0" using assms by (simp add: under_way_def)
  have "((under_way T stop x bs (i2c_clk T d) \<and> st_q (i2c_clk T d) \<noteq> I_IDLE) \<or> ended T stop x bs (i2c_clk T d)) \<and>
      togo (i2c_clk T d) < togo d"
  proof (cases "st_q d")
    case I_IDLE
    then obtain c where "cmd_q d = Some c" "bit c 0" "\<not> bit c 2" "bit c 1 = stop" "target_q d = x" "txq d = bs" "rxq d = []"
      "\<not> nack_q d" "\<not> ovr_q d"
      using assms by (auto simp: under_way_def)
    then show ?thesis using I_IDLE on by (simp add: under_way_def clk_defs togo_def)
  next
    case (I_START n)
    then have d: "cmd_q d = None" "\<not> read_q d" "stop_q d = stop" "target_q d = x" "txq d = bs" "rxq d = []" "\<not> nack_q d" "\<not> ovr_q d"
      using assms by (simp_all add: under_way_def)
    show ?thesis
    proof (cases n)
      case (Suc k)
      then show ?thesis using I_START d on by (simp add: under_way_def clk_defs togo_def)
    next
      case 0
      show ?thesis
      proof (cases bs)
        case Nil
        then show ?thesis using I_START 0 d on by (simp add: ended_def operation_def clk_defs togo_def)
      next
        case (Cons e es)
        then show ?thesis using I_START 0 d on by (simp add: under_way_def clk_defs togo_def)
      qed
    qed
  next
    case (I_WRITE n b)
    then obtain out where out: "bs = out @ b # txq d" "drain T out (on_start T x) = (True, target_q d)"
      and d: "cmd_q d = None" "stop_q d = stop" "rxq d = []" "\<not> nack_q d" "\<not> ovr_q d"
      using assms by (auto simp: under_way_def)
    show ?thesis
    proof (cases n)
      case (Suc k)
      then show ?thesis using I_WRITE out d on by (auto simp: under_way_def clk_defs togo_def)
    next
      case 0
      obtain ack y where y: "on_write T b (target_q d) = (ack, y)" by (cases "on_write T b (target_q d)")
      have o1: "drain T (out @ [b]) (on_start T x) = (ack, y)" using out(2) y by (simp add: drain_append)
      show ?thesis
      proof (cases ack)
        case False
        have "operation T stop bs x = (False, on_stop T y)" using out y False by (simp add: operation_def drain_append)
        then show ?thesis using I_WRITE 0 y False d on by (simp add: ended_def clk_defs togo_def)
      next
        case True
        show ?thesis
        proof (cases "txq d")
          case Nil
          then have "operation T stop bs x = (True, if stop then on_stop T y else y)" using out y True by (simp add: operation_def drain_append)
          then show ?thesis using I_WRITE 0 y True Nil d on by (cases stop) (simp_all add: ended_def clk_defs togo_def)
        next
          case (Cons e es)
          then have "bs = (out @ [b]) @ e # es" using out by simp
          then show ?thesis using I_WRITE 0 y True Cons d on o1 by (auto simp: under_way_def clk_defs togo_def)
        qed
      qed
    qed
  qed (use assms in \<open>auto simp: under_way_def\<close>)
  then show "(under_way T stop x bs (i2c_clk T d) \<and> st_q (i2c_clk T d) \<noteq> I_IDLE) \<or> ended T stop x bs (i2c_clk T d)"
    and "togo (i2c_clk T d) < togo d" by blast+
qed

lemma clk_ended:
  assumes "ended T stop x bs d"
  shows "ended T stop x bs (i2c_clk T d)" and "togo (i2c_clk T d) \<le> togo d - 1"
  using assms by (auto simp: ended_def clk_defs togo_def split: i2c_st.splits nat.splits)

text \<open>A number of clocks, at least one.\<close>

lemma clks_ended: "ended T stop x bs d \<Longrightarrow> ended T stop x bs ((i2c_clk T ^^ n) d) \<and> togo ((i2c_clk T ^^ n) d) \<le> togo d - n"
proof (induction n)
  case (Suc n)
  then have "ended T stop x bs ((i2c_clk T ^^ n) d)" by simp
  from clk_ended [OF this] Suc show ?case by simp linarith
qed simp

lemma clks_run:
  assumes "under_way T stop x bs d"
  shows "((under_way T stop x bs ((i2c_clk T ^^ Suc n) d) \<and> st_q ((i2c_clk T ^^ Suc n) d) \<noteq> I_IDLE) \<or>
      ended T stop x bs ((i2c_clk T ^^ Suc n) d)) \<and> togo ((i2c_clk T ^^ Suc n) d) < togo d"
proof (induction n)
  case 0
  then show ?case using clk_under_way [OF assms] by simp
next
  case (Suc n)
  let ?d = "(i2c_clk T ^^ Suc n) d"
  show ?case
    using Suc clk_under_way [of T stop x bs ?d] clk_ended [of T stop x bs ?d]
    by (auto simp del: funpow.simps simp: funpow.simps(2) [of "Suc n"])
qed


section \<open>The drivers' accesses\<close>

lemma div_clk: "div_q (i2c_clk T d) = div_q d"
  by (simp add: clk_defs was_read_def split: i2c_st.split nat.split list.split option.split prod.split)

lemma div_clks: "div_q ((i2c_clk T ^^ n) d) = div_q d"
  by (induction n) (simp_all add: div_clk)

text \<open>The engine at rest: enabled, nothing queued, nothing unread, no command; \<open>nk\<close> is the sticky NACK.\<close>

definition resting :: "'x \<Rightarrow> bool \<Rightarrow> 'x i2c_dev \<Rightarrow> bool" where
  "resting x nk d \<longleftrightarrow> bit (ctrl_q d) 0 \<and> cmd_q d = None \<and> txq d = [] \<and> rxq d = [] \<and> st_q d = I_IDLE \<and>
     nack_q d = nk \<and> \<not> ovr_q d \<and> target_q d = x"

lemma clks_idle: "st_q d = I_IDLE \<Longrightarrow> cmd_q d = None \<Longrightarrow> (i2c_clk T ^^ n) d = d"
  by (induction n) (simp_all add: i2c_clk_def)

lemma clks_resting: "resting x nk d \<Longrightarrow> (i2c_clk T ^^ n) d = d"
  by (rule clks_idle) (simp_all add: resting_def)

text \<open>A step of the firmware that uses the bus only; the divider stays as it is.\<close>

definition silent :: "('o \<times> 'x i2c_dev, 'z) m \<Rightarrow> ('o \<times> 'x i2c_dev, 'z) m \<Rightarrow> bool" where
  "silent s t \<longleftrightarrow> only_bus s t \<and> div_q (eng t) = div_q (eng s)"

lemma silent_refl [simp]: "silent s s"
  by (simp add: silent_def)

lemma silent_trans: "silent s t \<Longrightarrow> silent t u \<Longrightarrow> silent s u"
  using only_bus_trans by (auto simp: silent_def)

lemma i2c_rd_eng:
  obtains v t where "rd (i2c_hw T gap rest) (I2c q) s = (v, t)"
    "(v, eng t) = i2c_reg_rd q ((i2c_clk T ^^ Suc (gap (fst (dev s)))) (eng s))" "silent s t"
proof -
  obtain b d where s: "dev s = (b, d)" by (cases "dev s")
  obtain v e where e: "i2c_reg_rd q ((i2c_clk T ^^ Suc (gap b)) d) = (v, e)" by (cases "i2c_reg_rd q ((i2c_clk T ^^ Suc (gap b)) d)")
  let ?t = "s\<lparr>dev := (snd (hw_rd rest (I2c q) b), e), evs := evs s @ [Rd (I2c q) v]\<rparr>"
  have "rd (i2c_hw T gap rest) (I2c q) s = (v, ?t)" using e by (simp add: rd_def i2c_hw_def s case_prod_beta del: funpow.simps)
  moreover have "div_q e = div_q d"
    using e div_clks [of "Suc (gap b)" T d] by (auto simp: i2c_reg_rd_def split: i2c_reg.splits list.splits simp del: funpow.simps)
  then have "silent s ?t" by (simp add: silent_def only_bus_def s)
  ultimately show ?thesis using that [of v ?t] e by (simp add: s del: funpow.simps)
qed

lemma i2c_wr_eng:
  fixes s :: "('o \<times> 'x i2c_dev, 'z) m"
  shows "eng (wr (i2c_hw T gap rest) (I2c q) v s) = i2c_reg_wr q v ((i2c_clk T ^^ Suc (gap (fst (dev s)))) (eng s))"
    and "q \<noteq> I2C_CLKDIV \<Longrightarrow> silent s (wr (i2c_hw T gap rest) (I2c q) v s)"
proof -
  show "eng (wr (i2c_hw T gap rest) (I2c q) v s) = i2c_reg_wr q v ((i2c_clk T ^^ Suc (gap (fst (dev s)))) (eng s))"
    by (cases "dev s"; simp add: wr_def i2c_hw_def del: funpow.simps)
  moreover assume "q \<noteq> I2C_CLKDIV"
  ultimately show "silent s (wr (i2c_hw T gap rest) (I2c q) v s)"
    by (simp add: silent_def i2c_reg_wr_def div_clks split: i2c_reg.splits del: funpow.simps)
qed

text \<open>A wait ends when every failed poll brings it closer, on what the last poll establishes.\<close>

lemma wait_reg_closer:
  assumes "P s" and "\<And>s. P s \<Longrightarrow> (case rd hw r s of (v, t) \<Rightarrow> if ok v then Q v t else P t \<and> (f t :: nat) < f s)"
  shows "\<exists>v t. wait_reg hw r ok s = Some (v, t) \<and> Q v t"
  using assms(1)
proof (induction "f s" arbitrary: s rule: less_induct)
  case less
  obtain v t where t: "rd hw r s = (v, t)" by (cases "rd hw r s")
  show ?case
  proof (cases "ok v")
    case True
    then show ?thesis using t assms(2) [OF less.prems] by (subst wait_reg.simps) auto
  next
    case False
    then have "P t" "f t < f s" using t assms(2) [OF less.prems] by auto
    from less.hyps [OF this(2,1)] show ?thesis using t False by (subst wait_reg.simps) simp
  qed
qed

lemma status_bits:
  "not_busy (i2c_status d) \<longleftrightarrow> st_q d = I_IDLE" "tx_room (i2c_status d) \<longleftrightarrow> length (txq d) \<noteq> 16"
  "err_of (i2c_status d) = (if nack_q d then I2C_ERR_NACK else I2C_OK)"
  by (auto simp: not_busy_def tx_room_def err_of_def i2c_status_def I2C_STATUS_BUSY_def I2C_STATUS_TX_FULL_def
      I2C_STATUS_ARBLOST_def I2C_STATUS_NACK_def)

text \<open>An idle engine, in use by nobody, answers each access at once.\<close>

definition rc_of :: "bool \<Rightarrow> int" where
  "rc_of ack = (if ack then I2C_OK else I2C_ERR_NACK)"

lemma check_err_resting:
  assumes "resting x nk (eng s)"
  shows "\<exists>t. i2c_check_err (i2c_hw T gap rest) s = (rc_of (\<not> nk), t) \<and> resting x nk (eng t) \<and> silent s t"
proof -
  obtain v t where t: "rd (i2c_hw T gap rest) (I2c I2C_STATUS) s = (v, t)"
    "(v, eng t) = i2c_reg_rd I2C_STATUS ((i2c_clk T ^^ Suc (gap (fst (dev s)))) (eng s))" "silent s t"
    by (rule i2c_rd_eng)
  have "(v, eng t) = (i2c_status (eng s), eng s)"
    using t(2) unfolding clks_resting [OF assms] by (simp add: i2c_reg_rd_def)
  then show ?thesis using t assms by (auto simp: i2c_check_err_def status_bits resting_def rc_of_def)
qed

lemma clear_err_resting:
  assumes "resting x nk (eng s)"
  shows "resting x False (eng (i2c_clear_err (i2c_hw T gap rest) s))" and "silent s (i2c_clear_err (i2c_hw T gap rest) s)"
proof -
  have "bit (I2C_IRQ_NACK OR I2C_IRQ_ARBLOST) 3" unfolding I2C_IRQ_NACK_def I2C_IRQ_ARBLOST_def by code_simp
  then show "resting x False (eng (i2c_clear_err (i2c_hw T gap rest) s))"
    using assms unfolding i2c_clear_err_def i2c_wr_eng clks_resting [OF assms] by (simp add: resting_def i2c_reg_wr_def)
  show "silent s (i2c_clear_err (i2c_hw T gap rest) s)" unfolding i2c_clear_err_def by (rule i2c_wr_eng) simp
qed

text \<open>Bytes queued on an idle engine.\<close>

definition queued :: "'x \<Rightarrow> u8 list \<Rightarrow> 'x i2c_dev \<Rightarrow> bool" where
  "queued x bs d \<longleftrightarrow> bit (ctrl_q d) 0 \<and> cmd_q d = None \<and> txq d = bs \<and> rxq d = [] \<and> st_q d = I_IDLE \<and>
     \<not> nack_q d \<and> \<not> ovr_q d \<and> target_q d = x"

lemma resting_queued: "resting x False d \<longleftrightarrow> queued x [] d"
  by (auto simp: resting_def queued_def)

lemma clks_queued: "queued x bs d \<Longrightarrow> (i2c_clk T ^^ n) d = d"
  by (rule clks_idle) (simp_all add: queued_def)

lemma byte_ucast [simp]: "ucast (ucast b :: u32) = (b :: u8)"
  by (rule bit_word_eqI) (simp add: bit_ucast_iff)

lemma status_settled:
  assumes "st_q d = I_IDLE" and "cmd_q d = None" and "d = (i2c_clk T ^^ Suc (gap (fst (dev s)))) (eng s)"
  shows "\<exists>t. rd (i2c_hw T gap rest) (I2c I2C_STATUS) s = (i2c_status d, t) \<and> eng t = d \<and> silent s t"
proof -
  obtain v t where "rd (i2c_hw T gap rest) (I2c I2C_STATUS) s = (v, t)" "(v, eng t) = i2c_reg_rd I2C_STATUS d" "silent s t"
    unfolding assms(3) by (rule i2c_rd_eng)
  then show ?thesis by (simp add: i2c_reg_rd_def)
qed

lemma push_settled:
  assumes q: "queued x bs ((i2c_clk T ^^ Suc (gap (fst (dev s)))) (eng s))" and len: "length bs < 16"
  shows "\<exists>t. i2c_push (i2c_hw T gap rest) b s = Some t \<and> queued x (bs @ [b]) (eng t) \<and> silent s t"
proof -
  let ?hw = "i2c_hw T gap rest"
  define d where "d = (i2c_clk T ^^ Suc (gap (fst (dev s)))) (eng s)"
  have qd: "queued x bs d" using q by (simp only: d_def)
  obtain t where t: "rd ?hw (I2c I2C_STATUS) s = (i2c_status d, t)" "eng t = d" "silent s t"
    using status_settled [of d gap s T rest, OF _ _ d_def] qd by (auto simp: queued_def)
  have "wait_reg ?hw (I2c I2C_STATUS) tx_room s = Some (i2c_status d, t)"
    using t(1) qd len by (subst wait_reg.simps) (simp add: status_bits queued_def)
  then have "i2c_push ?hw b s = Some (wr ?hw (I2c I2C_TXDATA) (ucast b) t)" by (simp add: i2c_push_def)
  moreover have "queued x (bs @ [b]) (eng (wr ?hw (I2c I2C_TXDATA) (ucast b) t))"
    using qd len unfolding i2c_wr_eng t(2) clks_queued [OF qd] by (simp add: queued_def i2c_reg_wr_def)
  ultimately show ?thesis using silent_trans [OF t(3) i2c_wr_eng(2)] by simp
qed

lemma push_queued:
  assumes "queued x bs (eng s)" and "length bs < 16"
  shows "\<exists>t. i2c_push (i2c_hw T gap rest) b s = Some t \<and> queued x (bs @ [b]) (eng t) \<and> silent s t"
  using assms by (intro push_settled) (simp_all add: clks_queued del: funpow.simps)

lemma cmd_queued:
  assumes "queued x bs (eng s)" and "bit c 0" and "\<not> bit c 2"
  shows "under_way T (bit c 1) x bs (eng (wr (i2c_hw T gap rest) (I2c I2C_CMD) c s))"
    and "silent s (wr (i2c_hw T gap rest) (I2c I2C_CMD) c s)"
proof -
  show "under_way T (bit c 1) x bs (eng (wr (i2c_hw T gap rest) (I2c I2C_CMD) c s))"
    using assms unfolding i2c_wr_eng clks_queued [OF assms(1)] by (simp add: queued_def under_way_def i2c_reg_wr_def)
  show "silent s (wr (i2c_hw T gap rest) (I2c I2C_CMD) c s)" by (rule i2c_wr_eng) simp
qed

text \<open>The wait for the end of an operation under way.\<close>

lemma wait_ends:
  assumes "under_way T stop x bs (eng s) \<or> ended T stop x bs (eng s)"
  shows "\<exists>t. i2c_wait_idle (i2c_hw T gap rest) s = Some t \<and>
    resting (snd (operation T stop bs x)) (\<not> fst (operation T stop bs x)) (eng t) \<and> silent s t"
proof -
  let ?hw = "i2c_hw T gap rest" and ?run = "\<lambda>d. under_way T stop x bs d \<or> ended T stop x bs d"
  have "\<exists>v t. wait_reg ?hw (I2c I2C_STATUS) not_busy s = Some (v, t) \<and>
      (resting (snd (operation T stop bs x)) (\<not> fst (operation T stop bs x)) (eng t) \<and> silent s t)"
  proof (rule wait_reg_closer [where P = "\<lambda>u. ?run (eng u) \<and> silent s u" and f = "\<lambda>u. togo (eng u)"])
    show "?run (eng s) \<and> silent s s" using assms by simp
    fix u assume u: "?run (eng u) \<and> silent s u"
    let ?d = "(i2c_clk T ^^ Suc (gap (fst (dev u)))) (eng u)"
    obtain v t where t: "rd ?hw (I2c I2C_STATUS) u = (v, t)" "(v, eng t) = i2c_reg_rd I2C_STATUS ?d" "silent u t"
      by (rule i2c_rd_eng)
    have v: "v = i2c_status ?d" "eng t = ?d" using t(2) by (simp_all add: i2c_reg_rd_def)
    have d: "(under_way T stop x bs ?d \<and> st_q ?d \<noteq> I_IDLE) \<or> ended T stop x bs ?d"
      using u clks_run [of T stop x bs "eng u" "gap (fst (dev u))"] clks_ended [of T stop x bs "eng u" "Suc (gap (fst (dev u)))"] by blast
    have less: "togo ?d < togo (eng u)" if "st_q ?d \<noteq> I_IDLE"
    proof (cases "under_way T stop x bs (eng u)")
      case True
      then show ?thesis using clks_run [OF True, of "gap (fst (dev u))"] by simp
    next
      case False
      then have e: "ended T stop x bs (eng u)" using u by blast
      have "togo (eng u) \<noteq> 0"
      proof
        assume "togo (eng u) = 0"
        then have "st_q (eng u) = I_IDLE" "cmd_q (eng u) = None" using e by (auto simp: togo_def ended_def Let_def split: i2c_st.splits)
        then show False using that clks_idle by metis
      qed
      then show ?thesis using clks_ended [OF e, of "Suc (gap (fst (dev u)))"] by linarith
    qed
    have "resting (snd (operation T stop bs x)) (\<not> fst (operation T stop bs x)) ?d" if "st_q ?d = I_IDLE"
      using d that by (auto simp: ended_def resting_def)
    then show "case rd ?hw (I2c I2C_STATUS) u of (v, t) \<Rightarrow> if not_busy v
        then resting (snd (operation T stop bs x)) (\<not> fst (operation T stop bs x)) (eng t) \<and> silent s t
        else (?run (eng t) \<and> silent s t) \<and> togo (eng t) < togo (eng u)"
      using t v d less silent_trans [of s u t] u by (auto simp: status_bits)
  qed
  then show ?thesis by (auto simp: i2c_wait_idle_def)
qed


section \<open>Feeding the queue\<close>

text \<open>Any \<open>k\<close> accesses of the firmware together take less time than a byte takes on the wire.\<close>

definition quick :: "('o \<Rightarrow> nat) \<Rightarrow> nat \<Rightarrow> 'x i2c_dev \<Rightarrow> bool" where
  "quick gap k d \<longleftrightarrow> (\<exists>G. (\<forall>n. gap n \<le> G) \<and> k * Suc G < 36 * Suc (div_q d))"

text \<open>The operation does not run out of bytes within \<open>m\<close> clocks.\<close>

definition fed :: "nat \<Rightarrow> 'x i2c_dev \<Rightarrow> bool" where
  "fed m d \<longleftrightarrow> txq d \<noteq> [] \<or> (\<exists>n b. st_q d = I_WRITE n b \<and> m \<le> n)"

text \<open>Its first byte is not over within \<open>m\<close> clocks.\<close>

definition early :: "nat \<Rightarrow> u8 list \<Rightarrow> 'x i2c_dev \<Rightarrow> bool" where
  "early m bs d \<longleftrightarrow> (case st_q d of I_IDLE \<Rightarrow> True | I_START n \<Rightarrow> True | I_WRITE n b \<Rightarrow> m \<le> n \<and> bs = b # txq d | _ \<Rightarrow> False)"

lemma phases_clk: "phases p (i2c_clk T d) = phases p d"
  by (simp add: phases_def div_clk)

lemma drain_prefix: "fst (drain T (xs @ ys) x) \<Longrightarrow> fst (drain T xs x)"
  by (auto simp: drain_append split: prod.splits if_splits)

lemma clk_fed:
  assumes w: "under_way T stop x bs d" and "fed (Suc m) d" and "m \<le> phases 36 d" and "fst (drain T bs (on_start T x))"
  shows "under_way T stop x bs (i2c_clk T d) \<and> fed m (i2c_clk T d)"
proof (cases "st_q d")
  case I_IDLE
  then show ?thesis using assms by (auto simp: under_way_def fed_def clk_defs)
next
  case (I_START n)
  then have "bs \<noteq> []" using w assms(2) by (simp add: under_way_def fed_def)
  then show ?thesis using I_START w assms(3) by (cases n; cases bs) (simp_all add: under_way_def fed_def clk_defs)
next
  case (I_WRITE n b)
  then obtain out where out: "bs = out @ b # txq d" "drain T out (on_start T x) = (True, target_q d)"
    and d: "cmd_q d = None" "stop_q d = stop" "rxq d = []" "\<not> nack_q d" "\<not> ovr_q d" "bit (ctrl_q d) 0"
    using w by (auto simp: under_way_def)
  show ?thesis
  proof (cases n)
    case (Suc k)
    then show ?thesis using I_WRITE out d assms(2) by (auto simp: under_way_def fed_def clk_defs)
  next
    case 0
    obtain y where y: "on_write T b (target_q d) = (True, y)"
      using assms(4) out by (auto simp: drain_append split: prod.splits if_splits)
    obtain e es where q: "txq d = e # es" using 0 I_WRITE assms(2) by (auto simp: fed_def neq_Nil_conv)
    have "drain T (out @ [b]) (on_start T x) = (True, y)" "bs = (out @ [b]) @ e # es" using out y q by (simp_all add: drain_append)
    then show ?thesis using I_WRITE 0 q d y assms(3) by (auto simp: under_way_def fed_def clk_defs)
  qed
qed (use w in \<open>auto simp: under_way_def\<close>)

lemma clk_early:
  assumes w: "under_way T stop x bs d" and "early (Suc m) bs d" and "m \<le> phases 36 d" and "bs \<noteq> []"
  shows "under_way T stop x bs (i2c_clk T d) \<and> early m bs (i2c_clk T d)"
proof (cases "st_q d")
  case I_IDLE
  then show ?thesis using assms by (auto simp: under_way_def early_def clk_defs)
next
  case (I_START n)
  then show ?thesis using w assms(3,4) by (cases n; cases bs) (simp_all add: under_way_def early_def clk_defs)
next
  case (I_WRITE n b)
  then obtain k where "n = Suc k" "m \<le> k" using assms(2) by (cases n) (simp_all add: early_def)
  then show ?thesis using I_WRITE w assms(2) by (auto simp: under_way_def early_def clk_defs)
qed (use w in \<open>auto simp: under_way_def\<close>)

lemma clks_fed:
  "under_way T stop x bs d \<Longrightarrow> fed (m + n) d \<Longrightarrow> m + n \<le> phases 36 d \<Longrightarrow> fst (drain T bs (on_start T x)) \<Longrightarrow>
   under_way T stop x bs ((i2c_clk T ^^ n) d) \<and> fed m ((i2c_clk T ^^ n) d)"
proof (induction n arbitrary: d)
  case (Suc n)
  from clk_fed [of T stop x bs d "m + n"] Suc.prems have "under_way T stop x bs (i2c_clk T d)" "fed (m + n) (i2c_clk T d)" by simp_all
  from Suc.IH [OF this] Suc.prems(3,4) show ?case by (simp add: phases_clk funpow_swap1)
qed simp

lemma clks_early:
  "under_way T stop x bs d \<Longrightarrow> early (m + n) bs d \<Longrightarrow> m + n \<le> phases 36 d \<Longrightarrow> bs \<noteq> [] \<Longrightarrow>
   under_way T stop x bs ((i2c_clk T ^^ n) d) \<and> early m bs ((i2c_clk T ^^ n) d)"
proof (induction n arbitrary: d)
  case (Suc n)
  from clk_early [of T stop x bs d "m + n"] Suc.prems have "under_way T stop x bs (i2c_clk T d)" "early (m + n) bs (i2c_clk T d)" by simp_all
  from Suc.IH [OF this] Suc.prems(3,4) show ?case by (simp add: phases_clk funpow_swap1)
qed simp

lemma fed_mono: "fed m d \<Longrightarrow> k \<le> m \<Longrightarrow> fed k d"
  by (auto simp: fed_def)

lemma early_mono: "early m bs d \<Longrightarrow> k \<le> m \<Longrightarrow> early k bs d"
  by (auto simp: early_def split: i2c_st.splits)

text \<open>A byte queued for the operation under way.\<close>

lemma tx_under_way:
  assumes "under_way T stop x bs d" and "length (txq d) < 16"
  shows "under_way T stop x (bs @ [b]) (i2c_reg_wr I2C_TXDATA (ucast b) d)"
    and "txq (i2c_reg_wr I2C_TXDATA (ucast b) d) \<noteq> []"
    and "early m bs d \<Longrightarrow> early m (bs @ [b]) (i2c_reg_wr I2C_TXDATA (ucast b) d)"
  using assms by (auto simp: under_way_def early_def i2c_reg_wr_def split: i2c_st.splits)

lemma txq_clk: "length (txq (i2c_clk T d)) \<le> length (txq d)"
  by (simp add: clk_defs was_read_def split: i2c_st.split nat.split list.split option.split prod.split)

lemma txq_clks: "length (txq ((i2c_clk T ^^ n) d)) \<le> length (txq d)"
proof (induction n)
  case (Suc n)
  then show ?case using txq_clk [of T "(i2c_clk T ^^ n) d"] by simp
qed simp


lemma push_fed:
  assumes w: "under_way T stop x bs (eng s)" and f: "fed (2 * Suc G) (eng s)" and gap: "\<forall>n. gap n \<le> G"
    and P: "2 * Suc G \<le> phases 36 (eng s)" and acks: "fst (drain T bs (on_start T x))"
    and len: "length (txq (eng s)) \<le> 16"
  shows "\<exists>t. i2c_push (i2c_hw T gap rest) b s = Some t \<and> under_way T stop x (bs @ [b]) (eng t) \<and> txq (eng t) \<noteq> [] \<and>
    length (txq (eng t)) \<le> 16 \<and> div_q (eng t) = div_q (eng s) \<and> silent s t"
proof -
  let ?hw = "i2c_hw T gap rest"
  let ?I = "\<lambda>u. under_way T stop x bs (eng u) \<and> div_q (eng u) = div_q (eng s) \<and> silent s u"
  have "\<exists>v t. wait_reg ?hw (I2c I2C_STATUS) tx_room s = Some (v, t) \<and> (?I t \<and> fed (Suc G) (eng t) \<and> length (txq (eng t)) < 16)"
  proof (rule wait_reg_closer [where P = "\<lambda>u. ?I u \<and> fed (2 * Suc G) (eng u) \<and> length (txq (eng u)) \<le> 16" and f = "\<lambda>u. togo (eng u)"])
    show "?I s \<and> fed (2 * Suc G) (eng s) \<and> length (txq (eng s)) \<le> 16" using w f len by simp
    fix u assume u: "?I u \<and> fed (2 * Suc G) (eng u) \<and> length (txq (eng u)) \<le> 16"
    let ?g = "gap (fst (dev u))"
    let ?d = "(i2c_clk T ^^ Suc ?g) (eng u)"
    obtain v t where t: "rd ?hw (I2c I2C_STATUS) u = (v, t)" "(v, eng t) = i2c_reg_rd I2C_STATUS ?d" "silent u t"
      by (rule i2c_rd_eng)
    have v: "v = i2c_status ?d" "eng t = ?d" using t(2) by (simp_all add: i2c_reg_rd_def)
    have g: "?g \<le> G" using gap by blast
    have pu: "2 * Suc G \<le> phases 36 (eng u)" using u P by (simp add: phases_def)
    have "fed (Suc G + Suc ?g) (eng u)" using u g by (auto intro: fed_mono)
    from clks_fed [OF _ this] have c: "under_way T stop x bs ?d" "fed (Suc G) ?d" using u g pu acks by auto
    have "fed (2 * Suc G) ?d" if "length (txq ?d) = 16" using that by (auto simp: fed_def)
    moreover have "togo ?d < togo (eng u)" using clks_run [of T stop x bs "eng u" ?g] u by simp
    moreover have "length (txq ?d) \<le> 16" using txq_clks [of "Suc ?g" T "eng u"] u by simp
    moreover have "div_q ?d = div_q (eng s)" using u by (simp only: div_clks)
    moreover have "silent s t" using u t(3) silent_trans by blast
    ultimately show "case rd ?hw (I2c I2C_STATUS) u of (v, t) \<Rightarrow> if tx_room v
        then ?I t \<and> fed (Suc G) (eng t) \<and> length (txq (eng t)) < 16
        else (?I t \<and> fed (2 * Suc G) (eng t) \<and> length (txq (eng t)) \<le> 16) \<and> togo (eng t) < togo (eng u)"
      using t(1) v c by (simp add: status_bits)
  qed
  then obtain v t where t: "wait_reg ?hw (I2c I2C_STATUS) tx_room s = Some (v, t)" "?I t" "fed (Suc G) (eng t)" "length (txq (eng t)) < 16"
    by blast
  let ?g = "gap (fst (dev t))"
  let ?d = "(i2c_clk T ^^ Suc ?g) (eng t)" and ?u = "wr ?hw (I2c I2C_TXDATA) (ucast b) t"
  have "?g \<le> G" using gap by blast
  then have "fed (0 + Suc ?g) (eng t)" "0 + Suc ?g \<le> phases 36 (eng t)" using t(2,3) P by (auto intro: fed_mono simp: phases_def)
  from clks_fed [OF _ this] have c: "under_way T stop x bs ?d" using t(2) acks by blast
  have "length (txq ?d) < 16" using txq_clks [of "Suc ?g" T "eng t"] t(4) by simp
  note n = tx_under_way(1,2) [OF c this, where b = b]
  have "div_q (eng ?u) = div_q (eng s)" using t(2) unfolding i2c_wr_eng by (simp add: i2c_reg_wr_def div_clks del: funpow.simps)
  moreover have "length (txq (eng ?u)) \<le> 16" using \<open>length (txq ?d) < 16\<close> unfolding i2c_wr_eng by (simp add: i2c_reg_wr_def del: funpow.simps)
  moreover have "i2c_push ?hw b s = Some ?u" using t(1) by (simp add: i2c_push_def)
  moreover have "under_way T stop x (bs @ [b]) (eng ?u)" "txq (eng ?u) \<noteq> []" unfolding i2c_wr_eng by (rule n)+
  moreover have "silent s ?u" using silent_trans [of s t ?u] i2c_wr_eng(2) t(2) by blast
  ultimately show ?thesis by blast
qed

lemma feed_long:
  "under_way T stop x bs (eng s) \<Longrightarrow> fed (2 * Suc G) (eng s) \<Longrightarrow> length (txq (eng s)) \<le> 16 \<Longrightarrow> \<forall>n. gap n \<le> G \<Longrightarrow>
   2 * Suc G \<le> phases 36 (eng s) \<Longrightarrow> fst (drain T (bs @ cs) (on_start T x)) \<Longrightarrow>
   \<exists>t. put_all (i2c_push (i2c_hw T gap rest)) cs s = Some t \<and> under_way T stop x (bs @ cs) (eng t) \<and>
     div_q (eng t) = div_q (eng s) \<and> silent s t"
proof (induction cs arbitrary: s bs)
  case Nil
  then show ?case by simp
next
  case (Cons c cs)
  obtain u where u: "i2c_push (i2c_hw T gap rest) c s = Some u" "under_way T stop x (bs @ [c]) (eng u)" "txq (eng u) \<noteq> []"
    "length (txq (eng u)) \<le> 16" "div_q (eng u) = div_q (eng s)" "silent s u"
    using push_fed [OF Cons.prems(1,2,4,5) _ Cons.prems(3)] drain_prefix [OF Cons.prems(6)] by blast
  have "fed (2 * Suc G) (eng u)" using u(3) by (simp add: fed_def)
  moreover have "2 * Suc G \<le> phases 36 (eng u)" using Cons.prems(5) u(5) by (simp add: phases_def)
  ultimately obtain t where "put_all (i2c_push (i2c_hw T gap rest)) cs u = Some t" "under_way T stop x (bs @ c # cs) (eng t)"
    "div_q (eng t) = div_q (eng u)" "silent u t"
    using Cons.IH [OF u(2)] u(4) Cons.prems(4,6) by auto
  then show ?case using u(1,5) silent_trans [OF u(6)] by auto
qed

text \<open>Few bytes: they are all queued before the first one is over.\<close>

lemma push_early:
  assumes w: "under_way T stop x bs (eng s)" and e: "early (m + 2 * Suc G) bs (eng s)" and gap: "\<forall>n. gap n \<le> G"
    and P: "m + 2 * Suc G \<le> phases 36 (eng s)" and bs: "bs \<noteq> []" "length bs < 16"
  shows "\<exists>t. i2c_push (i2c_hw T gap rest) b s = Some t \<and> under_way T stop x (bs @ [b]) (eng t) \<and> early m (bs @ [b]) (eng t) \<and>
    div_q (eng t) = div_q (eng s) \<and> silent s t"
proof -
  let ?hw = "i2c_hw T gap rest" and ?g = "gap (fst (dev s))"
  let ?d = "(i2c_clk T ^^ Suc ?g) (eng s)"
  obtain v t where t: "rd ?hw (I2c I2C_STATUS) s = (v, t)" "(v, eng t) = i2c_reg_rd I2C_STATUS ?d" "silent s t"
    by (rule i2c_rd_eng)
  have v: "v = i2c_status ?d" "eng t = ?d" using t(2) by (simp_all add: i2c_reg_rd_def)
  have "?g \<le> G" using gap by blast
  then have "early ((m + Suc G) + Suc ?g) bs (eng s)" "(m + Suc G) + Suc ?g \<le> phases 36 (eng s)" using e P by (auto intro: early_mono)
  from clks_early [OF w this bs(1)] have c: "under_way T stop x bs ?d" "early (m + Suc G) bs ?d" by blast+
  have room: "length (txq d) < 16" if "under_way T stop x bs d" "early k bs d" for d k
    using that bs(2) by (auto simp: under_way_def early_def split: i2c_st.splits)
  have "wait_reg ?hw (I2c I2C_STATUS) tx_room s = Some (v, t)"
    using t(1) v room [OF c] by (subst wait_reg.simps) (simp add: status_bits)
  then have p: "i2c_push ?hw b s = Some (wr ?hw (I2c I2C_TXDATA) (ucast b) t)" by (simp add: i2c_push_def)
  let ?h = "gap (fst (dev t))" and ?u = "wr ?hw (I2c I2C_TXDATA) (ucast b) t"
  let ?e = "(i2c_clk T ^^ Suc ?h) (eng t)"
  have "?h \<le> G" using gap by blast
  then have "early (m + Suc ?h) bs (eng t)" "m + Suc ?h \<le> phases 36 (eng t)" using c(2) v P
    by (auto intro: early_mono simp: phases_def div_clks simp del: funpow.simps)
  from clks_early [OF _ this bs(1)] have e: "under_way T stop x bs ?e" "early m bs ?e" using c(1) v by simp_all
  have "under_way T stop x (bs @ [b]) (eng ?u)" "early m (bs @ [b]) (eng ?u)"
    unfolding i2c_wr_eng by (rule tx_under_way [OF e(1) room [OF e]] e(2))+
  moreover have "div_q (eng ?u) = div_q (eng s)" unfolding i2c_wr_eng v by (simp add: i2c_reg_wr_def div_clks del: funpow.simps)
  moreover have "silent s ?u" using silent_trans [OF t(3) i2c_wr_eng(2)] by simp
  ultimately show ?thesis using p by blast
qed

lemma feed_short:
  "under_way T stop x bs (eng s) \<Longrightarrow> early (length cs * (2 * Suc G)) bs (eng s) \<Longrightarrow> \<forall>n. gap n \<le> G \<Longrightarrow>
   length cs * (2 * Suc G) \<le> phases 36 (eng s) \<Longrightarrow> bs \<noteq> [] \<Longrightarrow> length (bs @ cs) \<le> 16 \<Longrightarrow>
   \<exists>t. put_all (i2c_push (i2c_hw T gap rest)) cs s = Some t \<and> under_way T stop x (bs @ cs) (eng t) \<and>
     div_q (eng t) = div_q (eng s) \<and> silent s t"
proof (induction cs arbitrary: s bs)
  case Nil
  then show ?case by simp
next
  case (Cons c cs)
  have l: "length (c # cs) * (2 * Suc G) = length cs * (2 * Suc G) + 2 * Suc G" by simp
  obtain u where u: "i2c_push (i2c_hw T gap rest) c s = Some u" "under_way T stop x (bs @ [c]) (eng u)"
    "early (length cs * (2 * Suc G)) (bs @ [c]) (eng u)" "div_q (eng u) = div_q (eng s)" "silent s u"
    using push_early [OF Cons.prems(1) Cons.prems(2) [unfolded l] Cons.prems(3) Cons.prems(4) [unfolded l] Cons.prems(5)] Cons.prems(6) by auto
  have "length cs * (2 * Suc G) \<le> phases 36 (eng u)" using Cons.prems(4) u(4) unfolding l phases_def by simp
  then obtain t where "put_all (i2c_push (i2c_hw T gap rest)) cs u = Some t" "under_way T stop x (bs @ c # cs) (eng t)"
    "div_q (eng t) = div_q (eng u)" "silent u t"
    using Cons.IH [OF u(2,3)] Cons.prems(3,6) by auto
  then show ?case using u(1,4) silent_trans [OF u(5)] by auto
qed

text \<open>
  The firmware keeps up with the engine: either two accesses fit in a byte time and every byte is acknowledged, or
  everything fits in the queue and is there before the first byte is over.
\<close>

definition keeps_up :: "'x target \<Rightarrow> ('o \<Rightarrow> nat) \<Rightarrow> 'x \<Rightarrow> u8 list \<Rightarrow> u8 list \<Rightarrow> 'x i2c_dev \<Rightarrow> bool" where
  "keeps_up T gap x bs cs d \<longleftrightarrow>
     quick gap 2 d \<and> fst (drain T (bs @ cs) (on_start T x)) \<or> quick gap (2 * length cs) d \<and> length (bs @ cs) \<le> 16"

text \<open>A whole write operation: the bytes \<open>bs\<close> queued before the command, the rest after it.\<close>

lemma write_op:
  assumes q: "queued x bs (eng s)" and k: "keeps_up T gap x bs cs (eng s)" and bs: "bs \<noteq> []" "length bs \<le> 16"
    and c: "bit c 0" "\<not> bit c 2"
  shows "\<exists>t u. put_all (i2c_push (i2c_hw T gap rest)) cs (wr (i2c_hw T gap rest) (I2c I2C_CMD) c s) = Some t \<and>
    i2c_wait_idle (i2c_hw T gap rest) t = Some u \<and> silent s u \<and>
    (let (ack, y) = operation T (bit c 1) (bs @ cs) x in resting y (\<not> ack) (eng u))"
proof -
  let ?hw = "i2c_hw T gap rest" and ?s = "wr (i2c_hw T gap rest) (I2c I2C_CMD) c s"
  have w: "under_way T (bit c 1) x bs (eng ?s)" "silent s ?s" by (rule cmd_queued [OF q c])+
  have e: "eng ?s = (eng s)\<lparr>cmd_q := Some c\<rparr>" unfolding i2c_wr_eng clks_queued [OF q] by (simp add: i2c_reg_wr_def)
  have "\<exists>t. put_all (i2c_push ?hw) cs ?s = Some t \<and> under_way T (bit c 1) x (bs @ cs) (eng t) \<and> div_q (eng t) = div_q (eng ?s) \<and> silent ?s t"
    using k unfolding keeps_up_def
  proof
    assume a: "quick gap 2 (eng s) \<and> fst (drain T (bs @ cs) (on_start T x))"
    then obtain G where G: "\<forall>n. gap n \<le> G" "2 * Suc G < 36 * Suc (div_q (eng s))" unfolding quick_def by blast
    have "fed (2 * Suc G) (eng ?s)" "length (txq (eng ?s)) \<le> 16" using q bs by (simp_all add: e fed_def queued_def)
    moreover have "2 * Suc G \<le> phases 36 (eng ?s)" using G(2) by (simp add: e phases_def)
    ultimately show ?thesis using feed_long [OF w(1)] G(1) a by blast
  next
    assume a: "quick gap (2 * length cs) (eng s) \<and> length (bs @ cs) \<le> 16"
    then obtain G where G: "\<forall>n. gap n \<le> G" "2 * length cs * Suc G < 36 * Suc (div_q (eng s))" unfolding quick_def by blast
    have "early (length cs * (2 * Suc G)) bs (eng ?s)" using q by (simp add: e early_def queued_def)
    moreover have "length cs * (2 * Suc G) \<le> phases 36 (eng ?s)" using G(2) by (simp add: e phases_def algebra_simps)
    ultimately show ?thesis using feed_short [OF w(1)] G(1) a bs(1) by blast
  qed
  then obtain t where t: "put_all (i2c_push ?hw) cs ?s = Some t" "under_way T (bit c 1) x (bs @ cs) (eng t)" "silent ?s t" by blast
  obtain u where u: "i2c_wait_idle ?hw t = Some u" "silent t u"
    "resting (snd (operation T (bit c 1) (bs @ cs) x)) (\<not> fst (operation T (bit c 1) (bs @ cs) x)) (eng u)"
    using wait_ends [of T "bit c 1" x "bs @ cs" t] t(2) by blast
  then show ?thesis using t silent_trans [OF silent_trans [OF w(2) t(3)] u(2)] by (auto simp: case_prod_beta)
qed


section \<open>Write transactions\<close>

lemma quick_silent: "silent s t \<Longrightarrow> quick gap k (eng t) = quick gap k (eng s)"
  by (simp add: silent_def quick_def)

lemma keeps_up_silent: "silent s t \<Longrightarrow> keeps_up T gap x bs cs (eng t) = keeps_up T gap x bs cs (eng s)"
  by (simp add: keeps_up_def quick_silent)

lemma start_stop: "bit (I2C_CMD_START OR I2C_CMD_STOP) 0" "\<not> bit (I2C_CMD_START OR I2C_CMD_STOP) 2" "bit (I2C_CMD_START OR I2C_CMD_STOP) 1"
  unfolding I2C_CMD_START_def I2C_CMD_STOP_def by code_simp+

lemma start_bits: "bit I2C_CMD_START 0" "\<not> bit I2C_CMD_START 2" "\<not> bit I2C_CMD_START 1"
  unfolding I2C_CMD_START_def by code_simp+

text \<open>From rest to rest: the result of a write, and the state of the bus.\<close>

definition yields :: "bool \<times> 'x \<Rightarrow> ('o \<times> 'x i2c_dev, 'z) m \<Rightarrow> (int \<times> ('o \<times> 'x i2c_dev, 'z) m) option \<Rightarrow> bool" where
  "yields r s res \<longleftrightarrow> (\<exists>t. res = Some (rc_of (fst r), t) \<and> resting (snd r) (\<not> fst r) (eng t) \<and> silent s t)"

lemma write_yields:
  assumes r: "resting x nk (eng s)" and k: "keeps_up T gap x [push_bit 1 addr] buf (eng s)"
  shows "yields (operation T True (push_bit 1 addr # buf) x) s (i2c_write (i2c_hw T gap rest) addr buf s)"
proof -
  let ?hw = "i2c_hw T gap rest"
  define b where "b = push_bit 1 addr"
  let ?a = "i2c_clear_err ?hw s"
  have a: "queued x [] (eng ?a)" "silent s ?a"
    using clear_err_resting [OF r] by (simp_all only: resting_queued)
  obtain u where u: "i2c_push ?hw b ?a = Some u" "queued x [b] (eng u)" "silent ?a u"
    using push_queued [OF a(1), of T gap rest b] by auto
  have su: "silent s u" using silent_trans [OF a(2) u(3)] .
  have ku: "keeps_up T gap x [b] buf (eng u)" unfolding keeps_up_silent [OF su] b_def by (rule k)
  obtain v w where v: "put_all (i2c_push ?hw) buf (wr ?hw (I2c I2C_CMD) (I2C_CMD_START OR I2C_CMD_STOP) u) = Some v"
    "i2c_wait_idle ?hw v = Some w" "silent u w"
    "resting (snd (operation T True (b # buf) x)) (\<not> fst (operation T True (b # buf) x)) (eng w)"
    using write_op [OF u(2) ku _ _ start_stop(1,2), where rest = rest] start_stop(3) by (auto simp: case_prod_beta)
  obtain t where t: "i2c_check_err ?hw w = (rc_of (fst (operation T True (b # buf) x)), t)" "silent w t"
    "resting (snd (operation T True (b # buf) x)) (\<not> fst (operation T True (b # buf) x)) (eng t)"
    using check_err_resting [OF v(4), of T gap rest] by auto
  have "i2c_write ?hw addr buf s = Some (rc_of (fst (operation T True (b # buf) x)), t)"
    using u(1) v(1,2) t(1) by (simp only: i2c_write_def Let_def b_def [symmetric]) simp
  then show ?thesis using t silent_trans [OF silent_trans [OF su v(3)] t(2)] unfolding b_def [symmetric] by (simp add: yields_def)
qed

lemma write_regs_yields:
  assumes r: "resting x nk (eng s)" and k: "keeps_up T gap x [push_bit 1 addr, reg] buf (eng s)"
  shows "yields (operation T True (push_bit 1 addr # reg # buf) x) s (i2c_write_regs (i2c_hw T gap rest) addr reg buf s)"
proof -
  let ?hw = "i2c_hw T gap rest"
  define b where "b = push_bit 1 addr"
  let ?op = "operation T True (b # reg # buf) x"
  let ?a = "i2c_clear_err ?hw s"
  have a: "queued x [] (eng ?a)" "silent s ?a"
    using clear_err_resting [OF r] by (simp_all only: resting_queued)
  obtain u where u: "i2c_push ?hw b ?a = Some u" "queued x [b] (eng u)" "silent ?a u"
    using push_queued [OF a(1), of T gap rest b] by auto
  obtain u' where u': "i2c_push ?hw reg u = Some u'" "queued x [b, reg] (eng u')" "silent u u'"
    using push_queued [OF u(2), of T gap rest reg] by auto
  have su: "silent s u'" using silent_trans [OF silent_trans [OF a(2) u(3)] u'(3)] .
  have ku: "keeps_up T gap x [b, reg] buf (eng u')" unfolding keeps_up_silent [OF su] b_def by (rule k)
  obtain v w where v: "put_all (i2c_push ?hw) buf (wr ?hw (I2c I2C_CMD) (I2C_CMD_START OR I2C_CMD_STOP) u') = Some v"
    "i2c_wait_idle ?hw v = Some w" "silent u' w" "resting (snd ?op) (\<not> fst ?op) (eng w)"
    using write_op [OF u'(2) ku _ _ start_stop(1,2), where rest = rest] start_stop(3) by (auto simp: case_prod_beta)
  obtain t where t: "i2c_check_err ?hw w = (rc_of (fst ?op), t)" "silent w t" "resting (snd ?op) (\<not> fst ?op) (eng t)"
    using check_err_resting [OF v(4), of T gap rest] by auto
  have "i2c_write_regs ?hw addr reg buf s = Some (rc_of (fst ?op), t)"
    using u(1) u'(1) v(1,2) t(1) by (simp only: i2c_write_regs_def Let_def b_def [symmetric]) simp
  then show ?thesis using t silent_trans [OF silent_trans [OF su v(3)] t(2)] unfolding b_def [symmetric] by (simp add: yields_def)
qed

text \<open>An addressing phase: the queued bytes under a START without STOP.\<close>

lemma addressed_yields:
  assumes q: "queued x bs (eng s)" and bs: "bs \<noteq> []" "length bs \<le> 16"
  shows "yields (operation T False bs x) s (i2c_addressed (i2c_hw T gap rest) s)"
proof -
  let ?hw = "i2c_hw T gap rest" and ?op = "operation T False bs x"
  let ?s = "wr ?hw (I2c I2C_CMD) I2C_CMD_START s"
  have w: "under_way T False x bs (eng ?s)" "silent s ?s" using cmd_queued [OF q start_bits(1,2)] start_bits(3) by auto
  obtain u where u: "i2c_wait_idle ?hw ?s = Some u" "resting (snd ?op) (\<not> fst ?op) (eng u)" "silent ?s u"
    using wait_ends [of T False x bs ?s] w(1) by blast
  obtain t where t: "i2c_check_err ?hw u = (rc_of (fst ?op), t)" "silent u t" "resting (snd ?op) (\<not> fst ?op) (eng t)"
    using check_err_resting [OF u(2), of T gap rest] by auto
  then show ?thesis using u silent_trans [OF silent_trans [OF w(2) u(3)] t(2)] by (simp add: yields_def i2c_addressed_def Let_def)
qed

section \<open>Read transactions\<close>

text \<open>The bytes a target gives when all but the last are acknowledged.\<close>

fun read_from :: "'x target \<Rightarrow> nat \<Rightarrow> 'x \<Rightarrow> u8 list \<times> 'x" where
  "read_from T 0 x = ([], x)"
| "read_from T (Suc k) x = (let (b, x) = on_read T (k \<noteq> 0) x; (bs, x) = read_from T k x in (b # bs, x))"

text \<open>A commanded read of one byte.\<close>

definition reading :: "'x target \<Rightarrow> bool \<Rightarrow> 'x \<Rightarrow> 'x i2c_dev \<Rightarrow> bool" where
  "reading T fin x d \<longleftrightarrow> bit (ctrl_q d) 0 \<and> txq d = [] \<and> \<not> nack_q d \<and> \<not> ovr_q d \<and>
     (let (b, y) = on_read T (\<not> fin) x; z = (if fin then on_stop T y else y) in case st_q d of
        I_IDLE \<Rightarrow> rxq d = [] \<and> target_q d = x \<and> (\<exists>c. cmd_q d = Some c \<and> \<not> bit c 0 \<and> bit c 2 \<and> bit c 3 = fin \<and> bit c 1 = fin)
      | I_READ n \<Rightarrow> rxq d = [] \<and> cmd_q d = None \<and> last_q d = fin \<and> stop_q d = fin \<and> target_q d = x
      | I_STOP n \<Rightarrow> rxq d = [b] \<and> cmd_q d = None \<and> fin \<and> target_q d = y
      | I_DONE n \<Rightarrow> rxq d = [b] \<and> cmd_q d = None \<and> target_q d = z
      | _ \<Rightarrow> False)"

definition was_given :: "'x target \<Rightarrow> bool \<Rightarrow> 'x \<Rightarrow> 'x i2c_dev \<Rightarrow> bool" where
  "was_given T fin x d \<longleftrightarrow> bit (ctrl_q d) 0 \<and> txq d = [] \<and> \<not> nack_q d \<and> \<not> ovr_q d \<and> cmd_q d = None \<and> st_q d = I_IDLE \<and>
     (let (b, y) = on_read T (\<not> fin) x in rxq d = [b] \<and> target_q d = (if fin then on_stop T y else y))"


lemma clk_reading:
  assumes "reading T fin x d"
  shows "(reading T fin x (i2c_clk T d) \<and> st_q (i2c_clk T d) \<noteq> I_IDLE) \<or> was_given T fin x (i2c_clk T d)"
    and "togo (i2c_clk T d) < togo d"
proof -
  obtain b y where y: "on_read T (\<not> fin) x = (b, y)" by (cases "on_read T (\<not> fin) x")
  have on: "bit (ctrl_q d) 0" "txq d = []" "\<not> nack_q d" "\<not> ovr_q d" using assms by (simp_all add: reading_def)
  have "((reading T fin x (i2c_clk T d) \<and> st_q (i2c_clk T d) \<noteq> I_IDLE) \<or> was_given T fin x (i2c_clk T d)) \<and> togo (i2c_clk T d) < togo d"
  proof (cases "st_q d")
    case I_IDLE
    then obtain c where "rxq d = []" "target_q d = x" "cmd_q d = Some c" "\<not> bit c 0" "bit c 2" "bit c 3 = fin" "bit c 1 = fin"
      using assms y by (auto simp: reading_def)
    then show ?thesis using I_IDLE on y by (simp add: reading_def clk_defs togo_def)
  next
    case (I_READ n)
    then have d: "rxq d = []" "cmd_q d = None" "last_q d = fin" "stop_q d = fin" "target_q d = x"
      using assms y by (simp_all add: reading_def)
    show ?thesis
    proof (cases n)
      case (Suc k)
      then show ?thesis using I_READ d on y by (simp add: reading_def clk_defs togo_def)
    next
      case 0
      then show ?thesis using I_READ d on y by (cases fin) (simp_all add: reading_def i2c_clk_def was_read_def togo_def)
    qed
  next
    case (I_STOP n)
    then show ?thesis using assms on y by (cases n) (simp_all add: reading_def clk_defs togo_def)
  next
    case (I_DONE n)
    then show ?thesis using assms on y by (cases n) (simp_all add: reading_def was_given_def clk_defs togo_def)
  qed (use assms y in \<open>simp_all add: reading_def\<close>)
  then show "(reading T fin x (i2c_clk T d) \<and> st_q (i2c_clk T d) \<noteq> I_IDLE) \<or> was_given T fin x (i2c_clk T d)"
    and "togo (i2c_clk T d) < togo d" by blast+
qed

lemma clk_given: "was_given T fin x d \<Longrightarrow> i2c_clk T d = d"
  by (simp add: was_given_def i2c_clk_def)

lemma clks_given: "was_given T fin x d \<Longrightarrow> (i2c_clk T ^^ n) d = d"
  by (rule clks_idle) (simp_all add: was_given_def)

lemma clks_reading:
  assumes "reading T fin x d"
  shows "((reading T fin x ((i2c_clk T ^^ Suc n) d) \<and> st_q ((i2c_clk T ^^ Suc n) d) \<noteq> I_IDLE) \<or>
      was_given T fin x ((i2c_clk T ^^ Suc n) d)) \<and> togo ((i2c_clk T ^^ Suc n) d) < togo d"
proof (induction n)
  case 0
  then show ?case using clk_reading [OF assms] by simp
next
  case (Suc n)
  let ?d = "(i2c_clk T ^^ Suc n) d"
  show ?case
    using Suc clk_reading [of T fin x ?d] clk_given [of T fin x ?d]
    by (auto simp del: funpow.simps simp: funpow.simps(2) [of "Suc n"])
qed

text \<open>One turn of the read loop.\<close>

lemma read_one:
  assumes q: "queued x [] (eng s)" and fin: "bit c 3 = fin" "bit c 1 = fin" and c: "\<not> bit c 0" "bit c 2"
    and y: "on_read T (\<not> fin) x = (b, y)"
  shows "\<exists>u v. i2c_wait_idle (i2c_hw T gap rest) (wr (i2c_hw T gap rest) (I2c I2C_CMD) c s) = Some u \<and>
    i2c_pop (i2c_hw T gap rest) u = (b, v) \<and> queued (if fin then on_stop T y else y) [] (eng v) \<and> silent s v"
proof -
  let ?hw = "i2c_hw T gap rest" and ?s = "wr (i2c_hw T gap rest) (I2c I2C_CMD) c s"
  have r: "reading T fin x (eng ?s)"
    using q fin c y unfolding i2c_wr_eng clks_queued [OF q] by (auto simp: queued_def reading_def i2c_reg_wr_def)
  have "\<exists>v t. wait_reg ?hw (I2c I2C_STATUS) not_busy ?s = Some (v, t) \<and> (was_given T fin x (eng t) \<and> silent ?s t)"
  proof (rule wait_reg_closer [where P = "\<lambda>u. reading T fin x (eng u) \<and> silent ?s u" and f = "\<lambda>u. togo (eng u)"])
    show "reading T fin x (eng ?s) \<and> silent ?s ?s" using r by simp
    fix u assume u: "reading T fin x (eng u) \<and> silent ?s u"
    define d where "d = (i2c_clk T ^^ Suc (gap (fst (dev u)))) (eng u)"
    obtain v t where t: "rd ?hw (I2c I2C_STATUS) u = (v, t)" "(v, eng t) = i2c_reg_rd I2C_STATUS d" "silent u t"
      unfolding d_def by (rule i2c_rd_eng)
    have v: "v = i2c_status d" "eng t = d" using t(2) by (simp_all add: i2c_reg_rd_def)
    have "((reading T fin x d \<and> st_q d \<noteq> I_IDLE) \<or> was_given T fin x d) \<and> togo d < togo (eng u)"
      unfolding d_def by (rule clks_reading) (use u in simp)
    moreover have "st_q d = I_IDLE" if "was_given T fin x d" using that by (simp add: was_given_def)
    moreover have "silent ?s t" using u t(3) silent_trans by blast
    moreover have "not_busy v \<longleftrightarrow> st_q d = I_IDLE" unfolding v(1) by (rule status_bits)
    ultimately show "case rd ?hw (I2c I2C_STATUS) u of (v, t) \<Rightarrow> if not_busy v
        then was_given T fin x (eng t) \<and> silent ?s t else (reading T fin x (eng t) \<and> silent ?s t) \<and> togo (eng t) < togo (eng u)"
      unfolding t(1) prod.case v(2) by (cases "st_q d = I_IDLE") auto
  qed
  then obtain u where u: "i2c_wait_idle ?hw ?s = Some u" "was_given T fin x (eng u)" "silent ?s u"
    by (auto simp: i2c_wait_idle_def)
  obtain w v where v: "rd ?hw (I2c I2C_RXDATA) u = (w, v)"
    "(w, eng v) = i2c_reg_rd I2C_RXDATA ((i2c_clk T ^^ Suc (gap (fst (dev u)))) (eng u))" "silent u v"
    by (rule i2c_rd_eng)
  have w: "w = ucast b" "eng v = (eng u)\<lparr>rxq := []\<rparr>"
    using v(2) u(2) y unfolding clks_given [OF u(2)] by (auto simp: i2c_reg_rd_def was_given_def)
  have "ucast (w AND 0xFF) = b" unfolding w(1) and_masks by (rule bit_word_eqI) (simp add: bit_simps)
  then have "i2c_pop ?hw u = (b, v)" using v(1) by (simp add: i2c_pop_def)
  moreover have "queued (if fin then on_stop T y else y) [] (eng v)" using u(2) y by (simp add: w(2) queued_def was_given_def)
  moreover have "silent s v" using silent_trans [OF silent_trans [OF i2c_wr_eng(2) u(3)] v(3)] by simp
  ultimately show ?thesis using u(1) by blast
qed


lemma read_cmd_bits:
  "\<not> bit (I2C_CMD_READ OR (if p then I2C_CMD_NACK OR I2C_CMD_STOP else 0)) 0"
  "bit (I2C_CMD_READ OR (if p then I2C_CMD_NACK OR I2C_CMD_STOP else 0)) 2"
  "bit (I2C_CMD_READ OR (if p then I2C_CMD_NACK OR I2C_CMD_STOP else 0)) 3 = p"
  "bit (I2C_CMD_READ OR (if p then I2C_CMD_NACK OR I2C_CMD_STOP else 0)) 1 = p"
proof -
  have "\<forall>p. \<not> bit (I2C_CMD_READ OR (if p then I2C_CMD_NACK OR I2C_CMD_STOP else 0)) 0 \<and>
      bit (I2C_CMD_READ OR (if p then I2C_CMD_NACK OR I2C_CMD_STOP else 0)) 2 \<and>
      bit (I2C_CMD_READ OR (if p then I2C_CMD_NACK OR I2C_CMD_STOP else 0)) 3 = p \<and>
      bit (I2C_CMD_READ OR (if p then I2C_CMD_NACK OR I2C_CMD_STOP else 0)) 1 = p"
    unfolding I2C_CMD_READ_def I2C_CMD_NACK_def I2C_CMD_STOP_def by code_simp
  then show "\<not> bit (I2C_CMD_READ OR (if p then I2C_CMD_NACK OR I2C_CMD_STOP else 0)) 0"
    "bit (I2C_CMD_READ OR (if p then I2C_CMD_NACK OR I2C_CMD_STOP else 0)) 2"
    "bit (I2C_CMD_READ OR (if p then I2C_CMD_NACK OR I2C_CMD_STOP else 0)) 3 = p"
    "bit (I2C_CMD_READ OR (if p then I2C_CMD_NACK OR I2C_CMD_STOP else 0)) 1 = p" by blast+
qed

lemma read_loop_from:
  "queued x [] (eng s) \<Longrightarrow> 0 < len \<Longrightarrow>
   \<exists>t. i2c_read_loop (i2c_hw T gap rest) len s = Some (fst (read_from T len x), t) \<and>
     queued (on_stop T (snd (read_from T len x))) [] (eng t) \<and> silent s t"
proof (induction len arbitrary: x s)
  case 0
  then show ?case by simp
next
  case (Suc k)
  let ?hw = "i2c_hw T gap rest"
  define c where "c = I2C_CMD_READ OR (if k = 0 then I2C_CMD_NACK OR I2C_CMD_STOP else 0)"
  obtain b y where y: "on_read T (k \<noteq> 0) x = (b, y)" by (cases "on_read T (k \<noteq> 0) x")
  obtain u v where u: "i2c_wait_idle ?hw (wr ?hw (I2c I2C_CMD) c s) = Some u" "i2c_pop ?hw u = (b, v)"
    "queued (if k = 0 then on_stop T y else y) [] (eng v)" "silent s v"
    using read_one [OF Suc.prems(1), of c "k = 0" T b y gap rest] y read_cmd_bits [of "k = 0"] unfolding c_def by blast
  show ?case
  proof (cases "k = 0")
    case True
    then show ?thesis using u y by (simp add: c_def)
  next
    case False
    then have "queued y [] (eng v)" "0 < k" using u(3) by simp_all
    from Suc.IH [OF this] obtain t where "i2c_read_loop ?hw k v = Some (fst (read_from T k y), t)"
      "queued (on_stop T (snd (read_from T k y))) [] (eng t)" "silent v t" by blast
    then show ?thesis using u False y silent_trans [OF u(4)] by (auto simp: c_def case_prod_beta)
  qed
qed

text \<open>The bytes of a read, and the release of the bus when there is none.\<close>

lemma read_all:
  assumes q: "queued z [] (eng g)" and rf: "read_from T len z = (bs, x)"
  shows "\<exists>t t'. i2c_read_loop (i2c_hw T gap rest) len g = Some (bs, t) \<and>
    (if len = 0 then i2c_stop (i2c_hw T gap rest) t else Some t) = Some t' \<and>
    resting (on_stop T (if len = 0 then on_start T x else x)) False (eng t') \<and> silent g t'"
proof (cases "len = 0")
  case False
  then show ?thesis using read_loop_from [OF q, of len T gap rest] rf by (auto simp: resting_queued)
next
  case True
  then have x: "x = z" "bs = []" using rf by simp_all
  let ?hw = "i2c_hw T gap rest" and ?c = "I2C_CMD_START OR I2C_CMD_STOP"
  let ?s = "wr ?hw (I2c I2C_CMD) ?c g"
  have w: "under_way T True z [] (eng ?s)" "silent g ?s" using cmd_queued [OF q start_stop(1,2)] start_stop(3) by auto
  have op: "operation T True [] z = (True, on_stop T (on_start T z))" by (simp add: operation_def)
  obtain u where u: "i2c_wait_idle ?hw ?s = Some u" "resting (on_stop T (on_start T z)) False (eng u)" "silent ?s u"
    using wait_ends [of T True z "[]" ?s] w(1) op by auto
  have "i2c_stop ?hw g = Some u" using u(1) by (simp add: i2c_stop_def)
  then show ?thesis using True x u(2) silent_trans [OF w(2) u(3)] by auto
qed

text \<open>A register read of a target that acknowledges its address and the register.\<close>

definition reads_back :: "'x target \<Rightarrow> u8 \<Rightarrow> u8 \<Rightarrow> nat \<Rightarrow> 'x \<Rightarrow> bool \<times> u8 list \<times> 'x" where
  "reads_back T addr reg len x =
     (let (ack, x) = operation T False [push_bit 1 addr, reg] x in if \<not> ack then (False, [], x) else
      let (ack, x) = operation T False [push_bit 1 addr OR 1] x in if \<not> ack then (False, [], x) else
      let (bs, x) = read_from T len x in (True, bs, on_stop T (if len = 0 then on_start T x else x)))"

lemma read_regs_back:
  assumes r: "resting x nk (eng s)"
  shows "\<exists>ack bs y t. reads_back T addr reg len x = (ack, bs, y) \<and>
    i2c_read_regs (i2c_hw T gap rest) addr reg len s = Some (rc_of ack, bs, t) \<and> resting y (\<not> ack) (eng t) \<and> silent s t"
proof -
  let ?hw = "i2c_hw T gap rest" and ?a = "i2c_clear_err (i2c_hw T gap rest) s"
  define b1 where "b1 = push_bit 1 addr"
  define b2 where "b2 = b1 OR 1"
  note fold = b1_def [symmetric] b2_def [symmetric]
  have a: "queued x [] (eng ?a)" "silent s ?a" using clear_err_resting [OF r] by (simp_all only: resting_queued)
  obtain u where u: "i2c_push ?hw b1 ?a = Some u" "queued x [b1] (eng u)" "silent ?a u"
    using push_queued [OF a(1), of T gap rest b1] by auto
  obtain v where v: "i2c_push ?hw reg u = Some v" "queued x [b1, reg] (eng v)" "silent u v"
    using push_queued [OF u(2), of T gap rest reg] by auto
  obtain ack y where o1: "operation T False [b1, reg] x = (ack, y)" by (cases "operation T False [b1, reg] x")
  obtain w where w: "i2c_addressed ?hw v = Some (rc_of ack, w)" "resting y (\<not> ack) (eng w)" "silent v w"
    using addressed_yields [OF v(2), of T gap rest] o1 by (auto simp: yields_def)
  have sw: "silent s w" using silent_trans [OF silent_trans [OF silent_trans [OF a(2) u(3)] v(3)] w(3)] .
  have ne: "I2C_ERR_NACK \<noteq> I2C_OK" by (simp add: I2C_ERR_NACK_def I2C_OK_def)
  show ?thesis
  proof (cases ack)
    case False
    have "i2c_read_regs ?hw addr reg len s = Some (rc_of False, [], w)"
      unfolding i2c_read_regs_def fold Let_def using u(1) v(1) w(1) False ne by (simp add: rc_of_def)
    moreover have "reads_back T addr reg len x = (False, [], y)" unfolding reads_back_def fold Let_def using o1 False by simp
    moreover have "resting y (\<not> False) (eng w)" using w(2) False by simp
    ultimately show ?thesis using sw by blast
  next
    case True
    then have q: "queued y [] (eng w)" using w(2) by (simp add: resting_queued)
    obtain p where p: "i2c_push ?hw b2 w = Some p" "queued y [b2] (eng p)" "silent w p"
      using push_queued [OF q, of T gap rest b2] by auto
    obtain ack2 z where o2: "operation T False [b2] y = (ack2, z)" by (cases "operation T False [b2] y")
    obtain g where g: "i2c_addressed ?hw p = Some (rc_of ack2, g)" "resting z (\<not> ack2) (eng g)" "silent p g"
      using addressed_yields [OF p(2), of T gap rest] o2 by (auto simp: yields_def)
    have sg: "silent s g" using silent_trans [OF silent_trans [OF sw p(3)] g(3)] .
    have run: "i2c_read_regs ?hw addr reg len s = (if rc_of ack2 \<noteq> I2C_OK then Some (rc_of ack2, [], g) else i2c_read_tail ?hw len g)"
      unfolding i2c_read_regs_def fold Let_def using u(1) v(1) w(1) True p(1) g(1) by (simp add: rc_of_def)
    show ?thesis
    proof (cases ack2)
      case False
      then have "i2c_read_regs ?hw addr reg len s = Some (rc_of False, [], g)" using run ne by (simp add: rc_of_def)
      moreover have "reads_back T addr reg len x = (False, [], z)" unfolding reads_back_def fold Let_def using o1 o2 True False by simp
      moreover have "resting z (\<not> False) (eng g)" using g(2) False by simp
      ultimately show ?thesis using sg by blast
    next
      case a2: True
      then have qg: "queued z [] (eng g)" using g(2) by (simp add: resting_queued)
      obtain bs x' where rf: "read_from T len z = (bs, x')" by (cases "read_from T len z")
      obtain t t' where t: "i2c_read_loop ?hw len g = Some (bs, t)" "(if len = 0 then i2c_stop ?hw t else Some t) = Some t'"
        "resting (on_stop T (if len = 0 then on_start T x' else x')) False (eng t')" "silent g t'"
        using read_all [OF qg rf] by blast
      obtain e where e: "i2c_check_err ?hw t' = (rc_of True, e)"
        "resting (on_stop T (if len = 0 then on_start T x' else x')) False (eng e)" "silent t' e"
        using check_err_resting [OF t(3), of T gap rest] by auto
      have "i2c_read_regs ?hw addr reg len s = Some (rc_of True, bs, e)"
        unfolding run using a2 t(1,2) e(1) by (simp add: rc_of_def i2c_read_tail_def)
      moreover have "silent s e" using silent_trans [OF silent_trans [OF sg t(4)] e(3)] .
      moreover have "reads_back T addr reg len x = (True, bs, on_stop T (if len = 0 then on_start T x' else x'))"
        unfolding reads_back_def fold Let_def using o1 o2 True a2 rf by simp
      moreover have "resting (on_stop T (if len = 0 then on_start T x' else x')) (\<not> True) (eng e)" using e(2) by simp
      ultimately show ?thesis by blast
    qed
  qed
qed


section \<open>A target that is not there\<close>

lemma wait_reg_inv:
  assumes "wait_reg hw r ok s = Some (v, t)" and "P s" and step: "\<And>s v t. P s \<Longrightarrow> rd hw r s = (v, t) \<Longrightarrow> P t \<and> Q v t"
  shows "P t \<and> Q v t \<and> ok v"
proof -
  have "case (v, t) of (v, t) \<Rightarrow> hw = hw \<longrightarrow> r = r \<longrightarrow> ok = ok \<longrightarrow> P s \<longrightarrow> P t \<and> Q v t \<and> ok v"
  proof (rule wait_reg.raw_induct [where P = "\<lambda>h q k s (v, t). h = hw \<longrightarrow> q = r \<longrightarrow> k = ok \<longrightarrow> P s \<longrightarrow> P t \<and> Q v t \<and> k v", OF _ assms(1)])
    fix f h q k s and res :: "u32 \<times> ('a, 'b) m"
    assume IH: "\<And>h q k s res. f h q k s = Some res \<Longrightarrow>
        (case res of (v, t) \<Rightarrow> h = hw \<longrightarrow> q = r \<longrightarrow> k = ok \<longrightarrow> P s \<longrightarrow> P t \<and> Q v t \<and> k v)"
      and eq: "(let (v, s) = rd h q s in if k v then Some (v, s) else f h q k s) = Some res"
    show "case res of (v, t) \<Rightarrow> h = hw \<longrightarrow> q = r \<longrightarrow> k = ok \<longrightarrow> P s \<longrightarrow> P t \<and> Q v t \<and> k v"
    proof (cases "rd h q s")
      case (Pair v t)
      then show ?thesis using eq IH [of h q k t res] step [of s v t] by (auto split: if_splits)
    qed
  qed
  then show ?thesis using assms(2) by simp
qed

text \<open>
  The first byte of the operation is one that nobody acknowledges.  Of the \<open>m\<close> bytes accepted so far it is the
  only one that leaves the queue as a byte; what is queued when it is refused is dropped, and what is queued after
  that stays, as no command is under way any more.
\<close>

definition refused :: "'x target \<Rightarrow> 'x \<Rightarrow> u8 \<Rightarrow> nat \<Rightarrow> 'x i2c_dev \<Rightarrow> bool" where
  "refused T x a m d \<longleftrightarrow> (case st_q d of
        I_IDLE \<Rightarrow> (case cmd_q d of
            Some c \<Rightarrow> bit c 0 \<and> \<not> bit c 2 \<and> target_q d = x \<and> (\<exists>bs. txq d = a # bs \<and> m = Suc (length bs) \<and> m \<le> 16)
          | None \<Rightarrow> m \<le> 17 + length (txq d) \<and> length (txq d) \<le> 16)
      | I_START n \<Rightarrow> cmd_q d = None \<and> \<not> read_q d \<and> target_q d = x \<and> (\<exists>bs. txq d = a # bs \<and> m = Suc (length bs) \<and> m \<le> 16)
      | I_WRITE n b \<Rightarrow> cmd_q d = None \<and> b = a \<and> target_q d = on_start T x \<and> m = Suc (length (txq d)) \<and> length (txq d) \<le> 16
      | I_READ n \<Rightarrow> False
      | _ \<Rightarrow> cmd_q d = None \<and> m \<le> 17 + length (txq d) \<and> length (txq d) \<le> 16)"

lemma clk_refused:
  assumes r: "refused T x a m d" and a: "\<not> fst (on_write T a (on_start T x))"
  shows "refused T x a m (i2c_clk T d)"
proof (cases "bit (ctrl_q d) 0")
  case on: True
  obtain y where y: "on_write T a (on_start T x) = (False, y)" using a by (cases "on_write T a (on_start T x)") simp
  show ?thesis
  proof (cases "st_q d")
    case I_IDLE
    then show ?thesis using r on by (cases "cmd_q d") (auto simp: refused_def clk_defs)
  next
    case (I_START n)
    then show ?thesis using r on by (cases n) (auto simp: refused_def clk_defs)
  next
    case (I_WRITE n b)
    then show ?thesis using r on y by (cases n) (auto simp: refused_def clk_defs)
  next
    case (I_STOP n)
    then show ?thesis using r on by (cases n) (auto simp: refused_def clk_defs)
  next
    case (I_DONE n)
    then show ?thesis using r on by (cases n) (auto simp: refused_def clk_defs)
  qed (use r in \<open>simp add: refused_def\<close>)
qed (use r in \<open>simp add: i2c_clk_def\<close>)

lemma clks_refused: "refused T x a m d \<Longrightarrow> \<not> fst (on_write T a (on_start T x)) \<Longrightarrow> refused T x a m ((i2c_clk T ^^ n) d)"
  by (induction n) (simp_all add: clk_refused)

lemma tx_refused: "refused T x a m d \<Longrightarrow> length (txq d) < 16 \<Longrightarrow> refused T x a (Suc m) (i2c_reg_wr I2C_TXDATA v d)"
  by (auto simp: refused_def i2c_reg_wr_def split: i2c_st.splits option.splits)

lemma refused_bound: "refused T x a m d \<Longrightarrow> m \<le> 33"
  by (auto simp: refused_def split: i2c_st.splits option.splits)

lemma push_refused:
  assumes p: "i2c_push (i2c_hw T gap rest) b s = Some t" and r: "refused T x a m (eng s)" and a: "\<not> fst (on_write T a (on_start T x))"
  shows "refused T x a (Suc m) (eng t)"
proof -
  let ?hw = "i2c_hw T gap rest"
  obtain v u where u: "wait_reg ?hw (I2c I2C_STATUS) tx_room s = Some (v, u)" and t: "t = wr ?hw (I2c I2C_TXDATA) (ucast b) u"
    using p by (auto simp: i2c_push_def elim!: bind_SomeE)
  have "refused T x a m (eng u) \<and> v = i2c_status (eng u) \<and> tx_room v"
  proof (rule wait_reg_inv [OF u, where P = "\<lambda>s. refused T x a m (eng s)"])
    show "refused T x a m (eng s)" by (rule r)
    fix s v t assume "refused T x a m (eng s)" "rd ?hw (I2c I2C_STATUS) s = (v, t)"
    moreover obtain w z where "rd ?hw (I2c I2C_STATUS) s = (w, z)"
      "(w, eng z) = i2c_reg_rd I2C_STATUS ((i2c_clk T ^^ Suc (gap (fst (dev s)))) (eng s))"
      by (rule i2c_rd_eng)
    ultimately show "refused T x a m (eng t) \<and> v = i2c_status (eng t)"
      using clks_refused [OF _ a] by (simp add: i2c_reg_rd_def del: funpow.simps)
  qed
  then have "length (txq (eng u)) < 16" "refused T x a m (eng u)"
    by (auto simp: status_bits refused_def split: i2c_st.splits option.splits)
  then have f: "refused T x a m ((i2c_clk T ^^ n) (eng u))" "length (txq ((i2c_clk T ^^ n) (eng u))) < 16" for n
    using clks_refused [OF _ a] txq_clks [of n T "eng u"] by auto
  show ?thesis unfolding t i2c_wr_eng by (rule tx_refused [OF f])
qed

lemma put_all_refused:
  "put_all (i2c_push (i2c_hw T gap rest)) bs s = Some t \<Longrightarrow> refused T x a m (eng s) \<Longrightarrow> \<not> fst (on_write T a (on_start T x)) \<Longrightarrow>
   refused T x a (m + length bs) (eng t)"
proof (induction bs arbitrary: s m)
  case (Cons b bs)
  from Cons.prems(1) obtain u where u: "i2c_push (i2c_hw T gap rest) b s = Some u" "put_all (i2c_push (i2c_hw T gap rest)) bs u = Some t"
    by (auto elim!: bind_SomeE)
  from Cons.IH [OF u(2) push_refused [OF u(1) Cons.prems(2,3)] Cons.prems(3)] show ?case by simp
qed simp

lemma cmd_refused:
  assumes "queued x (a # bs) (eng s)" and "length bs < 16" and "bit c 0" and "\<not> bit c 2"
  shows "refused T x a (Suc (length bs)) (eng (wr (i2c_hw T gap rest) (I2c I2C_CMD) c s))"
  using assms unfolding i2c_wr_eng clks_queued [OF assms(1)] by (simp add: queued_def refused_def i2c_reg_wr_def)

text \<open>A write of 33 bytes or more to an address that nobody acknowledges never returns, and so does a register
  write of 32 bytes or more, whatever the speed of the firmware: the queue is emptied when the address is refused,
  the bytes still to come fill it again, and the driver waits for room that no command will make.  (The header
  promises that a failed transaction ends and leaves nothing queued.)\<close>

theorem i2c_write_absent_hangs:
  assumes r: "resting x nk (eng s)" and a: "\<not> fst (on_write T (push_bit 1 addr) (on_start T x))"
  shows "(33 \<le> length buf \<longrightarrow> i2c_write (i2c_hw T gap rest) addr buf s = None) \<and>
    (32 \<le> length buf \<longrightarrow> i2c_write_regs (i2c_hw T gap rest) addr reg buf s = None)"
proof -
  let ?hw = "i2c_hw T gap rest" and ?a = "i2c_clear_err (i2c_hw T gap rest) s"
  define b where "b = push_bit 1 addr"
  have nb: "\<not> fst (on_write T b (on_start T x))" using a by (simp only: b_def) simp
  obtain u where u: "i2c_push ?hw b ?a = Some u" "queued x [b] (eng u)"
    using push_queued [of x "[]" ?a T gap rest b] clear_err_resting(1) [OF r] by (auto simp: resting_queued)
  obtain v where v: "i2c_push ?hw reg u = Some v" "queued x [b, reg] (eng v)"
    using push_queued [OF u(2), of T gap rest reg] by auto
  let ?c = "I2C_CMD_START OR I2C_CMD_STOP"
  have stuck: "put_all (i2c_push ?hw) buf (wr ?hw (I2c I2C_CMD) ?c w) = None"
    if q: "queued x (b # bs) (eng w)" "length bs < 16" "33 \<le> length bs + length buf" for bs and w :: "('b \<times> 'a i2c_dev, 'c) m"
  proof (rule ccontr)
    assume "put_all (i2c_push ?hw) buf (wr ?hw (I2c I2C_CMD) ?c w) \<noteq> None"
    then obtain z where "put_all (i2c_push ?hw) buf (wr ?hw (I2c I2C_CMD) ?c w) = Some z" by blast
    from put_all_refused [OF this cmd_refused [OF q(1,2) start_stop(1,2)] nb] have "Suc (length bs) + length buf \<le> 33"
      by (rule refused_bound)
    then show False using q(3) by simp
  qed
  show ?thesis
    using u(1) v(1) stuck [OF u(2)] stuck [OF v(2)]
    by (simp only: i2c_write_def i2c_write_regs_def Let_def b_def [symmetric]) simp
qed


text \<open>Nothing but pull-ups on the bus.\<close>

definition nobody :: "unit target" where
  "nobody = \<lparr>on_start = \<lambda>x. x, on_write = \<lambda>b x. (False, x), on_read = \<lambda>a x. (0xFF, x), on_stop = \<lambda>x. x\<rparr>"

text \<open>A board with nothing else on it, that counts the accesses.\<close>

definition counter :: "nat hw" where
  "counter = \<lparr>hw_rd = \<lambda>r n. (0, Suc n), hw_wr = \<lambda>r v n. Suc n, hw_csr_rd = \<lambda>c n. (0, n), hw_csr_op = \<lambda>f c v n. n, hw_wfi = \<lambda>n. n\<rparr>"

text \<open>An enabled engine with divider \<open>n\<close>.\<close>

definition fresh :: "nat \<Rightarrow> 'x \<Rightarrow> 'x i2c_dev" where
  "fresh n x = \<lparr>ctrl_q = I2C_CTRL_ENABLE, div_q = n, cmd_q = None, txq = [], rxq = [], st_q = I_IDLE, read_q = False,
     last_q = False, stop_q = False, nack_q = False, ovr_q = False, target_q = x\<rparr>"

lemma resting_fresh: "resting x False (fresh n x)"
  by (simp add: resting_def fresh_def I2C_CTRL_ENABLE_def)

theorem i2c_write_absent_hangs_witness:
  "i2c_write (i2c_hw nobody (\<lambda>n. n mod 3) counter) 0x3C (replicate 33 0) \<lparr>dev = (0, fresh 124 ()), evs = []\<rparr> = None"
  using i2c_write_absent_hangs [where x = "()" and nk = False and s = "\<lparr>dev = (0, fresh 124 ()), evs = []\<rparr>" and T = nobody and
      addr = "0x3C" and buf = "replicate 33 0" and gap = "\<lambda>n. n mod 3" and rest = counter]
  by (simp add: resting_fresh) (simp add: nobody_def)

section \<open>A firmware that is too slow\<close>

lemma clks_done:
  "under_way T stop x bs d \<Longrightarrow> togo d \<le> n \<Longrightarrow>
   resting (snd (operation T stop bs x)) (\<not> fst (operation T stop bs x)) ((i2c_clk T ^^ n) d)"
proof (induction n arbitrary: d)
  case 0
  then show ?case using clk_under_way(2) [of T stop x bs d] by simp
next
  case (Suc n)
  note c = clk_under_way [OF Suc.prems(1)]
  show ?case
  proof (cases "under_way T stop x bs (i2c_clk T d)")
    case True
    then show ?thesis using Suc.IH [OF True] c(2) Suc.prems(2) by (simp add: funpow_swap1)
  next
    case False
    then have e: "ended T stop x bs (i2c_clk T d)" using c(1) by blast
    let ?d = "(i2c_clk T ^^ n) (i2c_clk T d)"
    have "ended T stop x bs ?d" "togo ?d \<le> togo (i2c_clk T d) - n" using clks_ended [OF e] by blast+
    then have "ended T stop x bs ?d" "togo ?d = 0" using c(2) Suc.prems(2) by simp_all
    then have "resting (snd (operation T stop bs x)) (\<not> fst (operation T stop bs x)) ?d"
      by (auto simp: ended_def resting_def togo_def Let_def split: i2c_st.splits)
    then show ?thesis by (simp add: funpow_swap1)
  qed
qed

lemma put_all_queued:
  "queued x bs (eng s) \<Longrightarrow> length (bs @ cs) \<le> 16 \<Longrightarrow>
   \<exists>t. put_all (i2c_push (i2c_hw T gap rest)) cs s = Some t \<and> queued x (bs @ cs) (eng t) \<and> silent s t"
proof (induction cs arbitrary: s bs)
  case Nil
  then show ?case by simp
next
  case (Cons c cs)
  obtain u where u: "i2c_push (i2c_hw T gap rest) c s = Some u" "queued x (bs @ [c]) (eng u)" "silent s u"
    using push_queued [OF Cons.prems(1), of T gap rest c] Cons.prems(2) by auto
  from Cons.IH [OF u(2)] Cons.prems(2) obtain t where "put_all (i2c_push (i2c_hw T gap rest)) cs u = Some t"
    "queued x (bs @ c # cs) (eng t)" "silent u t" by auto
  then show ?case using u(1) silent_trans [OF u(3)] by auto
qed

text \<open>When the pause after the command is longer than the address takes, the operation is over before the first data
  byte is queued: the driver returns \<open>I2C_OK\<close>, and the data has gone nowhere.\<close>

lemma write_underrun:
  assumes r: "resting x nk (eng s)" and slow: "\<forall>n. 81 * Suc (div_q (eng s)) \<le> gap n" and buf: "length buf \<le> 16" and ne: "buf \<noteq> []"
    and ack: "operation T True [push_bit 1 addr] x = (True, y)"
  shows "\<exists>t. i2c_write (i2c_hw T gap rest) addr buf s = Some (I2C_OK, t) \<and> queued y buf (eng t)"
proof -
  let ?hw = "i2c_hw T gap rest" and ?a = "i2c_clear_err (i2c_hw T gap rest) s" and ?c = "I2C_CMD_START OR I2C_CMD_STOP"
  define b where "b = push_bit 1 addr"
  have a: "queued x [] (eng ?a)" "silent s ?a" using clear_err_resting [OF r] by (simp_all only: resting_queued)
  obtain u where u: "i2c_push ?hw b ?a = Some u" "queued x [b] (eng u)" "silent ?a u"
    using push_queued [OF a(1), of T gap rest b] by auto
  let ?v = "wr ?hw (I2c I2C_CMD) ?c u"
  have v: "under_way T True x [b] (eng ?v)" "silent u ?v" using cmd_queued [OF u(2) start_stop(1,2)] start_stop(3) by auto
  have op: "operation T True [b] x = (True, y)" using ack by (simp only: b_def)
  have e: "eng ?v = (eng u)\<lparr>cmd_q := Some ?c\<rparr>" unfolding i2c_wr_eng clks_queued [OF u(2)] by (simp add: i2c_reg_wr_def)
  have "div_q (eng u) = div_q (eng s)" using silent_trans [OF a(2) u(3)] by (simp add: silent_def)
  then have "togo (eng ?v) \<le> Suc (gap (fst (dev ?v)))"
    using u(2) slow [THEN spec, of "fst (dev ?v)"] by (simp add: e togo_def queued_def phases_def)
  from clks_done [OF v(1) this] have d: "queued y [] ((i2c_clk T ^^ Suc (gap (fst (dev ?v)))) (eng ?v))"
    by (simp add: op resting_queued del: funpow.simps)
  obtain c cs where cs: "buf = c # cs" using ne by (cases buf) auto
  obtain w where w: "i2c_push ?hw c ?v = Some w" "queued y [c] (eng w)"
    using push_settled [where T = T and gap = gap and s = "?v" and rest = rest and b = c, OF d] by auto
  obtain z where z: "put_all (i2c_push ?hw) cs w = Some z" "queued y buf (eng z)"
    using put_all_queued [OF w(2), of cs T gap rest] buf cs by auto
  have idle: "st_q (eng z) = I_IDLE" "cmd_q (eng z) = None" "\<not> nack_q (eng z)" using z(2) by (simp_all add: queued_def)
  obtain p where p: "rd ?hw (I2c I2C_STATUS) z = (i2c_status (eng z), p)" "eng p = eng z"
    using status_settled [of "eng z" gap z T rest] idle clks_queued [OF z(2)] by metis
  obtain q where q: "rd ?hw (I2c I2C_STATUS) p = (i2c_status (eng z), q)" "eng q = eng z"
    using status_settled [of "eng z" gap p T rest] idle clks_queued [OF z(2)] p(2) by metis
  have "i2c_wait_idle ?hw z = Some p"
    unfolding i2c_wait_idle_def by (subst wait_reg.simps) (simp add: p(1) status_bits idle)
  then have "i2c_write ?hw addr buf s = Some (I2C_OK, q)"
    using u(1) w(1) z(1) q(1) cs idle(3) unfolding i2c_write_def b_def [symmetric] Let_def
    by (simp add: i2c_check_err_def status_bits)
  then show ?thesis using z(2) q(2) by simp
qed

section \<open>Properties\<close>

text \<open>On the engine, whatever hangs on the bus, a write whose bytes the firmware supplies in time is one
  operation: START, the address, every byte of the buffer in order up to the first that is refused, STOP.  It
  returns, with the code of the acknowledge, and leaves the engine at rest with nothing queued.\<close>

theorem i2c_write_delivers:
  assumes "resting x nk (eng s)" and "keeps_up T gap x [push_bit 1 addr] buf (eng s)"
  shows "\<exists>t. i2c_write (i2c_hw T gap rest) addr buf s =
      Some (if fst (operation T True (push_bit 1 addr # buf) x) then I2C_OK else I2C_ERR_NACK, t) \<and>
    resting (snd (operation T True (push_bit 1 addr # buf) x)) (\<not> fst (operation T True (push_bit 1 addr # buf) x)) (eng t)"
  using write_yields [OF assms, of rest] by (auto simp: yields_def rc_of_def)

theorem i2c_write_delivers_witness:
  "\<exists>t. i2c_write (i2c_hw nobody (\<lambda>n. n mod 3) counter) 0x51 [1, 2] \<lparr>dev = (0, fresh 124 ()), evs = []\<rparr> = Some (I2C_ERR_NACK, t) \<and>
     resting () True (eng t)"
proof -
  have "quick (\<lambda>n. n mod 3) 4 (fresh 124 ())"
    unfolding quick_def by (rule exI [of _ 2]) (auto simp: fresh_def intro: mod_less_divisor [THEN less_Suc_eq_le [THEN iffD1], of 3, simplified])
  then have "keeps_up nobody (\<lambda>n. n mod 3) () [push_bit 1 0x51] [1, 2] (fresh 124 ())" by (simp add: keeps_up_def)
  moreover have "operation nobody True [push_bit 1 0x51, 1, 2] () = (False, ())" by (simp add: operation_def nobody_def)
  ultimately show ?thesis
    using i2c_write_delivers [of "()" False "\<lparr>dev = (0, fresh 124 ()), evs = []\<rparr>" nobody "\<lambda>n. n mod 3" "0x51" "[1, 2]" counter]
    by (simp add: resting_fresh)
qed

text \<open>A chip with 256 byte registers: after its address and the number of a register it is written or read from
  there on.\<close>

datatype view = Aside | Addressing | Numbering | Giving

definition register_chip :: "u8 \<Rightarrow> (u8 \<Rightarrow> u8) \<Rightarrow> (view \<times> u8) target" where
  "register_chip a f = \<lparr>
     on_start = \<lambda>(w, p). (Addressing, p),
     on_write = \<lambda>b (w, p). (case w of
         Addressing \<Rightarrow> (if drop_bit 1 b = a then (True, if bit b 0 then Giving else Numbering, p) else (False, Aside, p))
       | Numbering \<Rightarrow> (True, Numbering, b)
       | _ \<Rightarrow> (False, w, p)),
     on_read = \<lambda>ack (w, p). (if w = Giving then (f p, w, p + 1) else (0xFF, w, p)),
     on_stop = \<lambda>(w, p). (Aside, p)\<rparr>"

text \<open>C6: on the engine, however slow or fast the firmware is and whatever hangs on the bus, a register read returns.  It
  addresses the target for writing and sends the register, addresses it for reading under a repeated START, takes the
  bytes the target gives, in order, with an acknowledge for each but the last, and ends with STOP; the first byte
  that is refused ends it with the NACK code and no bytes.  The engine is left at rest, with nothing unread.\<close>

theorem i2c_read_regs_delivers:
  assumes "resting x nk (eng s)"
  shows "\<exists>t. case reads_back T addr reg len x of (ack, bs, y) \<Rightarrow>
    i2c_read_regs (i2c_hw T gap rest) addr reg len s = Some (if ack then I2C_OK else I2C_ERR_NACK, bs, t) \<and>
    resting y (\<not> ack) (eng t)"
  using read_regs_back [OF assms, of T addr reg len gap rest] by (auto simp: rc_of_def)

lemma register_chip_gives:
  "read_from (register_chip a f) n (Giving, p) = (map (\<lambda>i. f (p + of_nat i)) [0..<n], Giving, p + of_nat n)"
proof (induction n arbitrary: p)
  case (Suc n)
  have "map (\<lambda>i. f (p + of_nat i)) [0..<Suc n] = f p # map (\<lambda>i. f (p + 1 + of_nat i)) [0..<n]"
    by (simp add: upt_conv_Cons map_Suc_upt [symmetric] o_def add.assoc del: upt_Suc)
  then show ?case using Suc by (simp add: register_chip_def add.assoc del: upt_Suc)
qed simp

theorem i2c_read_regs_delivers_witness:
  "\<exists>t. i2c_read_regs (i2c_hw (register_chip 0x68 (\<lambda>r. 2 * r)) (\<lambda>n. n mod 3) counter) 0x68 0x11 2
        \<lparr>dev = (0, fresh 124 (Aside, 0)), evs = []\<rparr> = Some (I2C_OK, [0x22, 0x24], t) \<and>
     resting (Aside, 0x13) False (eng t)"
proof -
  let ?T = "register_chip 0x68 (\<lambda>r. 2 * r)"
  have "operation ?T False [push_bit 1 0x68, 0x11] (Aside, 0) = (True, Numbering, 0x11)"
    "operation ?T False [push_bit 1 0x68 OR 1] (Numbering, 0x11) = (True, Giving, 0x11)"
    by (simp_all add: operation_def register_chip_def drop_bit_eq_div)
  moreover have "read_from ?T 2 (Giving, 0x11) = ([0x22, 0x24], Giving, 0x13)"
    unfolding register_chip_gives by (simp add: upt_rec)
  ultimately have "reads_back ?T 0x68 0x11 2 (Aside, 0) = (True, [0x22, 0x24], Aside, 0x13)"
    by (simp add: reads_back_def) (simp add: register_chip_def)
  then show ?thesis
    using i2c_read_regs_delivers [where x = "(Aside, 0)" and nk = False and s = "\<lparr>dev = (0, fresh 124 (Aside, 0)), evs = []\<rparr>" and
        T = ?T and addr = "0x68" and reg = "0x11" and len = 2 and gap = "\<lambda>n. n mod 3" and rest = counter]
    by (simp add: resting_fresh)
qed

end
