(* ===== verification/Spi.thy ===== *)
theory Spi
  imports Machine
begin

text \<open>
  \<open>sim/sw/common/spi.h\<close>: the polled SPI master.  A null \<open>tx\<close> is \<^const>\<open>None\<close>; the received bytes are
  returned, and a caller that passes a null \<open>rx\<close> drops them.  Counters are naturals: they never pass
  \<open>len\<close>.  The last section models the FIFO engine of \<open>src/rtl/utils/axi4_lite_spi.sv\<close> and proves the
  transfers correct on it.
\<close>

definition SPI_STATUS_BUSY :: u32 where "SPI_STATUS_BUSY = 0x01"
definition SPI_STATUS_TX_FULL :: u32 where "SPI_STATUS_TX_FULL = 0x02"
definition SPI_STATUS_RX_EMPTY :: u32 where "SPI_STATUS_RX_EMPTY = 0x04"
definition SPI_CTRL_ENABLE :: u32 where "SPI_CTRL_ENABLE = 0x01"
definition SPI_CTRL_CPOL :: u32 where "SPI_CTRL_CPOL = 0x02"
definition SPI_CTRL_CPHA :: u32 where "SPI_CTRL_CPHA = 0x04"
definition SPI_CTRL_IE_ALL :: u32 where "SPI_CTRL_IE_ALL = 0x78"
definition SPI_IRQ_ALL :: u32 where "SPI_IRQ_ALL = 0x0F"
definition SPI_CORE_HZ :: u32 where "SPI_CORE_HZ = 50000000"

section \<open>Set-up\<close>

definition spi_clkdiv_for :: "u32 \<Rightarrow> u32 \<Rightarrow> u32" where
  "spi_clkdiv_for core_hz spi_hz =
     (let d = core_hz div (2 * spi_hz) in if d \<noteq> 0 then d - 1 else 0)"

definition spi_set_clkdiv :: "'d hw \<Rightarrow> u32 \<Rightarrow> ('d, 'z) m \<Rightarrow> ('d, 'z) m" where
  "spi_set_clkdiv hw d s = wr hw (Spi SPI_CLKDIV) d s"

definition spi_mode_bits :: "u32 \<Rightarrow> u32 \<Rightarrow> u32" where
  "spi_mode_bits mode v =
     (let c = v AND NOT (SPI_CTRL_CPOL OR SPI_CTRL_CPHA);
          c = (if mode AND 2 \<noteq> 0 then c OR SPI_CTRL_CPOL else c)
      in if mode AND 1 \<noteq> 0 then c OR SPI_CTRL_CPHA else c)"

definition spi_set_mode :: "'d hw \<Rightarrow> u32 \<Rightarrow> ('d, 'z) m \<Rightarrow> ('d, 'z) m" where
  "spi_set_mode hw mode s = rmw hw (Spi SPI_CTRL) (spi_mode_bits mode) s"

definition spi_begin :: "'d hw \<Rightarrow> u32 \<Rightarrow> u32 \<Rightarrow> u32 \<Rightarrow> ('d, 'z) m \<Rightarrow> ('d, 'z) m" where
  "spi_begin hw core_hz spi_hz mode s =
     (let s = wr hw (Spi SPI_CTRL) 0 s;
          s = wr hw (Spi SPI_CLKDIV) (spi_clkdiv_for core_hz spi_hz) s;
          s = spi_set_mode hw mode s;
          s = rmw hw (Spi SPI_CTRL) (\<lambda>v. v OR SPI_CTRL_ENABLE) s;
          s = wr hw (Spi SPI_CS) 1 s
      in wr hw (Spi SPI_IRQ) SPI_IRQ_ALL s)"

definition spi_begin_hz :: "'d hw \<Rightarrow> u32 \<Rightarrow> u32 \<Rightarrow> ('d, 'z) m \<Rightarrow> ('d, 'z) m" where
  "spi_begin_hz hw spi_hz mode s = spi_begin hw SPI_CORE_HZ spi_hz mode s"

definition spi_select :: "'d hw \<Rightarrow> ('d, 'z) m \<Rightarrow> ('d, 'z) m" where
  "spi_select hw s = wr hw (Spi SPI_CS) 0 s"

definition spi_deselect :: "'d hw \<Rightarrow> ('d, 'z) m \<Rightarrow> ('d, 'z) m" where
  "spi_deselect hw s = wr hw (Spi SPI_CS) 1 s"

section \<open>Transfers\<close>

definition spi_busy :: "'d hw \<Rightarrow> ('d, 'z) m \<Rightarrow> bool \<times> ('d, 'z) m" where
  "spi_busy hw s = (let (v, s) = rd hw (Spi SPI_STATUS) s in (v AND SPI_STATUS_BUSY \<noteq> 0, s))"

definition spi_room :: "u32 \<Rightarrow> bool" where "spi_room v \<longleftrightarrow> v AND SPI_STATUS_TX_FULL = 0"
definition spi_idle :: "u32 \<Rightarrow> bool" where "spi_idle v \<longleftrightarrow> v AND SPI_STATUS_BUSY = 0"
definition spi_avail :: "u32 \<Rightarrow> bool" where "spi_avail v \<longleftrightarrow> v AND SPI_STATUS_RX_EMPTY = 0"

definition spi_transfer :: "'d hw \<Rightarrow> u8 \<Rightarrow> ('d, 'z) m \<Rightarrow> (u8 \<times> ('d, 'z) m) option" where
  "spi_transfer hw b s = do {
     (_, s) \<leftarrow> wait_reg hw (Spi SPI_STATUS) spi_room s;
     let s = wr hw (Spi SPI_TXDATA) (ucast b) s;
     (_, s) \<leftarrow> wait_reg hw (Spi SPI_STATUS) spi_idle s;
     let (v, s) = rd hw (Spi SPI_RXDATA) s;
     Some (ucast (v AND 0xFF), s) }"

text \<open>The inner loop of \<open>spi_transfer_buf\<close>: push while bytes remain, fewer than 16 are in flight, and
  the FIFO has room; the status is read only when the first two hold.\<close>

function spi_fill :: "'d hw \<Rightarrow> u8 list option \<Rightarrow> nat \<Rightarrow> nat \<Rightarrow> nat \<Rightarrow> ('d, 'z) m \<Rightarrow> nat \<times> ('d, 'z) m" where
  "spi_fill hw tx len pushed popped s =
     (if pushed < len \<and> pushed - popped < 16 then
        let (v, s) = rd hw (Spi SPI_STATUS) s in
        if spi_room v then
          let s = wr hw (Spi SPI_TXDATA) (case tx of Some bs \<Rightarrow> ucast (bs ! pushed) | None \<Rightarrow> 0xFF) s
          in spi_fill hw tx len (Suc pushed) popped s
        else (pushed, s)
      else (pushed, s))"
  by pat_completeness auto
termination
  by (relation "measure (\<lambda>(hw, tx, len, pushed, popped, s). len - pushed)") auto

declare spi_fill.simps [simp del]

function spi_buf_loop ::
  "'d hw \<Rightarrow> u8 list option \<Rightarrow> nat \<Rightarrow> nat \<Rightarrow> nat \<Rightarrow> ('d, 'z) m \<Rightarrow> (u8 list \<times> ('d, 'z) m) option" where
  "spi_buf_loop hw tx len pushed popped s =
     (if popped < len then do {
        let (pushed, s) = spi_fill hw tx len pushed popped s;
        (_, s) \<leftarrow> wait_reg hw (Spi SPI_STATUS) spi_avail s;
        let (v, s) = rd hw (Spi SPI_RXDATA) s;
        (bs, s) \<leftarrow> spi_buf_loop hw tx len pushed (Suc popped) s;
        Some (ucast (v AND 0xFF) # bs, s) }
      else Some ([], s))"
  by pat_completeness auto
termination
  by (relation "measure (\<lambda>(hw, tx, len, pushed, popped, s). len - popped)") auto

declare spi_buf_loop.simps [simp del]

definition spi_transfer_buf ::
  "'d hw \<Rightarrow> u8 list option \<Rightarrow> nat \<Rightarrow> ('d, 'z) m \<Rightarrow> (u8 list \<times> ('d, 'z) m) option" where
  "spi_transfer_buf hw tx len s = spi_buf_loop hw tx len 0 0 s"

definition spi_send :: "'d hw \<Rightarrow> u8 list \<Rightarrow> ('d, 'z) m \<Rightarrow> ('d, 'z) m option" where
  "spi_send hw buf s = do { (_, s) \<leftarrow> spi_transfer_buf hw (Some buf) (length buf) s; Some s }"

definition spi_read :: "'d hw \<Rightarrow> nat \<Rightarrow> ('d, 'z) m \<Rightarrow> (u8 list \<times> ('d, 'z) m) option" where
  "spi_read hw len s = spi_transfer_buf hw None len s"

definition spi_transfer16 :: "'d hw \<Rightarrow> u16 \<Rightarrow> ('d, 'z) m \<Rightarrow> (u16 \<times> ('d, 'z) m) option" where
  "spi_transfer16 hw v s = do {
     (hi, s) \<leftarrow> spi_transfer hw (ucast (drop_bit 8 v)) s;
     (lo, s) \<leftarrow> spi_transfer hw (ucast (v AND 0xFF)) s;
     Some (push_bit 8 (ucast hi) OR ucast lo, s) }"

definition spi_transfer32 :: "'d hw \<Rightarrow> u32 \<Rightarrow> ('d, 'z) m \<Rightarrow> (u32 \<times> ('d, 'z) m) option" where
  "spi_transfer32 hw v s = do {
     (b3, s) \<leftarrow> spi_transfer hw (ucast (drop_bit 24 v)) s;
     (b2, s) \<leftarrow> spi_transfer hw (ucast (drop_bit 16 v)) s;
     (b1, s) \<leftarrow> spi_transfer hw (ucast (drop_bit 8 v)) s;
     (b0, s) \<leftarrow> spi_transfer hw (ucast v) s;
     Some (push_bit 24 (ucast b3) OR push_bit 16 (ucast b2) OR push_bit 8 (ucast b1) OR ucast b0, s) }"

definition spi_send16 :: "'d hw \<Rightarrow> u16 \<Rightarrow> ('d, 'z) m \<Rightarrow> ('d, 'z) m option" where
  "spi_send16 hw v s = do {
     (_, s) \<leftarrow> spi_transfer hw (ucast (drop_bit 8 v)) s;
     (_, s) \<leftarrow> spi_transfer hw (ucast (v AND 0xFF)) s;
     Some s }"

definition spi_send32 :: "'d hw \<Rightarrow> u32 \<Rightarrow> ('d, 'z) m \<Rightarrow> ('d, 'z) m option" where
  "spi_send32 hw v s = do {
     (_, s) \<leftarrow> spi_transfer hw (ucast (drop_bit 24 v)) s;
     (_, s) \<leftarrow> spi_transfer hw (ucast (drop_bit 16 v)) s;
     (_, s) \<leftarrow> spi_transfer hw (ucast (drop_bit 8 v)) s;
     (_, s) \<leftarrow> spi_transfer hw (ucast v) s;
     Some s }"

definition spi_read16 :: "'d hw \<Rightarrow> ('d, 'z) m \<Rightarrow> (u16 \<times> ('d, 'z) m) option" where
  "spi_read16 hw s = do {
     (hi, s) \<leftarrow> spi_transfer hw 0xFF s;
     (lo, s) \<leftarrow> spi_transfer hw 0xFF s;
     Some (push_bit 8 (ucast hi) OR ucast lo, s) }"

definition spi_read32 :: "'d hw \<Rightarrow> ('d, 'z) m \<Rightarrow> (u32 \<times> ('d, 'z) m) option" where
  "spi_read32 hw s = do {
     (b3, s) \<leftarrow> spi_transfer hw 0xFF s;
     (b2, s) \<leftarrow> spi_transfer hw 0xFF s;
     (b1, s) \<leftarrow> spi_transfer hw 0xFF s;
     (b0, s) \<leftarrow> spi_transfer hw 0xFF s;
     Some (push_bit 24 (ucast b3) OR push_bit 16 (ucast b2) OR push_bit 8 (ucast b1) OR ucast b0, s) }"

section \<open>Interrupt plumbing\<close>

definition spi_irq_flags :: "'d hw \<Rightarrow> ('d, 'z) m \<Rightarrow> u32 \<times> ('d, 'z) m" where
  "spi_irq_flags hw s = rd hw (Spi SPI_IRQ) s"

definition spi_irq_clear :: "'d hw \<Rightarrow> u32 \<Rightarrow> ('d, 'z) m \<Rightarrow> ('d, 'z) m" where
  "spi_irq_clear hw bits s = wr hw (Spi SPI_IRQ) bits s"

definition spi_irq_enable :: "'d hw \<Rightarrow> u32 \<Rightarrow> ('d, 'z) m \<Rightarrow> ('d, 'z) m" where
  "spi_irq_enable hw ie s =
     rmw hw (Spi SPI_CTRL) (\<lambda>v. (v AND NOT SPI_CTRL_IE_ALL) OR (ie AND SPI_CTRL_IE_ALL)) s"

section \<open>The engine\<close>

text \<open>
  What is on the bus: chip-select levels and bytes.  A slave answers each byte as a function of
  everything it has seen, the byte included.
\<close>

datatype spi_ev = Sel bool | Byte u8

type_synonym slave = "spi_ev list \<Rightarrow> u8"

datatype engine = ST_IDLE | ST_SHIFT nat u8 | ST_DONE u8

record spi_dev =
  tx_fifo :: "u8 list"
  rx_fifo :: "u8 list"
  state_q :: engine
  bus :: "spi_ev list"
  overrun :: bool

text \<open>One clock of the enabled engine; a byte takes \<open>Suc k\<close> clocks on the wire.\<close>

definition spi_clk :: "slave \<Rightarrow> nat \<Rightarrow> spi_dev \<Rightarrow> spi_dev" where
  "spi_clk slave k d = (case state_q d of
       ST_IDLE \<Rightarrow> (case tx_fifo d of [] \<Rightarrow> d | b # bs \<Rightarrow> d\<lparr>tx_fifo := bs, state_q := ST_SHIFT k b\<rparr>)
     | ST_SHIFT (Suc n) b \<Rightarrow> d\<lparr>state_q := ST_SHIFT n b\<rparr>
     | ST_SHIFT 0 b \<Rightarrow> d\<lparr>bus := bus d @ [Byte b], state_q := ST_DONE (slave (bus d @ [Byte b]))\<rparr>
     | ST_DONE r \<Rightarrow> (if length (rx_fifo d) < 16 then d\<lparr>rx_fifo := rx_fifo d @ [r], state_q := ST_IDLE\<rparr>
                    else d\<lparr>overrun := True, state_q := ST_IDLE\<rparr>))"

definition spi_status :: "spi_dev \<Rightarrow> u32" where
  "spi_status d =
     (if state_q d \<noteq> ST_IDLE then SPI_STATUS_BUSY else 0) OR
     (if length (tx_fifo d) = 16 then SPI_STATUS_TX_FULL else 0) OR
     (if rx_fifo d = [] then SPI_STATUS_RX_EMPTY else 0)"

fun spi_rd :: "mreg \<Rightarrow> spi_dev \<Rightarrow> u32 \<times> spi_dev" where
  "spi_rd (Spi SPI_STATUS) d = (spi_status d, d)"
| "spi_rd (Spi SPI_RXDATA) d = (case rx_fifo d of [] \<Rightarrow> (0, d) | b # bs \<Rightarrow> (ucast b, d\<lparr>rx_fifo := bs\<rparr>))"
| "spi_rd _ d = (0, d)"

fun spi_wr :: "mreg \<Rightarrow> u32 \<Rightarrow> spi_dev \<Rightarrow> spi_dev" where
  "spi_wr (Spi SPI_TXDATA) v d =
     (if length (tx_fifo d) < 16 then d\<lparr>tx_fifo := tx_fifo d @ [ucast v]\<rparr> else d)"
| "spi_wr (Spi SPI_CS) v d = d\<lparr>bus := bus d @ [Sel (v AND 1 = 0)]\<rparr>"
| "spi_wr _ v d = d"

text \<open>Every access is preceded by some clocks, at least one; how many may differ from access to access,
  so the device state carries the number of accesses made.\<close>

definition spi_hw :: "slave \<Rightarrow> nat \<Rightarrow> (nat \<Rightarrow> nat) \<Rightarrow> (nat \<times> spi_dev) hw" where
  "spi_hw slave k gap = \<lparr>
     hw_rd = \<lambda>r (n, d). (let (v, d) = spi_rd r ((spi_clk slave k ^^ Suc (gap n)) d) in (v, Suc n, d)),
     hw_wr = \<lambda>r v (n, d). (Suc n, spi_wr r v ((spi_clk slave k ^^ Suc (gap n)) d)),
     hw_csr_rd = \<lambda>c d. (0, d), hw_csr_op = \<lambda>f c v d. d, hw_wfi = \<lambda>d. d\<rparr>"

section \<open>Flow control\<close>

text \<open>The slave's answers to a run of bytes after the bus history \<open>h\<close>.\<close>

fun replies :: "slave \<Rightarrow> spi_ev list \<Rightarrow> u8 list \<Rightarrow> u8 list" where
  "replies sl h [] = []"
| "replies sl h (b # bs) = sl (h @ [Byte b]) # replies sl (h @ [Byte b]) bs"

lemma replies_append: "replies sl h (xs @ ys) = replies sl h xs @ replies sl (h @ map Byte xs) ys"
  by (induction xs arbitrary: h) auto

lemma length_replies [simp]: "length (replies sl h bs) = length bs"
  by (induction bs arbitrary: h) auto

definition shifting :: "spi_dev \<Rightarrow> u8 list" where
  "shifting d = (case state_q d of ST_SHIFT n b \<Rightarrow> [b] | _ \<Rightarrow> [])"

definition answered :: "spi_dev \<Rightarrow> u8 list" where
  "answered d = (case state_q d of ST_DONE r \<Rightarrow> [r] | _ \<Rightarrow> [])"

text \<open>
  The invariant of an exchange that began with bus history \<open>h\<close> and empty FIFOs, has stored \<open>sent\<close> to
  TXDATA and loaded \<open>got\<close> from RXDATA: nothing is lost or reordered, at most 16 bytes are in flight,
  and no reply has been dropped.
\<close>

definition flow :: "slave \<Rightarrow> spi_ev list \<Rightarrow> u8 list \<Rightarrow> u8 list \<Rightarrow> spi_dev \<Rightarrow> bool" where
  "flow sl h sent got d \<longleftrightarrow>
     (\<exists>fin. bus d = h @ map Byte fin \<and> sent = fin @ shifting d @ tx_fifo d \<and>
            replies sl h fin = got @ rx_fifo d @ answered d) \<and>
     length sent \<le> length got + 16 \<and> \<not> overrun d"

lemma flow_in_flight:
  "flow sl h sent got d \<Longrightarrow> length sent = length got + length (rx_fifo d) + length (answered d) +
     length (shifting d) + length (tx_fifo d)"
  unfolding flow_def by (metis (no_types, lifting) add.assoc length_append length_replies)

lemma flow_clk:
  assumes "flow sl h sent got d"
  shows "flow sl h sent got (spi_clk sl k d)"
proof -
  from assms obtain fin where bus: "bus d = h @ map Byte fin" and sent: "sent = fin @ shifting d @ tx_fifo d"
    and rep: "replies sl h fin = got @ rx_fifo d @ answered d"
    and cap: "length sent \<le> length got + 16" and ov: "\<not> overrun d"
    unfolding flow_def by blast
  have count: "length sent = length got + length (rx_fifo d) + length (answered d) + length (shifting d) + length (tx_fifo d)"
    using assms by (rule flow_in_flight)
  show ?thesis
  proof (cases "state_q d")
    case ST_IDLE
    then show ?thesis
      using assms by (cases "tx_fifo d") (simp_all add: spi_clk_def flow_def shifting_def answered_def)
  next
    case (ST_SHIFT n b)
    show ?thesis
    proof (cases n)
      case 0
      have "bus (spi_clk sl k d) = h @ map Byte (fin @ [b])" and "sent = (fin @ [b]) @ shifting (spi_clk sl k d) @ tx_fifo (spi_clk sl k d)"
        and "replies sl h (fin @ [b]) = got @ rx_fifo (spi_clk sl k d) @ answered (spi_clk sl k d)"
        using ST_SHIFT 0 bus sent rep by (simp_all add: spi_clk_def shifting_def answered_def replies_append)
      moreover have "\<not> overrun (spi_clk sl k d)"
        using ST_SHIFT 0 ov by (simp add: spi_clk_def)
      ultimately show ?thesis using cap unfolding flow_def by blast
    next
      case (Suc m)
      then show ?thesis
        using ST_SHIFT assms by (simp add: spi_clk_def flow_def shifting_def answered_def)
    qed
  next
    case (ST_DONE r)
    then have "length (rx_fifo d) < 16" using count cap by (simp add: answered_def)
    then show ?thesis
      using ST_DONE assms by (simp add: spi_clk_def flow_def shifting_def answered_def)
  qed
qed

lemma flow_clks: "flow sl h sent got d \<Longrightarrow> flow sl h sent got ((spi_clk sl k ^^ n) d)"
  by (induction n) (auto intro: flow_clk)

lemma flow_push:
  assumes "flow sl h sent got d" and "length sent < length got + 16"
  shows "flow sl h (sent @ [ucast v]) got (spi_wr (Spi SPI_TXDATA) v d)"
  using assms flow_in_flight [OF assms(1)] by (auto simp: flow_def shifting_def answered_def)

lemma flow_pop:
  assumes "flow sl h sent got d" and "rx_fifo d = r # rs"
  shows "flow sl h sent (got @ [r]) (snd (spi_rd (Spi SPI_RXDATA) d))"
  using assms by (auto simp: flow_def shifting_def answered_def)

text \<open>The clocks left until the engine has nothing to do.\<close>

definition work :: "nat \<Rightarrow> spi_dev \<Rightarrow> nat" where
  "work k d = (case state_q d of ST_IDLE \<Rightarrow> 0 | ST_SHIFT n b \<Rightarrow> n + 2 | ST_DONE r \<Rightarrow> 1) + (k + 3) * length (tx_fifo d)"

lemma work_clk: "work k (spi_clk sl k d) = work k d - 1"
  by (auto simp: work_def spi_clk_def split: engine.splits list.splits nat.splits)

lemma work_clks: "work k ((spi_clk sl k ^^ n) d) = work k d - n"
  by (induction n) (auto simp: work_clk)

lemma work_zero: "work k d = 0 \<longleftrightarrow> state_q d = ST_IDLE \<and> tx_fifo d = []"
  by (auto simp: work_def split: engine.splits)

section \<open>Accesses on this bus\<close>

lemma clks_clks: "(spi_clk sl k ^^ a) ((spi_clk sl k ^^ b) d) = (spi_clk sl k ^^ (a + b)) d"
  by (simp only: funpow_add comp_apply)

lemma poll_spi:
  "\<exists>N \<ge> n. poll_dev (spi_hw sl k gap) (Spi SPI_STATUS) n (m, d) = (m + n, (spi_clk sl k ^^ N) d)"
proof (induction n arbitrary: m d)
  case 0
  show ?case by (auto intro!: exI [of _ 0])
next
  case (Suc n)
  obtain N where "N \<ge> n" and "poll_dev (spi_hw sl k gap) (Spi SPI_STATUS) n (Suc m, (spi_clk sl k ^^ Suc (gap m)) d)
      = (Suc m + n, (spi_clk sl k ^^ N) ((spi_clk sl k ^^ Suc (gap m)) d))"
    using Suc.IH by blast
  then show ?case
    by (intro exI [of _ "N + Suc (gap m)"]) (simp add: spi_hw_def clks_clks Let_def del: funpow.simps)
qed

text \<open>A wait whose condition holds once the engine has run long enough ends, some clocks later.\<close>

lemma spi_wait:
  assumes "\<And>N. c \<le> N \<Longrightarrow> ok (spi_status ((spi_clk sl k ^^ N) (snd (dev s))))"
  shows "\<exists>v t N. wait_reg (spi_hw sl k gap) (Spi SPI_STATUS) ok s = Some (v, t) \<and> 0 < N \<and>
    snd (dev t) = (spi_clk sl k ^^ N) (snd (dev s)) \<and> ok (spi_status (snd (dev t)))"
proof -
  obtain m d where md: "dev s = (m, d)" by (cases "dev s")
  have read: "hw_rd (spi_hw sl k gap) (Spi SPI_STATUS) (j, e) =
      (spi_status ((spi_clk sl k ^^ Suc (gap j)) e), Suc j, (spi_clk sl k ^^ Suc (gap j)) e)" for j e
    by (simp add: spi_hw_def Let_def)
  obtain N where N: "N \<ge> c" "poll_dev (spi_hw sl k gap) (Spi SPI_STATUS) c (m, d) = (m + c, (spi_clk sl k ^^ N) d)"
    using poll_spi by blast
  have "ok (fst (hw_rd (spi_hw sl k gap) (Spi SPI_STATUS) (poll_dev (spi_hw sl k gap) (Spi SPI_STATUS) c (dev s))))"
    using assms [of "Suc (gap (m + c)) + N"] N by (simp add: md read clks_clks del: funpow.simps)
  from wait_reg_ends [where ok = ok, OF this] obtain i v t where w: "wait_reg (spi_hw sl k gap) (Spi SPI_STATUS) ok s = Some (v, t)"
    and v: "v = fst (hw_rd (spi_hw sl k gap) (Spi SPI_STATUS) (poll_dev (spi_hw sl k gap) (Spi SPI_STATUS) i (dev s)))" "ok v"
    and t: "dev t = poll_dev (spi_hw sl k gap) (Spi SPI_STATUS) (Suc i) (dev s)" by blast
  obtain M where M: "poll_dev (spi_hw sl k gap) (Spi SPI_STATUS) i (m, d) = (m + i, (spi_clk sl k ^^ M) d)"
    using poll_spi by blast
  have "poll_dev hw r (Suc n) e = snd (hw_rd hw r (poll_dev hw r n e))" for hw :: "(nat \<times> spi_dev) hw" and r n e
    by (induction n arbitrary: e) auto
  then have "dev t = (Suc (m + i), (spi_clk sl k ^^ Suc (gap (m + i))) ((spi_clk sl k ^^ M) d))"
    and "v = spi_status (snd (dev t))"
    using t v M by (simp_all only: md read snd_conv fst_conv)
  then show ?thesis
    using w v(2) md by (intro exI [of _ v] exI [of _ t] exI [of _ "Suc (gap (m + i)) + M"])
      (simp add: clks_clks del: funpow.simps)
qed

text \<open>Single accesses, up to the clocks that precede them.\<close>

lemma spi_wr_dev:
  "\<exists>N > 0. snd (dev (wr (spi_hw sl k gap) r v s)) = spi_wr r v ((spi_clk sl k ^^ N) (snd (dev s)))"
  by (cases "dev s") (auto simp: wr_def spi_hw_def simp del: funpow.simps)

lemma spi_rd_dev:
  "\<exists>v t N. rd (spi_hw sl k gap) r s = (v, t) \<and>
     (v, snd (dev t)) = spi_rd r ((spi_clk sl k ^^ N) (snd (dev s)))"
  by (cases "dev s"; cases "spi_rd r ((spi_clk sl k ^^ Suc (gap (fst (dev s)))) (snd (dev s)))")
     (auto simp: rd_def spi_hw_def Let_def simp del: funpow.simps intro!: exI [of _ "Suc (gap (fst (dev s)))"])

lemma room_status: "spi_room (spi_status d) \<longleftrightarrow> length (tx_fifo d) \<noteq> 16"
  by (simp add: spi_room_def spi_status_def SPI_STATUS_TX_FULL_def SPI_STATUS_BUSY_def SPI_STATUS_RX_EMPTY_def)

lemma idle_status: "spi_idle (spi_status d) \<longleftrightarrow> state_q d = ST_IDLE"
  by (simp add: spi_idle_def spi_status_def SPI_STATUS_TX_FULL_def SPI_STATUS_BUSY_def SPI_STATUS_RX_EMPTY_def)

lemma avail_status: "spi_avail (spi_status d) \<longleftrightarrow> rx_fifo d \<noteq> []"
  by (simp add: spi_avail_def spi_status_def SPI_STATUS_TX_FULL_def SPI_STATUS_BUSY_def SPI_STATUS_RX_EMPTY_def)

lemma ucast_ucast_u8 [simp]: "ucast (ucast b AND 0xFF :: u32) = (b :: u8)"
  by (rule bit_eqI) (auto simp: bit_simps and_masks)

lemma ucast_down_up [simp]: "ucast (ucast b :: u32) = (b :: u8)"
  by (rule bit_eqI) (auto simp: bit_simps)

text \<open>A pending reply can be waited for and popped.\<close>

lemma spi_take:
  assumes flow: "flow sl h sent got (snd (dev s))" and "length got < length sent"
  shows "\<exists>v s1 r s2. wait_reg (spi_hw sl k gap) (Spi SPI_STATUS) spi_avail s = Some (v, s1) \<and>
    rd (spi_hw sl k gap) (Spi SPI_RXDATA) s1 = (ucast r, s2) \<and> flow sl h sent (got @ [r]) (snd (dev s2))"
proof -
  have "rx_fifo ((spi_clk sl k ^^ N) (snd (dev s))) \<noteq> []" if "work k (snd (dev s)) \<le> N" for N
  proof -
    let ?d = "(spi_clk sl k ^^ N) (snd (dev s))"
    have "state_q ?d = ST_IDLE" and "tx_fifo ?d = []"
      using that work_zero [of k ?d] by (simp_all add: work_clks)
    then show ?thesis
      using flow_in_flight [OF flow_clks [OF flow, of N k]] assms(2)
      by (auto simp: shifting_def answered_def)
  qed
  then have "\<And>N. work k (snd (dev s)) \<le> N \<Longrightarrow> spi_avail (spi_status ((spi_clk sl k ^^ N) (snd (dev s))))"
    by (simp only: avail_status not_False_eq_True)
  from spi_wait [where ok = spi_avail, OF this] obtain v s1 M
    where w: "wait_reg (spi_hw sl k gap) (Spi SPI_STATUS) spi_avail s = Some (v, s1)"
      and s1: "snd (dev s1) = (spi_clk sl k ^^ M) (snd (dev s))" and "spi_avail (spi_status (snd (dev s1)))"
    by blast
  then have av: "rx_fifo (snd (dev s1)) \<noteq> []" by (simp only: avail_status not_False_eq_True)
  have f1: "flow sl h sent got (snd (dev s1))"
    unfolding s1 by (rule flow_clks [OF flow])
  obtain x s2 N where r: "rd (spi_hw sl k gap) (Spi SPI_RXDATA) s1 = (x, s2)"
    and x: "(x, snd (dev s2)) = spi_rd (Spi SPI_RXDATA) ((spi_clk sl k ^^ N) (snd (dev s1)))"
    using spi_rd_dev by blast
  have "rx_fifo ((spi_clk sl k ^^ N) d) \<noteq> []" if "rx_fifo d \<noteq> []" for d
    using that by (induction N) (auto simp: spi_clk_def split: engine.splits list.splits nat.splits)
  with av obtain b bs where b: "rx_fifo ((spi_clk sl k ^^ N) (snd (dev s1))) = b # bs"
    by (meson neq_Nil_conv)
  have "flow sl h sent (got @ [b]) (snd (dev s2))"
    using flow_pop [OF flow_clks [OF f1] b] x by (metis snd_conv)
  moreover have "x = ucast b" using x b by simp
  ultimately show ?thesis using w r by blast
qed

text \<open>The bytes a buffered exchange sends.\<close>

definition payload :: "u8 list option \<Rightarrow> nat \<Rightarrow> u8 list" where
  "payload tx len = (case tx of Some bs \<Rightarrow> take len bs | None \<Rightarrow> replicate len 0xFF)"

lemma payload_nth:
  "i < len \<Longrightarrow> (\<forall>bs. tx = Some bs \<longrightarrow> len \<le> length bs) \<Longrightarrow>
   (case tx of Some bs \<Rightarrow> ucast (bs ! i) | None \<Rightarrow> (0xFF :: u32)) = ucast (payload tx len ! i)"
  by (auto simp: payload_def split: option.splits)

lemma length_payload: "(\<forall>bs. tx = Some bs \<longrightarrow> len \<le> length bs) \<Longrightarrow> length (payload tx len) = len"
  by (auto simp: payload_def split: option.splits)

lemma spi_fill_flow:
  assumes tx: "\<forall>bs. tx = Some bs \<longrightarrow> len \<le> length bs"
  shows "flow sl h (take pushed (payload tx len)) got (snd (dev s)) \<Longrightarrow> length got = popped \<Longrightarrow> pushed \<le> len \<Longrightarrow>
    \<exists>p s'. spi_fill (spi_hw sl k gap) tx len pushed popped s = (p, s') \<and>
      p = min len (popped + 16) \<and> flow sl h (take p (payload tx len)) got (snd (dev s'))"
proof (induction "len - pushed" arbitrary: pushed s rule: less_induct)
  case less
  let ?hw = "spi_hw sl k gap"
  have sent: "length (take pushed (payload tx len)) = pushed"
    using less.prems(3) length_payload [OF tx] by simp
  have window: "popped \<le> pushed" "pushed \<le> popped + 16"
    using flow_in_flight [OF less.prems(1)] less.prems(1,2) sent by (auto simp: flow_def)
  show ?case
  proof (cases "pushed < len \<and> pushed - popped < 16")
    case False
    then have "pushed = min len (popped + 16)" using window less.prems(3) by auto
    then show ?thesis
      using False less.prems(1) by (subst spi_fill.simps) auto
  next
    case True
    obtain x s1 N where r: "rd ?hw (Spi SPI_STATUS) s = (x, s1)"
      and x: "(x, snd (dev s1)) = spi_rd (Spi SPI_STATUS) ((spi_clk sl k ^^ N) (snd (dev s)))"
      using spi_rd_dev by blast
    have f1: "flow sl h (take pushed (payload tx len)) got (snd (dev s1))"
      using x flow_clks [OF less.prems(1)] by simp
    have open_window: "pushed < popped + 16" using True window by linarith
    have "length (tx_fifo (snd (dev s1))) < 16"
      using flow_in_flight [OF f1] sent less.prems(2) window True by linarith
    then have room: "spi_room x" using x by (simp add: room_status)
    define v where "v = (case tx of Some bs \<Rightarrow> ucast (bs ! pushed) | None \<Rightarrow> (0xFF :: u32))"
    have v: "v = ucast (payload tx len ! pushed)"
      unfolding v_def using True tx by (intro payload_nth) auto
    let ?s2 = "wr ?hw (Spi SPI_TXDATA) v s1"
    obtain M where "snd (dev ?s2) = spi_wr (Spi SPI_TXDATA) v ((spi_clk sl k ^^ M) (snd (dev s1)))"
      using spi_wr_dev by blast
    then have "flow sl h (take pushed (payload tx len) @ [ucast v]) got (snd (dev ?s2))"
      using flow_push [OF flow_clks [OF f1, of M k], of v] sent less.prems(2) open_window by simp
    moreover have "take pushed (payload tx len) @ [ucast v] = take (Suc pushed) (payload tx len)"
      using True length_payload [OF tx] by (auto simp: take_Suc_conv_app_nth v)
    ultimately have "flow sl h (take (Suc pushed) (payload tx len)) got (snd (dev ?s2))" by simp
    then obtain p s' where "spi_fill ?hw tx len (Suc pushed) popped ?s2 = (p, s')"
      and "p = min len (popped + 16)" "flow sl h (take p (payload tx len)) got (snd (dev s'))"
      using less.hyps [of "Suc pushed" ?s2] True less.prems(2) by (auto simp: diff_less_mono2)
    then show ?thesis
      using True r room by (subst spi_fill.simps) (simp add: v_def)
  qed
qed

lemma spi_buf_loop_flow:
  assumes tx: "\<forall>bs. tx = Some bs \<longrightarrow> len \<le> length bs"
  shows "flow sl h (take pushed (payload tx len)) got (snd (dev s)) \<Longrightarrow> length got = popped \<Longrightarrow> pushed \<le> len \<Longrightarrow>
    \<exists>bs t. spi_buf_loop (spi_hw sl k gap) tx len pushed popped s = Some (bs, t) \<and>
      length (got @ bs) = len \<and> flow sl h (payload tx len) (got @ bs) (snd (dev t))"
proof (induction "len - popped" arbitrary: popped pushed got s rule: less_induct)
  case less
  let ?hw = "spi_hw sl k gap"
  have sent: "length (take pushed (payload tx len)) = pushed"
    using less.prems(3) length_payload [OF tx] by simp
  have pp: "popped \<le> pushed"
    using flow_in_flight [OF less.prems(1)] less.prems(2) sent by simp
  show ?case
  proof (cases "popped < len")
    case False
    then have "pushed = len" "popped = len" using pp less.prems(3) by auto
    then show ?thesis
      using False less.prems(1,2) length_payload [OF tx] by (subst spi_buf_loop.simps) simp
  next
    case True
    obtain p s1 where fill: "spi_fill ?hw tx len pushed popped s = (p, s1)" and p: "p = min len (popped + 16)"
      and f1: "flow sl h (take p (payload tx len)) got (snd (dev s1))"
      using spi_fill_flow [OF tx less.prems] by blast
    have "length got < length (take p (payload tx len))"
      using True p less.prems(2) length_payload [OF tx] by simp
    from spi_take [OF f1 this] obtain v s2 r s3 where w: "wait_reg ?hw (Spi SPI_STATUS) spi_avail s1 = Some (v, s2)"
      and rx: "rd ?hw (Spi SPI_RXDATA) s2 = (ucast r, s3)"
      and f3: "flow sl h (take p (payload tx len)) (got @ [r]) (snd (dev s3))" by blast
    obtain bs t where "spi_buf_loop ?hw tx len p (Suc popped) s3 = Some (bs, t)"
      and "length ((got @ [r]) @ bs) = len" "flow sl h (payload tx len) ((got @ [r]) @ bs) (snd (dev t))"
      using less.hyps [of "Suc popped", OF _ f3] True p less.prems(2) by (auto simp: diff_less_mono2)
    then show ?thesis
      using True fill w rx by (subst spi_buf_loop.simps) (auto intro!: exI [of _ "r # bs"])
  qed
qed

text \<open>An engine at rest: nothing queued, nothing unread.\<close>

definition at_rest :: "spi_dev \<Rightarrow> bool" where
  "at_rest d \<longleftrightarrow> tx_fifo d = [] \<and> rx_fifo d = [] \<and> state_q d = ST_IDLE \<and> \<not> overrun d"

lemma at_rest_flow: "at_rest d \<Longrightarrow> flow sl (bus d) [] [] d"
  by (simp add: at_rest_def flow_def shifting_def answered_def)

lemma flow_at_rest:
  assumes "flow sl h sent got d" and "length got = length sent"
  shows "at_rest d" and "bus d = h @ map Byte sent" and "got = replies sl h sent"
proof -
  have "tx_fifo d = []" "rx_fifo d = []" "shifting d = []" "answered d = []"
    using flow_in_flight [OF assms(1)] assms(2) by simp_all
  moreover from this have "state_q d = ST_IDLE"
    by (cases "state_q d") (simp_all add: shifting_def answered_def)
  ultimately show "at_rest d" "bus d = h @ map Byte sent" "got = replies sl h sent"
    using assms(1) by (auto simp: flow_def at_rest_def)
qed

lemma drained_clk: "tx_fifo d = [] \<Longrightarrow> tx_fifo (spi_clk sl k d) = []"
  by (auto simp: spi_clk_def split: engine.splits nat.splits)

text \<open>The one-byte round trip from rest.\<close>

lemma spi_transfer_rest:
  assumes rest: "at_rest (snd (dev s))"
  shows "\<exists>t. spi_transfer (spi_hw sl k gap) b s = Some (sl (bus (snd (dev s)) @ [Byte b]), t) \<and>
    at_rest (snd (dev t)) \<and> bus (snd (dev t)) = bus (snd (dev s)) @ [Byte b]"
proof -
  let ?hw = "spi_hw sl k gap" and ?h = "bus (snd (dev s))"
  have "spi_clk sl k d = d" if "at_rest d" for d
    using that by (simp add: at_rest_def spi_clk_def)
  then have still: "(spi_clk sl k ^^ n) d = d" if "at_rest d" for n d
    using that by (induction n) auto
  obtain v s1 N where w1: "wait_reg ?hw (Spi SPI_STATUS) spi_room s = Some (v, s1)"
    and "snd (dev s1) = (spi_clk sl k ^^ N) (snd (dev s))"
    using spi_wait [where ok = spi_room and s = s and c = 0 and sl = sl and k = k and gap = gap] still [OF rest] rest
    by (auto simp: room_status at_rest_def)
  then have s1: "snd (dev s1) = snd (dev s)" using still [OF rest] by simp
  let ?s2 = "wr ?hw (Spi SPI_TXDATA) (ucast b) s1"
  have s2: "snd (dev ?s2) = (snd (dev s))\<lparr>tx_fifo := [b]\<rparr>"
    using spi_wr_dev [of sl k gap "Spi SPI_TXDATA" "ucast b" s1] still [OF rest] rest
    by (auto simp: s1 at_rest_def)
  have f2: "flow sl ?h [b] [] (snd (dev ?s2))"
    using flow_push [OF at_rest_flow [OF rest], of sl "ucast b"] rest by (simp add: s2 at_rest_def)
  have "spi_idle (spi_status ((spi_clk sl k ^^ n) (snd (dev ?s2))))" if "work k (snd (dev ?s2)) \<le> n" for n
    using that work_zero [of k "(spi_clk sl k ^^ n) (snd (dev ?s2))"] by (simp add: work_clks idle_status)
  from spi_wait [where ok = spi_idle, OF this] obtain v2 s3 M
    where w3: "wait_reg ?hw (Spi SPI_STATUS) spi_idle ?s2 = Some (v2, s3)" and "0 < M"
      and s3: "snd (dev s3) = (spi_clk sl k ^^ M) (snd (dev ?s2))" and "spi_idle (spi_status (snd (dev s3)))"
    by blast
  then have idle: "state_q (snd (dev s3)) = ST_IDLE" by (simp only: idle_status)
  have f3: "flow sl ?h [b] [] (snd (dev s3))" unfolding s3 by (rule flow_clks [OF f2])
  have "tx_fifo ((spi_clk sl k ^^ Suc n) (snd (dev ?s2))) = []" for n
  proof (induction n)
    case 0
    then show ?case using rest by (simp add: s2 spi_clk_def at_rest_def)
  next
    case (Suc n)
    then show ?case using drained_clk by simp
  qed
  then have tx: "tx_fifo (snd (dev s3)) = []" using s3 \<open>0 < M\<close> by (metis gr0_implies_Suc)
  have "length (rx_fifo (snd (dev s3))) = 1"
    using flow_in_flight [OF f3] idle tx by (simp add: shifting_def answered_def)
  then obtain r where r: "rx_fifo (snd (dev s3)) = [r]" by (auto simp: length_Suc_conv)
  obtain x s4 K where rx: "rd ?hw (Spi SPI_RXDATA) s3 = (x, s4)"
    and x: "(x, snd (dev s4)) = spi_rd (Spi SPI_RXDATA) ((spi_clk sl k ^^ K) (snd (dev s3)))"
    using spi_rd_dev by blast
  have "(spi_clk sl k ^^ K) (snd (dev s3)) = snd (dev s3)"
    by (induction K) (simp_all add: spi_clk_def idle tx)
  then have "x = ucast r" and "snd (dev s4) = snd (spi_rd (Spi SPI_RXDATA) (snd (dev s3)))"
    using x r by simp_all
  then have f4: "flow sl ?h [b] [r] (snd (dev s4))"
    using flow_pop [OF f3 r] by simp
  have "spi_transfer ?hw b s = Some (r, s4)"
    using w1 w3 rx \<open>x = ucast r\<close> by (simp add: spi_transfer_def Let_def)
  with flow_at_rest [OF f4] show ?thesis by simp
qed

text \<open>A buffered exchange from rest.\<close>

lemma spi_buf_rest:
  assumes "at_rest (snd (dev s))" and "\<forall>bs. tx = Some bs \<longrightarrow> len \<le> length bs"
  shows "\<exists>bs t. spi_transfer_buf (spi_hw sl k gap) tx len s = Some (bs, t) \<and>
    bs = replies sl (bus (snd (dev s))) (payload tx len) \<and> at_rest (snd (dev t)) \<and>
    bus (snd (dev t)) = bus (snd (dev s)) @ map Byte (payload tx len)"
proof -
  have "flow sl (bus (snd (dev s))) (take 0 (payload tx len)) [] (snd (dev s))"
    using at_rest_flow [OF assms(1)] by simp
  from spi_buf_loop_flow [OF assms(2) this, of 0 k gap] obtain bs t
    where "spi_buf_loop (spi_hw sl k gap) tx len 0 0 s = Some (bs, t)" and "length bs = len"
      and "flow sl (bus (snd (dev s))) (payload tx len) bs (snd (dev t))" by auto
  with flow_at_rest [OF this(3)] length_payload [OF assms(2)] show ?thesis
    by (simp add: spi_transfer_buf_def)
qed

section \<open>Properties\<close>

text \<open>On the engine at rest, \<open>spi_transfer\<close> returns the slave's answer to exactly that byte, with the
  engine at rest again.\<close>

theorem spi_transfer_round_trip:
  assumes "at_rest (snd (dev s))"
  shows "\<exists>t. spi_transfer (spi_hw sl k gap) b s = Some (sl (bus (snd (dev s)) @ [Byte b]), t) \<and>
    at_rest (snd (dev t)) \<and> bus (snd (dev t)) = bus (snd (dev s)) @ [Byte b]"
  using assms by (rule spi_transfer_rest)

theorem spi_transfer_round_trip_witness:
  "\<exists>t. spi_transfer (spi_hw (\<lambda>h. of_nat (length h)) 7 (\<lambda>n. 2)) 0x9F
      \<lparr>dev = (0, \<lparr>tx_fifo = [], rx_fifo = [], state_q = ST_IDLE, bus = [Sel True], overrun = False\<rparr>), evs = []\<rparr>
    = Some (2, t)"
  using spi_transfer_round_trip [where sl = "\<lambda>h. of_nat (length h)" and k = 7 and gap = "\<lambda>n. 2" and b = "0x9F" and
      s = "\<lparr>dev = (0, \<lparr>tx_fifo = [], rx_fifo = [], state_q = ST_IDLE, bus = [Sel True], overrun = False\<rparr>), evs = []\<rparr>"]
  by (auto simp: at_rest_def)

text \<open>C5: on the FIFO engine, with any slave, any byte time and any spacing of the accesses, a buffered
  exchange that starts at rest returns; every byte of the buffer (0xFF fillers without one) has gone
  out in order, the bytes received are the slave's answers to them in order, no reply was dropped by
  a full FIFO, and the engine is at rest again.\<close>

theorem spi_transfer_buf_exchanges:
  assumes "at_rest (snd (dev s))" and "\<forall>bs. tx = Some bs \<longrightarrow> len \<le> length bs"
  shows "\<exists>bs t. spi_transfer_buf (spi_hw sl k gap) tx len s = Some (bs, t) \<and>
    bs = replies sl (bus (snd (dev s))) (payload tx len) \<and> at_rest (snd (dev t)) \<and>
    bus (snd (dev t)) = bus (snd (dev s)) @ map Byte (payload tx len)"
  using assms by (rule spi_buf_rest)

theorem spi_transfer_buf_exchanges_witness:
  "\<exists>t. spi_transfer_buf (spi_hw (\<lambda>h. of_nat (length h)) 3 (\<lambda>n. n mod 2)) (Some [7, 8, 9]) 3
      \<lparr>dev = (0, \<lparr>tx_fifo = [], rx_fifo = [], state_q = ST_IDLE, bus = [], overrun = False\<rparr>), evs = []\<rparr>
    = Some ([1, 2, 3], t)"
  using spi_transfer_buf_exchanges [where tx = "Some [7, 8, 9]" and len = 3 and k = 3 and gap = "\<lambda>n. n mod 2" and
      sl = "\<lambda>h. of_nat (length h)" and
      s = "\<lparr>dev = (0, \<lparr>tx_fifo = [], rx_fifo = [], state_q = ST_IDLE, bus = [], overrun = False\<rparr>), evs = []\<rparr>"]
  by (auto simp: at_rest_def payload_def)

end
