(* ===== verification/Spi_Bus.thy ===== *)
theory Spi_Bus
  imports Spi
begin

text \<open>
  What the SPI drivers of the slaves share: runs of single-byte transfers, exchanges as events added to
  the bus of an engine that goes from rest to rest, and the bus read as chip-select frames.
\<close>

text \<open>A run of one-byte transfers whose answers are dropped: the command and address bytes.\<close>

fun spi_bytes :: "'d hw \<Rightarrow> u8 list \<Rightarrow> ('d, 'z) m \<Rightarrow> ('d, 'z) m option" where
  "spi_bytes hw [] s = Some s"
| "spi_bytes hw (b # bs) s = do { (_, s) \<leftarrow> spi_transfer hw b s; spi_bytes hw bs s }"

section \<open>Frames on the bus\<close>

text \<open>From rest to rest, with the events \<open>es\<close> added to the bus.\<close>

definition put_on_bus :: "(nat \<times> spi_dev, 'z) m \<Rightarrow> (nat \<times> spi_dev, 'z) m \<Rightarrow> spi_ev list \<Rightarrow> bool" where
  "put_on_bus s t es \<longleftrightarrow> at_rest (snd (dev t)) \<and> bus (snd (dev t)) = bus (snd (dev s)) @ es"

lemma put_on_bus_trans: "put_on_bus s t es \<Longrightarrow> put_on_bus t u es' \<Longrightarrow> put_on_bus s u (es @ es')"
  by (simp add: put_on_bus_def)

lemma cs_bus:
  assumes "at_rest (snd (dev s))"
  shows "put_on_bus s (wr (spi_hw sl k gap) (Spi SPI_CS) v s) [Sel (v AND 1 = 0)]"
proof -
  have "spi_clk sl k d = d" if "at_rest d" for d
    using that by (simp add: at_rest_def spi_clk_def)
  then have "(spi_clk sl k ^^ n) (snd (dev s)) = snd (dev s)" for n
    using assms by (induction n) auto
  with assms spi_wr_dev [of sl k gap "Spi SPI_CS" v s] show ?thesis
    by (auto simp: put_on_bus_def at_rest_def)
qed

lemma select_bus: "at_rest (snd (dev s)) \<Longrightarrow> put_on_bus s (spi_select (spi_hw sl k gap) s) [Sel True]"
  using cs_bus [of s sl k gap 0] by (simp add: spi_select_def)

lemma deselect_bus: "at_rest (snd (dev s)) \<Longrightarrow> put_on_bus s (spi_deselect (spi_hw sl k gap) s) [Sel False]"
  using cs_bus [of s sl k gap 1] by (simp add: spi_deselect_def)

lemma transfer_bus:
  "at_rest (snd (dev s)) \<Longrightarrow>
   \<exists>t. spi_transfer (spi_hw sl k gap) b s = Some (sl (bus (snd (dev s)) @ [Byte b]), t) \<and> put_on_bus s t [Byte b]"
  using spi_transfer_rest [of s sl k gap b] by (auto simp: put_on_bus_def)

lemma spi_bytes_bus:
  "at_rest (snd (dev s)) \<Longrightarrow> \<exists>t. spi_bytes (spi_hw sl k gap) bs s = Some t \<and> put_on_bus s t (map Byte bs)"
proof (induction bs arbitrary: s)
  case Nil
  then show ?case by (simp add: put_on_bus_def)
next
  case (Cons b bs)
  obtain u where u: "spi_transfer (spi_hw sl k gap) b s = Some (sl (bus (snd (dev s)) @ [Byte b]), u)"
    "put_on_bus s u [Byte b]"
    using transfer_bus [OF Cons.prems] by blast
  then have "at_rest (snd (dev u))" by (simp add: put_on_bus_def)
  from Cons.IH [OF this] obtain t where "spi_bytes (spi_hw sl k gap) bs u = Some t" "put_on_bus u t (map Byte bs)"
    by blast
  with u put_on_bus_trans [OF u(2) this(2)] show ?case by simp
qed

lemma spi_send_bus:
  "at_rest (snd (dev s)) \<Longrightarrow> \<exists>t. spi_send (spi_hw sl k gap) bs s = Some t \<and> put_on_bus s t (map Byte bs)"
  using spi_buf_rest [of s "Some bs" "length bs" sl k gap]
  by (auto simp: spi_send_def payload_def put_on_bus_def)

lemma spi_read_bus:
  "at_rest (snd (dev s)) \<Longrightarrow>
   \<exists>t. spi_read (spi_hw sl k gap) n s = Some (replies sl (bus (snd (dev s))) (replicate n 0xFF), t) \<and>
       put_on_bus s t (replicate n (Byte 0xFF))"
  using spi_buf_rest [of s None n sl k gap] by (auto simp: spi_read_def payload_def put_on_bus_def)

text \<open>A whole frame: select, the bytes, deselect.\<close>

definition frame :: "u8 list \<Rightarrow> spi_ev list" where
  "frame bs = Sel True # map Byte bs @ [Sel False]"

section \<open>The bus as frames\<close>

text \<open>The frames completed so far, and the bytes of the one under way when the chip is selected.\<close>

fun bus_step :: "spi_ev \<Rightarrow> u8 list list \<times> u8 list option \<Rightarrow> u8 list list \<times> u8 list option" where
  "bus_step (Sel True) (fs, cur) = (fs, Some [])"
| "bus_step (Sel False) (fs, cur) = (case cur of Some bs \<Rightarrow> (fs @ [bs], None) | None \<Rightarrow> (fs, None))"
| "bus_step (Byte b) (fs, cur) = (fs, map_option (\<lambda>bs. bs @ [b]) cur)"

definition parse :: "spi_ev list \<Rightarrow> u8 list list \<times> u8 list option" where
  "parse h = fold bus_step h ([], None)"

definition deselected :: "spi_ev list \<Rightarrow> bool" where
  "deselected h \<longleftrightarrow> snd (parse h) = None"

lemma fold_bytes: "fold bus_step (map Byte bs) (fs, Some cur) = (fs, Some (cur @ bs))"
  by (induction bs arbitrary: cur) auto

lemma replies_replicate:
  "replies sl h (replicate n b) = map (\<lambda>i. sl (h @ replicate (Suc i) (Byte b))) [0..<n]"
proof (induction n arbitrary: h)
  case (Suc n)
  have "map (\<lambda>i. sl (h @ replicate (Suc i) (Byte b))) [0..<Suc n] =
      sl (h @ [Byte b]) # map (\<lambda>i. sl (h @ replicate (Suc (Suc i)) (Byte b))) [0..<n]"
    by (simp add: upt_rec [of 0 "Suc n"] map_Suc_upt [symmetric] comp_def del: upt_Suc)
  then show ?case by (simp add: Suc.IH)
qed simp

end
