(* ===== verification/W25q.thy ===== *)
theory W25q
  imports Spi_Bus
begin

text \<open>
  \<open>sim/sw/common/w25q.h\<close>: the SPI NOR flash driver.  One command is one chip-select frame.  The last
  sections give the frames their meaning on a flash array and prove reads, writes and erases correct on the
  engine of \<open>Spi\<close>, for a chip that is busy for an arbitrary time after each program or erase and takes no
  command but READ STATUS while it is.
\<close>

definition W25Q_PAGE_SIZE :: u32 where "W25Q_PAGE_SIZE = 256"
definition W25Q_CMD_WREN :: u8 where "W25Q_CMD_WREN = 0x06"
definition W25Q_CMD_RDSR :: u8 where "W25Q_CMD_RDSR = 0x05"
definition W25Q_CMD_READ :: u8 where "W25Q_CMD_READ = 0x03"
definition W25Q_CMD_PP :: u8 where "W25Q_CMD_PP = 0x02"
definition W25Q_CMD_SE :: u8 where "W25Q_CMD_SE = 0x20"
definition W25Q_CMD_BE32K :: u8 where "W25Q_CMD_BE32K = 0x52"
definition W25Q_CMD_BE64K :: u8 where "W25Q_CMD_BE64K = 0xD8"
definition W25Q_CMD_CE :: u8 where "W25Q_CMD_CE = 0xC7"
definition W25Q_CMD_JEDEC_ID :: u8 where "W25Q_CMD_JEDEC_ID = 0x9F"
definition W25Q_CMD_PWRDN :: u8 where "W25Q_CMD_PWRDN = 0xB9"
definition W25Q_CMD_RELEASE :: u8 where "W25Q_CMD_RELEASE = 0xAB"
definition W25Q_SR_WIP :: u8 where "W25Q_SR_WIP = 0x01"
definition W25Q_SR_WEL :: u8 where "W25Q_SR_WEL = 0x02"

definition w25q_begin_hz :: "'d hw \<Rightarrow> u32 \<Rightarrow> ('d, 'z) m \<Rightarrow> ('d, 'z) m" where
  "w25q_begin_hz hw hz s = spi_begin_hz hw hz 0 s"

definition w25q_status :: "'d hw \<Rightarrow> ('d, 'z) m \<Rightarrow> (u8 \<times> ('d, 'z) m) option" where
  "w25q_status hw s = do {
     let s = spi_select hw s;
     (_, s) \<leftarrow> spi_transfer hw W25Q_CMD_RDSR s;
     (st, s) \<leftarrow> spi_transfer hw 0xFF s;
     let s = spi_deselect hw s;
     Some (st, s) }"

definition w25q_busy :: "'d hw \<Rightarrow> ('d, 'z) m \<Rightarrow> (bool \<times> ('d, 'z) m) option" where
  "w25q_busy hw s = do { (st, s) \<leftarrow> w25q_status hw s; Some (st AND W25Q_SR_WIP \<noteq> 0, s) }"

partial_function (option) w25q_wait_ready :: "'d hw \<Rightarrow> ('d, 'z) m \<Rightarrow> ('d, 'z) m option" where
  "w25q_wait_ready hw s = do {
     (busy, s) \<leftarrow> w25q_busy hw s;
     if busy then w25q_wait_ready hw s else Some s }"

definition w25q_jedec_id :: "'d hw \<Rightarrow> ('d, 'z) m \<Rightarrow> (u32 \<times> ('d, 'z) m) option" where
  "w25q_jedec_id hw s = do {
     let s = spi_select hw s;
     (_, s) \<leftarrow> spi_transfer hw W25Q_CMD_JEDEC_ID s;
     (ids, s) \<leftarrow> spi_read hw 3 s;
     let s = spi_deselect hw s;
     Some (push_bit 16 (ucast (ids ! 0)) OR push_bit 8 (ucast (ids ! 1)) OR ucast (ids ! 2), s) }"

definition w25q_present :: "'d hw \<Rightarrow> ('d, 'z) m \<Rightarrow> (bool \<times> ('d, 'z) m) option" where
  "w25q_present hw s = do { (v, s) \<leftarrow> w25q_jedec_id hw s; Some (drop_bit 16 v = 0xEF, s) }"

text \<open>The three address bytes, most significant first.\<close>

definition addr_bytes :: "u32 \<Rightarrow> u8 list" where
  "addr_bytes addr = [ucast (drop_bit 16 addr), ucast (drop_bit 8 addr), ucast addr]"

definition w25q_read :: "'d hw \<Rightarrow> u32 \<Rightarrow> nat \<Rightarrow> ('d, 'z) m \<Rightarrow> (u8 list \<times> ('d, 'z) m) option" where
  "w25q_read hw addr len s = do {
     let hdr = W25Q_CMD_READ # addr_bytes addr;
     let s = spi_select hw s;
     s \<leftarrow> spi_send hw hdr s;
     (buf, s) \<leftarrow> spi_read hw len s;
     let s = spi_deselect hw s;
     Some (buf, s) }"

definition w25q_wren :: "'d hw \<Rightarrow> ('d, 'z) m \<Rightarrow> ('d, 'z) m option" where
  "w25q_wren hw s = do {
     let s = spi_select hw s;
     (_, s) \<leftarrow> spi_transfer hw W25Q_CMD_WREN s;
     Some (spi_deselect hw s) }"

text \<open>The bytes of the next page program: to the end of the page of \<open>addr\<close>, or all that is left.\<close>

definition page_chunk :: "u32 \<Rightarrow> nat \<Rightarrow> nat" where
  "page_chunk addr len =
     (let page_off = addr mod W25Q_PAGE_SIZE; chunk = unat (W25Q_PAGE_SIZE - page_off)
      in if chunk > len then len else chunk)"

lemma page_chunk_pos: "0 < len \<Longrightarrow> 0 < page_chunk addr len"
proof -
  assume "0 < len"
  have "unat (addr mod 256) < 256" by (simp add: unat_mod_distrib)
  then have "unat (256 - addr mod 256) = 256 - unat (addr mod 256)"
    by (simp add: unat_sub word_le_nat_alt)
  with \<open>0 < len\<close> \<open>unat (addr mod 256) < 256\<close> show ?thesis
    by (simp add: page_chunk_def W25Q_PAGE_SIZE_def Let_def)
qed

function w25q_write :: "'d hw \<Rightarrow> u32 \<Rightarrow> u8 list \<Rightarrow> ('d, 'z) m \<Rightarrow> ('d, 'z) m option" where
  "w25q_write hw addr buf s =
     (if buf = [] then Some s else do {
        let chunk = page_chunk addr (length buf);
        s \<leftarrow> w25q_wren hw s;
        let s = spi_select hw s;
        s \<leftarrow> spi_bytes hw (W25Q_CMD_PP # addr_bytes addr) s;
        s \<leftarrow> spi_send hw (take chunk buf) s;
        let s = spi_deselect hw s;
        s \<leftarrow> w25q_wait_ready hw s;
        w25q_write hw (addr + of_nat chunk) (drop chunk buf) s })"
  by pat_completeness auto
termination
  by (relation "measure (\<lambda>(hw, addr, buf, s). length buf)") (auto simp: page_chunk_pos)

declare w25q_write.simps [simp del]

definition w25q_write_page :: "'d hw \<Rightarrow> u32 \<Rightarrow> u8 list \<Rightarrow> ('d, 'z) m \<Rightarrow> ('d, 'z) m option" where
  "w25q_write_page hw page buf s = w25q_write hw (page * W25Q_PAGE_SIZE) buf s"

definition w25q_erase_cmd :: "'d hw \<Rightarrow> u8 \<Rightarrow> u32 \<Rightarrow> ('d, 'z) m \<Rightarrow> ('d, 'z) m option" where
  "w25q_erase_cmd hw cmd addr s = do {
     s \<leftarrow> w25q_wren hw s;
     let s = spi_select hw s;
     s \<leftarrow> spi_bytes hw (cmd # addr_bytes addr) s;
     let s = spi_deselect hw s;
     w25q_wait_ready hw s }"

definition w25q_erase_sector :: "'d hw \<Rightarrow> u32 \<Rightarrow> ('d, 'z) m \<Rightarrow> ('d, 'z) m option" where
  "w25q_erase_sector hw addr s = w25q_erase_cmd hw W25Q_CMD_SE addr s"
definition w25q_erase_block32k :: "'d hw \<Rightarrow> u32 \<Rightarrow> ('d, 'z) m \<Rightarrow> ('d, 'z) m option" where
  "w25q_erase_block32k hw addr s = w25q_erase_cmd hw W25Q_CMD_BE32K addr s"
definition w25q_erase_block64k :: "'d hw \<Rightarrow> u32 \<Rightarrow> ('d, 'z) m \<Rightarrow> ('d, 'z) m option" where
  "w25q_erase_block64k hw addr s = w25q_erase_cmd hw W25Q_CMD_BE64K addr s"

definition w25q_erase_chip :: "'d hw \<Rightarrow> ('d, 'z) m \<Rightarrow> ('d, 'z) m option" where
  "w25q_erase_chip hw s = do {
     s \<leftarrow> w25q_wren hw s;
     let s = spi_select hw s;
     (_, s) \<leftarrow> spi_transfer hw W25Q_CMD_CE s;
     let s = spi_deselect hw s;
     w25q_wait_ready hw s }"

definition w25q_power_down :: "'d hw \<Rightarrow> ('d, 'z) m \<Rightarrow> ('d, 'z) m option" where
  "w25q_power_down hw s = do {
     let s = spi_select hw s;
     (_, s) \<leftarrow> spi_transfer hw W25Q_CMD_PWRDN s;
     Some (spi_deselect hw s) }"

definition w25q_wake :: "'d hw \<Rightarrow> ('d, 'z) m \<Rightarrow> ('d, 'z) m option" where
  "w25q_wake hw s = do {
     let s = spi_select hw s;
     (_, s) \<leftarrow> spi_transfer hw W25Q_CMD_RELEASE s;
     (_, s) \<leftarrow> spi_transfer hw 0xFF s;
     Some (spi_deselect hw s) }"

section \<open>Single commands on the bus\<close>

lemma wren_bus:
  assumes "at_rest (snd (dev s))"
  shows "\<exists>t. w25q_wren (spi_hw sl k gap) s = Some t \<and> put_on_bus s t (frame [W25Q_CMD_WREN])"
proof -
  let ?s1 = "spi_select (spi_hw sl k gap) s"
  have s1: "put_on_bus s ?s1 [Sel True]" using assms by (rule select_bus)
  then have "at_rest (snd (dev ?s1))" by (simp add: put_on_bus_def)
  then obtain r u where u: "spi_transfer (spi_hw sl k gap) W25Q_CMD_WREN ?s1 = Some (r, u)"
    "put_on_bus ?s1 u [Byte W25Q_CMD_WREN]" using transfer_bus by blast
  then have "at_rest (snd (dev u))" by (simp add: put_on_bus_def)
  from put_on_bus_trans [OF put_on_bus_trans [OF s1 u(2)] deselect_bus [OF this, of sl k gap]] u(1)
  show ?thesis by (simp add: w25q_wren_def frame_def)
qed

lemma status_bus:
  assumes "at_rest (snd (dev s))"
  shows "\<exists>t. w25q_status (spi_hw sl k gap) s =
      Some (sl (bus (snd (dev s)) @ [Sel True, Byte W25Q_CMD_RDSR, Byte 0xFF]), t) \<and>
    put_on_bus s t (frame [W25Q_CMD_RDSR, 0xFF])"
proof -
  let ?s1 = "spi_select (spi_hw sl k gap) s"
  have s1: "put_on_bus s ?s1 [Sel True]" using assms by (rule select_bus)
  then have "at_rest (snd (dev ?s1))" by (simp add: put_on_bus_def)
  then obtain r u where u: "spi_transfer (spi_hw sl k gap) W25Q_CMD_RDSR ?s1 = Some (r, u)"
    "put_on_bus ?s1 u [Byte W25Q_CMD_RDSR]" using transfer_bus by blast
  then have "at_rest (snd (dev u))" by (simp add: put_on_bus_def)
  then obtain v where v: "spi_transfer (spi_hw sl k gap) 0xFF u = Some (sl (bus (snd (dev u)) @ [Byte 0xFF]), v)"
    "put_on_bus u v [Byte 0xFF]" using transfer_bus by blast
  then have "at_rest (snd (dev v))" by (simp add: put_on_bus_def)
  note d = deselect_bus [OF this, of sl k gap]
  have "bus (snd (dev u)) = bus (snd (dev s)) @ [Sel True, Byte W25Q_CMD_RDSR]"
    using s1 u(2) by (simp add: put_on_bus_def)
  then show ?thesis
    using put_on_bus_trans [OF put_on_bus_trans [OF put_on_bus_trans [OF s1 u(2)] v(2)] d] u(1) v(1)
    by (simp add: w25q_status_def frame_def)
qed

section \<open>The chip\<close>

text \<open>The array, the write enable latch, for how many more frames a program or erase goes on, and how many of them
  there have been.\<close>

record flash =
  mem :: "nat \<Rightarrow> u8"
  wel :: bool
  busy_for :: nat
  ops :: nat

definition addr_of :: "u8 \<Rightarrow> u8 \<Rightarrow> u8 \<Rightarrow> nat" where
  "addr_of a2 a1 a0 = unat a2 * 65536 + unat a1 * 256 + unat a0"

text \<open>A page program clears bits inside the page of its address, wrapping at the end of the page.\<close>

definition page_program :: "nat \<Rightarrow> u8 list \<Rightarrow> (nat \<Rightarrow> u8) \<Rightarrow> nat \<Rightarrow> u8" where
  "page_program a bs m x =
     (let i = (x mod 256 + 256 - a mod 256) mod 256
      in if x div 256 = a div 256 \<and> i < length bs then m x AND bs ! i else m x)"

text \<open>An erase fills the aligned block that holds the address.\<close>

definition erase_block :: "nat \<Rightarrow> nat \<Rightarrow> (nat \<Rightarrow> u8) \<Rightarrow> nat \<Rightarrow> u8" where
  "erase_block n a m x = (if x div n = a div n then 0xFF else m x)"

definition erase_size :: "u8 \<Rightarrow> nat option" where
  "erase_size cmd =
     (if cmd = W25Q_CMD_SE then Some 4096 else if cmd = W25Q_CMD_BE32K then Some 32768
      else if cmd = W25Q_CMD_BE64K then Some 65536 else None)"

text \<open>
  What a completed frame does to a chip that is not busy: programs and erases need the write enable latch, drop it
  and keep the chip busy, the \<open>n\<close>-th of them for \<open>lasts n\<close> frames, which may be any number.
\<close>

definition operate :: "(nat \<Rightarrow> nat) \<Rightarrow> (nat \<Rightarrow> u8) \<Rightarrow> flash \<Rightarrow> flash" where
  "operate lasts m f = \<lparr>mem = m, wel = False, busy_for = lasts (ops f), ops = Suc (ops f)\<rparr>"

fun flash_command :: "(nat \<Rightarrow> nat) \<Rightarrow> u8 list \<Rightarrow> flash \<Rightarrow> flash" where
  "flash_command lasts [cmd] f =
     (if cmd = W25Q_CMD_WREN then f\<lparr>wel := True\<rparr>
      else if cmd = W25Q_CMD_CE \<and> wel f then operate lasts (\<lambda>_. 0xFF) f else f)"
| "flash_command lasts (cmd # a2 # a1 # a0 # bs) f =
     (if \<not> wel f then f
      else if cmd = W25Q_CMD_PP then (if bs = [] then f else operate lasts (page_program (addr_of a2 a1 a0) bs (mem f)) f)
      else case erase_size cmd of
             Some n \<Rightarrow> if bs = [] then operate lasts (erase_block n (addr_of a2 a1 a0) (mem f)) f else f
           | None \<Rightarrow> f)"
| "flash_command lasts _ f = f"

text \<open>A busy chip ignores the frame, whatever it is; time passes.\<close>

definition flash_frame :: "(nat \<Rightarrow> nat) \<Rightarrow> u8 list \<Rightarrow> flash \<Rightarrow> flash" where
  "flash_frame lasts bs f = (if 0 < busy_for f then f\<lparr>busy_for := busy_for f - 1\<rparr> else flash_command lasts bs f)"

definition flash_after :: "(nat \<Rightarrow> nat) \<Rightarrow> flash \<Rightarrow> spi_ev list \<Rightarrow> flash" where
  "flash_after lasts f h = fold (flash_frame lasts) (fst (parse h)) f"

text \<open>The chip as a slave: READ STATUS gives the status of the chip, busy or not; READ streams the array from its
  address on, unless the chip is busy, when the line floats high.\<close>

definition flash_status :: "flash \<Rightarrow> u8" where
  "flash_status f = (if 0 < busy_for f then W25Q_SR_WIP else 0) OR (if wel f then W25Q_SR_WEL else 0)"

definition flash_slave :: "(nat \<Rightarrow> nat) \<Rightarrow> flash \<Rightarrow> slave" where
  "flash_slave lasts f0 h =
     (let f = flash_after lasts f0 h
      in case snd (parse h) of
           Some (cmd # b # bs) \<Rightarrow>
             if cmd = W25Q_CMD_RDSR then flash_status f
             else if cmd = W25Q_CMD_READ \<and> busy_for f = 0
             then (case (b # bs) of a2 # a1 # a0 # d # ds \<Rightarrow> mem f ((addr_of a2 a1 a0 + length ds) mod 2 ^ 24) | _ \<Rightarrow> 0xFF)
             else 0xFF
         | _ \<Rightarrow> 0xFF)"

section \<open>What the driver's frames do to it\<close>

lemma parse_frame:
  assumes "deselected h"
  shows "deselected (h @ frame bs)" and "flash_after lasts f (h @ frame bs) = flash_frame lasts bs (flash_after lasts f h)"
proof -
  obtain fs where "parse h = (fs, None)" using assms by (cases "parse h") (simp add: deselected_def)
  then have "parse (h @ frame bs) = (fs @ [bs], None)"
    by (simp add: parse_def frame_def fold_bytes)
  with \<open>parse h = (fs, None)\<close> show "deselected (h @ frame bs)"
    and "flash_after lasts f (h @ frame bs) = flash_frame lasts bs (flash_after lasts f h)"
    by (simp_all add: deselected_def flash_after_def)
qed

lemma parse_under_way:
  assumes "deselected h"
  shows "parse (h @ Sel True # map Byte bs) = (fst (parse h), Some bs)"
    and "flash_after lasts f (h @ Sel True # map Byte bs) = flash_after lasts f h"
proof -
  obtain fs where "parse h = (fs, None)" using assms by (cases "parse h") (simp add: deselected_def)
  then show "parse (h @ Sel True # map Byte bs) = (fst (parse h), Some bs)" by (simp add: parse_def fold_bytes)
  then show "flash_after lasts f (h @ Sel True # map Byte bs) = flash_after lasts f h" by (simp add: flash_after_def)
qed

text \<open>A frame that is no command of the array's only lets time pass.\<close>

lemma status_frame: "flash_frame lasts [W25Q_CMD_RDSR, 0xFF] f = f\<lparr>busy_for := busy_for f - 1\<rparr>"
  by (cases "busy_for f") (simp_all add: flash_frame_def)

lemma status_busy: "flash_status f AND W25Q_SR_WIP = 0 \<longleftrightarrow> busy_for f = 0"
  by (simp add: flash_status_def W25Q_SR_WIP_def W25Q_SR_WEL_def)

lemma addr_of_bytes:
  "addr_of (ucast (drop_bit 16 a)) (ucast (drop_bit 8 a)) (ucast a) = unat a mod 2 ^ 24" for a :: u32
proof -
  have byte: "unat (ucast x :: u8) = unat x mod 256" for x :: u32
    by (simp add: unsigned_ucast_eq take_bit_eq_mod)
  have split: "unat a mod 2 ^ 24 = unat a mod 2 ^ 8 + 2 ^ 8 * (unat a div 2 ^ 8 mod 2 ^ 8) +
      2 ^ 16 * (unat a div 2 ^ 16 mod 2 ^ 8)"
    using mod_mult2_eq [of "unat a" "2 ^ 8" "2 ^ 16"] mod_mult2_eq [of "unat a div 2 ^ 8" "2 ^ 8" "2 ^ 8"]
    by (simp add: div_mult2_eq [symmetric])
  show ?thesis
    unfolding addr_of_def byte unat_drop_bit split by simp
qed

text \<open>The array with a range of it programmed.\<close>

definition program_range :: "nat \<Rightarrow> u8 list \<Rightarrow> (nat \<Rightarrow> u8) \<Rightarrow> nat \<Rightarrow> u8" where
  "program_range a bs m x = (if a \<le> x \<and> x < a + length bs then m x AND bs ! (x - a) else m x)"

lemma program_range_append:
  "program_range (a + length xs) ys (program_range a xs m) = program_range a (xs @ ys) m"
  by (auto simp: program_range_def fun_eq_iff nth_append add.assoc)

lemma page_program_range:
  assumes "a mod 256 + length bs \<le> 256"
  shows "page_program a bs m = program_range a bs m"
proof
  fix x :: nat
  define q r q' s where "q = a div 256" and "r = a mod 256" and "q' = x div 256" and "s = x mod 256"
  have a: "a = 256 * q + r" and x: "x = 256 * q' + s" and r: "r < 256" and s: "s < 256"
    unfolding q_def r_def q'_def s_def by simp_all
  have len: "r + length bs \<le> 256" using assms by (simp add: r_def)
  define i where "i = (s + 256 - r) mod 256"
  have prog: "page_program a bs m x = (if q' = q \<and> i < length bs then m x AND bs ! i else m x)"
    by (simp add: page_program_def i_def q_def r_def q'_def s_def Let_def)
  consider (before) "q' = q" "s < r" | (within) "q' = q" "r \<le> s" | (other) "q' \<noteq> q" by linarith
  then show "page_program a bs m x = program_range a bs m x"
  proof cases
    case before
    then have "i = s + 256 - r" unfolding i_def using r by (intro mod_less) linarith
    then have "\<not> i < length bs" using len before by linarith
    moreover have "\<not> a \<le> x" using a x before by linarith
    ultimately show ?thesis by (simp add: prog program_range_def)
  next
    case within
    then have "s + 256 - r = 256 + (s - r)" by linarith
    then have "i = (s - r) mod 256" unfolding i_def by (simp only: mod_add_self1)
    also have "\<dots> = s - r" using s by (intro mod_less) linarith
    also have "\<dots> = x - a" using a x within by linarith
    finally have "i = x - a" .
    moreover have "a \<le> x" using a x within by linarith
    ultimately show ?thesis
      using within by (auto simp: prog program_range_def)
  next
    case other
    then have "\<not> (a \<le> x \<and> x < a + length bs)" using a x r s len by linarith
    with other show ?thesis by (auto simp: prog program_range_def)
  qed
qed

text \<open>One chunk never leaves its page, and the address stays below the end of the array.\<close>

lemma page_chunk_fits: "unat addr mod 256 + page_chunk addr n \<le> 256" and page_chunk_le: "page_chunk addr n \<le> n"
proof -
  have m: "unat (addr mod 256) = unat addr mod 256" by (simp add: unat_mod_distrib)
  then have "unat (256 - addr mod 256) = 256 - unat addr mod 256"
    by (simp add: unat_sub word_le_nat_alt)
  then show "unat addr mod 256 + page_chunk addr n \<le> 256" "page_chunk addr n \<le> n"
    by (auto simp: page_chunk_def W25Q_PAGE_SIZE_def Let_def)
qed

section \<open>The driver on the chip\<close>

text \<open>The engine at rest, the chip deselected and in state \<open>c\<close>.\<close>

definition holds :: "(nat \<Rightarrow> nat) \<Rightarrow> flash \<Rightarrow> flash \<Rightarrow> (nat \<times> spi_dev, 'z) m \<Rightarrow> bool" where
  "holds lasts f c s \<longleftrightarrow> at_rest (snd (dev s)) \<and> deselected (bus (snd (dev s))) \<and> flash_after lasts f (bus (snd (dev s))) = c"

lemma holds_frame: "holds lasts f c s \<Longrightarrow> put_on_bus s t (frame bs) \<Longrightarrow> holds lasts f (flash_frame lasts bs c) t"
  using parse_frame [of "bus (snd (dev s))"] by (auto simp: holds_def put_on_bus_def)

lemma wren_chip:
  assumes "holds lasts f c s" and "busy_for c = 0"
  shows "\<exists>t. w25q_wren (spi_hw sl k gap) s = Some t \<and> holds lasts f (c\<lparr>wel := True\<rparr>) t"
proof -
  have "at_rest (snd (dev s))" using assms(1) by (simp add: holds_def)
  then obtain t where t: "w25q_wren (spi_hw sl k gap) s = Some t" "put_on_bus s t (frame [W25Q_CMD_WREN])"
    using wren_bus by blast
  have "flash_frame lasts [W25Q_CMD_WREN] c = c\<lparr>wel := True\<rparr>" using assms(2) by (simp add: flash_frame_def)
  with holds_frame [OF assms(1) t(2)] t(1) show ?thesis by auto
qed

text \<open>A frame of bytes, and one followed by a send, framed by hand as the driver does.\<close>

lemma bytes_chip:
  assumes "holds lasts f c s"
  shows "\<exists>a. spi_bytes (spi_hw sl k gap) xs (spi_select (spi_hw sl k gap) s) = Some a \<and>
    holds lasts f (flash_frame lasts xs c) (spi_deselect (spi_hw sl k gap) a)"
proof -
  let ?s1 = "spi_select (spi_hw sl k gap) s"
  have s1: "put_on_bus s ?s1 [Sel True]" using assms by (intro select_bus) (simp add: holds_def)
  then have "at_rest (snd (dev ?s1))" by (simp add: put_on_bus_def)
  then obtain a where a: "spi_bytes (spi_hw sl k gap) xs ?s1 = Some a" "put_on_bus ?s1 a (map Byte xs)"
    using spi_bytes_bus by blast
  then have "at_rest (snd (dev a))" by (simp add: put_on_bus_def)
  from put_on_bus_trans [OF put_on_bus_trans [OF s1 a(2)] deselect_bus [OF this, of sl k gap]]
  have "put_on_bus s (spi_deselect (spi_hw sl k gap) a) (frame xs)" by (simp add: frame_def)
  then show ?thesis using a(1) holds_frame [OF assms] by blast
qed

lemma frame_chip:
  assumes "holds lasts f c s"
  shows "\<exists>a b. spi_bytes (spi_hw sl k gap) xs (spi_select (spi_hw sl k gap) s) = Some a \<and>
    spi_send (spi_hw sl k gap) ys a = Some b \<and>
    holds lasts f (flash_frame lasts (xs @ ys) c) (spi_deselect (spi_hw sl k gap) b)"
proof -
  let ?s1 = "spi_select (spi_hw sl k gap) s"
  have s1: "put_on_bus s ?s1 [Sel True]" using assms by (intro select_bus) (simp add: holds_def)
  then have "at_rest (snd (dev ?s1))" by (simp add: put_on_bus_def)
  then obtain a where a: "spi_bytes (spi_hw sl k gap) xs ?s1 = Some a" "put_on_bus ?s1 a (map Byte xs)"
    using spi_bytes_bus by blast
  then have "at_rest (snd (dev a))" by (simp add: put_on_bus_def)
  then obtain b where b: "spi_send (spi_hw sl k gap) ys a = Some b" "put_on_bus a b (map Byte ys)"
    using spi_send_bus by blast
  then have "at_rest (snd (dev b))" by (simp add: put_on_bus_def)
  from put_on_bus_trans [OF put_on_bus_trans [OF put_on_bus_trans [OF s1 a(2)] b(2)] deselect_bus [OF this, of sl k gap]]
  have "put_on_bus s (spi_deselect (spi_hw sl k gap) b) (frame (xs @ ys))"
    by (simp add: frame_def)
  then show ?thesis using a(1) b(1) holds_frame [OF assms] by blast
qed

text \<open>The status poll sees the chip, and each turn lets time pass: the wait returns, and leaves the chip ready.\<close>

lemma status_chip:
  assumes "holds lasts f c s"
  shows "\<exists>t. w25q_status (spi_hw (flash_slave lasts f) k gap) s = Some (flash_status c, t) \<and>
    holds lasts f (c\<lparr>busy_for := busy_for c - 1\<rparr>) t"
proof -
  have rest: "at_rest (snd (dev s))" using assms by (simp add: holds_def)
  let ?h = "bus (snd (dev s)) @ Sel True # map Byte [W25Q_CMD_RDSR, 0xFF]"
  obtain t where t: "w25q_status (spi_hw (flash_slave lasts f) k gap) s = Some (flash_slave lasts f ?h, t)"
    "put_on_bus s t (frame [W25Q_CMD_RDSR, 0xFF])"
    using status_bus [OF rest, of "flash_slave lasts f" k gap] by auto
  have "flash_slave lasts f ?h = flash_status c"
    using assms unfolding holds_def by (simp add: flash_slave_def parse_under_way del: list.map)
  then show ?thesis using t holds_frame [OF assms t(2)] by (simp add: status_frame)
qed

lemma wait_ready_chip:
  "holds lasts f c s \<Longrightarrow>
   \<exists>t. w25q_wait_ready (spi_hw (flash_slave lasts f) k gap) s = Some t \<and> holds lasts f (c\<lparr>busy_for := 0\<rparr>) t"
proof (induction "busy_for c" arbitrary: c s)
  case 0
  obtain t where "w25q_status (spi_hw (flash_slave lasts f) k gap) s = Some (flash_status c, t)"
    "holds lasts f (c\<lparr>busy_for := busy_for c - 1\<rparr>) t"
    using status_chip [OF 0(2)] by blast
  then show ?case using 0(1) by (subst w25q_wait_ready.simps) (simp add: w25q_busy_def status_busy)
next
  case (Suc n)
  obtain t where t: "w25q_status (spi_hw (flash_slave lasts f) k gap) s = Some (flash_status c, t)"
    "holds lasts f (c\<lparr>busy_for := n\<rparr>) t"
    using status_chip [OF Suc.prems, of k gap] Suc.hyps(2) by (metis diff_Suc_1)
  obtain u where "w25q_wait_ready (spi_hw (flash_slave lasts f) k gap) t = Some u" "holds lasts f (c\<lparr>busy_for := 0\<rparr>) u"
    using Suc.hyps(1) [OF _ t(2)] by auto
  then show ?case using t(1) Suc.hyps(2) by (subst w25q_wait_ready.simps) (simp add: w25q_busy_def status_busy)
qed

text \<open>The chip ready for a command, its array as given.\<close>

definition ready_with :: "(nat \<Rightarrow> nat) \<Rightarrow> flash \<Rightarrow> (nat \<Rightarrow> u8) \<Rightarrow> (nat \<times> spi_dev, 'z) m \<Rightarrow> bool" where
  "ready_with lasts f m s \<longleftrightarrow> (\<exists>c. holds lasts f c s \<and> busy_for c = 0 \<and> mem c = m)"

lemma w25q_write_chip:
  "ready_with lasts f m s \<Longrightarrow> unat addr + length buf \<le> 2 ^ 24 \<Longrightarrow>
    \<exists>t. w25q_write (spi_hw (flash_slave lasts f) k gap) addr buf s = Some t \<and>
      ready_with lasts f (program_range (unat addr) buf m) t"
proof (induction "length buf" arbitrary: addr buf m s rule: less_induct)
  case less
  let ?hw = "spi_hw (flash_slave lasts f) k gap"
  show ?case
  proof (cases "buf = []")
    case True
    then have "program_range (unat addr) buf m = m" by (auto simp: program_range_def fun_eq_iff)
    then show ?thesis using less.prems(1) True by (subst w25q_write.simps) simp
  next
    case False
    define c where "c = page_chunk addr (length buf)"
    have c: "0 < c" "c \<le> length buf" "unat addr mod 256 + c \<le> 256"
      using False page_chunk_pos page_chunk_le page_chunk_fits unfolding c_def by auto
    obtain x where x: "holds lasts f x s" "busy_for x = 0" "mem x = m" using less.prems(1) unfolding ready_with_def by blast
    obtain a where a: "w25q_wren ?hw s = Some a" "holds lasts f (x\<lparr>wel := True\<rparr>) a"
      using wren_chip [OF x(1,2)] by blast
    obtain b b' where b: "spi_bytes ?hw (W25Q_CMD_PP # addr_bytes addr) (spi_select ?hw a) = Some b"
      "spi_send ?hw (take c buf) b = Some b'"
      "holds lasts f (flash_frame lasts ((W25Q_CMD_PP # addr_bytes addr) @ take c buf) (x\<lparr>wel := True\<rparr>)) (spi_deselect ?hw b')"
      using frame_chip [OF a(2)] by blast
    let ?y = "flash_frame lasts ((W25Q_CMD_PP # addr_bytes addr) @ take c buf) (x\<lparr>wel := True\<rparr>)"
    obtain e where e: "w25q_wait_ready ?hw (spi_deselect ?hw b') = Some e" "holds lasts f (?y\<lparr>busy_for := 0\<rparr>) e"
      using wait_ready_chip [OF b(3)] by blast
    have "unat addr < 2 ^ 24" using False less.prems(2) by (cases buf) simp_all
    moreover have "take c buf \<noteq> []" using c(1) False by simp
    ultimately have "mem ?y = program_range (unat addr) (take c buf) m"
      using x c by (simp add: flash_frame_def operate_def addr_bytes_def addr_of_bytes page_program_range)
    then have re: "ready_with lasts f (program_range (unat addr) (take c buf) m) e"
      using e(2) unfolding ready_with_def by (intro exI [of _ "?y\<lparr>busy_for := 0\<rparr>"]) simp
    have next_addr: "unat (addr + of_nat c) = unat addr + c"
      using less.prems(2) c by (simp add: unat_word_ariths unat_of_nat)
    have "length (drop c buf) < length buf" using c False by simp
    moreover have "unat (addr + of_nat c) + length (drop c buf) \<le> 2 ^ 24"
      using less.prems(2) c by (simp add: next_addr)
    ultimately obtain t where t: "w25q_write ?hw (addr + of_nat c) (drop c buf) e = Some t"
      "ready_with lasts f (program_range (unat (addr + of_nat c)) (drop c buf) (program_range (unat addr) (take c buf) m)) t"
      using less.hyps [OF _ re] by blast
    have "ready_with lasts f (program_range (unat addr) buf m) t"
      using t(2) program_range_append [of "unat addr" "take c buf" "drop c buf" m] c
      by (simp add: next_addr min_absorb2)
    with t(1) a(1) b e(1) False show ?thesis
      by (subst w25q_write.simps) (simp add: c_def Let_def del: spi_bytes.simps)
  qed
qed

lemma erase_cmd_chip:
  assumes "ready_with lasts f m s" and "erase_size cmd = Some n" and "unat addr < 2 ^ 24"
  shows "\<exists>t. w25q_erase_cmd (spi_hw (flash_slave lasts f) k gap) cmd addr s = Some t \<and>
    ready_with lasts f (erase_block n (unat addr) m) t"
proof -
  let ?hw = "spi_hw (flash_slave lasts f) k gap"
  obtain x where x: "holds lasts f x s" "busy_for x = 0" "mem x = m" using assms(1) unfolding ready_with_def by blast
  obtain a where a: "w25q_wren ?hw s = Some a" "holds lasts f (x\<lparr>wel := True\<rparr>) a"
    using wren_chip [OF x(1,2)] by blast
  let ?y = "flash_frame lasts (cmd # addr_bytes addr) (x\<lparr>wel := True\<rparr>)"
  obtain b where b: "spi_bytes ?hw (cmd # addr_bytes addr) (spi_select ?hw a) = Some b" "holds lasts f ?y (spi_deselect ?hw b)"
    using bytes_chip [OF a(2)] by blast
  obtain t where t: "w25q_wait_ready ?hw (spi_deselect ?hw b) = Some t" "holds lasts f (?y\<lparr>busy_for := 0\<rparr>) t"
    using wait_ready_chip [OF b(2)] by blast
  have "cmd \<noteq> W25Q_CMD_PP" using assms(2) by (auto simp: erase_size_def W25Q_CMD_PP_def W25Q_CMD_SE_def W25Q_CMD_BE32K_def W25Q_CMD_BE64K_def)
  then have "mem ?y = erase_block n (unat addr) m"
    using x assms(2,3) by (simp add: flash_frame_def operate_def addr_bytes_def addr_of_bytes)
  then have "ready_with lasts f (erase_block n (unat addr) m) t"
    using t(2) unfolding ready_with_def by (intro exI [of _ "?y\<lparr>busy_for := 0\<rparr>"]) simp
  then show ?thesis using a(1) b(1) t(1) by (simp add: w25q_erase_cmd_def Let_def del: spi_bytes.simps)
qed

lemma w25q_read_chip:
  assumes "ready_with lasts f m s"
  shows "\<exists>t. w25q_read (spi_hw (flash_slave lasts f) k gap) addr n s =
      Some (map (\<lambda>i. m ((unat addr mod 2 ^ 24 + i) mod 2 ^ 24)) [0..<n], t) \<and> ready_with lasts f m t"
proof -
  obtain c where c: "holds lasts f c s" "busy_for c = 0" "mem c = m" using assms unfolding ready_with_def by blast
  then have des: "deselected (bus (snd (dev s)))" and after: "flash_after lasts f (bus (snd (dev s))) = c"
    and rest: "at_rest (snd (dev s))" by (simp_all add: holds_def)
  let ?sl = "flash_slave lasts f" and ?hdr = "W25Q_CMD_READ # addr_bytes addr" and ?h = "bus (snd (dev s))"
  let ?hw = "spi_hw ?sl k gap"
  let ?s1 = "spi_select ?hw s"
  have s1: "put_on_bus s ?s1 [Sel True]" using rest by (rule select_bus)
  then have "at_rest (snd (dev ?s1))" by (simp add: put_on_bus_def)
  then obtain a where a: "spi_send ?hw ?hdr ?s1 = Some a" "put_on_bus ?s1 a (map Byte ?hdr)"
    using spi_send_bus by blast
  then have ra: "at_rest (snd (dev a))" by (simp add: put_on_bus_def)
  obtain b where b: "spi_read ?hw n a = Some (replies ?sl (bus (snd (dev a))) (replicate n 0xFF), b)"
    "put_on_bus a b (replicate n (Byte 0xFF))"
    using spi_read_bus [OF ra] by blast
  then have "at_rest (snd (dev b))" by (simp add: put_on_bus_def)
  from put_on_bus_trans [OF put_on_bus_trans [OF put_on_bus_trans [OF s1 a(2)] b(2)] deselect_bus [OF this, of ?sl k gap]]
  have "put_on_bus s (spi_deselect ?hw b) (frame (?hdr @ replicate n 0xFF))" by (simp add: frame_def)
  from holds_frame [OF c(1) this] have "ready_with lasts f m (spi_deselect ?hw b)"
    using c(2,3) unfolding ready_with_def
    by (intro exI) (auto simp: flash_frame_def addr_bytes_def erase_size_def W25Q_CMD_PP_def W25Q_CMD_SE_def
        W25Q_CMD_BE32K_def W25Q_CMD_BE64K_def W25Q_CMD_READ_def)
  moreover have "?sl (bus (snd (dev a)) @ replicate (Suc i) (Byte 0xFF)) = m ((unat addr mod 2 ^ 24 + i) mod 2 ^ 24)" for i
  proof -
    have "bus (snd (dev a)) = ?h @ [Sel True] @ map Byte ?hdr" using s1 a(2) by (simp add: put_on_bus_def)
    then have e: "bus (snd (dev a)) @ replicate (Suc i) (Byte 0xFF) = ?h @ Sel True # map Byte (?hdr @ replicate (Suc i) 0xFF)"
      by (simp add: map_replicate)
    show ?thesis
      unfolding e flash_slave_def Let_def parse_under_way [OF des] snd_conv after
      using c(2,3) by (simp add: addr_bytes_def addr_of_bytes W25Q_CMD_READ_def W25Q_CMD_RDSR_def)
  qed
  ultimately show ?thesis
    using a(1) b(1) by (simp add: w25q_read_def Let_def replies_replicate)
qed

section \<open>Properties\<close>

definition idle_spi :: "(nat \<times> spi_dev) mach" where
  "idle_spi = \<lparr>dev = (0, \<lparr>tx_fifo = [], rx_fifo = [], state_q = ST_IDLE, bus = [], overrun = False\<rparr>), evs = []\<rparr>"

lemma idle_spi_ready: "busy_for f = 0 \<Longrightarrow> ready_with lasts f (mem f) idle_spi"
  unfolding ready_with_def
  by (intro exI [of _ f]) (simp add: holds_def idle_spi_def at_rest_def deselected_def parse_def flash_after_def)

text \<open>C3: on a flash chip that is ready, what is written is read back, however long the chip is busy with each page
  and although it ignores every command but the status read while it is.  A write followed by a read of the same range
  returns and yields the buffer ANDed with what the range held, the buffer itself when it was erased; the array is
  the old one with exactly the bytes of the buffer ANDed in at consecutive addresses, across page boundaries,
  although each page program wraps inside its page.\<close>

theorem w25q_write_read_round_trip:
  assumes "ready_with lasts f m s" and "unat addr + length buf \<le> 2 ^ 24"
  shows "\<exists>t u. w25q_write (spi_hw (flash_slave lasts f) k gap) addr buf s = Some t \<and>
    w25q_read (spi_hw (flash_slave lasts f) k gap) addr (length buf) t =
      Some (map (\<lambda>i. m (unat addr + i) AND buf ! i) [0..<length buf], u) \<and>
    ready_with lasts f (\<lambda>x. if unat addr \<le> x \<and> x < unat addr + length buf then m x AND buf ! (x - unat addr) else m x) u"
proof -
  let ?hw = "spi_hw (flash_slave lasts f) k gap" and ?p = "program_range (unat addr) buf m"
  obtain t where t: "w25q_write ?hw addr buf s = Some t" "ready_with lasts f ?p t"
    using w25q_write_chip [OF assms] by blast
  obtain u where u: "w25q_read ?hw addr (length buf) t =
      Some (map (\<lambda>i. ?p ((unat addr mod 2 ^ 24 + i) mod 2 ^ 24)) [0..<length buf], u)" "ready_with lasts f ?p u"
    using w25q_read_chip [OF t(2)] by blast
  have "(unat addr mod 2 ^ 24 + i) mod 2 ^ 24 = unat addr + i" if "i < length buf" for i
    using that assms(2) by simp
  then have "w25q_read ?hw addr (length buf) t = Some (map (\<lambda>i. m (unat addr + i) AND buf ! i) [0..<length buf], u)"
    using u(1) by (simp add: program_range_def cong: map_cong)
  then show ?thesis using t(1) u(2) unfolding program_range_def by blast
qed

theorem w25q_write_read_round_trip_witness:
  "\<exists>t u. w25q_write (spi_hw (flash_slave (\<lambda>n. 3 + n) \<lparr>mem = \<lambda>_. 0xFF, wel = False, busy_for = 0, ops = 0\<rparr>) 7 (\<lambda>_. 1))
       254 [1, 2, 3] idle_spi = Some t \<and>
     w25q_read (spi_hw (flash_slave (\<lambda>n. 3 + n) \<lparr>mem = \<lambda>_. 0xFF, wel = False, busy_for = 0, ops = 0\<rparr>) 7 (\<lambda>_. 1)) 254 3 t =
       Some ([1, 2, 3], u)"
proof -
  let ?f = "\<lparr>mem = \<lambda>_. 0xFF, wel = False, busy_for = 0, ops = 0\<rparr>"
  have "ready_with (\<lambda>n. 3 + n) ?f (\<lambda>_. 0xFF) idle_spi" using idle_spi_ready [of ?f] by simp
  from w25q_write_read_round_trip [OF this, where k = 7 and gap = "\<lambda>_. 1" and addr = 254 and buf = "[1, 2, 3]"]
  show ?thesis by (auto simp: upt_rec numeral_3_eq_3)
qed

text \<open>C4: replacing the contents of a sector, on a chip that is ready and whatever it held: erasing the 4 KiB sector of
  a range that lies inside it and writing the buffer returns, and leaves the buffer in the range, 0xFF in the rest of
  the sector, and every byte outside the sector as it was; the chip is ready again, so the next command is taken.\<close>

theorem w25q_erase_write_stores:
  assumes "ready_with lasts f m s" and "unat addr mod 4096 + length buf \<le> 4096" and "unat addr < 2 ^ 24"
  shows "\<exists>t u. w25q_erase_sector (spi_hw (flash_slave lasts f) k gap) addr s = Some t \<and>
    w25q_write (spi_hw (flash_slave lasts f) k gap) addr buf t = Some u \<and>
    ready_with lasts f (\<lambda>x. if unat addr \<le> x \<and> x < unat addr + length buf then buf ! (x - unat addr)
      else if x div 4096 = unat addr div 4096 then 0xFF else m x) u"
proof -
  let ?hw = "spi_hw (flash_slave lasts f) k gap"
  obtain t where t: "w25q_erase_sector ?hw addr s = Some t" "ready_with lasts f (erase_block 4096 (unat addr) m) t"
    using erase_cmd_chip [OF assms(1) _ assms(3), of W25Q_CMD_SE 4096] by (auto simp: w25q_erase_sector_def erase_size_def)
  define q where "q = unat addr div 4096"
  have a: "unat addr = 4096 * q + unat addr mod 4096" by (simp add: q_def)
  have "q < 4096" using assms(3) by (simp add: q_def div_less_iff_less_mult)
  then have "unat addr + length buf \<le> 2 ^ 24" using a assms(2) by simp
  from w25q_write_chip [OF t(2) this] obtain u where u: "w25q_write ?hw addr buf t = Some u"
    "ready_with lasts f (program_range (unat addr) buf (erase_block 4096 (unat addr) m)) u" by blast
  have "x div 4096 = q" if "unat addr \<le> x" "x < unat addr + length buf" for x
  proof -
    have "4096 * q \<le> x" "x < 4096 * q + 4096" using that a assms(2) by linarith+
    then show ?thesis by (intro div_nat_eqI) simp_all
  qed
  moreover have "0xFF AND b = b" for b :: u8
  proof -
    have "(0xFF :: u8) = - 1" by simp
    then show ?thesis by (simp only: and.left_neutral)
  qed
  ultimately have "program_range (unat addr) buf (erase_block 4096 (unat addr) m) =
      (\<lambda>x. if unat addr \<le> x \<and> x < unat addr + length buf then buf ! (x - unat addr)
           else if x div 4096 = unat addr div 4096 then 0xFF else m x)"
    by (auto simp: program_range_def erase_block_def q_def fun_eq_iff)
  then show ?thesis using t(1) u by auto
qed

theorem w25q_erase_write_stores_witness:
  "\<exists>t u. w25q_erase_sector (spi_hw (flash_slave (\<lambda>n. 5) \<lparr>mem = \<lambda>_. 0, wel = False, busy_for = 0, ops = 0\<rparr>) 7 (\<lambda>_. 1))
       0x1FE idle_spi = Some t \<and>
     w25q_write (spi_hw (flash_slave (\<lambda>n. 5) \<lparr>mem = \<lambda>_. 0, wel = False, busy_for = 0, ops = 0\<rparr>) 7 (\<lambda>_. 1)) 0x1FE [1, 2, 3] t = Some u \<and>
     map (mem (flash_after (\<lambda>n. 5) \<lparr>mem = \<lambda>_. 0, wel = False, busy_for = 0, ops = 0\<rparr> (bus (snd (dev u)))))
       [0x1FD, 0x1FE, 0x1FF, 0x200, 0xFFF, 0x1000] = [0xFF, 1, 2, 3, 0xFF, 0]"
proof -
  let ?f = "\<lparr>mem = \<lambda>_. 0, wel = False, busy_for = 0, ops = 0\<rparr>"
  have "ready_with (\<lambda>n. 5) ?f (\<lambda>_. 0) idle_spi" using idle_spi_ready [of ?f] by simp
  from w25q_erase_write_stores [OF this, where k = 7 and gap = "\<lambda>_. 1" and addr = "0x1FE" and buf = "[1, 2, 3]"]
  show ?thesis by (auto simp: ready_with_def holds_def)
qed

end
