(* ===== verification/Mcp3208.thy ===== *)
theory Mcp3208
  imports Spi_Bus
begin

text \<open>
  \<open>sim/sw/common/mcp3208.h\<close>: the SPI analogue-to-digital converter, in its 12-bit configuration.
\<close>

definition MCP3208_BITS :: nat where "MCP3208_BITS = 12"
definition MCP3208_MAX :: u32 where "MCP3208_MAX = push_bit MCP3208_BITS 1 - 1"
definition MCP3208_MID :: int where "MCP3208_MID = 2 ^ (MCP3208_BITS - 1)"

definition mcp3208_begin :: "'d hw \<Rightarrow> u32 \<Rightarrow> ('d, 'z) m \<Rightarrow> ('d, 'z) m" where
  "mcp3208_begin hw spi_hz s = spi_deselect hw (spi_begin_hz hw spi_hz 0 s)"

definition mcp3208_read :: "'d hw \<Rightarrow> u32 \<Rightarrow> ('d, 'z) m \<Rightarrow> (u32 \<times> ('d, 'z) m) option" where
  "mcp3208_read hw ch s = do {
     let s = spi_select hw s;
     (_, s) \<leftarrow> spi_transfer hw (ucast (0x06 OR (drop_bit 2 ch AND 0x01))) s;
     (hi, s) \<leftarrow> spi_transfer hw (ucast (push_bit 6 (ch AND 0x03))) s;
     (lo, s) \<leftarrow> spi_transfer hw 0x00 s;
     let s = spi_deselect hw s;
     Some (push_bit 8 (ucast hi AND 0x0F) OR ucast lo, s) }"

definition mcp3208_centred :: "'d hw \<Rightarrow> u32 \<Rightarrow> ('d, 'z) m \<Rightarrow> (int \<times> ('d, 'z) m) option" where
  "mcp3208_centred hw ch s = do {
     (v, s) \<leftarrow> mcp3208_read hw ch s;
     Some (sint v - MCP3208_MID, s) }"

definition mcp3208_read_diff :: "'d hw \<Rightarrow> u32 \<Rightarrow> ('d, 'z) m \<Rightarrow> (u32 \<times> ('d, 'z) m) option" where
  "mcp3208_read_diff hw pair s = do {
     let ch = pair * 2;
     let s = spi_select hw s;
     (_, s) \<leftarrow> spi_transfer hw (ucast (0x04 OR (drop_bit 2 ch AND 0x01))) s;
     (hi, s) \<leftarrow> spi_transfer hw (ucast (push_bit 6 (ch AND 0x03))) s;
     (lo, s) \<leftarrow> spi_transfer hw 0x00 s;
     let s = spi_deselect hw s;
     Some (push_bit 8 (ucast hi AND 0x0F) OR ucast lo, s) }"

section \<open>The converter\<close>

text \<open>
  The converter as a slave: once the start bit has come, the single-ended bit and the three channel bits
  select what is converted; the high nibble of the answer to the second byte is undriven, the rest
  is the code, most significant bit first.  The sample taken in a frame may depend on all earlier
  frames.
\<close>

definition adc_channel :: "u8 \<Rightarrow> u8 \<Rightarrow> nat" where
  "adc_channel a b = unat (a AND 1) * 4 + unat b div 64"

definition adc_slave :: "(u8 list list \<Rightarrow> bool \<Rightarrow> nat \<Rightarrow> nat) \<Rightarrow> (spi_ev list \<Rightarrow> u8) \<Rightarrow> slave" where
  "adc_slave code junk h =
     (case parse h of
        (fs, Some [a, b]) \<Rightarrow>
          if bit a 2 then (junk h AND 0xF0) OR of_nat (code fs (bit a 1) (adc_channel a b) div 256) else junk h
      | (fs, Some [a, b, c]) \<Rightarrow>
          if bit a 2 then of_nat (code fs (bit a 1) (adc_channel a b)) else junk h
      | _ \<Rightarrow> junk h)"

text \<open>Three bytes in one frame, as both read routines send them.\<close>

lemma three_bytes:
  assumes "at_rest (snd (dev s))" and "deselected (bus (snd (dev s)))"
  defines "h \<equiv> bus (snd (dev s)) @ [Sel True]"
  shows "\<exists>u v w. spi_transfer (spi_hw sl k gap) a (spi_select (spi_hw sl k gap) s) = Some (sl (h @ [Byte a]), u) \<and>
    spi_transfer (spi_hw sl k gap) b u = Some (sl (h @ [Byte a, Byte b]), v) \<and>
    spi_transfer (spi_hw sl k gap) c v = Some (sl (h @ [Byte a, Byte b, Byte c]), w) \<and>
    put_on_bus s (spi_deselect (spi_hw sl k gap) w) (frame [a, b, c])"
proof -
  let ?hw = "spi_hw sl k gap"
  have s1: "put_on_bus s (spi_select ?hw s) [Sel True]" using assms(1) by (rule select_bus)
  then have "at_rest (snd (dev (spi_select ?hw s)))" by (simp add: put_on_bus_def)
  then obtain u where u: "spi_transfer ?hw a (spi_select ?hw s) = Some (sl (bus (snd (dev (spi_select ?hw s))) @ [Byte a]), u)"
    "put_on_bus (spi_select ?hw s) u [Byte a]" using transfer_bus by blast
  then have "at_rest (snd (dev u))" by (simp add: put_on_bus_def)
  then obtain v where v: "spi_transfer ?hw b u = Some (sl (bus (snd (dev u)) @ [Byte b]), v)"
    "put_on_bus u v [Byte b]" using transfer_bus by blast
  then have "at_rest (snd (dev v))" by (simp add: put_on_bus_def)
  then obtain w where w: "spi_transfer ?hw c v = Some (sl (bus (snd (dev v)) @ [Byte c]), w)"
    "put_on_bus v w [Byte c]" using transfer_bus by blast
  then have "at_rest (snd (dev w))" by (simp add: put_on_bus_def)
  note d = deselect_bus [OF this, of sl k gap]
  note path = put_on_bus_trans [OF s1 u(2)] put_on_bus_trans [OF put_on_bus_trans [OF s1 u(2)] v(2)]
  have "bus (snd (dev (spi_select ?hw s))) = h" "bus (snd (dev u)) = h @ [Byte a]" "bus (snd (dev v)) = h @ [Byte a, Byte b]"
    using s1 path by (simp_all add: put_on_bus_def h_def)
  moreover have "put_on_bus s (spi_deselect ?hw w) (frame [a, b, c])"
    using put_on_bus_trans [OF put_on_bus_trans [OF path(2) w(2)] d] by (simp add: frame_def)
  ultimately show ?thesis using u(1) v(1) w(1) by simp
qed

lemma adc_answers:
  assumes "parse h = (fs, None)" and "bit a 2"
  shows "adc_slave code junk (h @ [Sel True, Byte a, Byte b]) =
      (junk (h @ [Sel True, Byte a, Byte b]) AND 0xF0) OR of_nat (code fs (bit a 1) (adc_channel a b) div 256)"
    and "adc_slave code junk (h @ [Sel True, Byte a, Byte b, Byte c]) =
      of_nat (code fs (bit a 1) (adc_channel a b))"
  using assms by (simp_all add: adc_slave_def parse_def)

text \<open>The code reassembled from the two answers.\<close>

lemma f0_mask: "(0xF0 :: u8) = push_bit 4 (mask 4)"
  by (simp add: push_bit_eq_mult mask_eq_exp_minus_1)

lemma adc_value:
  assumes "n < 4096"
  shows "push_bit 8 (ucast ((j AND 0xF0) OR of_nat (n div 256) :: u8) AND 0x0F) OR ucast (of_nat n :: u8) = (of_nat n :: u32)"
proof (rule bit_eqI)
  fix k assume "possible_bit TYPE(u32) k"
  then have k: "k < 32" by (simp add: possible_bit_def)
  have div: "bit (n div 256) i = bit n (i + 8)" for i
    using bit_drop_bit_eq [of 8 n] by (simp add: drop_bit_eq_div fun_eq_iff add.commute)
  have "take_bit 12 n = n" using assms by (intro take_bit_nat_eq_self) simp
  then have small: "bit n i \<Longrightarrow> i < 12" for i by (metis bit_take_bit_iff)
  show "bit (push_bit 8 (ucast ((j AND 0xF0) OR of_nat (n div 256) :: u8) AND 0x0F) OR ucast (of_nat n :: u8) :: u32) k
      = bit (of_nat n :: u32) k"
    using k small [of k] unfolding and_masks(1) f0_mask
    by (auto simp: bit_simps div)
qed

text \<open>The channel survives its trip through the two command bytes.\<close>

definition cmd_ok :: "u8 \<Rightarrow> bool \<Rightarrow> u32 \<Rightarrow> nat \<Rightarrow> bool" where
  "cmd_ok start single ch n \<longleftrightarrow>
     (let a = start OR ucast (drop_bit 2 ch AND 0x01); b = ucast (push_bit 6 (ch AND 0x03))
      in bit a 2 \<and> bit a 1 = single \<and> adc_channel a b = n)"

lemma cmd_ok_all:
  "\<forall>n \<in> set [0..<8]. cmd_ok 0x06 True (of_nat n) n"
  "\<forall>n \<in> set [0..<4]. cmd_ok 0x04 False (of_nat n * 2) (2 * n)"
  by code_simp+

lemma ucast_or: "ucast (x OR y) = (ucast x OR ucast y :: u8)" for x y :: u32
  by (rule bit_eqI) (auto simp: bit_simps)

lemma u32_small: "unat (v :: u32) < n \<Longrightarrow> v = of_nat (unat v) \<and> unat v \<in> set [0..<n]"
  by simp

text \<open>The exchange both routines make.\<close>

lemma adc_exchange:
  assumes "at_rest (snd (dev s))" and "parse (bus (snd (dev s))) = (fs, None)"
    and "\<And>fs d c. code fs d c < 4096" and "bit a 2"
  shows "\<exists>x u hi v lo w. spi_transfer (spi_hw (adc_slave code junk) k gap) a (spi_select (spi_hw (adc_slave code junk) k gap) s) = Some (x, u) \<and>
    spi_transfer (spi_hw (adc_slave code junk) k gap) b u = Some (hi, v) \<and>
    spi_transfer (spi_hw (adc_slave code junk) k gap) 0 v = Some (lo, w) \<and>
    at_rest (snd (dev (spi_deselect (spi_hw (adc_slave code junk) k gap) w))) \<and>
    push_bit 8 (ucast hi AND 0x0F) OR ucast lo = (of_nat (code fs (bit a 1) (adc_channel a b)) :: u32)"
proof -
  have "deselected (bus (snd (dev s)))" using assms(2) by (simp add: deselected_def)
  from three_bytes [OF assms(1) this, of "adc_slave code junk" k gap a b 0]
  show ?thesis
    using adc_answers [OF assms(2,4), of code junk b] adc_value [OF assms(3)]
    by (auto simp: put_on_bus_def)
qed

section \<open>Properties\<close>

text \<open>C12: on a converter at rest, \<open>mcp3208_read\<close> returns exactly the 12-bit code converted in its own
  frame for the single-ended channel asked for, whatever the undriven bits, and
  \<open>mcp3208_read_diff\<close> the one for the differential pair.\<close>

theorem mcp3208_reads_code:
  assumes "at_rest (snd (dev s))" and "parse (bus (snd (dev s))) = (fs, None)"
    and "\<And>fs d c. code fs d c < 4096"
  shows "(unat ch < 8 \<longrightarrow> (\<exists>t. mcp3208_read (spi_hw (adc_slave code junk) k gap) ch s =
      Some (of_nat (code fs True (unat ch)), t) \<and> at_rest (snd (dev t)))) \<and>
    (unat ch < 4 \<longrightarrow> (\<exists>t. mcp3208_read_diff (spi_hw (adc_slave code junk) k gap) ch s =
      Some (of_nat (code fs False (2 * unat ch)), t) \<and> at_rest (snd (dev t))))"
proof (intro conjI impI)
  assume "unat ch < 8"
  then have "cmd_ok 0x06 True ch (unat ch)"
    using cmd_ok_all(1) u32_small [of ch 8] by metis
  then show "\<exists>t. mcp3208_read (spi_hw (adc_slave code junk) k gap) ch s =
      Some (of_nat (code fs True (unat ch)), t) \<and> at_rest (snd (dev t))"
    using adc_exchange [where code = code, OF assms, where a = "0x06 OR ucast (drop_bit 2 ch AND 0x01)" and b = "ucast (push_bit 6 (ch AND 0x03))"
        and junk = junk and k = k and gap = gap]
    by (auto simp: cmd_ok_def mcp3208_read_def ucast_or Let_def)
next
  assume "unat ch < 4"
  then have "cmd_ok 0x04 False (ch * 2) (2 * unat ch)"
    using cmd_ok_all(2) u32_small [of ch 4] by metis
  then show "\<exists>t. mcp3208_read_diff (spi_hw (adc_slave code junk) k gap) ch s =
      Some (of_nat (code fs False (2 * unat ch)), t) \<and> at_rest (snd (dev t))"
    using adc_exchange [where code = code, OF assms, where a = "0x04 OR ucast (drop_bit 2 (ch * 2) AND 0x01)" and
        b = "ucast (push_bit 6 (ch * 2 AND 0x03))" and junk = junk and k = k and gap = gap]
    by (auto simp: cmd_ok_def mcp3208_read_diff_def ucast_or Let_def)
qed

theorem mcp3208_reads_code_witness:
  "\<exists>t. mcp3208_read (spi_hw (adc_slave (\<lambda>fs d c. 1005) (\<lambda>h. 0xFF)) 7 (\<lambda>_. 1)) 5
      \<lparr>dev = (0, \<lparr>tx_fifo = [], rx_fifo = [], state_q = ST_IDLE, bus = [], overrun = False\<rparr>), evs = []\<rparr>
    = Some (1005, t)"
  using mcp3208_reads_code [where code = "\<lambda>fs d c. 1005" and junk = "\<lambda>h. 0xFF" and
      ch = 5 and k = 7 and gap = "\<lambda>_. 1" and fs = "[]" and
      s = "\<lparr>dev = (0, \<lparr>tx_fifo = [], rx_fifo = [], state_q = ST_IDLE, bus = [], overrun = False\<rparr>), evs = []\<rparr>"]
  by (auto simp: at_rest_def parse_def)

end
