(* ===== verification/Ds3231.thy ===== *)
theory Ds3231
  imports I2c
begin

text \<open>
  \<open>sim/sw/common/ds3231.h\<close>: the I2C real-time clock.  A routine that fills a structure through a
  pointer returns it as an option, \<^const>\<open>None\<close> when the C code leaves it untouched.
\<close>

definition DS3231_ADDR :: u8 where "DS3231_ADDR = 0x68"
definition DS3231_REG_SECONDS :: u8 where "DS3231_REG_SECONDS = 0x00"
definition DS3231_REG_STATUS :: u8 where "DS3231_REG_STATUS = 0x0F"
definition DS3231_REG_TEMP :: u8 where "DS3231_REG_TEMP = 0x11"
definition DS3231_STATUS_OSF :: u8 where "DS3231_STATUS_OSF = 0x80"

record ds3231_time =
  sec :: u8
  mins :: u8
  hour :: u8
  dow :: u8
  date :: u8
  month :: u8
  year :: u8

section \<open>BCD\<close>

definition ds3231_bcd2bin :: "u8 \<Rightarrow> u8" where
  "ds3231_bcd2bin b = (b AND 0x0F) + 10 * (drop_bit 4 b AND 0x0F)"

definition ds3231_bin2bcd :: "u8 \<Rightarrow> u8" where
  "ds3231_bin2bcd v = push_bit 4 (v div 10) OR (v mod 10)"

section \<open>Operations\<close>

definition ds3231_present :: "'d hw \<Rightarrow> ('d, 'z) m \<Rightarrow> (bool \<times> ('d, 'z) m) option" where
  "ds3231_present hw s = do { (rc, s) \<leftarrow> i2c_probe hw DS3231_ADDR s; Some (rc = I2C_OK, s) }"

definition ds3231_time_invalid :: "'d hw \<Rightarrow> ('d, 'z) m \<Rightarrow> (bool \<times> ('d, 'z) m) option" where
  "ds3231_time_invalid hw s = do {
     (rc, r, s) \<leftarrow> i2c_read_reg hw DS3231_ADDR DS3231_REG_STATUS s;
     if rc \<noteq> I2C_OK then Some (True, s) else do {
       let st = r ! 0;
       (_, s) \<leftarrow> (if st AND DS3231_STATUS_OSF \<noteq> 0
                then i2c_write_reg hw DS3231_ADDR DS3231_REG_STATUS (st AND NOT DS3231_STATUS_OSF) s
                else Some (0, s));
       Some (st AND DS3231_STATUS_OSF \<noteq> 0, s) } }"

text \<open>The seven registers as a time, and a time as the seven registers.\<close>

definition regs_time :: "u8 list \<Rightarrow> ds3231_time" where
  "regs_time r = \<lparr>
     sec = ds3231_bcd2bin (r ! 0),
     mins = ds3231_bcd2bin (r ! 1),
     hour = ds3231_bcd2bin (r ! 2 AND 0x3F),
     dow = (if r ! 3 \<noteq> 0 then r ! 3 - 1 else 0),
     date = ds3231_bcd2bin (r ! 4),
     month = ds3231_bcd2bin (r ! 5 AND 0x1F),
     year = ds3231_bcd2bin (r ! 6)\<rparr>"

definition time_regs :: "ds3231_time \<Rightarrow> u8 list" where
  "time_regs t =
     [ds3231_bin2bcd (sec t), ds3231_bin2bcd (mins t), ds3231_bin2bcd (hour t), dow t + 1,
      ds3231_bin2bcd (date t), ds3231_bin2bcd (month t), ds3231_bin2bcd (year t)]"

definition ds3231_get_time ::
  "'d hw \<Rightarrow> ('d, 'z) m \<Rightarrow> (int \<times> ds3231_time option \<times> ('d, 'z) m) option" where
  "ds3231_get_time hw s = do {
     (rc, r, s) \<leftarrow> i2c_read_regs hw DS3231_ADDR DS3231_REG_SECONDS 7 s;
     if rc \<noteq> I2C_OK then Some (rc, None, s) else Some (I2C_OK, Some (regs_time r), s) }"

definition time_bad :: "ds3231_time \<Rightarrow> bool" where
  "time_bad t \<longleftrightarrow> sec t > 59 \<or> mins t > 59 \<or> hour t > 23 \<or> dow t > 6 \<or>
     date t < 1 \<or> date t > 31 \<or> month t < 1 \<or> month t > 12 \<or> year t > 99"

definition ds3231_set_time :: "'d hw \<Rightarrow> ds3231_time \<Rightarrow> ('d, 'z) m \<Rightarrow> (int \<times> ('d, 'z) m) option" where
  "ds3231_set_time hw t s =
     (if time_bad t then Some (- 1, s)
      else i2c_write_regs hw DS3231_ADDR DS3231_REG_SECONDS (time_regs t) s)"

definition temp_x4 :: "u8 \<Rightarrow> u8 \<Rightarrow> int" where
  "temp_x4 r0 r1 =
     (let t = uint r0; t = (if r0 AND 0x80 \<noteq> 0 then t - 256 else t)
      in t * 4 + uint (drop_bit 6 r1))"

definition ds3231_get_temp_x4 :: "'d hw \<Rightarrow> ('d, 'z) m \<Rightarrow> (int \<times> int \<times> ('d, 'z) m) option" where
  "ds3231_get_temp_x4 hw s = do {
     (rc, r, s) \<leftarrow> i2c_read_regs hw DS3231_ADDR DS3231_REG_TEMP 2 s;
     if rc \<noteq> I2C_OK then Some (0, rc, s) else Some (temp_x4 (r ! 0) (r ! 1), rc, s) }"

text \<open>C's \<open>/\<close> truncates.\<close>

definition ds3231_get_temp_c :: "'d hw \<Rightarrow> ('d, 'z) m \<Rightarrow> (int \<times> int \<times> ('d, 'z) m) option" where
  "ds3231_get_temp_c hw s = do { (t, rc, s) \<leftarrow> ds3231_get_temp_x4 hw s; Some (t sdiv 4, rc, s) }"

section \<open>The chip's registers\<close>

text \<open>Every two-digit number survives, and keeps its two digits in the two nibbles.\<close>

lemma bcd_all:
  "\<forall>n \<in> set [0..<100]. let b = ds3231_bin2bcd (of_nat n) in
     unat (drop_bit 4 b) = n div 10 \<and> unat (b AND 0x0F) = n mod 10 \<and> ds3231_bcd2bin b = of_nat n"
  by code_simp

lemma masked_all:
  "\<forall>n \<in> set [0..<24]. ds3231_bin2bcd (of_nat n) AND 0x3F = ds3231_bin2bcd (of_nat n)"
  "\<forall>n \<in> set [0..<13]. ds3231_bin2bcd (of_nat n) AND 0x1F = ds3231_bin2bcd (of_nat n)"
  by code_simp+

lemma u8_small: "unat (v :: u8) < n \<Longrightarrow> v = of_nat (unat v) \<and> unat v \<in> set [0..<n]"
  by simp

lemma bcd_round: "unat v < 100 \<Longrightarrow> ds3231_bcd2bin (ds3231_bin2bcd v) = v"
  using bcd_all u8_small [of v 100] by (metis (no_types, lifting))

lemma sign_bit: "(r :: u8) AND 0x80 \<noteq> 0 \<longleftrightarrow> 128 \<le> uint r"
proof -
  have "r AND 0x80 \<noteq> 0 \<longleftrightarrow> bit r 7"
    using and_exp_eq_0_iff_not_bit [of r 7] by simp
  also have "\<dots> \<longleftrightarrow> bit (uint r) 7" by (simp add: bit_uint_iff)
  also have "\<dots> \<longleftrightarrow> odd (uint r div 128)" by (simp add: bit_iff_odd)
  also have "\<dots> \<longleftrightarrow> 128 \<le> uint r"
  proof -
    have "0 \<le> uint r" "uint r < 256" using unsigned_less [of r, where ?'a = int] by simp_all
    then have "uint r div 128 = (if 128 \<le> uint r then 1 else 0)" by (auto split: if_split)
    then show ?thesis by simp
  qed
  finally show ?thesis .
qed

lemma uint_join16: "uint (push_bit 8 (ucast r0) OR ucast r1 :: u16) = uint r0 * 256 + uint r1" for r0 r1 :: u8
proof -
  have "bit r1 n \<Longrightarrow> n < 8" for n using bit_imp_le_length [of r1 n] by simp
  then have "push_bit 8 (ucast r0) AND (ucast r1 :: u16) = 0"
    by (intro bit_eqI) (force simp: bit_simps)
  then have "push_bit 8 (ucast r0) OR (ucast r1 :: u16) = push_bit 8 (ucast r0) + ucast r1"
    by (rule disjunctive_add_eq_or [symmetric])
  moreover have "uint r0 < 256" "uint r1 < 256"
    using unsigned_less [of r0, where ?'a = int] unsigned_less [of r1, where ?'a = int] by simp_all
  ultimately show ?thesis
    by (simp add: push_bit_eq_mult uint_word_ariths unsigned_ucast_eq take_bit_eq_mod)
qed

section \<open>Properties\<close>

text \<open>The time encoding is a round trip: every time that \<open>set_time\<close> accepts is what \<open>get_time\<close>
  decodes from the registers \<open>set_time\<close> writes for it, and every field register holds its two decimal
  digits in BCD.\<close>

theorem ds3231_time_round_trip:
  assumes "\<not> time_bad t"
  shows "regs_time (time_regs t) = t \<and>
    (\<forall>v \<in> {sec t, mins t, hour t, date t, month t, year t}.
       unat (drop_bit 4 (ds3231_bin2bcd v)) = unat v div 10 \<and> unat (ds3231_bin2bcd v AND 0x0F) = unat v mod 10)"
proof -
  have range: "unat (sec t) < 100" "unat (mins t) < 100" "unat (hour t) < 24" "unat (dow t) < 7"
    "unat (date t) < 100" "unat (month t) < 13" "unat (year t) < 100"
    using assms by (simp_all add: time_bad_def word_less_nat_alt word_le_nat_alt not_less)
  have hour: "ds3231_bin2bcd (hour t) AND 0x3F = ds3231_bin2bcd (hour t)"
    using masked_all(1) u8_small [OF range(3)] by metis
  have month: "ds3231_bin2bcd (month t) AND 0x1F = ds3231_bin2bcd (month t)"
    using masked_all(2) u8_small [OF range(6)] by metis
  have "dow t + 1 \<noteq> 0" using range(4) by (simp add: word_unat_eq_iff unat_word_ariths)
  then have "regs_time (time_regs t) = t"
    using range hour month by (simp add: regs_time_def time_regs_def bcd_round)
  moreover have "unat (drop_bit 4 (ds3231_bin2bcd v)) = unat v div 10 \<and> unat (ds3231_bin2bcd v AND 0x0F) = unat v mod 10"
    if "unat v < 100" for v
    using bcd_all u8_small [OF that] by (metis (no_types, lifting))
  ultimately show ?thesis using range by auto
qed

theorem ds3231_time_round_trip_witness:
  "let t = \<lparr>sec = 59, mins = 8, hour = 23, dow = 0, date = 31, month = 12, year = 99\<rparr>
   in regs_time (time_regs t) = t \<and> time_regs t = [0x59, 0x08, 0x23, 1, 0x31, 0x12, 0x99]"
proof -
  let ?t = "\<lparr>sec = 59, mins = 8, hour = 23, dow = 0, date = 31, month = 12, year = 99\<rparr>"
  have "\<not> time_bad ?t" by (simp add: time_bad_def)
  from ds3231_time_round_trip [OF this] have "regs_time (time_regs ?t) = ?t" by blast
  moreover have "time_regs ?t = [0x59, 0x08, 0x23, 1, 0x31, 0x12, 0x99]"
    by code_simp
  ultimately show ?thesis by (simp add: Let_def)
qed

text \<open>The quarter degrees are the ten-bit two's complement value of the two temperature registers,
  but \<open>ds3231_get_temp_c\<close> rounds toward zero: below zero and off a whole degree it is one above the
  rounding toward negative infinity that its comment states.\<close>

theorem ds3231_temp_rounding:
  "temp_x4 r0 r1 = sint (push_bit 8 (ucast r0) OR ucast r1 :: u16) div 64 \<and>
   (temp_x4 r0 r1 < 0 \<and> temp_x4 r0 r1 mod 4 \<noteq> 0 \<longrightarrow> temp_x4 r0 r1 sdiv 4 = temp_x4 r0 r1 div 4 + 1)"
proof
  let ?a = "uint r0" and ?b = "uint r1"
  have b: "0 \<le> ?a" "?a < 256" "0 \<le> ?b" "?b < 256"
    using unsigned_less [of r0, where ?'a = int] unsigned_less [of r1, where ?'a = int] by simp_all
  have q: "uint (drop_bit 6 r1) = ?b div 64"
  proof -
    have "int (unat (drop_bit 6 r1)) = int (unat r1) div 64" by (simp only: unat_drop_bit zdiv_int) simp
    then show ?thesis by (simp only: int_nat_eq uint_nat)
  qed
  have split: "(?a * 256 + ?b) div 64 = ?a * 4 + ?b div 64" by simp
  have "sint (push_bit 8 (ucast r0) OR ucast r1 :: u16) =
      (if 128 \<le> ?a then ?a * 256 + ?b - 65536 else ?a * 256 + ?b)"
  proof (cases "128 \<le> ?a")
    case True
    then have "(?a * 256 + ?b + 32768) mod 65536 = (?a * 256 + ?b - 32768) mod 65536"
      using mod_add_self2 [of "?a * 256 + ?b - 32768" 65536] by (simp add: add.commute)
    also have "\<dots> = ?a * 256 + ?b - 32768" using True b by (intro mod_pos_pos_trivial) linarith+
    finally show ?thesis using True by (simp add: sint_mod uint_join16)
  next
    case False
    then have "(?a * 256 + ?b + 32768) mod 65536 = ?a * 256 + ?b + 32768"
      using False b by (intro mod_pos_pos_trivial) linarith+
    then show ?thesis using False by (simp add: sint_mod uint_join16)
  qed
  moreover have "(?a * 256 + ?b - 65536) div 64 = ?a * 4 + ?b div 64 - 1024" by simp
  ultimately show "temp_x4 r0 r1 = sint (push_bit 8 (ucast r0) OR ucast r1 :: u16) div 64"
    using split by (simp add: temp_x4_def Let_def sign_bit q)
next
  show "temp_x4 r0 r1 < 0 \<and> temp_x4 r0 r1 mod 4 \<noteq> 0 \<longrightarrow> temp_x4 r0 r1 sdiv 4 = temp_x4 r0 r1 div 4 + 1"
    by (simp add: signed_divide_int_def zdiv_zminus1_eq_if)
qed

theorem ds3231_temp_rounding_witness: "temp_x4 0xFF 0xC0 = - 1 \<and> temp_x4 0xFF 0xC0 sdiv 4 = 0"
proof -
  have "temp_x4 0xFF 0xC0 = - 1" by code_simp
  with ds3231_temp_rounding [of "0xFF" "0xC0"] show ?thesis by simp
qed

end
