(* ===== verification/Bmp280.thy ===== *)
theory Bmp280
  imports I2c
begin

text \<open>
  \<open>sim/sw/common/bmp280.h\<close>: the I2C pressure sensor.  \<open>bmp_s64\<close> is a 64-bit word read as two's
  complement, so every operation wraps as the compiled code does; the theorems say where nothing wraps.
\<close>

type_synonym s64 = "64 word"

record bmp280_calib =
  cal_t1 :: u16
  cal_t2 :: u16
  cal_t3 :: u16
  cal_p1 :: u16
  cal_p2 :: u16
  cal_p3 :: u16
  cal_p4 :: u16
  cal_p5 :: u16
  cal_p6 :: u16
  cal_p7 :: u16
  cal_p8 :: u16
  cal_p9 :: u16

text \<open>The three statics of the driver.\<close>

record 'd bmp280 = "'d mach" +
  bmp280_addr :: u8
  bmp280_cal :: bmp280_calib
  bmp280_t_fine :: u32

definition BMP280_ADDR_A :: u8 where "BMP280_ADDR_A = 0x76"
definition BMP280_CHIP_ID :: u8 where "BMP280_CHIP_ID = 0x58"
definition BMP280_REG_ID :: u8 where "BMP280_REG_ID = 0xD0"
definition BMP280_REG_STATUS :: u8 where "BMP280_REG_STATUS = 0xF3"
definition BMP280_REG_CTRL_MEAS :: u8 where "BMP280_REG_CTRL_MEAS = 0xF4"
definition BMP280_REG_PRESS :: u8 where "BMP280_REG_PRESS = 0xF7"
definition BMP280_REG_CALIB :: u8 where "BMP280_REG_CALIB = 0x88"
definition BMP280_STATUS_MEASURING :: u8 where "BMP280_STATUS_MEASURING = 0x08"
definition BMP280_OSRS_X16 :: u32 where "BMP280_OSRS_X16 = 5"
definition BMP280_MODE_FORCED :: u32 where "BMP280_MODE_FORCED = 1"

section \<open>64-bit arithmetic\<close>

definition bmp_u64_mul :: "u64 \<Rightarrow> u64 \<Rightarrow> u64" where
  "bmp_u64_mul a b =
     (let a0 = (ucast a :: u32); a1 = (ucast (drop_bit 32 a) :: u32);
          b0 = (ucast b :: u32); b1 = (ucast (drop_bit 32 b) :: u32)
      in ucast a0 * ucast b0 + push_bit 32 (ucast a0 * ucast b1 + ucast a1 * ucast b0))"

text \<open>The division loop; the first argument is \<open>i + 1\<close>.\<close>

fun div_loop :: "nat \<Rightarrow> u64 \<Rightarrow> u64 \<Rightarrow> u64 \<Rightarrow> u64 \<Rightarrow> u64" where
  "div_loop 0 n d q r = q"
| "div_loop (Suc i) n d q r =
     (let r = push_bit 1 r OR (drop_bit i n AND 1)
      in if r \<ge> d then div_loop i n d (q OR push_bit i 1) (r - d) else div_loop i n d q r)"

definition bmp_u64_div :: "u64 \<Rightarrow> u64 \<Rightarrow> u64" where
  "bmp_u64_div n d = div_loop 64 n d 0 0"

text \<open>\<open>(bmp_u64)(-(a + 1)) + 1u\<close> when negative.\<close>

definition magnitude :: "s64 \<Rightarrow> u64" where
  "magnitude a = (if sint a < 0 then (- (a + 1)) + 1 else a)"

definition bmp_s64_mul :: "s64 \<Rightarrow> s64 \<Rightarrow> s64" where
  "bmp_s64_mul a b =
     (let neg = ((sint a < 0) \<noteq> (sint b < 0)); p = bmp_u64_mul (magnitude a) (magnitude b)
      in if neg then - p else p)"

definition bmp_s64_div :: "s64 \<Rightarrow> s64 \<Rightarrow> s64" where
  "bmp_s64_div a b =
     (let neg = ((sint a < 0) \<noteq> (sint b < 0)); p = bmp_u64_div (magnitude a) (magnitude b)
      in if neg then - p else p)"

definition bmp280_le_u16 :: "u8 list \<Rightarrow> nat \<Rightarrow> u16" where
  "bmp280_le_u16 c i = ucast (c ! i) OR push_bit 8 (ucast (c ! Suc i))"

text \<open>The conversion to \<open>short\<close> keeps the sixteen bits.\<close>

definition bmp280_le_s16 :: "u8 list \<Rightarrow> nat \<Rightarrow> u16" where
  "bmp280_le_s16 c i = (let u = bmp280_le_u16 c i in
     if u AND 0x8000 \<noteq> 0 then ucast (ucast u - 0x10000 :: u32) else u)"

section \<open>Set-up and measurement\<close>

definition calib_of :: "u8 list \<Rightarrow> bmp280_calib" where
  "calib_of c = \<lparr>cal_t1 = bmp280_le_u16 c 0, cal_t2 = bmp280_le_s16 c 2, cal_t3 = bmp280_le_s16 c 4,
     cal_p1 = bmp280_le_u16 c 6, cal_p2 = bmp280_le_s16 c 8, cal_p3 = bmp280_le_s16 c 10,
     cal_p4 = bmp280_le_s16 c 12, cal_p5 = bmp280_le_s16 c 14, cal_p6 = bmp280_le_s16 c 16,
     cal_p7 = bmp280_le_s16 c 18, cal_p8 = bmp280_le_s16 c 20, cal_p9 = bmp280_le_s16 c 22\<rparr>"

definition bmp280_read_calib :: "'d hw \<Rightarrow> ('d, 'z) bmp280_scheme \<Rightarrow> (int \<times> ('d, 'z) bmp280_scheme) option" where
  "bmp280_read_calib hw s = do {
     (rc, c, s) \<leftarrow> i2c_read_regs hw (bmp280_addr s) BMP280_REG_CALIB 24 s;
     if rc \<noteq> I2C_OK then Some (rc, s) else Some (I2C_OK, s\<lparr>bmp280_cal := calib_of c\<rparr>) }"

definition bmp280_begin :: "'d hw \<Rightarrow> u8 \<Rightarrow> ('d, 'z) bmp280_scheme \<Rightarrow> (int \<times> ('d, 'z) bmp280_scheme) option" where
  "bmp280_begin hw addr s = do {
     let s = s\<lparr>bmp280_addr := addr\<rparr>;
     (rc, r, s) \<leftarrow> i2c_read_reg hw (bmp280_addr s) BMP280_REG_ID s;
     if rc \<noteq> I2C_OK then Some (- 1, s)
     else if r ! 0 \<noteq> BMP280_CHIP_ID then Some (- 1, s)
     else do {
       (rc, s) \<leftarrow> bmp280_read_calib hw s;
       if rc \<noteq> I2C_OK then Some (- 1, s) else Some (0, s) } }"

definition bmp280_busy :: "'d hw \<Rightarrow> ('d, 'z) bmp280_scheme \<Rightarrow> (bool \<times> ('d, 'z) bmp280_scheme) option" where
  "bmp280_busy hw s = do {
     (rc, r, s) \<leftarrow> i2c_read_reg hw (bmp280_addr s) BMP280_REG_STATUS s;
     if rc \<noteq> I2C_OK then Some (True, s) else Some (r ! 0 AND BMP280_STATUS_MEASURING \<noteq> 0, s) }"

definition bmp280_start_forced ::
  "'d hw \<Rightarrow> u32 \<Rightarrow> u32 \<Rightarrow> ('d, 'z) bmp280_scheme \<Rightarrow> (int \<times> ('d, 'z) bmp280_scheme) option" where
  "bmp280_start_forced hw osrs_t osrs_p s =
     (let ctrl = ucast (push_bit 5 osrs_t OR push_bit 2 osrs_p OR BMP280_MODE_FORCED)
      in i2c_write_reg hw (bmp280_addr s) BMP280_REG_CTRL_MEAS ctrl s)"

definition adc20 :: "u8 \<Rightarrow> u8 \<Rightarrow> u8 \<Rightarrow> u32" where
  "adc20 a b c = push_bit 12 (ucast a) OR push_bit 4 (ucast b) OR drop_bit 4 (ucast c)"

definition bmp280_read_raw ::
  "'d hw \<Rightarrow> ('d, 'z) bmp280_scheme \<Rightarrow> (int \<times> (u32 \<times> u32) option \<times> ('d, 'z) bmp280_scheme) option" where
  "bmp280_read_raw hw s = do {
     (rc, d, s) \<leftarrow> i2c_read_regs hw (bmp280_addr s) BMP280_REG_PRESS 6 s;
     if rc \<noteq> I2C_OK then Some (rc, None, s)
     else Some (I2C_OK, Some (adc20 (d ! 0) (d ! 1) (d ! 2), adc20 (d ! 3) (d ! 4) (d ! 5)), s) }"

text \<open>The compensation formulas, and the statics they read and write.\<close>

definition t_vars :: "bmp280_calib \<Rightarrow> u32 \<Rightarrow> s64 \<times> s64" where
  "t_vars c adc_t =
     (let a = ucast adc_t;
          var1 = signed_drop_bit 11 ((signed_drop_bit 3 a - push_bit 1 (ucast (cal_t1 c))) * scast (cal_t2 c));
          var2 = signed_drop_bit 14 (signed_drop_bit 12
                   ((signed_drop_bit 4 a - ucast (cal_t1 c)) * (signed_drop_bit 4 a - ucast (cal_t1 c)))
                   * scast (cal_t3 c))
      in (var1, var2))"

definition bmp280_comp_temp_x100 :: "u32 \<Rightarrow> ('d, 'z) bmp280_scheme \<Rightarrow> u32 \<times> ('d, 'z) bmp280_scheme" where
  "bmp280_comp_temp_x100 adc_t s =
     (let (var1, var2) = t_vars (bmp280_cal s) adc_t
      in (ucast (signed_drop_bit 8 ((var1 + var2) * 5 + 128)), s\<lparr>bmp280_t_fine := ucast (var1 + var2)\<rparr>))"

definition comp_pressure :: "bmp280_calib \<Rightarrow> u32 \<Rightarrow> u32 \<Rightarrow> u32" where
  "comp_pressure c t_fine adc_p =
     (let var1 = scast t_fine - 128000;
          var2 = bmp_s64_mul var1 var1;
          var2 = bmp_s64_mul var2 (scast (cal_p6 c));
          var2 = var2 + bmp_s64_mul var1 (push_bit 17 (scast (cal_p5 c)));
          var2 = var2 + push_bit 35 (scast (cal_p4 c));
          var1 = signed_drop_bit 8 (bmp_s64_mul (bmp_s64_mul var1 var1) (scast (cal_p3 c)))
                 + bmp_s64_mul var1 (push_bit 12 (scast (cal_p2 c)));
          var1 = signed_drop_bit 33 (bmp_s64_mul (push_bit 47 1 + var1) (ucast (cal_p1 c)))
      in if var1 = 0 then 0 else
         let p = 1048576 - ucast adc_p;
             p = bmp_s64_div (bmp_s64_mul (push_bit 31 p - var2) 3125) var1;
             var1 = signed_drop_bit 25 (bmp_s64_mul (bmp_s64_mul (scast (cal_p9 c)) (signed_drop_bit 13 p)) (signed_drop_bit 13 p));
             var2 = signed_drop_bit 19 (bmp_s64_mul (scast (cal_p8 c)) p);
             p = signed_drop_bit 8 (p + var1 + var2) + push_bit 4 (scast (cal_p7 c))
         in ucast p)"

definition bmp280_comp_pressure_pa :: "u32 \<Rightarrow> ('d, 'z) bmp280_scheme \<Rightarrow> u32" where
  "bmp280_comp_pressure_pa adc_p s = comp_pressure (bmp280_cal s) (bmp280_t_fine s) adc_p"

partial_function (option) bmp280_wait :: "'d hw \<Rightarrow> ('d, 'z) bmp280_scheme \<Rightarrow> ('d, 'z) bmp280_scheme option" where
  "bmp280_wait hw s = do { (busy, s) \<leftarrow> bmp280_busy hw s; if busy then bmp280_wait hw s else Some s }"

definition bmp280_measure ::
  "'d hw \<Rightarrow> ('d, 'z) bmp280_scheme \<Rightarrow> (int \<times> (u32 \<times> u32) option \<times> ('d, 'z) bmp280_scheme) option" where
  "bmp280_measure hw s = do {
     (rc, s) \<leftarrow> bmp280_start_forced hw BMP280_OSRS_X16 BMP280_OSRS_X16 s;
     if rc \<noteq> I2C_OK then Some (rc, None, s) else do {
       s \<leftarrow> bmp280_wait hw s;
       (rc, raw, s) \<leftarrow> bmp280_read_raw hw s;
       case raw of None \<Rightarrow> Some (rc, None, s)
       | Some (adc_p, adc_t) \<Rightarrow>
           let (temp, s) = bmp280_comp_temp_x100 adc_t s
           in Some (I2C_OK, Some (temp, bmp280_comp_pressure_pa adc_p s), s) } }"

section \<open>Products and quotients\<close>

lemma halves: "(ucast (ucast a :: u32) :: u64) + ucast (ucast (drop_bit 32 a) :: u32) * 2 ^ 32 = a"
proof -
  have "(ucast (ucast a :: u32) :: u64) = take_bit 32 a"
    by (rule bit_eqI) (auto simp: bit_simps)
  moreover have "(ucast (ucast (drop_bit 32 a) :: u32) :: u64) = drop_bit 32 a"
    by (rule bit_eqI) (auto simp: bit_simps dest: bit_imp_le_length)
  ultimately show ?thesis
    using bits_ident [of 32 a] by (simp add: push_bit_eq_mult add.commute)
qed

lemma u64_mul: "bmp_u64_mul a b = a * b"
proof -
  define a0 a1 b0 b1 :: u64 where "a0 = ucast (ucast a :: u32)" and "a1 = ucast (ucast (drop_bit 32 a) :: u32)"
    and "b0 = ucast (ucast b :: u32)" and "b1 = ucast (ucast (drop_bit 32 b) :: u32)"
  have zero: "(2 ^ 32 * 2 ^ 32 :: u64) = 0" by simp
  have z: "2 ^ 32 * (2 ^ 32 * x) = (0 :: u64)" for x
    by (simp only: mult.assoc [symmetric] zero mult_zero_left)
  have "a * b = (a0 + a1 * 2 ^ 32) * (b0 + b1 * 2 ^ 32)"
    unfolding a0_def a1_def b0_def b1_def halves ..
  also have "\<dots> = a0 * b0 + 2 ^ 32 * (a0 * b1 + a1 * b0) + 2 ^ 32 * (2 ^ 32 * (a1 * b1))"
    by (simp only: ring_distribs ac_simps)
  also have "\<dots> = a0 * b0 + push_bit 32 (a0 * b1 + a1 * b0)"
    unfolding z push_bit_eq_mult by (simp only: ac_simps add_0_right add_0_left)
  finally show ?thesis
    by (simp add: bmp_u64_mul_def Let_def a0_def a1_def b0_def b1_def)
qed

lemma magnitude_eq: "magnitude a = (if sint a < 0 then - a else a)"
  by (simp add: magnitude_def)

lemma s64_mul: "bmp_s64_mul a b = a * b"
  by (simp add: bmp_s64_mul_def u64_mul magnitude_eq Let_def)

text \<open>One turn of the division loop and all of it, as numbers.\<close>

lemma shift_in: "unat r < 2 ^ 63 \<Longrightarrow> unat (push_bit 1 r OR (drop_bit i n AND 1)) = 2 * unat r + unat n div 2 ^ i mod 2"
  for r n :: u64
proof -
  assume r: "unat r < 2 ^ 63"
  have bit: "unat (drop_bit i n AND 1) = unat n div 2 ^ i mod 2"
    by (simp only: and_masks(6) unat_take_bit unat_drop_bit power_one_right)
  have "push_bit 1 r AND (drop_bit i n AND 1) = 0"
    by (rule bit_eqI) (simp only: bit_and_iff bit_push_bit_iff bit_1_iff bit_0_eq bot_apply, auto)
  then have "push_bit 1 r OR (drop_bit i n AND 1) = push_bit 1 r + (drop_bit i n AND 1)"
    by (rule disjunctive_add_eq_or [symmetric])
  moreover have "unat (push_bit 1 r) = 2 * unat r"
    using r by (simp add: push_bit_eq_mult unat_word_ariths)
  ultimately show ?thesis
    using r bit by (simp add: unat_word_ariths)
qed

lemma set_bit_low:
  fixes q :: u64
  assumes "unat q mod 2 ^ Suc i = 0" and "i < 64"
  shows "unat (q OR push_bit i 1) = unat q + 2 ^ i"
proof -
  have "q AND push_bit i 1 = 0"
  proof -
    have "take_bit (Suc i) q = 0"
      using assms(1) by (simp only: word_unat_eq_iff unat_take_bit) simp
    then have "\<not> bit q i" by (metis bit_0_eq bit_take_bit_iff lessI bot_apply bot_bool_def)
    then show ?thesis by (auto intro!: bit_eqI simp: bit_simps)
  qed
  then have "q OR push_bit i 1 = q + push_bit i 1"
    by (rule disjunctive_add_eq_or [symmetric])
  moreover have "unat (push_bit i 1 :: u64) = 2 ^ i"
  proof -
    have "(2 :: nat) ^ i < 2 ^ 64" using assms(2) by (intro power_strict_increasing) simp_all
    moreover have "(push_bit i 1 :: u64) = of_nat (2 ^ i)" by (simp add: push_bit_eq_mult)
    ultimately show ?thesis by (simp only: unat_of_nat) simp
  qed
  moreover have "unat q + 2 ^ i < 2 ^ 64"
  proof -
    obtain k where k: "unat q = 2 ^ Suc i * k" using assms(1) by (auto elim: dvdE simp: mod_eq_0_iff_dvd)
    have e: "(2 :: nat) ^ 64 = 2 ^ Suc i * 2 ^ (63 - i)"
      using assms(2) by (simp add: power_add [symmetric])
    have "2 ^ Suc i * k < 2 ^ Suc i * 2 ^ (63 - i)"
      using unat_bound [of q] unfolding k e [symmetric] by simp
    then have "k < 2 ^ (63 - i)" by simp
    then have "2 ^ Suc i * (k + 1) \<le> 2 ^ Suc i * 2 ^ (63 - i)" by (intro mult_le_mono2) simp
    then have "unat q + 2 ^ Suc i \<le> 2 ^ 64" unfolding e k by (simp add: distrib_left)
    moreover have "(2 :: nat) ^ i < 2 ^ Suc i" by simp
    ultimately show ?thesis by linarith
  qed
  ultimately show ?thesis by (simp add: unat_word_ariths)
qed

lemma div_loop_val:
  "i \<le> 64 \<Longrightarrow> 0 < unat d \<Longrightarrow> unat d \<le> 2 ^ 63 \<Longrightarrow> unat r < unat d \<Longrightarrow> unat q mod 2 ^ i = 0 \<Longrightarrow>
   unat (div_loop i n d q r) = unat q + (unat r * 2 ^ i + unat n mod 2 ^ i) div unat d"
proof (induction i arbitrary: q r)
  case 0
  then show ?case by simp
next
  case (Suc i)
  define b where "b = unat n div 2 ^ i mod 2"
  define r' where "r' = push_bit 1 r OR (drop_bit i n AND 1)"
  have r': "unat r' = 2 * unat r + b"
    unfolding r'_def b_def using Suc.prems by (intro shift_in) linarith
  have b: "b < 2" by (simp add: b_def)
  have n: "unat n mod 2 ^ Suc i = b * 2 ^ i + unat n mod 2 ^ i"
    using mod_mult2_eq [of "unat n" "2 ^ i" 2] by (simp add: b_def mult.commute)
  have total: "unat r * 2 ^ Suc i + unat n mod 2 ^ Suc i = unat r' * 2 ^ i + unat n mod 2 ^ i"
    unfolding n r' by (simp add: algebra_simps)
  have low: "unat q mod 2 ^ i = 0"
    using Suc.prems(5) by (metis mod_mod_cancel le_imp_power_dvd lessI less_imp_le mod_0)
  show ?case
  proof (cases "r' \<ge> d")
    case True
    then have ge: "unat d \<le> unat r'" by (simp add: word_le_nat_alt)
    have sub: "unat (r' - d) = unat r' - unat d" using True by (simp add: unat_sub)
    have set: "unat (q OR push_bit i 1) = unat q + 2 ^ i"
      using Suc.prems by (intro set_bit_low) auto
    have "unat (div_loop i n d (q OR push_bit i 1) (r' - d)) =
        unat (q OR push_bit i 1) + (unat (r' - d) * 2 ^ i + unat n mod 2 ^ i) div unat d"
    proof (rule Suc.IH)
      show "unat (r' - d) < unat d" using Suc.prems(4) r' b ge sub by linarith
      show "unat (q OR push_bit i 1) mod 2 ^ i = 0" using low unfolding set by simp
    qed (use Suc.prems in auto)
    moreover have "unat r' * 2 ^ i + unat n mod 2 ^ i =
        ((unat r' - unat d) * 2 ^ i + unat n mod 2 ^ i) + 2 ^ i * unat d"
    proof -
      obtain k where "unat r' = unat d + k" using ge le_Suc_ex by blast
      then show ?thesis by (simp add: algebra_simps)
    qed
    then have "(unat r' * 2 ^ i + unat n mod 2 ^ i) div unat d =
        ((unat r' - unat d) * 2 ^ i + unat n mod 2 ^ i) div unat d + 2 ^ i"
      using Suc.prems(2) by (metis add.commute div_mult_self1 less_not_refl)
    ultimately show ?thesis
      using True unfolding total div_loop.simps(2) Let_def r'_def [symmetric] set sub by simp
  next
    case False
    then have lt: "unat r' < unat d" by (simp add: word_le_nat_alt)
    have "unat (div_loop i n d q r') = unat q + (unat r' * 2 ^ i + unat n mod 2 ^ i) div unat d"
      using Suc.prems lt low by (intro Suc.IH) auto
    then show ?thesis
      using False unfolding total div_loop.simps(2) Let_def r'_def [symmetric] by simp
  qed
qed

lemma u64_div:
  assumes "0 < unat d" and "unat d \<le> 2 ^ 63"
  shows "unat (bmp_u64_div n d) = unat n div unat d"
proof -
  have "unat n mod 2 ^ 64 = unat n" using unat_bound [of n] by (intro mod_less) simp
  then show ?thesis
    using div_loop_val [of 64 d 0 0 n] assms by (simp add: bmp_u64_div_def)
qed

text \<open>Signs: the magnitude is the absolute value, and a quotient takes its sign back.\<close>

lemma sint_bounds_64: "- (2 ^ 63) \<le> sint (a :: 64 word) \<and> sint a < 2 ^ 63"
  using sint_ge [of a] sint_lt [of a] by simp

lemma sint_word_of_int_64: "- 9223372036854775808 \<le> e \<Longrightarrow> e < 9223372036854775808 \<Longrightarrow> sint (word_of_int e :: 64 word) = e"
  unfolding sint_mod uint_word_of_int by (simp add: mod_add_left_eq)

lemma unat_magnitude: "int (unat (magnitude a)) = \<bar>sint a\<bar>"
proof (cases "sint a < 0")
  case True
  have "- a = word_of_int (- sint a)" by simp
  then have "uint (- a) = (- sint a) mod 2 ^ 64" by (simp only: uint_word_of_int) simp
  also have "\<dots> = - sint a"
    using True sint_bounds_64 [of a] by (intro mod_pos_pos_trivial) auto
  finally show ?thesis using True by (simp add: magnitude_eq)
next
  case False
  have "uint a = sint a mod 2 ^ 64"
    using uint_sint [of a] by (simp only: take_bit_eq_mod) simp
  also have "\<dots> = sint a"
    using False sint_bounds_64 [of a] by (intro mod_pos_pos_trivial) auto
  finally show ?thesis using False by (simp add: magnitude_eq)
qed

lemma s64_div: "b \<noteq> 0 \<Longrightarrow> bmp_s64_div a b = word_of_int (sint a sdiv sint b)"
proof -
  assume "b \<noteq> 0"
  then have b0: "sint b \<noteq> 0" by (metis signed_0 signed_word_eqI)
  let ?p = "bmp_u64_div (magnitude a) (magnitude b)"
  have mb: "int (unat (magnitude b)) = \<bar>sint b\<bar>" by (rule unat_magnitude)
  have "0 < int (unat (magnitude b))" unfolding mb using b0 by simp
  then have pos: "0 < unat (magnitude b)" by (simp only: of_nat_0_less_iff)
  have "int (unat (magnitude b)) \<le> int (2 ^ 63)"
    unfolding mb using sint_bounds_64 [of b] by (simp add: abs_le_iff)
  then have "unat (magnitude b) \<le> 2 ^ 63" by (simp only: of_nat_le_iff)
  with pos have "int (unat ?p) = \<bar>sint a\<bar> div \<bar>sint b\<bar>"
    by (simp only: u64_div zdiv_int unat_magnitude)
  then have p: "?p = word_of_int (\<bar>sint a\<bar> div \<bar>sint b\<bar>)"
    by (metis of_int_of_nat_eq of_nat_unat ucast_id)
  show "bmp_s64_div a b = word_of_int (sint a sdiv sint b)"
    using b0 unfolding signed_divide_int_def
    by (auto simp: bmp_s64_div_def p Let_def sgn_if)
qed

text \<open>C14: The 64-bit helpers the driver carries instead of libgcc are the native operations: the product
  modulo 2^64 and, for a non-zero divisor, the quotient truncated toward zero, at every sign combination
  including the most negative operand.\<close>

theorem bmp280_s64_native:
  assumes "b \<noteq> 0"
  shows "bmp_s64_mul a b = a * b \<and> bmp_s64_div a b = word_of_int (sint a sdiv sint b)"
  using assms by (simp add: s64_mul s64_div)

theorem bmp280_s64_native_witness:
  "bmp_s64_mul (- 7) 3 = - 21 \<and> bmp_s64_div (- 7) 2 = - 3"
  using bmp280_s64_native [of 2 "- 7"] bmp280_s64_native [of 3 "- 7"] by simp

section \<open>The temperature formula\<close>

text \<open>What a 64-bit expression denotes, as long as the exact value stays below 2^62 in size.\<close>

lemma den_add: "sint a = x \<Longrightarrow> sint b = y \<Longrightarrow> \<bar>x + y\<bar> \<le> 2 ^ 62 \<Longrightarrow> sint (a + b) = x + y"
  for a b :: s64
  by (auto simp: sint_word_ariths signed_take_bit_int_eq_self abs_le_iff)

lemma den_sub: "sint a = x \<Longrightarrow> sint b = y \<Longrightarrow> \<bar>x - y\<bar> \<le> 2 ^ 62 \<Longrightarrow> sint (a - b) = x - y"
  for a b :: s64
  by (auto simp: sint_word_ariths signed_take_bit_int_eq_self abs_le_iff)

lemma den_mul: "sint a = x \<Longrightarrow> sint b = y \<Longrightarrow> \<bar>x * y\<bar> \<le> 2 ^ 62 \<Longrightarrow> sint (a * b) = x * y"
  for a b :: s64
  by (auto simp: sint_word_ariths signed_take_bit_int_eq_self abs_le_iff)

lemma den_shr: "sint a = x \<Longrightarrow> sint (signed_drop_bit n a) = x div 2 ^ n" for a :: s64
  by (simp add: sint_signed_drop_bit_eq drop_bit_eq_div)

lemma abs_mul_le: "\<bar>x\<bar> \<le> A \<Longrightarrow> \<bar>y\<bar> \<le> B \<Longrightarrow> \<bar>x * y\<bar> \<le> A * B" for x y A B :: int
  by (simp add: abs_mult mult_mono)

lemma abs_div_le: "\<bar>x\<bar> \<le> A * 2 ^ n \<Longrightarrow> \<bar>x div 2 ^ n\<bar> \<le> A" for x A :: int
proof -
  assume a: "\<bar>x\<bar> \<le> A * 2 ^ n"
  have "x div 2 ^ n \<le> (A * 2 ^ n) div 2 ^ n" using a by (intro zdiv_mono1) auto
  moreover have "(- A * 2 ^ n) div 2 ^ n \<le> x div 2 ^ n" using a by (intro zdiv_mono1) auto
  moreover have "(- A * 2 ^ n) div 2 ^ n = - A" by (rule nonzero_mult_div_cancel_right) simp
  moreover have "(A * 2 ^ n) div 2 ^ n = A" by (rule nonzero_mult_div_cancel_right) simp
  ultimately show ?thesis by linarith
qed

text \<open>The datasheet's formula on integers; shifts are divisions that round down.\<close>

definition temp_terms :: "bmp280_calib \<Rightarrow> int \<Rightarrow> int \<times> int" where
  "temp_terms c a =
     (let d = a div 2 ^ 4 - uint (cal_t1 c)
      in ((a div 2 ^ 3 - 2 * uint (cal_t1 c)) * sint (cal_t2 c) div 2 ^ 11,
          (d * d div 2 ^ 12) * sint (cal_t3 c) div 2 ^ 14))"

definition temp_fine :: "bmp280_calib \<Rightarrow> int \<Rightarrow> int" where
  "temp_fine c a = fst (temp_terms c a) + snd (temp_terms c a)"

lemma s16_bounds: "\<bar>sint v\<bar> \<le> 2 ^ 15" for v :: u16
  using sint_ge [of v] sint_lt [of v] by (auto simp: abs_le_iff)

lemma u16_bounds: "0 \<le> uint v \<and> uint v < 65536" for v :: u16
  using unsigned_less [of v, where ?'a = int] by simp

lemma sint_ucast_u32: "sint (ucast v :: s64) = uint v" for v :: u32
proof -
  have "(ucast v :: s64) = word_of_int (uint v)" by simp
  moreover have "sint (word_of_int (uint v) :: s64) = uint v"
    using uint_u32_bounds [of v] by (intro sint_word_of_int_64 order_trans [OF _ unsigned_greater_eq]) simp_all
  ultimately show ?thesis by simp
qed

lemma sint_ucast_u16: "sint (ucast v :: s64) = uint v" for v :: u16
proof -
  have "(ucast v :: s64) = word_of_int (uint v)" by simp
  moreover have "sint (word_of_int (uint v) :: s64) = uint v"
    using u16_bounds [of v] by (intro sint_word_of_int_64 order_trans [OF _ unsigned_greater_eq]) simp_all
  ultimately show ?thesis by simp
qed

lemma sint_scast_u16: "sint (scast v :: s64) = sint v" for v :: u16
proof -
  have "(scast v :: s64) = word_of_int (sint v)" by simp
  moreover have "sint (word_of_int (sint v) :: s64) = sint v"
    using s16_bounds [of v] by (intro sint_word_of_int_64) simp_all
  ultimately show ?thesis by simp
qed

lemma t_vars_exact:
  fixes c :: bmp280_calib and adc :: u32
  assumes a: "uint adc < 2 ^ 20"
  defines "T \<equiv> temp_terms c (uint adc)"
  shows "sint (fst (t_vars c adc)) = fst T" and "sint (snd (t_vars c adc)) = snd T"
    and "\<bar>fst T\<bar> \<le> 2 ^ 21" and "\<bar>snd T\<bar> \<le> 2 ^ 21"
proof -
  let ?x = "uint adc div 2 ^ 3 - 2 * uint (cal_t1 c)" and ?d = "uint adc div 2 ^ 4 - uint (cal_t1 c)"
  have b3: "0 \<le> uint adc div 2 ^ 3 \<and> uint adc div 2 ^ 3 \<le> 131072"
    and b4: "0 \<le> uint adc div 2 ^ 4 \<and> uint adc div 2 ^ 4 \<le> 65536"
    using a uint_u32_bounds [of adc] pos_imp_zdiv_nonneg_iff [of "2 ^ 3" "uint adc"]
      pos_imp_zdiv_nonneg_iff [of "2 ^ 4" "uint adc"] by auto
  note t1 = u16_bounds [of "cal_t1 c"]
  have x: "\<bar>?x\<bar> \<le> 131072" using b3 t1
    unfolding abs_le_iff by (elim conjE) (intro conjI, linarith+)
  have d: "\<bar>?d\<bar> \<le> 65536" using b4 t1
    unfolding abs_le_iff by (elim conjE) (intro conjI, linarith+)
  have x2: "\<bar>?x * sint (cal_t2 c)\<bar> \<le> 131072 * 2 ^ 15" by (rule abs_mul_le [OF x s16_bounds])
  have dd: "\<bar>?d * ?d\<bar> \<le> 65536 * 65536" by (rule abs_mul_le [OF d d])
  have d12: "\<bar>?d * ?d div 2 ^ 12\<bar> \<le> 2 ^ 20" by (rule abs_div_le) (use dd in simp)
  have d3: "\<bar>?d * ?d div 2 ^ 12 * sint (cal_t3 c)\<bar> \<le> 2 ^ 20 * 2 ^ 15"
    by (rule abs_mul_le [OF d12 s16_bounds])
  have T: "fst T = ?x * sint (cal_t2 c) div 2 ^ 11" "snd T = ?d * ?d div 2 ^ 12 * sint (cal_t3 c) div 2 ^ 14"
    by (simp_all add: T_def temp_terms_def Let_def)
  show "\<bar>fst T\<bar> \<le> 2 ^ 21" unfolding T by (rule abs_div_le) (use x2 in simp)
  show "\<bar>snd T\<bar> \<le> 2 ^ 21" unfolding T by (rule abs_div_le) (use d3 in simp)
  have p: "sint (push_bit 1 (ucast (cal_t1 c)) :: s64) = 2 * uint (cal_t1 c)"
  proof -
    have "sint (2 * ucast (cal_t1 c) :: s64) = 2 * uint (cal_t1 c)"
      by (rule den_mul) (use t1 in \<open>simp_all add: sint_ucast_u16\<close>)
    then show ?thesis by (simp add: push_bit_eq_mult mult.commute)
  qed
  note shr_adc = den_shr [OF sint_ucast_u32]
  note X = den_sub [OF shr_adc [of 3 adc] p] and D = den_sub [OF shr_adc [of 4 adc] sint_ucast_u16 [of "cal_t1 c"]]
  have xb: "\<bar>?x\<bar> \<le> 2 ^ 62" and db: "\<bar>?d\<bar> \<le> 2 ^ 62" using x d by simp_all
  have XT: "\<bar>?x * sint (cal_t2 c)\<bar> \<le> 2 ^ 62" and DD: "\<bar>?d * ?d\<bar> \<le> 2 ^ 62"
    and DT: "\<bar>?d * ?d div 2 ^ 12 * sint (cal_t3 c)\<bar> \<le> 2 ^ 62"
    using x2 dd d3 by simp_all
  show "sint (fst (t_vars c adc)) = fst T"
    unfolding T t_vars_def Let_def fst_conv
    by (rule den_shr [OF den_mul [OF X [OF xb] sint_scast_u16 XT]])
  show "sint (snd (t_vars c adc)) = snd T"
    unfolding T t_vars_def Let_def snd_conv
    by (rule den_shr [OF den_mul [OF den_shr [OF den_mul [OF D [OF db] D [OF db] DD]] sint_scast_u16 DT]])
qed

lemma sint_narrow: "\<bar>sint w\<bar> < 2 ^ 31 \<Longrightarrow> sint (ucast w :: u32) = sint w" for w :: s64
proof -
  assume a: "\<bar>sint w\<bar> < 2 ^ 31"
  have "(ucast w :: u32) = scast w" by (simp add: down_cast_same is_down)
  then have "(ucast w :: u32) = word_of_int (sint w)" by (simp only: scast_eq)
  moreover have "(sint w + 2 ^ 31) mod 2 ^ 32 = sint w + 2 ^ 31"
    using a by (intro mod_pos_pos_trivial) (simp_all add: abs_less_iff)
  ultimately show ?thesis by (simp only: int_word_sint) simp
qed

lemma adc20_bound: "uint (adc20 a b c) < 2 ^ 20"
proof -
  have "take_bit 20 (adc20 a b c) = adc20 a b c"
    by (rule bit_eqI) (auto simp: adc20_def bit_simps dest: bit_imp_le_length)
  then show ?thesis
    by (metis take_bit_int_less_exp unsigned_take_bit_eq)
qed

lemma temp_x100:
  assumes "uint adc < 2 ^ 20"
  shows "sint (fst (bmp280_comp_temp_x100 adc s)) = (temp_fine (bmp280_cal s) (uint adc) * 5 + 128) div 2 ^ 8"
    and "sint (bmp280_t_fine (snd (bmp280_comp_temp_x100 adc s))) = temp_fine (bmp280_cal s) (uint adc)"
proof -
  let ?c = "bmp280_cal s"
  obtain v w where vw: "t_vars ?c adc = (v, w)" by (cases "t_vars ?c adc")
  let ?T = "temp_terms ?c (uint adc)" and ?f = "temp_fine ?c (uint adc)"
  have v: "sint v = fst ?T" and w: "sint w = snd ?T" and b: "\<bar>fst ?T\<bar> \<le> 2 ^ 21" "\<bar>snd ?T\<bar> \<le> 2 ^ 21"
    using t_vars_exact [of adc ?c] assms by (simp_all add: vw)
  have f: "\<bar>?f\<bar> \<le> 2 ^ 22" using b unfolding temp_fine_def by (simp add: abs_le_iff)
  have vw1: "sint (v + w) = ?f"
    using den_add [OF v w] f by (simp add: temp_fine_def)
  have five: "sint ((v + w) * 5) = ?f * 5"
    by (rule den_mul [OF vw1]) (use f in \<open>simp_all add: abs_mult\<close>)
  have t: "sint ((v + w) * 5 + 128) = ?f * 5 + 128"
    by (rule den_add [OF five]) (use f in \<open>simp_all add: abs_le_iff\<close>)
  have "\<bar>(?f * 5 + 128) div 2 ^ 8\<bar> \<le> 2 ^ 20"
    by (rule abs_div_le) (use f in \<open>simp add: abs_le_iff\<close>)
  then show "sint (fst (bmp280_comp_temp_x100 adc s)) = (?f * 5 + 128) div 2 ^ 8"
    using sint_narrow [of "signed_drop_bit 8 ((v + w) * 5 + 128)"] den_shr [OF t, of 8]
    by (simp add: bmp280_comp_temp_x100_def vw)
  show "sint (bmp280_t_fine (snd (bmp280_comp_temp_x100 adc s))) = ?f"
    using sint_narrow [of "v + w"] f by (simp add: bmp280_comp_temp_x100_def vw vw1)
qed

text \<open>C13: For every raw reading the chip can deliver (three bytes hold twenty bits) and every calibration,
  the temperature compensation is the datasheet's formula on exact integers, and so is the fine
  temperature it latches for the pressure: no product wraps and nothing is lost when the results are
  narrowed to \<open>int\<close>.\<close>

theorem bmp280_temp_exact:
  "sint (fst (bmp280_comp_temp_x100 (adc20 msb lsb xlsb) s)) =
     (temp_fine (bmp280_cal s) (uint (adc20 msb lsb xlsb)) * 5 + 128) div 2 ^ 8 \<and>
   sint (bmp280_t_fine (snd (bmp280_comp_temp_x100 (adc20 msb lsb xlsb) s))) =
     temp_fine (bmp280_cal s) (uint (adc20 msb lsb xlsb))"
  using temp_x100 [OF adc20_bound] by blast

text \<open>
  The datasheet's worked example: 25.08 degrees and a pressure of 100653.25 Pa.  The code returns that
  pressure in 1/256 Pa, where its comments promise Pa.
\<close>

definition datasheet_calib :: bmp280_calib where
  "datasheet_calib = \<lparr>cal_t1 = 27504, cal_t2 = 26435, cal_t3 = - 1000, cal_p1 = 36477, cal_p2 = - 10685,
     cal_p3 = 3024, cal_p4 = 2855, cal_p5 = 140, cal_p6 = - 7, cal_p7 = 15500, cal_p8 = - 14600, cal_p9 = 6000\<rparr>"

lemma bmp280_pressure_example:
  "comp_pressure datasheet_calib 128422 415148 = 25767233 \<and> (25767233 :: nat) div 256 = 100653"
  by (simp add: comp_pressure_def datasheet_calib_def s64_mul s64_div Let_def)

end
