(* ===== verification/Oled.thy ===== *)
theory Oled
  imports I2c
begin

text \<open>
  \<open>sim/sw/common/ssd1306.h\<close>: the 128x64 display.  The two statics of the driver extend the machine
  state; drawing changes the framebuffer only, so it is modelled as functions on the framebuffer, and
  the loops over unsigned coordinates, which need not end, return options.
\<close>

record 'd oled = "'d mach" +
  ssd1306_addr :: u8
  ssd1306_fb :: "u8 list"

definition SSD1306_WIDTH :: u32 where "SSD1306_WIDTH = 128"
definition SSD1306_HEIGHT :: u32 where "SSD1306_HEIGHT = 64"
definition SSD1306_FB_SIZE :: nat where "SSD1306_FB_SIZE = 1024"
definition SSD1306_CTRL_CMD :: u8 where "SSD1306_CTRL_CMD = 0x00"
definition SSD1306_CTRL_DAT :: u8 where "SSD1306_CTRL_DAT = 0x40"
definition SSD1306_CHUNK :: nat where "SSD1306_CHUNK = 16"

section \<open>Transactions\<close>

text \<open>The driver ignores the result codes of its transactions.\<close>

definition ssd1306_cmd :: "'d hw \<Rightarrow> u8 \<Rightarrow> ('d, 'z) oled_scheme \<Rightarrow> ('d, 'z) oled_scheme option" where
  "ssd1306_cmd hw c s = do { (_, s) \<leftarrow> i2c_write_reg hw (ssd1306_addr s) SSD1306_CTRL_CMD c s; Some s }"

definition ssd1306_cmds :: "'d hw \<Rightarrow> u8 list \<Rightarrow> ('d, 'z) oled_scheme \<Rightarrow> ('d, 'z) oled_scheme option" where
  "ssd1306_cmds hw cs s = do { (_, s) \<leftarrow> i2c_write_regs hw (ssd1306_addr s) SSD1306_CTRL_CMD cs s; Some s }"

definition ssd1306_update :: "'d hw \<Rightarrow> ('d, 'z) oled_scheme \<Rightarrow> ('d, 'z) oled_scheme option" where
  "ssd1306_update hw s = do {
     s \<leftarrow> ssd1306_cmd hw 0x21 s;
     s \<leftarrow> ssd1306_cmd hw 0x00 s;
     s \<leftarrow> ssd1306_cmd hw (ucast (SSD1306_WIDTH - 1)) s;
     s \<leftarrow> ssd1306_cmd hw 0x22 s;
     s \<leftarrow> ssd1306_cmd hw 0x00 s;
     s \<leftarrow> ssd1306_cmd hw (ucast (SSD1306_HEIGHT div 8 - 1)) s;
     (_, s) \<leftarrow> i2c_write_regs hw (ssd1306_addr s) SSD1306_CTRL_DAT (ssd1306_fb s) s;
     Some s }"

text \<open>
  The hook of a paged update is an argument: \<^const>\<open>None\<close> is the null pointer.  The loop over the
  chunks keeps \<open>off\<close> at most 128.
\<close>

definition call_yield :: "('s \<Rightarrow> 's option) option \<Rightarrow> 's \<Rightarrow> 's option" where
  "call_yield y s = (case y of None \<Rightarrow> Some s | Some f \<Rightarrow> f s)"

definition page_bytes :: "nat \<Rightarrow> nat \<Rightarrow> nat \<Rightarrow> u8 list \<Rightarrow> u8 list" where
  "page_bytes page off n fb = take n (drop (page * unat SSD1306_WIDTH + off) fb)"

function update_chunks ::
  "'d hw \<Rightarrow> (('d, 'z) oled_scheme \<Rightarrow> ('d, 'z) oled_scheme option) option \<Rightarrow> nat \<Rightarrow> nat \<Rightarrow>
   ('d, 'z) oled_scheme \<Rightarrow> ('d, 'z) oled_scheme option" where
  "update_chunks hw y page off s =
     (if off < unat SSD1306_WIDTH then do {
        let n = unat SSD1306_WIDTH - off;
        let n = (if n > SSD1306_CHUNK then SSD1306_CHUNK else n);
        (_, s) \<leftarrow> i2c_write_regs hw (ssd1306_addr s) SSD1306_CTRL_DAT (page_bytes page off n (ssd1306_fb s)) s;
        s \<leftarrow> call_yield y s;
        update_chunks hw y page (off + n) s }
      else Some s)"
  by pat_completeness auto
termination
  by (relation "measure (\<lambda>(hw, y, page, off, s). unat SSD1306_WIDTH - off)") (auto simp: SSD1306_CHUNK_def)

declare update_chunks.simps [simp del]

definition ssd1306_update_page ::
  "'d hw \<Rightarrow> (('d, 'z) oled_scheme \<Rightarrow> ('d, 'z) oled_scheme option) option \<Rightarrow> u32 \<Rightarrow>
   ('d, 'z) oled_scheme \<Rightarrow> ('d, 'z) oled_scheme option" where
  "ssd1306_update_page hw y page s = do {
     let win = [0x21, 0x00, ucast (SSD1306_WIDTH - 1), 0x22, ucast page, ucast page];
     s \<leftarrow> call_yield y s;
     s \<leftarrow> ssd1306_cmds hw win s;
     s \<leftarrow> call_yield y s;
     update_chunks hw y (unat page) 0 s }"

definition ssd1306_init :: "u8 list" where
  "ssd1306_init = [0xAE, 0xD5, 0x80, 0xA8, 0x3F, 0xD3, 0x00, 0x40, 0x8D, 0x14, 0x20, 0x00, 0xA1, 0xC8,
     0x81, 0xCF, 0xD9, 0xF1, 0xDB, 0x40, 0xA4, 0xA6, 0x2E, 0xAF]"

definition ssd1306_begin :: "'d hw \<Rightarrow> u8 \<Rightarrow> ('d, 'z) oled_scheme \<Rightarrow> (int \<times> ('d, 'z) oled_scheme) option" where
  "ssd1306_begin hw addr s = do {
     let s = s\<lparr>ssd1306_addr := addr\<rparr>;
     (rc, s) \<leftarrow> i2c_write_regs hw addr SSD1306_CTRL_CMD ssd1306_init s;
     if rc \<noteq> I2C_OK then Some (rc, s) else do {
       s \<leftarrow> ssd1306_cmd hw 0x21 s;
       s \<leftarrow> ssd1306_cmd hw 0x00 s;
       s \<leftarrow> ssd1306_cmd hw 0x7F s;
       s \<leftarrow> ssd1306_cmd hw 0x22 s;
       s \<leftarrow> ssd1306_cmd hw 0x00 s;
       s \<leftarrow> ssd1306_cmd hw 0x07 s;
       Some (I2C_OK, s) } }"

definition ssd1306_display_on :: "'d hw \<Rightarrow> bool \<Rightarrow> ('d, 'z) oled_scheme \<Rightarrow> ('d, 'z) oled_scheme option" where
  "ssd1306_display_on hw on s = ssd1306_cmd hw (if on then 0xAF else 0xAE) s"

definition ssd1306_invert :: "'d hw \<Rightarrow> bool \<Rightarrow> ('d, 'z) oled_scheme \<Rightarrow> ('d, 'z) oled_scheme option" where
  "ssd1306_invert hw on s = ssd1306_cmd hw (if on then 0xA7 else 0xA6) s"

definition ssd1306_set_contrast :: "'d hw \<Rightarrow> u8 \<Rightarrow> ('d, 'z) oled_scheme \<Rightarrow> ('d, 'z) oled_scheme option" where
  "ssd1306_set_contrast hw c s = do { s \<leftarrow> ssd1306_cmd hw 0x81 s; ssd1306_cmd hw c s }"

definition ssd1306_set_rotation :: "'d hw \<Rightarrow> bool \<Rightarrow> ('d, 'z) oled_scheme \<Rightarrow> ('d, 'z) oled_scheme option" where
  "ssd1306_set_rotation hw flipped s = do {
     s \<leftarrow> ssd1306_cmd hw (if flipped then 0xA1 else 0xA0) s;
     ssd1306_cmd hw (if flipped then 0xC8 else 0xC0) s }"

section \<open>Drawing\<close>

definition ssd1306_clear :: "u8 list \<Rightarrow> u8 list" where
  "ssd1306_clear fb = map (\<lambda>_. 0) fb"

definition ssd1306_fill :: "u8 list \<Rightarrow> u8 list" where
  "ssd1306_fill fb = map (\<lambda>_. 0xFF) fb"

definition ssd1306_pixel :: "u32 \<Rightarrow> u32 \<Rightarrow> bool \<Rightarrow> u8 list \<Rightarrow> u8 list" where
  "ssd1306_pixel x y on fb =
     (if x \<ge> SSD1306_WIDTH \<or> y \<ge> SSD1306_HEIGHT then fb
      else let i = unat (y div 8 * SSD1306_WIDTH + x); b = (ucast (push_bit (unat (y mod 8)) (1 :: u32)) :: u8)
           in fb[i := if on then fb ! i OR b else fb ! i AND NOT b])"

text \<open>\<open>for (x = x0; x <= x1; ++x)\<close> on unsigned values.\<close>

partial_function (option) ssd1306_hline :: "u32 \<Rightarrow> u32 \<Rightarrow> u32 \<Rightarrow> bool \<Rightarrow> u8 list \<Rightarrow> u8 list option" where
  "ssd1306_hline x x1 y on fb =
     (if x \<le> x1 then ssd1306_hline (x + 1) x1 y on (ssd1306_pixel x y on fb) else Some fb)"

partial_function (option) ssd1306_vline :: "u32 \<Rightarrow> u32 \<Rightarrow> u32 \<Rightarrow> bool \<Rightarrow> u8 list \<Rightarrow> u8 list option" where
  "ssd1306_vline x y y1 on fb =
     (if y \<le> y1 then ssd1306_vline x (y + 1) y1 on (ssd1306_pixel x y on fb) else Some fb)"

definition ssd1306_rect :: "u32 \<Rightarrow> u32 \<Rightarrow> u32 \<Rightarrow> u32 \<Rightarrow> bool \<Rightarrow> u8 list \<Rightarrow> u8 list option" where
  "ssd1306_rect x y w h on fb =
     (if w = 0 \<or> h = 0 then Some fb else do {
        fb \<leftarrow> ssd1306_hline x (x + w - 1) y on fb;
        fb \<leftarrow> ssd1306_hline x (x + w - 1) (y + h - 1) on fb;
        fb \<leftarrow> ssd1306_vline x y (y + h - 1) on fb;
        ssd1306_vline (x + w - 1) y (y + h - 1) on fb })"

partial_function (option) fill_rows ::
  "u32 \<Rightarrow> u32 \<Rightarrow> u32 \<Rightarrow> u32 \<Rightarrow> u32 \<Rightarrow> bool \<Rightarrow> u8 list \<Rightarrow> u8 list option" where
  "fill_rows r x y w h on fb =
     (if r < h then do { fb \<leftarrow> ssd1306_hline x (x + w - 1) (y + r) on fb; fill_rows (r + 1) x y w h on fb }
      else Some fb)"

definition ssd1306_fill_rect :: "u32 \<Rightarrow> u32 \<Rightarrow> u32 \<Rightarrow> u32 \<Rightarrow> bool \<Rightarrow> u8 list \<Rightarrow> u8 list option" where
  "ssd1306_fill_rect x y w h on fb = fill_rows 0 x y w h on fb"

text \<open>The line; its coordinates and error term are C ints, kept as integers.\<close>

partial_function (option) line_loop ::
  "int \<Rightarrow> int \<Rightarrow> int \<Rightarrow> int \<Rightarrow> int \<Rightarrow> int \<Rightarrow> int \<Rightarrow> int \<Rightarrow> int \<Rightarrow> bool \<Rightarrow> u8 list \<Rightarrow> u8 list option" where
  "line_loop dx dy sx sy x1 y1 x y err on fb =
     (let fb = ssd1306_pixel (word_of_int x) (word_of_int y) on fb
      in if x = x1 \<and> y = y1 then Some fb else
         let e2 = 2 * err;
             (err, x) = (if e2 > - dy then (err - dy, x + sx) else (err, x));
             (err, y) = (if e2 < dx then (err + dx, y + sy) else (err, y))
         in line_loop dx dy sx sy x1 y1 x y err on fb)"

definition ssd1306_line :: "int \<Rightarrow> int \<Rightarrow> int \<Rightarrow> int \<Rightarrow> bool \<Rightarrow> u8 list \<Rightarrow> u8 list option" where
  "ssd1306_line xa ya xb yb on fb =
     (let dx = (if xb > xa then xb - xa else xa - xb);
          dy = (if yb > ya then yb - ya else ya - yb);
          sx = (if xa < xb then 1 else - 1);
          sy = (if ya < yb then 1 else - 1)
      in line_loop dx dy sx sy xb yb xa ya (dx - dy) on fb)"

declare ssd1306_hline.simps [code] ssd1306_vline.simps [code] fill_rows.simps [code] line_loop.simps [code]

section \<open>Pixels\<close>

text \<open>
  A canvas: something pixels can be put on one at a time, where a put changes that pixel only, and is
  dropped when the pixel is not visible.  What a whole drawing changes follows from that.
\<close>

definition draw :: "('p \<Rightarrow> bool \<Rightarrow> 'c \<Rightarrow> 'c) \<Rightarrow> 'p list \<Rightarrow> bool \<Rightarrow> 'c \<Rightarrow> 'c" where
  "draw put ps on c = fold (\<lambda>p. put p on) ps c"

lemma draw_simps [simp]:
  "draw put [] on c = c"
  "draw put (p # ps) on c = draw put ps on (put p on c)"
  "draw put (ps @ qs) on c = draw put qs on (draw put ps on c)"
  by (simp_all add: draw_def)

locale canvas =
  fixes put :: "'p \<Rightarrow> bool \<Rightarrow> 'c \<Rightarrow> 'c"
    and get :: "'c \<Rightarrow> 'p \<Rightarrow> bool"
    and wf :: "'c \<Rightarrow> bool"
    and visible :: "'p \<Rightarrow> bool"
  assumes wf_put: "wf c \<Longrightarrow> wf (put p on c)"
    and get_put: "wf c \<Longrightarrow> visible q \<Longrightarrow> get (put p on c) q = (if p = q then on else get c q)"
begin

lemma wf_draw: "wf c \<Longrightarrow> wf (draw put ps on c)"
  by (induction ps arbitrary: c) (auto simp: wf_put)

lemma get_draw: "wf c \<Longrightarrow> visible q \<Longrightarrow> get (draw put ps on c) q = (if q \<in> set ps then on else get c q)"
  by (induction ps arbitrary: c) (auto simp: wf_put get_put)

end

definition put_pixel :: "u32 \<times> u32 \<Rightarrow> bool \<Rightarrow> u8 list \<Rightarrow> u8 list" where
  "put_pixel p on fb = ssd1306_pixel (fst p) (snd p) on fb"

definition fb_get :: "u8 list \<Rightarrow> u32 \<times> u32 \<Rightarrow> bool" where
  "fb_get fb p = bit (fb ! (unat (snd p) div 8 * 128 + unat (fst p))) (unat (snd p) mod 8)"

definition fb_wf :: "u8 list \<Rightarrow> bool" where
  "fb_wf fb \<longleftrightarrow> length fb = SSD1306_FB_SIZE"

definition on_panel :: "u32 \<times> u32 \<Rightarrow> bool" where
  "on_panel p \<longleftrightarrow> unat (fst p) < 128 \<and> unat (snd p) < 64"

lemma pixel_index:
  assumes "unat x < 128" and "unat y < 64"
  shows "unat (y div 8 * SSD1306_WIDTH + x) = unat y div 8 * 128 + unat x"
    and "unat y div 8 * 128 + unat x < 1024"
proof -
  have "unat y div 8 < 8" using assms(2) by (intro less_mult_imp_div_less) simp
  then show lt: "unat y div 8 * 128 + unat x < 1024" using assms(1) by linarith
  then have "unat (y div 8 * 128 + x) = unat y div 8 * 128 + unat x"
    by (simp add: unat_word_ariths unat_div_distrib)
  then show "unat (y div 8 * SSD1306_WIDTH + x) = unat y div 8 * 128 + unat x"
    by (simp add: SSD1306_WIDTH_def)
qed

lemma index_inj:
  "x < 128 \<Longrightarrow> x' < 128 \<Longrightarrow> (a * 128 + x = b * 128 + x') \<longleftrightarrow> (a = b \<and> x = x')"
  for x x' a b :: nat
  by (cases a b rule: linorder_cases) auto

lemma bit_of_row: "k < 8 \<Longrightarrow> bit (ucast (push_bit k (1 :: u32)) :: u8) n \<longleftrightarrow> n = k"
  by (auto simp: bit_simps)

lemma on_panel_test: "(x \<ge> SSD1306_WIDTH \<or> y \<ge> SSD1306_HEIGHT) \<longleftrightarrow> \<not> on_panel (x, y)"
  by (auto simp: on_panel_def SSD1306_WIDTH_def SSD1306_HEIGHT_def word_le_nat_alt)

lemma put_pixel_get:
  assumes "fb_wf fb" and "on_panel q"
  shows "fb_get (put_pixel p on fb) q = (if p = q then on else fb_get fb q)"
proof (cases "on_panel p")
  case False
  then show ?thesis
    using assms(2) by (auto simp: put_pixel_def ssd1306_pixel_def on_panel_test)
next
  case True
  obtain x y x' y' where p: "p = (x, y)" and q: "q = (x', y')" by (cases p; cases q)
  have v: "unat x < 128" "unat y < 64" "unat x' < 128" "unat y' < 64"
    using True assms(2) by (simp_all add: p q on_panel_def)
  have len: "length fb = 1024" using assms(1) by (simp add: fb_wf_def SSD1306_FB_SIZE_def)
  have m: "unat (y mod 8) = unat y mod 8" by (simp add: unat_mod_distrib)
  have eq: "p = q \<longleftrightarrow> unat x = unat x' \<and> unat y div 8 = unat y' div 8 \<and> unat y mod 8 = unat y' mod 8"
    unfolding p q by (metis div_mult_mod_eq prod.inject word_unat_eq_iff)
  show ?thesis
  proof (cases "unat x = unat x' \<and> unat y div 8 = unat y' div 8")
    case True
    then show ?thesis
      using pixel_index [OF v(1,2)] pixel_index [OF v(3,4)] len \<open>on_panel p\<close> eq
      by (auto simp: fb_get_def put_pixel_def ssd1306_pixel_def on_panel_test p q Let_def m bit_of_row bit_simps)
  next
    case False
    then have "unat y div 8 * 128 + unat x \<noteq> unat y' div 8 * 128 + unat x'"
      using index_inj [OF v(1,3)] by blast
    then show ?thesis
      using pixel_index [OF v(1,2)] pixel_index [OF v(3,4)] len False eq
      by (auto simp: fb_get_def put_pixel_def ssd1306_pixel_def p q Let_def)
  qed
qed

interpretation panel: canvas put_pixel fb_get fb_wf on_panel
proof
  show "fb_wf (put_pixel p on c)" if "fb_wf c" for p on c
    using that by (simp add: fb_wf_def put_pixel_def ssd1306_pixel_def Let_def)
qed (rule put_pixel_get)

section \<open>Lines and rectangles\<close>

lemma hline_draw:
  "x1 \<noteq> - 1 \<Longrightarrow> unat x + k = Suc (unat x1) \<Longrightarrow>
   ssd1306_hline x x1 y on fb = Some (draw put_pixel (map (\<lambda>i. (x + of_nat i, y)) [0..<k]) on fb)"
proof (induction k arbitrary: x fb)
  case 0
  then show ?case by (subst ssd1306_hline.simps) (simp add: word_le_nat_alt)
next
  case (Suc k)
  then have le: "x \<le> x1" by (simp add: word_le_nat_alt)
  with Suc.prems(1) have "x \<noteq> - 1" using word_order.extremum_uniqueI by blast
  then have "unat (x + 1) = Suc (unat x)" by (metis add.commute add_eq_0_iff2 unatSuc)
  then have "ssd1306_hline (x + 1) x1 y on (ssd1306_pixel x y on fb) =
      Some (draw put_pixel (map (\<lambda>i. (x + 1 + of_nat i, y)) [0..<k]) on (ssd1306_pixel x y on fb))"
    using Suc.prems by (intro Suc.IH) auto
  moreover have "map (\<lambda>i. (x + of_nat i, y)) [0..<Suc k] =
      (x, y) # map (\<lambda>i. (x + 1 + of_nat i, y)) [0..<k]"
    by (simp add: upt_rec [of 0 "Suc k"] map_Suc_upt [symmetric] comp_def add.assoc del: upt_Suc)
  ultimately show ?case
    using le by (subst ssd1306_hline.simps) (simp add: put_pixel_def)
qed

lemma u32_Suc: "x \<le> x1 \<Longrightarrow> x1 \<noteq> - 1 \<Longrightarrow> unat (x + 1) = Suc (unat x)" for x x1 :: u32
proof -
  assume "x \<le> x1" and "x1 \<noteq> - 1"
  then have "x \<noteq> - 1" using word_order.extremum_uniqueI by blast
  then show ?thesis by (metis add.commute add_eq_0_iff2 unatSuc)
qed

lemma map_shift: "map (\<lambda>i. f (x + of_nat i)) [0..<Suc k] = f x # map (\<lambda>i. f (x + 1 + of_nat i)) [0..<k]"
  for x :: u32
  by (simp add: upt_rec [of 0 "Suc k"] map_Suc_upt [symmetric] comp_def add.assoc del: upt_Suc)

lemma vline_draw:
  "y1 \<noteq> - 1 \<Longrightarrow> unat y + k = Suc (unat y1) \<Longrightarrow>
   ssd1306_vline x y y1 on fb = Some (draw put_pixel (map (\<lambda>i. (x, y + of_nat i)) [0..<k]) on fb)"
proof (induction k arbitrary: y fb)
  case 0
  then show ?case by (subst ssd1306_vline.simps) (simp add: word_le_nat_alt)
next
  case (Suc k)
  then have le: "y \<le> y1" by (simp add: word_le_nat_alt)
  have "ssd1306_vline x (y + 1) y1 on (ssd1306_pixel x y on fb) =
      Some (draw put_pixel (map (\<lambda>i. (x, y + 1 + of_nat i)) [0..<k]) on (ssd1306_pixel x y on fb))"
    using Suc.prems u32_Suc [OF le Suc.prems(1)] by (intro Suc.IH) auto
  then show ?case
    using le unfolding map_shift [where f = "Pair x"] by (subst ssd1306_vline.simps) (simp add: put_pixel_def)
qed

text \<open>A span of unsigned coordinates that stays below the wrap-around.\<close>

lemma span_end:
  fixes x w :: u32
  assumes "w \<noteq> 0" and "unat x + unat w < 2 ^ 32"
  shows "x + w - 1 \<noteq> - 1" and "unat x + unat w = Suc (unat (x + w - 1))"
proof -
  have xw: "unat (x + w) = unat x + unat w" using assms(2) by (simp add: unat_word_ariths)
  moreover have "0 < unat w" using assms(1) by (simp add: unat_gt_0)
  ultimately have "x + w \<noteq> 0" by (metis add_is_0 less_irrefl unsigned_0)
  then show "x + w - 1 \<noteq> - 1" by simp
  show "unat x + unat w = Suc (unat (x + w - 1))"
    using xw \<open>x + w \<noteq> 0\<close> \<open>0 < unat w\<close> by (simp add: unat_minus_one)
qed

lemma span_mem:
  fixes x p :: u32
  assumes "unat x + k \<le> 2 ^ 32"
  shows "(\<exists>i<k. p = x + of_nat i) \<longleftrightarrow> unat x \<le> unat p \<and> unat p < unat x + k"
proof
  assume "\<exists>i<k. p = x + of_nat i"
  then obtain i where i: "i < k" "p = x + of_nat i" by blast
  then have "unat p = unat x + i" using assms by (simp add: unat_word_ariths unat_of_nat)
  then show "unat x \<le> unat p \<and> unat p < unat x + k" using i by simp
next
  assume a: "unat x \<le> unat p \<and> unat p < unat x + k"
  then have "of_nat (unat p) = (of_nat (unat x) + of_nat (unat p - unat x) :: u32)"
    by (simp only: of_nat_add [symmetric]) simp
  then have "p = x + of_nat (unat p - unat x)" by simp
  with a show "\<exists>i<k. p = x + of_nat i" by (intro exI [of _ "unat p - unat x"]) auto
qed

definition span_points :: "u32 \<Rightarrow> u32 \<Rightarrow> nat \<Rightarrow> nat \<Rightarrow> (u32 \<times> u32) list" where
  "span_points x y w h = concat (map (\<lambda>j. map (\<lambda>i. (x + of_nat i, y + of_nat j)) [0..<w]) [0..<h])"

lemma fill_rows_draw:
  assumes w: "w \<noteq> 0" "unat x + unat w < 2 ^ 32"
  shows "unat r + k = unat h \<Longrightarrow>
    fill_rows r x y w h on fb = Some (draw put_pixel (span_points x (y + r) (unat w) k) on fb)"
proof (induction k arbitrary: r fb)
  case 0
  then show ?case by (subst fill_rows.simps) (simp add: span_points_def word_less_nat_alt)
next
  case (Suc k)
  then have lt: "r < h" by (simp add: word_less_nat_alt)
  then have "r \<noteq> - 1" using word_order.extremum_strict by blast
  then have "unat (r + 1) = Suc (unat r)" by (intro u32_Suc [of r r]) simp_all
  with Suc.prems have "fill_rows (r + 1) x y w h on fb' =
      Some (draw put_pixel (span_points x (y + (r + 1)) (unat w) k) on fb')" for fb'
    by (intro Suc.IH) simp
  moreover have "span_points x (y + r) (unat w) (Suc k) =
      map (\<lambda>i. (x + of_nat i, y + r)) [0..<unat w] @ span_points x (y + (r + 1)) (unat w) k"
    unfolding span_points_def map_shift [where f = "\<lambda>v. map (\<lambda>i. (x + of_nat i, v)) [0..<unat w]"]
    by (simp add: add.assoc)
  ultimately show ?case
    using lt hline_draw [OF span_end [OF w]] by (subst fill_rows.simps) simp
qed

lemma span_points_mem:
  assumes "unat x + w \<le> 2 ^ 32" and "unat y + h \<le> 2 ^ 32"
  shows "(px, py) \<in> set (span_points x y w h) \<longleftrightarrow>
    unat x \<le> unat px \<and> unat px < unat x + w \<and> unat y \<le> unat py \<and> unat py < unat y + h"
proof -
  have "(px, py) \<in> set (span_points x y w h) \<longleftrightarrow> (\<exists>i<w. px = x + of_nat i) \<and> (\<exists>j<h. py = y + of_nat j)"
    by (auto simp: span_points_def image_iff intro!: bexI)
  then show ?thesis using span_mem [OF assms(1)] span_mem [OF assms(2)] by blast
qed

text \<open>Filling a rectangle that does not wrap the coordinate range returns, and turns on (or off) exactly
  the visible pixels inside it: every pixel of the panel outside the rectangle keeps its value, and the
  part of the rectangle beyond the panel is dropped.\<close>

theorem ssd1306_fill_rect_pixels:
  assumes "fb_wf fb" and "w \<noteq> 0" and "unat x + unat w < 2 ^ 32" and "unat y + unat h \<le> 2 ^ 32"
  shows "\<exists>fb'. ssd1306_fill_rect x y w h on fb = Some fb' \<and> fb_wf fb' \<and>
    (\<forall>px py. unat px < 128 \<longrightarrow> unat py < 64 \<longrightarrow>
       fb_get fb' (px, py) =
         (if unat x \<le> unat px \<and> unat px < unat x + unat w \<and> unat y \<le> unat py \<and> unat py < unat y + unat h
          then on else fb_get fb (px, py)))"
proof -
  have "ssd1306_fill_rect x y w h on fb = Some (draw put_pixel (span_points x y (unat w) (unat h)) on fb)"
    using fill_rows_draw [OF assms(2,3), of 0 "unat h"] by (simp add: ssd1306_fill_rect_def)
  moreover have "fb_get (draw put_pixel (span_points x y (unat w) (unat h)) on fb) (px, py) =
      (if unat x \<le> unat px \<and> unat px < unat x + unat w \<and> unat y \<le> unat py \<and> unat py < unat y + unat h
       then on else fb_get fb (px, py))" if "unat px < 128" "unat py < 64" for px py
    using panel.get_draw [OF assms(1)] span_points_mem [of x "unat w" y "unat h"] assms(3,4) that
    by (simp add: on_panel_def)
  ultimately show ?thesis using panel.wf_draw [OF assms(1)] by blast
qed

theorem ssd1306_fill_rect_pixels_witness:
  "\<exists>fb'. ssd1306_fill_rect 120 60 20 2 True (replicate 1024 0) = Some fb' \<and>
     fb_get fb' (127, 61) \<and> \<not> fb_get fb' (119, 61)"
proof -
  have wf: "fb_wf (replicate 1024 0)" by (simp add: fb_wf_def SSD1306_FB_SIZE_def)
  obtain fb' where r: "ssd1306_fill_rect 120 60 20 2 True (replicate 1024 0) = Some fb'"
    and get: "\<And>px py. unat px < 128 \<Longrightarrow> unat py < 64 \<Longrightarrow> fb_get fb' (px, py) =
      (if unat (120 :: u32) \<le> unat px \<and> unat px < unat (120 :: u32) + unat (20 :: u32) \<and>
          unat (60 :: u32) \<le> unat py \<and> unat py < unat (60 :: u32) + unat (2 :: u32)
       then True else fb_get (replicate 1024 0) (px, py))"
    using ssd1306_fill_rect_pixels [OF wf, of 20 120 60 2 True] by auto
  have "\<not> fb_get (replicate 1024 0) (119, 61)" by (simp add: fb_get_def)
  then show ?thesis using r get [of 127 61] get [of 119 61] by simp
qed

text \<open>
  The guards of that theorem are needed: a loop whose last column is the largest unsigned value never
  ends, and a rectangle of width 0 at column 0 is such a loop (the outline tests for it, the fill does
  not).
\<close>

lemma hline_endless: "ssd1306_hline x (- 1) y on fb = None"
proof (rule ccontr)
  assume "ssd1306_hline x (- 1) y on fb \<noteq> None"
  then obtain r where r: "ssd1306_hline x (- 1) y on fb = Some r" by blast
  have "- 1 \<noteq> (- 1 :: u32)"
    by (rule ssd1306_hline.raw_induct [where P = "\<lambda>x x1 y on fb r. x1 \<noteq> - 1" and
          xa = "((((x, - 1), y), on), fb)" and ya = r, simplified prod.case, OF _ r])
       (auto split: if_splits)
  then show False by simp
qed

lemma fill_rect_width_zero: "h \<noteq> 0 \<Longrightarrow> ssd1306_fill_rect 0 y 0 h on fb = None"
  by (simp add: ssd1306_fill_rect_def fill_rows.simps [of 0] hline_endless word_gt_0)

section \<open>The line\<close>

text \<open>
  The line as steps along its longer axis: after \<open>a\<close> steps along it and \<open>b\<close> along the other, which the
  error term decides, the point is \<open>(a, b)\<close>.  \<open>A\<close> and \<open>B\<close> are the two extents, \<open>A\<close> the longer.
\<close>

fun major_path :: "int \<Rightarrow> int \<Rightarrow> nat \<Rightarrow> int \<Rightarrow> int \<Rightarrow> (int \<times> int) list" where
  "major_path A B 0 a b = [(a, b)]"
| "major_path A B (Suc n) a b =
     (a, b) # major_path A B n (a + 1) (if 2 * ((b + 1) * A - (a + 1) * B) < A then b + 1 else b)"

text \<open>The distance from the ideal line stays within half a step.\<close>

definition near_line :: "int \<Rightarrow> int \<Rightarrow> int \<Rightarrow> int \<Rightarrow> bool" where
  "near_line A B a b \<longleftrightarrow> - A \<le> 2 * (b * A - a * B) \<and> 2 * (b * A - a * B) < A \<and> (A = B \<longrightarrow> b = a)"

lemma near_line_step:
  assumes "near_line A B a b" and "0 < A" and "0 \<le> B" and "B \<le> A"
  shows "- B < 2 * ((b + 1) * A - (a + 1) * B)"
    and "near_line A B (a + 1) (if 2 * ((b + 1) * A - (a + 1) * B) < A then b + 1 else b)"
proof -
  define X Y where "X = b * A" and "Y = a * B"
  have e: "(b + 1) * A = X + A" "(a + 1) * B = Y + B" "b * A = X" by (simp_all add: X_def Y_def algebra_simps)
  have n: "- A \<le> 2 * (X - Y)" "2 * (X - Y) < A" "A = B \<longrightarrow> X = Y"
    using assms(1) by (auto simp: near_line_def X_def Y_def)
  show "- B < 2 * ((b + 1) * A - (a + 1) * B)"
    unfolding e using n assms(2-4) by (cases "A = B") auto
  show "near_line A B (a + 1) (if 2 * ((b + 1) * A - (a + 1) * B) < A then b + 1 else b)"
    using n assms unfolding near_line_def by (auto simp: e)
qed

lemma near_line_end: "near_line A B A b \<Longrightarrow> 0 < A \<Longrightarrow> b = B"
proof -
  assume n: "near_line A B A b" and A: "0 < A"
  then have "- A \<le> 2 * (b - B) * A" and "2 * (b - B) * A < A"
    by (simp_all add: near_line_def algebra_simps)
  then have "(- 1) * A \<le> 2 * (b - B) * A" and "2 * (b - B) * A < 1 * A" by simp_all
  then have "- 1 \<le> 2 * (b - B)" and "2 * (b - B) < 1"
    using A by (blast intro: mult_right_le_imp_le mult_right_less_imp_less less_imp_le)+
  then show "b = B" by presburger
qed

lemma major_path_props:
  assumes "0 < A" and "0 \<le> B" and "B \<le> A"
  shows "near_line A B a b \<Longrightarrow> a + int n = A \<Longrightarrow>
    length (major_path A B n a b) = Suc n \<and> hd (major_path A B n a b) = (a, b) \<and>
    last (major_path A B n a b) = (A, B) \<and>
    (\<forall>k<n. fst (major_path A B n a b ! Suc k) = fst (major_path A B n a b ! k) + 1 \<and>
           snd (major_path A B n a b ! Suc k) - snd (major_path A B n a b ! k) \<in> {0, 1}) \<and>
    (\<forall>(p, q) \<in> set (major_path A B n a b). near_line A B p q)"
proof (induction n arbitrary: a b)
  case 0
  then show ?case using near_line_end assms(1) by auto
next
  case (Suc n)
  define b' where "b' = (if 2 * ((b + 1) * A - (a + 1) * B) < A then b + 1 else b)"
  have near: "near_line A B (a + 1) b'"
    unfolding b'_def using near_line_step(2) [OF Suc.prems(1) assms] .
  have path: "major_path A B (Suc n) a b = (a, b) # major_path A B n (a + 1) b'"
    by (simp add: b'_def)
  have IH: "length (major_path A B n (a + 1) b') = Suc n \<and> hd (major_path A B n (a + 1) b') = (a + 1, b') \<and>
    last (major_path A B n (a + 1) b') = (A, B) \<and>
    (\<forall>k<n. fst (major_path A B n (a + 1) b' ! Suc k) = fst (major_path A B n (a + 1) b' ! k) + 1 \<and>
           snd (major_path A B n (a + 1) b' ! Suc k) - snd (major_path A B n (a + 1) b' ! k) \<in> {0, 1}) \<and>
    (\<forall>(p, q) \<in> set (major_path A B n (a + 1) b'). near_line A B p q)"
    using Suc.prems(2) by (intro Suc.IH near) simp
  then have ne: "major_path A B n (a + 1) b' \<noteq> []" by auto
  have first: "major_path A B n (a + 1) b' ! 0 = (a + 1, b')"
    using IH ne by (simp add: hd_conv_nth)
  have "b' - b \<in> {0, 1}" by (simp add: b'_def)
  then have "\<forall>k<Suc n. fst (major_path A B (Suc n) a b ! Suc k) = fst (major_path A B (Suc n) a b ! k) + 1 \<and>
      snd (major_path A B (Suc n) a b ! Suc k) - snd (major_path A B (Suc n) a b ! k) \<in> {0, 1}"
    unfolding path All_less_Suc2 using IH first by simp
  then show ?case using IH ne Suc.prems(1) unfolding path by simp
qed

text \<open>The loop draws that path, along either axis.\<close>

definition to_px :: "int \<times> int \<Rightarrow> u32 \<times> u32" where
  "to_px p = (word_of_int (fst p), word_of_int (snd p))"

lemma line_loop_unfold:
  "line_loop dx dy sx sy x1 y1 x y err on fb =
     (if x = x1 \<and> y = y1 then Some (put_pixel (to_px (x, y)) on fb) else
      line_loop dx dy sx sy x1 y1 (if 2 * err > - dy then x + sx else x) (if 2 * err < dx then y + sy else y)
        (err - (if 2 * err > - dy then dy else 0) + (if 2 * err < dx then dx else 0)) on (put_pixel (to_px (x, y)) on fb))"
  by (subst line_loop.simps) (simp add: Let_def put_pixel_def to_px_def)

lemma line_loop_x:
  assumes A: "0 < dx" "0 \<le> dy" "dy \<le> dx" and sx: "sx = 1 \<or> sx = - 1"
  shows "near_line dx dy a b \<Longrightarrow> a + int n = dx \<Longrightarrow>
    line_loop dx dy sx sy (xa + sx * dx) (ya + sy * dy) (xa + sx * a) (ya + sy * b)
      ((b + 1) * dx - (a + 1) * dy) on fb =
    Some (draw put_pixel (map (\<lambda>(p, q). to_px (xa + sx * p, ya + sy * q)) (major_path dx dy n a b)) on fb)"
proof (induction n arbitrary: a b fb)
  case 0
  then show ?case using near_line_end A(1) by (subst line_loop_unfold) auto
next
  case (Suc n)
  let ?e = "(b + 1) * dx - (a + 1) * dy"
  define b' where "b' = (if 2 * ?e < dx then b + 1 else b)"
  have gt: "- dy < 2 * ?e" and near: "near_line dx dy (a + 1) b'"
    unfolding b'_def using near_line_step [OF Suc.prems(1) A] .
  have e: "?e - dy + (if 2 * ?e < dx then dx else 0) = (b' + 1) * dx - (a + 1 + 1) * dy"
    by (simp add: b'_def algebra_simps)
  have y: "(if 2 * ?e < dx then ya + sy * b + sy else ya + sy * b) = ya + sy * b'"
    by (simp add: b'_def algebra_simps)
  have x: "xa + sx * a + sx = xa + sx * (a + 1)" by (simp add: algebra_simps)
  have ne: "xa + sx * a \<noteq> xa + sx * dx" using sx Suc.prems(2) by auto
  have "line_loop dx dy sx sy (xa + sx * dx) (ya + sy * dy) (xa + sx * a) (ya + sy * b) ?e on fb =
      line_loop dx dy sx sy (xa + sx * dx) (ya + sy * dy) (xa + sx * (a + 1)) (ya + sy * b')
        ((b' + 1) * dx - (a + 1 + 1) * dy) on (put_pixel (to_px (xa + sx * a, ya + sy * b)) on fb)"
    unfolding line_loop_unfold [of dx dy sx sy "xa + sx * dx" "ya + sy * dy" "xa + sx * a"] if_P [OF gt]
    by (simp only: ne simp_thms if_False e y x)
  also have "\<dots> = Some (draw put_pixel (map (\<lambda>(p, q). to_px (xa + sx * p, ya + sy * q))
      (major_path dx dy n (a + 1) b')) on (put_pixel (to_px (xa + sx * a, ya + sy * b)) on fb))"
    using Suc.prems(2) by (intro Suc.IH near) simp
  finally show ?case by (simp add: b'_def)
qed

lemma line_loop_y:
  assumes A: "0 < dy" "0 \<le> dx" "dx \<le> dy" and sy: "sy = 1 \<or> sy = - 1"
  shows "near_line dy dx a b \<Longrightarrow> a + int n = dy \<Longrightarrow>
    line_loop dx dy sx sy (xa + sx * dx) (ya + sy * dy) (xa + sx * b) (ya + sy * a)
      ((a + 1) * dx - (b + 1) * dy) on fb =
    Some (draw put_pixel (map (\<lambda>(p, q). to_px (xa + sx * q, ya + sy * p)) (major_path dy dx n a b)) on fb)"
proof (induction n arbitrary: a b fb)
  case 0
  then show ?case using near_line_end A(1) by (subst line_loop_unfold) auto
next
  case (Suc n)
  let ?e = "(a + 1) * dx - (b + 1) * dy" and ?m = "(b + 1) * dy - (a + 1) * dx"
  define b' where "b' = (if 2 * ?m < dy then b + 1 else b)"
  have lt: "- dx < 2 * ?m" and near: "near_line dy dx (a + 1) b'"
    unfolding b'_def using near_line_step [OF Suc.prems(1) A] .
  have em: "?e = - ?m" by simp
  have gt: "2 * ?e < dx" using lt unfolding em by linarith
  have c: "- dy < 2 * ?e \<longleftrightarrow> 2 * ?m < dy" unfolding em by linarith
  have e: "?e - (if 2 * ?m < dy then dy else 0) + dx = (a + 1 + 1) * dx - (b' + 1) * dy"
    by (simp add: b'_def algebra_simps)
  have x: "(if 2 * ?m < dy then xa + sx * b + sx else xa + sx * b) = xa + sx * b'"
    by (simp add: b'_def algebra_simps)
  have y: "ya + sy * a + sy = ya + sy * (a + 1)" by (simp add: algebra_simps)
  have ne: "ya + sy * a \<noteq> ya + sy * dy" using sy Suc.prems(2) by auto
  have "line_loop dx dy sx sy (xa + sx * dx) (ya + sy * dy) (xa + sx * b) (ya + sy * a) ?e on fb =
      line_loop dx dy sx sy (xa + sx * dx) (ya + sy * dy) (xa + sx * b') (ya + sy * (a + 1))
        ((a + 1 + 1) * dx - (b' + 1) * dy) on (put_pixel (to_px (xa + sx * b, ya + sy * a)) on fb)"
    unfolding line_loop_unfold [of dx dy sx sy "xa + sx * dx" "ya + sy * dy" "xa + sx * b"] if_P [OF gt] c
    by (simp only: ne simp_thms if_False e y x)
  also have "\<dots> = Some (draw put_pixel (map (\<lambda>(p, q). to_px (xa + sx * q, ya + sy * p))
      (major_path dy dx n (a + 1) b')) on (put_pixel (to_px (xa + sx * b, ya + sy * a)) on fb))"
    using Suc.prems(2) by (intro Suc.IH near) simp
  finally show ?case by (simp add: b'_def)
qed

text \<open>
  What it is to be a straight run of pixels from one point to another: it starts and ends there, has one
  pixel per step of the longer extent, moves by at most one pixel along each axis, and never strays from
  the ideal line by more than half a pixel of that extent.
\<close>

definition straight :: "int \<times> int \<Rightarrow> int \<times> int \<Rightarrow> (int \<times> int) list \<Rightarrow> bool" where
  "straight p q ps \<longleftrightarrow>
     (let w = fst q - fst p; h = snd q - snd p
      in int (length ps) = max \<bar>w\<bar> \<bar>h\<bar> + 1 \<and> hd ps = p \<and> last ps = q \<and>
         (\<forall>k<length ps - 1. \<bar>fst (ps ! Suc k) - fst (ps ! k)\<bar> \<le> 1 \<and> \<bar>snd (ps ! Suc k) - snd (ps ! k)\<bar> \<le> 1) \<and>
         (\<forall>r \<in> set ps. 2 * \<bar>(fst r - fst p) * h - (snd r - snd p) * w\<bar> \<le> max \<bar>w\<bar> \<bar>h\<bar>))"

lemma straight_path:
  assumes A: "0 < A" "0 \<le> B" "B \<le> A" and near: "near_line A B 0 0"
    and f0: "f (0, 0) = (xa, ya)" and f1: "f (A, B) = (xb, yb)"
    and far: "max \<bar>xb - xa\<bar> \<bar>yb - ya\<bar> = A"
    and fx: "\<And>p q p' q'. \<bar>fst (f (p', q')) - fst (f (p, q))\<bar> \<le> max \<bar>p' - p\<bar> \<bar>q' - q\<bar>"
    and fy: "\<And>p q p' q'. \<bar>snd (f (p', q')) - snd (f (p, q))\<bar> \<le> max \<bar>p' - p\<bar> \<bar>q' - q\<bar>"
    and dist: "\<And>p q. \<bar>(fst (f (p, q)) - xa) * (yb - ya) - (snd (f (p, q)) - ya) * (xb - xa)\<bar> = \<bar>q * A - p * B\<bar>"
  shows "straight (xa, ya) (xb, yb) (map f (major_path A B (nat A) 0 0))"
proof -
  let ?ps = "major_path A B (nat A) 0 0"
  have P: "length ?ps = Suc (nat A)" "hd ?ps = (0, 0)" "last ?ps = (A, B)"
    and step: "\<forall>k<nat A. fst (?ps ! Suc k) = fst (?ps ! k) + 1 \<and> snd (?ps ! Suc k) - snd (?ps ! k) \<in> {0, 1}"
    and all: "\<forall>(p, q) \<in> set ?ps. near_line A B p q"
    using major_path_props [OF A near, of "nat A"] A(1) by simp_all
  have ne: "?ps \<noteq> []" using P(1) by auto
  have "\<bar>fst (f (?ps ! Suc k)) - fst (f (?ps ! k))\<bar> \<le> 1 \<and> \<bar>snd (f (?ps ! Suc k)) - snd (f (?ps ! k))\<bar> \<le> 1"
    if "k < nat A" for k
  proof -
    obtain p q p' q' where pq: "?ps ! k = (p, q)" "?ps ! Suc k = (p', q')" by fastforce
    have "max \<bar>p' - p\<bar> \<bar>q' - q\<bar> \<le> 1" using step that pq by auto
    then show ?thesis
      using order_trans [OF fx [of p' q' p q]] order_trans [OF fy [of p' q' p q]] pq by simp
  qed
  moreover have "2 * \<bar>(fst (f r) - xa) * (yb - ya) - (snd (f r) - ya) * (xb - xa)\<bar> \<le> A" if "r \<in> set ?ps" for r
  proof -
    obtain p q where r: "r = (p, q)" by (cases r)
    have "near_line A B p q" using all that r by auto
    then have "- A \<le> 2 * (q * A - p * B)" and "2 * (q * A - p * B) < A" unfolding near_line_def by blast+
    then have "2 * \<bar>q * A - p * B\<bar> \<le> A" by linarith
    then show ?thesis unfolding r dist .
  qed
  moreover have "hd (map f ?ps) = (xa, ya)" "last (map f ?ps) = (xb, yb)"
    using P ne f0 f1 by (simp_all add: hd_map last_map)
  moreover have "int (length (map f ?ps)) = A + 1" using P(1) A(1) by simp
  ultimately show ?thesis
    unfolding straight_def Let_def fst_conv snd_conv far using P(1) by simp
qed

text \<open>A signed unit keeps distances.\<close>

lemma unit_dist: "\<bar>s\<bar> = 1 \<Longrightarrow> \<bar>(x + s * p') - (x + s * p)\<bar> = \<bar>p' - p\<bar>" for s x p p' :: int
  by (auto simp: abs_if split: if_splits)

lemma unit_cross: "\<bar>s\<bar> = 1 \<Longrightarrow> \<bar>t\<bar> = 1 \<Longrightarrow> \<bar>(s * p) * (t * B) - (t * q) * (s * A)\<bar> = \<bar>q * A - p * B\<bar>"
  for s t p q A B :: int
proof -
  assume "\<bar>s\<bar> = 1" and "\<bar>t\<bar> = 1"
  moreover have "(s * p) * (t * B) - (t * q) * (s * A) = (s * t) * (p * B - q * A)" by (simp add: algebra_simps)
  ultimately show ?thesis by (simp add: abs_mult abs_minus_commute)
qed

lemma near_line_start: "0 < A \<Longrightarrow> near_line A B 0 0"
  by (simp add: near_line_def)

text \<open>C16: a line between any two points returns, and draws a straight run of pixels between them, both end
  points included, whatever the slope and direction; pixels that fall outside the panel are dropped.\<close>

theorem ssd1306_line_straight:
  "\<exists>ps. ssd1306_line xa ya xb yb on fb = Some (draw put_pixel (map to_px ps) on fb) \<and>
     straight (xa, ya) (xb, yb) ps"
proof -
  define dx dy where "dx = \<bar>xb - xa\<bar>" and "dy = \<bar>yb - ya\<bar>"
  define sx sy :: int where "sx = (if xa < xb then 1 else - 1)" and "sy = (if ya < yb then 1 else - 1)"
  have s: "sx = 1 \<or> sx = - 1" "sy = 1 \<or> sy = - 1" "\<bar>sx\<bar> = 1" "\<bar>sy\<bar> = 1" by (auto simp: sx_def sy_def)
  have e: "xb = xa + sx * dx" "yb = ya + sy * dy" by (auto simp: sx_def sy_def dx_def dy_def)
  have line: "ssd1306_line xa ya xb yb on fb = line_loop dx dy sx sy (xa + sx * dx) (ya + sy * dy) xa ya (dx - dy) on fb"
    unfolding e [symmetric] by (simp add: ssd1306_line_def Let_def dx_def dy_def sx_def sy_def abs_if)
  have pos: "0 \<le> dx" "0 \<le> dy" by (simp_all add: dx_def dy_def)
  consider "0 < dx" "dy \<le> dx" | "0 < dy" "dx \<le> dy" | "dx = 0" "dy = 0" using pos by linarith
  then show ?thesis
  proof cases
    case 1
    let ?f = "\<lambda>(p, q). (xa + sx * p, ya + sy * q)"
    have "ssd1306_line xa ya xb yb on fb =
        Some (draw put_pixel (map to_px (map ?f (major_path dx dy (nat dx) 0 0))) on fb)"
      using line_loop_x [OF 1(1) pos(2) 1(2) s(1) near_line_start [OF 1(1)], of "nat dx" sy xa ya on fb] pos
      by (simp add: line comp_def split_def)
    moreover have "straight (xa, ya) (xb, yb) (map ?f (major_path dx dy (nat dx) 0 0))"
    proof (rule straight_path [OF 1(1) pos(2) 1(2) near_line_start [OF 1(1)]])
      show "max \<bar>xb - xa\<bar> \<bar>yb - ya\<bar> = dx" using 1 by (simp add: dx_def dy_def)
      show "\<bar>(fst (?f (p, q)) - xa) * (yb - ya) - (snd (?f (p, q)) - ya) * (xb - xa)\<bar> = \<bar>q * dx - p * dy\<bar>" for p q
        using unit_cross [OF s(3,4), of p dy q dx] by (simp add: e)
    qed (use e unit_dist [OF s(3)] unit_dist [OF s(4)] in simp_all)
    ultimately show ?thesis by blast
  next
    case 2
    let ?f = "\<lambda>(p, q). (xa + sx * q, ya + sy * p)"
    have "ssd1306_line xa ya xb yb on fb =
        Some (draw put_pixel (map to_px (map ?f (major_path dy dx (nat dy) 0 0))) on fb)"
      using line_loop_y [OF 2(1) pos(1) 2(2) s(2) near_line_start [OF 2(1)], of "nat dy" sx xa ya on fb] pos
      by (simp add: line comp_def split_def)
    moreover have "straight (xa, ya) (xb, yb) (map ?f (major_path dy dx (nat dy) 0 0))"
    proof (rule straight_path [OF 2(1) pos(1) 2(2) near_line_start [OF 2(1)]])
      show "max \<bar>xb - xa\<bar> \<bar>yb - ya\<bar> = dy" using 2 by (simp add: dx_def dy_def)
      show "\<bar>(fst (?f (p, q)) - xa) * (yb - ya) - (snd (?f (p, q)) - ya) * (xb - xa)\<bar> = \<bar>q * dy - p * dx\<bar>" for p q
        using unit_cross [OF s(4,3), of p dx q dy] by (simp add: e abs_minus_commute)
    qed (use e unit_dist [OF s(3)] unit_dist [OF s(4)] in simp_all)
    ultimately show ?thesis by blast
  next
    case 3
    then have "ssd1306_line xa ya xb yb on fb = Some (draw put_pixel (map to_px [(xa, ya)]) on fb)"
      by (simp add: line line_loop_unfold)
    moreover have "straight (xa, ya) (xb, yb) [(xa, ya)]"
      using 3 e by (simp add: straight_def Let_def)
    ultimately show ?thesis by blast
  qed
qed

theorem ssd1306_line_straight_witness:
  "\<exists>ps. ssd1306_line 2 3 7 1 True (replicate 1024 0) = Some (draw put_pixel (map to_px ps) True (replicate 1024 0)) \<and>
     length ps = 6 \<and> hd ps = (2, 3) \<and> last ps = (7, 1)"
proof -
  obtain ps where "ssd1306_line 2 3 7 1 True (replicate 1024 0) = Some (draw put_pixel (map to_px ps) True (replicate 1024 0))"
    and "straight (2, 3) (7, 1) ps"
    using ssd1306_line_straight [of 2 3 7 1 True "replicate 1024 0"] by blast
  then show ?thesis by (intro exI [of _ ps]) (simp add: straight_def Let_def)
qed

section \<open>What the panel shows\<close>

text \<open>
  The display controller as the driver relies on it, in the horizontal addressing mode that
  \<open>ssd1306_begin\<close> selects.  Commands 0x21 and 0x22 set the column and page window and move to its start, with
  their operands in the same or in later transactions; the other commands take their operand, if they
  have one, and change nothing here.  Each
  data byte goes to the current position, which advances through the window and wraps at its end.  What a byte is,
  its address, a control byte, a command or data, is for the phase of the transaction to say (\<open>Oled_Panel\<close>).
\<close>

datatype phase = Unaddressed | Address | Control | Commands | Data

record screen =
  gddram :: "u8 list"
  c_lo :: nat
  c_hi :: nat
  c_cur :: nat
  p_lo :: nat
  p_hi :: nat
  p_cur :: nat
  pend :: "u8 list"
  phase :: phase

definition cmd_args :: "u8 \<Rightarrow> nat" where
  "cmd_args c = (if c \<in> {0x21, 0x22} then 2
     else if c \<in> {0x20, 0x81, 0x8D, 0xA8, 0xD3, 0xD5, 0xD9, 0xDB} then 1 else 0)"

definition screen_cmd :: "u8 \<Rightarrow> screen \<Rightarrow> screen" where
  "screen_cmd b d =
     (let cs = pend d @ [b]
      in if length cs \<le> cmd_args (hd cs) then d\<lparr>pend := cs\<rparr>
         else if hd cs = 0x21 then
           d\<lparr>c_lo := unat (cs ! 1), c_hi := unat (cs ! 2), c_cur := unat (cs ! 1), pend := []\<rparr>
         else if hd cs = 0x22 then
           d\<lparr>p_lo := unat (cs ! 1), p_hi := unat (cs ! 2), p_cur := unat (cs ! 1), pend := []\<rparr>
         else d\<lparr>pend := []\<rparr>)"

definition screen_data :: "u8 \<Rightarrow> screen \<Rightarrow> screen" where
  "screen_data b d =
     (let d = d\<lparr>gddram := (gddram d)[p_cur d * 128 + c_cur d := b]\<rparr>
      in if c_cur d \<noteq> c_hi d then d\<lparr>c_cur := c_cur d + 1\<rparr>
         else if p_cur d \<noteq> p_hi d then d\<lparr>c_cur := c_lo d, p_cur := p_cur d + 1\<rparr>
         else d\<lparr>c_cur := c_lo d, p_cur := p_lo d\<rparr>)"

lemma phase_screen_cmd [simp]: "phase (screen_cmd b d) = phase d"
  by (simp add: screen_cmd_def Let_def)

lemma phase_screen_data [simp]: "phase (screen_data b d) = phase d"
  by (simp add: screen_data_def Let_def)

lemma fold_phase: "(\<And>b d. phase (f b d) = phase d) \<Longrightarrow> phase (fold f bs d) = phase d"
  by (induction bs arbitrary: d) auto

text \<open>Within one window: the data go to consecutive cells from the current one.\<close>

definition window :: "nat \<Rightarrow> nat \<Rightarrow> nat \<Rightarrow> screen \<Rightarrow> bool" where
  "window lo hi at d \<longleftrightarrow> c_lo d = 0 \<and> c_hi d = 127 \<and> p_lo d = lo \<and> p_hi d = hi \<and> c_cur d < 128 \<and>
     p_cur d * 128 + c_cur d = at \<and> pend d = [] \<and> length (gddram d) = 1024"

lemma screen_data_step:
  assumes "window lo hi at d" and "at + 1 < (hi + 1) * 128" and "hi < 8"
  shows "window lo hi (at + 1) (screen_data b d) \<and> gddram (screen_data b d) = (gddram d)[at := b]"
  using assms by (auto simp: window_def screen_data_def Let_def)

lemma screen_data_last:
  assumes "window lo hi at d" and "at + 1 = (hi + 1) * 128" and "hi < 8"
  shows "window lo hi (lo * 128) (screen_data b d) \<and> gddram (screen_data b d) = (gddram d)[at := b]"
proof -
  have "p_cur d * 128 + c_cur d = hi * 128 + 127" and "c_cur d < 128"
    using assms by (auto simp: window_def)
  then have "p_cur d = hi \<and> c_cur d = 127"
    using index_inj [of "c_cur d" 127 "p_cur d" hi] by simp
  then show ?thesis using assms by (auto simp: window_def screen_data_def Let_def)
qed

lemma screen_data_run:
  "window lo hi at d \<Longrightarrow> hi < 8 \<Longrightarrow> at + length bs < (hi + 1) * 128 \<Longrightarrow>
   window lo hi (at + length bs) (fold screen_data bs d) \<and>
   gddram (fold screen_data bs d) = take at (gddram d) @ bs @ drop (at + length bs) (gddram d)"
proof (induction bs arbitrary: at d)
  case Nil
  then show ?case by simp
next
  case (Cons b bs)
  have w: "window lo hi (at + 1) (screen_data b d)" and g: "gddram (screen_data b d) = (gddram d)[at := b]"
    using screen_data_step [OF Cons.prems(1), of b] Cons.prems(2,3) by auto
  have len: "at < length (gddram d)" using Cons.prems by (auto simp: window_def)
  have "window lo hi (at + 1 + length bs) (fold screen_data bs (screen_data b d)) \<and>
      gddram (fold screen_data bs (screen_data b d)) =
        take (at + 1) ((gddram d)[at := b]) @ bs @ drop (at + 1 + length bs) ((gddram d)[at := b])"
    using Cons.IH [OF w Cons.prems(2)] Cons.prems(3) by (simp add: g)
  then show ?case using len by (simp add: take_Suc_conv_app_nth drop_update_cancel)
qed

text \<open>Data that fill the rest of the window wrap to its start.\<close>

lemma screen_data_full:
  assumes "window lo hi at d" and "hi < 8" and "at + length bs = (hi + 1) * 128" and "bs \<noteq> []"
  shows "window lo hi (lo * 128) (fold screen_data bs d) \<and>
    gddram (fold screen_data bs d) = take at (gddram d) @ bs @ drop (at + length bs) (gddram d)"
proof -
  obtain cs b where bs: "bs = cs @ [b]" using assms(4) by (cases bs rule: rev_cases) auto
  let ?d = "fold screen_data cs d"
  have w: "window lo hi (at + length cs) ?d"
    and g: "gddram ?d = take at (gddram d) @ cs @ drop (at + length cs) (gddram d)"
    using screen_data_run [OF assms(1,2), of cs] assms(3) by (auto simp: bs)
  have "window lo hi (lo * 128) (screen_data b ?d) \<and> gddram (screen_data b ?d) = (gddram ?d)[at + length cs := b]"
    using assms(3) by (intro screen_data_last [OF w _ assms(2)]) (simp add: bs)
  moreover have "(gddram ?d)[at + length cs := b] = take at (gddram d) @ bs @ drop (at + length bs) (gddram d)"
  proof -
    have "length (gddram d) = 1024" using assms(1) by (simp add: window_def)
    moreover have "at + length cs < 1024" using assms(2,3) by (simp add: bs)
    ultimately have "drop (at + length cs) (gddram d) =
        gddram d ! (at + length cs) # drop (at + length bs) (gddram d)" "length (take at (gddram d)) = at"
      by (simp_all add: Cons_nth_drop_Suc bs)
    then show ?thesis unfolding g by (simp add: bs list_update_append)
  qed
  ultimately show ?thesis by (simp add: bs)
qed

lemma window_phase [simp]: "window lo hi at (d\<lparr>phase := p\<rparr>) = window lo hi at d"
  by (simp add: window_def)

text \<open>The window commands, as one transaction or as six.\<close>

lemma window_cmds:
  assumes "pend d = []" and "length (gddram d) = 1024"
  shows "window (unat l) (unat h) (unat l * 128) (fold screen_cmd [0x21, 0, 0x7F, 0x22, l, h] d) \<and>
    gddram (fold screen_cmd [0x21, 0, 0x7F, 0x22, l, h] d) = gddram d"
  using assms by (simp add: screen_cmd_def cmd_args_def window_def)

text \<open>The bytes of a page, in chunks.\<close>

lemma page_bytes_split:
  "n \<le> k \<Longrightarrow> page_bytes page off n fb @ page_bytes page (off + n) (k - n) fb = page_bytes page off k fb"
  using take_add [of n "k - n" "drop (page * unat SSD1306_WIDTH + off) fb"]
  by (simp add: page_bytes_def ac_simps)

lemma length_page_bytes: "fb_wf fb \<Longrightarrow> page < 8 \<Longrightarrow> off + n \<le> 128 \<Longrightarrow> length (page_bytes page off n fb) = n"
  by (simp add: page_bytes_def fb_wf_def SSD1306_FB_SIZE_def SSD1306_WIDTH_def)

definition page_at :: "nat \<Rightarrow> nat \<Rightarrow> nat" where
  "page_at page off = page * 128 + (if off < 128 then off else 0)"

text \<open>A panel fresh out of reset, for the examples.\<close>

definition blank_screen :: screen where
  "blank_screen = \<lparr>gddram = replicate 1024 0, c_lo = 0, c_hi = 127, c_cur = 0, p_lo = 0, p_hi = 7, p_cur = 0,
     pend = [], phase = Unaddressed\<rparr>"

text \<open>A run of one-byte commands, which is how the full update sets its window.\<close>

fun oled_cmd_list :: "'d hw \<Rightarrow> u8 list \<Rightarrow> ('d, 'z) oled_scheme \<Rightarrow> ('d, 'z) oled_scheme option" where
  "oled_cmd_list hw [] s = Some s"
| "oled_cmd_list hw (c # cs) s = do { s \<leftarrow> ssd1306_cmd hw c s; oled_cmd_list hw cs s }"

lemma screen_cmd_phase: "screen_cmd b (d\<lparr>phase := q\<rparr>) = (screen_cmd b d)\<lparr>phase := q\<rparr>"
  by (simp add: screen_cmd_def Let_def)

lemma screen_cmds_phase: "fold screen_cmd bs (d\<lparr>phase := q\<rparr>) = (fold screen_cmd bs d)\<lparr>phase := q\<rparr>"
  by (induction bs arbitrary: d) (simp_all add: screen_cmd_phase)

lemma screen_data_phase: "screen_data b (d\<lparr>phase := q\<rparr>) = (screen_data b d)\<lparr>phase := q\<rparr>"
  by (simp add: screen_data_def Let_def)

lemma screen_datas_phase: "fold screen_data bs (d\<lparr>phase := q\<rparr>) = (fold screen_data bs d)\<lparr>phase := q\<rparr>"
  by (induction bs arbitrary: d) (simp_all add: screen_data_phase)

end
