(* ===== verification/Oled_Panel.thy ===== *)
theory Oled_Panel
  imports Oled I2c_Engine
begin

unbundle bit_operations_syntax

text \<open>
  The display of \<open>ssd1306.h\<close> on the bus: it takes part in a transaction that starts with its address, and reads
  the bytes after the control byte as commands or as data.  On the engine of \<open>I2c_Engine\<close>, the updates of the
  driver leave it showing the framebuffer.
\<close>

section \<open>The panel on the bus\<close>

definition panel_write :: "u8 \<Rightarrow> u8 \<Rightarrow> screen \<Rightarrow> bool \<times> screen" where
  "panel_write a b d = (case phase d of
       Unaddressed \<Rightarrow> (False, d)
     | Address \<Rightarrow> (if b = push_bit 1 a then (True, d\<lparr>phase := Control\<rparr>) else (False, d\<lparr>phase := Unaddressed\<rparr>))
     | Control \<Rightarrow> (True, d\<lparr>phase := if b = 0x40 then Data else if b = 0 then Commands else Unaddressed\<rparr>)
     | Commands \<Rightarrow> (True, screen_cmd b d)
     | Data \<Rightarrow> (True, screen_data b d))"

text \<open>A START, also a repeated one, begins with an address; the panel is never read from.\<close>

definition panel :: "u8 \<Rightarrow> screen target" where
  "panel a = \<lparr>on_start = \<lambda>d. d\<lparr>phase := Address\<rparr>, on_write = panel_write a, on_read = \<lambda>ack d. (0xFF, d),
     on_stop = \<lambda>d. d\<lparr>phase := Unaddressed\<rparr>\<rparr>"

lemma panel_simps [simp]:
  "on_start (panel a) d = d\<lparr>phase := Address\<rparr>" "on_write (panel a) = panel_write a" "on_stop (panel a) d = d\<lparr>phase := Unaddressed\<rparr>"
  by (simp_all add: panel_def)

lemma drain_commands: "phase d = Commands \<Longrightarrow> drain (panel a) bs d = (True, fold screen_cmd bs d)"
  by (induction bs arbitrary: d) (simp_all add: panel_write_def)

lemma drain_data: "phase d = Data \<Longrightarrow> drain (panel a) bs d = (True, fold screen_data bs d)"
  by (induction bs arbitrary: d) (simp_all add: panel_write_def)

lemma drain_addressed:
  "drain (panel a) (push_bit 1 a # SSD1306_CTRL_CMD # bs) (on_start (panel a) d) = (True, (fold screen_cmd bs d)\<lparr>phase := Commands\<rparr>)"
  "drain (panel a) (push_bit 1 a # SSD1306_CTRL_DAT # bs) (on_start (panel a) d) = (True, (fold screen_data bs d)\<lparr>phase := Data\<rparr>)"
  by (simp_all add: panel_write_def SSD1306_CTRL_CMD_def SSD1306_CTRL_DAT_def drain_commands drain_data screen_cmds_phase
      screen_datas_phase del: push_bit_Suc)


section \<open>The driver's transactions\<close>

text \<open>The engine is at rest with the panel, at the driver's address, in state \<open>d\<close>, and the firmware is fast enough for
  two accesses in the time of a byte.\<close>

definition attached :: "('o \<Rightarrow> nat) \<Rightarrow> u8 \<Rightarrow> screen \<Rightarrow> ('o \<times> screen i2c_dev, 'z) oled_scheme \<Rightarrow> bool" where
  "attached gap a d s \<longleftrightarrow> ssd1306_addr s = a \<and> (\<exists>nk. resting d nk (eng s)) \<and> quick gap 2 (eng s)"

lemma only_bus_oled: "only_bus s t \<Longrightarrow> ssd1306_fb t = ssd1306_fb s \<and> ssd1306_addr t = ssd1306_addr s"
  for s t :: "('d, 'z) oled_scheme"
  unfolding only_bus_def by (metis oled.surjective mach.update_convs oled.ext_inject mach.ext_inject)

lemma transaction:
  assumes "attached gap a d s" and ack: "drain (panel a) (push_bit 1 a # c # bs) (on_start (panel a) d) = (True, e)"
  shows "\<exists>t. i2c_write_regs (i2c_hw (panel a) gap rest) a c bs s = Some (I2C_OK, t) \<and>
    attached gap a (e\<lparr>phase := Unaddressed\<rparr>) t \<and> only_bus s t"
proof -
  obtain nk where r: "resting d nk (eng s)" and q: "quick gap 2 (eng s)" and a: "ssd1306_addr s = a"
    using assms(1) by (auto simp: attached_def)
  have "keeps_up (panel a) gap d [push_bit 1 a, c] bs (eng s)" using q ack by (simp add: keeps_up_def del: drain.simps)
  moreover have op: "operation (panel a) True (push_bit 1 a # c # bs) d = (True, e\<lparr>phase := Unaddressed\<rparr>)"
    unfolding operation_def ack by simp
  ultimately obtain t where t: "i2c_write_regs (i2c_hw (panel a) gap rest) a c bs s = Some (I2C_OK, t)"
    "resting (e\<lparr>phase := Unaddressed\<rparr>) False (eng t)" "silent s t"
    using write_regs_yields [OF r, of "panel a" gap a c bs rest] by (auto simp: yields_def rc_of_def)
  then have "attached gap a (e\<lparr>phase := Unaddressed\<rparr>) t"
    using q a only_bus_oled [of s t] quick_silent [OF t(3)] by (auto simp: attached_def silent_def)
  then show ?thesis using t by (auto simp: silent_def)
qed

lemma oled_data:
  assumes "attached gap a d s"
  shows "\<exists>t. i2c_write_regs (i2c_hw (panel a) gap rest) (ssd1306_addr s) SSD1306_CTRL_DAT bs s = Some (I2C_OK, t) \<and>
    attached gap a ((fold screen_data bs d)\<lparr>phase := Unaddressed\<rparr>) t \<and> only_bus s t"
  using transaction [OF assms drain_addressed(2), of rest bs] assms by (simp add: attached_def)

lemma oled_cmds:
  assumes "attached gap a d s"
  shows "\<exists>t. ssd1306_cmds (i2c_hw (panel a) gap rest) cs s = Some t \<and>
    attached gap a ((fold screen_cmd cs d)\<lparr>phase := Unaddressed\<rparr>) t \<and> only_bus s t"
  using transaction [OF assms drain_addressed(1), of rest cs] assms by (auto simp: attached_def ssd1306_cmds_def)



section \<open>A paged update\<close>

text \<open>
  A hook is quiet when it returns and leaves the display, the engine and the framebuffer alone; \<open>keep\<close> is any
  other part of the state it is known not to touch.
\<close>

definition quiet_hook ::
  "('o \<Rightarrow> nat) \<Rightarrow> u8 \<Rightarrow> (('o \<times> screen i2c_dev, 'z) oled_scheme \<Rightarrow> 'k) \<Rightarrow>
   (('o \<times> screen i2c_dev, 'z) oled_scheme \<Rightarrow> ('o \<times> screen i2c_dev, 'z) oled_scheme option) option \<Rightarrow> bool" where
  "quiet_hook gap a keep y \<longleftrightarrow>
     (\<forall>s d. attached gap a d s \<longrightarrow> (\<exists>t. call_yield y s = Some t \<and> attached gap a d t \<and> ssd1306_fb t = ssd1306_fb s \<and> keep t = keep s))"

lemma quiet_hookE:
  assumes "quiet_hook gap a keep y" and "attached gap a d s"
  obtains t where "call_yield y s = Some t" and "attached gap a d t" and "ssd1306_fb t = ssd1306_fb s" and "keep t = keep s"
  using assms unfolding quiet_hook_def by blast

text \<open>The chunk loop fills the rest of the page.\<close>

lemma update_chunks_screen:
  assumes y: "quiet_hook gap a keep y" and page: "page < 8" and bus: "\<And>s t. only_bus s t \<Longrightarrow> keep t = keep s"
  shows "attached gap a d s \<Longrightarrow> fb_wf (ssd1306_fb s) \<Longrightarrow> off \<le> 128 \<Longrightarrow> window page page (page_at page off) d \<Longrightarrow>
    \<exists>t e. update_chunks (i2c_hw (panel a) gap rest) y page off s = Some t \<and> attached gap a e t \<and>
      ssd1306_fb t = ssd1306_fb s \<and> keep t = keep s \<and> window page page (page * 128) e \<and>
      gddram e = take (page * 128 + off) (gddram d) @
        page_bytes page off (128 - off) (ssd1306_fb s) @ drop (page * 128 + 128) (gddram d)"
proof (induction "128 - off" arbitrary: off d s rule: less_induct)
  case less
  note at = less.prems(1) and wf = less.prems(2) and w = less.prems(4)
  let ?hw = "i2c_hw (panel a) gap rest"
  show ?case
  proof (cases "off < 128")
    case False
    then have "off = 128" using less.prems(3) by simp
    then show ?thesis
      using less.prems by (subst update_chunks.simps) (auto simp: SSD1306_WIDTH_def page_at_def page_bytes_def)
  next
    case True
    define n where "n = (if 128 - off > SSD1306_CHUNK then SSD1306_CHUNK else 128 - off)"
    have n: "0 < n" "off + n \<le> 128" using True by (auto simp: n_def SSD1306_CHUNK_def)
    let ?bs = "page_bytes page off n (ssd1306_fb s)" and ?g = "gddram d"
    have len: "length ?bs = n" using length_page_bytes [OF wf page n(2)] .
    define e where "e = (fold screen_data ?bs d)\<lparr>phase := Unaddressed\<rparr>"
    obtain u where u: "i2c_write_regs ?hw (ssd1306_addr s) SSD1306_CTRL_DAT ?bs s = Some (I2C_OK, u)"
      "attached gap a e u" "only_bus s u"
      using oled_data [OF at] unfolding e_def by blast
    obtain v where v: "call_yield y u = Some v" "attached gap a e v" "ssd1306_fb v = ssd1306_fb u" "keep v = keep u"
      by (rule quiet_hookE [OF y u(2)])
    have fb: "ssd1306_fb u = ssd1306_fb s" using only_bus_oled [OF u(3)] by simp
    have w': "window page page (page * 128 + off) d" using w True by (simp add: page_at_def)
    have e: "window page page (page_at page (off + n)) e \<and>
        gddram e = take (page * 128 + off) ?g @ ?bs @ drop (page * 128 + (off + n)) ?g"
    proof (cases "off + n < 128")
      case True
      then show ?thesis
        using screen_data_run [OF w' page, of ?bs] by (simp add: e_def len page_at_def add.assoc)
    next
      case False
      then have "off + n = 128" using n by simp
      then show ?thesis
        using screen_data_full [OF w' page, of ?bs] n(1) len
        by (cases ?bs) (simp_all add: e_def page_at_def add.assoc add.commute [of 128])
    qed
    have glen: "length ?g = 1024" using w by (simp add: window_def)
    have "\<exists>t f. update_chunks ?hw y page (off + n) v = Some t \<and> attached gap a f t \<and> ssd1306_fb t = ssd1306_fb v \<and> keep t = keep v \<and>
        window page page (page * 128) f \<and>
        gddram f = take (page * 128 + (off + n)) (gddram e) @
          page_bytes page (off + n) (128 - (off + n)) (ssd1306_fb v) @ drop (page * 128 + 128) (gddram e)"
      using n True v e wf fb by (intro less.hyps) auto
    then obtain t f where t: "update_chunks ?hw y page (off + n) v = Some t" "attached gap a f t" "ssd1306_fb t = ssd1306_fb s"
      "keep t = keep s" "window page page (page * 128) f"
      "gddram f = take (page * 128 + (off + n)) (gddram e) @
          page_bytes page (off + n) (128 - (off + n)) (ssd1306_fb s) @ drop (page * 128 + 128) (gddram e)"
      using fb v(3,4) bus [OF u(3)] by auto
    have "update_chunks ?hw y page off s = do {
        (_, s) \<leftarrow> i2c_write_regs ?hw (ssd1306_addr s) SSD1306_CTRL_DAT (page_bytes page off n (ssd1306_fb s)) s;
        s \<leftarrow> call_yield y s; update_chunks ?hw y page (off + n) s }"
      using True by (subst update_chunks.simps) (simp only: n_def Let_def SSD1306_WIDTH_def if_True, simp)
    then have "update_chunks ?hw y page off s = Some t"
      using u(1) v(1) t(1) by simp
    moreover have "?bs @ page_bytes page (off + n) (128 - (off + n)) (ssd1306_fb s) =
        page_bytes page off (128 - off) (ssd1306_fb s)"
      using page_bytes_split [of n "128 - off" page off "ssd1306_fb s"] n(2) by simp
    then have "gddram f = take (page * 128 + off) ?g @
        page_bytes page off (128 - off) (ssd1306_fb s) @ drop (page * 128 + 128) ?g"
      using e len glen page n(2) unfolding t(6) by (simp add: add.assoc add.commute [of 128])
    ultimately show ?thesis using t(2-5) by blast
  qed
qed

text \<open>Pushing one page, with any quiet hook run between the chunks, returns and
  leaves the panel showing that page of the framebuffer: the 128 cells of the page hold the framebuffer's
  bytes, every other cell of the panel is as before, whatever window earlier commands had set, and the
  framebuffer is unchanged.\<close>

lemma update_page_shows:
  assumes y: "quiet_hook gap a keep y" and at: "attached gap a d s" and "fb_wf (ssd1306_fb s)"
    and "unat page < 8" and "pend d = []" and "length (gddram d) = 1024"
    and bus: "\<And>s t. only_bus s t \<Longrightarrow> keep t = keep s"
  shows "\<exists>t e. ssd1306_update_page (i2c_hw (panel a) gap rest) y page s = Some t \<and> attached gap a e t \<and>
    ssd1306_fb t = ssd1306_fb s \<and> keep t = keep s \<and> pend e = [] \<and>
    gddram e = take (unat page * 128) (gddram d) @ take 128 (drop (unat page * 128) (ssd1306_fb s)) @
      drop (unat page * 128 + 128) (gddram d)"
proof -
  let ?w = "[0x21, 0x00, ucast (SSD1306_WIDTH - 1), 0x22, ucast page, ucast page] :: u8 list" and ?hw = "i2c_hw (panel a) gap rest"
  define e where "e = (fold screen_cmd ?w d)\<lparr>phase := Unaddressed\<rparr>"
  obtain a' where a: "call_yield y s = Some a'" "attached gap a d a'" "ssd1306_fb a' = ssd1306_fb s" "keep a' = keep s"
    by (rule quiet_hookE [OF y at])
  obtain b where b: "ssd1306_cmds ?hw ?w a' = Some b" "attached gap a e b" "only_bus a' b"
    using oled_cmds [OF a(2)] unfolding e_def by blast
  obtain c where c: "call_yield y b = Some c" "attached gap a e c" "ssd1306_fb c = ssd1306_fb b" "keep c = keep b"
    by (rule quiet_hookE [OF y b(2)])
  have fb: "ssd1306_fb b = ssd1306_fb a'" using only_bus_oled [OF b(3)] by simp
  have p: "unat (ucast page :: u8) = unat page"
    using assms(4) by (simp add: unsigned_ucast_eq take_bit_eq_mod)
  have "window (unat page) (unat page) (unat page * 128) e \<and> gddram e = gddram d"
    using window_cmds [OF assms(5,6), of "ucast page" "ucast page"] p by (simp add: e_def SSD1306_WIDTH_def)
  moreover have "page_at (unat page) 0 = unat page * 128" by (simp add: page_at_def)
  ultimately obtain t f where "update_chunks ?hw y (unat page) 0 c = Some t" "attached gap a f t" "ssd1306_fb t = ssd1306_fb s"
    "keep t = keep s" "window (unat page) (unat page) (unat page * 128) f"
    "gddram f = take (unat page * 128) (gddram d) @ page_bytes (unat page) 0 128 (ssd1306_fb s) @ drop (unat page * 128 + 128) (gddram d)"
    using update_chunks_screen [OF y assms(4) bus c(2), of 0 rest] assms(3) a(3,4) fb bus [OF b(3)] c(3,4) by auto
  then show ?thesis
    using a(1) b(1) c(1)
    by (auto simp add: ssd1306_update_page_def Let_def page_bytes_def SSD1306_WIDTH_def window_def)
qed

section \<open>Properties\<close>



end
