(* ===== verification/Oled_Text.thy ===== *)
theory Oled_Text
  imports Oled
begin

text \<open>
  \<open>sim/sw/common/ssd1306_text.h\<close>: text on the framebuffer.  A string is the list of its bytes, without
  the terminator; a routine that returns the next column returns it with the framebuffer.
\<close>

definition SSD1306_FONT_FIRST :: u8 where "SSD1306_FONT_FIRST = 0x20"
definition SSD1306_FONT_LAST :: u8 where "SSD1306_FONT_LAST = 0x5A"
definition SSD1306_FONT_W :: nat where "SSD1306_FONT_W = 5"
definition SSD1306_FONT_H :: nat where "SSD1306_FONT_H = 7"
definition SSD1306_CHAR_W :: u32 where "SSD1306_CHAR_W = 6"

definition ssd1306_font5x7 :: "u8 list" where
  "ssd1306_font5x7 = [
    0x00, 0x00, 0x00, 0x00, 0x00, 0x00, 0x00, 0x5F, 0x00, 0x00, 0x00, 0x00, 0x00, 0x00, 0x00,
    0x14, 0x7F, 0x14, 0x7F, 0x14, 0x00, 0x00, 0x00, 0x00, 0x00, 0x63, 0x13, 0x08, 0x64, 0x63,
    0x00, 0x00, 0x00, 0x00, 0x00, 0x00, 0x00, 0x00, 0x00, 0x00, 0x00, 0x00, 0x00, 0x00, 0x00,
    0x00, 0x00, 0x00, 0x00, 0x00, 0x00, 0x00, 0x00, 0x00, 0x00, 0x08, 0x08, 0x3E, 0x08, 0x08,
    0x00, 0x40, 0x30, 0x00, 0x00, 0x08, 0x08, 0x08, 0x08, 0x08, 0x00, 0x00, 0x60, 0x00, 0x00,
    0x60, 0x10, 0x08, 0x04, 0x03, 0x3E, 0x51, 0x49, 0x45, 0x3E, 0x00, 0x42, 0x7F, 0x40, 0x00,
    0x42, 0x61, 0x51, 0x49, 0x46, 0x21, 0x41, 0x45, 0x4B, 0x31, 0x18, 0x14, 0x12, 0x7F, 0x10,
    0x27, 0x45, 0x45, 0x45, 0x39, 0x3C, 0x4A, 0x49, 0x49, 0x30, 0x01, 0x71, 0x09, 0x05, 0x03,
    0x36, 0x49, 0x49, 0x49, 0x36, 0x06, 0x49, 0x49, 0x29, 0x1E, 0x00, 0x00, 0x36, 0x00, 0x00,
    0x00, 0x00, 0x00, 0x00, 0x00, 0x08, 0x14, 0x22, 0x41, 0x00, 0x00, 0x00, 0x00, 0x00, 0x00,
    0x00, 0x41, 0x22, 0x14, 0x08, 0x00, 0x00, 0x00, 0x00, 0x00, 0x00, 0x00, 0x00, 0x00, 0x00,
    0x7E, 0x11, 0x11, 0x11, 0x7E, 0x7F, 0x49, 0x49, 0x49, 0x36, 0x3E, 0x41, 0x41, 0x41, 0x22,
    0x7F, 0x41, 0x41, 0x22, 0x1C, 0x7F, 0x49, 0x49, 0x49, 0x41, 0x7F, 0x09, 0x09, 0x09, 0x01,
    0x3E, 0x41, 0x41, 0x49, 0x7A, 0x7F, 0x08, 0x08, 0x08, 0x7F, 0x00, 0x41, 0x7F, 0x41, 0x00,
    0x20, 0x40, 0x41, 0x3F, 0x01, 0x7F, 0x08, 0x14, 0x22, 0x41, 0x7F, 0x40, 0x40, 0x40, 0x40,
    0x7F, 0x02, 0x0C, 0x02, 0x7F, 0x7F, 0x02, 0x04, 0x08, 0x7F, 0x3E, 0x41, 0x41, 0x41, 0x3E,
    0x7F, 0x09, 0x09, 0x09, 0x06, 0x3E, 0x41, 0x51, 0x21, 0x5E, 0x7F, 0x09, 0x19, 0x29, 0x46,
    0x46, 0x49, 0x49, 0x49, 0x31, 0x01, 0x01, 0x7F, 0x01, 0x01, 0x3F, 0x40, 0x40, 0x40, 0x3F,
    0x1F, 0x20, 0x40, 0x20, 0x1F, 0x7F, 0x20, 0x18, 0x20, 0x7F, 0x63, 0x14, 0x08, 0x14, 0x63,
    0x03, 0x04, 0x78, 0x04, 0x03, 0x61, 0x51, 0x49, 0x45, 0x43]"

definition glyph_index :: "u8 \<Rightarrow> nat" where
  "glyph_index c =
     (let c = (if c < SSD1306_FONT_FIRST \<or> c > SSD1306_FONT_LAST then 0x20 else c)
      in unat (c - SSD1306_FONT_FIRST) * SSD1306_FONT_W)"

definition ssd1306_char :: "u32 \<Rightarrow> u32 \<Rightarrow> u8 \<Rightarrow> bool \<Rightarrow> u8 list \<Rightarrow> u8 list" where
  "ssd1306_char x y c on fb =
     fold (\<lambda>col. let bits = ssd1306_font5x7 ! (glyph_index c + col)
                 in fold (\<lambda>row fb. if drop_bit row bits AND 1 \<noteq> 0
                                   then ssd1306_pixel (x + of_nat col) (y + of_nat row) on fb else fb)
                      [0..<SSD1306_FONT_H])
       [0..<SSD1306_FONT_W] fb"

definition ssd1306_char_scaled :: "u32 \<Rightarrow> u32 \<Rightarrow> u8 \<Rightarrow> u32 \<Rightarrow> bool \<Rightarrow> u8 list \<Rightarrow> u8 list" where
  "ssd1306_char_scaled x y c scale on fb =
     (if scale \<le> 1 then ssd1306_char x y c on fb
      else fold (\<lambda>col. let bits = ssd1306_font5x7 ! (glyph_index c + col)
             in fold (\<lambda>row fb. if drop_bit row bits AND 1 = 0 then fb
                  else fold (\<lambda>dx. fold (\<lambda>dy.
                         ssd1306_pixel (x + of_nat col * scale + of_nat dx) (y + of_nat row * scale + of_nat dy) on)
                         [0..<unat scale]) [0..<unat scale] fb)
                  [0..<SSD1306_FONT_H])
           [0..<SSD1306_FONT_W] fb)"

fun ssd1306_text :: "u32 \<Rightarrow> u32 \<Rightarrow> u8 list \<Rightarrow> bool \<Rightarrow> u8 list \<Rightarrow> u32 \<times> u8 list" where
  "ssd1306_text x y [] on fb = (x, fb)"
| "ssd1306_text x y (c # cs) on fb = ssd1306_text (x + SSD1306_CHAR_W) y cs on (ssd1306_char x y c on fb)"

text \<open>One cell at the current column, then the next: the step the scaled routines repeat.\<close>

fun scaled_cells :: "u32 \<Rightarrow> u32 \<Rightarrow> u8 list \<Rightarrow> u32 \<Rightarrow> bool \<Rightarrow> u8 list \<Rightarrow> u32 \<times> u8 list" where
  "scaled_cells x y [] scale on fb = (x, fb)"
| "scaled_cells x y (c # cs) scale on fb =
     scaled_cells (x + SSD1306_CHAR_W * scale) y cs scale on (ssd1306_char_scaled x y c scale on fb)"

definition ssd1306_text_scaled :: "u32 \<Rightarrow> u32 \<Rightarrow> u8 list \<Rightarrow> u32 \<Rightarrow> bool \<Rightarrow> u8 list \<Rightarrow> u32 \<times> u8 list" where
  "ssd1306_text_scaled x y cs scale on fb =
     (let scale = (if scale = 0 then 1 else scale) in scaled_cells x y cs scale on fb)"

definition ssd1306_text_width :: "u8 list \<Rightarrow> u32 \<Rightarrow> u32" where
  "ssd1306_text_width cs scale =
     (let scale = (if scale = 0 then 1 else scale) in of_nat (length cs) * SSD1306_CHAR_W * scale)"

text \<open>The buffer \<open>ssd1306_int\<close> fills, least significant digit first, sign last.\<close>

definition int_buf :: "u32 \<Rightarrow> u8 list" where
  "int_buf v =
     (let neg = sint v < 0;
          mag = (if neg then - v else v);
          buf = map (\<lambda>d. 0x30 + of_nat d) (digits_loop 10 11 (unat mag))
      in if neg \<and> length buf < 11 then buf @ [0x2D] else buf)"

definition ssd1306_int ::
  "u32 \<Rightarrow> u32 \<Rightarrow> u32 \<Rightarrow> u32 \<Rightarrow> u32 \<Rightarrow> bool \<Rightarrow> u8 list \<Rightarrow> u32 \<times> u8 list" where
  "ssd1306_int x y v width scale on fb =
     (let buf = int_buf v;
          (x, fb) = scaled_cells x y (replicate (unat width - length buf) 0x20) scale on fb
      in scaled_cells x y (rev buf) scale on fb)"

text \<open>The digits after the point: \<open>while (div > 1) { div /= 10; ... }\<close>.\<close>

function fixed_digits :: "u32 \<Rightarrow> u32 \<Rightarrow> u8 list" where
  "fixed_digits d rest =
     (if d > 1 then let d = d div 10 in (0x30 + ucast (rest div d)) # fixed_digits d (rest mod d) else [])"
  by pat_completeness auto
termination
proof (relation "measure (\<lambda>(d, r). unat d)")
  fix d rest d' :: u32
  assume "1 < d" and "d' = d div 10"
  then show "((d', rest mod d'), d, rest) \<in> measure (\<lambda>(d, r). unat d)"
    by (simp add: word_less_nat_alt unat_div_distrib)
qed simp

declare fixed_digits.simps [simp del]

definition ssd1306_fixed ::
  "u32 \<Rightarrow> u32 \<Rightarrow> u32 \<Rightarrow> nat \<Rightarrow> u32 \<Rightarrow> bool \<Rightarrow> u8 list \<Rightarrow> u32 \<times> u8 list" where
  "ssd1306_fixed x y v frac scale on fb =
     (let d = 10 ^ frac;
          whole = word_of_int (sint v sdiv sint d);
          rest = v - whole * d;
          rest = (if sint rest < 0 then - rest else rest);
          (x, fb) = ssd1306_int x y whole 0 scale on fb
      in if frac = 0 then (x, fb) else scaled_cells x y (0x2E # fixed_digits d rest) scale on fb)"

section \<open>Glyphs as pixels\<close>

lemma fold_draw:
  "\<forall>a \<in> set as. \<forall>fb. f a fb = draw put (g a) on fb \<Longrightarrow> fold f as fb = draw put (concat (map g as)) on fb"
  by (induction as arbitrary: fb) auto

text \<open>The table is never read past its end, whatever the byte.\<close>

lemma glyph_index_bound: "glyph_index c + 5 \<le> length ssd1306_font5x7"
proof -
  define d where "d = (if c < 0x20 \<or> c > 0x5A then 0x20 else c)"
  have "0x20 \<le> d" "d \<le> 0x5A" by (auto simp: d_def not_less)
  then have "unat (d - 0x20) = unat d - 32" "unat d \<le> 90"
    by (simp_all add: unat_sub word_le_nat_alt)
  moreover have "length ssd1306_font5x7 = 295" by (simp add: ssd1306_font5x7_def)
  ultimately show ?thesis
    by (simp add: glyph_index_def Let_def d_def [symmetric] SSD1306_FONT_FIRST_def SSD1306_FONT_LAST_def SSD1306_FONT_W_def)
qed

definition glyph_bit :: "u8 \<Rightarrow> nat \<Rightarrow> nat \<Rightarrow> bool" where
  "glyph_bit c col row = bit (ssd1306_font5x7 ! (glyph_index c + col)) row"

lemma bit_test: "drop_bit row bits AND 1 = 0 \<longleftrightarrow> \<not> bit bits row" for bits :: u8
  by (metis and_one_eq bit_iff_odd_drop_bit odd_iff_mod_2_eq_one even_iff_mod_2_eq_zero zero_neq_one)

text \<open>The pixels of one glyph: a square of side \<open>scale\<close> for each bit of its pattern.\<close>

definition square :: "u32 \<Rightarrow> u32 \<Rightarrow> nat \<Rightarrow> (u32 \<times> u32) list" where
  "square x y scale =
     concat (map (\<lambda>dx. map (\<lambda>dy. (x + of_nat dx, y + of_nat dy)) [0..<scale]) [0..<scale])"

definition glyph_points :: "u32 \<Rightarrow> u32 \<Rightarrow> u8 \<Rightarrow> u32 \<Rightarrow> (u32 \<times> u32) list" where
  "glyph_points x y c scale =
     concat (map (\<lambda>col. concat (map (\<lambda>row.
       if glyph_bit c col row then square (x + of_nat col * scale) (y + of_nat row * scale) (unat scale) else [])
       [0..<7])) [0..<5])"

lemma square_draw:
  "fold (\<lambda>dx. fold (\<lambda>dy. ssd1306_pixel (x + of_nat dx) (y + of_nat dy) on) [0..<k]) [0..<k] fb =
   draw put_pixel (square x y k) on fb"
proof -
  have "fold (\<lambda>dy. ssd1306_pixel u (y + of_nat dy) on) js c = draw put_pixel (map (\<lambda>dy. (u, y + of_nat dy)) js) on c"
    for u js c by (induction js arbitrary: c) (simp_all add: put_pixel_def)
  then show ?thesis unfolding square_def by (intro fold_draw) simp
qed

lemma char_scaled_draw:
  assumes "scale \<noteq> 0"
  shows "ssd1306_char_scaled x y c scale on fb = draw put_pixel (glyph_points x y c scale) on fb"
proof (cases "scale \<le> 1")
  case False
  then show ?thesis
    unfolding ssd1306_char_scaled_def glyph_points_def if_not_P [OF False] Let_def SSD1306_FONT_W_def SSD1306_FONT_H_def
    by (intro fold_draw ballI allI)
       (auto simp: bit_test glyph_bit_def square_draw intro!: fold_draw)
next
  case True
  moreover have "unat scale \<noteq> 0" using assms by (simp add: unsigned_eq_0_iff)
  ultimately have "scale = 1" by (simp add: word_le_nat_alt word_unat_eq_iff)
  then show ?thesis
    unfolding ssd1306_char_scaled_def glyph_points_def ssd1306_char_def Let_def SSD1306_FONT_W_def SSD1306_FONT_H_def
    by (simp, intro fold_draw ballI allI)
       (auto simp: bit_test glyph_bit_def square_def put_pixel_def intro!: fold_draw)
qed

text \<open>A string: its glyphs side by side, six columns apart at scale 1.\<close>

fun text_points :: "u32 \<Rightarrow> u32 \<Rightarrow> u8 list \<Rightarrow> u32 \<Rightarrow> (u32 \<times> u32) list" where
  "text_points x y [] scale = []"
| "text_points x y (c # cs) scale = glyph_points x y c scale @ text_points (x + 6 * scale) y cs scale"

lemma scaled_cells_draw:
  "scale \<noteq> 0 \<Longrightarrow> scaled_cells x y cs scale on fb =
     (x + of_nat (length cs) * (6 * scale), draw put_pixel (text_points x y cs scale) on fb)"
  by (induction cs arbitrary: x fb) (simp_all add: char_scaled_draw SSD1306_CHAR_W_def algebra_simps)

text \<open>Drawing a string returns the column after it, and turns on (or off) exactly the visible pixels of
  its glyphs, each bit of a pattern as a square of the scale's side and the cells side by side; nothing
  else on the panel changes, and what runs off the panel is dropped.\<close>

theorem ssd1306_text_scaled_pixels:
  assumes "fb_wf fb"
  shows "\<exists>fb'. ssd1306_text_scaled x y cs scale on fb =
      (x + ssd1306_text_width cs scale, fb') \<and> fb_wf fb' \<and>
    (\<forall>q. on_panel q \<longrightarrow> fb_get fb' q =
       (if q \<in> set (text_points x y cs (if scale = 0 then 1 else scale)) then on else fb_get fb q))"
proof -
  let ?sc = "if scale = 0 then 1 else scale"
  let ?fb = "draw put_pixel (text_points x y cs ?sc) on fb"
  have "scaled_cells x y cs ?sc on fb = (x + of_nat (length cs) * (6 * ?sc), ?fb)"
    by (rule scaled_cells_draw) simp
  then have "ssd1306_text_scaled x y cs scale on fb = (x + ssd1306_text_width cs scale, ?fb)"
    by (simp only: ssd1306_text_scaled_def ssd1306_text_width_def Let_def SSD1306_CHAR_W_def mult.assoc)
  then show ?thesis using panel.wf_draw [OF assms] panel.get_draw [OF assms] by simp
qed

theorem ssd1306_text_scaled_pixels_witness:
  "\<exists>fb'. ssd1306_text_scaled 10 20 [0x49] 2 True (replicate 1024 0) = (22, fb') \<and>
     fb_get fb' (14, 20) \<and> \<not> fb_get fb' (10, 20)"
proof -
  have wf: "fb_wf (replicate 1024 0)" by (simp add: fb_wf_def SSD1306_FB_SIZE_def)
  obtain fb' where fb': "ssd1306_text_scaled 10 20 [0x49] 2 True (replicate 1024 0) =
      (10 + ssd1306_text_width [0x49] 2, fb')"
    and get: "\<forall>q. on_panel q \<longrightarrow> fb_get fb' q =
      (if q \<in> set (text_points 10 20 [0x49] (if (2 :: u32) = 0 then 1 else 2)) then True else fb_get (replicate 1024 0) q)"
    using ssd1306_text_scaled_pixels [OF wf, of 10 20 "[0x49]" 2 True] by blast
  have "(14, 20) \<in> set (text_points 10 20 [0x49] 2)" "(10, 20) \<notin> set (text_points 10 20 [0x49] 2)"
    by code_simp+
  moreover have "on_panel (14, 20)" "on_panel (10, 20)" by (simp_all add: on_panel_def)
  moreover have "\<not> fb_get (replicate 1024 0) (10, 20)" by (simp add: fb_get_def)
  ultimately show ?thesis
    using fb' get by (intro exI [of _ fb']) (simp add: ssd1306_text_width_def SSD1306_CHAR_W_def)
qed

section \<open>Numbers\<close>

text \<open>A number is drawn as its decimal text, right-aligned by blanks to the width asked for: a minus
  sign exactly for a negative value, then digits whose value is the magnitude, that of the most negative
  value included, with no leading zero; and no value overruns the twelve-byte buffer.\<close>

theorem ssd1306_int_decimal:
  "\<exists>ds cs. ssd1306_int x y v width scale on fb =
      scaled_cells x y (replicate (unat width - length cs) 0x20 @ cs) scale on fb \<and>
    cs = (if sint v < 0 then [0x2D] else []) @ map (\<lambda>d. 0x30 + of_nat d) (rev ds) \<and>
    digits_val 10 ds = nat \<bar>sint v\<bar> \<and> (\<forall>d \<in> set ds. d < 10) \<and>
    (sint v \<noteq> 0 \<longrightarrow> last ds \<noteq> 0) \<and> length cs \<le> 12"
proof -
  define n where "n = unat (if sint v < 0 then - v else v)"
  have n: "n = nat \<bar>sint v\<bar>" unfolding n_def by (rule unat_abs_u32)
  have lt10: "n < 10 ^ 10" using unat_bound [of "if sint v < 0 then - v else v"] by (simp add: n_def)
  then have lt: "n < 10 ^ 11" by simp
  define ds where "ds = digits_loop 10 11 n"
  have "ds = digits_loop 10 10 n"
    using digits_loop_eq_digits [of 10 11 n] digits_loop_eq_digits [of 10 10 n] lt lt10 by (simp add: ds_def)
  then have len: "length ds \<le> 10" using digits_loop_length [of 10 10 n] by simp
  have buf: "rev (int_buf v) = (if sint v < 0 then [0x2D] else []) @ map (\<lambda>d. 0x30 + of_nat d) (rev ds)"
    unfolding int_buf_def Let_def n_def [symmetric] ds_def [symmetric] using len by (simp add: rev_map)
  have cells: "scaled_cells x y (as @ bs) scale on fb = (let (x, fb) = scaled_cells x y as scale on fb
      in scaled_cells x y bs scale on fb)" for as bs x fb
    by (induction as arbitrary: x fb) auto
  have "ssd1306_int x y v width scale on fb =
      scaled_cells x y (replicate (unat width - length (rev (int_buf v))) 0x20 @ rev (int_buf v)) scale on fb"
    by (simp add: ssd1306_int_def Let_def cells case_prod_beta)
  moreover have "digits_val 10 ds = nat \<bar>sint v\<bar>"
    using digits_loop_val [of 10 11 n] lt by (simp add: ds_def n)
  moreover have "\<forall>d \<in> set ds. d < 10"
    using digits_loop_lt [of 10 _ 11 n] by (auto simp: ds_def)
  moreover have "sint v \<noteq> 0 \<longrightarrow> last ds \<noteq> 0"
    using digits_loop_last [of 10 11 n] lt n by (auto simp: ds_def)
  moreover have "length (rev (int_buf v)) \<le> 12" unfolding buf using len by simp
  ultimately show ?thesis using buf by (intro exI [of _ ds] exI [of _ "rev (int_buf v)"]) auto
qed

theorem ssd1306_int_decimal_witness:
  "\<exists>ds cs. ssd1306_int 0 0 0x80000000 0 1 True fb = scaled_cells 0 0 cs 1 True fb \<and>
     cs = 0x2D # map (\<lambda>d. 0x30 + of_nat d) (rev ds) \<and> digits_val 10 ds = 2147483648"
  using ssd1306_int_decimal [of 0 0 "0x80000000" 0 1 True fb] by auto

text \<open>
  The fixed-point printer takes the sign from the whole part only: a value between minus one unit and
  zero is drawn without its sign.
\<close>

lemma ssd1306_fixed_sign_lost:
  "ssd1306_fixed x y (- 50) 2 scale on fb = ssd1306_fixed x y 50 2 scale on fb"
  by (simp add: ssd1306_fixed_def Let_def)

end
