(* ===== verification/Fft.thy ===== *)
theory Fft
  imports Oled
begin

text \<open>
  \<open>sim/sw/common/fft.h\<close>: the FFT coprocessor.  Its one static extends the state after those of the
  display, the order in which the tuner, the program that uses both, includes them.  Samples are C
  \<open>short\<close> or \<open>int\<close> values, kept as integers; a word of the sample buffer packs two of them.
\<close>

record 'd fft = "'d oled" +
  fft_ctrl_shadow :: u32

definition FFT_CTRL_START :: u32 where "FFT_CTRL_START = push_bit 0 1"
definition FFT_CTRL_IRQ_EN :: u32 where "FFT_CTRL_IRQ_EN = push_bit 1 1"
definition FFT_CTRL_INVERSE :: u32 where "FFT_CTRL_INVERSE = push_bit 2 1"
definition FFT_CTRL_SWAP :: u32 where "FFT_CTRL_SWAP = push_bit 3 1"
definition FFT_ST_BUSY :: u32 where "FFT_ST_BUSY = push_bit 0 1"
definition FFT_ST_DONE :: u32 where "FFT_ST_DONE = push_bit 1 1"
definition FFT_ST_CPU_BUF :: u32 where "FFT_ST_CPU_BUF = push_bit 2 1"
definition FFT_SCALE_FULL :: u32 where "FFT_SCALE_FULL = 0x3FF"
definition FFT_SPIN_LIMIT :: nat where "FFT_SPIN_LIMIT = 2000000"

section \<open>Configuration and status\<close>

definition fft_begin :: "'d hw \<Rightarrow> u32 \<Rightarrow> ('d, 'z) fft_scheme \<Rightarrow> u32 \<times> ('d, 'z) fft_scheme" where
  "fft_begin hw log2n s =
     (let s = s\<lparr>fft_ctrl_shadow := 0\<rparr>;
          s = wr hw (Fft FFT_CTRL) 0 s;
          s = wr hw (Fft FFT_IRQ) 1 s;
          s = wr hw (Fft FFT_CONF) log2n s;
          s = wr hw (Fft FFT_SCALE) FFT_SCALE_FULL s
      in rd hw (Fft FFT_CONF) s)"

definition fft_log2n :: "'d hw \<Rightarrow> ('d, 'z) m \<Rightarrow> u32 \<times> ('d, 'z) m" where
  "fft_log2n hw s = rd hw (Fft FFT_CONF) s"

definition fft_points :: "'d hw \<Rightarrow> ('d, 'z) m \<Rightarrow> u32 \<times> ('d, 'z) m" where
  "fft_points hw s = (let (v, s) = rd hw (Fft FFT_CONF) s in (push_bit (unat v) 1, s))"

definition fft_set_scale :: "'d hw \<Rightarrow> u32 \<Rightarrow> ('d, 'z) m \<Rightarrow> ('d, 'z) m" where
  "fft_set_scale hw bits s = wr hw (Fft FFT_SCALE) bits s"

definition fft_set_inverse :: "'d hw \<Rightarrow> bool \<Rightarrow> ('d, 'z) fft_scheme \<Rightarrow> ('d, 'z) fft_scheme" where
  "fft_set_inverse hw on s =
     (let s = s\<lparr>fft_ctrl_shadow := if on then fft_ctrl_shadow s OR FFT_CTRL_INVERSE
                                  else fft_ctrl_shadow s AND NOT FFT_CTRL_INVERSE\<rparr>
      in wr hw (Fft FFT_CTRL) (fft_ctrl_shadow s) s)"

definition fft_status :: "'d hw \<Rightarrow> u32 \<Rightarrow> ('d, 'z) m \<Rightarrow> bool \<times> ('d, 'z) m" where
  "fft_status hw bits s = (let (v, s) = rd hw (Fft FFT_STATUS) s in (v AND bits \<noteq> 0, s))"

definition fft_busy :: "'d hw \<Rightarrow> ('d, 'z) m \<Rightarrow> bool \<times> ('d, 'z) m" where
  "fft_busy hw s = fft_status hw FFT_ST_BUSY s"

definition fft_done :: "'d hw \<Rightarrow> ('d, 'z) m \<Rightarrow> bool \<times> ('d, 'z) m" where
  "fft_done hw s = fft_status hw FFT_ST_DONE s"

definition fft_cpu_buf :: "'d hw \<Rightarrow> ('d, 'z) m \<Rightarrow> bool \<times> ('d, 'z) m" where
  "fft_cpu_buf hw s = fft_status hw FFT_ST_CPU_BUF s"

definition fft_cycles :: "'d hw \<Rightarrow> ('d, 'z) m \<Rightarrow> u32 \<times> ('d, 'z) m" where
  "fft_cycles hw s = rd hw (Fft FFT_CYCLES) s"

section \<open>Sample access\<close>

definition pack :: "int \<Rightarrow> int \<Rightarrow> u32" where
  "pack re im = push_bit 16 (word_of_int im AND 0xFFFF) OR (word_of_int re AND 0xFFFF)"

definition fft_write :: "'d hw \<Rightarrow> nat \<Rightarrow> int \<Rightarrow> int \<Rightarrow> ('d, 'z) m \<Rightarrow> ('d, 'z) m" where
  "fft_write hw i re im s = wr hw (Fft (FFT_DATA i)) (pack re im) s"

definition fft_write_real :: "'d hw \<Rightarrow> nat \<Rightarrow> int \<Rightarrow> ('d, 'z) m \<Rightarrow> ('d, 'z) m" where
  "fft_write_real hw i re s = wr hw (Fft (FFT_DATA i)) (word_of_int re AND 0xFFFF) s"

definition fft_read :: "'d hw \<Rightarrow> nat \<Rightarrow> ('d, 'z) m \<Rightarrow> (int \<times> int) \<times> ('d, 'z) m" where
  "fft_read hw i s = (let (w, s) = rd hw (Fft (FFT_DATA i)) s in ((s16 w, s16 (drop_bit 16 w)), s))"

definition fft_read_re :: "'d hw \<Rightarrow> nat \<Rightarrow> ('d, 'z) m \<Rightarrow> int \<times> ('d, 'z) m" where
  "fft_read_re hw i s = (let (w, s) = rd hw (Fft (FFT_DATA i)) s in (s16 w, s))"

definition fft_read_im :: "'d hw \<Rightarrow> nat \<Rightarrow> ('d, 'z) m \<Rightarrow> int \<times> ('d, 'z) m" where
  "fft_read_im hw i s = (let (w, s) = rd hw (Fft (FFT_DATA i)) s in (s16 (drop_bit 16 w), s))"

text \<open>The imaginary part of a fill may be the null pointer, \<^const>\<open>None\<close>.\<close>

definition fft_fill :: "'d hw \<Rightarrow> int list \<Rightarrow> int list option \<Rightarrow> nat \<Rightarrow> ('d, 'z) m \<Rightarrow> ('d, 'z) m" where
  "fft_fill hw re im n s =
     (case im of Some im \<Rightarrow> fold (\<lambda>i. fft_write hw i (re ! i) (im ! i)) [0..<n] s
      | None \<Rightarrow> fold (\<lambda>i. fft_write_real hw i (re ! i)) [0..<n] s)"

definition fft_fill_real :: "'d hw \<Rightarrow> int list \<Rightarrow> nat \<Rightarrow> ('d, 'z) m \<Rightarrow> ('d, 'z) m" where
  "fft_fill_real hw x n s = fft_fill hw x None n s"

text \<open>Both halves are returned; a caller that passes a null pointer drops one.\<close>

fun read_bins :: "'d hw \<Rightarrow> nat list \<Rightarrow> ('d, 'z) m \<Rightarrow> (int \<times> int) list \<times> ('d, 'z) m" where
  "read_bins hw [] s = ([], s)"
| "read_bins hw (i # is) s =
     (let (w, s) = rd hw (Fft (FFT_DATA i)) s; (ws, s) = read_bins hw is s
      in ((s16 w, s16 (drop_bit 16 w)) # ws, s))"

definition fft_read_all :: "'d hw \<Rightarrow> nat \<Rightarrow> ('d, 'z) m \<Rightarrow> (int \<times> int) list \<times> ('d, 'z) m" where
  "fft_read_all hw n s = read_bins hw [0..<n] s"

definition fft_clear :: "'d hw \<Rightarrow> nat \<Rightarrow> ('d, 'z) m \<Rightarrow> ('d, 'z) m" where
  "fft_clear hw n s = fold (\<lambda>i. wr hw (Fft (FFT_DATA i)) 0) [0..<n] s"

section \<open>Running a transform\<close>

definition fft_start :: "'d hw \<Rightarrow> ('d, 'z) fft_scheme \<Rightarrow> ('d, 'z) fft_scheme" where
  "fft_start hw s = (let s = wr hw (Fft FFT_IRQ) 1 s in wr hw (Fft FFT_CTRL) (fft_ctrl_shadow s OR FFT_CTRL_START) s)"

definition fft_swap :: "'d hw \<Rightarrow> ('d, 'z) fft_scheme \<Rightarrow> ('d, 'z) fft_scheme" where
  "fft_swap hw s = wr hw (Fft FFT_CTRL) (fft_ctrl_shadow s OR FFT_CTRL_SWAP) s"

function fft_wait_loop :: "'d hw \<Rightarrow> nat \<Rightarrow> ('d, 'z) m \<Rightarrow> bool \<times> ('d, 'z) m" where
  "fft_wait_loop hw spin s =
     (let (v, s) = rd hw (Fft FFT_STATUS) s
      in if v AND FFT_ST_DONE = 0 then
           if spin + 1 \<ge> FFT_SPIN_LIMIT then (False, s) else fft_wait_loop hw (spin + 1) s
         else (True, s))"
  by pat_completeness auto
termination
  by (relation "measure (\<lambda>(hw, spin, s). FFT_SPIN_LIMIT - spin)") auto

declare fft_wait_loop.simps [simp del]

definition fft_wait :: "'d hw \<Rightarrow> ('d, 'z) m \<Rightarrow> bool \<times> ('d, 'z) m" where
  "fft_wait hw s = fft_wait_loop hw 0 s"

definition fft_transform ::
  "'d hw \<Rightarrow> int list \<Rightarrow> int list option \<Rightarrow> ('d, 'z) fft_scheme \<Rightarrow> (int \<times> int) list option \<times> ('d, 'z) fft_scheme" where
  "fft_transform hw re im s =
     (let (n, s) = fft_points hw s;
          s = fft_fill hw re im (unat n) s;
          s = fft_start hw s;
          (ok, s) = fft_wait hw s
      in if \<not> ok then (None, s)
         else let s = fft_swap hw s; (out, s) = fft_read_all hw (unat n) s in (Some out, s))"

definition fft_transform_real ::
  "'d hw \<Rightarrow> int list \<Rightarrow> ('d, 'z) fft_scheme \<Rightarrow> (int \<times> int) list option \<times> ('d, 'z) fft_scheme" where
  "fft_transform_real hw x s = fft_transform hw x None s"

section \<open>Spectrum helpers\<close>

definition power_of :: "int \<Rightarrow> int \<Rightarrow> u32" where
  "power_of re im = word_of_int (re * re) + word_of_int (im * im)"

definition fft_power :: "'d hw \<Rightarrow> nat \<Rightarrow> ('d, 'z) m \<Rightarrow> u32 \<times> ('d, 'z) m" where
  "fft_power hw k s =
     (let (re, s) = fft_read_re hw k s; (im, s) = fft_read_im hw k s in (power_of re im, s))"

definition mag_of :: "int \<Rightarrow> int \<Rightarrow> u32" where
  "mag_of re im =
     (let a = word_of_int (if re < 0 then - re else re) :: u32;
          b = word_of_int (if im < 0 then - im else im) :: u32;
          hi = (if a > b then a else b);
          lo = (if a > b then b else a)
      in hi + 3 * lo div 8)"

definition fft_mag :: "'d hw \<Rightarrow> nat \<Rightarrow> ('d, 'z) m \<Rightarrow> u32 \<times> ('d, 'z) m" where
  "fft_mag hw k s =
     (let (re, s) = fft_read_re hw k s; (im, s) = fft_read_im hw k s in (mag_of re im, s))"

text \<open>The loop variable is unsigned, so a scan up to the largest index would not end.\<close>

partial_function (option) peak_loop ::
  "'d hw \<Rightarrow> u32 \<Rightarrow> u32 \<Rightarrow> u32 \<Rightarrow> u32 \<Rightarrow> ('d, 'z) m \<Rightarrow> (u32 \<times> ('d, 'z) m) option" where
  "peak_loop hw k stop best best_p s =
     (if k \<le> stop then
        let (p, s) = fft_power hw (unat k) s
        in if p > best_p then peak_loop hw (k + 1) stop k p s else peak_loop hw (k + 1) stop best best_p s
      else Some (best, s))"

definition fft_peak_bin :: "'d hw \<Rightarrow> u32 \<Rightarrow> u32 \<Rightarrow> ('d, 'z) m \<Rightarrow> (u32 \<times> ('d, 'z) m) option" where
  "fft_peak_bin hw first stop s =
     (let (p, s) = fft_power hw (unat first) s in peak_loop hw (first + 1) stop first p s)"

definition fft_bin_hz :: "u32 \<Rightarrow> u32 \<Rightarrow> u32 \<Rightarrow> u32" where
  "fft_bin_hz k sample_hz n = (sample_hz div n) * k + ((sample_hz mod n) * k) div n"

section \<open>Interrupt plumbing\<close>

definition fft_irq_enable :: "'d hw \<Rightarrow> ('d, 'z) fft_scheme \<Rightarrow> ('d, 'z) fft_scheme" where
  "fft_irq_enable hw s =
     (let s = s\<lparr>fft_ctrl_shadow := fft_ctrl_shadow s OR FFT_CTRL_IRQ_EN\<rparr>
      in wr hw (Fft FFT_CTRL) (fft_ctrl_shadow s) s)"

definition fft_irq_disable :: "'d hw \<Rightarrow> ('d, 'z) fft_scheme \<Rightarrow> ('d, 'z) fft_scheme" where
  "fft_irq_disable hw s =
     (let s = s\<lparr>fft_ctrl_shadow := fft_ctrl_shadow s AND NOT FFT_CTRL_IRQ_EN\<rparr>
      in wr hw (Fft FFT_CTRL) (fft_ctrl_shadow s) s)"

definition fft_irq_clear :: "'d hw \<Rightarrow> ('d, 'z) m \<Rightarrow> ('d, 'z) m" where
  "fft_irq_clear hw s = wr hw (Fft FFT_IRQ) 1 s"

definition fft_irq_pending :: "'d hw \<Rightarrow> ('d, 'z) m \<Rightarrow> u32 \<times> ('d, 'z) m" where
  "fft_irq_pending hw s = (let (v, s) = rd hw (Fft FFT_IRQ) s in (v AND 1, s))"

declare peak_loop.simps [code]

section \<open>The coprocessor\<close>

text \<open>
  The device as \<open>axi4_lite_fft.sv\<close> shows it to the driver, around an arbitrary transform: \<open>tr\<close> takes the
  size, the direction and the scaling to a function of the samples.  There are two sample buffers.  START,
  when not busy, swaps them and runs the transform on the one the program filled; the engine is then busy
  until it has been polled \<open>lat\<close> times, and sets the sticky DONE.  SWAP, when not busy, only swaps.  CONF
  and SCALE are ignored while busy, and the size is clamped to 2..10.
\<close>

type_synonym transform = "nat \<Rightarrow> bool \<Rightarrow> u32 \<Rightarrow> u32 list \<Rightarrow> u32 list"

record fft_dev =
  cpu_buf :: "u32 list"
  eng_buf :: "u32 list"
  busy_for :: nat
  done_q :: bool
  log2n_q :: nat
  scale_q :: u32

definition run_on :: "transform \<Rightarrow> bool \<Rightarrow> fft_dev \<Rightarrow> u32 list \<Rightarrow> u32 list" where
  "run_on tr back d xs = tr (log2n_q d) back (scale_q d) (take (2 ^ log2n_q d) xs) @ drop (2 ^ log2n_q d) xs"

definition fft_ctrl_wr :: "transform \<Rightarrow> nat \<Rightarrow> u32 \<Rightarrow> fft_dev \<Rightarrow> fft_dev" where
  "fft_ctrl_wr tr lat v d =
     (if busy_for d \<noteq> 0 then d
      else if bit v 0 then d\<lparr>cpu_buf := eng_buf d, eng_buf := run_on tr (bit v 2) d (cpu_buf d),
                             busy_for := lat, done_q := (lat = 0)\<rparr>
      else if bit v 3 then d\<lparr>cpu_buf := eng_buf d, eng_buf := cpu_buf d\<rparr>
      else d)"

definition fft_poll :: "fft_dev \<Rightarrow> fft_dev" where
  "fft_poll d = (if busy_for d = 0 then d else d\<lparr>busy_for := busy_for d - 1, done_q := (busy_for d = 1)\<rparr>)"

fun fft_reg_rd :: "fft_reg \<Rightarrow> fft_dev \<Rightarrow> u32 \<times> fft_dev" where
  "fft_reg_rd FFT_STATUS d = ((if busy_for d \<noteq> 0 then 1 else 0) OR (if done_q d then 2 else 0), fft_poll d)"
| "fft_reg_rd FFT_CONF d = (of_nat (log2n_q d), d)"
| "fft_reg_rd FFT_SCALE d = (scale_q d, d)"
| "fft_reg_rd (FFT_DATA i) d = (cpu_buf d ! i, d)"
| "fft_reg_rd _ d = (0, d)"

fun fft_reg_wr :: "transform \<Rightarrow> nat \<Rightarrow> fft_reg \<Rightarrow> u32 \<Rightarrow> fft_dev \<Rightarrow> fft_dev" where
  "fft_reg_wr tr lat FFT_CTRL v d = fft_ctrl_wr tr lat v d"
| "fft_reg_wr tr lat FFT_IRQ v d = (if bit v 0 then d\<lparr>done_q := False\<rparr> else d)"
| "fft_reg_wr tr lat FFT_CONF v d =
     (if busy_for d \<noteq> 0 then d else d\<lparr>log2n_q := max 2 (min 10 (unat (v AND 0xF)))\<rparr>)"
| "fft_reg_wr tr lat FFT_SCALE v d = (if busy_for d \<noteq> 0 then d else d\<lparr>scale_q := v AND 0x3FF\<rparr>)"
| "fft_reg_wr tr lat (FFT_DATA i) v d = d\<lparr>cpu_buf := (cpu_buf d)[i := v]\<rparr>"
| "fft_reg_wr tr lat _ v d = d"

definition fft_hw :: "transform \<Rightarrow> nat \<Rightarrow> fft_dev hw" where
  "fft_hw tr lat = \<lparr>hw_rd = \<lambda>r d. (case r of Fft q \<Rightarrow> fft_reg_rd q d | _ \<Rightarrow> (0, d)),
     hw_wr = \<lambda>r v d. (case r of Fft q \<Rightarrow> fft_reg_wr tr lat q v d | _ \<Rightarrow> d),
     hw_csr_rd = \<lambda>c d. (0, d), hw_csr_op = \<lambda>f c v d. d, hw_wfi = \<lambda>d. d\<rparr>"

text \<open>
  Any machine in whose address space such a device sits: \<open>co\<close> is the device in the state of the machine, \<open>rest\<close>
  what no access to its registers changes.  The registers read here are those the transform depends on.
\<close>

definition visible :: "fft_reg \<Rightarrow> bool" where
  "visible q \<longleftrightarrow> q \<noteq> FFT_CTRL \<and> q \<noteq> FFT_IRQ \<and> q \<noteq> FFT_CYCLES"

lemma visible_simps [simp]: "visible FFT_STATUS" "visible FFT_CONF" "visible FFT_SCALE" "visible (FFT_DATA i)"
  by (simp_all add: visible_def)

lemma shadow_wr [simp]: "fft_ctrl_shadow (wr hw r v s) = fft_ctrl_shadow s"
  by (simp add: wr_def)

lemma shadow_rd [simp]: "fft_ctrl_shadow (snd (rd hw r s)) = fft_ctrl_shadow s"
  by (simp add: rd_def case_prod_beta)

locale coprocessor =
  fixes hw :: "'d hw" and co :: "'d \<Rightarrow> fft_dev" and rest :: "'d \<Rightarrow> 'r" and tr :: transform and lat :: nat
  assumes hw_rd_co: "visible q \<Longrightarrow> fst (hw_rd hw (Fft q) d) = fst (fft_reg_rd q (co d)) \<and>
      co (snd (hw_rd hw (Fft q) d)) = snd (fft_reg_rd q (co d)) \<and> rest (snd (hw_rd hw (Fft q) d)) = rest d"
    and hw_wr_co: "co (hw_wr hw (Fft q) v d) = fft_reg_wr tr lat q v (co d) \<and> rest (hw_wr hw (Fft q) v d) = rest d"
begin

text \<open>Only the bus has moved, and left the device in state \<open>d\<close>.\<close>

definition leads :: "('d, 'z) m \<Rightarrow> fft_dev \<Rightarrow> ('d, 'z) m \<Rightarrow> bool" where
  "leads s d t \<longleftrightarrow> only_bus s t \<and> co (dev t) = d \<and> rest (dev t) = rest (dev s)"

lemma leads_trans: "leads s d t \<Longrightarrow> leads t e u \<Longrightarrow> leads s e u"
  unfolding leads_def using only_bus_trans by metis

lemma leads_co: "leads s d t \<Longrightarrow> co (dev t) = d"
  by (simp add: leads_def)

lemma rd_co: "visible q \<Longrightarrow> fst (rd hw (Fft q) s) = fst (fft_reg_rd q (co (dev s)))"
  using hw_rd_co [of q "dev s"] by (simp add: rd_def case_prod_beta)

lemma rd_leads: "visible q \<Longrightarrow> leads s (snd (fft_reg_rd q (co (dev s)))) (snd (rd hw (Fft q) s))"
  using hw_rd_co [of q "dev s"] only_bus_rd [of s hw "Fft q"] by (simp add: leads_def rd_def case_prod_beta)

lemma wr_leads: "leads s (fft_reg_wr tr lat q v (co (dev s))) (wr hw (Fft q) v s)"
  using hw_wr_co [of q v "dev s"] only_bus_wr [of s hw "Fft q" v] by (simp add: leads_def wr_def)

lemma fill_leads:
  "n \<le> length (cpu_buf (co (dev s))) \<Longrightarrow>
   leads s ((co (dev s))\<lparr>cpu_buf := map f [0..<n] @ drop n (cpu_buf (co (dev s)))\<rparr>)
     (fold (\<lambda>i. wr hw (Fft (FFT_DATA i)) (f i)) [0..<n] s)"
proof (induction n)
  case 0
  then show ?case by (simp add: leads_def)
next
  case (Suc n)
  let ?t = "fold (\<lambda>i. wr hw (Fft (FFT_DATA i)) (f i)) [0..<n] s"
  have "drop n (cpu_buf (co (dev s))) = cpu_buf (co (dev s)) ! n # drop (Suc n) (cpu_buf (co (dev s)))"
    using Suc.prems by (simp add: Cons_nth_drop_Suc)
  moreover have l: "leads s ((co (dev s))\<lparr>cpu_buf := map f [0..<n] @ drop n (cpu_buf (co (dev s)))\<rparr>) ?t"
    using Suc by simp
  ultimately show ?case
    using leads_trans [OF l wr_leads [of ?t "FFT_DATA n" "f n"]] leads_co [OF l] by (simp add: list_update_append)
qed

lemma wait_leads:
  "done_q (co (dev s)) \<longleftrightarrow> busy_for (co (dev s)) = 0 \<Longrightarrow> spin < FFT_SPIN_LIMIT \<Longrightarrow>
   \<exists>t. fft_wait_loop hw spin s = (spin + busy_for (co (dev s)) < FFT_SPIN_LIMIT, t) \<and>
     leads s (co (dev t)) t \<and>
     (spin + busy_for (co (dev s)) < FFT_SPIN_LIMIT \<longrightarrow> co (dev t) = (co (dev s))\<lparr>busy_for := 0, done_q := True\<rparr>)"
proof (induction "busy_for (co (dev s))" arbitrary: s spin)
  case 0
  then have "(co (dev s))\<lparr>busy_for := 0, done_q := True\<rparr> = co (dev s)" by simp
  with 0 rd_leads [of FFT_STATUS s] show ?case
    by (subst fft_wait_loop.simps) (simp add: rd_co leads_def case_prod_beta FFT_ST_DONE_def fft_poll_def)
next
  case (Suc j)
  let ?t = "snd (rd hw (Fft FFT_STATUS) s)"
  have l: "leads s ((co (dev s))\<lparr>busy_for := j, done_q := (j = 0)\<rparr>) ?t"
    using Suc.hyps(2) [symmetric] rd_leads [of FFT_STATUS s] by (simp add: fft_poll_def)
  note d = leads_co [OF l]
  have "\<not> done_q (co (dev s))" using Suc.prems(1) Suc.hyps(2) by simp
  then have v: "fst (rd hw (Fft FFT_STATUS) s) AND FFT_ST_DONE = 0"
    using Suc.hyps(2) by (simp add: rd_co FFT_ST_DONE_def)
  show ?case
  proof (cases "spin + 1 \<ge> FFT_SPIN_LIMIT")
    case True
    then show ?thesis
      using v l d Suc.hyps(2) by (subst fft_wait_loop.simps) (simp add: case_prod_beta)
  next
    case False
    have "\<exists>t. fft_wait_loop hw (spin + 1) ?t = (spin + 1 + busy_for (co (dev ?t)) < FFT_SPIN_LIMIT, t) \<and>
      leads ?t (co (dev t)) t \<and>
      (spin + 1 + busy_for (co (dev ?t)) < FFT_SPIN_LIMIT \<longrightarrow> co (dev t) = (co (dev ?t))\<lparr>busy_for := 0, done_q := True\<rparr>)"
      using False d by (intro Suc.hyps(1)) simp_all
    then show ?thesis
      using False v d leads_trans [OF l] Suc.hyps(2) [symmetric]
      by (subst fft_wait_loop.simps) (auto simp: case_prod_beta)
  qed
qed

lemma read_bins_leads:
  "\<exists>t. read_bins hw is s =
     (map (\<lambda>i. (s16 (cpu_buf (co (dev s)) ! i), s16 (drop_bit 16 (cpu_buf (co (dev s)) ! i)))) is, t) \<and>
     leads s (co (dev s)) t"
proof (induction "is" arbitrary: s)
  case Nil
  then show ?case by (simp add: leads_def)
next
  case (Cons i "is")
  let ?t = "snd (rd hw (Fft (FFT_DATA i)) s)"
  have l: "leads s (co (dev s)) ?t" using rd_leads [of "FFT_DATA i" s] by simp
  note d = leads_co [OF l]
  obtain t where "read_bins hw is ?t =
     (map (\<lambda>i. (s16 (cpu_buf (co (dev ?t)) ! i), s16 (drop_bit 16 (cpu_buf (co (dev ?t)) ! i)))) is, t)"
    "leads ?t (co (dev ?t)) t"
    using Cons.IH by blast
  then show ?case using d leads_trans [OF l] by (auto simp: rd_co case_prod_beta)
qed

end

interpretation chip: coprocessor "fft_hw tr lat" "\<lambda>d. d" "\<lambda>_. ()" tr lat for tr lat
  by unfold_locales (simp_all add: fft_hw_def)

lemma rd_fft: "rd (fft_hw tr lat) (Fft q) s =
    (fst (fft_reg_rd q (dev s)), s\<lparr>dev := snd (fft_reg_rd q (dev s)), evs := evs s @ [Rd (Fft q) (fst (fft_reg_rd q (dev s)))]\<rparr>)"
  by (simp add: rd_def fft_hw_def case_prod_beta)

lemma dev_wr_fft: "dev (wr (fft_hw tr lat) (Fft q) v s) = fft_reg_wr tr lat q v (dev s)"
  by (rule chip.leads_co, rule chip.wr_leads)

lemma shadow_only_bus: "only_bus s t \<Longrightarrow> fft_ctrl_shadow t = fft_ctrl_shadow s"
  unfolding only_bus_def by (metis fft.select_convs fft.surjective mach.update_convs)

section \<open>Samples\<close>

lemma sint_u16: "- 32768 \<le> x \<Longrightarrow> x < 32768 \<Longrightarrow> sint (word_of_int x :: u16) = x"
proof -
  assume x: "- 32768 \<le> x" "x < 32768"
  have "(x + 2 ^ 15) mod 2 ^ 16 = x + 2 ^ 15"
    using x by (intro mod_pos_pos_trivial) simp_all
  then show ?thesis by (simp add: int_word_sint)
qed

lemma low_pack: "(ucast (pack re im) :: u16) = word_of_int re"
  unfolding pack_def and_masks by (rule bit_eqI) (auto simp: bit_simps)

lemma high_pack: "(ucast (drop_bit 16 (pack re im)) :: u16) = word_of_int im"
  unfolding pack_def and_masks by (rule bit_eqI) (auto simp: bit_simps)

lemma s16_eq: "s16 w = sint (ucast w :: u16)"
  by (simp add: s16_def)

lemma pack_real: "word_of_int re AND 0xFFFF = pack re 0"
  by (simp add: pack_def)

lemma unpack_word: "(ucast w :: u16) = word_of_int x \<Longrightarrow> - 32768 \<le> x \<Longrightarrow> x < 32768 \<Longrightarrow> s16 w = x"
  by (simp add: s16_eq sint_u16)

text \<open>A complex sample written to the coprocessor's buffer reads back as itself, both parts, for every
  pair of Q15 values: packing and the two sign extensions lose nothing.\<close>

theorem fft_sample_round_trip:
  assumes "i < length (cpu_buf (dev s))"
    and "- 32768 \<le> re" "re < 32768" "- 32768 \<le> im" "im < 32768"
  shows "fst (fft_read (fft_hw tr lat) i (fft_write (fft_hw tr lat) i re im s)) = (re, im)"
  using assms unpack_word [OF low_pack] unpack_word [OF high_pack]
  by (simp add: fft_read_def fft_write_def rd_fft dev_wr_fft)

definition idle_fft :: fft_dev where
  "idle_fft = \<lparr>cpu_buf = replicate 1024 0, eng_buf = replicate 1024 0, busy_for = 0, done_q = False,
     log2n_q = 2, scale_q = 0x3FF\<rparr>"

theorem fft_sample_round_trip_witness:
  "fst (fft_read (fft_hw (\<lambda>l b c xs. xs) 7) 5 (fft_write (fft_hw (\<lambda>l b c xs. xs) 7) 5 (- 32768) 32767 \<lparr>dev = idle_fft, evs = []\<rparr>)) =
     (- 32768, 32767)"
  by (rule fft_sample_round_trip) (simp_all add: idle_fft_def)

section \<open>A whole transform\<close>

definition samples :: "int list \<Rightarrow> int list option \<Rightarrow> u32 list" where
  "samples re im = map2 pack re (case im of Some im \<Rightarrow> im | None \<Rightarrow> map (\<lambda>_. 0) re)"

context coprocessor
begin

lemma fft_fill_leads:
  assumes "length re \<le> length (cpu_buf (co (dev s)))" and "\<And>xs. im = Some xs \<Longrightarrow> length xs = length re"
  shows "leads s ((co (dev s))\<lparr>cpu_buf := samples re im @ drop (length re) (cpu_buf (co (dev s)))\<rparr>)
    (fft_fill hw re im (length re) s)"
proof (cases im)
  case None
  have "map (\<lambda>i. pack (re ! i) 0) [0..<length re] = samples re im"
    by (rule nth_equalityI) (simp_all add: samples_def None)
  then show ?thesis
    using fill_leads [OF assms(1), of "\<lambda>i. pack (re ! i) 0"]
    by (simp add: fft_fill_def None fft_write_real_def [abs_def] pack_real)
next
  case (Some xs)
  have "map (\<lambda>i. pack (re ! i) (xs ! i)) [0..<length re] = samples re im"
    using assms(2) [OF Some] by (intro nth_equalityI) (simp_all add: samples_def Some)
  then show ?thesis
    using fill_leads [OF assms(1), of "\<lambda>i. pack (re ! i) (xs ! i)"]
    by (simp add: fft_fill_def Some fft_write_def [abs_def])
qed

text \<open>A START of an idle engine swaps the buffers and leaves it running; a SWAP only swaps.\<close>

lemma start_leads:
  assumes "busy_for (co (dev s)) = 0"
  shows "leads s ((co (dev s))\<lparr>cpu_buf := eng_buf (co (dev s)),
      eng_buf := run_on tr (bit (fft_ctrl_shadow s) 2) (co (dev s)) (cpu_buf (co (dev s))), busy_for := lat, done_q := (lat = 0)\<rparr>)
    (fft_start hw s)"
  using leads_trans [OF wr_leads [of s FFT_IRQ 1] wr_leads [of _ FFT_CTRL "fft_ctrl_shadow s OR FFT_CTRL_START"]] assms
    leads_co [OF wr_leads [of s FFT_IRQ 1]]
  by (simp add: fft_start_def fft_ctrl_wr_def FFT_CTRL_START_def run_on_def bit_simps)

lemma swap_leads:
  assumes "busy_for (co (dev s)) = 0" and "\<not> bit (fft_ctrl_shadow s) 0"
  shows "leads s ((co (dev s))\<lparr>cpu_buf := eng_buf (co (dev s)), eng_buf := cpu_buf (co (dev s))\<rparr>) (fft_swap hw s)"
  using wr_leads [of s FFT_CTRL "fft_ctrl_shadow s OR FFT_CTRL_SWAP"] assms
  by (simp add: fft_swap_def fft_ctrl_wr_def FFT_CTRL_SWAP_def bit_simps)

lemma points_leads:
  assumes "log2n_q (co (dev s)) \<le> 10"
  shows "unat (fst (fft_points hw s)) = 2 ^ log2n_q (co (dev s))" and "leads s (co (dev s)) (snd (fft_points hw s))"
proof -
  let ?l = "log2n_q (co (dev s))"
  have N: "(2 :: nat) ^ ?l \<le> 1024" using power_increasing [OF assms, of "2 :: nat"] by simp
  have "?l < 2 ^ 32" using assms by simp
  then have ul: "unat (of_nat ?l :: u32) = ?l" by (simp add: unat_of_nat)
  then have "fst (fft_points hw s) = of_nat (2 ^ ?l)"
    by (simp add: fft_points_def rd_co case_prod_beta push_bit_eq_mult)
  moreover have "unat (of_nat (2 ^ ?l) :: u32) = 2 ^ ?l"
    unfolding unat_of_nat by (rule mod_less) (use N in simp)
  ultimately show "unat (fst (fft_points hw s)) = 2 ^ ?l" by (simp only:)
  show "leads s (co (dev s)) (snd (fft_points hw s))"
    using rd_leads [of FFT_CONF s] by (simp add: fft_points_def case_prod_beta)
qed

text \<open>A one-shot transform hides the ping-pong of the two buffers: whatever they held, it returns the
  transform, of the size, direction and scaling in force, of exactly the samples it was given, in order;
  and if the engine takes longer than the polling bound it reports failure instead of hanging.\<close>

lemma transform_leads:
  assumes "busy_for (co (dev s)) = 0" and "log2n_q (co (dev s)) \<le> 10" and "length (cpu_buf (co (dev s))) = 1024"
    and "length re = 2 ^ log2n_q (co (dev s))" and "\<And>xs. im = Some xs \<Longrightarrow> length xs = length re"
    and "\<not> bit (fft_ctrl_shadow s) 0" and "\<And>l b c xs. length (tr l b c xs) = length xs"
  defines "X \<equiv> tr (log2n_q (co (dev s))) (bit (fft_ctrl_shadow s) 2) (scale_q (co (dev s))) (samples re im)"
  shows "\<exists>t. fft_transform hw re im s =
      (if lat < FFT_SPIN_LIMIT then Some (map (\<lambda>w. (s16 w, s16 (drop_bit 16 w))) X) else None, t) \<and>
    leads s (co (dev t)) t \<and>
    (lat < FFT_SPIN_LIMIT \<longrightarrow> co (dev t) = (co (dev s))\<lparr>done_q := True, cpu_buf := X @ drop (length re) (cpu_buf (co (dev s)))\<rparr>)"
proof -
  let ?N = "2 ^ log2n_q (co (dev s)) :: nat"
  obtain n a where a: "fft_points hw s = (n, a)" by (cases "fft_points hw s")
  have n: "unat n = ?N" and la: "leads s (co (dev s)) a" using points_leads [OF assms(2)] a by simp_all
  define b where "b = fft_fill hw re im (unat n) a"
  have N: "?N \<le> 1024" using power_increasing [OF assms(2), of "2 :: nat"] by simp
  have lb: "leads s ((co (dev s))\<lparr>cpu_buf := samples re im @ drop ?N (cpu_buf (co (dev s)))\<rparr>) b"
    using leads_trans [OF la fft_fill_leads [of re a im]] leads_co [OF la] assms(3,4,5) N by (simp add: b_def n)
  have sb: "fft_ctrl_shadow b = fft_ctrl_shadow s" using lb by (simp add: leads_def shadow_only_bus)
  define c where "c = fft_start hw b"
  have len: "length (samples re im) = ?N" using assms(4,5) by (cases im) (simp_all add: samples_def)
  have lc: "leads s ((co (dev s))\<lparr>cpu_buf := eng_buf (co (dev s)), eng_buf := X @ drop ?N (cpu_buf (co (dev s))),
      busy_for := lat, done_q := (lat = 0)\<rparr>) c"
    using leads_trans [OF lb start_leads] leads_co [OF lb] assms(1) len sb by (simp add: c_def run_on_def X_def)
  have sc: "fft_ctrl_shadow c = fft_ctrl_shadow s" using lc by (simp add: leads_def shadow_only_bus)
  obtain t where t: "fft_wait hw c = (lat < FFT_SPIN_LIMIT, t)" "leads c (co (dev t)) t"
    "lat < FFT_SPIN_LIMIT \<longrightarrow> co (dev t) = (co (dev c))\<lparr>busy_for := 0, done_q := True\<rparr>"
    using wait_leads [of c 0] leads_co [OF lc] by (auto simp: fft_wait_def FFT_SPIN_LIMIT_def)
  have lt: "leads s (co (dev t)) t" using leads_trans [OF lc t(2)] .
  have run: "fft_transform hw re im s =
      (if \<not> lat < FFT_SPIN_LIMIT then (None, t)
       else let s = fft_swap hw t; (out, s) = fft_read_all hw ?N s in (Some out, s))"
    using a t(1) by (simp add: fft_transform_def b_def c_def n)
  show ?thesis
  proof (cases "lat < FFT_SPIN_LIMIT")
    case False
    then show ?thesis using run lt by simp
  next
    case True
    define u where "u = fft_swap hw t"
    have same: "(co (dev s))\<lparr>busy_for := 0\<rparr> = co (dev s)" using assms(1) by simp
    have st: "fft_ctrl_shadow t = fft_ctrl_shadow s" using lt by (simp add: leads_def shadow_only_bus)
    have lu: "leads s ((co (dev s))\<lparr>done_q := True, cpu_buf := X @ drop ?N (cpu_buf (co (dev s)))\<rparr>) u"
      using leads_trans [OF lt swap_leads] t(3) True leads_co [OF lc] same assms(6) st by (simp add: u_def)
    have lenX: "length X = ?N" using assms(7) len by (simp add: X_def)
    obtain v where v: "read_bins hw [0..<?N] u =
        (map (\<lambda>i. (s16 (cpu_buf (co (dev u)) ! i), s16 (drop_bit 16 (cpu_buf (co (dev u)) ! i)))) [0..<?N], v)"
      "leads u (co (dev u)) v"
      using read_bins_leads by blast
    have "map (\<lambda>i. (s16 (cpu_buf (co (dev u)) ! i), s16 (drop_bit 16 (cpu_buf (co (dev u)) ! i)))) [0..<?N] =
        map (\<lambda>w. (s16 w, s16 (drop_bit 16 w))) X"
      unfolding leads_co [OF lu] by (rule nth_equalityI) (simp_all add: lenX nth_append)
    then show ?thesis
      using run True v leads_trans [OF lu v(2)] leads_co [OF lu] leads_co [OF v(2)] assms(4)
      by (simp add: fft_read_all_def u_def [symmetric])
  qed
qed

end

theorem fft_transform_result:
  assumes "busy_for (dev s) = 0" and "log2n_q (dev s) \<le> 10" and "length (cpu_buf (dev s)) = 1024"
    and "length re = 2 ^ log2n_q (dev s)" and "\<And>xs. im = Some xs \<Longrightarrow> length xs = length re"
    and "\<not> bit (fft_ctrl_shadow s) 0" and "\<And>l b c xs. length (tr l b c xs) = length xs"
  shows "fst (fft_transform (fft_hw tr lat) re im s) =
    (if lat < FFT_SPIN_LIMIT
     then Some (map (\<lambda>w. (s16 w, s16 (drop_bit 16 w)))
       (tr (log2n_q (dev s)) (bit (fft_ctrl_shadow s) 2) (scale_q (dev s)) (samples re im)))
     else None)"
proof -
  have "\<exists>t. fft_transform (fft_hw tr lat) re im s =
      (if lat < FFT_SPIN_LIMIT then Some (map (\<lambda>w. (s16 w, s16 (drop_bit 16 w)))
         (tr (log2n_q (dev s)) (bit (fft_ctrl_shadow s) 2) (scale_q (dev s)) (samples re im))) else None, t)"
    using chip.transform_leads [where s = s and re = re and im = im and tr = tr and lat = lat] assms by blast
  then show ?thesis by auto
qed

theorem fft_transform_result_witness:
  "fst (fft_transform (fft_hw (\<lambda>l b c xs. rev xs) 7) [1, - 2, 3, - 4] None
     \<lparr>dev = idle_fft, evs = [], ssd1306_addr = 0, ssd1306_fb = [], fft_ctrl_shadow = 0\<rparr>) =
   Some [(- 4, 0), (3, 0), (- 2, 0), (1, 0)]"
proof -
  let ?s = "\<lparr>dev = idle_fft, evs = [], ssd1306_addr = 0, ssd1306_fb = [], fft_ctrl_shadow = 0\<rparr> :: fft_dev fft"
  have "fst (fft_transform (fft_hw (\<lambda>l b c xs. rev xs) 7) [1, - 2, 3, - 4] None ?s) =
    (if 7 < FFT_SPIN_LIMIT then Some (map (\<lambda>w. (s16 w, s16 (drop_bit 16 w)))
       (rev (samples [1, - 2, 3, - 4] None))) else None)"
    using fft_transform_result [of ?s "[1, - 2, 3, - 4]" None "\<lambda>l b c xs. rev xs" 7] by (simp add: idle_fft_def)
  also have "\<dots> = Some [(- 4, 0), (3, 0), (- 2, 0), (1, 0)]"
    by (simp add: FFT_SPIN_LIMIT_def samples_def unpack_word [OF low_pack] unpack_word [OF high_pack])
  finally show ?thesis .
qed

section \<open>Spectrum helpers\<close>

lemma word_of_small: "0 \<le> x \<Longrightarrow> x < 4294967296 \<Longrightarrow> uint (word_of_int x :: u32) = x"
  unfolding uint_word_of_int by (rule mod_pos_pos_trivial) simp_all

lemma mag_value:
  assumes "- 32768 \<le> re" "re < 32768" "- 32768 \<le> im" "im < 32768"
  shows "uint (mag_of re im) = max \<bar>re\<bar> \<bar>im\<bar> + 3 * min \<bar>re\<bar> \<bar>im\<bar> div 8"
proof -
  have abs: "(if x < 0 then - x else x) = \<bar>x\<bar>" for x :: int by simp
  have r: "uint (word_of_int \<bar>re\<bar> :: u32) = \<bar>re\<bar>" and i: "uint (word_of_int \<bar>im\<bar> :: u32) = \<bar>im\<bar>"
    using assms by (auto intro: word_of_small)
  define hi lo :: u32 where "hi = (if word_of_int \<bar>re\<bar> > (word_of_int \<bar>im\<bar> :: u32) then word_of_int \<bar>re\<bar> else word_of_int \<bar>im\<bar>)"
    and "lo = (if word_of_int \<bar>re\<bar> > (word_of_int \<bar>im\<bar> :: u32) then word_of_int \<bar>im\<bar> else word_of_int \<bar>re\<bar>)"
  have hi: "uint hi = max \<bar>re\<bar> \<bar>im\<bar>" and lo: "uint lo = min \<bar>re\<bar> \<bar>im\<bar>"
    using r i by (auto simp: hi_def lo_def word_less_def max_def min_def)
  have b: "uint lo \<le> 32768" "uint hi \<le> 32768" unfolding hi lo using assms by auto
  have t3: "uint (3 * lo) = 3 * uint lo"
    using b(1) unsigned_greater_eq [of lo, where ?'a = int] by (simp add: uint_word_ariths mod_pos_pos_trivial)
  have d8: "uint (3 * lo div 8) = 3 * uint lo div 8"
    by (simp add: uint_div_distrib t3)
  have "uint (hi + 3 * lo div 8) = uint hi + 3 * uint lo div 8"
    unfolding uint_word_ariths d8
  proof (rule mod_pos_pos_trivial)
    show "0 \<le> uint hi + 3 * uint lo div 8"
      by (intro add_nonneg_nonneg) (simp_all add: pos_imp_zdiv_nonneg_iff)
  qed (use b in simp)
  then show ?thesis
    unfolding mag_of_def Let_def abs hi_def [symmetric] lo_def [symmetric] hi lo .
qed

lemma mag_bounds:
  assumes "- 32768 \<le> re" "re < 32768" "- 32768 \<le> im" "im < 32768"
  shows "64 * (uint (mag_of re im))\<^sup>2 \<le> 73 * (re\<^sup>2 + im\<^sup>2)"
    and "121 * (re\<^sup>2 + im\<^sup>2) < 128 * (uint (mag_of re im) + 1)\<^sup>2"
    and "484 \<le> re\<^sup>2 + im\<^sup>2 \<Longrightarrow> 932\<^sup>2 * (re\<^sup>2 + im\<^sup>2) \<le> 1000\<^sup>2 * (uint (mag_of re im))\<^sup>2"
proof -
  define h l where "h = max \<bar>re\<bar> \<bar>im\<bar>" and "l = min \<bar>re\<bar> \<bar>im\<bar>"
  have hl: "0 \<le> l" "l \<le> h" by (auto simp: h_def l_def)
  have sq: "re\<^sup>2 + im\<^sup>2 = h * h + l * l"
    by (auto simp: h_def l_def max_def min_def power2_eq_square abs_mult [symmetric])
  define m where "m = uint (mag_of re im)"
  have m: "m = h + 3 * l div 8" unfolding m_def h_def l_def by (rule mag_value [OF assms])
  have up: "8 * m \<le> 8 * h + 3 * l" and dn: "8 * h + 3 * l < 8 * m + 8"
  proof -
    have "8 * (x div 8) \<le> x" and "x < 8 * (x div 8) + 8" for x :: int by presburger+
    from this(1) [of "3 * l"] this(2) [of "3 * l"]
    show "8 * m \<le> 8 * h + 3 * l" and "8 * h + 3 * l < 8 * m + 8" by (simp_all add: m)
  qed
  have m0: "0 \<le> m" using hl by (simp add: m)
  have "(8 * m) * (8 * m) \<le> (8 * h + 3 * l) * (8 * h + 3 * l)"
    using up m0 hl by (intro mult_mono) auto
  also have "\<dots> \<le> 73 * (h * h + l * l)"
    using zero_le_square [of "3 * h - 8 * l"] by (simp add: algebra_simps)
  finally show "64 * (uint (mag_of re im))\<^sup>2 \<le> 73 * (re\<^sup>2 + im\<^sup>2)"
    unfolding sq m_def [symmetric] by (simp add: power2_eq_square)
  have "7 * (l * l) + 96 * (l * l) \<le> 7 * (h * h) + 96 * (h * l)"
    using hl by (intro add_mono mult_left_mono mult_mono) auto
  then have low: "121 * (h * h + l * l) \<le> 2 * ((8 * h + 3 * l) * (8 * h + 3 * l))"
    by (simp add: algebra_simps)
  also have "\<dots> < 2 * ((8 * m + 8) * (8 * m + 8))"
    using dn hl m0 by (intro mult_strict_left_mono mult_strict_mono) auto
  finally show "121 * (re\<^sup>2 + im\<^sup>2) < 128 * (uint (mag_of re im) + 1)\<^sup>2"
    unfolding sq m_def [symmetric] by (simp add: power2_eq_square algebra_simps)
  show "932\<^sup>2 * (re\<^sup>2 + im\<^sup>2) \<le> 1000\<^sup>2 * (uint (mag_of re im))\<^sup>2" if "484 \<le> re\<^sup>2 + im\<^sup>2"
  proof -
    define w where "w = 8 * h + 3 * l"
    have w0: "0 \<le> w" using hl by (simp add: w_def)
    define q where "q = h * h + l * l"
    define v where "v = w * w"
    have low': "121 * q \<le> 2 * v" unfolding v_def w_def q_def by (rule low)
    have "484 \<le> q" using that unfolding sq q_def .
    then have "29241 \<le> w * w" using low' unfolding v_def [symmetric] by linarith
    moreover have "w * w < 171 * 171" if "w < 171" using that w0 by (intro mult_strict_mono) simp_all
    ultimately have w: "171 \<le> w" by fastforce
    have "w < 8 * m + 8" unfolding w_def by (rule dn)
    then have "w \<le> 8 * m + 7" by simp
    then have "164 * w \<le> 171 * (8 * m)" using w by linarith
    from this this have "(164 * w) * (164 * w) \<le> (171 * (8 * m)) * (171 * (8 * m))" by (rule mult_mono) (use w m0 in simp_all)
    then have "26896 * (w * w) \<le> 1871424 * (m * m)" by (simp add: algebra_simps)
    then have "26896 * v \<le> 1871424 * (m * m)" by (simp add: v_def)
    then have "868624 * q \<le> 1000000 * (m * m)" using low' \<open>484 \<le> q\<close> by linarith
    then have "868624 * (h * h + l * l) \<le> 1000000 * (m * m)" by (simp only: q_def)
    then show ?thesis unfolding sq m_def [symmetric] by (simp add: power2_eq_square)
  qed
qed

text \<open>C18: the magnitude approximation, on any Q15 pair, never exceeds the true magnitude by more than a
  factor of the square root of 73/64 (6.8 per cent).  From a modulus of 22 on it is never more than 6.8 per cent
  below it either; for smaller ones the truncation can cost more, up to one unit beyond 2.8 per cent: it makes 1 of
  the pair (1, 1), whose modulus is 1.41.  All is stated on squares, where it is exact.\<close>

theorem fft_mag_accuracy:
  assumes "- 32768 \<le> re" "re < 32768" "- 32768 \<le> im" "im < 32768"
  shows "64 * (uint (mag_of re im))\<^sup>2 \<le> 73 * (re\<^sup>2 + im\<^sup>2) \<and>
    (484 \<le> re\<^sup>2 + im\<^sup>2 \<longrightarrow> 932\<^sup>2 * (re\<^sup>2 + im\<^sup>2) \<le> 1000\<^sup>2 * (uint (mag_of re im))\<^sup>2) \<and>
    121 * (re\<^sup>2 + im\<^sup>2) < 128 * (uint (mag_of re im) + 1)\<^sup>2 \<and> mag_of 1 1 = 1"
proof -
  have "mag_of 1 1 = 1" by (simp add: mag_of_def)
  then show ?thesis using mag_bounds [OF assms] by blast
qed

theorem fft_mag_accuracy_witness:
  "uint (mag_of 3000 (- 4000)) = 5125 \<and> 932\<^sup>2 * (3000\<^sup>2 + (- 4000)\<^sup>2) \<le> 1000\<^sup>2 * (uint (mag_of 3000 (- 4000)))\<^sup>2"
  using fft_mag_accuracy [of 3000 "- 4000"] mag_value [of 3000 "- 4000"] by simp

lemma power_value:
  assumes "- 32768 \<le> re" "re < 32768" "- 32768 \<le> im" "im < 32768"
  shows "uint (power_of re im) = re * re + im * im"
proof -
  have "\<bar>x\<bar> * \<bar>x\<bar> \<le> 32768 * 32768" if "- 32768 \<le> x" "x < 32768" for x :: int
    using that by (intro mult_mono) auto
  then have "re * re \<le> 1073741824" "im * im \<le> 1073741824" using assms by (auto simp: abs_mult [symmetric])
  moreover have "0 \<le> re * re" "0 \<le> im * im" by simp_all
  ultimately show ?thesis
    unfolding power_of_def of_int_add [symmetric] by (intro word_of_small) linarith+
qed

text \<open>The centre frequency of a bin is exactly the truncated quotient of bin times sample rate by the
  number of points, at every rate, although that product need not fit in 32 bits.\<close>

theorem fft_bin_hz_exact:
  assumes "0 < unat n" and "unat k < unat n" and "unat n \<le> 1024"
  shows "unat (fft_bin_hz k sample_hz n) = unat k * unat sample_hz div unat n"
proof -
  let ?k = "unat k" and ?f = "unat sample_hz" and ?n = "unat n"
  let ?q = "?f div ?n" and ?r = "?f mod ?n"
  have exact: "?k * ?f div ?n = ?q * ?k + ?r * ?k div ?n"
  proof -
    have "?k * ?f = ?k * (?q * ?n + ?r)" by simp
    also have "\<dots> = (?q * ?k) * ?n + ?r * ?k" by (simp only: algebra_simps)
    finally show ?thesis using assms(1) by simp
  qed
  have r: "?r * ?k < 2 ^ 32"
  proof -
    have "?r < ?n" using assms(1) by simp
    then have "?r * ?k \<le> 1024 * 1024" using assms(2,3) by (intro mult_mono) linarith+
    then show ?thesis by simp
  qed
  have tot: "?q * ?k + ?r * ?k div ?n < 2 ^ 32"
  proof -
    have "?k * ?f div ?n \<le> ?n * ?f div ?n" using assms(2) by (intro div_le_mono mult_right_mono) simp_all
    then have "?k * ?f div ?n \<le> ?f" using assms(1) by simp
    then show ?thesis using unat_bound [of sample_hz] by (simp add: exact)
  qed
  have q: "unat (sample_hz div n * k) = ?q * ?k"
    using unat_mult_lem [of "sample_hz div n" k] tot by (simp add: unat_div_distrib)
  have "unat (sample_hz mod n * k) = ?r * ?k"
    using unat_mult_lem [of "sample_hz mod n" k] r by (simp add: unat_mod_distrib)
  then have "unat (sample_hz mod n * k div n) = ?r * ?k div ?n" by (simp add: unat_div_distrib)
  with q show ?thesis
    using unat_add_lem [of "sample_hz div n * k" "sample_hz mod n * k div n"] tot
    by (simp add: exact fft_bin_hz_def)
qed

theorem fft_bin_hz_exact_witness: "unat (fft_bin_hz 511 4000000000 512) = 3992187500"
  using fft_bin_hz_exact [of 512 511 4000000000] by simp

section \<open>Peak picking\<close>

text \<open>The power of bin \<open>k\<close> in the buffer the program sees.\<close>

definition bin_power :: "fft_dev \<Rightarrow> nat \<Rightarrow> u32" where
  "bin_power d k = power_of (s16 (cpu_buf d ! k)) (s16 (drop_bit 16 (cpu_buf d ! k)))"

definition first_max :: "(nat \<Rightarrow> u32) \<Rightarrow> nat \<Rightarrow> nat \<Rightarrow> nat \<Rightarrow> bool" where
  "first_max P lo hi b \<longleftrightarrow> lo \<le> b \<and> b < hi \<and> (\<forall>k \<in> {lo..<hi}. P k \<le> P b) \<and> (\<forall>k \<in> {lo..<b}. P k < P b)"

lemma first_max_Suc:
  assumes "first_max P lo hi b"
  shows "first_max P lo (Suc hi) (if P hi > P b then hi else b)"
proof (cases "P hi > P b")
  case True
  have "P k < P hi" if "k \<in> {lo..<hi}" for k
    using assms that True unfolding first_max_def by (meson order.strict_trans1)
  then show ?thesis
    using True assms by (auto simp: first_max_def less_Suc_eq less_imp_le)
next
  case False
  then have "P hi \<le> P b" by simp
  then show ?thesis
    using False assms by (auto simp: first_max_def less_Suc_eq)
qed

context coprocessor
begin

lemma power_leads:
  "\<exists>t. fft_power hw k s = (bin_power (co (dev s)) k, t) \<and> leads s (co (dev s)) t"
  using leads_trans [OF rd_leads [of "FFT_DATA k" s] rd_leads [of "FFT_DATA k"]] leads_co [OF rd_leads [of "FFT_DATA k" s]]
  by (simp add: fft_power_def fft_read_re_def fft_read_im_def rd_co case_prod_beta bin_power_def)

lemma peak_loop_leads:
  "unat k + n = Suc (unat stop) \<Longrightarrow> stop \<noteq> - 1 \<Longrightarrow> first_max (bin_power (co (dev s))) lo (unat k) (unat best) \<Longrightarrow>
   best_p = bin_power (co (dev s)) (unat best) \<Longrightarrow>
   \<exists>b t. peak_loop hw k stop best best_p s = Some (b, t) \<and> leads s (co (dev s)) t \<and>
     first_max (bin_power (co (dev s))) lo (Suc (unat stop)) (unat b)"
proof (induction n arbitrary: k best best_p s)
  case 0
  then show ?case by (subst peak_loop.simps) (simp add: word_le_nat_alt leads_def)
next
  case (Suc n)
  then have le: "k \<le> stop" by (simp add: word_le_nat_alt)
  have Suc_k: "unat (k + 1) = Suc (unat k)" using le Suc.prems(2) by (rule u32_Suc)
  obtain u where u: "fft_power hw (unat k) s = (bin_power (co (dev s)) (unat k), u)" "leads s (co (dev s)) u"
    using power_leads by blast
  note d = leads_co [OF u(2)]
  define b where "b = (if bin_power (co (dev s)) (unat k) > best_p then k else best)"
  define p where "p = (if bin_power (co (dev s)) (unat k) > best_p then bin_power (co (dev s)) (unat k) else best_p)"
  have "\<exists>c t. peak_loop hw (k + 1) stop b p u = Some (c, t) \<and> leads u (co (dev u)) t \<and>
     first_max (bin_power (co (dev u))) lo (Suc (unat stop)) (unat c)"
  proof (rule Suc.IH)
    show "unat (k + 1) + n = Suc (unat stop)" using Suc.prems(1) Suc_k by simp
    show "first_max (bin_power (co (dev u))) lo (unat (k + 1)) (unat b)"
      using first_max_Suc [OF Suc.prems(3)] Suc.prems(4) by (simp add: b_def d Suc_k if_distrib)
    show "p = bin_power (co (dev u)) (unat b)" using Suc.prems(4) by (simp add: p_def b_def d)
  qed (rule Suc.prems(2))
  then obtain c t where c: "peak_loop hw (k + 1) stop b p u = Some (c, t)" "leads u (co (dev s)) t"
    "first_max (bin_power (co (dev s))) lo (Suc (unat stop)) (unat c)"
    unfolding d by blast
  then have "peak_loop hw k stop best best_p s = Some (c, t)"
    using le u(1) by (subst peak_loop.simps) (cases "best_p < bin_power (co (dev s)) (unat k)"; simp add: b_def p_def)
  then show ?case using c leads_trans [OF u(2)] by blast
qed

text \<open>The peak search returns, with the first bin of the range whose power is greatest: no bin of the
  range has more, and every earlier one has less.\<close>

lemma peak_bin_leads:
  assumes "unat lo \<le> unat hi" and "hi \<noteq> - 1"
  shows "\<exists>b t. fft_peak_bin hw lo hi s = Some (b, t) \<and> leads s (co (dev s)) t \<and>
    first_max (bin_power (co (dev s))) (unat lo) (Suc (unat hi)) (unat b)"
proof -
  obtain u where u: "fft_power hw (unat lo) s = (bin_power (co (dev s)) (unat lo), u)" "leads s (co (dev s)) u"
    using power_leads by blast
  note d = leads_co [OF u(2)]
  have "lo \<le> hi" using assms(1) by (simp add: word_le_nat_alt)
  then have Suc_lo: "unat (lo + 1) = Suc (unat lo)" using assms(2) by (rule u32_Suc)
  have "first_max (bin_power (co (dev u))) (unat lo) (unat (lo + 1)) (unat lo)"
    by (simp add: first_max_def Suc_lo)
  moreover have "unat (lo + 1) + (unat hi - unat lo) = Suc (unat hi)" using assms(1) Suc_lo by simp
  ultimately obtain b t where "peak_loop hw (lo + 1) hi lo (bin_power (co (dev s)) (unat lo)) u = Some (b, t)"
    "leads u (co (dev s)) t" "first_max (bin_power (co (dev s))) (unat lo) (Suc (unat hi)) (unat b)"
    using peak_loop_leads [of "lo + 1" "unat hi - unat lo" hi u "unat lo" lo "bin_power (co (dev s)) (unat lo)"] assms(2) d
    by auto
  then show ?thesis using u leads_trans [OF u(2)] by (auto simp: fft_peak_bin_def)
qed

end

theorem fft_peak_bin_first_max:
  assumes "unat lo \<le> unat hi" and "hi \<noteq> - 1"
  shows "\<exists>b t. fft_peak_bin (fft_hw tr lat) lo hi s = Some (b, t) \<and>
    first_max (bin_power (dev s)) (unat lo) (Suc (unat hi)) (unat b)"
  using chip.peak_bin_leads [OF assms] by blast

theorem fft_peak_bin_first_max_witness:
  "\<exists>b t. fft_peak_bin (fft_hw tr lat) 1 3 \<lparr>dev = idle_fft\<lparr>cpu_buf := [9, 1, 5, 5]\<rparr>, evs = []\<rparr> = Some (b, t) \<and>
     unat b = 2"
proof -
  let ?s = "\<lparr>dev = idle_fft\<lparr>cpu_buf := [9, 1, 5, 5]\<rparr>, evs = []\<rparr>"
  obtain b t where bt: "fft_peak_bin (fft_hw tr lat) 1 3 ?s = Some (b, t)"
    "first_max (bin_power (dev ?s)) (unat (1 :: u32)) (Suc (unat (3 :: u32))) (unat b)"
    using fft_peak_bin_first_max [of 1 3 tr lat ?s] by auto
  have P: "bin_power (dev ?s) 1 = 1" "bin_power (dev ?s) 2 = 25" "bin_power (dev ?s) 3 = 25"
    by (simp_all add: bin_power_def s16_def power_of_def)
  define c where "c = unat b"
  have "c = 1 \<or> c = 2 \<or> c = 3" using bt(2) by (auto simp: first_max_def c_def)
  moreover have "bin_power (dev ?s) 2 \<le> bin_power (dev ?s) c" using bt(2) by (simp add: first_max_def c_def)
  moreover have "2 < c \<Longrightarrow> bin_power (dev ?s) 2 < bin_power (dev ?s) c" using bt(2) by (simp add: first_max_def c_def)
  ultimately have "c = 2" using P by (elim disjE) (simp_all add: word_le_nat_alt)
  then have "unat b = 2" by (simp add: c_def)
  then show ?thesis using bt(1) by blast
qed

end
