(* ===== verification/Fft_Model.thy ===== *)
theory Fft_Model
  imports Fft Complex_Main
begin

text \<open>
  \<open>sim/hw/fft_tb/fft_tb.cpp\<close>: the bit-exact model of the coprocessor's datapath that its test bench compares
  the hardware with, and the transform of \<open>double\<close>s that it compares the model with.  Samples are pairs of
  16-bit integers; \<open>long\<close> holds every intermediate value.  The functions of \<open>std::cos\<close> and \<open>std::sin\<close> are the
  real ones: the twiddle table is built from them, and the passes take the table as an argument, so that they
  compute.
\<close>

section \<open>The model\<close>

type_synonym c16 = "int \<times> int"

definition NMAX :: nat where "NMAX = 1024"

definition q15 :: "real \<Rightarrow> int" where
  "q15 x = (let v = \<lfloor>x * 32768 + 1 / 2\<rfloor> in if v > 32767 then 32767 else if v < - 32768 then - 32768 else v)"

definition build_twiddle :: "c16 list" where
  "build_twiddle = map (\<lambda>k. (q15 (cos (- 2 * pi * real k / real NMAX)), q15 (sin (- 2 * pi * real k / real NMAX))))
     [0..<NMAX div 2]"

definition sat16 :: "int \<Rightarrow> int" where
  "sat16 v = (if v > 32767 then 32767 else if v < - 32768 then - 32768 else v)"

definition scale_rnd :: "int \<Rightarrow> bool \<Rightarrow> int" where
  "scale_rnd v en = (if en then (v + 1) div 2 else v)"

definition brev_step :: "nat \<Rightarrow> nat \<Rightarrow> nat \<Rightarrow> nat \<Rightarrow> nat" where
  "brev_step x n i r = (if x AND push_bit i 1 \<noteq> 0 then r OR push_bit (n - 1 - i) 1 else r)"

definition brev :: "nat \<Rightarrow> nat \<Rightarrow> nat" where
  "brev x n = fold (brev_step x n) [0..<n] 0"

definition conj_im :: "bool \<Rightarrow> int \<Rightarrow> int" where
  "conj_im back ti = (if back then if ti = - 32768 then 32767 else - ti else ti)"

definition butterfly :: "bool \<Rightarrow> int \<Rightarrow> int \<Rightarrow> c16 \<Rightarrow> c16 \<Rightarrow> c16 \<times> c16" where
  "butterfly sc tr ti a b =
     (let sum_r = fst a + fst b; sum_i = snd a + snd b;
          dif_r = fst a - fst b; dif_i = snd a - snd b;
          mul_r = dif_r * tr - dif_i * ti;
          mul_i = dif_r * ti + dif_i * tr;
          norm_r = (mul_r + 16384) div 2 ^ 15;
          norm_i = (mul_i + 16384) div 2 ^ 15
      in ((sat16 (scale_rnd sum_r sc), sat16 (scale_rnd sum_i sc)),
          (sat16 (scale_rnd norm_r sc), sat16 (scale_rnd norm_i sc))))"

text \<open>The two operands of butterfly \<open>bf\<close> of a pass whose halves are \<open>half\<close> long.\<close>

definition op_j :: "nat \<Rightarrow> nat \<Rightarrow> nat" where
  "op_j half bf = bf AND (half - 1)"

definition op_a :: "nat \<Rightarrow> nat \<Rightarrow> nat" where
  "op_a half bf = push_bit 1 (nat (int bf AND NOT (int half - 1))) OR op_j half bf"

definition op_b :: "nat \<Rightarrow> nat \<Rightarrow> nat" where
  "op_b half bf = op_a half bf OR half"

definition pass :: "c16 list \<Rightarrow> nat \<Rightarrow> u32 \<Rightarrow> bool \<Rightarrow> nat \<Rightarrow> c16 list \<Rightarrow> c16 list \<Rightarrow> c16 list" where
  "pass tw log2n scale back st src dst =
     (let n = 2 ^ log2n;
          total = log2n + (log2n AND 1);
          copy = (st \<ge> log2n);
          half = (if copy then 1 else drop_bit (st + 1) n);
          step = (if copy then 0 else push_bit st 1 * (NMAX div n));
          sc = (if copy then False else bit scale st);
          place = (\<lambda>i. if st = total - 1 then brev i log2n else i)
      in fold (\<lambda>bf dst.
           let a = src ! op_a half bf; b = src ! op_b half bf;
               (tr, ti) = tw ! (op_j half bf * step);
               (oa, ob) = (if copy then (a, b) else butterfly sc tr (conj_im back ti) a b)
           in dst[place (op_a half bf) := oa, place (op_b half bf) := ob]) [0..<n div 2] dst)"

definition model_fft :: "c16 list \<Rightarrow> nat \<Rightarrow> u32 \<Rightarrow> bool \<Rightarrow> c16 list \<Rightarrow> c16 list" where
  "model_fft tw log2n scale back buf =
     fst (fold (\<lambda>st (buf, scr).
            if odd st then (pass tw log2n scale back st scr buf, scr)
            else (buf, pass tw log2n scale back st buf scr))
          [0..<log2n + (log2n AND 1)] (buf, replicate (2 ^ log2n) (0, 0)))"

text \<open>The direct transform, on exact numbers: real and imaginary part of bin \<open>k\<close> of a frame, over the length.\<close>

definition ref_dft :: "c16 list \<Rightarrow> nat \<Rightarrow> bool \<Rightarrow> nat \<Rightarrow> real \<times> real" where
  "ref_dft x n back k =
     (let sgn = (if back then 1 else - 1);
          ang = (\<lambda>t. sgn * 2 * pi * real k * real t / real n);
          xr = (\<lambda>t. real_of_int (fst (x ! t)) / 32768);
          xi = (\<lambda>t. real_of_int (snd (x ! t)) / 32768)
      in ((\<Sum>t<n. xr t * cos (ang t) - xi t * sin (ang t)) / real n,
          (\<Sum>t<n. xr t * sin (ang t) + xi t * cos (ang t)) / real n))"

text \<open>The transform as the device does it on packed words.\<close>

definition unpack :: "u32 \<Rightarrow> c16" where
  "unpack w = (s16 w, s16 (drop_bit 16 w))"

definition fft_words :: "c16 list \<Rightarrow> transform" where
  "fft_words tw log2n back scale ws = map (\<lambda>(re, im). pack re im) (model_fft tw log2n scale back (map unpack ws))"

section \<open>Bit reversal\<close>

lemma bit_brev_step: "bit (brev_step x n i r) k \<longleftrightarrow> bit r k \<or> bit x i \<and> k = n - 1 - i"
proof -
  have "x AND push_bit i 1 \<noteq> 0 \<longleftrightarrow> bit x i"
    using and_exp_eq_0_iff_not_bit [of x i] by (simp add: push_bit_eq_mult)
  moreover have "bit (push_bit m 1 :: nat) k \<longleftrightarrow> k = m" for m
    unfolding bit_push_bit_iff bit_1_iff by auto
  ultimately show ?thesis unfolding brev_step_def by (simp only: bit_or_iff split: if_split) blast
qed

lemma bit_brev_upto: "bit (fold (brev_step x n) [0..<m] 0) k \<longleftrightarrow> (\<exists>i<m. bit x i \<and> k = n - 1 - i)"
  by (induction m) (auto simp: bit_brev_step less_Suc_eq)

lemma bit_brev: "bit (brev x n) k \<longleftrightarrow> k < n \<and> bit x (n - 1 - k)"
  unfolding brev_def bit_brev_upto
proof
  assume "k < n \<and> bit x (n - 1 - k)"
  then show "\<exists>i<n. bit x i \<and> k = n - 1 - i" by (intro exI [of _ "n - 1 - k"]) auto
qed auto

lemma brev_less: "brev x n < 2 ^ n"
proof -
  have "take_bit n (brev x n) = brev x n" by (rule bit_eqI) (auto simp: bit_take_bit_iff bit_brev)
  then show ?thesis by (simp add: take_bit_nat_eq_self_iff)
qed

lemma brev_brev: "x < 2 ^ n \<Longrightarrow> brev (brev x n) n = x"
proof -
  assume "x < 2 ^ n"
  then have t: "take_bit n x = x" by (simp add: take_bit_nat_eq_self_iff)
  have b: "bit x k \<longleftrightarrow> k < n \<and> bit x k" for k
    using bit_take_bit_iff [of n x k] unfolding t by blast
  show ?thesis
  proof (rule bit_eqI)
    fix k
    show "bit (brev (brev x n) n) k \<longleftrightarrow> bit x k"
      using b [of k] by (cases "k < n") (auto simp: bit_brev)
  qed
qed

lemma brev_eq_iff: "x < 2 ^ n \<Longrightarrow> y < 2 ^ n \<Longrightarrow> brev x n = brev y n \<longleftrightarrow> x = y"
  by (metis brev_brev)

lemma bit_double: "bit (2 * b) k \<longleftrightarrow> 0 < k \<and> bit b (k - 1)" "bit (Suc (2 * b)) k \<longleftrightarrow> k = 0 \<or> bit b (k - 1)" for b :: nat
  by (cases k; simp add: bit_Suc bit_0)+

lemma brev_double: "brev (2 * b) (Suc s) = brev b s"
proof (rule bit_eqI)
  fix k
  show "bit (brev (2 * b) (Suc s)) k \<longleftrightarrow> bit (brev b s) k"
    by (cases "k < s") (auto simp: bit_brev bit_double diff_commute)
qed

lemma brev_double_1: "brev (Suc (2 * b)) (Suc s) = 2 ^ s + brev b s"
proof -
  have "2 ^ s + brev b s = 2 ^ s OR brev b s"
    by (rule disjunctive_add) (auto simp: bit_exp_iff bit_brev)
  moreover have "brev (Suc (2 * b)) (Suc s) = 2 ^ s OR brev b s"
  proof (rule bit_eqI)
    fix k
    show "bit (brev (Suc (2 * b)) (Suc s)) k \<longleftrightarrow> bit (2 ^ s OR brev b s) k"
      by (cases "k < s") (auto simp: bit_brev bit_double bit_or_iff bit_exp_iff diff_commute)
  qed
  ultimately show ?thesis by simp
qed

section \<open>What a pass writes where\<close>

lemma and_not_mask: "int x AND NOT (int (2 ^ h) - 1) = int (x - x mod 2 ^ h)"
proof -
  have "int x AND NOT (mask h) = push_bit h (drop_bit h (int x))"
    by (rule bit_eqI) (auto simp: bit_and_iff bit_not_iff bit_mask_iff bit_push_bit_iff bit_drop_bit_eq)
  also have "\<dots> = int x div 2 ^ h * 2 ^ h" by (simp add: push_bit_eq_mult drop_bit_eq_div)
  also have "\<dots> = int (x - x mod 2 ^ h)" by (simp add: minus_mod_eq_div_mult [symmetric] zdiv_int zmod_int)
  finally show ?thesis by (simp add: mask_eq_exp_minus_1)
qed

lemma or_low: "j < 2 ^ h \<Longrightarrow> (q * 2 ^ h) OR j = q * 2 ^ h + j" for q :: nat
proof -
  assume "j < 2 ^ h"
  then have "take_bit h j = j" by (simp add: take_bit_nat_eq_self_iff)
  then have "bit j k \<Longrightarrow> k < h" for k by (metis bit_take_bit_iff)
  moreover have "bit (q * 2 ^ h) k \<Longrightarrow> h \<le> k" for k
    by (simp add: bit_push_bit_iff flip: push_bit_eq_mult)
  ultimately show ?thesis by (intro disjunctive_add [symmetric]) (metis not_less)
qed

lemma operands:
  assumes "j < 2 ^ h"
  shows "op_j (2 ^ h) (q * 2 ^ h + j) = j"
    and "op_a (2 ^ h) (q * 2 ^ h + j) = q * 2 ^ Suc h + j"
    and "op_b (2 ^ h) (q * 2 ^ h + j) = q * 2 ^ Suc h + j + 2 ^ h"
proof -
  have "(2 :: nat) ^ h - 1 = mask h" by (simp add: mask_eq_exp_minus_1)
  then show j: "op_j (2 ^ h) (q * 2 ^ h + j) = j"
    using assms unfolding op_j_def by (simp add: take_bit_eq_mod flip: take_bit_eq_mask)
  have "push_bit 1 (nat (int (q * 2 ^ h + j) AND NOT (int (2 ^ h) - 1))) = q * 2 ^ Suc h"
  proof -
    have "q * 2 ^ h + j - (q * 2 ^ h + j) mod 2 ^ h = q * 2 ^ h" using assms by simp
    then show ?thesis unfolding and_not_mask by (simp only: nat_int) (simp add: push_bit_eq_mult)
  qed
  moreover have "q * 2 ^ Suc h OR j = q * 2 ^ Suc h + j" using assms by (intro or_low) simp
  ultimately show a: "op_a (2 ^ h) (q * 2 ^ h + j) = q * 2 ^ Suc h + j" unfolding op_a_def j by (simp add: mult_ac)
  have "(2 * q) * 2 ^ h OR j = (2 * q) * 2 ^ h + j" using assms by (rule or_low)
  then have "q * 2 ^ Suc h + j = q * 2 ^ Suc h OR j" by (simp add: mult.assoc mult.left_commute)
  moreover have "q * 2 ^ Suc h OR (2 ^ h + j) = q * 2 ^ Suc h + (2 ^ h + j)" using assms by (intro or_low) simp
  moreover have "1 * 2 ^ h OR j = 1 * 2 ^ h + j" using assms by (rule or_low)
  ultimately show "op_b (2 ^ h) (q * 2 ^ h + j) = q * 2 ^ Suc h + j + 2 ^ h"
    unfolding op_b_def a by (metis add.commute add.left_commute mult_1 or.assoc or.commute)
qed

lemma scatter:
  fixes p q :: "nat \<Rightarrow> nat" and d :: "'a list"
  assumes "\<And>k l. k < m \<Longrightarrow> l < m \<Longrightarrow> p k = p l \<Longrightarrow> k = l" and "\<And>k l. k < m \<Longrightarrow> l < m \<Longrightarrow> q k = q l \<Longrightarrow> k = l"
    and "\<And>k l. k < m \<Longrightarrow> l < m \<Longrightarrow> p k \<noteq> q l" and "\<And>k. k < m \<Longrightarrow> p k < length d \<and> q k < length d"
  shows "length (fold (\<lambda>k d. d[p k := f k, q k := g k]) [0..<m] d) = length d \<and>
    (\<forall>k<m. fold (\<lambda>k d. d[p k := f k, q k := g k]) [0..<m] d ! p k = f k \<and>
           fold (\<lambda>k d. d[p k := f k, q k := g k]) [0..<m] d ! q k = g k)"
  using assms
proof (induction m)
  case 0
  show ?case by simp
next
  case (Suc m)
  let ?F = "fold (\<lambda>k d. d[p k := f k, q k := g k]) [0..<m] d"
  have IH: "length ?F = length d \<and> (\<forall>k<m. ?F ! p k = f k \<and> ?F ! q k = g k)"
    using Suc.prems by (intro Suc.IH) (metis less_SucI)+
  have n: "p m \<noteq> q m" "p m < length d" "q m < length d" using Suc.prems(3,4) by simp_all
  have o': "p k \<noteq> p m \<and> q k \<noteq> q m \<and> p k \<noteq> q m \<and> q k \<noteq> p m" if "k < m" for k
    using Suc.prems(1) [of k m] Suc.prems(2) [of k m] Suc.prems(3) [of k m] Suc.prems(3) [of m k] that by auto
  have st: "fold (\<lambda>k d. d[p k := f k, q k := g k]) [0..<Suc m] d = ?F[p m := f m, q m := g m]" by simp
  show ?case
    unfolding st
  proof (intro conjI allI impI)
    fix k assume k: "k < Suc m"
    show "?F[p m := f m, q m := g m] ! p k = f k" "?F[p m := f m, q m := g m] ! q k = g k"
      using IH n o' [of k] k by (cases "k = m"; simp add: nth_list_update)+
  qed (use IH in simp)
qed

text \<open>One stage of the decimation in frequency, as a relation of the array before and after it.\<close>

definition stage :: "c16 list \<Rightarrow> nat \<Rightarrow> u32 \<Rightarrow> bool \<Rightarrow> nat \<Rightarrow> c16 list \<Rightarrow> c16 list \<Rightarrow> bool" where
  "stage tw L scale back st a b \<longleftrightarrow> (\<forall>q<2 ^ st. \<forall>j<2 ^ (L - Suc st).
     let i = q * 2 ^ (L - st) + j; h = 2 ^ (L - Suc st); t = tw ! (j * (2 ^ st * (NMAX div 2 ^ L)))
     in (b ! i, b ! (i + h)) = butterfly (bit scale st) (fst t) (conj_im back (snd t)) (a ! i) (a ! (i + h)))"

lemma split_index:
  assumes "st < L" and "k < 2 ^ (L - 1)"
  shows "\<exists>q<2 ^ st. \<exists>j<2 ^ (L - Suc st). k = q * 2 ^ (L - Suc st) + (j :: nat)"
proof -
  have "L - 1 = st + (L - Suc st)" using assms(1) by simp
  then have "(2 :: nat) ^ (L - 1) = 2 ^ st * 2 ^ (L - Suc st)" by (simp only: power_add)
  then have "k div 2 ^ (L - Suc st) < 2 ^ st" using assms(2) by (simp add: div_less_iff_less_mult)
  moreover have "k mod 2 ^ (L - Suc st) < 2 ^ (L - Suc st)" "k = k div 2 ^ (L - Suc st) * 2 ^ (L - Suc st) + k mod 2 ^ (L - Suc st)"
    by simp (rule div_mult_mod_eq [symmetric])
  ultimately show ?thesis by blast
qed

lemma operand_bounds:
  fixes q j :: nat
  assumes "st < L" and "q < 2 ^ st" and "j < 2 ^ (L - Suc st)"
  shows "q * 2 ^ (L - Suc st) + j < 2 ^ (L - 1)" and "q * 2 ^ (L - st) + j + 2 ^ (L - Suc st) < 2 ^ L"
    and "q * 2 ^ (L - st) + j < 2 ^ L"
proof -
  let ?h = "2 ^ (L - Suc st) :: nat"
  have e: "L - 1 = st + (L - Suc st)" "L = Suc (st + (L - Suc st))" "L - st = Suc (L - Suc st)" using assms(1) by simp_all
  have p: "(2 :: nat) ^ (L - 1) = 2 ^ st * ?h" "(2 :: nat) ^ (L - st) = 2 * ?h"
    unfolding e(1,3) by (simp_all add: power_add)
  have p': "(2 :: nat) ^ L = 2 * (2 ^ st * ?h)" by (subst e(2)) (simp add: power_add)
  have "Suc q * ?h \<le> 2 ^ st * ?h" using assms(2) by (intro mult_le_mono1) simp
  then have b: "q * ?h + ?h \<le> 2 ^ st * ?h" by simp
  show "q * ?h + j < 2 ^ (L - 1)" using b assms(3) unfolding p by linarith
  show "q * 2 ^ (L - st) + j + ?h < 2 ^ L" "q * 2 ^ (L - st) + j < 2 ^ L"
    using b assms(3) unfolding p p' by simp_all
qed

lemma op_range:
  assumes "st < L" and "k < 2 ^ (L - 1)" and h: "half = 2 ^ (L - Suc st)"
  shows "op_a half k < 2 ^ L" and "op_b half k < 2 ^ L"
proof -
  obtain q j where q: "q < 2 ^ st" "j < 2 ^ (L - Suc st)" "k = q * 2 ^ (L - Suc st) + j"
    using split_index [OF assms(1,2)] by blast
  have "Suc (L - Suc st) = L - st" using assms(1) by simp
  then show "op_a half k < 2 ^ L" "op_b half k < 2 ^ L"
    using operands [OF q(2), of q] operand_bounds [OF assms(1) q(1,2)] unfolding h q(3) by simp_all
qed

text \<open>The two operands of every butterfly of a pass are different places, and no two butterflies share one.\<close>

lemma op_inj:
  assumes "st < L" and "k < 2 ^ (L - 1)" and "l < 2 ^ (L - 1)" and h: "half = 2 ^ (L - Suc st)"
  shows "op_a half k = op_a half l \<Longrightarrow> k = l" and "op_b half k = op_b half l \<Longrightarrow> k = l" and "op_a half k \<noteq> op_b half l"
proof -
  let ?h = "2 ^ (L - Suc st) :: nat"
  obtain q j where q: "j < ?h" "k = q * ?h + j" using split_index [OF assms(1,2)] by blast
  obtain r i where r: "i < ?h" "l = r * ?h + i" using split_index [OF assms(1,3)] by blast
  have o': "op_a half k = (2 * q) * ?h + j" "op_b half k = (2 * q + 1) * ?h + j"
    "op_a half l = (2 * r) * ?h + i" "op_b half l = (2 * r + 1) * ?h + i"
    using operands [OF q(1), of q] operands [OF r(1), of r] unfolding h q(2) r(2) by simp_all
  have u: "x = y \<and> j = i" if e: "x * ?h + j = y * ?h + i" for x y
  proof -
    have "(x * ?h + j) div ?h = x" "(y * ?h + i) div ?h = y" "(x * ?h + j) mod ?h = j" "(y * ?h + i) mod ?h = i"
      using q(1) r(1) by simp_all
    then show ?thesis using e by metis
  qed
  show "k = l" if e: "op_a half k = op_a half l"
  proof -
    have "2 * q = 2 * r \<and> j = i" using e unfolding o' by (rule u)
    then show ?thesis unfolding q(2) r(2) by simp
  qed
  show "k = l" if e: "op_b half k = op_b half l"
  proof -
    have "2 * q + 1 = 2 * r + 1 \<and> j = i" using e unfolding o' by (rule u)
    then show ?thesis unfolding q(2) r(2) by simp
  qed
  show "op_a half k \<noteq> op_b half l"
  proof
    assume "op_a half k = op_b half l"
    then have "2 * q = 2 * r + 1" unfolding o' using u by blast
    then show False by presburger
  qed
qed

definition place :: "nat \<Rightarrow> nat \<Rightarrow> nat \<Rightarrow> nat" where
  "place L st i = (if st = L + (L AND 1) - 1 then brev i L else i)"

lemma place_less: "i < 2 ^ L \<Longrightarrow> place L st i < 2 ^ L"
  by (simp add: place_def brev_less)

lemma place_eq: "i < 2 ^ L \<Longrightarrow> k < 2 ^ L \<Longrightarrow> place L st i = place L st k \<longleftrightarrow> i = k"
  by (simp add: place_def brev_eq_iff)

lemma place_scatter:
  fixes f g :: "nat \<Rightarrow> 'a" and s :: nat
  assumes "st < L" and "length d = 2 ^ L" and h: "half = 2 ^ (L - Suc st)"
  defines "F \<equiv> fold (\<lambda>k d. d[place L s (op_a half k) := f k, place L s (op_b half k) := g k]) [0..<2 ^ (L - 1)] d"
  shows "length F = 2 ^ L \<and> (\<forall>k<2 ^ (L - 1). F ! place L s (op_a half k) = f k \<and> F ! place L s (op_b half k) = g k)"
proof -
  have r: "op_a half k < 2 ^ L" "op_b half k < 2 ^ L" if "k < 2 ^ (L - 1)" for k
    using op_range [OF assms(1) that h] by blast+
  have "length F = length d \<and> (\<forall>k<2 ^ (L - 1). F ! place L s (op_a half k) = f k \<and> F ! place L s (op_b half k) = g k)"
    unfolding F_def
  proof (rule scatter)
    fix k l :: nat assume k: "k < 2 ^ (L - 1)" and l: "l < 2 ^ (L - 1)"
    show "place L s (op_a half k) = place L s (op_a half l) \<Longrightarrow> k = l"
      "place L s (op_b half k) = place L s (op_b half l) \<Longrightarrow> k = l"
      "place L s (op_a half k) \<noteq> place L s (op_b half l)"
      using op_inj [OF assms(1) k l h] r [OF k] r [OF l] by (auto simp: place_eq)
  next
    fix k :: nat assume "k < 2 ^ (L - 1)"
    then show "place L s (op_a half k) < length d \<and> place L s (op_b half k) < length d"
      using r place_less assms(2) by simp
  qed
  then show ?thesis using assms(2) by simp
qed

lemma pass_stage:
  assumes "st < L" and "length b = 2 ^ L"
  shows "\<exists>v. length v = 2 ^ L \<and> stage tw L scale back st a v \<and> length (pass tw L scale back st a b) = 2 ^ L \<and>
    (\<forall>i<2 ^ L. pass tw L scale back st a b ! place L st i = v ! i)"
proof -
  let ?H = "2 ^ (L - Suc st) :: nat"
  let ?step = "2 ^ st * (NMAX div 2 ^ L)"
  define bf where "bf k = (let t = tw ! (op_j ?H k * ?step)
    in butterfly (bit scale st) (fst t) (conj_im back (snd t)) (a ! op_a ?H k) (a ! op_b ?H k))" for k
  have e: "drop_bit (st + 1) (2 ^ L) = ?H" "(2 :: nat) ^ L div 2 = 2 ^ (L - 1)"
    using assms(1) by (simp_all add: drop_bit_eq_div power_diff power_diff [of 2 1 L, simplified])
  have p: "pass tw L scale back st a b =
      fold (\<lambda>k d. d[place L st (op_a ?H k) := fst (bf k), place L st (op_b ?H k) := snd (bf k)]) [0..<2 ^ (L - 1)] b"
    using assms(1) unfolding pass_def bf_def place_def Let_def e
    by (simp add: case_prod_beta push_bit_eq_mult e [simplified] cong: if_cong)
  note S = place_scatter [OF assms refl, of st "\<lambda>k. fst (bf k)" "\<lambda>k. snd (bf k)", folded p]
  let ?P = "pass tw L scale back st a b"
  define v where "v = map (\<lambda>i. ?P ! place L st i) [0..<2 ^ L]"
  have "stage tw L scale back st a v"
    unfolding stage_def Let_def
  proof (intro allI impI)
    fix q j :: nat assume q: "q < 2 ^ st" and j: "j < ?H"
    have s: "Suc (L - Suc st) = L - st" using assms(1) by simp
    note o' = operands [OF j, of q, unfolded s] and r = operand_bounds [OF assms(1) q j]
    have b: "?P ! place L st (q * 2 ^ (L - st) + j) = fst (bf (q * ?H + j))"
      "?P ! place L st (q * 2 ^ (L - st) + j + ?H) = snd (bf (q * ?H + j))"
      using S [THEN conjunct2, rule_format, OF r(1)] unfolding o' by blast+
    have "bf (q * ?H + j) = butterfly (bit scale st) (fst (tw ! (j * ?step))) (conj_im back (snd (tw ! (j * ?step))))
          (a ! (q * 2 ^ (L - st) + j)) (a ! (q * 2 ^ (L - st) + j + ?H))"
      unfolding bf_def o' Let_def ..
    moreover have "v ! (q * 2 ^ (L - st) + j) = fst (bf (q * ?H + j))" "v ! (q * 2 ^ (L - st) + j + ?H) = snd (bf (q * ?H + j))"
      unfolding v_def b [symmetric] using r(2,3) by (simp_all del: upt_Suc)
    ultimately show "(v ! (q * 2 ^ (L - st) + j), v ! (q * 2 ^ (L - st) + j + ?H)) =
        butterfly (bit scale st) (fst (tw ! (j * ?step))) (conj_im back (snd (tw ! (j * ?step))))
          (a ! (q * 2 ^ (L - st) + j)) (a ! (q * 2 ^ (L - st) + j + ?H))"
      by (simp only: prod.collapse)
  qed
  then show ?thesis using S by (intro exI [of _ v]) (simp add: v_def)
qed

lemma pass_copy:
  assumes "odd L" and "length b = 2 ^ L"
  shows "length (pass tw L scale back L a b) = 2 ^ L \<and> (\<forall>i<2 ^ L. pass tw L scale back L a b ! brev i L = a ! i)"
proof -
  have L: "L - 1 < L" "Suc (L - 1) = L" "2 ^ (L - Suc (L - 1)) = (1 :: nat)" using assms(1) by (cases L; simp)+
  have p: "pass tw L scale back L a b =
      fold (\<lambda>k d. d[place L L (op_a 1 k) := a ! op_a 1 k, place L L (op_b 1 k) := a ! op_b 1 k]) [0..<2 ^ (L - 1)] b"
    using assms(1) unfolding pass_def place_def Let_def by (cases L) (simp_all add: case_prod_beta)
  note S = place_scatter [OF L(1) assms(2) L(3) [symmetric], of L "\<lambda>k. a ! op_a 1 k" "\<lambda>k. a ! op_b 1 k", folded p]
  have "pass tw L scale back L a b ! brev i L = a ! i" if i: "i < 2 ^ L" for i
  proof -
    have pl: "place L L i = brev i L" using assms(1) by (simp add: place_def and_one_eq odd_iff_mod_2_eq_one)
    have k: "i div 2 < 2 ^ (L - 1)" using i L(2) by (metis less_mult_imp_div_less mult.commute power_Suc)
    have "op_a 1 (i div 2) = i div 2 * 2" "op_b 1 (i div 2) = i div 2 * 2 + 1"
      using operands [of 0 0 "i div 2"] by simp_all
    then have "i = op_a 1 (i div 2) \<or> i = op_b 1 (i div 2)" by presburger
    then show ?thesis using S k unfolding pl [symmetric] by metis
  qed
  then show ?thesis using S by simp
qed

text \<open>The two arrays of the model as one run of stages: whatever every stage preserves holds of an array whose
  bit-reversed arrangement the model returns.\<close>

definition two_bufs :: "c16 list \<Rightarrow> nat \<Rightarrow> u32 \<Rightarrow> bool \<Rightarrow> nat \<Rightarrow> c16 list \<times> c16 list \<Rightarrow> c16 list \<times> c16 list" where
  "two_bufs tw L scale back st bs =
     (if odd st then (pass tw L scale back st (snd bs) (fst bs), snd bs) else (fst bs, pass tw L scale back st (fst bs) (snd bs)))"

definition live :: "nat \<Rightarrow> c16 list \<times> c16 list \<Rightarrow> c16 list" where
  "live st bs = (if odd st then snd bs else fst bs)"

lemma two_bufs_live:
  "live (Suc st) (two_bufs tw L scale back st bs) = pass tw L scale back st (live st bs) (live (Suc st) bs)"
  "length (fst bs) = n \<Longrightarrow> length (snd bs) = n \<Longrightarrow> length (pass tw L scale back st (live st bs) (live (Suc st) bs)) = n \<Longrightarrow>
   length (fst (two_bufs tw L scale back st bs)) = n \<and> length (snd (two_bufs tw L scale back st bs)) = n"
  by (simp_all add: two_bufs_def live_def split: if_splits)

lemma model_fft_two_bufs:
  "model_fft tw L scale back buf =
     fst (fold (two_bufs tw L scale back) [0..<L + L mod 2] (buf, replicate (2 ^ L) (0, 0)))"
  unfolding model_fft_def by (simp add: two_bufs_def case_prod_beta and_one_eq cong: fold_cong) (simp add: two_bufs_def [abs_def] case_prod_beta')

lemma model_fft_stages:
  assumes "0 < L" and "length buf = 2 ^ L" and "P 0 buf"
    and step: "\<And>st a b. st < L \<Longrightarrow> length a = 2 ^ L \<Longrightarrow> length b = 2 ^ L \<Longrightarrow> P st a \<Longrightarrow>
      stage tw L scale back st a b \<Longrightarrow> P (Suc st) b"
  shows "\<exists>v. length v = 2 ^ L \<and> P L v \<and> length (model_fft tw L scale back buf) = 2 ^ L \<and>
    (\<forall>i<2 ^ L. model_fft tw L scale back buf ! brev i L = v ! i)"
proof -
  define B where "B m = fold (two_bufs tw L scale back) [0..<m] (buf, replicate (2 ^ L) (0, 0))" for m
  have B: "B 0 = (buf, replicate (2 ^ L) (0, 0))" "B (Suc m) = two_bufs tw L scale back m (B m)" for m
    by (simp_all add: B_def)
  have inv: "length (fst (B m)) = 2 ^ L \<and> length (snd (B m)) = 2 ^ L \<and>
      (\<exists>v. length v = 2 ^ L \<and> P m v \<and> (\<forall>i<2 ^ L. live m (B m) ! (if m = L + L mod 2 then brev i L else i) = v ! i))"
    if "m \<le> L" for m
    using that
  proof (induction m)
    case 0
    show ?case using assms(1-3) by (intro conjI exI [of _ buf]) (simp_all add: B live_def)
  next
    case (Suc m)
    then obtain v where IH: "length (fst (B m)) = 2 ^ L" "length (snd (B m)) = 2 ^ L" "length v = 2 ^ L" "P m v"
      "\<forall>i<2 ^ L. live m (B m) ! (if m = L + L mod 2 then brev i L else i) = v ! i" by auto
    have l: "length (live k (B m)) = 2 ^ L" for k using IH(1,2) by (simp add: live_def)
    have v: "live m (B m) = v" using IH(3,5) l Suc.prems by (intro nth_equalityI) auto
    obtain w where w: "length w = 2 ^ L" "stage tw L scale back m v w"
      "length (pass tw L scale back m v (live (Suc m) (B m))) = 2 ^ L"
      "\<forall>i<2 ^ L. pass tw L scale back m v (live (Suc m) (B m)) ! place L m i = w ! i"
      using pass_stage [of m L "live (Suc m) (B m)" tw scale "back" v] l Suc.prems by auto
    have "m = L + (L AND 1) - 1 \<longleftrightarrow> Suc m = L + L mod 2" using assms(1) by (auto simp: and_one_eq)
    then have pl: "place L m i = (if Suc m = L + L mod 2 then brev i L else i)" for i by (simp add: place_def)
    have "P (Suc m) w" using step [of m v w] Suc.prems IH(3,4) w(1,2) by simp
    moreover have "live (Suc m) (B (Suc m)) = pass tw L scale back m v (live (Suc m) (B m))"
      unfolding B two_bufs_live v ..
    moreover have "length (fst (B (Suc m))) = 2 ^ L \<and> length (snd (B (Suc m))) = 2 ^ L"
      unfolding B by (rule two_bufs_live(2) [OF IH(1,2)]) (use w(3) v in simp)
    ultimately show ?case using w(1,4) unfolding pl by metis
  qed
  have final: "model_fft tw L scale back buf = fst (B (L + L mod 2))" unfolding model_fft_two_bufs B_def ..
  obtain v where v: "length v = 2 ^ L" "P L v"
      "\<forall>i<2 ^ L. live L (B L) ! (if L = L + L mod 2 then brev i L else i) = v ! i"
    and len: "length (fst (B L)) = 2 ^ L" "length (snd (B L)) = 2 ^ L" using inv [of L] by auto
  show ?thesis
  proof (cases "even L")
    case True
    then have "L + L mod 2 = L" by (simp add: even_iff_mod_2_eq_zero)
    then show ?thesis using v len True unfolding final by (intro exI [of _ v]) (simp add: live_def)
  next
    case False
    then have t: "L + L mod 2 = Suc L" by (simp add: odd_iff_mod_2_eq_one)
    have "snd (B L) = v"
      using v(1,3) len False unfolding t by (intro nth_equalityI) (simp_all add: live_def)
    then have "fst (B (Suc L)) = pass tw L scale back L v (fst (B L))" using False by (simp add: B two_bufs_def)
    then show ?thesis
      using v(1,2) pass_copy [OF False len(1), of tw scale "back" v] unfolding final t by (intro exI [of _ v]) simp
  qed
qed

section \<open>The transform in exact arithmetic\<close>

definition om :: "bool \<Rightarrow> nat \<Rightarrow> nat \<Rightarrow> complex" where
  "om back L k = cis ((if back then 1 else - 1) * 2 * pi * real k / 2 ^ L)"

lemma om_add: "om back L (j + k) = om back L j * om back L k"
  by (simp add: om_def cis_mult ring_distribs add_divide_distrib)

lemma om_half: "0 < L \<Longrightarrow> om back L (v * 2 ^ (L - 1)) = (- 1) ^ v"
proof (induction v)
  case 0
  show ?case by (simp add: om_def)
next
  case (Suc v)
  have "(2 :: real) ^ L = 2 * 2 ^ (L - 1)" using Suc.prems by (cases L) simp_all
  then have "om back L (2 ^ (L - 1)) = cis (if back then pi else - pi)" by (simp add: om_def)
  then have "om back L (2 ^ (L - 1)) = - 1" by (simp add: complex_eq_iff)
  then show ?case using Suc om_add [of "back" L "2 ^ (L - 1)" "v * 2 ^ (L - 1)"] by simp
qed

lemma cmod_om [simp]: "cmod (om back L k) = 1"
  by (simp add: om_def)

text \<open>What stage \<open>s\<close> has computed at place \<open>t\<close> of block \<open>b\<close>: a transform of every \<open>2\<^sup>L\<^sup>-\<^sup>s\<close>-th sample.\<close>

definition partial_dft :: "bool \<Rightarrow> nat \<Rightarrow> (nat \<Rightarrow> complex) \<Rightarrow> nat \<Rightarrow> nat \<Rightarrow> nat \<Rightarrow> complex" where
  "partial_dft back L x s b t =
     (\<Sum>u<2 ^ s. x (t + u * 2 ^ (L - s)) * om back L ((t + u * 2 ^ (L - s)) * brev b s)) / 2 ^ s"

lemma sum_pairs: "(\<Sum>v<2 * k. f v) = (\<Sum>u<k. f (2 * u) + f (Suc (2 * u)))" for f :: "nat \<Rightarrow> 'a::comm_monoid_add"
  by (induction k) (simp_all add: add.assoc)

lemma partial_dft_step:
  assumes "s < L"
  defines "h \<equiv> 2 ^ (L - Suc s) :: nat"
  shows "partial_dft back L x (Suc s) (2 * b) t = (partial_dft back L x s b t + partial_dft back L x s b (t + h)) / 2"
    and "partial_dft back L x (Suc s) (Suc (2 * b)) t =
      (partial_dft back L x s b t - partial_dft back L x s b (t + h)) / 2 * om back L (t * 2 ^ s)"
proof -
  let ?r = "brev b s"
  have m: "2 ^ (L - s) = 2 * h" using assms(1) by (simp add: h_def Suc_diff_Suc flip: power_Suc)
  define F where "F v = x (t + v * h) * om back L ((t + v * h) * ?r)" for v
  have a: "x (t + u * 2 ^ (L - s)) * om back L ((t + u * 2 ^ (L - s)) * ?r) = F (2 * u)"
    "x (t + h + u * 2 ^ (L - s)) * om back L ((t + h + u * 2 ^ (L - s)) * ?r) = F (Suc (2 * u))" for u
    by (simp_all add: F_def m algebra_simps)
  have P: "partial_dft back L x s b t = (\<Sum>u<2 ^ s. F (2 * u)) / 2 ^ s"
    "partial_dft back L x s b (t + h) = (\<Sum>u<2 ^ s. F (Suc (2 * u))) / 2 ^ s"
    unfolding partial_dft_def a by (rule refl)+
  show "partial_dft back L x (Suc s) (2 * b) t = (partial_dft back L x s b t + partial_dft back L x s b (t + h)) / 2"
  proof -
    have "(\<Sum>v<2 ^ Suc s. F v) = (\<Sum>u<2 ^ s. F (2 * u)) + (\<Sum>u<2 ^ s. F (Suc (2 * u)))"
      unfolding power_Suc sum_pairs sum.distrib ..
    then show ?thesis
      unfolding P unfolding partial_dft_def brev_double h_def [symmetric] F_def [symmetric] by (simp add: field_simps)
  qed
  have "L - 1 = (L - Suc s) + s" using assms(1) by simp
  then have hs: "h * 2 ^ s = 2 ^ (L - 1)" by (simp add: h_def power_add)
  have G: "x (t + v * h) * om back L ((t + v * h) * (2 ^ s + ?r)) = F v * (- 1) ^ v * om back L (t * 2 ^ s)" for v
  proof -
    have "(t + v * h) * (2 ^ s + ?r) = (t + v * h) * ?r + (v * 2 ^ (L - 1) + t * 2 ^ s)"
      unfolding hs [symmetric] by (simp add: algebra_simps)
    moreover have "om back L (v * 2 ^ (L - 1)) = (- 1) ^ v" using assms(1) by (intro om_half) simp
    ultimately show ?thesis by (simp only: om_add F_def) (simp add: ac_simps)
  qed
  have "partial_dft back L x (Suc s) (Suc (2 * b)) t = (\<Sum>v<2 * 2 ^ s. F v * (- 1) ^ v) * om back L (t * 2 ^ s) / (2 * 2 ^ s)"
    unfolding partial_dft_def brev_double_1 h_def [symmetric] G by (simp add: sum_distrib_right)
  also have "(\<Sum>v<2 * 2 ^ s. F v * (- 1) ^ v) = (\<Sum>u<2 ^ s. F (2 * u)) - (\<Sum>u<2 ^ s. F (Suc (2 * u)))"
    unfolding sum_pairs by (simp add: sum_subtractf)
  finally show "partial_dft back L x (Suc s) (Suc (2 * b)) t =
      (partial_dft back L x s b t - partial_dft back L x s b (t + h)) / 2 * om back L (t * 2 ^ s)"
    unfolding P by (simp add: diff_divide_distrib [symmetric])
qed

lemma partial_dft_bound:
  assumes "\<And>i. i < 2 ^ L \<Longrightarrow> cmod (x i) \<le> M" and "s \<le> L" and "t < 2 ^ (L - s)"
  shows "cmod (partial_dft back L x s b t) \<le> M"
proof -
  have "t + u * 2 ^ (L - s) < 2 ^ L" if "u < 2 ^ s" for u
  proof -
    have "(2 :: nat) ^ L = 2 ^ s * 2 ^ (L - s)" using assms(2) by (simp flip: power_add)
    moreover have "Suc u * 2 ^ (L - s) \<le> 2 ^ s * 2 ^ (L - s)" using that by (intro mult_le_mono1) simp
    ultimately show ?thesis using assms(3) by simp
  qed
  then have "cmod (\<Sum>u<2 ^ s. x (t + u * 2 ^ (L - s)) * om back L ((t + u * 2 ^ (L - s)) * brev b s)) \<le> (\<Sum>u<(2 :: nat) ^ s. M)"
    using assms(1) by (intro order_trans [OF norm_sum] sum_mono) (simp add: norm_mult)
  then show ?thesis unfolding partial_dft_def by (simp add: norm_divide norm_power field_simps)
qed

lemma partial_dft_0: "partial_dft back L x 0 0 t = x t"
  by (simp add: partial_dft_def brev_def om_def)

lemma partial_dft_L: "partial_dft back L x L b 0 = (\<Sum>u<2 ^ L. x u * om back L (u * brev b L)) / 2 ^ L"
  by (simp add: partial_dft_def)

section \<open>Rounding errors\<close>

definition cx :: "c16 \<Rightarrow> complex" where
  "cx a = Complex (of_int (fst a)) (of_int (snd a))"

text \<open>Errors of the two parts, and of the number.\<close>

lemma cmod_le_sqrt2:
  assumes "\<bar>Re z\<bar> \<le> c" and "\<bar>Im z\<bar> \<le> c"
  shows "cmod z \<le> 1.41422 * c"
proof -
  have c: "0 \<le> c" using assms(1) by linarith
  have "(cmod z)\<^sup>2 = (Re z)\<^sup>2 + (Im z)\<^sup>2" by (rule cmod_power2)
  also have "\<dots> \<le> c\<^sup>2 + c\<^sup>2"
    using power_mono [OF assms(1), of 2] power_mono [OF assms(2), of 2] by simp
  also have "\<dots> = 2 * c\<^sup>2" by simp
  also have "\<dots> \<le> 1.41422\<^sup>2 * c\<^sup>2" by (intro mult_right_mono) (simp_all add: power2_eq_square)
  also have "\<dots> = (1.41422 * c)\<^sup>2" by (rule power_mult_distrib [symmetric])
  finally have "(cmod z)\<^sup>2 \<le> (1.41422 * c)\<^sup>2" .
  then show ?thesis by (rule power2_le_imp_le) (use c in simp)
qed

lemma sat16_near: "- 32768 \<le> y \<Longrightarrow> y \<le> 32767 \<Longrightarrow> \<bar>of_int (sat16 v) - y\<bar> \<le> \<bar>of_int v - y\<bar>" for y :: real
  by (auto simp: sat16_def)

lemma round_div:
  fixes v m :: int
  assumes "0 < m"
  shows "\<bar>real_of_int ((v + m) div (2 * m)) - real_of_int v / real_of_int (2 * m)\<bar> \<le> 1 / 2"
proof -
  obtain q r where q: "q = (v + m) div (2 * m)" and e: "v + m = 2 * m * q + r" and r: "0 \<le> r" "r < 2 * m"
    using assms div_mult_mod_eq [of "v + m" "2 * m"] pos_mod_bound [of "2 * m" "v + m"] pos_mod_sign [of "2 * m" "v + m"]
    by (metis mult.commute mult_pos_pos zero_less_numeral)
  have "real_of_int (v + m) = real_of_int (2 * m * q + r)" by (rule arg_cong [OF e])
  then have "real_of_int v = 2 * real_of_int m * of_int q + of_int r - of_int m" by simp
  then have "real_of_int v / real_of_int (2 * m) = of_int q + (of_int r - of_int m) / (2 * of_int m)"
    using assms by (simp add: field_simps)
  moreover have "0 \<le> real_of_int r" "real_of_int r \<le> 2 * real_of_int m"
    using r of_int_le_iff [of r "2 * m", where 'a = real] by simp_all
  then have "\<bar>(of_int r - of_int m) / (2 * real_of_int m)\<bar> \<le> 1 / 2"
    using assms by (simp add: abs_le_iff field_simps)
  ultimately show ?thesis unfolding q [symmetric] by linarith
qed

lemma round_half: "\<bar>real_of_int ((v + 1) div 2) - of_int v / 2\<bar> \<le> 1 / 2"
  using round_div [of 1 v] by simp

lemma round_norm: "\<bar>real_of_int ((v + 16384) div 2 ^ 15) - of_int v / 32768\<bar> \<le> 1 / 2"
  using round_div [of 16384 v] by simp

text \<open>A clamped value is no further from a number of the disc than the value itself.\<close>

lemma sat16_cx:
  assumes "cmod Y \<le> 32767" and "\<bar>of_int p - Re Y\<bar> \<le> c" and "\<bar>of_int q - Im Y\<bar> \<le> d"
  shows "\<bar>of_int (sat16 p) - Re Y\<bar> \<le> c" and "\<bar>of_int (sat16 q) - Im Y\<bar> \<le> d"
proof -
  have "\<bar>Re Y\<bar> \<le> 32767" "\<bar>Im Y\<bar> \<le> 32767"
    using abs_Re_le_cmod [of Y] abs_Im_le_cmod [of Y] assms(1) by linarith+
  then show "\<bar>of_int (sat16 p) - Re Y\<bar> \<le> c" "\<bar>of_int (sat16 q) - Im Y\<bar> \<le> d"
    using sat16_near [of "Re Y" p] sat16_near [of "Im Y" q] assms(2,3) by linarith+
qed

text \<open>More generally: what clamping yields lies within \<open>e\<close> of \<open>Y\<close> when what is clamped lies within \<open>e\<close> of it.\<close>

lemma sat16_cmod:
  assumes "cmod Y \<le> 32767"
  shows "cmod (cx (sat16 p, sat16 q) - Y) \<le> cmod (cx (p, q) - Y)"
proof -
  have "\<bar>Re (cx (sat16 p, sat16 q) - Y)\<bar> \<le> \<bar>Re (cx (p, q) - Y)\<bar>" "\<bar>Im (cx (sat16 p, sat16 q) - Y)\<bar> \<le> \<bar>Im (cx (p, q) - Y)\<bar>"
    using sat16_cx [where p = p and q = q, OF assms order.refl order.refl] by (simp_all add: cx_def)
  then show ?thesis by (simp add: cmod_def) (intro add_mono; simp add: abs_le_square_iff [symmetric])
qed

section \<open>The twiddle table\<close>

lemma floor_near: "\<bar>of_int \<lfloor>y + 1 / 2\<rfloor> - y\<bar> \<le> 1 / 2" for y :: real
  using floor_correct [of "y + 1 / 2"] by linarith

lemma q15_near:
  assumes "\<bar>x\<bar> \<le> 1"
  shows "\<bar>of_int (q15 x) - 32768 * x\<bar> \<le> 1" and "\<bar>x\<bar> \<le> 9 / 10 \<Longrightarrow> \<bar>of_int (q15 x) - 32768 * x\<bar> \<le> 1 / 2"
    and "- 32768 \<le> q15 x \<and> q15 x \<le> 32767"
proof -
  define v where "v = \<lfloor>x * 32768 + 1 / 2\<rfloor>"
  have v: "of_int v - x * 32768 \<le> 1 / 2" "x * 32768 - of_int v \<le> 1 / 2"
    using floor_near [of "x * 32768"] unfolding v_def by linarith+
  have lo: "- 32768 \<le> v" using assms unfolding v_def by (simp add: le_floor_iff abs_le_iff)
  have q: "q15 x = (if v > 32767 then 32767 else v)" using lo by (simp add: q15_def v_def [symmetric])
  have hi: "65535 / 2 \<le> 32768 * x" if "v > 32767"
  proof -
    have "32768 \<le> real_of_int v" using that by linarith
    then show ?thesis using v by linarith
  qed
  show "\<bar>of_int (q15 x) - 32768 * x\<bar> \<le> 1" using v hi assms unfolding q by (auto simp: abs_le_iff)
  show "\<bar>of_int (q15 x) - 32768 * x\<bar> \<le> 1 / 2" if "\<bar>x\<bar> \<le> 9 / 10"
  proof (cases "v > 32767")
    case True
    then show ?thesis using hi that by linarith
  next
    case False
    then show ?thesis using v unfolding q abs_le_iff by simp
  qed
  show "- 32768 \<le> q15 x \<and> q15 x \<le> 32767" using lo unfolding q by simp
qed

lemma conj_im_near:
  assumes "\<bar>y\<bar> \<le> 1"
  shows "\<bar>of_int (conj_im back (q15 y)) - 32768 * (if back then - y else y)\<bar> \<le> 1"
    and "\<bar>y\<bar> \<le> 9 / 10 \<Longrightarrow> \<bar>of_int (conj_im back (q15 y)) - 32768 * (if back then - y else y)\<bar> \<le> 1 / 2"
proof -
  have low: "32768 * y \<le> - 32767.5 \<and> - 32768 \<le> 32768 * y" if "q15 y = - 32768"
  proof -
    have "\<lfloor>y * 32768 + 1 / 2\<rfloor> \<le> - 32768" using that unfolding q15_def Let_def by (simp only: split: if_splits)
    then have "real_of_int \<lfloor>y * 32768 + 1 / 2\<rfloor> \<le> - 32768" by linarith
    then have "y * 32768 + 1 / 2 < - 32767" using floor_correct [of "y * 32768 + 1 / 2"] by linarith
    then show ?thesis using assms by (simp add: abs_le_iff)
  qed
  show "\<bar>of_int (conj_im back (q15 y)) - 32768 * (if back then - y else y)\<bar> \<le> 1"
    using q15_near(1) [OF assms] low by (auto simp: conj_im_def abs_le_iff)
  show "\<bar>of_int (conj_im back (q15 y)) - 32768 * (if back then - y else y)\<bar> \<le> 1 / 2" if "\<bar>y\<bar> \<le> 9 / 10"
  proof -
    have "q15 y \<noteq> - 32768" using low that by linarith
    then show ?thesis using q15_near(2) [OF assms that] unfolding abs_le_iff by (cases "back") (simp_all add: conj_im_def)
  qed
qed

lemma cmod_le_12:
  assumes "\<bar>Re z\<bar> \<le> 1 / 2 \<and> \<bar>Im z\<bar> \<le> 1 \<or> \<bar>Re z\<bar> \<le> 1 \<and> \<bar>Im z\<bar> \<le> 1 / 2"
  shows "cmod z \<le> 1.1181"
proof -
  have "(cmod z)\<^sup>2 = \<bar>Re z\<bar>\<^sup>2 + \<bar>Im z\<bar>\<^sup>2" by (simp add: cmod_power2)
  also have "\<dots> \<le> (1 / 2)\<^sup>2 + 1\<^sup>2"
    using assms power_mono [of "\<bar>Re z\<bar>" "1 / 2" 2] power_mono [of "\<bar>Im z\<bar>" 1 2]
      power_mono [of "\<bar>Re z\<bar>" 1 2] power_mono [of "\<bar>Im z\<bar>" "1 / 2" 2] by auto
  also have "\<dots> \<le> 1.1181\<^sup>2" by (simp add: power2_eq_square)
  finally have "(cmod z)\<^sup>2 \<le> 1.1181\<^sup>2" .
  then show ?thesis by (rule power2_le_imp_le) simp
qed

definition twiddle :: "bool \<Rightarrow> c16 \<Rightarrow> complex" where
  "twiddle back t = Complex (of_int (fst t)) (of_int (conj_im back (snd t))) / 32768"

lemma twiddle_near:
  assumes "k < 512"
  shows "cmod (twiddle back (build_twiddle ! k) - om back 10 k) \<le> 1.1181 / 32768"
proof -
  define c y where "c = cos (- 2 * pi * real k / 1024)" and "y = sin (- 2 * pi * real k / 1024)"
  have t: "build_twiddle ! k = (q15 c, q15 y)"
    using assms by (simp add: build_twiddle_def NMAX_def c_def y_def)
  have w: "om back 10 k = Complex c (if back then - y else y)"
    by (simp add: om_def c_def y_def complex_eq_iff)
  have b: "\<bar>c\<bar> \<le> 1" "\<bar>y\<bar> \<le> 1" unfolding c_def y_def by simp_all
  let ?z = "Complex (of_int (q15 c) - 32768 * c) (of_int (conj_im back (q15 y)) - 32768 * (if back then - y else y))"
  have "\<bar>c\<bar> \<le> 9 / 10 \<or> \<bar>y\<bar> \<le> 9 / 10"
  proof (rule ccontr)
    assume "\<not> (\<bar>c\<bar> \<le> 9 / 10 \<or> \<bar>y\<bar> \<le> 9 / 10)"
    then have "(9 / 10)\<^sup>2 \<le> \<bar>c\<bar>\<^sup>2" "(9 / 10)\<^sup>2 \<le> \<bar>y\<bar>\<^sup>2" by (intro power_mono; simp)+
    moreover have "c\<^sup>2 + y\<^sup>2 = 1" unfolding c_def y_def by (simp add: sin_cos_squared_add2)
    ultimately show False by (simp add: power2_eq_square)
  qed
  then have "cmod ?z \<le> 1.1181"
    using q15_near(1,2) [OF b(1)] conj_im_near [OF b(2), of "back"] by (intro cmod_le_12) auto
  moreover have "twiddle back (build_twiddle ! k) - om back 10 k = ?z / 32768"
    by (simp add: twiddle_def t w complex_eq_iff)
  ultimately show ?thesis by (simp only: norm_divide) simp
qed

lemma om_scale: "L \<le> 10 \<Longrightarrow> om back 10 (k * 2 ^ (10 - L)) = om back L k"
proof -
  assume "L \<le> 10"
  then have "(2 :: real) ^ 10 = 2 ^ (10 - L) * 2 ^ L" by (simp flip: power_add)
  then have "real (k * 2 ^ (10 - L)) / 2 ^ 10 = real k / 2 ^ L" by (simp add: field_simps)
  then show ?thesis unfolding om_def times_divide_eq_right [symmetric] by (simp only:)
qed

section \<open>One butterfly, and the whole transform, against exact arithmetic\<close>

lemma cx_parts [simp]: "Re (cx a) = of_int (fst a)" "Im (cx a) = of_int (snd a)"
  by (simp_all add: cx_def)

lemma near_half:
  assumes "cmod (z - A) \<le> e" and "cmod (w - B) \<le> e"
  shows "cmod ((z + w) / 2 - (A + B) / 2) \<le> e" and "cmod ((z - w) / 2 - (A - B) / 2) \<le> e"
proof -
  have eq: "(z + w) / 2 - (A + B) / 2 = ((z - A) + (w - B)) / 2" "(z - w) / 2 - (A - B) / 2 = ((z - A) - (w - B)) / 2"
    by (simp_all add: field_simps)
  show "cmod ((z + w) / 2 - (A + B) / 2) \<le> e" "cmod ((z - w) / 2 - (A - B) / 2) \<le> e"
    unfolding eq norm_divide using norm_triangle_ineq [of "z - A" "w - B"] norm_triangle_ineq4 [of "z - A" "w - B"] assms
    by simp_all
qed

lemma half_bound: "cmod A \<le> M \<Longrightarrow> cmod B \<le> M \<Longrightarrow> cmod ((A + B) / 2) \<le> M \<and> cmod ((A - B) / 2) \<le> M"
  using norm_triangle_ineq [of A B] norm_triangle_ineq4 [of A B] by (simp add: norm_divide)

lemma butterfly_error:
  fixes a b :: c16
  assumes A: "cmod A \<le> 32767" "cmod B \<le> 32767" and e: "cmod (cx a - A) \<le> e" "cmod (cx b - B) \<le> e" "e \<le> 22"
    and W: "cmod (twiddle back t - W) \<le> 1.1181 / 32768" "cmod W = 1"
    and o': "butterfly True (fst t) (conj_im back (snd t)) a b = (oa, ob)"
  shows "cmod (cx oa - (A + B) / 2) \<le> e + 2.2" and "cmod (cx ob - (A - B) / 2 * W) \<le> e + 2.2"
proof -
  let ?T = "twiddle back t" and ?ti = "conj_im back (snd t)"
  define dr di where "dr = fst a - fst b" and "di = snd a - snd b"
  define nr ni where "nr = (dr * fst t - di * ?ti + 16384) div 2 ^ 15" and "ni = (dr * ?ti + di * fst t + 16384) div 2 ^ 15"
  have oa: "oa = (sat16 ((fst a + fst b + 1) div 2), sat16 ((snd a + snd b + 1) div 2))"
    and ob: "ob = (sat16 ((nr + 1) div 2), sat16 ((ni + 1) div 2))"
    using o' by (auto simp: butterfly_def scale_rnd_def Let_def nr_def ni_def dr_def di_def)
  have "cmod (cx ((fst a + fst b + 1) div 2, (snd a + snd b + 1) div 2) - (cx a + cx b) / 2) \<le> 1.41422 * (1 / 2)"
    using round_half [of "fst a + fst b"] round_half [of "snd a + snd b"] by (intro cmod_le_sqrt2) simp_all
  then have "cmod (cx ((fst a + fst b + 1) div 2, (snd a + snd b + 1) div 2) - (A + B) / 2) \<le> e + 2.2"
    using norm_triangle_le [OF add_mono [OF _ near_half(1) [OF e(1,2)]], of "cx ((fst a + fst b + 1) div 2, (snd a + snd b + 1) div 2) - (cx a + cx b) / 2" "1.41422 * (1 / 2)"]
    by simp
  moreover have "cmod ((A + B) / 2) \<le> 32767" using half_bound [OF A] by blast
  ultimately show "cmod (cx oa - (A + B) / 2) \<le> e + 2.2"
    unfolding oa using order_trans [OF sat16_cmod] by blast
  let ?p = "cx ((nr + 1) div 2, (ni + 1) div 2)" and ?D = "(cx a - cx b) / 2"
  have r1: "cmod (?p - cx (nr, ni) / 2) \<le> 1.41422 * (1 / 2)"
    using round_half [of nr] round_half [of ni] by (intro cmod_le_sqrt2) simp_all
  have "cmod (cx (nr, ni) - (cx a - cx b) * ?T) \<le> 1.41422 * (1 / 2)"
  proof (rule cmod_le_sqrt2)
    have p: "Re ((cx a - cx b) * ?T) = of_int (dr * fst t - di * ?ti) / 32768"
      "Im ((cx a - cx b) * ?T) = of_int (dr * ?ti + di * fst t) / 32768"
      by (simp_all add: twiddle_def dr_def di_def field_simps)
    show "\<bar>Re (cx (nr, ni) - (cx a - cx b) * ?T)\<bar> \<le> 1 / 2" "\<bar>Im (cx (nr, ni) - (cx a - cx b) * ?T)\<bar> \<le> 1 / 2"
      unfolding minus_complex.sel p cx_parts fst_conv snd_conv unfolding nr_def ni_def by (rule round_norm)+
  qed
  moreover have q: "cx (nr, ni) / 2 - ?D * ?T = (cx (nr, ni) - (cx a - cx b) * ?T) / 2" by (simp add: field_simps)
  ultimately have r2: "cmod (cx (nr, ni) / 2 - ?D * ?T) \<le> 1.41422 / 4" unfolding q norm_divide by simp
  have "cmod ?D \<le> 32767 + e"
    using norm_triangle_ineq [of "?D - (A - B) / 2" "(A - B) / 2"] near_half(2) [OF e(1,2)] half_bound [OF A] by simp
  then have "cmod ?D * cmod (?T - W) \<le> 32789 * (1.1181 / 32768)" using W(1) e(3) by (intro mult_mono) simp_all
  then have r3: "cmod (?D * ?T - ?D * W) \<le> 1.1189"
    unfolding norm_mult [symmetric] right_diff_distrib [symmetric] by simp
  have r4: "cmod (?D * W - (A - B) / 2 * W) \<le> e"
    unfolding left_diff_distrib [symmetric] norm_mult W(2) using near_half(2) [OF e(1,2)] by simp
  have "?p - (A - B) / 2 * W = (?p - cx (nr, ni) / 2) + ((cx (nr, ni) / 2 - ?D * ?T) + ((?D * ?T - ?D * W) + (?D * W - (A - B) / 2 * W)))"
    by simp
  then have "cmod (?p - (A - B) / 2 * W) \<le> 1.41422 * (1 / 2) + (1.41422 / 4 + (1.1189 + e))"
    by (simp only:) (intro norm_triangle_mono r1 r2 r3 r4)
  then have "cmod (?p - (A - B) / 2 * W) \<le> e + 2.2" by simp
  moreover have "cmod ((A - B) / 2 * W) \<le> 32767" using half_bound [OF A] W(2) by (simp add: norm_mult)
  ultimately show "cmod (cx ob - (A - B) / 2 * W) \<le> e + 2.2"
    unfolding ob using order_trans [OF sat16_cmod] by blast
qed

definition near_stage :: "bool \<Rightarrow> nat \<Rightarrow> (nat \<Rightarrow> complex) \<Rightarrow> nat \<Rightarrow> c16 list \<Rightarrow> bool" where
  "near_stage back L x s a \<longleftrightarrow> (\<forall>b<2 ^ s. \<forall>t<2 ^ (L - s).
     cmod (cx (a ! (b * 2 ^ (L - s) + t)) - partial_dft back L x s b t) \<le> 2.2 * real s)"

lemma near_stageD:
  "near_stage back L x s a \<Longrightarrow> b < 2 ^ s \<Longrightarrow> t < 2 ^ (L - s) \<Longrightarrow>
   cmod (cx (a ! (b * 2 ^ (L - s) + t)) - partial_dft back L x s b t) \<le> 2.2 * real s"
  unfolding near_stage_def by blast

lemma near_stage_step:
  assumes L: "L \<le> 10" "s < L" and x: "\<And>i. i < 2 ^ L \<Longrightarrow> cmod (x i) \<le> 32767" and sc: "bit scale s"
    and a: "near_stage back L x s a" and st: "stage build_twiddle L scale back s a b"
  shows "near_stage back L x (Suc s) b"
  unfolding near_stage_def
proof (intro allI impI)
  fix B t :: nat assume B: "B < 2 ^ Suc s" and t: "t < 2 ^ (L - Suc s)"
  let ?h = "2 ^ (L - Suc s) :: nat" and ?q = "B div 2"
  have m: "2 ^ (L - s) = 2 * ?h" using L(2) by (simp add: Suc_diff_Suc flip: power_Suc)
  have q: "?q < 2 ^ s" using B by simp
  let ?i = "?q * 2 ^ (L - s) + t" and ?k = "t * (2 ^ s * (NMAX div 2 ^ L))"
  let ?tw = "build_twiddle ! ?k"
  have bf: "(b ! ?i, b ! (?i + ?h)) = butterfly True (fst ?tw) (conj_im back (snd ?tw)) (a ! ?i) (a ! (?i + ?h))"
    using st q t sc unfolding stage_def Let_def by simp
  have th: "t < 2 ^ (L - s)" "t + ?h < 2 ^ (L - s)" using t m by simp_all
  have e1: "cmod (cx (a ! ?i) - partial_dft back L x s ?q t) \<le> 2.2 * real s" by (rule near_stageD [OF a q th(1)])
  have e2: "cmod (cx (a ! (?i + ?h)) - partial_dft back L x s ?q (t + ?h)) \<le> 2.2 * real s"
    using near_stageD [OF a q th(2)] by (simp add: add.assoc)
  have bd: "cmod (partial_dft back L x s ?q t) \<le> 32767" "cmod (partial_dft back L x s ?q (t + ?h)) \<le> 32767"
    using L(2) th by (intro partial_dft_bound x; simp)+
  have n: "NMAX div 2 ^ L = 2 ^ (10 - L)"
  proof -
    have "(1024 :: nat) = 2 ^ (10 - L) * 2 ^ L" using L(1) by (simp flip: power_add)
    then show ?thesis unfolding NMAX_def by (metis nonzero_mult_div_cancel_right power_not_zero zero_neq_numeral)
  qed
  have k: "?k < 512"
  proof -
    have "t * 2 ^ s < ?h * 2 ^ s" using t by simp
    also have "?h * 2 ^ s = 2 ^ (L - 1)" using L(2) by (simp flip: power_add)
    finally have "t * 2 ^ s * 2 ^ (10 - L) < 2 ^ (L - 1) * 2 ^ (10 - L)" by simp
    also have "2 ^ (L - 1) * 2 ^ (10 - L) = (2 :: nat) ^ 9" using L by (simp flip: power_add)
    finally show ?thesis unfolding n by (simp add: ac_simps)
  qed
  have w: "cmod (twiddle back ?tw - om back L (t * 2 ^ s)) \<le> 1.1181 / 32768"
    using twiddle_near [OF k, of "back"] om_scale [OF L(1), of "back" "t * 2 ^ s"] unfolding n by (simp add: ac_simps)
  have inc: "2.2 * real (Suc s) = 2.2 * real s + 2.2" by simp
  have "2.2 * real s \<le> 22" using L by simp
  note be = butterfly_error [OF bd e1 e2 this w cmod_om bf [symmetric]]
  show "cmod (cx (b ! (B * ?h + t)) - partial_dft back L x (Suc s) B t) \<le> 2.2 * real (Suc s)"
  proof (cases "even B")
    case True
    then have B': "B = 2 * ?q" by simp
    have i1: "B * ?h + t = ?i" using B' m by (metis mult.commute mult.left_commute)
    have p1: "partial_dft back L x (Suc s) B t = (partial_dft back L x s ?q t + partial_dft back L x s ?q (t + ?h)) / 2"
      using partial_dft_step(1) [OF L(2), of "back" x ?q t] B' by simp
    show ?thesis unfolding i1 p1 inc by (rule be(1))
  next
    case False
    then have B': "B = Suc (2 * ?q)" by simp
    have "Suc (2 * ?q) * ?h + t = ?i + ?h" unfolding m by simp
    then have i1: "B * ?h + t = ?i + ?h" using B' by simp
    have p1: "partial_dft back L x (Suc s) B t =
        (partial_dft back L x s ?q t - partial_dft back L x s ?q (t + ?h)) / 2 * om back L (t * 2 ^ s)"
      using partial_dft_step(2) [OF L(2), of "back" x ?q t] B' by simp
    show ?thesis unfolding i1 p1 inc by (rule be(2))
  qed
qed

lemma ref_dft_complex:
  "(\<Sum>u<2 ^ L. cx (x ! u) * om back L (u * k)) / 2 ^ L =
   Complex (32768 * fst (ref_dft x (2 ^ L) back k)) (32768 * snd (ref_dft x (2 ^ L) back k))"
proof -
  define ang where "ang t = (if back then 1 else - 1) * 2 * pi * real k * real t / real (2 ^ L)" for t
  have w: "om back L (u * k) = cis (ang u)" for u by (simp add: om_def ang_def ac_simps)
  have d: "(2 :: complex) ^ L = complex_of_real (real (2 ^ L))" by simp
  have t: "32768 * (p / 32768 * c - q / 32768 * e) = p * c - q * e" "32768 * (p / 32768 * c + q / 32768 * e) = p * c + q * e"
    for p q c e :: real by simp_all
  have re: "Re ((\<Sum>u<2 ^ L. cx (x ! u) * om back L (u * k)) / 2 ^ L) = 32768 * fst (ref_dft x (2 ^ L) back k)"
    unfolding w ref_dft_def Let_def ang_def [symmetric] fst_conv d Re_divide_of_real Re_sum times_divide_eq_right
      sum_distrib_left t by (simp only: times_complex.sel cis.sel cx_parts)
  have im: "Im ((\<Sum>u<2 ^ L. cx (x ! u) * om back L (u * k)) / 2 ^ L) = 32768 * snd (ref_dft x (2 ^ L) back k)"
    unfolding w ref_dft_def Let_def ang_def [symmetric] snd_conv d Im_divide_of_real Im_sum times_divide_eq_right
      sum_distrib_left t by (simp only: times_complex.sel cis.sel cx_parts)
  show ?thesis unfolding complex_eq_iff re im by simp
qed

text \<open>The tolerance of the test bench is a theorem.  For every size, both directions and every frame whose
  samples lie in the disc of full scale, the fixed-point datapath with its rounding, saturation and
  quantised twiddle factors stays within \<open>4 + 2 log2n\<close> units of the last place of the exact discrete
  Fourier transform, in both parts of every bin.\<close>

theorem model_fft_accuracy:
  assumes "0 < L" and "L \<le> 10" and "length x = 2 ^ L" and "\<forall>i<L. bit scale i" and "k < 2 ^ L"
    and "\<forall>a \<in> set x. (fst a)\<^sup>2 + (snd a)\<^sup>2 \<le> 32767\<^sup>2"
  shows "\<bar>of_int (fst (model_fft build_twiddle L scale back x ! k)) / 32768 - fst (ref_dft x (2 ^ L) back k)\<bar> * 32768
      \<le> 4 + 2 * real L \<and>
    \<bar>of_int (snd (model_fft build_twiddle L scale back x ! k)) / 32768 - snd (ref_dft x (2 ^ L) back k)\<bar> * 32768
      \<le> 4 + 2 * real L"
proof -
  let ?x = "\<lambda>u. cx (x ! u)" and ?r = "model_fft build_twiddle L scale back x ! k"
  have disc: "cmod (?x i) \<le> 32767" if "i < 2 ^ L" for i
  proof -
    have "(fst (x ! i))\<^sup>2 + (snd (x ! i))\<^sup>2 \<le> 32767\<^sup>2" using assms(3,6) that by simp
    then have "real_of_int ((fst (x ! i))\<^sup>2 + (snd (x ! i))\<^sup>2) \<le> real_of_int (32767\<^sup>2)" by (simp only: of_int_le_iff)
    then have "(cmod (?x i))\<^sup>2 \<le> 32767\<^sup>2" by (simp add: cmod_power2)
    then show ?thesis by (rule power2_le_imp_le) simp
  qed
  have "\<exists>v. length v = 2 ^ L \<and> near_stage back L ?x L v \<and> length (model_fft build_twiddle L scale back x) = 2 ^ L \<and>
      (\<forall>i<2 ^ L. model_fft build_twiddle L scale back x ! brev i L = v ! i)"
  proof (rule model_fft_stages [where P = "near_stage back L ?x", OF assms(1,3)])
    show "near_stage back L ?x 0 x" by (simp add: near_stage_def partial_dft_0)
    fix st a b assume "st < L" "near_stage back L ?x st a" "stage build_twiddle L scale back st a b"
    then show "near_stage back L ?x (Suc st) b"
      using near_stage_step [OF assms(2) _ disc, of st "\<lambda>u. u" scale "back" a b] assms(4) by blast
  qed
  then obtain v where v: "near_stage back L ?x L v" "\<forall>i<2 ^ L. model_fft build_twiddle L scale back x ! brev i L = v ! i"
    by blast
  let ?b = "brev k L"
  have r: "?r = v ! ?b" using v(2) brev_brev [OF assms(5)] brev_less [of k L] by metis
  have "cmod (cx ?r - partial_dft back L ?x L ?b 0) \<le> 2.2 * real L"
    using near_stageD [OF v(1) brev_less [of k L], of 0] unfolding r by simp
  moreover have "partial_dft back L ?x L ?b 0 =
      Complex (32768 * fst (ref_dft x (2 ^ L) back k)) (32768 * snd (ref_dft x (2 ^ L) back k))"
    unfolding partial_dft_L brev_brev [OF assms(5)] by (rule ref_dft_complex)
  moreover have dd: "cx ?r - Complex (32768 * fst (ref_dft x (2 ^ L) back k)) (32768 * snd (ref_dft x (2 ^ L) back k)) =
      Complex (of_int (fst ?r) - 32768 * fst (ref_dft x (2 ^ L) back k)) (of_int (snd ?r) - 32768 * snd (ref_dft x (2 ^ L) back k))"
    by (simp add: complex_eq_iff)
  ultimately have z: "cmod (Complex (of_int (fst ?r) - 32768 * fst (ref_dft x (2 ^ L) back k))
      (of_int (snd ?r) - 32768 * snd (ref_dft x (2 ^ L) back k))) \<le> 2.2 * real L"
    unfolding dd [symmetric] by simp
  have l: "2.2 * real L \<le> 4 + 2 * real L" using assms(2) by simp
  have s: "\<bar>p / 32768 - y\<bar> * 32768 = \<bar>p - 32768 * y\<bar>" for p y :: real by (simp add: abs_if field_simps)
  show "\<bar>of_int (fst ?r) / 32768 - fst (ref_dft x (2 ^ L) back k)\<bar> * 32768 \<le> 4 + 2 * real L \<and>
    \<bar>of_int (snd ?r) / 32768 - snd (ref_dft x (2 ^ L) back k)\<bar> * 32768 \<le> 4 + 2 * real L"
    unfolding s using order_trans [OF abs_Re_le_cmod z] order_trans [OF abs_Im_le_cmod z] l by simp_all
qed

theorem model_fft_accuracy_witness:
  "\<bar>of_int (fst (model_fft build_twiddle 2 0x3FF False [(16384, 0), (0, 0), (0, - 12000), (1, 1)] ! 3)) / 32768 -
      fst (ref_dft [(16384, 0), (0, 0), (0, - 12000), (1, 1)] 4 False 3)\<bar> * 32768 \<le> 8"
proof -
  have "bit (0x3FF :: u32) i" if "i < 2" for i using that by (auto simp: less_2_cases_iff bit_1_iff)
  then show ?thesis
    using model_fft_accuracy [of 2 "[(16384, 0), (0, 0), (0, - 12000), (1, 1)]" "0x3FF" 3 False] by simp
qed

section \<open>Frames with exact answers\<close>

text \<open>What a butterfly with scaling makes of two equal numbers, and of an impulse, through the twiddle of angle 0.\<close>

lemma sat16_id: "- 32768 \<le> v \<Longrightarrow> v \<le> 32767 \<Longrightarrow> sat16 v = v"
  by (simp add: sat16_def)

lemma butterfly_equal:
  assumes "- 32768 \<le> c" and "c \<le> 32767"
  shows "butterfly True p q (c, 0) (c, 0) = ((c, 0), (0, 0))"
  using assms by (simp add: butterfly_def scale_rnd_def sat16_id)

lemma butterfly_zero: "butterfly True p q (0, 0) (0, 0) = ((0, 0), (0, 0))"
  by (simp add: butterfly_def scale_rnd_def sat16_id)

lemma butterfly_impulse:
  assumes "0 \<le> c" and "2 * c \<le> 16384"
  shows "butterfly True 32767 0 (2 * c, 0) (0, 0) = ((c, 0), (c, 0))"
proof -
  have "(2 * c * 32767 + 16384) div 32768 = 2 * c"
  proof -
    have "2 * c * 32767 + 16384 = 2 * c * 32768 + (16384 - 2 * c)" by simp
    also have "\<dots> div 32768 = 2 * c" using assms by simp
    finally show ?thesis .
  qed
  moreover have "(2 * c + 1) div 2 = c" by simp
  ultimately show ?thesis using assms by (simp add: butterfly_def scale_rnd_def sat16_id)
qed

text \<open>Outside the disc scaling does not prevent clipping, although both parts are in range.\<close>

lemma butterfly_clips: "butterfly True 23170 (- 23170) (32767, 32767) (- 32768, - 32768) = ((0, 0), (32767, 0))"
  by (simp add: butterfly_def scale_rnd_def sat16_def)

lemma twiddle_0: "build_twiddle ! 0 = (32767, 0)"
  by (simp add: build_twiddle_def NMAX_def q15_def)

lemma half_block: "B * h + t = (if even B then B div 2 * (2 * h) + t else B div 2 * (2 * h) + t + h)" for B h t :: nat
proof (cases "even B")
  case True
  then have "B * h = 2 * (B div 2) * h" by simp
  then show ?thesis using True by simp
next
  case False
  then have "B = Suc (2 * (B div 2))" by simp
  then have "B * h + t = Suc (2 * (B div 2)) * h + t" by (rule arg_cong)
  also have "\<dots> = B div 2 * (2 * h) + t + h" by simp
  finally show ?thesis using False by simp
qed

lemma model_fft_blocks:
  assumes "0 < L" and "length x = 2 ^ L"
    and base: "\<And>t. t < 2 ^ L \<Longrightarrow> x ! t = f 0 0 t"
    and step: "\<And>s b t i j. s < L \<Longrightarrow> b < 2 ^ s \<Longrightarrow> t < 2 ^ (L - Suc s) \<Longrightarrow>
      (f (Suc s) (2 * b) t, f (Suc s) (Suc (2 * b)) t) =
        butterfly (bit scale s) (fst (tw ! (t * (2 ^ s * (NMAX div 2 ^ L))))) (conj_im back (snd (tw ! (t * (2 ^ s * (NMAX div 2 ^ L))))))
          (f s b t) (f s b (t + 2 ^ (L - Suc s)))"
    and k: "k < 2 ^ L"
  shows "model_fft tw L scale back x ! k = f L (brev k L) 0"
proof -
  let ?P = "\<lambda>s a. \<forall>b<2 ^ s. \<forall>t<2 ^ (L - s). a ! (b * 2 ^ (L - s) + t) = f s b t"
  have "\<exists>v. length v = 2 ^ L \<and> ?P L v \<and> length (model_fft tw L scale back x) = 2 ^ L \<and>
      (\<forall>i<2 ^ L. model_fft tw L scale back x ! brev i L = v ! i)"
  proof (rule model_fft_stages [where P = ?P, OF assms(1,2)])
    show "?P 0 x" using base by simp
    fix s a b assume s: "s < L" and P: "?P s a" and st: "stage tw L scale back s a b"
    show "?P (Suc s) b"
    proof (intro allI impI)
      fix B t :: nat assume B: "B < 2 ^ Suc s" and t: "t < 2 ^ (L - Suc s)"
      let ?h = "2 ^ (L - Suc s) :: nat" and ?q = "B div 2"
      have m: "2 ^ (L - s) = 2 * ?h" using s by (simp add: Suc_diff_Suc flip: power_Suc)
      let ?i = "?q * 2 ^ (L - s) + t"
      have q: "?q < 2 ^ s" using B by simp
      have a: "a ! ?i = f s ?q t" "a ! (?i + ?h) = f s ?q (t + ?h)"
        using P [rule_format, OF q, of t] P [rule_format, OF q, of "t + ?h"] t m by (simp_all add: add.assoc)
      have "(b ! ?i, b ! (?i + ?h)) = (f (Suc s) (2 * ?q) t, f (Suc s) (Suc (2 * ?q)) t)"
        using st q t step [OF s q t] unfolding stage_def Let_def a [symmetric] by simp
      moreover have "B * ?h + t = (if even B then ?i else ?i + ?h)" unfolding m by (rule half_block)
      ultimately show "b ! (B * ?h + t) = f (Suc s) B t" by (cases "even B") (auto simp: add_ac)
    qed
  qed
  then obtain v where v: "?P L v" "\<forall>i<2 ^ L. model_fft tw L scale back x ! brev i L = v ! i" by blast
  then show ?thesis using brev_brev [OF k] brev_less [of k L] by (metis add.right_neutral diff_self_eq_0 less_one mult.right_neutral power_0)
qed

text \<open>The two anchors of the test benches: an impulse has a flat spectrum, without any rounding error, and a constant
  frame puts everything into bin 0 and exactly nothing anywhere else.\<close>

theorem model_fft_impulse:
  assumes "0 < L" and "\<forall>i<L. bit scale i" and "tw ! 0 = (32767, 0)" and "0 \<le> c" and "2 ^ L * c \<le> 16384" and "k < 2 ^ L"
  shows "model_fft tw L scale back ((2 ^ L * c, 0) # replicate (2 ^ L - 1) (0, 0)) ! k = (c, 0)"
proof -
  let ?f = "\<lambda>(s :: nat) (b :: nat) (t :: nat). if t = 0 then (2 ^ (L - s) * c, 0) else (0, 0 :: int)"
  have "model_fft tw L scale back ((2 ^ L * c, 0) # replicate (2 ^ L - 1) (0, 0)) ! k = ?f L (brev k L) 0"
  proof (rule model_fft_blocks [where f = ?f, OF assms(1)])
    fix s b t :: nat assume s: "s < L" and t: "t < 2 ^ (L - Suc s)"
    let ?c = "2 ^ (L - Suc s) * c"
    have e: "2 ^ (L - s) * c = 2 * ?c" using s by (simp add: Suc_diff_Suc flip: power_Suc mult.assoc)
    have "2 ^ (L - s) * c \<le> 2 ^ L * c" using assms(4) by (intro mult_right_mono power_increasing) simp_all
    then have "2 * ?c \<le> 16384" using assms(5) unfolding e by (rule order_trans)
    then have "butterfly True 32767 0 (2 ^ (L - s) * c, 0) (0, 0) = ((?c, 0), (?c, 0))"
      unfolding e using assms(4) by (intro butterfly_impulse) simp_all
    then show "(?f (Suc s) (2 * b) t, ?f (Suc s) (Suc (2 * b)) t) =
        butterfly (bit scale s) (fst (tw ! (t * (2 ^ s * (NMAX div 2 ^ L))))) (conj_im back (snd (tw ! (t * (2 ^ s * (NMAX div 2 ^ L))))))
          (?f s b t) (?f s b (t + 2 ^ (L - Suc s)))"
      using s assms(2,3) by (cases "t = 0") (simp_all add: butterfly_zero conj_im_def)
  qed (use assms(6) in \<open>auto simp: nth_Cons'\<close>)
  then show ?thesis by simp
qed

lemma brev_0: "brev 0 n = 0"
  by (rule bit_eqI) (simp add: bit_brev)

theorem model_fft_constant:
  assumes "0 < L" and "\<forall>i<L. bit scale i" and "- 32768 \<le> c" and "c \<le> 32767" and "k < 2 ^ L"
  shows "model_fft tw L scale back (replicate (2 ^ L) (c, 0)) ! k = (if k = 0 then (c, 0) else (0, 0))"
proof -
  let ?f = "\<lambda>(s :: nat) (b :: nat) (t :: nat). if b = 0 then (c, 0) else (0, 0 :: int)"
  have "model_fft tw L scale back (replicate (2 ^ L) (c, 0)) ! k = ?f L (brev k L) (0 :: nat)"
    by (rule model_fft_blocks [where f = ?f, OF assms(1)])
      (use assms in \<open>auto simp: butterfly_zero butterfly_equal\<close>)
  moreover have "brev k L = 0 \<longleftrightarrow> k = 0" using brev_eq_iff [OF assms(5), of 0] by (simp add: brev_0)
  ultimately show ?thesis by simp
qed

section \<open>Driver and datapath together\<close>

lemma length_fold_update: "length (fold (\<lambda>k d. d[p k := f k, q k := g k]) ks d) = length d"
  by (induction ks arbitrary: d) simp_all

lemma length_pass [simp]: "length (pass tw L scale back st a b) = length b"
  unfolding pass_def Let_def case_prod_beta by (rule length_fold_update)

lemma length_model_fft [simp]: "length (model_fft tw L scale back buf) = length buf"
proof -
  have "length (fst (fold (two_bufs tw L scale back) sts bs)) = length (fst bs)" for sts bs
    by (induction sts arbitrary: bs) (simp_all add: two_bufs_def)
  then show ?thesis unfolding model_fft_two_bufs by simp
qed

lemma length_fft_words: "length (fft_words tw l back c ws) = length ws"
  by (simp add: fft_words_def)

definition in16 :: "c16 \<Rightarrow> bool" where
  "in16 a \<longleftrightarrow> - 32768 \<le> fst a \<and> fst a < 32768 \<and> - 32768 \<le> snd a \<and> snd a < 32768"

lemma butterfly_in16: "butterfly sc p q a b = (oa, ob) \<Longrightarrow> in16 oa \<and> in16 ob"
  by (auto simp: butterfly_def in16_def sat16_def Let_def)

lemma model_fft_in16:
  assumes "0 < L" and "length x = 2 ^ L" and "\<forall>a \<in> set x. in16 a" and "k < 2 ^ L"
  shows "in16 (model_fft tw L scale back x ! k)"
proof -
  let ?P = "\<lambda>s a. \<forall>b<2 ^ s. \<forall>t<2 ^ (L - s). in16 (a ! (b * 2 ^ (L - s) + t))"
  have "\<exists>v. length v = 2 ^ L \<and> ?P L v \<and> length (model_fft tw L scale back x) = 2 ^ L \<and>
      (\<forall>i<2 ^ L. model_fft tw L scale back x ! brev i L = v ! i)"
  proof (rule model_fft_stages [where P = ?P, OF assms(1,2)])
    show "?P 0 x" using assms(2,3) by simp
    fix s a b assume s: "s < L" and st: "stage tw L scale back s a b"
    show "?P (Suc s) b"
    proof (intro allI impI)
      fix B t :: nat assume B: "B < 2 ^ Suc s" and t: "t < 2 ^ (L - Suc s)"
      let ?h = "2 ^ (L - Suc s) :: nat" and ?q = "B div 2"
      have m: "2 ^ (L - s) = 2 * ?h" using s by (simp add: Suc_diff_Suc flip: power_Suc)
      let ?i = "?q * 2 ^ (L - s) + t"
      have "?q < 2 ^ s" using B by simp
      then have "in16 (b ! ?i) \<and> in16 (b ! (?i + ?h))"
        using st t unfolding stage_def Let_def by (metis butterfly_in16)
      moreover have "B * ?h + t = (if even B then ?i else ?i + ?h)" unfolding m by (rule half_block)
      ultimately show "in16 (b ! (B * ?h + t))" by simp
    qed
  qed
  then obtain v where v: "?P L v" "\<forall>i<2 ^ L. model_fft tw L scale back x ! brev i L = v ! i" by blast
  have "in16 (v ! brev k L)" using v(1) [rule_format, of "brev k L" 0] brev_less [of k L] by simp
  then show ?thesis using v(2) brev_brev [OF assms(4)] brev_less [of k L] by metis
qed

lemma unpack_pack: "in16 a \<Longrightarrow> (s16 (pack (fst a) (snd a)), s16 (drop_bit 16 (pack (fst a) (snd a)))) = a"
  unfolding in16_def using unpack_word [OF low_pack] unpack_word [OF high_pack] by (simp add: prod_eq_iff)

text \<open>The frame a program hands over: the imaginary parts are 0 when it passes a null pointer.\<close>

definition frame :: "int list \<Rightarrow> int list option \<Rightarrow> c16 list" where
  "frame re im = zip re (case im of Some xs \<Rightarrow> xs | None \<Rightarrow> map (\<lambda>_. 0) re)"

text \<open>C17: the blocking transform of the driver, on a coprocessor whose datapath is the bit-exact one, measures the
  spectrum: for every size, direction and frame within full scale it returns, in the order of the frequencies,
  the exact discrete Fourier transform of the samples it was given, each part of each bin to within
  \<open>4 + 2 log2n\<close> units of the last place (the tolerance of the test bench), however the two buffers, the
  rounding, the saturation and the quantised twiddle factors conspire; and it reports failure when the engine
  is slower than the polling bound.\<close>

theorem fft_transform_accurate:
  assumes "busy_for (dev s) = 0" and "0 < log2n_q (dev s)" and "log2n_q (dev s) \<le> 10" and "length (cpu_buf (dev s)) = 1024"
    and "length re = 2 ^ log2n_q (dev s)" and "\<And>xs. im = Some xs \<Longrightarrow> length xs = length re"
    and "\<not> bit (fft_ctrl_shadow s) 0" and "\<forall>i<log2n_q (dev s). bit (scale_q (dev s)) i"
    and "\<forall>a \<in> set (frame re im). (fst a)\<^sup>2 + (snd a)\<^sup>2 \<le> 32767\<^sup>2"
  shows "if lat < FFT_SPIN_LIMIT
     then \<exists>ys. fst (fft_transform (fft_hw (fft_words build_twiddle) lat) re im s) = Some ys \<and> length ys = length re \<and>
       (\<forall>k<length re. let z = ref_dft (frame re im) (length re) (bit (fft_ctrl_shadow s) 2) k in
          \<bar>of_int (fst (ys ! k)) / 32768 - fst z\<bar> * 32768 \<le> 4 + 2 * real (log2n_q (dev s)) \<and>
          \<bar>of_int (snd (ys ! k)) / 32768 - snd z\<bar> * 32768 \<le> 4 + 2 * real (log2n_q (dev s)))
     else fst (fft_transform (fft_hw (fft_words build_twiddle) lat) re im s) = None"
proof -
  let ?L = "log2n_q (dev s)" and ?b = "bit (fft_ctrl_shadow s) 2" and ?f = "frame re im"
  let ?m = "model_fft build_twiddle ?L (scale_q (dev s)) ?b ?f"
  have len: "length ?f = 2 ^ ?L" using assms(5,6) by (auto simp: frame_def split: option.splits)
  have in16: "in16 a" if "a \<in> set ?f" for a
  proof -
    have "(fst a)\<^sup>2 + (snd a)\<^sup>2 \<le> 32767\<^sup>2" using assms(9) that by blast
    then have "(fst a)\<^sup>2 \<le> 32767\<^sup>2" "(snd a)\<^sup>2 \<le> 32767\<^sup>2" using zero_le_power2 [of "fst a"] zero_le_power2 [of "snd a"] by linarith+
    then have "\<bar>fst a\<bar> \<le> 32767" "\<bar>snd a\<bar> \<le> 32767" by (simp_all only: abs_le_square_iff abs_numeral flip: abs_le_square_iff [of _ 32767])
    then show ?thesis by (simp add: in16_def abs_le_iff)
  qed
  have "map unpack (samples re im) = ?f"
  proof -
    have "samples re im = map (\<lambda>a. pack (fst a) (snd a)) ?f"
      by (simp add: samples_def frame_def case_prod_beta' split: option.splits)
    then show ?thesis using in16 unpack_pack by (simp add: unpack_def comp_def map_idI)
  qed
  then have w: "fft_words build_twiddle ?L ?b (scale_q (dev s)) (samples re im) = map (\<lambda>a. pack (fst a) (snd a)) ?m"
    by (simp add: fft_words_def case_prod_beta')
  have "in16 a" if "a \<in> set ?m" for a
    using that model_fft_in16 [OF assms(2) len, of _ build_twiddle "scale_q (dev s)" ?b] in16 len by (auto simp: in_set_conv_nth)
  then have u: "map (\<lambda>w. (s16 w, s16 (drop_bit 16 w))) (map (\<lambda>a. pack (fst a) (snd a)) ?m) = ?m"
    using unpack_pack by (simp add: comp_def map_idI)
  have mw: "map (\<lambda>w. (s16 w, s16 (drop_bit 16 w))) (fft_words build_twiddle ?L ?b (scale_q (dev s)) (samples re im)) = ?m"
    unfolding w by (rule u)
  have r: "fst (fft_transform (fft_hw (fft_words build_twiddle) lat) re im s) = (if lat < FFT_SPIN_LIMIT then Some ?m else None)"
    unfolding mw [symmetric]
    by (rule fft_transform_result) (use assms in \<open>simp_all add: length_fft_words\<close>)
  have "length ?m = length re" using len assms(5) by simp
  then show ?thesis
    unfolding r using model_fft_accuracy [OF assms(2,3) len assms(8) _ assms(9)] assms(5) by (simp add: Let_def)
qed

theorem fft_transform_accurate_witness:
  "\<exists>ys. fst (fft_transform (fft_hw (fft_words build_twiddle) 7) [16384, 0, 0, - 5] (Some [0, - 12000, 0, 1])
       \<lparr>dev = idle_fft, evs = [], ssd1306_addr = 0, ssd1306_fb = [], fft_ctrl_shadow = 0\<rparr>) = Some ys \<and>
     \<bar>of_int (fst (ys ! 3)) / 32768 - fst (ref_dft [(16384, 0), (0, - 12000), (0, 0), (- 5, 1)] 4 False 3)\<bar> * 32768 \<le> 8"
proof -
  let ?s = "\<lparr>dev = idle_fft, evs = [], ssd1306_addr = 0, ssd1306_fb = [], fft_ctrl_shadow = 0\<rparr> :: fft_dev fft"
  let ?re = "[16384, 0, 0, - 5] :: int list" and ?im = "[0, - 12000, 0, 1] :: int list"
  have n: "length ?re = 4" and k: "(3 :: nat) < length ?re" by simp_all
  have L: "log2n_q (dev ?s) = 2" "\<not> bit (fft_ctrl_shadow ?s) 2" "7 < FFT_SPIN_LIMIT" by (simp_all add: idle_fft_def FFT_SPIN_LIMIT_def)
  have f: "frame ?re (Some ?im) = [(16384, 0), (0, - 12000), (0, 0), (- 5, 1)]" by (simp add: frame_def)
  have g: "bit (0x3FF :: u32) i" if "i < 2" for i using that by (auto simp: less_2_cases_iff bit_1_iff)
  have h: "4 + 2 * real 2 = 8" by simp
  note T = fft_transform_accurate [of ?s ?re "Some ?im" 7]
  have "if 7 < FFT_SPIN_LIMIT
     then \<exists>ys. fst (fft_transform (fft_hw (fft_words build_twiddle) 7) ?re (Some ?im) ?s) = Some ys \<and> length ys = length ?re \<and>
       (\<forall>k<length ?re. let z = ref_dft (frame ?re (Some ?im)) (length ?re) (bit (fft_ctrl_shadow ?s) 2) k in
          \<bar>of_int (fst (ys ! k)) / 32768 - fst z\<bar> * 32768 \<le> 4 + 2 * real (log2n_q (dev ?s)) \<and>
          \<bar>of_int (snd (ys ! k)) / 32768 - snd z\<bar> * 32768 \<le> 4 + 2 * real (log2n_q (dev ?s)))
     else fst (fft_transform (fft_hw (fft_words build_twiddle) 7) ?re (Some ?im) ?s) = None"
    by (rule T) (use g in \<open>simp_all add: idle_fft_def frame_def\<close>)
  then obtain ys where ys: "fst (fft_transform (fft_hw (fft_words build_twiddle) 7) ?re (Some ?im) ?s) = Some ys"
    and b: "\<forall>k<length ?re. let z = ref_dft (frame ?re (Some ?im)) (length ?re) (bit (fft_ctrl_shadow ?s) 2) k in
          \<bar>of_int (fst (ys ! k)) / 32768 - fst z\<bar> * 32768 \<le> 4 + 2 * real (log2n_q (dev ?s)) \<and>
          \<bar>of_int (snd (ys ! k)) / 32768 - snd z\<bar> * 32768 \<le> 4 + 2 * real (log2n_q (dev ?s))"
    unfolding if_P [OF L(3)] by blast
  from b [rule_format, OF k] have "\<bar>of_int (fst (ys ! 3)) / 32768 - fst (ref_dft (frame ?re (Some ?im)) (length ?re) False 3)\<bar> * 32768 \<le> 8"
    unfolding L(1) h Let_def using L(2) by (simp only: simp_thms)
  with ys show ?thesis unfolding f n by blast
qed

end
