(* ===== verification/I2s.thy ===== *)
theory I2s
  imports Machine
begin

text \<open>
  \<open>sim/sw/common/i2s.h\<close>: the I2S receiver.  The driver keeps no state of its own.  A sample is the 32-bit
  word that RXDATA holds, already sign-extended by the peripheral.
\<close>

definition I2S_CORE_HZ :: u32 where "I2S_CORE_HZ = 50000000"
definition I2S_ST_RX_EMPTY :: u32 where "I2S_ST_RX_EMPTY = push_bit 0 1"
definition I2S_ST_OVERRUN :: u32 where "I2S_ST_OVERRUN = push_bit 2 1"
definition I2S_ST_RX_CH :: u32 where "I2S_ST_RX_CH = push_bit 3 1"
definition I2S_ST_WS :: u32 where "I2S_ST_WS = push_bit 4 1"
definition I2S_ST_BCLK :: u32 where "I2S_ST_BCLK = push_bit 5 1"
definition I2S_ST_LEVEL_MSK :: u32 where "I2S_ST_LEVEL_MSK = 0x1F"
definition I2S_CTRL_ENABLE :: u32 where "I2S_CTRL_ENABLE = push_bit 0 1"
definition I2S_CTRL_FMT_LJ :: u32 where "I2S_CTRL_FMT_LJ = push_bit 3 1"
definition I2S_CTRL_IE_RX :: u32 where "I2S_CTRL_IE_RX = push_bit 4 1"
definition I2S_CTRL_IE_OVR :: u32 where "I2S_CTRL_IE_OVR = push_bit 5 1"
definition I2S_CTRL_MASTER :: u32 where "I2S_CTRL_MASTER = push_bit 6 1"
definition I2S_IRQ_OVR :: u32 where "I2S_IRQ_OVR = push_bit 1 1"
definition I2S_CHAN_LEFT :: u32 where "I2S_CHAN_LEFT = 1"
definition I2S_WLEN_24 :: u32 where "I2S_WLEN_24 = 1"
definition I2S_FMT_I2S :: u32 where "I2S_FMT_I2S = 0"
definition I2S_CH_LEFT :: int where "I2S_CH_LEFT = 0"
definition I2S_CH_RIGHT :: int where "I2S_CH_RIGHT = 1"

section \<open>Configuration\<close>

definition i2s_begin :: "'d hw \<Rightarrow> u32 \<Rightarrow> u32 \<Rightarrow> u32 \<Rightarrow> ('d, 'z) m \<Rightarrow> ('d, 'z) m" where
  "i2s_begin hw wlen chan fmt s =
     (let (v, s) = rd hw (I2s I2S_CTRL) s;
          master = v AND I2S_CTRL_MASTER
      in wr hw (I2s I2S_CTRL) (I2S_CTRL_ENABLE OR push_bit 1 chan
           OR (if fmt \<noteq> 0 then I2S_CTRL_FMT_LJ else 0) OR push_bit 8 wlen OR master) s)"

text \<open>The rate returned is a quotient, which does not exist when its divisor wraps to zero.\<close>

definition i2s_div :: "u32 \<Rightarrow> u32" where
  "i2s_div per = (if per = 0 \<or> I2S_CORE_HZ div per = 0 then 0 else I2S_CORE_HZ div per - 1)"

definition i2s_master_hz :: "'d hw \<Rightarrow> u32 \<Rightarrow> u32 \<Rightarrow> ('d, 'z) m \<Rightarrow> u32 option \<times> ('d, 'z) m" where
  "i2s_master_hz hw fs_hz slot s =
     (let per = 4 * slot * fs_hz;
          slot = (if slot = 0 then 32 else slot);
          d = i2s_div per;
          s = wr hw (I2s I2S_CLKDIV) (push_bit 16 (slot AND 0xFF) OR (d AND 0xFFFF)) s;
          s = rmw hw (I2s I2S_CTRL) (\<lambda>v. v OR I2S_CTRL_MASTER) s;
          q = 4 * slot * (d + 1)
      in (if q = 0 then None else Some (I2S_CORE_HZ div q), s))"

definition i2s_master_off :: "'d hw \<Rightarrow> ('d, 'z) m \<Rightarrow> ('d, 'z) m" where
  "i2s_master_off hw s = rmw hw (I2s I2S_CTRL) (\<lambda>v. v AND NOT I2S_CTRL_MASTER) s"

definition i2s_end :: "'d hw \<Rightarrow> ('d, 'z) m \<Rightarrow> ('d, 'z) m" where
  "i2s_end hw s = rmw hw (I2s I2S_CTRL) (\<lambda>v. v AND NOT I2S_CTRL_ENABLE) s"

definition i2s_set_watermark :: "'d hw \<Rightarrow> u32 \<Rightarrow> ('d, 'z) m \<Rightarrow> ('d, 'z) m" where
  "i2s_set_watermark hw n s = wr hw (I2s I2S_WATER) n s"

definition i2s_irq_enable :: "'d hw \<Rightarrow> bool \<Rightarrow> bool \<Rightarrow> ('d, 'z) m \<Rightarrow> ('d, 'z) m" where
  "i2s_irq_enable hw rx overrun s =
     (let (v, s) = rd hw (I2s I2S_CTRL) s;
          c = v AND NOT (I2S_CTRL_IE_RX OR I2S_CTRL_IE_OVR);
          c = (if rx then c OR I2S_CTRL_IE_RX else c);
          c = (if overrun then c OR I2S_CTRL_IE_OVR else c)
      in wr hw (I2s I2S_CTRL) c s)"

section \<open>Status\<close>

definition i2s_level :: "'d hw \<Rightarrow> ('d, 'z) m \<Rightarrow> u32 \<times> ('d, 'z) m" where
  "i2s_level hw s = (let (v, s) = rd hw (I2s I2S_STATUS) s in (drop_bit 8 v AND I2S_ST_LEVEL_MSK, s))"

definition i2s_available :: "'d hw \<Rightarrow> ('d, 'z) m \<Rightarrow> bool \<times> ('d, 'z) m" where
  "i2s_available hw s = (let (v, s) = rd hw (I2s I2S_STATUS) s in (v AND I2S_ST_RX_EMPTY = 0, s))"

definition i2s_overrun :: "'d hw \<Rightarrow> ('d, 'z) m \<Rightarrow> bool \<times> ('d, 'z) m" where
  "i2s_overrun hw s = (let (v, s) = rd hw (I2s I2S_STATUS) s in (v AND I2S_ST_OVERRUN \<noteq> 0, s))"

definition i2s_overrun_clear :: "'d hw \<Rightarrow> ('d, 'z) m \<Rightarrow> ('d, 'z) m" where
  "i2s_overrun_clear hw s = wr hw (I2s I2S_IRQ) I2S_IRQ_OVR s"

definition i2s_pin_levels :: "'d hw \<Rightarrow> ('d, 'z) m \<Rightarrow> u32 \<times> ('d, 'z) m" where
  "i2s_pin_levels hw s = (let (v, s) = rd hw (I2s I2S_STATUS) s in (v AND (I2S_ST_WS OR I2S_ST_BCLK), s))"

section \<open>Receiving\<close>

text \<open>\<^const>\<open>None\<close> is the result -1, which stores no sample.\<close>

definition i2s_read :: "'d hw \<Rightarrow> ('d, 'z) m \<Rightarrow> (int \<times> u32) option \<times> ('d, 'z) m" where
  "i2s_read hw s =
     (let (st, s) = rd hw (I2s I2S_STATUS) s
      in if st AND I2S_ST_RX_EMPTY \<noteq> 0 then (None, s)
         else let (w, s) = rd hw (I2s I2S_RXDATA) s
              in (Some (if st AND I2S_ST_RX_CH \<noteq> 0 then I2S_CH_RIGHT else I2S_CH_LEFT, w), s))"

partial_function (option) i2s_read_wait :: "'d hw \<Rightarrow> ('d, 'z) m \<Rightarrow> ((int \<times> u32) \<times> ('d, 'z) m) option" where
  "i2s_read_wait hw s =
     (let (r, s) = i2s_read hw s in case r of None \<Rightarrow> i2s_read_wait hw s | Some cw \<Rightarrow> Some (cw, s))"

partial_function (option) i2s_await_left :: "'d hw \<Rightarrow> ('d, 'z) m \<Rightarrow> (u32 \<times> ('d, 'z) m) option" where
  "i2s_await_left hw s = do {
     ((ch, w), s) \<leftarrow> i2s_read_wait hw s;
     if ch = I2S_CH_LEFT then Some (w, s) else i2s_await_left hw s }"

definition i2s_read_frame :: "'d hw \<Rightarrow> ('d, 'z) m \<Rightarrow> ((u32 \<times> u32) \<times> ('d, 'z) m) option" where
  "i2s_read_frame hw s = do {
     (left, s) \<leftarrow> i2s_await_left hw s;
     ((ch, right), s) \<leftarrow> i2s_read_wait hw s;
     Some ((left, right), s) }"

fun i2s_read_buf :: "'d hw \<Rightarrow> nat \<Rightarrow> ('d, 'z) m \<Rightarrow> (u32 list \<times> ('d, 'z) m) option" where
  "i2s_read_buf hw 0 s = Some ([], s)"
| "i2s_read_buf hw (Suc n) s = do {
     ((ch, w), s) \<leftarrow> i2s_read_wait hw s;
     (ws, s) \<leftarrow> i2s_read_buf hw n s;
     Some (w # ws, s) }"

partial_function (option) i2s_drain :: "'d hw \<Rightarrow> ('d, 'z) m \<Rightarrow> ('d, 'z) m option" where
  "i2s_drain hw s =
     (let (st, s) = rd hw (I2s I2S_STATUS) s
      in if st AND I2S_ST_RX_EMPTY \<noteq> 0 then Some s
         else let (_, s) = rd hw (I2s I2S_RXDATA) s in i2s_drain hw s)"

definition i2s_flush :: "'d hw \<Rightarrow> ('d, 'z) m \<Rightarrow> ('d, 'z) m option" where
  "i2s_flush hw s = do { s \<leftarrow> i2s_drain hw s; Some (i2s_overrun_clear hw s) }"

declare i2s_read_wait.simps [code] i2s_await_left.simps [code] i2s_drain.simps [code]

section \<open>The receiver\<close>

text \<open>
  The FIFO of \<open>axi4_lite_i2s.sv\<close>: sixteen words with their channel.  The words that the wire will bring,
  in order, are the device's future; each access to STATUS lets \<open>rate n\<close> of them arrive, \<open>n\<close> counting the
  accesses, and a word that finds the FIFO full is lost and sets the sticky overrun.
\<close>

record i2s_dev =
  fifo :: "(bool \<times> u32) list"
  wire :: "(bool \<times> u32) list"
  overrun :: bool
  ticks :: nat

definition i2s_arrive :: "i2s_dev \<Rightarrow> i2s_dev" where
  "i2s_arrive d =
     (case wire d of [] \<Rightarrow> d
      | w # ws \<Rightarrow> if length (fifo d) < 16 then d\<lparr>fifo := fifo d @ [w], wire := ws\<rparr>
                  else d\<lparr>wire := ws, overrun := True\<rparr>)"

definition i2s_tick :: "(nat \<Rightarrow> nat) \<Rightarrow> i2s_dev \<Rightarrow> i2s_dev" where
  "i2s_tick rate d = ((i2s_arrive ^^ rate (ticks d)) d)\<lparr>ticks := ticks d + 1\<rparr>"

definition i2s_status_of :: "i2s_dev \<Rightarrow> u32" where
  "i2s_status_of d =
     (if fifo d = [] then I2S_ST_RX_EMPTY else if fst (hd (fifo d)) then I2S_ST_RX_CH else 0)
     OR (if overrun d then I2S_ST_OVERRUN else 0) OR push_bit 8 (of_nat (length (fifo d)))"

fun i2s_reg_rd :: "(nat \<Rightarrow> nat) \<Rightarrow> i2s_reg \<Rightarrow> i2s_dev \<Rightarrow> u32 \<times> i2s_dev" where
  "i2s_reg_rd rate I2S_STATUS d = (let d = i2s_tick rate d in (i2s_status_of d, d))"
| "i2s_reg_rd rate I2S_RXDATA d = (case fifo d of [] \<Rightarrow> (0, d) | w # ws \<Rightarrow> (snd w, d\<lparr>fifo := ws\<rparr>))"
| "i2s_reg_rd rate _ d = (0, d)"

fun i2s_reg_wr :: "i2s_reg \<Rightarrow> u32 \<Rightarrow> i2s_dev \<Rightarrow> i2s_dev" where
  "i2s_reg_wr I2S_IRQ v d = (if v AND I2S_IRQ_OVR \<noteq> 0 then d\<lparr>overrun := False\<rparr> else d)"
| "i2s_reg_wr _ v d = d"

definition i2s_hw :: "(nat \<Rightarrow> nat) \<Rightarrow> i2s_dev hw" where
  "i2s_hw rate = \<lparr>hw_rd = \<lambda>r d. (case r of I2s q \<Rightarrow> i2s_reg_rd rate q d | _ \<Rightarrow> (0, d)),
     hw_wr = \<lambda>r v d. (case r of I2s q \<Rightarrow> i2s_reg_wr q v d | _ \<Rightarrow> d),
     hw_csr_rd = \<lambda>c d. (0, d), hw_csr_op = \<lambda>f c v d. d, hw_wfi = \<lambda>d. d\<rparr>"

lemma one_bit: "bit (push_bit n (1 :: u32)) k \<longleftrightarrow> k = n \<and> n < 32"
  by (auto simp: bit_push_bit_iff bit_1_iff simp del: push_bit_of_1)

lemma test_bit: "v AND push_bit k 1 = 0 \<longleftrightarrow> \<not> bit v k" for v :: u32
  by (simp add: push_bit_eq_mult and_exp_eq_0_iff_not_bit)

lemma status_empty: "i2s_status_of d AND I2S_ST_RX_EMPTY = 0 \<longleftrightarrow> fifo d \<noteq> []"
  unfolding I2S_ST_RX_EMPTY_def test_bit
  by (auto simp: i2s_status_of_def bit_simps I2S_ST_RX_EMPTY_def I2S_ST_RX_CH_def I2S_ST_OVERRUN_def)

lemma status_channel: "fifo d \<noteq> [] \<Longrightarrow> i2s_status_of d AND I2S_ST_RX_CH = 0 \<longleftrightarrow> \<not> fst (hd (fifo d))"
  unfolding I2S_ST_RX_CH_def test_bit
  by (auto simp: i2s_status_of_def bit_simps I2S_ST_RX_EMPTY_def I2S_ST_RX_CH_def I2S_ST_OVERRUN_def)

text \<open>The words still to be read, when none is lost.\<close>

definition pending :: "i2s_dev \<Rightarrow> (bool \<times> u32) list" where
  "pending d = fifo d @ wire d"

definition i2s_channel :: "bool \<Rightarrow> int" where
  "i2s_channel c = (if c then I2S_CH_RIGHT else I2S_CH_LEFT)"

lemma i2s_tick_keeps:
  assumes "rate (ticks d) \<le> 1" and "length (fifo d) < 16"
  shows "pending (i2s_tick rate d) = pending d" and "overrun (i2s_tick rate d) = overrun d"
    and "ticks (i2s_tick rate d) = Suc (ticks d)"
    and "length (fifo (i2s_tick rate d)) \<le> length (fifo d) + rate (ticks d)"
    and "rate (ticks d) = 1 \<Longrightarrow> pending d \<noteq> [] \<Longrightarrow> fifo (i2s_tick rate d) \<noteq> []"
    and "fifo d \<noteq> [] \<Longrightarrow> hd (fifo (i2s_tick rate d)) = hd (fifo d) \<and> fifo (i2s_tick rate d) \<noteq> []"
proof -
  have "rate (ticks d) = 0 \<or> rate (ticks d) = 1" using assms(1) by linarith
  then have t: "i2s_tick rate d = (if rate (ticks d) = 0 then d else i2s_arrive d)\<lparr>ticks := ticks d + 1\<rparr>"
    by (auto simp: i2s_tick_def)
  show "pending (i2s_tick rate d) = pending d" "overrun (i2s_tick rate d) = overrun d"
    "ticks (i2s_tick rate d) = Suc (ticks d)" "length (fifo (i2s_tick rate d)) \<le> length (fifo d) + rate (ticks d)"
    using assms(2) unfolding t by (auto simp: i2s_arrive_def pending_def split: list.splits)
  show "rate (ticks d) = 1 \<Longrightarrow> pending d \<noteq> [] \<Longrightarrow> fifo (i2s_tick rate d) \<noteq> []"
    "fifo d \<noteq> [] \<Longrightarrow> hd (fifo (i2s_tick rate d)) = hd (fifo d) \<and> fifo (i2s_tick rate d) \<noteq> []"
    using assms(2) unfolding t by (auto simp: i2s_arrive_def pending_def split: list.splits)
qed

text \<open>One poll: nothing, or the next word.\<close>

lemma i2s_read_step:
  assumes rate: "\<And>n. rate n \<le> 1" and room: "length (fifo (dev s)) < 16" and pend: "pending (dev s) = (c, w) # ws"
  shows "\<exists>r t. i2s_read (i2s_hw rate) s = (r, t) \<and> overrun (dev t) = overrun (dev s) \<and> mach.more t = mach.more s \<and>
    ticks (dev t) = Suc (ticks (dev s)) \<and>
    (r = None \<and> pending (dev t) = (c, w) # ws \<and> rate (ticks (dev s)) \<noteq> 1 \<and> fifo (dev t) = [] \<or>
     r = Some (i2s_channel c, w) \<and> pending (dev t) = ws \<and>
       Suc (length (fifo (dev t))) \<le> length (fifo (dev s)) + rate (ticks (dev s)))"
proof -
  let ?d = "i2s_tick rate (dev s)"
  note k = i2s_tick_keeps [where rate = rate and d = "dev s", OF rate room]
  have p: "pending ?d = (c, w) # ws" using k(1) pend by simp
  show ?thesis
  proof (cases "fifo ?d")
    case Nil
    then have quiet: "rate (ticks (dev s)) \<noteq> 1" "fifo (dev s) = []" using k(5,6) pend by auto
    have e: "i2s_status_of ?d AND I2S_ST_RX_EMPTY \<noteq> 0" using status_empty [of ?d] Nil by simp
    have read: "i2s_read (i2s_hw rate) s = (None, s\<lparr>dev := ?d, evs := evs s @ [Rd (I2s I2S_STATUS) (i2s_status_of ?d)]\<rparr>)"
      using e by (simp add: i2s_read_def rd_def i2s_hw_def Let_def)
    show ?thesis
      by (intro exI, rule conjI, rule read) (use k(2,3) p Nil quiet(1) in simp)
  next
    case (Cons q qs)
    then have q: "fifo ?d = (c, w) # qs" and ws: "ws = qs @ wire ?d" using p by (auto simp: pending_def)
    have e: "i2s_status_of ?d AND I2S_ST_RX_EMPTY = 0" using status_empty [of ?d] q by simp
    have ch: "i2s_status_of ?d AND I2S_ST_RX_CH = 0 \<longleftrightarrow> \<not> c" using status_channel [of ?d] q by simp
    have read: "i2s_read (i2s_hw rate) s = (Some (i2s_channel c, w),
        s\<lparr>dev := ?d\<lparr>fifo := qs\<rparr>, evs := evs s @ [Rd (I2s I2S_STATUS) (i2s_status_of ?d), Rd (I2s I2S_RXDATA) w]\<rparr>)"
      using e ch q by (simp add: i2s_read_def rd_def i2s_hw_def Let_def i2s_channel_def)
    have len: "Suc (length qs) \<le> length (fifo (dev s)) + rate (ticks (dev s))" using k(4) q by simp
    show ?thesis
      by (intro exI, rule conjI, rule read) (use k(2,3) ws len in \<open>simp add: pending_def\<close>)
  qed
qed

text \<open>Words keep arriving: at most one per poll, and never stopping for good.\<close>

definition steady :: "(nat \<Rightarrow> nat) \<Rightarrow> bool" where
  "steady rate \<longleftrightarrow> (\<forall>n. rate n \<le> 1) \<and> (\<forall>n. \<exists>m \<ge> n. rate m = 1)"

lemma i2s_read_wait_next:
  assumes "steady rate" and room: "length (fifo (dev s)) < 16" and pend: "pending (dev s) = (c, w) # ws"
  shows "\<exists>t. i2s_read_wait (i2s_hw rate) s = Some ((i2s_channel c, w), t) \<and> pending (dev t) = ws \<and>
    overrun (dev t) = overrun (dev s) \<and> length (fifo (dev t)) < 16 \<and> mach.more t = mach.more s \<and>
    (fifo (dev t) = [] \<or> ticks (dev t) = Suc (ticks (dev s)) \<and>
      Suc (length (fifo (dev t))) \<le> length (fifo (dev s)) + rate (ticks (dev s)))"
proof -
  have rate: "rate n \<le> 1" for n using assms(1) by (simp add: steady_def)
  obtain m where "m \<ge> ticks (dev s)" "rate m = 1" using assms(1) unfolding steady_def by blast
  then show ?thesis using room pend
  proof (induction "m - ticks (dev s)" arbitrary: s)
    case (0 s)
    then have r1: "rate (ticks (dev s)) = 1" by simp
    obtain t where t: "i2s_read (i2s_hw rate) s = (Some (i2s_channel c, w), t)" "overrun (dev t) = overrun (dev s)"
      "mach.more t = mach.more s" "pending (dev t) = ws" "ticks (dev t) = Suc (ticks (dev s))"
      "Suc (length (fifo (dev t))) \<le> length (fifo (dev s)) + rate (ticks (dev s))"
      using i2s_read_step [where rate = rate, OF rate 0(4,5)] r1 by auto
    then show ?case using 0(4) r1 by (subst i2s_read_wait.simps) simp
  next
    case (Suc j s)
    obtain r t where rt: "i2s_read (i2s_hw rate) s = (r, t)" "overrun (dev t) = overrun (dev s)"
      "mach.more t = mach.more s" "ticks (dev t) = Suc (ticks (dev s))"
      and alt: "r = None \<and> pending (dev t) = (c, w) # ws \<and> rate (ticks (dev s)) \<noteq> 1 \<and> fifo (dev t) = [] \<or>
        r = Some (i2s_channel c, w) \<and> pending (dev t) = ws \<and>
        Suc (length (fifo (dev t))) \<le> length (fifo (dev s)) + rate (ticks (dev s))"
      using i2s_read_step [where rate = rate, OF rate Suc.prems(3,4)] by blast
    from alt show ?case
    proof (elim disjE conjE)
      assume r: "r = None" "pending (dev t) = (c, w) # ws" "fifo (dev t) = []"
      have j: "j = m - ticks (dev t)" "ticks (dev t) \<le> m" "length (fifo (dev t)) < 16"
        using Suc.hyps(2) Suc.prems(1) rt(4) r(3) by simp_all
      obtain u where u: "i2s_read_wait (i2s_hw rate) t = Some ((i2s_channel c, w), u)" "pending (dev u) = ws"
          "overrun (dev u) = overrun (dev t)" "length (fifo (dev u)) < 16" "mach.more u = mach.more t"
          "fifo (dev u) = [] \<or> ticks (dev u) = Suc (ticks (dev t)) \<and>
             Suc (length (fifo (dev u))) \<le> length (fifo (dev t)) + rate (ticks (dev t))"
        using Suc.hyps(1) [OF j(1,2) Suc.prems(2) j(3) r(2)] by blast
      have "fifo (dev u) = [] \<or> Suc (length (fifo (dev u))) \<le> 1"
        using u(6)
      proof (elim disjE conjE)
        assume "Suc (length (fifo (dev u))) \<le> length (fifo (dev t)) + rate (ticks (dev t))"
        moreover have "length (fifo (dev t)) + rate (ticks (dev t)) \<le> 1" using r(3) rate by simp
        ultimately show ?thesis by linarith
      qed simp
      then have "fifo (dev u) = []" by simp
      then show ?thesis using rt r(1) u by (subst i2s_read_wait.simps) simp
    next
      assume r: "r = Some (i2s_channel c, w)" "pending (dev t) = ws"
        "Suc (length (fifo (dev t))) \<le> length (fifo (dev s)) + rate (ticks (dev s))"
      then have "length (fifo (dev t)) < 16" using Suc.prems(3) rate [of "ticks (dev s)"] by linarith
      then show ?thesis using rt r by (subst i2s_read_wait.simps) simp
    qed
  qed
qed

text \<open>C19: reading a buffer returns, with exactly the next words that arrived or will arrive, in order and with
  none lost or repeated, however the arrivals interleave with the polling, as long as the receiver keeps
  being clocked and the FIFO has not already overflowed.\<close>

theorem i2s_read_buf_lossless:
  assumes "steady rate" and "length (fifo (dev s)) < 16" and "n \<le> length (pending (dev s))"
  shows "\<exists>t. i2s_read_buf (i2s_hw rate) n s = Some (map snd (take n (pending (dev s))), t) \<and>
    pending (dev t) = drop n (pending (dev s)) \<and> overrun (dev t) = overrun (dev s)"
  using assms(2,3)
proof (induction n arbitrary: s)
  case 0
  then show ?case by simp
next
  case (Suc n)
  obtain c w ws where p: "pending (dev s) = (c, w) # ws"
    using Suc.prems(2) by (cases "pending (dev s)") auto
  obtain t where t: "i2s_read_wait (i2s_hw rate) s = Some ((i2s_channel c, w), t)" "pending (dev t) = ws"
    "overrun (dev t) = overrun (dev s)" "length (fifo (dev t)) < 16"
    using i2s_read_wait_next [OF assms(1) Suc.prems(1) p] by blast
  obtain u where "i2s_read_buf (i2s_hw rate) n t = Some (map snd (take n ws), u)"
    "pending (dev u) = drop n ws" "overrun (dev u) = overrun (dev t)"
    using Suc.IH [OF t(4)] Suc.prems(2) p t(2) by auto
  then show ?case using t p by simp
qed

definition example_i2s :: i2s_dev where
  "example_i2s = \<lparr>fifo = [(True, 1)], wire = [(False, 2), (True, 3), (False, 4)], overrun = False, ticks = 0\<rparr>"

lemma steady_alternate: "steady (\<lambda>n. n mod 2)"
  unfolding steady_def
proof (intro conjI allI)
  fix n :: nat
  show "n mod 2 \<le> 1" by presburger
  show "\<exists>m\<ge>n. m mod 2 = 1" by (rule exI [of _ "2 * n + 1"]) simp
qed

theorem i2s_read_buf_lossless_witness:
  "\<exists>t. i2s_read_buf (i2s_hw (\<lambda>n. n mod 2)) 3 \<lparr>dev = example_i2s, evs = []\<rparr> = Some ([1, 2, 3], t)"
  using i2s_read_buf_lossless [OF steady_alternate, of "\<lparr>dev = example_i2s, evs = []\<rparr>" 3]
  by (auto simp: example_i2s_def pending_def)

text \<open>Reading a frame returns a left word and the word that follows it: the words before the first left
  one are dropped and pairing never slips by a channel.\<close>

theorem i2s_read_frame_aligned:
  assumes "steady rate" and "length (fifo (dev s)) < 16"
    and "pending (dev s) = map (Pair True) xs @ (False, l) # (c, r) # ws"
  shows "\<exists>t. i2s_read_frame (i2s_hw rate) s = Some ((l, r), t) \<and> pending (dev t) = ws"
proof -
  have "\<exists>t. i2s_await_left (i2s_hw rate) s = Some (l, t) \<and> pending (dev t) = (c, r) # ws \<and> length (fifo (dev t)) < 16"
    using assms(2,3)
  proof (induction xs arbitrary: s)
    case Nil
    then show ?case
      using i2s_read_wait_next [OF assms(1) Nil(1), of False l "(c, r) # ws"]
      by (subst i2s_await_left.simps) (auto simp: i2s_channel_def)
  next
    case (Cons x xs)
    obtain t where t: "i2s_read_wait (i2s_hw rate) s = Some ((i2s_channel True, x), t)"
      "pending (dev t) = map (Pair True) xs @ (False, l) # (c, r) # ws" "length (fifo (dev t)) < 16"
      using i2s_read_wait_next [OF assms(1) Cons.prems(1), of True x] Cons.prems(2) by auto
    from Cons.IH [OF t(3,2)] show ?case
      using t(1) by (subst i2s_await_left.simps) (simp add: i2s_channel_def I2S_CH_LEFT_def I2S_CH_RIGHT_def)
  qed
  then obtain t where t: "i2s_await_left (i2s_hw rate) s = Some (l, t)" "pending (dev t) = (c, r) # ws"
    "length (fifo (dev t)) < 16" by blast
  then show ?thesis
    using i2s_read_wait_next [OF assms(1) t(3,2)] by (auto simp: i2s_read_frame_def)
qed

theorem i2s_read_frame_aligned_witness:
  "\<exists>t. i2s_read_frame (i2s_hw (\<lambda>n. n mod 2)) \<lparr>dev = example_i2s, evs = []\<rparr> = Some ((2, 3), t)"
  using i2s_read_frame_aligned [OF steady_alternate, of "\<lparr>dev = example_i2s, evs = []\<rparr>" "[1]" 2 True 3 "[(False, 4)]"]
  by (auto simp: example_i2s_def pending_def)

section \<open>The master clock\<close>

text \<open>
  A slot of zero is replaced by 32 only after the divider has been derived from it, so the request is
  ignored: any rate asked for with slot zero gives the fastest clock.
\<close>

lemma i2s_master_slot_zero: "fst (i2s_master_hz hw fs_hz 0 s) = Some 390625"
  by (simp add: i2s_master_hz_def Let_def i2s_div_def I2S_CORE_HZ_def)

text \<open>For a slot length and a rate whose frame fits the core clock and the divider, the call reports the
  rate that the divider it programs really gives: never below the request, and exactly the request when that
  divides the clock.  It writes CLKDIV once, then sets MASTER in the control register.\<close>

theorem i2s_master_hz_rate:
  assumes "0 < unat fs_hz" and "0 < unat slot" and "unat slot < 256"
    and "4 * unat slot * unat fs_hz \<le> 50000000" and "50000000 div (4 * unat slot * unat fs_hz) \<le> 65536"
  shows "\<exists>r d v. fst (i2s_master_hz hw fs_hz slot s) = Some r \<and>
    unat r = 50000000 div (4 * unat slot * (unat d + 1)) \<and> unat fs_hz \<le> unat r \<and>
    (4 * unat slot * unat fs_hz dvd 50000000 \<longrightarrow> r = fs_hz) \<and>
    writes (evs (snd (i2s_master_hz hw fs_hz slot s))) = writes (evs s) @
      [(I2s I2S_CLKDIV, push_bit 16 slot OR d), (I2s I2S_CTRL, v OR I2S_CTRL_MASTER)] \<and> unat d < 65536"
proof -
  define P where "P = 4 * unat slot * unat fs_hz"
  have P: "0 < P" "P \<le> 50000000" "50000000 div P \<le> 65536" "1 \<le> 50000000 div P"
    using assms by (auto simp: P_def Suc_le_eq div_greater_zero_iff)
  have s4: "unat (4 * slot) = 4 * unat slot" using assms(3) by (simp add: unat_word_ariths)
  have per: "unat (4 * slot * fs_hz) = P"
    using assms(4) s4 P_def unat_mult_lem [of "4 * slot" fs_hz, THEN iffD1] by simp
  define d where "d = i2s_div (4 * slot * fs_hz)"
  have core: "unat I2S_CORE_HZ = 50000000" by (simp add: I2S_CORE_HZ_def)
  have q: "unat (I2S_CORE_HZ div (4 * slot * fs_hz)) = 50000000 div P" by (simp add: unat_div per core)
  have d: "unat d = 50000000 div P - 1"
    using P(1,4) q per by (auto simp: d_def i2s_div_def unat_eq_zero unat_sub_if_size simp flip: unat_0_iff)
  define n where "n = 50000000 div P"
  have n: "1 \<le> n" "unat d + 1 = n" "unat d < 65536" using d P(3,4) by (simp_all add: n_def)
  define q where "q = 4 * slot * (d + 1)"
  have le: "unat slot * 4 * n * unat fs_hz \<le> 50000000"
    using P(1) div_times_less_eq_dividend [of 50000000 P] by (simp add: n_def P_def ac_simps)
  have le': "4 * unat slot * n \<le> 50000000"
    using le assms(1) by (metis (no_types, lifting) le_trans mult.commute mult_le_mono2 nat_mult_1_right Suc_leI One_nat_def)
  have "unat (d + 1) = n" using n by (simp add: unat_word_ariths)
  then have uq: "unat q = 4 * unat slot * n"
    using unat_mult_lem [of "4 * slot" "d + 1", THEN iffD1] le' s4 by (simp add: q_def)
  then have qn: "q \<noteq> 0" using assms(2) n(1) by auto
  define r where "r = I2S_CORE_HZ div q"
  have r: "unat r = 50000000 div (4 * unat slot * n)" by (simp add: r_def unat_div uq core)
  have ge: "unat fs_hz \<le> unat r"
    unfolding r using le assms(2) n(1) by (simp add: less_eq_div_iff_mult_less_eq ac_simps)
  have eq: "r = fs_hz" if "P dvd 50000000"
  proof -
    have "n * P = 50000000" using that by (simp add: n_def)
    then have "50000000 = unat fs_hz * (4 * unat slot * n)" by (simp add: P_def ac_simps)
    moreover have "0 < 4 * unat slot * n" using assms(2) n(1) by simp
    ultimately have "unat r = unat fs_hz" unfolding r by (metis nonzero_mult_div_cancel_right less_numeral_extra(3))
    then show ?thesis by (rule word_unat_eq_iff [THEN iffD2])
  qed
  have "slot AND 0xFF = slot" "d AND 0xFFFF = d"
    using assms(3) n(3) by (simp_all add: and_masks unat_take_bit word_unat_eq_iff)
  moreover from this have "push_bit 16 slot AND 0xFF0000 = push_bit 16 slot"
    using push_bit_and [of 16 slot "0xFF"] by simp
  moreover have "slot \<noteq> 0" using assms(2) by auto
  ultimately have "i2s_master_hz hw fs_hz slot s = (Some r, rmw hw (I2s I2S_CTRL) (\<lambda>v. v OR I2S_CTRL_MASTER)
      (wr hw (I2s I2S_CLKDIV) (push_bit 16 slot OR d) s))"
    using qn by (simp add: i2s_master_hz_def Let_def r_def flip: d_def q_def)
  moreover have "unat r = 50000000 div (4 * unat slot * (unat d + 1))" using r n(2) by simp
  ultimately show ?thesis
    using ge eq n(3) unfolding P_def [symmetric] by (intro exI conjI) (auto simp del: mult_Suc_right)
qed

theorem i2s_master_hz_rate_witness:
  "fst (i2s_master_hz hw 1000 25 s) = Some 1000"
  using i2s_master_hz_rate [of 1000 25 hw s] by force

text \<open>Starting a capture sets the word length, the channels and the format and enables the receiver, and
  of the old control value it keeps exactly the MASTER bit: the call does not turn a bus master into a
  listener, and it drops both interrupt enables.\<close>

theorem i2s_begin_keeps_master:
  assumes "unat wlen < 256" and "unat chan < 4" and "rd hw (I2s I2S_CTRL) s = (v, t)"
  shows "\<exists>c. i2s_begin hw wlen chan fmt s = wr hw (I2s I2S_CTRL) c t \<and>
    (\<forall>k. bit c k \<longleftrightarrow> k = 0 \<or> (k = 1 \<or> k = 2) \<and> bit chan (k - 1) \<or> k = 3 \<and> fmt \<noteq> 0 \<or> k = 6 \<and> bit v 6 \<or>
      8 \<le> k \<and> bit wlen (k - 8))"
proof -
  have small: "\<not> bit x k" if "unat x < 2 ^ n" "n \<le> k" for x :: u32 and n k
  proof -
    have "(2 :: nat) ^ n \<le> 2 ^ k" using that(2) by (rule power_increasing) simp
    then have "unat x < 2 ^ k" using that(1) by linarith
    then have "\<not> bit (unat x) k" by (simp add: bit_iff_odd)
    then show ?thesis by (simp add: bit_unsigned_iff)
  qed
  have w: "\<not> bit wlen k" if "8 \<le> k" for k using small [of wlen 8] assms(1) that by simp
  have ch: "\<not> bit chan k" if "2 \<le> k" for k using small [of chan 2] assms(2) that by simp
  define c where "c = I2S_CTRL_ENABLE OR push_bit 1 chan
           OR (if fmt \<noteq> 0 then I2S_CTRL_FMT_LJ else 0) OR push_bit 8 wlen OR (v AND I2S_CTRL_MASTER)"
  have "bit c k \<longleftrightarrow> k = 0 \<or> (k = 1 \<or> k = 2) \<and> bit chan (k - 1) \<or> k = 3 \<and> fmt \<noteq> 0 \<or> k = 6 \<and> bit v 6 \<or>
      8 \<le> k \<and> bit wlen (k - 8)" for k
  proof -
    have "bit (push_bit 1 chan) k \<longleftrightarrow> (k = 1 \<or> k = 2) \<and> bit chan (k - 1)"
    proof -
      consider "k = 0" | "k = 1" | "k = 2" | "3 \<le> k" by linarith
      then show ?thesis
        unfolding bit_push_bit_iff by cases (use ch [of "k - 1"] in simp_all)
    qed
    moreover have "bit (push_bit 8 wlen) k \<longleftrightarrow> 8 \<le> k \<and> bit wlen (k - 8)"
    proof -
      have "k < 16" if "8 \<le> k" "bit wlen (k - 8)" using w [of "k - 8"] that by linarith
      then show ?thesis by (auto simp: bit_push_bit_iff)
    qed
    moreover have "bit (v AND I2S_CTRL_MASTER) k \<longleftrightarrow> k = 6 \<and> bit v 6" "bit I2S_CTRL_ENABLE k \<longleftrightarrow> k = 0"
      "bit (if fmt \<noteq> 0 then I2S_CTRL_FMT_LJ else 0) k \<longleftrightarrow> k = 3 \<and> fmt \<noteq> 0"
      unfolding I2S_CTRL_ENABLE_def I2S_CTRL_FMT_LJ_def I2S_CTRL_MASTER_def bit_and_iff
      by (auto simp only: one_bit if_split bit_0_eq split: if_split)
    ultimately show ?thesis unfolding c_def bit_or_iff by blast
  qed
  moreover have "i2s_begin hw wlen chan fmt s = wr hw (I2s I2S_CTRL) c t"
    using assms(3) by (simp add: i2s_begin_def c_def)
  ultimately show ?thesis by blast
qed

theorem i2s_begin_keeps_master_witness:
  "\<exists>c t. i2s_begin (const_hw (\<lambda>_. 0x51)) 24 3 0 \<lparr>dev = (), evs = []\<rparr> = wr (const_hw (\<lambda>_. 0x51)) (I2s I2S_CTRL) c t \<and>
    bit c 6 \<and> \<not> bit c 4"
proof -
  have "rd (const_hw (\<lambda>_. 0x51)) (I2s I2S_CTRL) \<lparr>dev = (), evs = []\<rparr> =
      (0x51, \<lparr>dev = (), evs = [Rd (I2s I2S_CTRL) 0x51]\<rparr>)"
    by (simp add: rd_const)
  from i2s_begin_keeps_master [OF _ _ this, of 24 3 0] obtain c where
    c: "i2s_begin (const_hw (\<lambda>_. 0x51)) 24 3 0 \<lparr>dev = (), evs = []\<rparr> =
        wr (const_hw (\<lambda>_. 0x51)) (I2s I2S_CTRL) c \<lparr>dev = (), evs = [Rd (I2s I2S_CTRL) 0x51]\<rparr>"
      "\<And>k. bit c k \<longleftrightarrow> k = 0 \<or> (k = 1 \<or> k = 2) \<and> bit (3 :: u32) (k - 1) \<or> k = 3 \<and> (0 :: u32) \<noteq> 0 \<or> k = 6 \<and> bit (0x51 :: u32) 6 \<or>
      8 \<le> k \<and> bit (24 :: u32) (k - 8)"
    by auto
  moreover have "bit (0x51 :: u32) 6" by code_simp
  ultimately show ?thesis by (intro exI [of _ c]) auto
qed

end
