(* ===== verification/Tuner_In.thy ===== *)
theory Tuner_In
  imports Fft I2s Uart
begin

text \<open>
  \<open>sim/sw/guitar_tuner/guitar_tuner.c\<close>, the acquisition: microphone words are decimated by a second-order
  CIC filter, freed of their DC part and kept in a ring, which is copied under a triangular window into the
  FFT coprocessor.  The globals of the input chain are the record \<open>tuner_in\<close>, those of the whole program
  the record \<open>tuner\<close>.
\<close>

definition TUNER_N :: nat where "TUNER_N = 1024"
definition TUNER_DC_SHIFT :: nat where "TUNER_DC_SHIFT = 8"
definition TUNER_DECIM :: nat where "TUNER_DECIM = 8"
definition TUNER_CIC_SHIFT :: nat where "TUNER_CIC_SHIFT = 6"
definition TUNER_IN_SHIFT :: nat where "TUNER_IN_SHIFT = 8"
definition TUNER_FLOOR_ATTACK :: nat where "TUNER_FLOOR_ATTACK = 60"

record tuner_in =
  tuner_raw_min :: int
  tuner_raw_max :: int
  tuner_cic_i1 :: u32
  tuner_cic_i2 :: u32
  tuner_cic_d1 :: u32
  tuner_cic_d2 :: u32
  tuner_cic_phase :: nat
  tuner_dc_x1 :: int
  tuner_dc_y :: int
  tuner_ring :: "int list"
  tuner_ring_pos :: nat
  tuner_ring_count :: u32
  tuner_dirty :: nat

text \<open>The statics as the program starts: zero, but for the window, which starts dirty.\<close>

definition tuner_in_init :: tuner_in where
  "tuner_in_init = \<lparr>tuner_raw_min = 0, tuner_raw_max = 0, tuner_cic_i1 = 0, tuner_cic_i2 = 0, tuner_cic_d1 = 0,
     tuner_cic_d2 = 0, tuner_cic_phase = 0, tuner_dc_x1 = 0, tuner_dc_y = 0, tuner_ring = replicate TUNER_N 0,
     tuner_ring_pos = 0, tuner_ring_count = 0, tuner_dirty = TUNER_N\<rparr>"

record 'd tuner = "'d fft" +
  inp :: tuner_in
  tuner_frame_ovr :: bool
  tuner_ovr_count :: u32
  tuner_mag :: "nat list"
  tuner_floor :: nat
  tuner_page_hash :: "u16 list"
  tuner_page_primed :: bool

text \<open>The statics of the program before \<open>main\<close>, around a device.\<close>

definition tuner_statics :: "'d \<Rightarrow> 'd tuner" where
  "tuner_statics d = \<lparr>dev = d, evs = [], ssd1306_addr = 0x3C, ssd1306_fb = replicate 1024 0, fft_ctrl_shadow = 0,
     inp = tuner_in_init, tuner_frame_ovr = False, tuner_ovr_count = 0, tuner_mag = replicate (TUNER_N div 2) 0,
     tuner_floor = TUNER_FLOOR_ATTACK, tuner_page_hash = replicate 8 0, tuner_page_primed = False\<rparr>"

section \<open>One input sample\<close>

text \<open>
  The body of \<open>tuner_push_input\<close> in the order the code has it: the raw swing (board build only), the
  integrators, the decimator's early return, the combs, the DC blocker, the ring.  The decimation factor and
  the shift that undoes its gain are constants on the board and variables of the self-check.
\<close>

definition raw_swing :: "int \<Rightarrow> tuner_in \<Rightarrow> tuner_in" where
  "raw_swing x c =
     (let c = (if x < tuner_raw_min c then c\<lparr>tuner_raw_min := x\<rparr> else c)
      in if x > tuner_raw_max c then c\<lparr>tuner_raw_max := x\<rparr> else c)"

definition integrate :: "int \<Rightarrow> tuner_in \<Rightarrow> tuner_in" where
  "integrate x c =
     (let i1 = tuner_cic_i1 c + word_of_int x
      in c\<lparr>tuner_cic_i1 := i1, tuner_cic_i2 := tuner_cic_i2 c + i1\<rparr>)"

definition comb :: "nat \<Rightarrow> tuner_in \<Rightarrow> int \<times> tuner_in" where
  "comb shift c =
     (let c1 = tuner_cic_i2 c - tuner_cic_d1 c;
          c2 = c1 - tuner_cic_d2 c
      in (sint c2 div 2 ^ shift, c\<lparr>tuner_cic_d1 := tuner_cic_i2 c, tuner_cic_d2 := c1\<rparr>))"

definition dc_step :: "int \<Rightarrow> int \<Rightarrow> int \<Rightarrow> int" where
  "dc_step x1 y s = y + (s - x1) - y div 2 ^ TUNER_DC_SHIFT"

definition clip16 :: "int \<Rightarrow> int" where
  "clip16 y = (if y > 32767 then 32767 else if y < -32768 then -32768 else y)"

definition ring_put :: "int \<Rightarrow> tuner_in \<Rightarrow> tuner_in" where
  "ring_put y c =
     c\<lparr>tuner_ring := (tuner_ring c)[tuner_ring_pos c := y],
       tuner_ring_pos := (tuner_ring_pos c + 1) mod TUNER_N,
       tuner_ring_count := tuner_ring_count c + 1,
       tuner_dirty := (if tuner_dirty c \<noteq> 0 then tuner_dirty c - 1 else tuner_dirty c)\<rparr>"

definition dc_block :: "int \<Rightarrow> tuner_in \<Rightarrow> tuner_in" where
  "dc_block s c =
     (let y = dc_step (tuner_dc_x1 c) (tuner_dc_y c) s
      in ring_put (clip16 y) (c\<lparr>tuner_dc_x1 := s, tuner_dc_y := y\<rparr>))"

definition push_chain :: "nat \<Rightarrow> nat \<Rightarrow> int \<Rightarrow> tuner_in \<Rightarrow> tuner_in" where
  "push_chain decim shift x c =
     (let c = integrate x c;
          c = c\<lparr>tuner_cic_phase := tuner_cic_phase c + 1\<rparr>
      in if tuner_cic_phase c < decim then c
         else let (s, c) = comb shift (c\<lparr>tuner_cic_phase := 0\<rparr>) in dc_block s c)"

definition tuner_push_input :: "int \<Rightarrow> tuner_in \<Rightarrow> tuner_in" where
  "tuner_push_input x c = push_chain TUNER_DECIM TUNER_CIC_SHIFT x (raw_swing x c)"

section \<open>Draining and pumping the receiver\<close>

text \<open>\<open>s >> TUNER_IN_SHIFT\<close> of a received word, and the push of one.\<close>

definition mic_in :: "u32 \<Rightarrow> int" where
  "mic_in w = sint w div 2 ^ TUNER_IN_SHIFT"

definition push_word :: "u32 \<Rightarrow> ('d, 'z) tuner_scheme \<Rightarrow> ('d, 'z) tuner_scheme" where
  "push_word w s = s\<lparr>inp := tuner_push_input (mic_in w) (inp s)\<rparr>"

text \<open>What both loops do when the receiver reports an overrun.\<close>

definition note_overrun :: "'d hw \<Rightarrow> ('d, 'z) tuner_scheme \<Rightarrow> ('d, 'z) tuner_scheme" where
  "note_overrun hw s =
     (let (o', s) = i2s_overrun hw s
      in if o' then (i2s_overrun_clear hw s)
           \<lparr>inp := (inp s)\<lparr>tuner_dirty := TUNER_N\<rparr>, tuner_frame_ovr := True,
            tuner_ovr_count := tuner_ovr_count s + 1\<rparr>
         else s)"

text \<open>
  The local \<open>s\<close> of the drain keeps its last value when a read fails; before the first read it has none, and
  pushing it then is undefined.
\<close>

partial_function (option) drain_loop ::
  "'d hw \<Rightarrow> u32 option \<Rightarrow> ('d, 'z) tuner_scheme \<Rightarrow> ('d, 'z) tuner_scheme option" where
  "drain_loop hw w s =
     (let (a, s) = i2s_available hw s
      in if \<not> a then Some s
         else let (r, s) = i2s_read hw s;
                  w = (case r of None \<Rightarrow> w | Some (ch, v) \<Rightarrow> Some v)
              in case w of None \<Rightarrow> None | Some v \<Rightarrow> drain_loop hw w (push_word v s))"

definition tuner_drain :: "'d hw \<Rightarrow> ('d, 'z) tuner_scheme \<Rightarrow> ('d, 'z) tuner_scheme option" where
  "tuner_drain hw s = do { s \<leftarrow> drain_loop hw None s; Some (note_overrun hw s) }"

partial_function (option) pump_loop ::
  "'d hw \<Rightarrow> u32 \<Rightarrow> ('d, 'z) tuner_scheme \<Rightarrow> ('d, 'z) tuner_scheme option" where
  "pump_loop hw target s =
     (if tuner_ring_count (inp s) < target then do {
        ((ch, w), s) \<leftarrow> i2s_read_wait hw s;
        pump_loop hw target (note_overrun hw (push_word w s)) }
      else Some s)"

definition tuner_pump :: "'d hw \<Rightarrow> u32 \<Rightarrow> ('d, 'z) tuner_scheme \<Rightarrow> ('d, 'z) tuner_scheme option" where
  "tuner_pump hw n s = pump_loop hw (tuner_ring_count (inp s) + n) s"

section \<open>Filling the coprocessor\<close>

text \<open>The rising and the falling half of the window, each a loop of \<open>n\<close> steps that carries index and slope.\<close>

fun fill_rise :: "'d hw \<Rightarrow> int list \<Rightarrow> nat \<Rightarrow> nat \<Rightarrow> nat \<Rightarrow> int \<Rightarrow> ('d, 'z) m \<Rightarrow> nat \<times> ('d, 'z) m" where
  "fill_rise hw xs 0 i r w s = (r, s)"
| "fill_rise hw xs (Suc n) i r w s =
     fill_rise hw xs n (i + 1) ((r + 1) mod TUNER_N) (w + 64) (fft_write_real hw i ((xs ! r * w) div 2 ^ 15) s)"

fun fill_fall :: "'d hw \<Rightarrow> int list \<Rightarrow> nat \<Rightarrow> nat \<Rightarrow> nat \<Rightarrow> int \<Rightarrow> ('d, 'z) m \<Rightarrow> ('d, 'z) m" where
  "fill_fall hw xs 0 i r w s = s"
| "fill_fall hw xs (Suc n) i r w s =
     fill_fall hw xs n (i + 1) ((r + 1) mod TUNER_N) (w - 64)
       (fft_write_real hw i ((xs ! r * (if w > 32767 then 32767 else w)) div 2 ^ 15) s)"

definition tuner_fill_fft :: "'d hw \<Rightarrow> ('d, 'z) tuner_scheme \<Rightarrow> ('d, 'z) tuner_scheme" where
  "tuner_fill_fft hw s =
     (let xs = tuner_ring (inp s);
          (r, s) = fill_rise hw xs (TUNER_N div 2) 0 (tuner_ring_pos (inp s)) 0 s
      in fill_fall hw xs (TUNER_N div 2) (TUNER_N div 2) r (32768 - 64) s)"

declare drain_loop.simps [code] pump_loop.simps [code]

section \<open>The decimator\<close>

text \<open>The integrators after \<open>n\<close> samples of a stream, as wrapping sums.\<close>

definition acc1 :: "(nat \<Rightarrow> int) \<Rightarrow> nat \<Rightarrow> u32" where
  "acc1 x n = (\<Sum>i<n. word_of_int (x i))"

definition acc2 :: "(nat \<Rightarrow> int) \<Rightarrow> nat \<Rightarrow> u32" where
  "acc2 x n = (\<Sum>i<n. acc1 x (Suc i))"

text \<open>The first comb after block \<open>k\<close>, and the value the decimator puts out then.\<close>

definition comb1 :: "(nat \<Rightarrow> int) \<Rightarrow> nat \<Rightarrow> nat \<Rightarrow> u32" where
  "comb1 x R k = (if k = 0 then 0 else acc2 x (k * R) - acc2 x ((k - 1) * R))"

definition cic_out :: "(nat \<Rightarrow> int) \<Rightarrow> nat \<Rightarrow> nat \<Rightarrow> nat \<Rightarrow> int" where
  "cic_out x R sh k = (if k = 0 then 0 else sint (comb1 x R k - comb1 x R (k - 1)) div 2 ^ sh)"

lemma acc_Suc: "acc1 x (Suc n) = acc1 x n + word_of_int (x n)" "acc2 x (Suc n) = acc2 x n + acc1 x (Suc n)"
  by (simp_all add: acc1_def acc2_def)

lemma ring_put_filter [simp]:
  "tuner_cic_i1 (ring_put y c) = tuner_cic_i1 c" "tuner_cic_i2 (ring_put y c) = tuner_cic_i2 c"
  "tuner_cic_d1 (ring_put y c) = tuner_cic_d1 c" "tuner_cic_d2 (ring_put y c) = tuner_cic_d2 c"
  "tuner_cic_phase (ring_put y c) = tuner_cic_phase c" "tuner_dc_x1 (ring_put y c) = tuner_dc_x1 c"
  "tuner_dc_y (ring_put y c) = tuner_dc_y c"
  by (simp_all add: ring_put_def)

definition filter_state :: "(nat \<Rightarrow> int) \<Rightarrow> nat \<Rightarrow> nat \<Rightarrow> nat \<Rightarrow> tuner_in \<Rightarrow> bool" where
  "filter_state x R sh n c \<longleftrightarrow> tuner_cic_i1 c = acc1 x n \<and> tuner_cic_i2 c = acc2 x n \<and>
     tuner_cic_phase c = n mod R \<and> tuner_cic_d1 c = acc2 x (n div R * R) \<and>
     tuner_cic_d2 c = comb1 x R (n div R) \<and> tuner_dc_x1 c = cic_out x R sh (n div R)"

lemma filter_state_init: "filter_state x R sh 0 tuner_in_init"
  by (simp add: filter_state_def tuner_in_init_def acc1_def acc2_def comb1_def cic_out_def)

lemma filter_state_step:
  assumes R: "0 < R" and c: "filter_state x R sh n c"
  shows "filter_state x R sh (Suc n) (push_chain R sh (x n) c)"
proof (cases "n mod R + 1 < R")
  case True
  then have "Suc n mod R = Suc (n mod R)" "Suc n div R = n div R"
    by (simp_all add: mod_Suc div_Suc)
  then show ?thesis
    using True c
    by (simp add: filter_state_def push_chain_def integrate_def Let_def acc_Suc)
next
  case False
  then have r: "Suc (n mod R) = R" using mod_less_divisor [OF R, of n] by simp
  then have q: "Suc n mod R = 0" "Suc n div R = Suc (n div R)"
    by (simp_all add: mod_Suc div_Suc)
  have n: "Suc n = Suc (n div R) * R" using q div_mult_mod_eq [of "Suc n" R] by simp
  have "comb1 x R (Suc (n div R)) = acc2 x (Suc n) - acc2 x (n div R * R)"
    using n by (simp add: comb1_def)
  moreover have "cic_out x R sh (Suc (n div R)) = sint (comb1 x R (Suc (n div R)) - comb1 x R (n div R)) div 2 ^ sh"
    by (simp add: cic_out_def)
  ultimately show ?thesis
    using False c unfolding filter_state_def q n [symmetric]
    by (simp add: push_chain_def integrate_def comb_def dc_block_def Let_def acc_Suc)
qed

lemma filter_state_stream:
  "0 < R \<Longrightarrow> filter_state x R sh n (fold (push_chain R sh) (map x [0..<n]) tuner_in_init)"
  by (induction n) (simp_all add: filter_state_init filter_state_step)

text \<open>The stream preceded by \<open>R\<close> zeros, which is what the combs see before the first block.\<close>

definition delayed :: "nat \<Rightarrow> (nat \<Rightarrow> int) \<Rightarrow> nat \<Rightarrow> int" where
  "delayed R x n = (if n < R then 0 else x (n - R))"

lemma acc1_delayed: "acc1 (delayed R x) (n + R) = acc1 x n"
proof (induction n)
  case 0
  show ?case unfolding acc1_def by (simp add: delayed_def)
next
  case (Suc n)
  then show ?case by (simp add: acc_Suc delayed_def)
qed

lemma acc1_window: "acc1 x (m + R) - acc1 x m = (\<Sum>i<R. word_of_int (x (m + i)))"
  by (induction R) (simp_all add: acc_Suc algebra_simps)

lemma acc2_window: "acc2 x (m + R) - acc2 x m = (\<Sum>j<R. acc1 x (Suc (m + j)))"
  by (induction R) (simp_all add: acc_Suc(2) algebra_simps)

lemma comb_window:
  "comb1 x R (Suc k) - comb1 x R k = (\<Sum>j<R. \<Sum>i<R. word_of_int (delayed R x (k * R + 1 + j + i)))"
proof -
  have a: "comb1 x R (Suc k) = (\<Sum>j<R. acc1 (delayed R x) (Suc (k * R + j) + R))"
    using acc2_window [of x "k * R" R] unfolding acc1_delayed by (simp add: comb1_def add.commute)
  have b: "comb1 x R k = (\<Sum>j<R. acc1 (delayed R x) (Suc (k * R + j)))"
  proof (cases k)
    case 0
    have "acc1 (delayed R x) (Suc j) = 0" if "j < R" for j
      using that unfolding acc1_def by (intro sum.neutral) (simp add: delayed_def)
    then show ?thesis by (simp add: comb1_def 0)
  next
    case (Suc l)
    have "acc1 x (Suc (l * R + j)) = acc1 (delayed R x) (Suc (k * R + j))" for j
      using acc1_delayed [of R x "Suc (l * R + j)"] by (simp add: Suc ac_simps)
    then show ?thesis
      using acc2_window [of x "l * R" R] by (simp add: comb1_def Suc add.commute)
  qed
  show ?thesis
    unfolding a b sum_subtractf [symmetric] acc1_window by (simp add: ac_simps)
qed

lemma sint_of_int_u32: "- (2 ^ 31) \<le> k \<Longrightarrow> k < 2 ^ 31 \<Longrightarrow> sint (word_of_int k :: u32) = k"
  by (simp add: int_word_sint mod_pos_pos_trivial)

lemma delayed_bound: "\<forall>i. lo \<le> x i \<and> x i \<le> hi \<Longrightarrow> lo \<le> 0 \<Longrightarrow> 0 \<le> hi \<Longrightarrow> lo \<le> delayed R x n \<and> delayed R x n \<le> hi"
  by (simp add: delayed_def)

lemma double_sum_bounds:
  fixes f :: "nat \<Rightarrow> nat \<Rightarrow> int"
  assumes "\<And>j i. lo \<le> f j i \<and> f j i \<le> hi"
  shows "int (R * R) * lo \<le> (\<Sum>j<R. \<Sum>i<R. f j i)" and "(\<Sum>j<R. \<Sum>i<R. f j i) \<le> int (R * R) * hi"
proof -
  have "(\<Sum>j<R. \<Sum>i<R. lo) \<le> (\<Sum>j<R. \<Sum>i<R. f j i)" "(\<Sum>j<R. \<Sum>i<R. f j i) \<le> (\<Sum>j<R. \<Sum>i<R. hi)"
    using assms by (intro sum_mono; blast)+
  then show "int (R * R) * lo \<le> (\<Sum>j<R. \<Sum>i<R. f j i)" "(\<Sum>j<R. \<Sum>i<R. f j i) \<le> int (R * R) * hi"
    by (simp_all add: mult.assoc)
qed

definition tent :: "nat \<Rightarrow> (nat \<Rightarrow> int) \<Rightarrow> nat \<Rightarrow> int" where
  "tent R x k = (\<Sum>j<R. \<Sum>i<R. delayed R x (k * R + 1 + j + i))"

lemma cic_out_tent:
  assumes x: "\<forall>i. lo \<le> x i \<and> x i \<le> hi" "lo \<le> 0" "0 \<le> hi"
    and R: "- (2 ^ 31) \<le> int (R * R) * lo" "int (R * R) * hi < 2 ^ 31"
  shows "cic_out x R sh (Suc k) = tent R x k div 2 ^ sh"
proof -
  have "comb1 x R (Suc k) - comb1 x R k = word_of_int (tent R x k)"
    by (simp add: comb_window tent_def)
  moreover have "- (2 ^ 31) \<le> tent R x k" "tent R x k < 2 ^ 31"
    using double_sum_bounds [where R = R and f = "\<lambda>j i. delayed R x (k * R + 1 + j + i)", OF delayed_bound [OF x]] R
    unfolding tent_def by linarith+
  ultimately show ?thesis by (simp add: cic_out_def sint_of_int_u32)
qed

text \<open>The board's push is the same chain: the raw swing is kept apart from it.\<close>

lemma raw_swing_apart: "\<exists>a b. raw_swing x c = c\<lparr>tuner_raw_min := a, tuner_raw_max := b\<rparr>"
  by (cases c) (auto simp: raw_swing_def Let_def)

lemma push_chain_raw:
  "push_chain R sh x (c\<lparr>tuner_raw_min := a, tuner_raw_max := b\<rparr>) =
   (push_chain R sh x c)\<lparr>tuner_raw_min := a, tuner_raw_max := b\<rparr>"
  by (simp add: push_chain_def integrate_def comb_def dc_block_def ring_put_def Let_def)

lemma tuner_push_input_chain:
  "\<exists>a b. tuner_push_input x c = (push_chain TUNER_DECIM TUNER_CIC_SHIFT x c)\<lparr>tuner_raw_min := a, tuner_raw_max := b\<rparr>"
proof -
  obtain a b where "raw_swing x c = c\<lparr>tuner_raw_min := a, tuner_raw_max := b\<rparr>" using raw_swing_apart by blast
  then show ?thesis unfolding tuner_push_input_def push_chain_raw [symmetric] by metis
qed

lemma tuner_push_inputs_chain:
  "\<exists>a b. fold tuner_push_input xs c =
     (fold (push_chain TUNER_DECIM TUNER_CIC_SHIFT) xs c)\<lparr>tuner_raw_min := a, tuner_raw_max := b\<rparr>"
proof (induction xs arbitrary: c)
  case Nil
  show ?case by (rule exI [of _ "tuner_raw_min c"], rule exI [of _ "tuner_raw_max c"]) simp
next
  case (Cons x xs)
  obtain a b where p: "tuner_push_input x c = (push_chain TUNER_DECIM TUNER_CIC_SHIFT x c)\<lparr>tuner_raw_min := a, tuner_raw_max := b\<rparr>"
    using tuner_push_input_chain by blast
  have comm: "fold (push_chain TUNER_DECIM TUNER_CIC_SHIFT) ys (d\<lparr>tuner_raw_min := a, tuner_raw_max := b\<rparr>) =
      (fold (push_chain TUNER_DECIM TUNER_CIC_SHIFT) ys d)\<lparr>tuner_raw_min := a, tuner_raw_max := b\<rparr>" for ys d
    by (induction ys arbitrary: d) (simp_all add: push_chain_raw)
  obtain a' b' where "fold tuner_push_input xs (tuner_push_input x c) =
      (fold (push_chain TUNER_DECIM TUNER_CIC_SHIFT) xs (push_chain TUNER_DECIM TUNER_CIC_SHIFT x c))
        \<lparr>tuner_raw_min := a', tuner_raw_max := b'\<rparr>"
    using Cons.IH [of "tuner_push_input x c"] unfolding p comm by force
  then show ?case by auto
qed

lemma board_filter_state:
  "filter_state x TUNER_DECIM TUNER_CIC_SHIFT n (fold tuner_push_input (map x [0..<n]) tuner_in_init)"
proof -
  have "filter_state x TUNER_DECIM TUNER_CIC_SHIFT n (c\<lparr>tuner_raw_min := a, tuner_raw_max := b\<rparr>) \<longleftrightarrow>
      filter_state x TUNER_DECIM TUNER_CIC_SHIFT n c" for c a b
    by (simp add: filter_state_def)
  moreover have "0 < TUNER_DECIM" by (simp add: TUNER_DECIM_def)
  ultimately show ?thesis
    using tuner_push_inputs_chain [of "map x [0..<n]" tuner_in_init] filter_state_stream [of TUNER_DECIM x TUNER_CIC_SHIFT n]
    by metis
qed

text \<open>C20: the decimator is exact.  However often its integrators wrap around, for a stream of 16-bit samples
  the value it hands on after every eighth sample is the floor of the triangularly weighted average of the
  last fifteen, which is what a second-order CIC filter of rate eight is.\<close>

theorem tuner_decimator_exact:
  assumes "\<forall>i. -32768 \<le> x i \<and> x i \<le> 32767"
  shows "tuner_dc_x1 (fold tuner_push_input (map x [0..<(k + 1) * 8]) tuner_in_init) =
    (\<Sum>j<8. \<Sum>i<8. delayed 8 x (k * 8 + 1 + j + i)) div 64"
proof -
  have "cic_out x 8 6 (Suc k) = tent 8 x k div 2 ^ 6"
    by (rule cic_out_tent [OF assms]) simp_all
  then show ?thesis
    using board_filter_state [of x "(k + 1) * 8"]
    by (simp add: filter_state_def TUNER_DECIM_def TUNER_CIC_SHIFT_def tent_def)
qed

theorem tuner_decimator_exact_witness:
  "tuner_dc_x1 (fold tuner_push_input (map (\<lambda>_. 1000) [0..<24]) tuner_in_init) = 1000"
proof -
  have "(\<Sum>j<8. \<Sum>i<8. delayed 8 (\<lambda>_. 1000) (2 * 8 + 1 + j + i)) = (64000 :: int)"
    by (simp add: delayed_def)
  then show ?thesis using tuner_decimator_exact [of "\<lambda>_. 1000" 2] by simp
qed

section \<open>Ranges\<close>

text \<open>
  What keeps every C \<open>int\<close> and index of the chain inside its type: the DC blocker's state stays within a
  band around its input, because each step takes off a 256th of it.
\<close>

definition in_range :: "tuner_in \<Rightarrow> bool" where
  "in_range c \<longleftrightarrow> -32768 \<le> tuner_dc_x1 c \<and> tuner_dc_x1 c \<le> 32767 \<and>
     -32768 \<le> tuner_dc_y c - tuner_dc_x1 c \<and> tuner_dc_y c - tuner_dc_x1 c \<le> 33023 \<and>
     length (tuner_ring c) = TUNER_N \<and> tuner_ring_pos c < TUNER_N \<and> tuner_dirty c \<le> TUNER_N \<and>
     (\<forall>y \<in> set (tuner_ring c). -32768 \<le> y \<and> y \<le> 32767)"

lemma dc_step_band:
  fixes x1 y s :: int
  assumes "-32768 \<le> x1" and "x1 \<le> 32767" and "-32768 \<le> y - x1" and "y - x1 \<le> 33023"
  shows "-32768 \<le> dc_step x1 y s - s" and "dc_step x1 y s - s \<le> 33023"
proof -
  have "y = 256 * (y div 256) + y mod 256" "0 \<le> y mod 256" "y mod 256 < 256" by simp_all
  then show "-32768 \<le> dc_step x1 y s - s" "dc_step x1 y s - s \<le> 33023"
    using assms by (simp_all add: dc_step_def TUNER_DC_SHIFT_def)
qed

lemma clip16_range: "-32768 \<le> clip16 y \<and> clip16 y \<le> 32767"
  by (simp add: clip16_def)

lemma in_range_push:
  assumes c: "in_range c" and x1: "-32768 \<le> tuner_dc_x1 (push_chain R sh x c)" "tuner_dc_x1 (push_chain R sh x c) \<le> 32767"
  shows "in_range (push_chain R sh x c)"
proof (cases "tuner_cic_phase c + 1 < R")
  case True
  then show ?thesis using c by (simp add: in_range_def push_chain_def integrate_def Let_def)
next
  case False
  define s where "s = fst (comb sh (integrate x c\<lparr>tuner_cic_phase := 0\<rparr>))"
  define y where "y = dc_step (tuner_dc_x1 c) (tuner_dc_y c) s"
  have keep: "tuner_dc_x1 (push_chain R sh x c) = s" "tuner_dc_y (push_chain R sh x c) = y"
    "tuner_ring (push_chain R sh x c) = (tuner_ring c)[tuner_ring_pos c := clip16 y]"
    "tuner_ring_pos (push_chain R sh x c) = (tuner_ring_pos c + 1) mod TUNER_N"
    "tuner_dirty (push_chain R sh x c) = tuner_dirty c - 1"
    using False by (simp_all add: push_chain_def integrate_def comb_def dc_block_def ring_put_def Let_def s_def y_def)
  have "-32768 \<le> y - s" "y - s \<le> 33023"
    using dc_step_band [of "tuner_dc_x1 c" "tuner_dc_y c" s] c by (simp_all add: in_range_def y_def)
  then show ?thesis
    using c x1 clip16_range [of y] unfolding in_range_def keep
    by (auto simp: TUNER_N_def dest: set_update_subset_insert [THEN subsetD])
qed

lemma cic_out_range:
  assumes "\<forall>i. -32768 \<le> x i \<and> x i \<le> 32767"
  shows "-32768 \<le> cic_out x TUNER_DECIM TUNER_CIC_SHIFT q \<and> cic_out x TUNER_DECIM TUNER_CIC_SHIFT q \<le> 32767"
proof (cases q)
  case 0
  then show ?thesis by (simp add: cic_out_def)
next
  case (Suc k)
  have b: "-32768 \<le> delayed 8 x n \<and> delayed 8 x n \<le> 32767" for n
    by (rule delayed_bound [OF assms]) simp_all
  have "cic_out x 8 6 (Suc k) = tent 8 x k div 2 ^ 6" by (rule cic_out_tent [OF assms]) simp_all
  moreover have "64 * (-32768) \<le> tent 8 x k" "tent 8 x k \<le> 64 * 32767"
    using double_sum_bounds [where R = 8 and f = "\<lambda>j i. delayed 8 x (k * 8 + 1 + j + i)", OF b]
    by (simp_all add: tent_def)
  moreover have "-32768 \<le> t div 64 \<and> t div 64 \<le> 32767" if "64 * (-32768) \<le> t" "t \<le> 64 * 32767" for t :: int
    using that by presburger
  ultimately show ?thesis by (simp add: Suc TUNER_DECIM_def TUNER_CIC_SHIFT_def)
qed

text \<open>On every stream of 16-bit samples, after any number of them, every C \<open>int\<close> of the input chain is
  in range: the DC blocker's state within 66,000 of zero, its input and the ring's samples 16-bit values,
  the write index inside the ring, which keeps its length.\<close>

theorem tuner_chain_in_range:
  assumes "\<forall>i. -32768 \<le> x i \<and> x i \<le> 32767"
  shows "in_range (fold tuner_push_input (map x [0..<n]) tuner_in_init)"
proof (induction n)
  case 0
  show ?case by (simp add: in_range_def tuner_in_init_def TUNER_N_def)
next
  case (Suc n)
  define c where "c = fold tuner_push_input (map x [0..<n]) tuner_in_init"
  have swing: "in_range (d\<lparr>tuner_raw_min := a, tuner_raw_max := b\<rparr>) \<longleftrightarrow> in_range d" for d a b
    by (simp add: in_range_def)
  obtain a b where p: "tuner_push_input (x n) c = (push_chain TUNER_DECIM TUNER_CIC_SHIFT (x n) c)\<lparr>tuner_raw_min := a, tuner_raw_max := b\<rparr>"
    using tuner_push_input_chain by blast
  have "tuner_dc_x1 (tuner_push_input (x n) c) = cic_out x TUNER_DECIM TUNER_CIC_SHIFT (Suc n div TUNER_DECIM)"
    using board_filter_state [of x "Suc n"] by (simp add: filter_state_def c_def)
  then have "in_range (push_chain TUNER_DECIM TUNER_CIC_SHIFT (x n) c)"
    using Suc cic_out_range [OF assms, of "Suc n div TUNER_DECIM"] unfolding p c_def [symmetric]
    by (intro in_range_push) simp_all
  then show ?case using p swing by (simp add: c_def)
qed

theorem tuner_chain_in_range_witness:
  "in_range (fold tuner_push_input (map (\<lambda>i. if even i then 32767 else -32768) [0..<5000]) tuner_in_init)"
  by (rule tuner_chain_in_range) simp

section \<open>The ring as a sliding window\<close>

text \<open>
  A store that always holds the last \<open>n\<close> of the elements put into it: what the ring promises the analysis.
\<close>

locale sliding_window =
  fixes put :: "'a \<Rightarrow> 's \<Rightarrow> 's"
    and window :: "'s \<Rightarrow> 'a list"
    and wf :: "'s \<Rightarrow> bool"
    and n :: nat
  assumes wf_put: "wf s \<Longrightarrow> wf (put a s)"
    and window_length: "wf s \<Longrightarrow> length (window s) = n"
    and window_put: "wf s \<Longrightarrow> window (put a s) = drop 1 (window s @ [a])"
begin

lemma wf_puts: "wf s \<Longrightarrow> wf (fold put xs s)"
  by (induction xs arbitrary: s) (auto simp: wf_put)

lemma window_puts: "wf s \<Longrightarrow> window (fold put xs s) = drop (length xs) (window s @ xs)"
proof (induction xs rule: rev_induct)
  case Nil
  then show ?case by simp
next
  case (snoc x xs)
  have "window (fold put (xs @ [x]) s) = drop 1 (window (fold put xs s) @ [x])"
    using window_put [OF wf_puts [OF snoc.prems]] by simp
  also have "\<dots> = drop 1 (drop (length xs) (window s @ xs) @ [x])" using snoc by simp
  also have "drop (length xs) (window s @ xs) @ [x] = drop (length xs) (window s @ xs @ [x])" by simp
  also have "drop 1 \<dots> = drop (length (xs @ [x])) (window s @ xs @ [x])" unfolding drop_drop by simp
  finally show ?case .
qed

lemma window_recent: "wf s \<Longrightarrow> n \<le> length xs \<Longrightarrow> window (fold put xs s) = drop (length xs - n) xs"
  by (simp add: window_puts window_length)

end

text \<open>The ring from its write index round, which is oldest sample first.\<close>

definition ring_window :: "tuner_in \<Rightarrow> int list" where
  "ring_window c = drop (tuner_ring_pos c) (tuner_ring c) @ take (tuner_ring_pos c) (tuner_ring c)"

definition ring_wf :: "tuner_in \<Rightarrow> bool" where
  "ring_wf c \<longleftrightarrow> length (tuner_ring c) = TUNER_N \<and> tuner_ring_pos c < TUNER_N"

interpretation ring: sliding_window ring_put ring_window ring_wf TUNER_N
proof
  fix y :: int and c
  assume c: "ring_wf c"
  then show "ring_wf (ring_put y c)" "length (ring_window c) = TUNER_N"
    by (auto simp: ring_wf_def ring_put_def ring_window_def TUNER_N_def)
  let ?p = "tuner_ring_pos c" and ?r = "tuner_ring c"
  have p: "?p < length ?r" "length ?r = 1024" using c by (simp_all add: ring_wf_def TUNER_N_def)
  have r: "?r[?p := y] = take ?p ?r @ y # drop (Suc ?p) ?r" using p(1) by (rule upd_conv_take_nth_drop)
  have w: "drop 1 (ring_window c @ [y]) = drop (Suc ?p) ?r @ take ?p ?r @ [y]"
    using p by (simp add: ring_window_def drop_Suc drop_tl)
  show "ring_window (ring_put y c) = drop 1 (ring_window c @ [y])"
  proof (cases "Suc ?p = 1024")
    case True
    then have "ring_window (ring_put y c) = take ?p ?r @ [y]"
      using p r by (simp add: ring_window_def ring_put_def TUNER_N_def)
    then show ?thesis using True p w by simp
  next
    case False
    then have "tuner_ring_pos (ring_put y c) = Suc ?p" using p by (simp add: ring_put_def TUNER_N_def)
    then show ?thesis using p r w by (simp add: ring_window_def ring_put_def)
  qed
qed

text \<open>The samples one input adds to the ring: none, or the clipped output of the DC blocker.\<close>

definition produced :: "int \<Rightarrow> tuner_in \<Rightarrow> int list" where
  "produced x c = (if tuner_cic_phase c + 1 < TUNER_DECIM then [] else [clip16 (tuner_dc_y (tuner_push_input x c))])"

lemma push_ring:
  "tuner_ring (tuner_push_input x c) = tuner_ring (fold ring_put (produced x c) c)"
  "tuner_ring_pos (tuner_push_input x c) = tuner_ring_pos (fold ring_put (produced x c) c)"
  "tuner_ring_count (tuner_push_input x c) = tuner_ring_count (fold ring_put (produced x c) c)"
  "tuner_dirty (tuner_push_input x c) = tuner_dirty (fold ring_put (produced x c) c)"
  using tuner_push_input_chain [of x c]
  by (auto simp: produced_def push_chain_def integrate_def comb_def dc_block_def ring_put_def Let_def)

lemma push_phase: "tuner_cic_phase (tuner_push_input x c) = (if tuner_cic_phase c + 1 < TUNER_DECIM then tuner_cic_phase c + 1 else 0)"
  using tuner_push_input_chain [of x c]
  by (auto simp: push_chain_def integrate_def comb_def dc_block_def Let_def)

lemma push_ring_window:
  "ring_window (tuner_push_input x c) = ring_window (fold ring_put (produced x c) c)"
  "ring_wf (tuner_push_input x c) \<longleftrightarrow> ring_wf (fold ring_put (produced x c) c)"
  by (simp_all add: ring_window_def ring_wf_def push_ring)

lemma dirty_puts: "tuner_dirty (fold ring_put ys c) = tuner_dirty c - length ys"
  by (induction ys arbitrary: c) (simp_all add: ring_put_def)

text \<open>Everything the program does to the chain, with the samples put into the ring since the last gap.\<close>

inductive acquired :: "tuner_in \<Rightarrow> int list \<Rightarrow> bool" where
  start: "acquired tuner_in_init []"
| sample: "acquired c ys \<Longrightarrow> acquired (tuner_push_input x c) (ys @ produced x c)"
| gap: "acquired c ys \<Longrightarrow> acquired (c\<lparr>tuner_dirty := TUNER_N\<rparr>) []"
| swing: "acquired c ys \<Longrightarrow> acquired (c\<lparr>tuner_raw_min := a, tuner_raw_max := b\<rparr>) ys"

lemma acquired_inv:
  "acquired c ys \<Longrightarrow> ring_wf c \<and> tuner_cic_phase c < TUNER_DECIM \<and> tuner_dirty c = TUNER_N - length ys \<and>
     (\<exists>old. length old = TUNER_N \<and> ring_window c = drop (length ys) (old @ ys))"
proof (induction rule: acquired.induct)
  case start
  show ?case
    by (simp add: ring_wf_def ring_window_def tuner_in_init_def TUNER_DECIM_def TUNER_N_def)
next
  case (sample c ys x)
  then obtain old where old: "length old = TUNER_N" "ring_window c = drop (length ys) (old @ ys)" by blast
  have wf: "ring_wf c" using sample by simp
  have "ring_window (tuner_push_input x c) = drop (length (produced x c)) (drop (length ys) (old @ ys) @ produced x c)"
    unfolding push_ring_window ring.window_puts [OF wf] old(2) ..
  also have "drop (length ys) (old @ ys) @ produced x c = drop (length ys) (old @ ys @ produced x c)" by simp
  also have "drop (length (produced x c)) \<dots> = drop (length (ys @ produced x c)) (old @ ys @ produced x c)"
    unfolding drop_drop by (simp add: add.commute)
  finally show ?case
    using sample.IH old(1) ring.wf_puts [OF wf] push_phase [of x c]
    by (auto simp: push_ring_window push_ring(4) dirty_puts TUNER_DECIM_def)
next
  case (gap c ys)
  then show ?case
    using ring.window_length [of c] by (auto simp: ring_wf_def ring_window_def)
next
  case (swing c ys a b)
  then show ?case by (simp add: ring_wf_def ring_window_def)
qed

text \<open>C21: a clean window is contiguous.  Whatever the program has done to the input chain, when its dirty
  counter is zero at least a whole window of samples has gone into the ring since the last overrun, and the
  ring holds, oldest first, exactly the last 1024 of them, none from before the gap.\<close>

theorem tuner_clean_window:
  assumes "acquired c ys" and "tuner_dirty c = 0"
  shows "TUNER_N \<le> length ys \<and> ring_window c = drop (length ys - TUNER_N) ys"
  using acquired_inv [OF assms(1)] assms(2) by auto

text \<open>How far a run of inputs moves the phase and the two counters.\<close>

lemma push_counts:
  "tuner_cic_phase c < TUNER_DECIM \<Longrightarrow>
   tuner_cic_phase (fold tuner_push_input xs c) = (tuner_cic_phase c + length xs) mod TUNER_DECIM \<and>
   tuner_dirty (fold tuner_push_input xs c) = tuner_dirty c - (tuner_cic_phase c + length xs) div TUNER_DECIM \<and>
   tuner_ring_count (fold tuner_push_input xs c) = tuner_ring_count c + of_nat ((tuner_cic_phase c + length xs) div TUNER_DECIM)"
proof (induction xs rule: rev_induct)
  case Nil
  then show ?case by simp
next
  case (snoc x xs)
  let ?c = "fold tuner_push_input xs c" and ?k = "tuner_cic_phase c + length xs"
  have p: "tuner_cic_phase ?c = ?k mod 8" using snoc by (simp add: TUNER_DECIM_def)
  have cnt: "tuner_dirty (tuner_push_input x ?c) = tuner_dirty ?c - length (produced x ?c)"
    "tuner_ring_count (tuner_push_input x ?c) = tuner_ring_count ?c + of_nat (length (produced x ?c))"
    by (simp_all add: push_ring dirty_puts produced_def ring_put_def)
  show ?case
  proof (cases "?k mod 8 = 7")
    case True
    then have "Suc ?k mod 8 = 0" "Suc ?k div 8 = Suc (?k div 8)" by (simp_all add: mod_Suc div_Suc)
    then show ?thesis using snoc cnt p True by (simp add: push_phase produced_def TUNER_DECIM_def)
  next
    case False
    moreover have "?k mod 8 < 8" by simp
    ultimately have "Suc ?k mod 8 = Suc (?k mod 8)" "Suc ?k div 8 = ?k div 8" "?k mod 8 < 7"
      by (simp_all add: mod_Suc div_Suc)
    then show ?thesis using snoc cnt p by (simp add: push_phase produced_def TUNER_DECIM_def)
  qed
qed

lemma acquired_more: "acquired c ys \<Longrightarrow> \<exists>zs. acquired (fold tuner_push_input xs c) (ys @ zs)"
proof (induction xs arbitrary: c ys)
  case Nil
  then show ?case by (intro exI [of _ "[]"]) simp
next
  case (Cons x xs)
  from Cons.IH [OF acquired.sample [OF Cons.prems]] show ?case by auto
qed

theorem tuner_clean_window_witness:
  "\<exists>c ys. acquired c ys \<and> tuner_dirty c = 0 \<and> ring_window c = drop (length ys - TUNER_N) ys"
proof -
  define c where "c = fold tuner_push_input (replicate 8192 0) tuner_in_init"
  obtain ys where a: "acquired c ys"
    using acquired_more [OF acquired.start, of "replicate 8192 0"] by (auto simp: c_def)
  have "tuner_dirty c = 0"
    using push_counts [of tuner_in_init "replicate 8192 0"] by (simp add: c_def tuner_in_init_def TUNER_N_def TUNER_DECIM_def)
  with tuner_clean_window [OF a] a show ?thesis by blast
qed

section \<open>Pumping returns\<close>

lemma tuner_more:
  "mach.more t = mach.more s \<Longrightarrow> inp t = inp s \<and> tuner_frame_ovr t = tuner_frame_ovr s \<and> tuner_ovr_count t = tuner_ovr_count s"
  for s t :: "('d, 'z) tuner_scheme"
  by (cases s; cases t) simp

text \<open>The words arrive more slowly than the program reads the status register: at most one in two accesses.\<close>

definition sparse :: "(nat \<Rightarrow> nat) \<Rightarrow> bool" where
  "sparse rate \<longleftrightarrow> (\<forall>k. rate k + rate (k + 1) \<le> 1) \<and> (\<forall>k. \<exists>m \<ge> k. rate m = 1)"

lemma sparse_steady: "sparse rate \<Longrightarrow> steady rate"
  by (auto simp: sparse_def steady_def intro: add_leD1)

lemma status_overrun: "i2s_status_of d AND I2S_ST_OVERRUN = 0 \<longleftrightarrow> \<not> overrun d"
  unfolding I2S_ST_OVERRUN_def test_bit
  by (auto simp: i2s_status_of_def bit_simps I2S_ST_RX_EMPTY_def I2S_ST_RX_CH_def I2S_ST_OVERRUN_def)

lemma note_no_overrun:
  assumes "rate (ticks (dev s)) \<le> 1" and "length (fifo (dev s)) < 16" and "\<not> overrun (dev s)"
  shows "note_overrun (i2s_hw rate) s = s\<lparr>dev := i2s_tick rate (dev s),
    evs := evs s @ [Rd (I2s I2S_STATUS) (i2s_status_of (i2s_tick rate (dev s)))]\<rparr>"
proof -
  have "\<not> overrun (i2s_tick rate (dev s))"
    using i2s_tick_keeps(2) [of rate "dev s"] assms by simp
  then have "i2s_status_of (i2s_tick rate (dev s)) AND I2S_ST_OVERRUN = 0" using status_overrun by simp
  then show ?thesis
    by (simp add: note_overrun_def i2s_overrun_def rd_def i2s_hw_def Let_def)
qed

text \<open>One turn of the pump: the next word is pushed, and the FIFO has no less room than before.\<close>

lemma pump_turn:
  assumes rate: "sparse rate" and room: "length (fifo (dev s)) \<le> 14" and ok: "\<not> overrun (dev s)"
    and pend: "pending (dev s) = (c, w) # ws"
  shows "\<exists>t u. i2s_read_wait (i2s_hw rate) s = Some ((i2s_channel c, w), t) \<and>
    u = note_overrun (i2s_hw rate) (push_word w t) \<and> pending (dev u) = ws \<and> \<not> overrun (dev u) \<and>
    length (fifo (dev u)) \<le> 14 \<and> inp u = tuner_push_input (mic_in w) (inp s) \<and>
    tuner_frame_ovr u = tuner_frame_ovr s \<and> tuner_ovr_count u = tuner_ovr_count s"
proof -
  have r: "rate k + rate (Suc k) \<le> 1" for k using rate by (simp add: sparse_def)
  then have r1: "rate k \<le> 1" for k using add_leD1 by blast
  have "length (fifo (dev s)) < 16" using room by simp
  then obtain t where t: "i2s_read_wait (i2s_hw rate) s = Some ((i2s_channel c, w), t)" "pending (dev t) = ws"
      "overrun (dev t) = overrun (dev s)" "length (fifo (dev t)) < 16" "mach.more t = mach.more s"
      "fifo (dev t) = [] \<or> ticks (dev t) = Suc (ticks (dev s)) \<and>
        Suc (length (fifo (dev t))) \<le> length (fifo (dev s)) + rate (ticks (dev s))"
    using i2s_read_wait_next [OF sparse_steady [OF rate] _ pend] by blast
  have "length (fifo (dev t)) + rate (ticks (dev t)) \<le> 14"
    using t(6)
  proof (elim disjE conjE)
    assume "fifo (dev t) = []"
    then show ?thesis using r1 [of "ticks (dev t)"] by simp
  next
    assume "ticks (dev t) = Suc (ticks (dev s))" "Suc (length (fifo (dev t))) \<le> length (fifo (dev s)) + rate (ticks (dev s))"
    then show ?thesis using r [of "ticks (dev s)"] room by simp
  qed
  note room' = this
  have dt: "dev (push_word w t) = dev t" by (simp add: push_word_def)
  define e where "e = Rd (I2s I2S_STATUS) (i2s_status_of (i2s_tick rate (dev t)))"
  have n: "note_overrun (i2s_hw rate) (push_word w t) =
      (push_word w t)\<lparr>dev := i2s_tick rate (dev t), evs := evs (push_word w t) @ [e]\<rparr>"
    using note_no_overrun [of rate "push_word w t"] r1 t(3,4) ok dt by (simp add: e_def)
  have k: "pending (i2s_tick rate (dev t)) = pending (dev t)" "overrun (i2s_tick rate (dev t)) = overrun (dev t)"
    "length (fifo (i2s_tick rate (dev t))) \<le> length (fifo (dev t)) + rate (ticks (dev t))"
    using i2s_tick_keeps(1,2,4) [of rate "dev t"] r1 t(4) by blast+
  have "length (fifo (i2s_tick rate (dev t))) \<le> 14" using k(3) room' by linarith
  then show ?thesis
    using t(1,2,3) ok k(1,2) tuner_more [OF t(5)]
    by - (rule exI [of _ t], rule exI [of _ "note_overrun (i2s_hw rate) (push_word w t)"], unfold n, simp add: push_word_def)
qed

lemma u32_less_Suc: "x < y \<Longrightarrow> unat (x + 1) = Suc (unat x)" for x y :: u32
  using unat_bound [of y] by (simp add: word_less_nat_alt unat_word_ariths)

lemma pump_loop_returns:
  assumes rate: "sparse rate"
  shows "length (fifo (dev s)) \<le> 14 \<Longrightarrow> \<not> overrun (dev s) \<Longrightarrow> tuner_cic_phase (inp s) < TUNER_DECIM \<Longrightarrow>
    tuner_ring_count (inp s) \<le> target \<Longrightarrow>
    m = 8 * (unat target - unat (tuner_ring_count (inp s))) - tuner_cic_phase (inp s) \<Longrightarrow>
    m \<le> length (pending (dev s)) \<Longrightarrow>
    \<exists>t. pump_loop (i2s_hw rate) target s = Some t \<and> \<not> overrun (dev t) \<and> pending (dev t) = drop m (pending (dev s)) \<and>
      inp t = fold tuner_push_input (map (mic_in \<circ> snd) (take m (pending (dev s)))) (inp s) \<and>
      tuner_frame_ovr t = tuner_frame_ovr s \<and> tuner_ovr_count t = tuner_ovr_count s"
proof (induction m arbitrary: s)
  case 0
  have "unat target - unat (tuner_ring_count (inp s)) = 0"
    using "0.prems"(3,5) by (simp add: TUNER_DECIM_def)
  then have "\<not> tuner_ring_count (inp s) < target" by (simp add: word_less_nat_alt)
  then show ?case using "0.prems"(2) by (subst pump_loop.simps) simp
next
  case (Suc m)
  let ?n = "tuner_ring_count (inp s)" and ?p = "tuner_cic_phase (inp s)"
  have lt: "?n < target" using Suc.prems(5) by (simp add: word_less_nat_alt)
  obtain c w ws where p: "pending (dev s) = (c, w) # ws"
    using Suc.prems(6) by (cases "pending (dev s)") auto
  obtain t u where u: "i2s_read_wait (i2s_hw rate) s = Some ((i2s_channel c, w), t)"
      "u = note_overrun (i2s_hw rate) (push_word w t)" "pending (dev u) = ws" "\<not> overrun (dev u)"
      "length (fifo (dev u)) \<le> 14" "inp u = tuner_push_input (mic_in w) (inp s)"
      "tuner_frame_ovr u = tuner_frame_ovr s" "tuner_ovr_count u = tuner_ovr_count s"
    using pump_turn [OF rate Suc.prems(1,2) p] by blast
  have cnt: "tuner_cic_phase (inp u) = Suc ?p mod 8" "tuner_ring_count (inp u) = ?n + of_nat (Suc ?p div 8)"
    using push_counts [OF Suc.prems(3), of "[mic_in w]"] by (simp_all add: u(6) TUNER_DECIM_def)
  have p8: "?p < 8" using Suc.prems(3) by (simp add: TUNER_DECIM_def)
  have next_m: "m = 8 * (unat target - unat (tuner_ring_count (inp u))) - tuner_cic_phase (inp u)"
    and le: "tuner_ring_count (inp u) \<le> target"
  proof -
    show "m = 8 * (unat target - unat (tuner_ring_count (inp u))) - tuner_cic_phase (inp u)"
    proof (cases "Suc ?p = 8")
      case True
      then have "unat (tuner_ring_count (inp u)) = Suc (unat ?n)" "tuner_cic_phase (inp u) = 0"
        using cnt u32_less_Suc [OF lt] by simp_all
      then show ?thesis using Suc.prems(5) True by simp
    next
      case False
      then have "Suc ?p < 8" using p8 by simp
      then show ?thesis using Suc.prems(5) cnt by simp
    qed
    show "tuner_ring_count (inp u) \<le> target"
      using cnt(2) lt p8 by (cases "Suc ?p = 8") (auto intro: inc_le)
  qed
  have "\<exists>v. pump_loop (i2s_hw rate) target u = Some v \<and> \<not> overrun (dev v) \<and> pending (dev v) = drop m (pending (dev u)) \<and>
      inp v = fold tuner_push_input (map (mic_in \<circ> snd) (take m (pending (dev u)))) (inp u) \<and>
      tuner_frame_ovr v = tuner_frame_ovr u \<and> tuner_ovr_count v = tuner_ovr_count u"
    using Suc.prems(6) p u(3) cnt by (intro Suc.IH u(5,4) le next_m) (simp_all add: TUNER_DECIM_def)
  then show ?case using lt u p by (subst pump_loop.simps) simp
qed

text \<open>C22: waiting for \<open>n\<close> samples returns, with the ring exactly \<open>n\<close> samples further: it has consumed the next
  words of the stream, as many as the decimator needs and in order, no overrun has happened, and the window
  is dirty for \<open>n\<close> samples fewer; the sample counter must not reach its wrap-around.\<close>

theorem tuner_pump_returns:
  assumes "sparse rate" and "length (fifo (dev s)) \<le> 14" and "\<not> overrun (dev s)"
    and "tuner_cic_phase (inp s) < TUNER_DECIM" and "unat (tuner_ring_count (inp s)) + unat n < 2 ^ 32"
    and "8 * unat n - tuner_cic_phase (inp s) \<le> length (pending (dev s))"
  shows "\<exists>t. tuner_pump (i2s_hw rate) n s = Some t \<and> \<not> overrun (dev t) \<and>
    (let m = 8 * unat n - tuner_cic_phase (inp s) in
       inp t = fold tuner_push_input (map (mic_in \<circ> snd) (take m (pending (dev s)))) (inp s) \<and>
       pending (dev t) = drop m (pending (dev s))) \<and>
    tuner_ring_count (inp t) = tuner_ring_count (inp s) + n \<and> tuner_dirty (inp t) = tuner_dirty (inp s) - unat n \<and>
    tuner_frame_ovr t = tuner_frame_ovr s \<and> tuner_ovr_count t = tuner_ovr_count s"
proof -
  let ?c = "tuner_ring_count (inp s)" and ?p = "tuner_cic_phase (inp s)"
  have u: "unat (?c + n) = unat ?c + unat n" using assms(5) by (simp add: unat_word_ariths)
  have m: "8 * unat n - ?p = 8 * (unat (?c + n) - unat ?c) - ?p" "?c \<le> ?c + n"
    using u by (simp_all add: word_le_nat_alt)
  obtain t where t: "pump_loop (i2s_hw rate) (?c + n) s = Some t" "\<not> overrun (dev t)"
      "pending (dev t) = drop (8 * unat n - ?p) (pending (dev s))"
      "inp t = fold tuner_push_input (map (mic_in \<circ> snd) (take (8 * unat n - ?p) (pending (dev s)))) (inp s)"
      "tuner_frame_ovr t = tuner_frame_ovr s" "tuner_ovr_count t = tuner_ovr_count s"
    using pump_loop_returns [OF assms(1,2,3,4) m(2,1) assms(6)] by blast
  have "(?p + (8 * unat n - ?p)) div 8 = unat n"
    using assms(4) by (cases "unat n") (simp_all add: TUNER_DECIM_def)
  then have "tuner_ring_count (inp t) = ?c + n" "tuner_dirty (inp t) = tuner_dirty (inp s) - unat n"
    using push_counts [OF assms(4), of "map (mic_in \<circ> snd) (take (8 * unat n - ?p) (pending (dev s)))"] assms(6)
    by (simp_all add: t(4) TUNER_DECIM_def min_absorb2)
  then show ?thesis using t by (simp add: tuner_pump_def Let_def)
qed

theorem tuner_pump_returns_witness:
  "\<exists>t. tuner_pump (i2s_hw (\<lambda>k. k mod 2)) 2
      (tuner_statics \<lparr>fifo = [], wire = replicate 20 (False, 0x12345600), overrun = False, ticks = 0\<rparr>) = Some t \<and>
    tuner_ring_count (inp t) = 2 \<and> tuner_dirty (inp t) = 1022"
proof -
  have "sparse (\<lambda>k. k mod 2)"
    unfolding sparse_def
  proof (intro conjI allI)
    fix k :: nat
    show "k mod 2 + (k + 1) mod 2 \<le> 1" by presburger
    show "\<exists>m\<ge>k. m mod 2 = 1" by (rule exI [of _ "2 * k + 1"]) simp
  qed
  from tuner_pump_returns [OF this, of "tuner_statics \<lparr>fifo = [], wire = replicate 20 (False, 0x12345600), overrun = False, ticks = 0\<rparr>" 2]
  show ?thesis
    by (auto simp: tuner_statics_def tuner_in_init_def pending_def TUNER_DECIM_def TUNER_N_def)
qed

text \<open>Near the wrap of the counter the target is below it, and the call returns without waiting for anything.\<close>

lemma tuner_pump_wraps:
  assumes "2 ^ 32 \<le> unat (tuner_ring_count (inp s)) + unat n"
  shows "tuner_pump hw n s = Some s"
proof -
  have "unat (tuner_ring_count (inp s) + n) \<le> unat (tuner_ring_count (inp s))"
    using assms unat_bound [of n] unat_bound [of "tuner_ring_count (inp s)"]
    by (simp add: unat_word_ariths le_mod_geq)
  then show ?thesis
    unfolding tuner_pump_def by (subst pump_loop.simps) (simp add: word_less_nat_alt)
qed

section \<open>The window reaches the coprocessor\<close>

text \<open>The triangle over the window, and the value the code writes for sample \<open>i\<close>.\<close>

definition triangle :: "nat \<Rightarrow> int" where
  "triangle i = (if i < 512 then 64 * int i else 64 * (1023 - int i))"

definition windowed :: "tuner_in \<Rightarrow> int list" where
  "windowed c = map (\<lambda>i. (ring_window c ! i * triangle i) div 32768) [0..<TUNER_N]"

lemma ring_window_nth:
  assumes "ring_wf c" and "i < TUNER_N"
  shows "ring_window c ! i = tuner_ring c ! ((tuner_ring_pos c + i) mod TUNER_N)"
proof -
  have "ring_window c = rotate (tuner_ring_pos c) (tuner_ring c)"
    using assms(1) by (simp add: ring_window_def ring_wf_def rotate_drop_take)
  then show ?thesis using assms by (simp add: ring_wf_def nth_rotate)
qed

lemma triangle_slopes:
  "j < 512 \<Longrightarrow> triangle j = 64 * int j" "512 \<le> j \<Longrightarrow> triangle j = 64 * (1023 - int j)"
  by (simp_all add: triangle_def)

lemma ring_step: "((p + i) mod TUNER_N + 1) mod TUNER_N = (p + Suc i) mod TUNER_N"
  by (simp add: mod_simps)

definition put_windowed :: "'d hw \<Rightarrow> int list \<Rightarrow> nat \<Rightarrow> nat \<Rightarrow> ('d, 'z) m \<Rightarrow> ('d, 'z) m" where
  "put_windowed hw xs p j = fft_write_real hw j ((xs ! ((p + j) mod TUNER_N) * triangle j) div 2 ^ 15)"

lemma fill_rise_fold:
  "i + n \<le> 512 \<Longrightarrow> fill_rise hw xs n i ((p + i) mod TUNER_N) (64 * int i) s =
     ((p + i + n) mod TUNER_N, fold (put_windowed hw xs p) [i..<i + n] s)"
proof (induction n arbitrary: i s)
  case (Suc n)
  have "64 * int i + 64 = 64 * int (Suc i)" by simp
  moreover have "fft_write_real hw i ((xs ! ((p + i) mod TUNER_N) * (64 * int i)) div 2 ^ 15) s = put_windowed hw xs p i s"
    using Suc.prems by (simp add: put_windowed_def triangle_slopes)
  moreover have "[i..<i + Suc n] = i # [Suc i..<Suc i + n]" by (simp add: upt_conv_Cons del: upt_Suc)
  ultimately show ?case
    using Suc.IH [of "Suc i"] Suc.prems by (simp only: fill_rise.simps ring_step) (simp del: upt_Suc)
qed simp

lemma fill_fall_fold:
  "i + n \<le> 1024 \<Longrightarrow> 512 \<le> i \<Longrightarrow>
   fill_fall hw xs n i ((p + i) mod TUNER_N) (64 * (1023 - int i)) s = fold (put_windowed hw xs p) [i..<i + n] s"
proof (induction n arbitrary: i s)
  case (Suc n)
  have "64 * (1023 - int i) - 64 = 64 * (1023 - int (Suc i))" by simp
  moreover have "(if 64 * (1023 - int i) > 32767 then 32767 else 64 * (1023 - int i)) = triangle i"
    using Suc.prems by (simp add: triangle_slopes)
  moreover have "[i..<i + Suc n] = i # [Suc i..<Suc i + n]" by (simp add: upt_conv_Cons del: upt_Suc)
  ultimately show ?case
    using Suc.IH [of "Suc i"] Suc.prems by (simp only: fill_fall.simps ring_step) (simp add: put_windowed_def del: upt_Suc)
qed simp

text \<open>C23: filling the coprocessor is writing the whole window, oldest sample first, under the triangle computed
  sample by sample: the incremental slopes, the carried ring index and the two loops come to the same, and
  the clamp to the largest Q15 weight never acts.\<close>

theorem tuner_fill_fft_windows:
  assumes "ring_wf (inp s)"
  shows "tuner_fill_fft hw s = fft_fill_real hw (windowed (inp s)) TUNER_N s"
proof -
  let ?p = "tuner_ring_pos (inp s)" and ?xs = "tuner_ring (inp s)"
  have p: "(?p + 0) mod TUNER_N = ?p" using assms by (simp add: ring_wf_def)
  have half: "TUNER_N div 2 = 512" by (simp add: TUNER_N_def)
  have rise: "fill_rise hw ?xs 512 0 ?p 0 s = ((?p + 512) mod TUNER_N, fold (put_windowed hw ?xs ?p) [0..<512] s)"
  proof -
    have "64 * int 0 = 0" "0 + 512 \<le> (512 :: nat)" by simp_all
    then show ?thesis using fill_rise_fold [of 0 512 hw ?xs ?p s] unfolding p by (simp only: add_0 add_0_right)
  qed
  have fall: "fill_fall hw ?xs 512 512 ((?p + 512) mod TUNER_N) (32768 - 64) t = fold (put_windowed hw ?xs ?p) [512..<1024] t"
    for t :: "('a, 'b) tuner_scheme"
  proof -
    have "64 * (1023 - int 512) = 32768 - 64" "512 + 512 = (1024 :: nat)" by simp_all
    then show ?thesis using fill_fall_fold [of 512 512 hw ?xs ?p t] by (simp only: order_refl)
  qed
  have "tuner_fill_fft hw s = fold (put_windowed hw ?xs ?p) ([0..<512] @ [512..<1024]) s"
    unfolding tuner_fill_fft_def Let_def half rise prod.case fall fold_append comp_def ..
  also have "[0..<512] @ [512..<1024] = [0..<TUNER_N]"
    proof -
    have "[0..<512 + 512] = [0..<512] @ [512..<512 + (512 :: nat)]" by (rule upt_add_eq_append) simp
    moreover have "512 + 512 = (1024 :: nat)" by simp
    ultimately show ?thesis unfolding TUNER_N_def by argo
  qed
  also have "fold (put_windowed hw ?xs ?p) [0..<TUNER_N] s =
      fold (\<lambda>i. fft_write_real hw i (windowed (inp s) ! i)) [0..<TUNER_N] s"
  proof (rule fold_cong [OF refl refl])
    fix i
    assume "i \<in> set [0..<TUNER_N]"
    then show "put_windowed hw ?xs ?p i = fft_write_real hw i (windowed (inp s) ! i)"
      using ring_window_nth [OF assms, of i] by (simp add: put_windowed_def windowed_def)
  qed
  finally show ?thesis by (simp add: fft_fill_real_def fft_fill_def)
qed

theorem tuner_fill_fft_windows_witness:
  "tuner_fill_fft (const_hw (\<lambda>_. 0)) (tuner_statics ()) =
   fft_fill_real (const_hw (\<lambda>_. 0)) (windowed tuner_in_init) TUNER_N (tuner_statics ())"
  using tuner_fill_fft_windows [of "tuner_statics ()" "const_hw (\<lambda>_. 0)"]
  by (simp add: tuner_statics_def tuner_in_init_def ring_wf_def TUNER_N_def)

end
