(* ===== verification/Tuner_Pitch.thy ===== *)
theory Tuner_Pitch
  imports Tuner_In
begin

text \<open>
  \<open>guitar_tuner.c\<close>, the analysis: from the transformed window in the coprocessor to a note and its deviation.
  Magnitudes are 16-bit values and stay far from wrapping (\<open>spectrum_sum_bound\<close>), so the unsigned ints of
  the search are naturals; \<open>tuner_kq8_to_cHz\<close>, which is written around the width of its products, is on words.
\<close>

definition TUNER_KMIN :: nat where "TUNER_KMIN = 70 * 1024 * 1000 div 1953125"
definition TUNER_KMAX :: nat where "TUNER_KMAX = (420 * 1024 * 1000 + 1953125 - 1) div 1953125"
definition TUNER_KLO :: nat where "TUNER_KLO = TUNER_KMIN - 1"
definition TUNER_KHI :: nat where "TUNER_KHI = TUNER_KMAX + 1"
definition TUNER_PEAK_FRACTION :: nat where "TUNER_PEAK_FRACTION = 4"
definition TUNER_SNR_RATIO :: nat where "TUNER_SNR_RATIO = 4"
definition TUNER_SUB_FRACTION :: nat where "TUNER_SUB_FRACTION = 10"
definition TUNER_CHZ_NUM :: u32 where "TUNER_CHZ_NUM = 390625"
definition TUNER_CHZ_SHIFT :: nat where "TUNER_CHZ_SHIFT = 19"

definition tuner_notes :: "(nat \<times> string) list" where
  "tuner_notes = [
    (7342, ''D2 ''), (7778, ''D#2''), (8241, ''E2 ''), (8731, ''F2 ''), (9250, ''F#2''), (9800, ''G2 ''),
    (10383, ''G#2''), (11000, ''A2 ''), (11654, ''A#2''), (12347, ''B2 ''), (13081, ''C3 ''), (13859, ''C#3''),
    (14683, ''D3 ''), (15556, ''D#3''), (16481, ''E3 ''), (17461, ''F3 ''), (18500, ''F#3''), (19600, ''G3 ''),
    (20765, ''G#3''), (22000, ''A3 ''), (23308, ''A#3''), (24694, ''B3 ''), (26163, ''C4 ''), (27718, ''C#4''),
    (29366, ''D4 ''), (31113, ''D#4''), (32963, ''E4 ''), (34923, ''F4 ''), (36999, ''F#4''), (39200, ''G4 ''),
    (41530, ''G#4'')]"

record tuner_result =
  valid :: bool
  f_cHz :: u32
  peak :: nat
  note_ix :: nat
  cents :: int

section \<open>The spectrum\<close>

text \<open>One magnitude, as \<open>tuner_read_spectrum\<close> computes and truncates it.\<close>

definition bin_mag :: "int \<Rightarrow> int \<Rightarrow> nat" where
  "bin_mag re im =
     (let a = word_of_int (if re < 0 then - re else re) :: u32;
          b = word_of_int (if im < 0 then - im else im) :: u32;
          hi = (if a > b then a else b);
          lo = (if a > b then b else a)
      in unat (ucast (hi + 3 * lo div 8) :: u16))"

definition read_bin :: "'d hw \<Rightarrow> nat \<Rightarrow> ('d, 'z) tuner_scheme \<Rightarrow> ('d, 'z) tuner_scheme" where
  "read_bin hw k s = (let ((re, im), s) = fft_read hw k s in s\<lparr>tuner_mag := (tuner_mag s)[k := bin_mag re im]\<rparr>)"

definition tuner_read_spectrum :: "'d hw \<Rightarrow> ('d, 'z) tuner_scheme \<Rightarrow> ('d, 'z) tuner_scheme" where
  "tuner_read_spectrum hw s = fold (read_bin hw) [TUNER_KLO..<TUNER_KHI + 1] s"

section \<open>The fundamental\<close>

text \<open>The strongest bin of a scan, the first of equals: its magnitude and index.\<close>

fun scan_best :: "nat list \<Rightarrow> nat list \<Rightarrow> nat \<Rightarrow> nat \<Rightarrow> nat \<times> nat" where
  "scan_best mg [] bestm best = (bestm, best)"
| "scan_best mg (k # ks) bestm best =
     (if mg ! k > bestm then scan_best mg ks (mg ! k) k else scan_best mg ks bestm best)"

text \<open>The first bin of a scan that passes a test.\<close>

fun first_such :: "('a \<Rightarrow> bool) \<Rightarrow> 'a list \<Rightarrow> 'a option" where
  "first_such P [] = None"
| "first_such P (k # ks) = (if P k then Some k else first_such P ks)"

definition local_max :: "nat list \<Rightarrow> nat \<Rightarrow> bool" where
  "local_max mg k \<longleftrightarrow> mg ! k > mg ! (k - 1) \<and> mg ! k \<ge> mg ! (k + 1)"

definition band :: "nat list" where "band = [TUNER_KMIN..<TUNER_KMAX + 1]"
definition inner_band :: "nat list" where "inner_band = [TUNER_KMIN + 1..<TUNER_KMAX]"

text \<open>The result is the bin, \<^const>\<open>None\<close> for -1, with the value left in \<open>peak_out\<close>.\<close>

definition rescue :: "nat list \<Rightarrow> nat \<Rightarrow> nat \<Rightarrow> nat \<Rightarrow> nat option" where
  "rescue mg bestm mean best =
     (if best div 2 > TUNER_KMIN then
        let h = best div 2; sub = bestm div TUNER_SUB_FRACTION
        in first_such (\<lambda>k. \<not> (k \<le> TUNER_KMIN \<or> k \<ge> TUNER_KMAX) \<and>
             mg ! k \<ge> sub \<and> mg ! k > TUNER_SNR_RATIO * mean \<and> local_max mg k) [h - 1..<h + 2]
      else None)"

definition tuner_find_fundamental :: "nat \<Rightarrow> nat list \<Rightarrow> nat option \<times> nat" where
  "tuner_find_fundamental floor mg =
     (let total = sum_list (map (\<lambda>k. mg ! k) band);
          (bestm, best) = scan_best mg band 0 TUNER_KMIN;
          mean = total div (TUNER_KMAX - TUNER_KMIN + 1)
      in if bestm < floor \<or> bestm < TUNER_SNR_RATIO * mean then (None, bestm)
         else let thr = bestm div TUNER_PEAK_FRACTION
              in case first_such (\<lambda>k. mg ! k \<ge> thr \<and> local_max mg k) inner_band of
                   None \<Rightarrow> (let (bestm, best) = scan_best mg band 0 (TUNER_KMAX + 1) in (Some best, bestm))
                 | Some best \<Rightarrow>
                     (case rescue mg bestm mean best of
                        Some k \<Rightarrow> (Some k, mg ! k)
                      | None \<Rightarrow> (Some best, mg ! best)))"

section \<open>From bin to note\<close>

text \<open>C division truncates: \<open>sdiv\<close>.\<close>

definition tuner_interp_q8 :: "nat list \<Rightarrow> nat \<Rightarrow> int" where
  "tuner_interp_q8 mg k =
     (let a = int (mg ! (k - 1)); b = int (mg ! k); c = int (mg ! (k + 1));
          den = a - 2 * b + c
      in if den = 0 then 0
         else let d = ((a - c) * 128) sdiv den
              in if d > 128 then 128 else if d < -128 then -128 else d)"

text \<open>The deviation from one note of the table, and the search for the nearest.\<close>

definition cents_from :: "int \<Rightarrow> nat \<Rightarrow> int" where
  "cents_from f i = (let f0 = int (fst (tuner_notes ! i)) in (1731 * (f - f0)) sdiv f0)"

fun nearest_note :: "int \<Rightarrow> nat list \<Rightarrow> nat \<Rightarrow> int \<Rightarrow> int \<Rightarrow> nat \<times> int" where
  "nearest_note f [] best best_c best_abs = (best, best_c)"
| "nearest_note f (i # is) best best_c best_abs =
     (let c = cents_from f i; ac = (if c < 0 then - c else c)
      in if ac < best_abs then nearest_note f is i c ac else nearest_note f is best best_c best_abs)"

definition tuner_note_of :: "u32 \<Rightarrow> nat \<times> int" where
  "tuner_note_of f = nearest_note (sint f) [0..<length tuner_notes] 0 0 (2 ^ 30)"

definition tuner_kq8_to_cHz :: "u32 \<Rightarrow> u32" where
  "tuner_kq8_to_cHz kq8 =
     (let hi = drop_bit 6 kq8; lo = kq8 AND 63; sh = TUNER_CHZ_SHIFT - 6
      in drop_bit sh (hi * TUNER_CHZ_NUM + push_bit (sh - 1) 1)
         + drop_bit TUNER_CHZ_SHIFT (lo * TUNER_CHZ_NUM + push_bit (TUNER_CHZ_SHIFT - 1) 1))"

definition tuner_analyse :: "'d hw \<Rightarrow> ('d, 'z) tuner_scheme \<Rightarrow> tuner_result \<times> ('d, 'z) tuner_scheme" where
  "tuner_analyse hw s =
     (let s = tuner_read_spectrum hw s;
          (k, pk) = tuner_find_fundamental (tuner_floor s) (tuner_mag s)
      in case k of
           None \<Rightarrow> (\<lparr>valid = False, f_cHz = 0, peak = pk, note_ix = 0, cents = 0\<rparr>, s)
         | Some k \<Rightarrow>
             let kq8 = word_of_int (int k * 256 + tuner_interp_q8 (tuner_mag s) k);
                 f = tuner_kq8_to_cHz kq8;
                 (i, c) = tuner_note_of f
             in (\<lparr>valid = True, f_cHz = f, peak = pk, note_ix = i, cents = c\<rparr>, s))"

section \<open>What the search returns\<close>

lemma scan_best_max:
  "scan_best mg ks m b = (m', b') \<Longrightarrow>
   m' = Max (insert m (set (map ((!) mg) ks))) \<and> (m' = m \<and> b' = b \<or> m < m' \<and> b' \<in> set ks \<and> mg ! b' = m')"
proof (induction ks arbitrary: m b)
  case Nil
  then show ?case by simp
next
  case (Cons k ks)
  show ?case
  proof (cases "mg ! k > m")
    case True
    then have r: "scan_best mg ks (mg ! k) k = (m', b')" using Cons.prems by simp
    have "Max (insert m (set (map ((!) mg) (k # ks)))) = max m (Max (insert (mg ! k) (set (map ((!) mg) ks))))"
      by (simp add: Max_insert2)
    moreover have "m < Max (insert (mg ! k) (set (map ((!) mg) ks)))"
      using True by (rule less_le_trans) simp
    ultimately show ?thesis using Cons.IH [OF r] True by auto
  next
    case False
    then have r: "scan_best mg ks m b = (m', b')" using Cons.prems by simp
    have "Max (insert m (set (map ((!) mg) (k # ks)))) = max (mg ! k) (Max (insert m (set (map ((!) mg) ks))))"
      unfolding list.map list.set insert_commute [of m] by (rule Max_insert) simp_all
    moreover have "mg ! k \<le> Max (insert m (set (map ((!) mg) ks)))"
    proof (rule order_trans [of _ m])
      show "mg ! k \<le> m" using False by simp
      show "m \<le> Max (insert m (set (map ((!) mg) ks)))" by (rule Max_ge) simp_all
    qed
    ultimately show ?thesis using Cons.IH [OF r] by auto
  qed
qed

lemma first_such_None: "first_such P ks = None \<longleftrightarrow> (\<forall>k \<in> set ks. \<not> P k)"
  by (induction ks) auto

lemma first_such_upt:
  "first_such P [a..<b] = Some k \<longleftrightarrow> a \<le> k \<and> k < b \<and> P k \<and> (\<forall>j. a \<le> j \<and> j < k \<longrightarrow> \<not> P j)"
proof (induction "b - a" arbitrary: a)
  case 0
  then show ?case by auto
next
  case (Suc n)
  then have u: "[a..<b] = a # [Suc a..<b]" by (simp add: upt_conv_Cons)
  have "first_such P [Suc a..<b] = Some k \<longleftrightarrow> Suc a \<le> k \<and> k < b \<and> P k \<and> (\<forall>j. Suc a \<le> j \<and> j < k \<longrightarrow> \<not> P j)"
    using Suc by simp
  note IH = this
  have ab: "a < b" using Suc.hyps(2) by simp
  show ?case
  proof (cases "P a")
    case True
    have "a \<le> k \<and> k < b \<and> P k \<and> (\<forall>j. a \<le> j \<and> j < k \<longrightarrow> \<not> P j) \<longleftrightarrow> a = k"
    proof
      assume h: "a \<le> k \<and> k < b \<and> P k \<and> (\<forall>j. a \<le> j \<and> j < k \<longrightarrow> \<not> P j)"
      then have "\<not> a < k" using True by blast
      then show "a = k" using h by simp
    qed (use True ab in auto)
    then show ?thesis unfolding u using True by simp
  next
    case False
    then have s: "a \<le> j \<and> P j \<longleftrightarrow> Suc a \<le> j \<and> P j" for j by (cases "j = a") auto
    then have "(\<forall>j. a \<le> j \<and> j < k \<longrightarrow> \<not> P j) \<longleftrightarrow> (\<forall>j. Suc a \<le> j \<and> j < k \<longrightarrow> \<not> P j)" by blast
    then show ?thesis unfolding u using False IH s [of k] by auto
  qed
qed

text \<open>
  What the search is for, on the bins 36 to 221 of the band: the strongest magnitude and the mean, the partials (local
  maxima of at least a quarter of the strongest), the bins that could hold the octave below one (local maxima within
  one of half of it that reach a tenth of the strongest and stand out of the mean four times), and the answer.
\<close>

definition strongest :: "nat list \<Rightarrow> nat" where
  "strongest mg = Max ((\<lambda>k. mg ! k) ` {36..221})"

definition noise :: "nat list \<Rightarrow> nat" where
  "noise mg = (\<Sum>k = 36..221. mg ! k) div 186"

definition peak_at :: "nat list \<Rightarrow> nat \<Rightarrow> bool" where
  "peak_at mg k \<longleftrightarrow> mg ! (k - 1) < mg ! k \<and> mg ! (k + 1) \<le> mg ! k"

definition partials :: "nat list \<Rightarrow> nat set" where
  "partials mg = {k \<in> {37..220}. peak_at mg k \<and> strongest mg div 4 \<le> mg ! k}"

definition sub_octaves :: "nat list \<Rightarrow> nat \<Rightarrow> nat set" where
  "sub_octaves mg j = {k \<in> {37..220}. 36 < j div 2 \<and> k \<in> {j div 2 - 1, j div 2, j div 2 + 1} \<and>
     peak_at mg k \<and> strongest mg div 10 \<le> mg ! k \<and> 4 * noise mg < mg ! k}"

definition fundamental :: "nat list \<Rightarrow> nat" where
  "fundamental mg =
     (if partials mg = {} then Min {k \<in> {36..221}. mg ! k = strongest mg}
      else let j = Min (partials mg) in if sub_octaves mg j = {} then j else Min (sub_octaves mg j))"

lemma band_bounds: "TUNER_KMIN = 36" "TUNER_KMAX = 221" "TUNER_KLO = 35" "TUNER_KHI = 222"
  by (simp_all add: TUNER_KMIN_def TUNER_KMAX_def TUNER_KLO_def TUNER_KHI_def)

text \<open>Bins of 16 bits keep every intermediate of the search below 32 bits.\<close>

lemma spectrum_sum_bound:
  fixes mg :: "nat list"
  assumes "\<forall>m \<in> set mg. m < 65536" and "length mg = 512"
  shows "sum_list (map ((!) mg) band) < 2 ^ 24"
proof -
  have "mg ! k \<le> 65535" if "k \<in> set band" for k
  proof -
    have "k < 512" using that unfolding band_def set_upt by (simp add: band_bounds)
    then have "mg ! k \<in> set mg" using assms(2) by simp
    then have "mg ! k < 65536" using assms(1) by blast
    then show ?thesis by simp
  qed
  then have "sum_list (map ((!) mg) band) \<le> sum_list (map (\<lambda>_. 65535) band)"
    by (rule sum_list_mono)
  also have "\<dots> = length band * 65535" by (simp add: sum_list_triv)
  also have "length band = 186" unfolding band_def length_upt by (simp add: band_bounds)
  finally show ?thesis by simp
qed

lemma band_set: "set band = {36..221}"
  unfolding band_def band_bounds set_upt by auto

lemma mean_noise: "sum_list (map ((!) mg) band) div Suc (TUNER_KMAX - TUNER_KMIN) = noise mg"
proof -
  have "sum_list (map ((!) mg) band) = sum ((!) mg) (set band)"
    unfolding band_def by (rule sum_list_distinct_conv_sum_set) (rule distinct_upt)
  moreover have "Suc (TUNER_KMAX - TUNER_KMIN) = 186" by (simp add: band_bounds)
  ultimately show ?thesis by (simp only: noise_def band_set)
qed

text \<open>A scan finds the maximum, and stops at its first place.\<close>

lemma scan_best_first:
  "scan_best mg ks m x = (m', b) \<Longrightarrow> m < m' \<Longrightarrow> \<exists>us vs. ks = us @ b # vs \<and> (\<forall>k \<in> set us. mg ! k < m') \<and> mg ! b = m'"
proof (induction ks arbitrary: m x)
  case (Cons k ks)
  show ?case
  proof (cases "m < mg ! k")
    case True
    then have r: "scan_best mg ks (mg ! k) k = (m', b)" using Cons.prems(1) by simp
    then have "mg ! k \<le> m'" "mg ! k = m' \<Longrightarrow> b = k"
      using scan_best_max [OF r] by auto
    then show ?thesis
    proof (cases "mg ! k < m'")
      case True
      then obtain us vs where "ks = us @ b # vs" "\<forall>k \<in> set us. mg ! k < m'" "mg ! b = m'" using Cons.IH [OF r] by blast
      then show ?thesis using True by (intro exI [of _ "k # us"] exI [of _ vs]) auto
    next
      case False
      then show ?thesis using \<open>mg ! k \<le> m'\<close> \<open>mg ! k = m' \<Longrightarrow> b = k\<close> by (intro exI [of _ "[]"] exI [of _ ks]) auto
    qed
  next
    case False
    then obtain us vs where "ks = us @ b # vs" "\<forall>k \<in> set us. mg ! k < m'" "mg ! b = m'"
      using Cons.IH [of m x] Cons.prems by auto
    then show ?thesis using False Cons.prems(2) by (intro exI [of _ "k # us"] exI [of _ vs]) auto
  qed
qed simp

lemma scan_band:
  "\<exists>b. scan_best mg band 0 x = (strongest mg, b) \<and>
     (0 < strongest mg \<longrightarrow> b = Min {k \<in> {36..221}. mg ! k = strongest mg} \<and> 36 \<le> b \<and> b \<le> 221 \<and> mg ! b = strongest mg)"
proof -
  obtain m b where s: "scan_best mg band 0 x = (m, b)" by fastforce
  have "m = Max (insert 0 (set (map ((!) mg) band)))" using scan_best_max [OF s] by blast
  also have "\<dots> = strongest mg" by (simp add: strongest_def band_set Max_insert)
  finally have m: "m = strongest mg" .
  have "b = Min {k \<in> {36..221}. mg ! k = m} \<and> 36 \<le> b \<and> b \<le> 221 \<and> mg ! b = m" if pos: "0 < m"
  proof -
    obtain us vs where d: "band = us @ b # vs" "\<forall>k \<in> set us. mg ! k < m" "mg ! b = m"
      using scan_best_first [OF s pos] by blast
    have sorted: "sorted (us @ b # vs)" unfolding d(1) [symmetric] band_def by (rule sorted_upt)
    define S :: "nat set" where "S = {36..221}"
    have "set band = set us \<union> insert b (set vs)" unfolding d(1) by simp
    then have S: "S = set us \<union> insert b (set vs)" unfolding S_def band_set .
    have "b \<le> k" if "k \<in> S" "mg ! k = m" for k
      using that d(2) sorted unfolding S by (auto simp: sorted_append simp del: sorted_wrt_append)
    then have "Min {k \<in> S. mg ! k = m} = b" using d(3) by (intro Min_eqI) (auto simp: S)
    moreover have "b \<in> S" by (simp add: S)
    ultimately show ?thesis using d(3) by (simp add: S_def)
  qed
  then have "0 < m \<longrightarrow> b = Min {k \<in> {36..221}. mg ! k = m} \<and> 36 \<le> b \<and> b \<le> 221 \<and> mg ! b = m" by (rule impI)
  with s have "scan_best mg band 0 x = (m, b) \<and> (0 < m \<longrightarrow> b = Min {k \<in> {36..221}. mg ! k = m} \<and> 36 \<le> b \<and> b \<le> 221 \<and> mg ! b = m)"
    by (rule conjI)
  then show ?thesis unfolding m by (rule exI)
qed

text \<open>The first bin of a range that passes a test is the least.\<close>

lemma first_such_Min:
  "first_such P [a..<b] = (if {k \<in> {a..<b}. P k} = {} then None else Some (Min {k \<in> {a..<b}. P k}))"
proof (cases "{k \<in> {a..<b}. P k} = {}")
  case True
  then show ?thesis by (auto simp: first_such_None)
next
  case False
  define m where "m = Min {k \<in> {a..<b}. P k}"
  have m: "m \<in> {k \<in> {a..<b}. P k}" unfolding m_def using False by (intro Min_in) simp_all
  have "\<not> P j" if "a \<le> j" "j < m" for j
  proof
    assume "P j"
    then have "j \<in> {k \<in> {a..<b}. P k}" using that m by simp
    then have "m \<le> j" unfolding m_def by (intro Min_le) simp_all
    then show False using that by simp
  qed
  then have "first_such P [a..<b] = Some m" using m unfolding first_such_upt by (intro conjI allI impI) simp_all
  then show ?thesis using False by (simp only: m_def if_False)
qed

lemma first_partial:
  "first_such (\<lambda>k. mg ! k \<ge> strongest mg div TUNER_PEAK_FRACTION \<and> local_max mg k) inner_band =
     (if partials mg = {} then None else Some (Min (partials mg)))"
proof -
  have "{k \<in> {TUNER_KMIN + 1..<TUNER_KMAX}. mg ! k \<ge> strongest mg div TUNER_PEAK_FRACTION \<and> local_max mg k} = partials mg"
    by (auto simp: partials_def peak_at_def local_max_def band_bounds TUNER_PEAK_FRACTION_def)
  then show ?thesis unfolding inner_band_def first_such_Min by simp
qed

lemma rescue_first:
  "rescue mg (strongest mg) (noise mg) j = (if sub_octaves mg j = {} then None else Some (Min (sub_octaves mg j)))"
proof (cases "36 < j div 2")
  case True
  then have "{k \<in> {j div 2 - 1..<j div 2 + 2}. \<not> (k \<le> TUNER_KMIN \<or> k \<ge> TUNER_KMAX) \<and>
      mg ! k \<ge> strongest mg div TUNER_SUB_FRACTION \<and> mg ! k > TUNER_SNR_RATIO * noise mg \<and> local_max mg k} = sub_octaves mg j"
    unfolding sub_octaves_def peak_at_def local_max_def band_bounds TUNER_SUB_FRACTION_def TUNER_SNR_RATIO_def
    by (rule_tac set_eqI, simp, linarith)
  then show ?thesis using True unfolding rescue_def Let_def first_such_Min by (simp add: band_bounds)
qed (simp add: rescue_def sub_octaves_def band_bounds)

lemma find_fundamental_eq:
  assumes "0 < floor"
  shows "tuner_find_fundamental floor mg =
    (if strongest mg < floor \<or> strongest mg < 4 * noise mg then (None, strongest mg)
     else (Some (fundamental mg), mg ! fundamental mg))"
proof -
  obtain b where b: "scan_best mg band 0 TUNER_KMIN = (strongest mg, b)" using scan_band by blast
  obtain d where d: "scan_best mg band 0 (TUNER_KMAX + 1) = (strongest mg, d)"
      "0 < strongest mg \<Longrightarrow> d = Min {k \<in> {36..221}. mg ! k = strongest mg} \<and> 36 \<le> d \<and> d \<le> 221 \<and> mg ! d = strongest mg"
    using scan_band by blast
  show ?thesis
  proof (cases "strongest mg < floor \<or> strongest mg < 4 * noise mg")
    case True
    then show ?thesis by (simp add: tuner_find_fundamental_def Let_def b mean_noise TUNER_SNR_RATIO_def)
  next
    case False
    have d1: "scan_best mg band 0 (Suc TUNER_KMAX) = (strongest mg, d)" using d(1) by simp
    from False have d': "d = Min {k \<in> {36..221}. mg ! k = strongest mg}" "mg ! d = strongest mg" using d(2) assms by auto
    show ?thesis
      using False d' by (auto simp: tuner_find_fundamental_def Let_def b d1 mean_noise TUNER_SNR_RATIO_def first_partial
          rescue_first fundamental_def simp flip: d'(1))
  qed
qed

lemma find_fundamental_band:
  assumes "0 < floor" and "tuner_find_fundamental floor mg = (Some k, pk)"
  shows "36 \<le> k \<and> k \<le> 221"
proof -
  have k: "k = fundamental mg" using assms by (simp add: find_fundamental_eq split: if_splits)
  have fin: "finite (partials mg)" "finite (sub_octaves mg j)" for j by (simp_all add: partials_def sub_octaves_def)
  let ?S = "{k \<in> {36..221}. mg ! k = strongest mg}"
  have "strongest mg \<in> (\<lambda>k. mg ! k) ` {36..221}" unfolding strongest_def by (rule Max_in) simp_all
  then have "?S \<noteq> {}" by auto
  then have "Min ?S \<in> ?S" by (intro Min_in) simp_all
  moreover have "partials mg \<noteq> {} \<Longrightarrow> Min (partials mg) \<in> partials mg" using fin by (intro Min_in)
  moreover have "sub_octaves mg j \<noteq> {} \<Longrightarrow> Min (sub_octaves mg j) \<in> sub_octaves mg j" for j using fin by (intro Min_in)
  moreover have "partials mg \<subseteq> {36..221}" "sub_octaves mg j \<subseteq> {36..221}" for j by (auto simp: partials_def sub_octaves_def)
  ultimately show ?thesis unfolding k fundamental_def Let_def by (smt (verit) atLeastAtMost_iff mem_Collect_eq subsetD)
qed

text \<open>C24: what the search for the fundamental returns, for every spectrum.  It declares silence exactly when the
  strongest bin of the band is below the floor or below four times the band's mean.  Otherwise it answers with the
  magnitude of the fundamental: the lowest local maximum of at least a quarter of the strongest bin, or, when
  there is one, the lowest local maximum within one bin of half of it that stands out of the noise; and without any
  such partial the first of the strongest bins.\<close>

theorem tuner_find_fundamental_spec:
  assumes "0 < floor"
  shows "tuner_find_fundamental floor mg =
    (if strongest mg < floor \<or> strongest mg < 4 * noise mg then (None, strongest mg)
     else (Some (fundamental mg), mg ! fundamental mg))"
  using assms by (rule find_fundamental_eq)

definition one_tone :: "nat list" where
  "one_tone = map (\<lambda>k. if k = 100 then 400 else 1) [0..<512]"

theorem tuner_find_fundamental_spec_witness:
  "tuner_find_fundamental 20 one_tone = (Some 100, 400)"
proof -
  have nth: "one_tone ! k = (if k = 100 then 400 else 1)" if "k < 512" for k
    using that by (simp add: one_tone_def)
  have s: "strongest one_tone = 400"
    unfolding strongest_def by (rule Max_eqI) (auto simp: nth image_iff intro: bexI [of _ 100])
  have "(\<Sum>k = 36..221. one_tone ! k) = (\<Sum>k :: nat = 36..221. if k = 100 then 400 else 1)"
    by (rule sum.cong) (auto simp: nth)
  then have n: "noise one_tone = 3" unfolding noise_def by (simp add: sum.If_cases Diff_eq [symmetric] card_Diff_singleton_if)
  have peak: "peak_at one_tone k \<longleftrightarrow> k = 100" if "36 < k" "k < 221" for k
    using that by (auto simp: peak_at_def nth)
  then have "partials one_tone = {100}" "sub_octaves one_tone 100 = {}"
    using s by (auto simp: partials_def sub_octaves_def nth)
  then show ?thesis using tuner_find_fundamental_spec [of 20 one_tone] s n nth [of 100] by (simp add: fundamental_def)
qed

section \<open>Accuracy\<close>

lemma kq8_accuracy:
  assumes "unat kq8 < 65536"
  shows "\<bar>int (unat (tuner_kq8_to_cHz kq8)) * 2 ^ 19 - int (unat kq8) * 390625\<bar> \<le> 2 ^ 19"
proof -
  define k where "k = unat kq8"
  define hi where "hi = k div 64"
  define lo where "lo = k mod 64"
  have b: "hi < 1024" "lo < 64" "k = 64 * hi + lo" using assms by (simp_all add: hi_def lo_def k_def less_mult_imp_div_less)
  have u: "unat (drop_bit 6 kq8) = hi" "unat (kq8 AND 63) = lo"
    using and_masks(2) [of kq8] by (simp_all add: hi_def lo_def k_def unat_drop_bit unat_take_bit)
  have "unat (drop_bit 6 kq8 * TUNER_CHZ_NUM + push_bit 12 1) = hi * 390625 + 4096"
    "unat ((kq8 AND 63) * TUNER_CHZ_NUM + push_bit 18 1) = lo * 390625 + 262144"
    using b u by (simp_all add: unat_word_ariths TUNER_CHZ_NUM_def)
  then have d: "unat (drop_bit 13 (drop_bit 6 kq8 * TUNER_CHZ_NUM + push_bit 12 1)) = (hi * 390625 + 4096) div 8192"
    "unat (drop_bit 19 ((kq8 AND 63) * TUNER_CHZ_NUM + push_bit 18 1)) = (lo * 390625 + 262144) div 524288"
    by (simp_all only: unat_drop_bit) simp_all
  have small: "(hi * 390625 + 4096) div 8192 < 50000" "(lo * 390625 + 262144) div 524288 < 50"
    using b by (intro less_mult_imp_div_less; linarith)+
  then have v: "unat (tuner_kq8_to_cHz kq8) = (hi * 390625 + 4096) div 8192 + (lo * 390625 + 262144) div 524288"
    using d by (simp add: tuner_kq8_to_cHz_def Let_def TUNER_CHZ_SHIFT_def unat_word_ariths)
  have m: "x = d * (x div d) + x mod d" for x d :: nat by simp
  have "hi * 390625 + 4096 = 8192 * ((hi * 390625 + 4096) div 8192) + (hi * 390625 + 4096) mod 8192"
    "(hi * 390625 + 4096) mod 8192 < 8192"
    "lo * 390625 + 262144 = 524288 * ((lo * 390625 + 262144) div 524288) + (lo * 390625 + 262144) mod 524288"
    "(lo * 390625 + 262144) mod 524288 < 524288"
    by simp_all
  then show ?thesis
    unfolding v k_def [symmetric] b(3) by simp
qed

text \<open>For every peak position below bin 256 the conversion to centi-hertz does not overflow and is within
  one centi-hertz of the exact quotient, although it is split into two rounded halves of 32 bits.\<close>

theorem tuner_kq8_to_cHz_accuracy:
  assumes "unat kq8 < 65536"
  shows "\<bar>int (unat (tuner_kq8_to_cHz kq8)) * 2 ^ 19 - int (unat kq8) * 390625\<bar> \<le> 2 ^ 19"
  using assms by (rule kq8_accuracy)

theorem tuner_kq8_to_cHz_accuracy_witness:
  "\<bar>int (unat (tuner_kq8_to_cHz 28311)) * 2 ^ 19 - 28311 * 390625\<bar> \<le> 2 ^ 19"
  using tuner_kq8_to_cHz_accuracy [of 28311] by simp

text \<open>Truncated division loses less than one unit, towards zero.\<close>

lemma sdiv_near:
  fixes a b :: int
  assumes "b \<noteq> 0"
  shows "\<bar>a sdiv b * b - a\<bar> < \<bar>b\<bar>" and "\<bar>a sdiv b * b\<bar> \<le> \<bar>a\<bar>"
proof -
  define q where "q = \<bar>a\<bar> div \<bar>b\<bar> * \<bar>b\<bar>"
  have "q + \<bar>a\<bar> mod \<bar>b\<bar> = \<bar>a\<bar>" "0 \<le> \<bar>a\<bar> mod \<bar>b\<bar>" "\<bar>a\<bar> mod \<bar>b\<bar> < \<bar>b\<bar>"
    using assms by (simp_all add: q_def)
  moreover have "0 \<le> q" by (simp add: q_def pos_imp_zdiv_nonneg_iff assms)
  moreover have "sgn b * b = \<bar>b\<bar>" by (simp add: sgn_if)
  then have "a sdiv b * b = sgn a * q"
    by (simp add: signed_divide_int_def q_def sgn_mult ac_simps)
  ultimately have "\<bar>a sdiv b * b - a\<bar> < \<bar>b\<bar> \<and> \<bar>a sdiv b * b\<bar> \<le> \<bar>a\<bar>"
    by (cases a "0 :: int" rule: linorder_cases) simp_all
  then show "\<bar>a sdiv b * b - a\<bar> < \<bar>b\<bar>" "\<bar>a sdiv b * b\<bar> \<le> \<bar>a\<bar>" by simp_all
qed

lemma sdiv_abs_le: "b \<noteq> 0 \<Longrightarrow> \<bar>a\<bar> \<le> m * \<bar>b\<bar> \<Longrightarrow> \<bar>a sdiv b\<bar> \<le> m" for a b m :: int
  using sdiv_near(2) [of b a] by (simp add: abs_mult) (metis abs_le_zero_iff mult_le_cancel_right order_trans not_le)

text \<open>On a local maximum the interpolation is the vertex of the parabola through the three bins: the
  denominator is not zero, the clamp to half a bin never acts, and the result, in 1/256 of a bin, is within
  one unit of the exact vertex.\<close>

theorem tuner_interp_vertex:
  assumes "local_max mg k"
  shows "let a = int (mg ! (k - 1)); b = int (mg ! k); c = int (mg ! (k + 1)); w = 2 * b - a - c in
    0 < w \<and> \<bar>tuner_interp_q8 mg k\<bar> \<le> 128 \<and> \<bar>tuner_interp_q8 mg k * w - 128 * (c - a)\<bar> < w"
proof -
  define a where "a = int (mg ! (k - 1))"
  define b where "b = int (mg ! k)"
  define c where "c = int (mg ! (k + 1))"
  have abc: "a < b" "c \<le> b" "0 \<le> a" "0 \<le> c" using assms by (simp_all add: local_max_def a_def b_def c_def)
  have den: "a - 2 * b + c < 0" using abc by simp
  let ?q = "((a - c) * 128) sdiv (a - 2 * b + c)"
  have near: "\<bar>?q * (a - 2 * b + c) - (a - c) * 128\<bar> < \<bar>a - 2 * b + c\<bar>"
    using den by (intro sdiv_near) simp
  have "\<bar>?q\<bar> \<le> 128" using abc den by (intro sdiv_abs_le) (simp_all add: abs_if)
  then have v: "tuner_interp_q8 mg k = ?q"
    using den unfolding tuner_interp_q8_def Let_def a_def [symmetric] b_def [symmetric] c_def [symmetric] by auto
  have "\<bar>?q * (2 * b - a - c) - 128 * (c - a)\<bar> = \<bar>?q * (a - 2 * b + c) - (a - c) * 128\<bar>"
    by (simp add: abs_if algebra_simps)
  then show ?thesis
    using near den \<open>\<bar>?q\<bar> \<le> 128\<close> unfolding v Let_def a_def [symmetric] b_def [symmetric] c_def [symmetric] by simp
qed

theorem tuner_interp_vertex_witness:
  "\<bar>tuner_interp_q8 [10, 50, 30] 1\<bar> \<le> 128 \<and> \<bar>tuner_interp_q8 [10, 50, 30] 1 * 60 - 2560\<bar> < 60"
  using tuner_interp_vertex [of "[10, 50, 30]" 1] by (simp add: local_max_def)

section \<open>The nearest note\<close>

text \<open>The search keeps the first note of least absolute deviation.\<close>

lemma nearest_note_least:
  "nearest_note f is best bc ba = (i, c) \<Longrightarrow> ba = \<bar>bc\<bar> \<or> (\<exists>j \<in> set is. \<bar>cents_from f j\<bar> < ba) \<Longrightarrow>
   (\<forall>j \<in> set is. \<bar>c\<bar> \<le> \<bar>cents_from f j\<bar>) \<and> \<bar>c\<bar> \<le> ba \<and>
     (i = best \<and> c = bc \<and> (\<forall>j \<in> set is. ba \<le> \<bar>cents_from f j\<bar>) \<or> i \<in> set is \<and> c = cents_from f i)"
proof (induction "is" arbitrary: best bc ba)
  case Nil
  then show ?case by simp
next
  case (Cons j js)
  have ab: "(if x < 0 then - x else x) = \<bar>x\<bar>" for x :: int by simp
  show ?case
  proof (cases "\<bar>cents_from f j\<bar> < ba")
    case True
    then have "nearest_note f js j (cents_from f j) \<bar>cents_from f j\<bar> = (i, c)"
      using Cons.prems(1) by (simp add: Let_def ab)
    from Cons.IH [OF this] True show ?thesis by auto
  next
    case False
    then have "nearest_note f js best bc ba = (i, c)"
      using Cons.prems(1) by (simp add: Let_def ab)
    from Cons.IH [OF this] Cons.prems(2) False show ?thesis by auto
  qed
qed

definition note_hz :: "nat \<Rightarrow> int" where
  "note_hz i = int (fst (tuner_notes ! i))"

lemma note_hz_table: "i < 31 \<Longrightarrow> note_hz i =
  [7342, 7778, 8241, 8731, 9250, 9800, 10383, 11000, 11654, 12347, 13081, 13859, 14683, 15556, 16481, 17461, 18500,
   19600, 20765, 22000, 23308, 24694, 26163, 27718, 29366, 31113, 32963, 34923, 36999, 39200, 41530] ! i"
  (is "_ \<Longrightarrow> _ = ?hz ! i")
proof -
  assume "i < 31"
  moreover have "map (int \<circ> fst) tuner_notes = ?hz" "length tuner_notes = 31" by (simp_all add: tuner_notes_def)
  ultimately show ?thesis unfolding note_hz_def by (metis comp_apply nth_map)
qed

lemma note_steps: "i < 30 \<Longrightarrow> 0 < note_hz i \<and> note_hz i < note_hz (Suc i) \<and> 1679 * note_hz (Suc i) < 1783 * note_hz i"
proof -
  have "\<forall>i \<in> set [0..<30]. 0 < note_hz i \<and> note_hz i < note_hz (Suc i) \<and> 1679 * note_hz (Suc i) < 1783 * note_hz i"
    by (simp add: note_hz_table upt_rec)
  then show "i < 30 \<Longrightarrow> 0 < note_hz i \<and> note_hz i < note_hz (Suc i) \<and> 1679 * note_hz (Suc i) < 1783 * note_hz i"
    by simp
qed

lemma note_between: "note_hz 0 \<le> f \<Longrightarrow> f \<le> note_hz (Suc k) \<Longrightarrow> \<exists>i \<le> k. note_hz i \<le> f \<and> f \<le> note_hz (Suc i)"
proof (induction k)
  case (Suc k)
  show ?case
  proof (cases "f \<le> note_hz (Suc k)")
    case True
    then show ?thesis using Suc by (meson le_SucI)
  next
    case False
    then show ?thesis using Suc.prems by (intro exI [of _ "Suc k"]) simp
  qed
qed auto

lemma cents_small: "0 < note_hz i \<Longrightarrow> \<bar>1731 * (f - note_hz i)\<bar> < m * note_hz i \<Longrightarrow> \<bar>cents_from f i\<bar> < m"
proof -
  assume i: "0 < note_hz i" and b: "\<bar>1731 * (f - note_hz i)\<bar> < m * note_hz i"
  have c: "cents_from f i = (1731 * (f - note_hz i)) sdiv note_hz i"
    by (simp only: cents_from_def note_hz_def Let_def)
  have h: "\<bar>cents_from f i * note_hz i\<bar> \<le> \<bar>1731 * (f - note_hz i)\<bar>"
    unfolding c using i by (intro sdiv_near) simp
  have "\<bar>cents_from f i * note_hz i\<bar> = \<bar>cents_from f i\<bar> * note_hz i" using i by (simp add: abs_mult)
  then have "\<bar>cents_from f i\<bar> * note_hz i < m * note_hz i" using le_less_trans [OF h b] by simp
  then show "\<bar>cents_from f i\<bar> < m" using i mult_less_cancel_right_pos by blast
qed

lemma note_of_nearest:
  assumes "unat f \<le> 1000000" and "tuner_note_of f = (i, c)"
  shows "i < length tuner_notes \<and> c = cents_from (int (unat f)) i \<and>
    (\<forall>j < length tuner_notes. \<bar>c\<bar> \<le> \<bar>cents_from (int (unat f)) j\<bar>) \<and>
    (7342 \<le> unat f \<and> unat f \<le> 41530 \<longrightarrow> \<bar>c\<bar> \<le> 51)"
proof -
  define x where "x = int (unat f)"
  have x: "0 \<le> x" "x \<le> 1000000" using assms(1) unfolding x_def by linarith+
  have sf: "sint f = x"
  proof -
    have "uint f = x" by (simp add: x_def)
    moreover from this have "uint f < 2147483648" using x by linarith
    ultimately show ?thesis by (simp add: sint_u32)
  qed
  have n0: "note_hz 0 = 7342" and n30: "note_hz (Suc 29) = 41530" by (simp_all add: note_hz_table)
  have len: "length tuner_notes = 31" by (simp add: tuner_notes_def)
  have "\<bar>1731 * (x - note_hz 0)\<bar> < 2 ^ 30 * note_hz 0" using x by (simp add: n0 abs_if)
  then have near: "\<bar>cents_from x 0\<bar> < 2 ^ 30" by (intro cents_small) (simp add: n0)
  have search: "nearest_note x [0..<31] 0 0 (2 ^ 30) = (i, c)"
    using assms(2) by (simp only: tuner_note_of_def sf len)
  have least: "(\<forall>j \<in> set [0..<31]. \<bar>c\<bar> \<le> \<bar>cents_from x j\<bar>) \<and> \<bar>c\<bar> \<le> 2 ^ 30 \<and>
      (i = 0 \<and> c = 0 \<and> (\<forall>j \<in> set [0..<31]. 2 ^ 30 \<le> \<bar>cents_from x j\<bar>) \<or>
       i \<in> set [0..<31] \<and> c = cents_from x i)"
    by (rule nearest_note_least [OF search]) (use near in auto)
  then have i: "i < 31" "c = cents_from x i" "\<And>j. j < 31 \<Longrightarrow> \<bar>c\<bar> \<le> \<bar>cents_from x j\<bar>"
  proof -
    have "\<not> (\<forall>j \<in> set [0..<31]. 2 ^ 30 \<le> \<bar>cents_from x j\<bar>)"
      using near by (intro notI) (drule bspec [of _ _ 0], simp_all)
    then have "i \<in> set [0..<31] \<and> c = cents_from x i" "\<forall>j \<in> set [0..<31]. \<bar>c\<bar> \<le> \<bar>cents_from x j\<bar>"
      using least by blast+
    then show "i < 31" "c = cents_from x i" "\<And>j. j < 31 \<Longrightarrow> \<bar>c\<bar> \<le> \<bar>cents_from x j\<bar>" by simp_all
  qed
  have "\<bar>c\<bar> \<le> 51" if inside: "7342 \<le> unat f" "unat f \<le> 41530"
  proof -
    have "7342 \<le> x" "x \<le> 41530" using inside unfolding x_def by linarith+
    then obtain k where k: "k \<le> 29" "note_hz k \<le> x" "x \<le> note_hz (Suc k)"
      using note_between [of x 29] unfolding n0 n30 by auto
    have s: "0 < note_hz k" "1679 * note_hz (Suc k) < 1783 * note_hz k" "note_hz k < note_hz (Suc k)"
      using note_steps [of k] k(1) by simp_all
    have "\<bar>cents_from x k\<bar> < 52 \<or> \<bar>cents_from x (Suc k)\<bar> < 52"
    proof (cases "1731 * (x - note_hz k) < 52 * note_hz k")
      case True
      then show ?thesis using k(2) s by (intro disjI1 cents_small) simp_all
    next
      case False
      then have "\<bar>1731 * (x - note_hz (Suc k))\<bar> < 52 * note_hz (Suc k)"
        using k(3) s by (simp add: abs_if)
      then show ?thesis using s by (intro disjI2 cents_small) simp_all
    qed
    then show ?thesis using i(3) [of k] i(3) [of "Suc k"] k(1) by auto
  qed
  then show ?thesis using i unfolding x_def [symmetric] by (simp add: len)
qed

text \<open>The note found is the nearest of the table: no other note has a smaller deviation, the deviation
  reported is the one from that note, and for every frequency between the lowest and the highest note it is
  at most 51 cents.\<close>

theorem tuner_note_of_nearest:
  assumes "unat f \<le> 1000000" and "tuner_note_of f = (i, c)"
  shows "i < length tuner_notes \<and> c = cents_from (int (unat f)) i \<and>
    (\<forall>j < length tuner_notes. \<bar>c\<bar> \<le> \<bar>cents_from (int (unat f)) j\<bar>) \<and>
    (7342 \<le> unat f \<and> unat f \<le> 41530 \<longrightarrow> \<bar>c\<bar> \<le> 51)"
  using assms by (rule note_of_nearest)

theorem tuner_note_of_nearest_witness:
  "\<exists>i c. tuner_note_of 11050 = (i, c) \<and> \<bar>c\<bar> \<le> 51 \<and> \<bar>c\<bar> \<le> \<bar>cents_from 11050 7\<bar>"
proof -
  obtain i c where r: "tuner_note_of 11050 = (i, c)" by fastforce
  from tuner_note_of_nearest [OF _ r] show ?thesis using r by (auto simp: tuner_notes_def)
qed

section \<open>One frame\<close>

lemma interp_clamped: "\<bar>tuner_interp_q8 mg k\<bar> \<le> 128"
  unfolding tuner_interp_q8_def Let_def by (simp add: abs_le_iff)

lemma read_bin_frame [frame_simps]:
  "inp (read_bin hw k s) = inp s" "tuner_floor (read_bin hw k s) = tuner_floor s"
  "ssd1306_fb (read_bin hw k s) = ssd1306_fb s" "tuner_frame_ovr (read_bin hw k s) = tuner_frame_ovr s"
  "length (tuner_mag (read_bin hw k s)) = length (tuner_mag s)"
  by (simp_all add: read_bin_def fft_read_def rd_def Let_def split_beta)

lemma read_bins_frame [frame_simps]:
  "inp (fold (read_bin hw) ks s) = inp s" "tuner_floor (fold (read_bin hw) ks s) = tuner_floor s"
  "ssd1306_fb (fold (read_bin hw) ks s) = ssd1306_fb s" "tuner_frame_ovr (fold (read_bin hw) ks s) = tuner_frame_ovr s"
  "length (tuner_mag (fold (read_bin hw) ks s)) = length (tuner_mag s)"
  by (induction ks arbitrary: s) (simp_all add: read_bin_frame)

lemma analyse_frame [frame_simps]:
  "tuner_analyse hw s = (r, t) \<Longrightarrow> t = tuner_read_spectrum hw s"
  by (auto simp: tuner_analyse_def Let_def split: prod.splits option.splits)

lemma analyse_in_range:
  assumes "0 < tuner_floor s" and "tuner_analyse hw s = (r, t)"
  shows "note_ix r < length tuner_notes \<and>
    (if valid r then 6771 \<le> unat (f_cHz r) \<and> unat (f_cHz r) \<le> 42248 \<and> \<bar>cents r\<bar> < 135
     else f_cHz r = 0 \<and> note_ix r = 0 \<and> cents r = 0)"
proof -
  define u where "u = tuner_read_spectrum hw s"
  have floor: "tuner_floor u = tuner_floor s" by (simp add: u_def tuner_read_spectrum_def read_bins_frame)
  obtain k pk where f: "tuner_find_fundamental (tuner_floor u) (tuner_mag u) = (k, pk)" by fastforce
  have len: "length tuner_notes = 31" by (simp add: tuner_notes_def)
  show ?thesis
  proof (cases k)
    case None
    then have "r = \<lparr>valid = False, f_cHz = 0, peak = pk, note_ix = 0, cents = 0\<rparr>"
      using assms(2) f by (simp add: tuner_analyse_def Let_def flip: u_def)
    then show ?thesis by (simp add: len)
  next
    case (Some k')
    define kq8 :: u32 where "kq8 = word_of_int (int k' * 256 + tuner_interp_q8 (tuner_mag u) k')"
    obtain i c where ic: "tuner_note_of (tuner_kq8_to_cHz kq8) = (i, c)" by fastforce
    have r: "r = \<lparr>valid = True, f_cHz = tuner_kq8_to_cHz kq8, peak = pk, note_ix = i, cents = c\<rparr>"
      using assms(2) f Some ic by (auto simp: tuner_analyse_def Let_def kq8_def simp flip: u_def)
    have "36 \<le> k'" "k' \<le> 221"
      using find_fundamental_band [of "tuner_floor u" "tuner_mag u" k' pk] f Some assms(1) floor by simp_all
    then have "9088 \<le> int k' * 256 + tuner_interp_q8 (tuner_mag u) k'" "int k' * 256 + tuner_interp_q8 (tuner_mag u) k' \<le> 56704"
      using interp_clamped [of "tuner_mag u" k'] by linarith+
    moreover from this have "uint kq8 = int k' * 256 + tuner_interp_q8 (tuner_mag u) k'"
      unfolding kq8_def by (intro word_of_small) simp_all
    ultimately have uq: "9088 \<le> uint kq8" "uint kq8 \<le> 56704" by simp_all
    moreover have "int (unat kq8) = uint kq8" by simp
    ultimately have q: "unat kq8 \<le> 56704" by linarith
    define f where "f = unat (tuner_kq8_to_cHz kq8)"
    have acc: "\<bar>int f * 2 ^ 19 - int (unat kq8) * 390625\<bar> \<le> 2 ^ 19"
      unfolding f_def using q by (intro kq8_accuracy) simp
    have fb: "6771 \<le> f" "f \<le> 42248" using acc uq by simp_all
    have small: "f \<le> 1000000" using fb by simp
    have near: "i < 31" "\<And>j. j < 31 \<Longrightarrow> \<bar>c\<bar> \<le> \<bar>cents_from (int f) j\<bar>"
      using note_of_nearest [OF small [unfolded f_def] ic] unfolding len f_def [symmetric] by blast+
    have "\<bar>c\<bar> < 135"
    proof -
      consider "f < 7342" | "7342 \<le> f" "f \<le> 41530" | "41530 < f" by linarith
      then show ?thesis
      proof cases
        case 1
        have "\<bar>cents_from (int f) 0\<bar> < 135"
          using 1 fb by (intro cents_small) (simp_all add: note_hz_table abs_if)
        then show ?thesis using near(2) [of 0] by simp
      next
        case 2
        then have "\<bar>c\<bar> \<le> 51"
          using note_of_nearest [OF small [unfolded f_def] ic] unfolding f_def [symmetric] by blast
        then show ?thesis by simp
      next
        case 3
        have "\<bar>cents_from (int f) 30\<bar> < 135"
          using 3 fb by (intro cents_small) (simp_all add: note_hz_table abs_if)
        then show ?thesis using near(2) [of 30] by simp
      qed
    qed
    then show ?thesis using near(1) fb unfolding r f_def by (simp add: len)
  qed
qed

text \<open>C25: the result of a frame can be used without checks: the note is always an index of the table, and with
  a valid pitch the frequency is between 67.7 and 422.5 Hz and the deviation within 135 cents; without one
  they are zero.\<close>

theorem tuner_analyse_in_range:
  assumes "0 < tuner_floor s" and "tuner_analyse hw s = (r, t)"
  shows "note_ix r < length tuner_notes \<and>
    (if valid r then 6771 \<le> unat (f_cHz r) \<and> unat (f_cHz r) \<le> 42248 \<and> \<bar>cents r\<bar> < 135
     else f_cHz r = 0 \<and> note_ix r = 0 \<and> cents r = 0)"
  using assms by (rule analyse_in_range)

theorem tuner_analyse_in_range_witness:
  "note_ix (fst (tuner_analyse (const_hw (\<lambda>_. 0x00100020)) (tuner_statics ()))) < length tuner_notes"
proof -
  obtain r t where "tuner_analyse (const_hw (\<lambda>_. 0x00100020)) (tuner_statics ()) = (r, t)" by fastforce
  from tuner_analyse_in_range [OF _ this] this show ?thesis
    by (simp add: tuner_statics_def TUNER_FLOOR_ATTACK_def)
qed

section \<open>The spectrum read is the driver's magnitude\<close>

lemma s16_range: "- 32768 \<le> s16 w \<and> s16 w < 32768"
  using sint_greater_eq [of "ucast w :: u16"] sint_lt [of "ucast w :: u16"] by (simp add: s16_def)

lemma bin_mag_of: "bin_mag (s16 v) (s16 w) = unat (mag_of (s16 v) (s16 w)) \<and> bin_mag (s16 v) (s16 w) \<le> 45056"
proof -
  have u: "uint (mag_of (s16 v) (s16 w)) = max \<bar>s16 v\<bar> \<bar>s16 w\<bar> + 3 * min \<bar>s16 v\<bar> \<bar>s16 w\<bar> div 8"
    using s16_range [of v] s16_range [of w] by (intro mag_value) simp_all
  have "max \<bar>s16 v\<bar> \<bar>s16 w\<bar> \<le> 32768" "min \<bar>s16 v\<bar> \<bar>s16 w\<bar> \<le> 32768"
    using s16_range [of v] s16_range [of w] by (simp_all add: abs_le_iff min_le_iff_disj)
  moreover have "A + 3 * B div 8 \<le> 45056" if "A \<le> 32768" "B \<le> 32768" for A B :: int
    using that by linarith
  ultimately have "uint (mag_of (s16 v) (s16 w)) \<le> 45056" unfolding u by blast
  moreover have "int (unat (mag_of (s16 v) (s16 w))) = uint (mag_of (s16 v) (s16 w))" by simp
  ultimately have b: "unat (mag_of (s16 v) (s16 w)) \<le> 45056" by linarith
  have "bin_mag (s16 v) (s16 w) = unat (ucast (mag_of (s16 v) (s16 w)) :: u16)"
    by (simp only: bin_mag_def mag_of_def Let_def)
  also have "\<dots> = unat (mag_of (s16 v) (s16 w)) mod 65536" by (simp add: unsigned_ucast_eq take_bit_eq_mod)
  finally show ?thesis using b by simp
qed

text \<open>After the read, the bins the estimator looks at hold what \<open>fft_mag\<close> computes from the result buffer.\<close>

lemma read_bins_fft:
  assumes "\<forall>k \<in> set ks. k < length (tuner_mag s)" and "distinct ks" and "k \<in> set ks"
  shows "tuner_mag (fold (read_bin (fft_hw tr lat)) ks s) ! k =
    (let w = cpu_buf (dev s) ! k in unat (mag_of (s16 w) (s16 (drop_bit 16 w))))"
  using assms
proof (induction ks arbitrary: s)
  case Nil
  then show ?case by simp
next
  case (Cons j ks)
  let ?t = "read_bin (fft_hw tr lat) j s"
  have t: "dev ?t = dev s" "tuner_mag ?t = (tuner_mag s)[j := bin_mag (s16 (cpu_buf (dev s) ! j)) (s16 (drop_bit 16 (cpu_buf (dev s) ! j)))]"
    by (simp_all add: read_bin_def fft_read_def rd_fft Let_def)
  show ?case
  proof (cases "k = j")
    case True
    have other: "k \<notin> set ls \<Longrightarrow> tuner_mag (fold (read_bin (fft_hw tr lat)) ls u) ! k = tuner_mag u ! k" for ls u
      by (induction ls arbitrary: u) (simp_all add: read_bin_def fft_read_def rd_fft Let_def)
    have "tuner_mag (fold (read_bin (fft_hw tr lat)) ks ?t) ! k = tuner_mag ?t ! k"
      using Cons.prems True by (intro other) simp
    then show ?thesis using Cons.prems True by (simp add: t bin_mag_of Let_def)
  next
    case False
    then show ?thesis using Cons.IH [of ?t] Cons.prems t(1) by (simp add: read_bin_frame)
  qed
qed

text \<open>The spectrum pass fills every bin of the search band and its two neighbours with the driver's magnitude
  of the transformed sample, although it reads one word per bin instead of two and keeps 16 bits of the
  result; no bin is truncated.\<close>

theorem tuner_spectrum_is_fft_mag:
  assumes "length (tuner_mag s) = 512" and "TUNER_KMIN - 1 \<le> k" and "k \<le> TUNER_KMAX + 1"
  shows "tuner_mag (tuner_read_spectrum (fft_hw tr lat) s) ! k =
    unat (fst (fft_mag (fft_hw tr lat) k s))"
proof -
  have "k \<in> set [TUNER_KLO..<TUNER_KHI + 1]" using assms(2,3) unfolding set_upt by (simp add: band_bounds)
  then have "tuner_mag (tuner_read_spectrum (fft_hw tr lat) s) ! k =
      (let w = cpu_buf (dev s) ! k in unat (mag_of (s16 w) (s16 (drop_bit 16 w))))"
    unfolding tuner_read_spectrum_def using assms(1)
    by (intro read_bins_fft) (auto simp: band_bounds simp del: upt_Suc)
  then show ?thesis by (simp add: fft_mag_def fft_read_re_def fft_read_im_def rd_fft Let_def)
qed

theorem tuner_spectrum_is_fft_mag_witness:
  "tuner_mag (tuner_read_spectrum (fft_hw (\<lambda>n b sc xs. xs) 0)
     (tuner_statics (idle_fft\<lparr>cpu_buf := replicate 1024 0x00030004\<rparr>))) ! 100 = 5"
  using tuner_spectrum_is_fft_mag [of "tuner_statics (idle_fft\<lparr>cpu_buf := replicate 1024 0x00030004\<rparr>)" 100 "\<lambda>n b sc xs. xs" 0]
  by (simp add: tuner_statics_def TUNER_N_def band_bounds fft_mag_def fft_read_re_def fft_read_im_def rd_fft s16_def mag_of_def)

end
