(* ===== verification/Tuner_Screen.thy ===== *)
theory Tuner_Screen
  imports Tuner_Pitch Oled_Text Oled_Panel
begin

text \<open>
  \<open>guitar_tuner.c\<close>, the display and the console: the gauge, the composition of a frame in the framebuffer,
  the flush that sends only pages whose hash changed, and the report lines.  Drawing works on the
  framebuffer alone; its loops over unsigned coordinates return options.
\<close>

definition TUNER_GAUGE_CX :: int where "TUNER_GAUGE_CX = 64"
definition TUNER_GAUGE_HALF :: int where "TUNER_GAUGE_HALF = 56"
definition TUNER_GAUGE_SPAN :: int where "TUNER_GAUGE_SPAN = 50"
definition TUNER_GAUGE_AXIS :: u32 where "TUNER_GAUGE_AXIS = 39"
definition TUNER_GAUGE_TOP :: u32 where "TUNER_GAUGE_TOP = 32"
definition TUNER_GAUGE_BOT :: u32 where "TUNER_GAUGE_BOT = 47"
definition TUNER_IN_TUNE_CENTS :: int where "TUNER_IN_TUNE_CENTS = 5"
definition TUNER_PAGES :: nat where "TUNER_PAGES = 64 div 8"

section \<open>Drawing a frame\<close>

definition bytes_of :: "string \<Rightarrow> u8 list" where
  "bytes_of str = map of_char str"

definition tuner_gauge_x :: "int \<Rightarrow> int" where
  "tuner_gauge_x c =
     (let c = (if c > TUNER_GAUGE_SPAN then TUNER_GAUGE_SPAN
               else if c < - TUNER_GAUGE_SPAN then - TUNER_GAUGE_SPAN else c);
          x = TUNER_GAUGE_CX + (c * TUNER_GAUGE_HALF) sdiv TUNER_GAUGE_SPAN
      in if x < 1 then 1 else if x > uint SSD1306_WIDTH - 2 then uint SSD1306_WIDTH - 2 else x)"

definition scale_ticks :: "int list" where
  "scale_ticks = [- 50, - 25, 0, 25, 50]"

fun draw_ticks :: "int list \<Rightarrow> u8 list \<Rightarrow> u8 list option" where
  "draw_ticks [] fb = Some fb"
| "draw_ticks (t # ts) fb = do {
     let x = word_of_int (tuner_gauge_x t);
     fb \<leftarrow> (if t = 0 then ssd1306_vline x TUNER_GAUGE_TOP TUNER_GAUGE_BOT True fb
           else ssd1306_vline x (TUNER_GAUGE_AXIS - 4) (TUNER_GAUGE_AXIS + 4) True fb);
     draw_ticks ts fb }"

definition tuner_draw_scale :: "u8 list \<Rightarrow> u8 list option" where
  "tuner_draw_scale fb = do {
     fb \<leftarrow> ssd1306_hline 6 (SSD1306_WIDTH - 7) TUNER_GAUGE_AXIS True fb;
     draw_ticks scale_ticks fb }"

definition tuner_draw_needle :: "int \<Rightarrow> u8 list \<Rightarrow> u8 list option" where
  "tuner_draw_needle c fb =
     (let x = word_of_int (tuner_gauge_x c)
      in ssd1306_fill_rect (x - 1) TUNER_GAUGE_TOP 3 (TUNER_GAUGE_BOT - TUNER_GAUGE_TOP + 1) True fb)"

definition tuner_banner :: "u32 \<Rightarrow> string \<Rightarrow> bool \<Rightarrow> u8 list \<Rightarrow> u8 list option" where
  "tuner_banner y str inverted fb =
     (let cs = bytes_of str; w = ssd1306_text_width cs 1; x = (SSD1306_WIDTH - w) div 2
      in if inverted then do {
           fb \<leftarrow> ssd1306_fill_rect (x - 2) (y - 1) (w + 3) (8 + 1) True fb;
           Some (snd (ssd1306_text x y cs False fb)) }
         else Some (snd (ssd1306_text x y cs True fb)))"

text \<open>The two screens of \<open>tuner_render\<close>: without a pitch, and with one.\<close>

definition silent_frame :: "u8 list \<Rightarrow> u8 list option" where
  "silent_frame fb = do {
     fb \<leftarrow> tuner_banner 2 ''PLUCK A STRING'' False fb;
     fb \<leftarrow> tuner_draw_scale fb;
     tuner_banner 54 ''NO SIGNAL'' False fb }"

definition verdict :: "int \<Rightarrow> string \<times> bool" where
  "verdict c = (if c > TUNER_IN_TUNE_CENTS then (''SHARP'', False)
                else if c < - TUNER_IN_TUNE_CENTS then (''FLAT'', False) else (''IN TUNE'', True))"

definition pitch_frame :: "tuner_result \<Rightarrow> bool \<Rightarrow> int \<Rightarrow> u8 list \<Rightarrow> u8 list option" where
  "pitch_frame r held needle fb = do {
     let fb = snd (ssd1306_text_scaled 2 0 (bytes_of (snd (tuner_notes ! note_ix r))) 2 True fb);
     let fb = (if held then snd (ssd1306_text (SSD1306_WIDTH - 6) 0 (bytes_of ''H'') True fb) else fb);
     let (x, fb) = ssd1306_fixed 62 0 (f_cHz r) 2 1 True fb;
     let fb = snd (ssd1306_text x 0 (bytes_of ''HZ'') True fb);
     let (x, fb) = ssd1306_int 62 10 (word_of_int (cents r)) 4 1 True fb;
     let fb = snd (ssd1306_text x 10 (bytes_of ''CT'') True fb);
     fb \<leftarrow> tuner_draw_scale fb;
     fb \<leftarrow> tuner_draw_needle needle fb;
     let (str, inverted) = verdict (cents r);
     tuner_banner 54 str inverted fb }"

definition tuner_render ::
  "'d hw \<Rightarrow> tuner_result \<Rightarrow> bool \<Rightarrow> int \<Rightarrow> ('d, 'z) tuner_scheme \<Rightarrow> ('d, 'z) tuner_scheme option" where
  "tuner_render hw r held needle s = do {
     s \<leftarrow> tuner_drain hw s;
     let s = s\<lparr>ssd1306_fb := ssd1306_clear (ssd1306_fb s)\<rparr>;
     if \<not> valid r then do {
       fb \<leftarrow> silent_frame (ssd1306_fb s);
       ssd1306_update hw (s\<lparr>ssd1306_fb := fb\<rparr>) }
     else do {
       fb \<leftarrow> pitch_frame r held needle (ssd1306_fb s);
       Some (s\<lparr>ssd1306_fb := fb\<rparr>) } }"

section \<open>Animation and flush\<close>

definition tuner_anim_step :: "int \<Rightarrow> int \<Rightarrow> int" where
  "tuner_anim_step cur target =
     (let d = target - cur
      in if d = 0 then cur
         else let s = d sdiv 3; s = (if s = 0 then if d > 0 then 1 else - 1 else s) in cur + s)"

definition row_hash :: "u8 list \<Rightarrow> u16" where
  "row_hash row = fold (\<lambda>b h. h * 31 + ucast b) row 0"

definition page_row :: "u8 list \<Rightarrow> nat \<Rightarrow> u8 list" where
  "page_row fb p = page_bytes p 0 (unat SSD1306_WIDTH) fb"

definition flush_page :: "'d hw \<Rightarrow> nat \<Rightarrow> ('d, 'z) tuner_scheme \<Rightarrow> ('d, 'z) tuner_scheme option" where
  "flush_page hw p s =
     (let h = row_hash (page_row (ssd1306_fb s) p)
      in if \<not> tuner_page_primed s \<or> h \<noteq> tuner_page_hash s ! p then do {
           s \<leftarrow> ssd1306_update_page hw (Some (tuner_drain hw)) (of_nat p) s;
           Some (s\<lparr>tuner_page_hash := (tuner_page_hash s)[p := h]\<rparr>) }
         else Some s)"

fun flush_pages :: "'d hw \<Rightarrow> nat list \<Rightarrow> ('d, 'z) tuner_scheme \<Rightarrow> ('d, 'z) tuner_scheme option" where
  "flush_pages hw [] s = Some s"
| "flush_pages hw (p # ps) s = do { s \<leftarrow> flush_page hw p s; flush_pages hw ps s }"

definition tuner_flush_display :: "'d hw \<Rightarrow> ('d, 'z) tuner_scheme \<Rightarrow> ('d, 'z) tuner_scheme option" where
  "tuner_flush_display hw s = do {
     s \<leftarrow> tuner_drain hw s;
     s \<leftarrow> flush_pages hw [0..<TUNER_PAGES] s;
     Some (s\<lparr>tuner_page_primed := True\<rparr>) }"

section \<open>Console\<close>

text \<open>
  The writer of one character is an argument: \<open>tuner_putc\<close>, which drains the receiver first, on the board,
  \<open>uart_putc\<close> in the self-check.
\<close>

definition tuner_putc :: "'d hw \<Rightarrow> char \<Rightarrow> ('d, 'z) tuner_scheme \<Rightarrow> ('d, 'z) tuner_scheme option" where
  "tuner_putc hw c s = do { s \<leftarrow> tuner_drain hw s; uart_putc hw c s }"

definition tuner_puts :: "'d hw \<Rightarrow> string \<Rightarrow> ('d, 'z) tuner_scheme \<Rightarrow> ('d, 'z) tuner_scheme option" where
  "tuner_puts hw str s = put_all (tuner_putc hw) str s"

definition digit_char :: "nat \<Rightarrow> char" where
  "digit_char d = char_of (48 + d)"

definition uint_text :: "nat \<Rightarrow> string" where
  "uint_text v = rev (map digit_char (digits_loop 10 12 v))"

definition tuner_put_uint :: "(char \<Rightarrow> 's \<Rightarrow> 's option) \<Rightarrow> nat \<Rightarrow> 's \<Rightarrow> 's option" where
  "tuner_put_uint put v s = put_all put (uint_text v) s"

definition tuner_put_int :: "(char \<Rightarrow> 's \<Rightarrow> 's option) \<Rightarrow> int \<Rightarrow> 's \<Rightarrow> 's option" where
  "tuner_put_int put v s =
     (if v < 0 then do { s \<leftarrow> put (CHR ''-'') s; tuner_put_uint put (nat (- v)) s }
      else tuner_put_uint put (nat v) s)"

definition tuner_put_chz :: "(char \<Rightarrow> 's \<Rightarrow> 's option) \<Rightarrow> nat \<Rightarrow> 's \<Rightarrow> 's option" where
  "tuner_put_chz put v s = do {
     s \<leftarrow> tuner_put_uint put (v div 100) s;
     s \<leftarrow> put (CHR ''.'') s;
     s \<leftarrow> put (digit_char ((v div 10) mod 10)) s;
     put (digit_char (v mod 10)) s }"

definition crlf :: string where
  "crlf = [char_of (13 :: nat), char_of (10 :: nat)]"

definition report_silence ::
  "'d hw \<Rightarrow> tuner_result \<Rightarrow> ('d, 'z) tuner_scheme \<Rightarrow> ('d, 'z) tuner_scheme option" where
  "report_silence hw r s = do {
     s \<leftarrow> tuner_puts hw ''-- no signal (peak '' s;
     s \<leftarrow> tuner_put_uint (tuner_putc hw) (peak r) s;
     s \<leftarrow> tuner_puts hw '', raw '' s;
     s \<leftarrow> tuner_put_int (tuner_putc hw) (tuner_raw_min (inp s)) s;
     s \<leftarrow> tuner_puts hw ''..'' s;
     s \<leftarrow> tuner_put_int (tuner_putc hw) (tuner_raw_max (inp s)) s;
     s \<leftarrow> tuner_puts hw '', floor '' s;
     s \<leftarrow> tuner_put_uint (tuner_putc hw) (tuner_floor s) s;
     tuner_puts hw ('')'' @ crlf) s }"

definition report_pitch ::
  "'d hw \<Rightarrow> tuner_result \<Rightarrow> ('d, 'z) tuner_scheme \<Rightarrow> ('d, 'z) tuner_scheme option" where
  "report_pitch hw r s = do {
     s \<leftarrow> tuner_puts hw (snd (tuner_notes ! note_ix r)) s;
     s \<leftarrow> tuner_puts hw ''  '' s;
     s \<leftarrow> tuner_put_chz (tuner_putc hw) (unat (f_cHz r)) s;
     s \<leftarrow> tuner_puts hw '' Hz  '' s;
     s \<leftarrow> (if cents r \<ge> 0 then tuner_putc hw (CHR ''+'') s else Some s);
     s \<leftarrow> tuner_put_int (tuner_putc hw) (cents r) s;
     s \<leftarrow> tuner_puts hw '' cents  peak '' s;
     s \<leftarrow> tuner_put_uint (tuner_putc hw) (peak r) s;
     s \<leftarrow> (if tuner_ovr_count s \<noteq> 0 then do {
            s \<leftarrow> tuner_puts hw ''  OVR '' s;
            tuner_put_uint (tuner_putc hw) (unat (tuner_ovr_count s)) s } else Some s);
     tuner_puts hw crlf s }"

definition tuner_report ::
  "'d hw \<Rightarrow> tuner_result \<Rightarrow> bool \<Rightarrow> ('d, 'z) tuner_scheme \<Rightarrow> ('d, 'z) tuner_scheme option" where
  "tuner_report hw r held s = do {
     s \<leftarrow> (if held then tuner_puts hw ''(held) '' s else Some s);
     if \<not> valid r then report_silence hw r s else report_pitch hw r s }"

section \<open>The gauge\<close>

lemma sdiv_mono:
  fixes a b k :: int
  assumes "0 < k" and "a \<le> b"
  shows "a sdiv k \<le> b sdiv k"
proof -
  have pos: "x sdiv k = x div k" "0 \<le> x sdiv k" if "0 \<le> x" for x
    using assms(1) that by (auto simp: signed_divide_int_def sgn_if pos_imp_zdiv_nonneg_iff)
  have neg: "x sdiv k = - ((- x) sdiv k)" for x
    by (simp add: signed_divide_int_def)
  consider "0 \<le> a" | "a < 0" "0 \<le> b" | "b < 0" by linarith
  then show ?thesis
  proof cases
    case 1
    then show ?thesis using assms pos(1) by (simp add: zdiv_mono1)
  next
    case 2
    then show ?thesis using pos(2) [of b] pos(2) [of "- a"] neg [of a] by linarith
  next
    case 3
    then have "(- b) sdiv k \<le> (- a) sdiv k" using assms pos(1) [of "- b"] pos(1) [of "- a"] by (simp add: zdiv_mono1)
    then show ?thesis using neg [of a] neg [of b] by linarith
  qed
qed

definition clamp50 :: "int \<Rightarrow> int" where
  "clamp50 c = (if c > 50 then 50 else if c < - 50 then - 50 else c)"

lemma clamp50: "- 50 \<le> clamp50 c" "clamp50 c \<le> 50" "c \<le> d \<Longrightarrow> clamp50 c \<le> clamp50 d" "clamp50 (- c) = - clamp50 c"
  by (auto simp: clamp50_def)

lemma gauge_offset: "- 56 \<le> (clamp50 c * 56) sdiv 50" "(clamp50 c * 56) sdiv 50 \<le> 56"
proof -
  have "(- 50 * 56) sdiv 50 \<le> (clamp50 c * 56) sdiv 50" "(clamp50 c * 56) sdiv 50 \<le> (50 * 56) sdiv (50 :: int)"
    by (rule sdiv_mono; use clamp50(1,2) [of c] in simp)+
  moreover have "(- 50 * 56) sdiv 50 = (- 56 :: int)" "(50 * 56) sdiv 50 = (56 :: int)"
    by (simp_all add: signed_divide_int_def)
  ultimately show "- 56 \<le> (clamp50 c * 56) sdiv 50" "(clamp50 c * 56) sdiv 50 \<le> 56" by simp_all
qed

lemma gauge_core: "tuner_gauge_x c = 64 + (clamp50 c * 56) sdiv 50"
  using gauge_offset [of c]
  unfolding tuner_gauge_x_def Let_def TUNER_GAUGE_SPAN_def TUNER_GAUGE_CX_def TUNER_GAUGE_HALF_def SSD1306_WIDTH_def clamp50_def
  by auto

lemma gauge_range: "8 \<le> tuner_gauge_x c \<and> tuner_gauge_x c \<le> 120"
  using gauge_offset [of c] unfolding gauge_core by linarith

text \<open>The needle's column is a monotone function of the deviation, in the middle of the panel exactly at the
  pitch, symmetric about it, and never nearer than eight columns to either edge, whatever the deviation.\<close>

theorem tuner_gauge_monotone:
  "(\<forall>c. 8 \<le> tuner_gauge_x c \<and> tuner_gauge_x c \<le> 120 \<and> tuner_gauge_x c + tuner_gauge_x (- c) = 128) \<and>
   (\<forall>c d. c \<le> d \<longrightarrow> tuner_gauge_x c \<le> tuner_gauge_x d) \<and> tuner_gauge_x 0 = 64"
proof (intro conjI allI impI)
  fix c d :: int
  show "8 \<le> tuner_gauge_x c" "tuner_gauge_x c \<le> 120" using gauge_range by blast+
  have "(- x) sdiv 50 = - (x sdiv 50)" for x :: int by (simp add: signed_divide_int_def)
  then show "tuner_gauge_x c + tuner_gauge_x (- c) = 128" unfolding gauge_core clamp50(4) by simp
  show "tuner_gauge_x c \<le> tuner_gauge_x d" if "c \<le> d"
    unfolding gauge_core using clamp50(3) [OF that] by (intro add_left_mono sdiv_mono) simp_all
  show "tuner_gauge_x 0 = 64" by (simp add: gauge_core clamp50_def signed_divide_int_def)
qed

theorem tuner_gauge_monotone_witness:
  "tuner_gauge_x 10 \<le> tuner_gauge_x 25 \<and> tuner_gauge_x 25 \<le> 120"
  using tuner_gauge_monotone by simp

section \<open>A frame is drawn completely\<close>

text \<open>A drawing returns, keeps the framebuffer well-formed, and leaves the rows before \<open>y\<close> alone.\<close>

definition draws :: "nat \<Rightarrow> (u8 list \<Rightarrow> u8 list option) \<Rightarrow> bool" where
  "draws y f \<longleftrightarrow> (\<forall>fb. fb_wf fb \<longrightarrow> (\<exists>fb'. f fb = Some fb' \<and> fb_wf fb' \<and>
     (\<forall>px py. unat px < 128 \<longrightarrow> unat py < y \<longrightarrow> unat py < 64 \<longrightarrow> fb_get fb' (px, py) = fb_get fb (px, py))))"

lemma draws_points:
  assumes "\<And>fb. f fb = Some (draw put_pixel ps on fb)" and "\<forall>(px, py) \<in> set ps. y \<le> unat py"
  shows "draws y f"
proof -
  have "fb_get (draw put_pixel ps on fb) (px, py) = fb_get fb (px, py)"
    if "fb_wf fb" "unat px < 128" "unat py < y" "unat py < 64" for fb px py
    using panel.get_draw [OF that(1), of "(px, py)"] assms(2) that by (auto simp: on_panel_def)
  then show ?thesis using panel.wf_draw unfolding draws_def assms(1) by blast
qed

lemma draws_bind: "draws y f \<Longrightarrow> draws y g \<Longrightarrow> draws y (\<lambda>fb. do { fb \<leftarrow> f fb; g fb })"
  unfolding draws_def by (metis bind.bind_lunit)

lemma draws_weaken: "draws y f \<Longrightarrow> z \<le> y \<Longrightarrow> draws z f"
  unfolding draws_def by (meson less_le_trans)

lemma draws_some: "draws y f \<Longrightarrow> fb_wf fb \<Longrightarrow> \<exists>fb'. f fb = Some fb' \<and> fb_wf fb'"
  unfolding draws_def by blast

lemma text_cells: "ssd1306_text x y cs on fb = scaled_cells x y cs 1 on fb"
  by (induction cs arbitrary: x fb) (simp_all add: ssd1306_char_scaled_def)

lemma glyph_points_rows: "unat y \<le> 56 \<Longrightarrow> (px, py) \<in> set (glyph_points x y c 1) \<Longrightarrow> unat y \<le> unat py"
proof -
  assume y: "unat y \<le> 56" and "(px, py) \<in> set (glyph_points x y c 1)"
  then obtain row where "row < 7" "py = y + of_nat row"
    by (auto simp: glyph_points_def square_def split: if_splits)
  then show "unat y \<le> unat py" using y by (simp add: unat_word_ariths unat_of_nat)
qed

lemma text_points_rows: "unat y \<le> 56 \<Longrightarrow> \<forall>(px, py) \<in> set (text_points x y cs 1). unat y \<le> unat py"
  by (induction cs arbitrary: x) (auto dest: glyph_points_rows)

lemma draws_text:
  assumes "unat y \<le> 56"
  shows "draws (unat y) (\<lambda>fb. Some (snd (ssd1306_text x y cs on fb)))"
  by (rule draws_points [OF _ text_points_rows [OF assms]]) (simp add: text_cells scaled_cells_draw)

lemma draws_fill_rect:
  assumes "w \<noteq> 0" and "unat x + unat w < 2 ^ 32" and "unat y + unat h \<le> 2 ^ 32"
  shows "draws (unat y) (ssd1306_fill_rect x y w h on)"
proof (rule draws_points)
  show "ssd1306_fill_rect x y w h on fb = Some (draw put_pixel (span_points x y (unat w) (unat h)) on fb)" for fb
    using fill_rows_draw [OF assms(1,2), of 0 "unat h"] by (simp add: ssd1306_fill_rect_def)
  show "\<forall>(px, py) \<in> set (span_points x y (unat w) (unat h)). unat y \<le> unat py"
    using span_points_mem [of x "unat w" y "unat h"] assms(2,3) by auto
qed

lemma draws_hline: "x1 \<noteq> - 1 \<Longrightarrow> unat x \<le> unat x1 \<Longrightarrow> draws (unat y) (ssd1306_hline x x1 y on)"
  by (rule draws_points [where ps = "map (\<lambda>i. (x + of_nat i, y)) [0..<Suc (unat x1) - unat x]"])
     (auto intro: hline_draw simp: image_iff)

lemma draws_vline:
  assumes "y1 \<noteq> - 1" and "unat y \<le> unat y1"
  shows "draws (unat y) (ssd1306_vline x y y1 on)"
proof (rule draws_points [where ps = "map (\<lambda>i. (x, y + of_nat i)) [0..<Suc (unat y1) - unat y]"])
  show "ssd1306_vline x y y1 on fb = Some (draw put_pixel (map (\<lambda>i. (x, y + of_nat i)) [0..<Suc (unat y1) - unat y]) on fb)" for fb
    using assms by (intro vline_draw) simp_all
  have "unat y1 < 2 ^ 32" using unat_bound [of y1] by simp
  then have "unat y \<le> unat (y + of_nat i)" if "i < Suc (unat y1) - unat y" for i
    using that span_mem [of y "Suc (unat y1) - unat y" "y + of_nat i"] assms(2) by auto
  then show "\<forall>(px, py) \<in> set (map (\<lambda>i. (x, y + of_nat i)) [0..<Suc (unat y1) - unat y]). unat y \<le> unat py"
    by auto
qed

lemma draws_ticks: "draws 32 (draw_ticks ts)"
proof (induction ts)
  case Nil
  show ?case by (simp add: draws_def)
next
  case (Cons t ts)
  have "draws 32 (ssd1306_vline x TUNER_GAUGE_TOP TUNER_GAUGE_BOT True)" for x
    using draws_vline [of TUNER_GAUGE_BOT TUNER_GAUGE_TOP x True] by (simp add: TUNER_GAUGE_BOT_def TUNER_GAUGE_TOP_def)
  moreover have "draws 32 (ssd1306_vline x (TUNER_GAUGE_AXIS - 4) (TUNER_GAUGE_AXIS + 4) True)" for x
    using draws_vline [of "TUNER_GAUGE_AXIS + 4" "TUNER_GAUGE_AXIS - 4" x True]
    by - (rule draws_weaken [where y = 35], simp_all add: TUNER_GAUGE_AXIS_def)
  ultimately show ?case using draws_bind [OF _ Cons] by (cases "t = 0") simp_all
qed

lemma draws_scale: "draws 32 tuner_draw_scale"
proof -
  have "draws 32 (ssd1306_hline 6 (SSD1306_WIDTH - 7) TUNER_GAUGE_AXIS True)"
    using draws_hline [of "SSD1306_WIDTH - 7" 6 TUNER_GAUGE_AXIS True]
    by - (rule draws_weaken [where y = 39], simp_all add: TUNER_GAUGE_AXIS_def SSD1306_WIDTH_def)
  then show ?thesis unfolding tuner_draw_scale_def by (rule draws_bind [OF _ draws_ticks])
qed

lemma draws_banner:
  assumes "0 < unat y" and "unat y \<le> 56" and "length str \<le> 20"
  shows "draws (unat y - 1) (tuner_banner y str inverted)"
proof -
  let ?w = "ssd1306_text_width (bytes_of str) 1"
  have w: "unat ?w = 6 * length str"
    using assms(3) by (simp add: ssd1306_text_width_def SSD1306_CHAR_W_def bytes_of_def unat_word_ariths unat_of_nat)
  then have x: "unat ((SSD1306_WIDTH - ?w) div 2) = (128 - 6 * length str) div 2"
    using assms(3) by (simp add: unat_div unat_sub word_le_nat_alt SSD1306_WIDTH_def)
  have y1: "unat (y - 1) = unat y - 1" using assms(1) by (simp add: unat_sub word_le_nat_alt)
  have x2: "unat ((SSD1306_WIDTH - ?w) div 2 - 2) = (128 - 6 * length str) div 2 - 2"
    using x assms(3) by (simp add: unat_sub word_le_nat_alt)
  have w3: "unat (?w + 3) = 6 * length str + 3" using w assms(3) by (simp add: unat_word_ariths)
  have "draws (unat (y - 1)) (ssd1306_fill_rect ((SSD1306_WIDTH - ?w) div 2 - 2) (y - 1) (?w + 3) (8 + 1) True)"
    using assms x2 w3 y1 by (intro draws_fill_rect) (auto simp: unat_eq_zero [symmetric])
  moreover have "draws (unat y - 1) (\<lambda>fb. Some (snd (ssd1306_text x y cs on fb)))" for x cs on
    using draws_text [OF assms(2)] by (rule draws_weaken) simp
  ultimately show ?thesis
    unfolding tuner_banner_def Let_def y1 by (cases inverted) (simp_all add: draws_bind)
qed

lemma wf_cells: "scale \<noteq> 0 \<Longrightarrow> fb_wf fb \<Longrightarrow> fb_wf (snd (scaled_cells x y cs scale on fb))"
  by (simp add: scaled_cells_draw panel.wf_draw)

lemma wf_text: "fb_wf fb \<Longrightarrow> fb_wf (snd (ssd1306_text x y cs on fb))"
  by (simp add: text_cells wf_cells)

lemma wf_text_scaled: "fb_wf fb \<Longrightarrow> fb_wf (snd (ssd1306_text_scaled x y cs scale on fb))"
  by (simp add: ssd1306_text_scaled_def Let_def wf_cells)

lemma wf_int: "scale \<noteq> 0 \<Longrightarrow> fb_wf fb \<Longrightarrow> fb_wf (snd (ssd1306_int x y v width scale on fb))"
  by (simp add: ssd1306_int_def Let_def split_beta wf_cells)

lemma wf_fixed: "scale \<noteq> 0 \<Longrightarrow> fb_wf fb \<Longrightarrow> fb_wf (snd (ssd1306_fixed x y v frac scale on fb))"
  by (simp add: ssd1306_fixed_def Let_def split_beta wf_cells wf_int del: scaled_cells.simps)

lemma needle_drawn:
  assumes "fb_wf fb"
  shows "\<exists>fb'. tuner_draw_needle c fb = Some fb' \<and> fb_wf fb' \<and>
    (\<forall>px py. nat (tuner_gauge_x c - 1) \<le> unat px \<and> unat px \<le> nat (tuner_gauge_x c + 1) \<and>
       32 \<le> unat py \<and> unat py \<le> 47 \<longrightarrow> fb_get fb' (px, py))"
proof -
  define x where "x = tuner_gauge_x c"
  have x: "8 \<le> x" "x \<le> 120" using gauge_range by (simp_all add: x_def)
  have u: "unat (word_of_int x - 1 :: u32) = nat (x - 1)"
  proof -
    have "word_of_int x - 1 = (word_of_int (x - 1) :: u32)" by simp
    moreover have "uint (word_of_int (x - 1) :: u32) = x - 1" using x by (intro word_of_small) simp_all
    ultimately show ?thesis by (metis unat_eq_nat_uint)
  qed
  have span: "(px, py) \<in> set (span_points (word_of_int x - 1) 32 3 16) \<longleftrightarrow>
      nat (x - 1) \<le> unat px \<and> unat px < nat (x - 1) + 3 \<and> 32 \<le> unat py \<and> unat py < 48" for px py
    using span_points_mem [of "word_of_int x - 1" 3 32 16 px py] x u by simp
  have r: "tuner_draw_needle c fb = Some (draw put_pixel (span_points (word_of_int x - 1) 32 3 16) True fb)"
    using fill_rows_draw [of 3 "word_of_int x - 1" 0 16 16 32 True fb] x u
    by (simp add: tuner_draw_needle_def ssd1306_fill_rect_def TUNER_GAUGE_TOP_def TUNER_GAUGE_BOT_def Let_def flip: x_def)
  have "fb_get (draw put_pixel (span_points (word_of_int x - 1) 32 3 16) True fb) (px, py)"
    if "nat (x - 1) \<le> unat px" "unat px \<le> nat (x + 1)" "32 \<le> unat py" "unat py \<le> 47" for px py
  proof -
    have "on_panel (px, py)" using that x by (simp add: on_panel_def)
    moreover have "(px, py) \<in> set (span_points (word_of_int x - 1) 32 3 16)" using that x by (simp add: span)
    ultimately show ?thesis using panel.get_draw [OF assms] by simp
  qed
  then show ?thesis using r panel.wf_draw [OF assms] unfolding x_def [symmetric] by blast
qed

text \<open>C26: a frame is always drawn to the end, although the drawing loops on unsigned coordinates need not stop:
  for any result, held or not, and any deviation the composition returns a framebuffer of the right size in
  which the whole needle, three columns at the gauge position over rows 32 to 47, is lit; and the
  no-signal screen is drawn to the end too.\<close>

theorem tuner_frame_complete:
  assumes "fb_wf fb"
  shows "(\<exists>fb'. pitch_frame r held c fb = Some fb' \<and> fb_wf fb' \<and>
      (\<forall>px py. nat (tuner_gauge_x c - 1) \<le> unat px \<and> unat px \<le> nat (tuner_gauge_x c + 1) \<and>
         32 \<le> unat py \<and> unat py \<le> 47 \<longrightarrow> fb_get fb' (px, py))) \<and>
    (\<exists>fb'. silent_frame fb = Some fb' \<and> fb_wf fb')"
proof (rule conjI)
  define fa where "fa = snd (ssd1306_text_scaled 2 0 (bytes_of (snd (tuner_notes ! note_ix r))) 2 True fb)"
  define fc where "fc = (if held then snd (ssd1306_text (SSD1306_WIDTH - 6) 0 (bytes_of ''H'') True fa) else fa)"
  obtain xd fd where d: "ssd1306_fixed 62 0 (f_cHz r) 2 1 True fc = (xd, fd)" by fastforce
  define fe where "fe = snd (ssd1306_text xd 0 (bytes_of ''HZ'') True fd)"
  obtain xf ff where f: "ssd1306_int 62 10 (word_of_int (cents r)) 4 1 True fe = (xf, ff)" by fastforce
  define fg where "fg = snd (ssd1306_text xf 10 (bytes_of ''CT'') True ff)"
  have "fb_wf fa" using wf_text_scaled [OF assms] by (simp add: fa_def)
  then have "fb_wf fc" using wf_text by (simp add: fc_def)
  then have "fb_wf fd" using wf_fixed [of 1 fc 62 0 "f_cHz r" 2 True] d by simp
  then have "fb_wf fe" using wf_text by (simp add: fe_def)
  then have "fb_wf ff" using wf_int [of 1 fe 62 10 "word_of_int (cents r)" 4 True] f by simp
  then have "fb_wf fg" using wf_text by (simp add: fg_def)
  then obtain fh where h: "tuner_draw_scale fg = Some fh" "fb_wf fh" using draws_some [OF draws_scale] by blast
  obtain fi where i: "tuner_draw_needle c fh = Some fi" "fb_wf fi"
      "\<forall>px py. nat (tuner_gauge_x c - 1) \<le> unat px \<and> unat px \<le> nat (tuner_gauge_x c + 1) \<and>
         32 \<le> unat py \<and> unat py \<le> 47 \<longrightarrow> fb_get fi (px, py)"
    using needle_drawn [OF h(2), of c] by blast
  obtain str inv' where v: "verdict (cents r) = (str, inv')" by fastforce
  have "length str \<le> 20" using v by (auto simp: verdict_def split: if_splits)
  then have "draws 53 (tuner_banner 54 str inv')" using draws_banner [of 54 str inv'] by simp
  then obtain fj where j: "tuner_banner 54 str inv' fi = Some fj" "fb_wf fj"
      "\<forall>px py. unat px < 128 \<longrightarrow> unat py < 53 \<longrightarrow> unat py < 64 \<longrightarrow> fb_get fj (px, py) = fb_get fi (px, py)"
    using i(2) unfolding draws_def by blast
  have "pitch_frame r held c fb = Some fj"
    using h(1) i(1) j(1) v by (simp add: pitch_frame_def Let_def d f flip: fa_def fc_def fe_def fg_def)
  moreover have "fb_get fj (px, py)"
    if "nat (tuner_gauge_x c - 1) \<le> unat px" "unat px \<le> nat (tuner_gauge_x c + 1)" "32 \<le> unat py" "unat py \<le> 47" for px py
  proof -
    have "unat px < 128" using that(2) gauge_range [of c] by linarith
    then show ?thesis using that i(3) j(3) by simp
  qed
  ultimately show "\<exists>fb'. pitch_frame r held c fb = Some fb' \<and> fb_wf fb' \<and>
      (\<forall>px py. nat (tuner_gauge_x c - 1) \<le> unat px \<and> unat px \<le> nat (tuner_gauge_x c + 1) \<and>
         32 \<le> unat py \<and> unat py \<le> 47 \<longrightarrow> fb_get fb' (px, py))"
    using j(2) by blast
  have "draws 0 (tuner_banner 2 ''PLUCK A STRING'' False)" "draws 0 (tuner_banner 54 ''NO SIGNAL'' False)"
    using draws_banner [of 2 "''PLUCK A STRING''" False] draws_banner [of 54 "''NO SIGNAL''" False]
    by (simp_all add: draws_weaken)
  then have "draws 0 silent_frame"
    unfolding silent_frame_def using draws_weaken [OF draws_scale, of 0] by (intro draws_bind) simp_all
  then show "\<exists>fb'. silent_frame fb = Some fb' \<and> fb_wf fb'" using draws_some [OF _ assms] by blast
qed

theorem tuner_frame_complete_witness:
  "\<exists>fb'. pitch_frame \<lparr>valid = True, f_cHz = 11000, peak = 900, note_ix = 7, cents = 3\<rparr> False 3 (replicate 1024 0) = Some fb' \<and>
     fb_get fb' (67, 40)"
proof -
  have "fb_wf (replicate 1024 0)" by (simp add: fb_wf_def SSD1306_FB_SIZE_def)
  moreover have "tuner_gauge_x 3 = 67" by (simp add: gauge_core clamp50_def signed_divide_int_def)
  ultimately show ?thesis
    using tuner_frame_complete [of "replicate 1024 0" "\<lparr>valid = True, f_cHz = 11000, peak = 900, note_ix = 7, cents = 3\<rparr>" False 3]
    by fastforce
qed

section \<open>The needle arrives\<close>

text \<open>What a step leaves of a distance.\<close>

definition shrink :: "nat \<Rightarrow> nat" where
  "shrink n = n - (if n = 0 then 0 else max 1 (n div 3))"

lemma shrink_mono: "m \<le> n \<Longrightarrow> shrink m \<le> shrink n"
proof (rule lift_Suc_mono_le [of shrink])
  show "shrink k \<le> shrink (Suc k)" for k
    by (auto simp: shrink_def div_Suc max_def)
qed

lemma shrink_widest: "(shrink ^^ 15) 270 = 0"
proof -
  have "(15 :: nat) = 5 + (5 + 5)" by simp
  then have "(shrink ^^ 15) n = (shrink ^^ 5) ((shrink ^^ 5) ((shrink ^^ 5) n))" for n
    by (simp only: funpow_add comp_apply)
  moreover have "(shrink ^^ 5) n = shrink (shrink (shrink (shrink (shrink n))))" for n
    by (simp add: eval_nat_numeral)
  moreover have "shrink 270 = 180" "shrink 180 = 120" "shrink 120 = 80" "shrink 80 = 54" "shrink 54 = 36" "shrink 36 = 24" 
    "shrink 24 = 16" "shrink 16 = 11" "shrink 11 = 8" "shrink 8 = 6" "shrink 6 = 4" "shrink 4 = 3" "shrink 3 = 2" "shrink 2 = 1" "shrink 1 = 0"
    by (simp_all add: shrink_def)
  ultimately show ?thesis by (simp only:)
qed

lemma anim_step_shrinks: "nat \<bar>target - tuner_anim_step cur target\<bar> = shrink (nat \<bar>target - cur\<bar>)"
  and anim_step_side: "(cur \<le> target \<longrightarrow> cur \<le> tuner_anim_step cur target \<and> tuner_anim_step cur target \<le> target) \<and>
    (target \<le> cur \<longrightarrow> target \<le> tuner_anim_step cur target \<and> tuner_anim_step cur target \<le> cur)"
proof -
  define d where "d = target - cur"
  have neg: "d sdiv 3 = (if 0 \<le> d then d div 3 else - ((- d) div 3))"
    by (auto simp: signed_divide_int_def sgn_if)
  have step: "tuner_anim_step cur target = cur + (if d = 0 then 0 else if d sdiv 3 = 0 then if d > 0 then 1 else - 1 else d sdiv 3)"
    by (simp add: tuner_anim_step_def Let_def d_def)
  consider "d = 0" | "0 < d" | "d < 0" by linarith
  then have "nat \<bar>target - tuner_anim_step cur target\<bar> = shrink (nat \<bar>target - cur\<bar>) \<and>
    (cur \<le> target \<longrightarrow> cur \<le> tuner_anim_step cur target \<and> tuner_anim_step cur target \<le> target) \<and>
    (target \<le> cur \<longrightarrow> target \<le> tuner_anim_step cur target \<and> tuner_anim_step cur target \<le> cur)"
  proof cases
    case 1
    then show ?thesis unfolding step by (simp add: shrink_def d_def)
  next
    case 2
    define n where "n = nat d"
    have n: "d = int n" "0 < n" using 2 by (simp_all add: n_def)
    have t: "target = cur + int n" using n(1) by (simp add: d_def)
    have "tuner_anim_step cur target = cur + int (max 1 (n div 3))"
      unfolding step neg using n by (auto simp: max_def zdiv_int [symmetric])
    moreover have "max 1 (n div 3) \<le> n" using n(2) by simp
    ultimately show ?thesis using n(2) by (simp add: t shrink_def of_nat_diff)
  next
    case 3
    define n where "n = nat (- d)"
    have n: "d = - int n" "0 < n" using 3 by (simp_all add: n_def)
    have t: "target = cur - int n" using n(1) by (simp add: d_def)
    have "tuner_anim_step cur target = cur - int (max 1 (n div 3))"
      unfolding step neg using n by (auto simp: max_def zdiv_int [symmetric])
    moreover have "max 1 (n div 3) \<le> n" using n(2) by simp
    ultimately show ?thesis using n(2) by (simp add: t shrink_def of_nat_diff)
  qed
  then show "nat \<bar>target - tuner_anim_step cur target\<bar> = shrink (nat \<bar>target - cur\<bar>)"
    and "(cur \<le> target \<longrightarrow> cur \<le> tuner_anim_step cur target \<and> tuner_anim_step cur target \<le> target) \<and>
    (target \<le> cur \<longrightarrow> target \<le> tuner_anim_step cur target \<and> tuner_anim_step cur target \<le> cur)"
    by blast+
qed

text \<open>The needle never overshoots its target and reaches it: from any two deviations the analysis can
  report, at most 270 cents apart, fifteen redraws suffice.\<close>

theorem tuner_anim_converges:
  assumes "\<bar>target - cur\<bar> \<le> 270"
  shows "((\<lambda>c. tuner_anim_step c target) ^^ 15) cur = target \<and>
    \<bar>target - tuner_anim_step cur target\<bar> \<le> \<bar>target - cur\<bar> \<and>
    (cur < target \<longrightarrow> tuner_anim_step cur target \<le> target) \<and> (target < cur \<longrightarrow> target \<le> tuner_anim_step cur target)"
proof -
  have left: "nat \<bar>target - ((\<lambda>c. tuner_anim_step c target) ^^ n) cur\<bar> = (shrink ^^ n) (nat \<bar>target - cur\<bar>)" for n
    by (induction n) (simp_all add: anim_step_shrinks)
  have mono: "a \<le> b \<Longrightarrow> (shrink ^^ n) a \<le> (shrink ^^ n) b" for a b n
    by (induction n) (simp_all add: shrink_mono)
  have "(shrink ^^ 15) (nat \<bar>target - cur\<bar>) \<le> (shrink ^^ 15) 270" by (rule mono) (use assms in simp)
  also have "\<dots> = 0" by (rule shrink_widest)
  finally have "((\<lambda>c. tuner_anim_step c target) ^^ 15) cur = target" using left [of 15] by simp
  then show ?thesis using anim_step_side [of cur target] by auto
qed

theorem tuner_anim_converges_witness:
  "((\<lambda>c. tuner_anim_step c 45) ^^ 15) (- 40) = 45"
  using tuner_anim_converges [of 45 "- 40"] by simp

section \<open>Draining is a quiet hook\<close>

text \<open>
  The board the tuner runs on: the panel on the I2C engine, and the receiver, to which every access, of whatever
  register, is an opportunity for words to arrive.  With finitely many words outstanding and at any rate of
  arrival, the drain ends: each turn takes a word out.  It touches neither the display nor the page table.
\<close>

definition i2s_board :: "(nat \<Rightarrow> nat) \<Rightarrow> i2s_dev hw" where
  "i2s_board rate = \<lparr>hw_rd = \<lambda>r d. (case r of I2s q \<Rightarrow> i2s_reg_rd rate q d | _ \<Rightarrow> (0, i2s_tick rate d)),
     hw_wr = \<lambda>r v d. (case r of I2s q \<Rightarrow> i2s_reg_wr q v d | _ \<Rightarrow> i2s_tick rate d),
     hw_csr_rd = \<lambda>c d. (0, d), hw_csr_op = \<lambda>f c v d. d, hw_wfi = \<lambda>d. d\<rparr>"

abbreviation tuner_board :: "u8 \<Rightarrow> (i2s_dev \<Rightarrow> nat) \<Rightarrow> (nat \<Rightarrow> nat) \<Rightarrow> (i2s_dev \<times> screen i2c_dev) hw" where
  "tuner_board a gap rate \<equiv> i2c_hw (panel a) gap (i2s_board rate)"

lemma arrive_fewer: "length (pending (i2s_arrive d)) \<le> length (pending d)" "fifo d \<noteq> [] \<Longrightarrow> fifo (i2s_arrive d) \<noteq> []"
  by (auto simp: i2s_arrive_def pending_def split: list.splits)

lemma tick_fewer: "length (pending (i2s_tick rate d)) \<le> length (pending d)" "fifo d \<noteq> [] \<Longrightarrow> fifo (i2s_tick rate d) \<noteq> []"
proof -
  have "length (pending ((i2s_arrive ^^ n) d)) \<le> length (pending d) \<and> (fifo d \<noteq> [] \<longrightarrow> fifo ((i2s_arrive ^^ n) d) \<noteq> [])" for n
    by (induction n) (auto intro: order_trans [OF arrive_fewer(1)] simp: arrive_fewer(2))
  then show "length (pending (i2s_tick rate d)) \<le> length (pending d)" "fifo d \<noteq> [] \<Longrightarrow> fifo (i2s_tick rate d) \<noteq> []"
    by (auto simp: i2s_tick_def pending_def)
qed

definition screen_part :: "('d, 'z) tuner_scheme \<Rightarrow> u8 list \<times> u8 \<times> u16 list \<times> bool \<times> nat list \<times> nat" where
  "screen_part s = (ssd1306_fb s, ssd1306_addr s, tuner_page_hash s, tuner_page_primed s, tuner_mag s, tuner_floor s)"

lemma screen_part_simps [simp]:
  "screen_part (s\<lparr>dev := d\<rparr>) = screen_part s" "screen_part (s\<lparr>evs := e\<rparr>) = screen_part s"
  "screen_part (s\<lparr>inp := c\<rparr>) = screen_part s" "screen_part (s\<lparr>tuner_frame_ovr := b\<rparr>) = screen_part s"
  "screen_part (s\<lparr>tuner_ovr_count := n\<rparr>) = screen_part s"
  by (simp_all add: screen_part_def)

lemma only_bus_screen_part: "only_bus s t \<Longrightarrow> screen_part t = screen_part s"
  unfolding only_bus_def by (cases s; cases t) (auto simp: screen_part_def)

text \<open>At rest, the engine does not notice the accesses to the receiver.\<close>

lemma i2s_rd_resting:
  assumes "resting x nk (eng s)"
  shows "rd (i2c_hw T gap (i2s_board rate)) (I2s q) s = (case i2s_reg_rd rate q (fst (dev s)) of
    (v, b) \<Rightarrow> (v, s\<lparr>dev := (b, eng s), evs := evs s @ [Rd (I2s q) v]\<rparr>))"
  using clks_resting [OF assms, where T = T and n = "Suc (gap (fst (dev s)))"]
  by (simp add: rd_def i2c_hw_def i2s_board_def case_prod_unfold Let_def del: funpow.simps)

lemma i2s_wr_resting:
  assumes "resting x nk (eng s)"
  shows "wr (i2c_hw T gap (i2s_board rate)) (I2s q) v s =
    s\<lparr>dev := (i2s_reg_wr q v (fst (dev s)), eng s), evs := evs s @ [Wr (I2s q) v]\<rparr>"
  using clks_resting [OF assms, where T = T and n = "Suc (gap (fst (dev s)))"]
  by (simp add: wr_def i2c_hw_def i2s_board_def case_prod_unfold Let_def del: funpow.simps)

lemma drain_loop_returns:
  assumes "resting x nk (eng s)"
  shows "\<exists>t. drain_loop (i2c_hw T gap (i2s_board rate)) w s = Some t \<and> screen_part t = screen_part s \<and> eng t = eng s"
  using assms
proof (induction "length (pending (fst (dev s)))" arbitrary: w s rule: less_induct)
  case less
  let ?hw = "i2c_hw T gap (i2s_board rate)" and ?d = "i2s_tick rate (fst (dev s))"
  note rd = i2s_rd_resting [where T = T and gap = gap and rate = rate, OF less.prems]
  show ?case
  proof (cases "fifo ?d = []")
    case True
    then have "i2s_status_of ?d AND I2S_ST_RX_EMPTY \<noteq> 0" using status_empty [of ?d] by simp
    then show ?thesis
      by (subst drain_loop.simps) (simp add: i2s_available_def rd Let_def)
  next
    case False
    let ?e = "i2s_tick rate ?d"
    have e: "fifo ?e \<noteq> []" using tick_fewer(2) [OF False] .
    then obtain c v qs where q: "fifo ?e = (c, v) # qs" by (cases "fifo ?e") auto
    have st: "i2s_status_of ?d AND I2S_ST_RX_EMPTY = 0" "i2s_status_of ?e AND I2S_ST_RX_EMPTY = 0"
      using status_empty [of ?d] status_empty [of ?e] False e by simp_all
    define u where "u = push_word v (s\<lparr>dev := (?e\<lparr>fifo := qs\<rparr>, eng s), evs := evs s @ [Rd (I2s I2S_STATUS) (i2s_status_of ?d),
        Rd (I2s I2S_STATUS) (i2s_status_of ?e), Rd (I2s I2S_RXDATA) v]\<rparr>)"
    have eng: "eng u = eng s" by (simp add: u_def push_word_def)
    have step: "rd ?hw (I2s r) (s\<lparr>dev := (b, eng s), evs := l\<rparr>) = (case i2s_reg_rd rate r b of
        (v, b) \<Rightarrow> (v, s\<lparr>dev := (b, eng s), evs := l @ [Rd (I2s r) v]\<rparr>))" for r b l
      using i2s_rd_resting [of x nk "s\<lparr>dev := (b, eng s), evs := l\<rparr>" T gap rate r] less.prems by simp
    have "drain_loop ?hw w s = drain_loop ?hw (Some v) u"
      using st q by (subst drain_loop.simps) (simp add: i2s_available_def i2s_read_def rd step Let_def u_def)
    moreover have "length (pending (fst (dev u))) < length (pending (fst (dev s)))"
    proof -
      have "length (pending (fst (dev u))) < length (pending ?e)" using q by (simp add: u_def push_word_def pending_def)
      also have "\<dots> \<le> length (pending (fst (dev s)))" using tick_fewer(1) order_trans by blast
      finally show ?thesis .
    qed
    from less.hyps [OF this, of "Some v"] obtain t where "drain_loop ?hw (Some v) u = Some t"
      "screen_part t = screen_part u" "eng t = eng s" using less.prems eng by auto
    moreover have "screen_part u = screen_part s" by (simp add: u_def push_word_def)
    ultimately show ?thesis by simp
  qed
qed

lemma drain_returns:
  assumes "resting x nk (eng s)"
  shows "\<exists>t. tuner_drain (i2c_hw T gap (i2s_board rate)) s = Some t \<and> screen_part t = screen_part s \<and> eng t = eng s"
proof -
  let ?hw = "i2c_hw T gap (i2s_board rate)"
  obtain u where u: "drain_loop ?hw None s = Some u" "screen_part u = screen_part s" "eng u = eng s"
    using drain_loop_returns [OF assms] by blast
  then have r: "resting x nk (eng u)" using assms by simp
  obtain b v where o: "i2s_overrun ?hw u = (b, v)" by fastforce
  then have v: "screen_part v = screen_part u" "eng v = eng u"
    by (auto simp: i2s_overrun_def i2s_rd_resting [OF r] Let_def split: prod.splits)
  have "screen_part (note_overrun ?hw u) = screen_part u \<and> eng (note_overrun ?hw u) = eng u"
    using v r i2s_wr_resting [where x = x and nk = nk and T = T and gap = gap and rate = rate and s = v]
    by (cases b) (simp_all add: note_overrun_def o i2s_overrun_clear_def)
  then show ?thesis using u by (simp add: tuner_drain_def)
qed

lemma drain_quiet: "quiet_hook gap a screen_part (Some (tuner_drain (tuner_board a gap rate)))"
  unfolding quiet_hook_def
proof (intro allI impI)
  fix s :: "(i2s_dev \<times> screen i2c_dev, 'a) tuner_scheme" and d
  assume at: "attached gap a d s"
  then obtain nk where "resting d nk (eng s)" by (auto simp: attached_def)
  then obtain t where t: "tuner_drain (tuner_board a gap rate) s = Some t" "screen_part t = screen_part s" "eng t = eng s"
    using drain_returns [where T = "panel a" and s = s] by blast
  moreover have "ssd1306_fb t = ssd1306_fb s" "ssd1306_addr t = ssd1306_addr s" using t(2) by (simp_all add: screen_part_def)
  ultimately show "\<exists>t. call_yield (Some (tuner_drain (tuner_board a gap rate))) s = Some t \<and> attached gap a d t \<and>
      ssd1306_fb t = ssd1306_fb s \<and> screen_part t = screen_part s"
    using at by (simp add: call_yield_def attached_def)
qed

section \<open>What a flush leaves on the panel\<close>

definition page_of_screen :: "u8 list \<Rightarrow> nat \<Rightarrow> u8 list" where
  "page_of_screen g p = take 128 (drop (p * 128) g)"

lemma page_row_eq: "page_row fb p = page_of_screen fb p"
  by (simp add: page_row_def page_bytes_def page_of_screen_def SSD1306_WIDTH_def)

lemma page_replaced:
  assumes "length g = 1024" and "length row = 128" and "p < 8" and "q < 8"
  shows "page_of_screen (take (p * 128) g @ row @ drop (p * 128 + 128) g) q = (if q = p then row else page_of_screen g q)"
proof (cases q p rule: linorder_cases)
  case less
  then have "q * 128 + 128 \<le> p * 128" by simp
  then have "128 \<le> p * 128 - q * 128" by linarith
  then show ?thesis using assms less by (simp add: page_of_screen_def drop_take)
next
  case equal
  then show ?thesis using assms by (simp add: page_of_screen_def min_def)
next
  case greater
  then have "p * 128 + 128 \<le> q * 128" by simp
  then show ?thesis using assms greater by (simp add: page_of_screen_def min_def add.commute [of 128])
qed

lemma pages_eq:
  assumes "length g = 1024" and "length h = 1024" and "\<forall>p < 8. page_of_screen g p = page_of_screen h p"
  shows "g = h"
proof (rule nth_equalityI)
  show "length g = length h" using assms by simp
  fix i
  assume i: "i < length g"
  then have "i div 128 < 8" using assms(1) by (simp add: less_mult_imp_div_less)
  then have "page_of_screen g (i div 128) ! (i mod 128) = page_of_screen h (i div 128) ! (i mod 128)" using assms(3) by simp
  then show "g ! i = h ! i" using i assms by (simp add: page_of_screen_def)
qed

definition panel_ready :: "screen \<Rightarrow> ('d, 'z) tuner_scheme \<Rightarrow> bool" where
  "panel_ready d s \<longleftrightarrow> fb_wf (ssd1306_fb s) \<and> length (tuner_page_hash s) = 8 \<and> pend d = [] \<and> length (gddram d) = 1024"

text \<open>The page table is honest for a page when an equal hash means an equal page on the panel: no collision.\<close>

definition hash_honest :: "screen \<Rightarrow> ('d, 'z) tuner_scheme \<Rightarrow> nat \<Rightarrow> bool" where
  "hash_honest d s p \<longleftrightarrow> (tuner_page_primed s \<and> tuner_page_hash s ! p = row_hash (page_row (ssd1306_fb s) p) \<longrightarrow>
     page_of_screen (gddram d) p = page_row (ssd1306_fb s) p)"

lemma flush_page_shows:
  fixes s :: "(i2s_dev \<times> screen i2c_dev, 'z) tuner_scheme"
  assumes at: "attached gap a d s" and "panel_ready d s" and "p < 8" and "hash_honest d s p"
  shows "\<exists>t e. flush_page (tuner_board a gap rate) p s = Some t \<and> attached gap a e t \<and> panel_ready e t \<and>
    ssd1306_fb t = ssd1306_fb s \<and> tuner_page_primed t = tuner_page_primed s \<and>
    tuner_page_hash t = (tuner_page_hash s)[p := row_hash (page_row (ssd1306_fb s) p)] \<and>
    (\<forall>q < 8. page_of_screen (gddram e) q = (if q = p then page_row (ssd1306_fb s) p else page_of_screen (gddram d) q))"
proof (cases "tuner_page_primed s \<and> row_hash (page_row (ssd1306_fb s) p) = tuner_page_hash s ! p")
  case True
  then have "flush_page (tuner_board a gap rate) p s = Some s" by (simp add: flush_page_def Let_def)
  moreover have "tuner_page_hash s = (tuner_page_hash s)[p := row_hash (page_row (ssd1306_fb s) p)]"
    using True by (simp add: list_update_id)
  moreover have "\<forall>q < 8. page_of_screen (gddram d) q = (if q = p then page_row (ssd1306_fb s) p else page_of_screen (gddram d) q)"
    using True assms(4) by (simp add: hash_honest_def)
  ultimately show ?thesis using at assms(2) by (intro exI [of _ s] exI [of _ d] conjI) simp_all
next
  case False
  have p: "unat (word_of_nat p :: u32) = p" using assms(3) by (simp add: unat_of_nat take_bit_nat_eq_self)
  have ready: "fb_wf (ssd1306_fb s)" "pend d = []" "length (gddram d) = 1024"
    using assms(2) by (simp_all add: panel_ready_def)
  obtain t e where t: "ssd1306_update_page (tuner_board a gap rate) (Some (tuner_drain (tuner_board a gap rate))) (word_of_nat p) s = Some t"
    "attached gap a e t" "ssd1306_fb t = ssd1306_fb s" "screen_part t = screen_part s" "pend e = []"
    "gddram e = take (p * 128) (gddram d) @ page_row (ssd1306_fb s) p @ drop (p * 128 + 128) (gddram d)"
    using update_page_shows [OF drain_quiet [where rate = rate] at ready(1) _ ready(2,3) only_bus_screen_part, where page = "word_of_nat p" and rest = "i2s_board rate"] assms(3)
    by (auto simp: p page_row_eq page_of_screen_def)
  have row: "length (page_row (ssd1306_fb s) p) = 128"
    using ready(1) assms(3) by (simp add: page_row_eq page_of_screen_def fb_wf_def SSD1306_FB_SIZE_def)
  define u where "u = t\<lparr>tuner_page_hash := (tuner_page_hash s)[p := row_hash (page_row (ssd1306_fb s) p)]\<rparr>"
  have "attached gap a e u" using t(2) by (simp add: attached_def u_def)
  moreover have same: "tuner_page_hash t = tuner_page_hash s" "tuner_page_primed t = tuner_page_primed s"
    using t(4) by (simp_all add: screen_part_def)
  moreover have "flush_page (tuner_board a gap rate) p s = Some u"
    using False t(1) same by (auto simp: flush_page_def Let_def u_def)
  moreover have "page_of_screen (gddram e) q = (if q = p then page_row (ssd1306_fb s) p else page_of_screen (gddram d) q)"
    if "q < 8" for q
    unfolding t(6) by (rule page_replaced [OF ready(3) row assms(3) that])
  moreover have "length (gddram e) = 1024" using t(6) row ready(3) assms(3) by simp
  ultimately show ?thesis
    using t(3,5) assms(2) by (intro exI [of _ u] exI [of _ e]) (simp add: panel_ready_def u_def)
qed

lemma flush_pages_shows:
  fixes s :: "(i2s_dev \<times> screen i2c_dev, 'z) tuner_scheme"
  assumes "attached gap a d s" and "panel_ready d s" and "\<forall>p \<in> set ps. p < 8 \<and> hash_honest d s p" and "distinct ps"
  shows "\<exists>t e. flush_pages (tuner_board a gap rate) ps s = Some t \<and> attached gap a e t \<and> panel_ready e t \<and>
    ssd1306_fb t = ssd1306_fb s \<and>
    (\<forall>q < 8. if q \<in> set ps
       then page_of_screen (gddram e) q = page_row (ssd1306_fb s) q \<and>
         tuner_page_hash t ! q = row_hash (page_row (ssd1306_fb s) q)
       else page_of_screen (gddram e) q = page_of_screen (gddram d) q \<and>
         tuner_page_hash t ! q = tuner_page_hash s ! q)"
  using assms
proof (induction ps arbitrary: s d)
  case Nil
  then show ?case by auto
next
  case (Cons p ps)
  let ?hw = "tuner_board a gap rate"
  have p: "p < 8" "hash_honest d s p" using Cons.prems by simp_all
  obtain t e where t: "flush_page ?hw p s = Some t" "attached gap a e t" "panel_ready e t" "ssd1306_fb t = ssd1306_fb s"
    "tuner_page_primed t = tuner_page_primed s"
    "tuner_page_hash t = (tuner_page_hash s)[p := row_hash (page_row (ssd1306_fb s) p)]"
    "\<forall>q < 8. page_of_screen (gddram e) q = (if q = p then page_row (ssd1306_fb s) p else page_of_screen (gddram d) q)"
    using flush_page_shows [OF Cons.prems(1,2) p, of rate] by blast
  have "\<forall>q \<in> set ps. q < 8 \<and> hash_honest e t q"
    using Cons.prems t(4-7) by (auto simp: hash_honest_def)
  then obtain u f where u: "flush_pages ?hw ps t = Some u" "attached gap a f u" "panel_ready f u" "ssd1306_fb u = ssd1306_fb t"
    "\<forall>q < 8. if q \<in> set ps
       then page_of_screen (gddram f) q = page_row (ssd1306_fb t) q \<and>
         tuner_page_hash u ! q = row_hash (page_row (ssd1306_fb t) q)
       else page_of_screen (gddram f) q = page_of_screen (gddram e) q \<and>
         tuner_page_hash u ! q = tuner_page_hash t ! q"
    using Cons.IH [OF t(2,3)] Cons.prems(4) by auto
  have "length (tuner_page_hash s) = 8" using Cons.prems(2) by (simp add: panel_ready_def)
  then have "(if q \<in> set (p # ps)
       then page_of_screen (gddram f) q = page_row (ssd1306_fb s) q \<and>
         tuner_page_hash u ! q = row_hash (page_row (ssd1306_fb s) q)
       else page_of_screen (gddram f) q = page_of_screen (gddram d) q \<and>
         tuner_page_hash u ! q = tuner_page_hash s ! q)" if "q < 8" for q
    using u(5) [rule_format, OF that] t(4) t(6) t(7) [rule_format, OF that] that Cons.prems(4) p(1)
    by (cases "q = p"; cases "q \<in> set ps") simp_all
  then show ?case using t(1,4) u(1-4) by (intro exI [of _ u] exI [of _ f]) simp
qed

text \<open>C27: on a board with the receiver and a panel that acknowledges, at the driver's address and in any state, pushing
  only the pages whose hash changed leaves the panel equal to the framebuffer, whatever the receiver delivers
  meanwhile and however often the transfers yield to it, provided the firmware makes two accesses in the time of a
  byte and no page that differs from what the panel holds collides with it under the hash: then the flush returns,
  the display memory is the framebuffer byte for byte, and the page table is exact and primed.\<close>

theorem tuner_flush_shows:
  fixes s :: "(i2s_dev \<times> screen i2c_dev, 'z) tuner_scheme"
  assumes "attached gap a d s" and "panel_ready d s" and "\<forall>p < 8. hash_honest d s p"
  shows "\<exists>t e. tuner_flush_display (tuner_board a gap rate) s = Some t \<and> attached gap a e t \<and>
    ssd1306_fb t = ssd1306_fb s \<and> gddram e = ssd1306_fb s \<and> tuner_page_primed t \<and>
    (\<forall>p < 8. tuner_page_hash t ! p = row_hash (page_row (ssd1306_fb s) p))"
proof -
  let ?hw = "tuner_board a gap rate"
  obtain b where b: "tuner_drain ?hw s = Some b" "attached gap a d b" "ssd1306_fb b = ssd1306_fb s" "screen_part b = screen_part s"
    using quiet_hookE [OF drain_quiet assms(1), of rate] unfolding call_yield_def by (metis (no_types, lifting) option.case(2))
  have h: "tuner_page_hash b = tuner_page_hash s" "tuner_page_primed b = tuner_page_primed s"
    using b(4) by (simp_all add: screen_part_def)
  have "panel_ready d b" "\<forall>p < 8. hash_honest d b p"
    using assms b(3) h by (simp_all add: panel_ready_def hash_honest_def)
  then obtain t e where t: "flush_pages ?hw [0..<8] b = Some t" "attached gap a e t" "panel_ready e t" "ssd1306_fb t = ssd1306_fb b"
    "\<forall>q < 8. page_of_screen (gddram e) q = page_row (ssd1306_fb b) q \<and>
         tuner_page_hash t ! q = row_hash (page_row (ssd1306_fb b) q)"
    using flush_pages_shows [OF b(2), of "[0..<8]" rate] by (auto simp del: upt_rec_numeral)
  have "gddram e = ssd1306_fb s"
    using t b(3) by (intro pages_eq) (auto simp: panel_ready_def fb_wf_def SSD1306_FB_SIZE_def page_row_eq)
  moreover have "attached gap a e (t\<lparr>tuner_page_primed := True\<rparr>)" using t(2) by (simp add: attached_def)
  ultimately show ?thesis
    using b(1,3) t
    by (intro exI [of _ "t\<lparr>tuner_page_primed := True\<rparr>"] exI [of _ e])
      (simp add: tuner_flush_display_def TUNER_PAGES_def del: upt_rec_numeral)
qed

theorem tuner_flush_shows_witness:
  "\<exists>t e. tuner_flush_display (tuner_board 0x3C (\<lambda>d. ticks d mod 40) (\<lambda>n. n mod 2))
       ((tuner_statics (example_i2s, fresh 30 blank_screen))\<lparr>ssd1306_addr := 0x3C, ssd1306_fb := replicate 1024 0xFF\<rparr>) = Some t \<and>
     attached (\<lambda>d. ticks d mod 40) 0x3C e t \<and> gddram e = replicate 1024 0xFF \<and> tuner_page_primed t"
proof -
  let ?s = "(tuner_statics (example_i2s, fresh 30 blank_screen))\<lparr>ssd1306_addr := 0x3C, ssd1306_fb := replicate 1024 0xFF\<rparr>"
  have "quick (\<lambda>d. ticks d mod 40) 2 (fresh 30 blank_screen)"
    unfolding quick_def by (rule exI [of _ 39]) (auto simp: fresh_def intro: mod_less_divisor [THEN less_Suc_eq_le [THEN iffD1], of 40, simplified])
  then have "attached (\<lambda>d. ticks d mod 40) 0x3C blank_screen ?s"
    using resting_fresh [of blank_screen 30] by (auto simp: attached_def tuner_statics_def)
  moreover have "panel_ready blank_screen ?s"
    by (simp add: panel_ready_def tuner_statics_def blank_screen_def fb_wf_def SSD1306_FB_SIZE_def)
  moreover have "\<forall>p < 8. hash_honest blank_screen ?s p"
    by (simp add: hash_honest_def tuner_statics_def)
  moreover have "ssd1306_fb (?s) = replicate 1024 0xFF" by (simp add: tuner_statics_def)
  ultimately show ?thesis using tuner_flush_shows [where d = blank_screen and s = ?s] by fastforce
qed

end
