(* ===== verification/Tuner_App.thy ===== *)
theory Tuner_App
  imports Tuner_Screen
begin

text \<open>
  \<open>sim/sw/guitar_tuner/guitar_tuner.c\<close>, the \<open>main\<close> of the board build: the bring-up with its microphone
  probe, and the loop that turns one hop of samples into a reading, holds a reading whose signal has gone,
  draws, and reports.  The locals of \<open>main\<close> are the record \<open>app\<close>.
\<close>

definition TUNER_LOG2N :: u32 where "TUNER_LOG2N = 10"
definition TUNER_HOP :: nat where "TUNER_HOP = 256"
definition TUNER_FS_IN_HZ :: u32 where "TUNER_FS_IN_HZ = 15625"
definition TUNER_I2S_SLOT :: u32 where "TUNER_I2S_SLOT = 32"
definition TUNER_I2C_HZ :: u32 where "TUNER_I2C_HZ = 400000"
definition TUNER_CORE_HZ :: u32 where "TUNER_CORE_HZ = 50000000"
definition TUNER_FLOOR_HOLD :: nat where "TUNER_FLOOR_HOLD = 20"
definition TUNER_HOLD_FRAMES :: nat where "TUNER_HOLD_FRAMES = 24"
definition TUNER_REPORT_HOPS :: nat where "TUNER_REPORT_HOPS = 8"
definition TUNER_ANIM_STEPS :: nat where "TUNER_ANIM_STEPS = 4"

record app =
  cur :: tuner_result
  prev :: tuner_result
  hold :: nat
  since_report :: nat
  last_state :: int
  last_note :: int
  anim_cents :: int
  target_cents :: int
  showing :: nat

text \<open>
  The locals as the loop starts: the code initialises all but the two readings, of which only the validity of
  the last one is set, so what the memory held before, \<open>r0\<close> and \<open>l0\<close>, is a parameter.
\<close>

definition app_start :: "tuner_result \<Rightarrow> tuner_result \<Rightarrow> app" where
  "app_start r0 l0 = \<lparr>cur = r0, prev = l0\<lparr>valid := False\<rparr>, hold = 0, since_report = 0, last_state = - 1,
     last_note = - 1, anim_cents = 0, target_cents = 0, showing = 0\<rparr>"

section \<open>Bring-up\<close>

text \<open>The counters of the probe: lowest and highest value, words, and non-zero words.\<close>

record probe =
  lo :: int
  hi :: int
  got :: nat
  nonzero :: nat

definition probe_word :: "int \<Rightarrow> probe \<Rightarrow> probe" where
  "probe_word x p =
     p\<lparr>lo := (if x < lo p then x else lo p), hi := (if x > hi p then x else hi p),
       nonzero := (if x \<noteq> 0 then nonzero p + 1 else nonzero p), got := got p + 1\<rparr>"

text \<open>
  The bounded poll; \<open>n\<close> is what is left of the spin limit.  The read's outcome is discarded and the local
  \<open>s\<close> keeps its (shifted) value when it fails, as \<open>x\<close>; before the first read it has none.
\<close>

fun probe_loop :: "'d hw \<Rightarrow> nat \<Rightarrow> int option \<Rightarrow> probe \<Rightarrow> ('d, 'z) m \<Rightarrow> (probe \<times> ('d, 'z) m) option" where
  "probe_loop hw 0 x p s = Some (p, s)"
| "probe_loop hw (Suc n) x p s =
     (if got p < 64 then
        let (a, s) = i2s_available hw s
        in if a then
             let (r, s) = i2s_read hw s;
                 x = (case r of Some (ch, w) \<Rightarrow> Some (sint w) | None \<Rightarrow> x)
             in case x of
                  None \<Rightarrow> None
                | Some v \<Rightarrow> let v = v div 2 ^ TUNER_IN_SHIFT in probe_loop hw n (Some v) (probe_word v p) s
           else probe_loop hw n x p s
      else Some (p, s))"

definition probe_spins :: nat where
  "probe_spins = 64 * 4 * unat (TUNER_CORE_HZ div TUNER_FS_IN_HZ)"

definition tuner_mic_probe :: "'d hw \<Rightarrow> ('d, 'z) tuner_scheme \<Rightarrow> ('d, 'z) tuner_scheme option" where
  "tuner_mic_probe hw s = do {
     s \<leftarrow> uart_puts hw ''mic probe: '' s;
     s \<leftarrow> i2s_flush hw s;
     (p, s) \<leftarrow> probe_loop hw probe_spins None \<lparr>lo = 32767, hi = - 32768, got = 0, nonzero = 0\<rparr> s;
     s \<leftarrow> tuner_put_uint (tuner_putc hw) (got p) s;
     s \<leftarrow> uart_puts hw '' words, '' s;
     s \<leftarrow> tuner_put_uint (tuner_putc hw) (nonzero p) s;
     s \<leftarrow> uart_puts hw '' non-zero, range '' s;
     s \<leftarrow> (if got p \<noteq> 0 then do {
            s \<leftarrow> tuner_put_int (tuner_putc hw) (lo p) s;
            s \<leftarrow> uart_puts hw ''..'' s;
            tuner_put_int (tuner_putc hw) (hi p) s }
          else uart_puts hw ''n/a'' s);
     s \<leftarrow> uart_puts hw crlf s;
     s \<leftarrow> (if got p = 0 then
            uart_puts hw (''   no words at all -- check BCLK/WS reach the mic '' @
              ''(pins 73/74) and that L/R is tied to GND'' @ crlf) s
          else if nonzero p = 0 then
            uart_puts hw (''   words arrive but all zero -- check SD (pin 75) and '' @ ''the mic'' @
              [char_of (39 :: nat)] @ ''s 3V3'' @ crlf) s
          else Some s);
     let (o', s) = i2s_overrun hw s;
     Some (if o' then i2s_overrun_clear hw s else s) }"

definition announce_rate :: "'d hw \<Rightarrow> ('d, 'z) tuner_scheme \<Rightarrow> ('d, 'z) tuner_scheme option" where
  "announce_rate hw s =
     (let (r, s) = i2s_master_hz hw TUNER_FS_IN_HZ TUNER_I2S_SLOT s
      in case r of
           None \<Rightarrow> None
         | Some fs \<Rightarrow> do {
             s \<leftarrow> uart_puts hw ''I2S master, fs = '' s;
             s \<leftarrow> tuner_put_uint (tuner_putc hw) (unat fs) s;
             s \<leftarrow> uart_puts hw ('' Hz'' @ crlf) s;
             if fs \<noteq> TUNER_FS_IN_HZ then
               uart_puts hw (''!! not the designed rate -- pitches will be off by '' @ ''that ratio'' @ crlf) s
             else Some s })"

definition announce_window :: "'d hw \<Rightarrow> ('d, 'z) tuner_scheme \<Rightarrow> ('d, 'z) tuner_scheme option" where
  "announce_window hw s = do {
     s \<leftarrow> uart_puts hw ''window '' s;
     s \<leftarrow> tuner_put_uint (tuner_putc hw) TUNER_N s;
     s \<leftarrow> uart_puts hw '' samples ('' s;
     s \<leftarrow> tuner_put_uint (tuner_putc hw) ((TUNER_N * 1000) div (unat TUNER_FS_IN_HZ div TUNER_DECIM)) s;
     s \<leftarrow> uart_puts hw '' ms), hop '' s;
     s \<leftarrow> tuner_put_uint (tuner_putc hw) TUNER_HOP s;
     s \<leftarrow> uart_puts hw '' ('' s;
     s \<leftarrow> tuner_put_uint (tuner_putc hw) ((TUNER_HOP * 1000) div (unat TUNER_FS_IN_HZ div TUNER_DECIM)) s;
     uart_puts hw ('' ms per update)'' @ crlf) s }"

definition splash :: "'d hw \<Rightarrow> ('d, 'z) tuner_scheme \<Rightarrow> ('d, 'z) tuner_scheme option" where
  "splash hw s = do {
     (e, s) \<leftarrow> ssd1306_begin hw 0x3C s;
     s \<leftarrow> (if e \<noteq> I2C_OK then uart_puts hw (''SSD1306 did not ACK at 0x3C -- check wiring/address'' @ crlf) s else Some s);
     fb \<leftarrow> tuner_banner 20 ''YARV TUNER'' False (ssd1306_clear (ssd1306_fb s));
     fb \<leftarrow> tuner_banner 36 ''E A D G B E'' False fb;
     ssd1306_update hw (s\<lparr>ssd1306_fb := fb\<rparr>) }"

text \<open>Everything of \<open>main\<close> before the loop: the last lines prime one full window and launch it.\<close>

definition tuner_setup :: "'d hw \<Rightarrow> ('d, 'z) tuner_scheme \<Rightarrow> ('d, 'z) tuner_scheme option" where
  "tuner_setup hw s = do {
     s \<leftarrow> uart_puts hw (crlf @ ''YARV guitar tuner'' @ crlf) s;
     s \<leftarrow> announce_rate hw s;
     s \<leftarrow> tuner_mic_probe hw (i2s_begin hw I2S_WLEN_24 I2S_CHAN_LEFT I2S_FMT_I2S s);
     s \<leftarrow> announce_window hw s;
     s \<leftarrow> splash hw (i2c_begin_hz hw TUNER_I2C_HZ s);
     let (pts, s) = fft_begin hw TUNER_LOG2N s;
     s \<leftarrow> i2s_flush hw s;
     s \<leftarrow> tuner_pump hw (word_of_nat TUNER_N)
       (s\<lparr>tuner_ovr_count := 0, tuner_frame_ovr := False, inp := (inp s)\<lparr>tuner_dirty := TUNER_N\<rparr>\<rparr>);
     Some (fft_start hw (tuner_fill_fft hw s)) }"

section \<open>One hop\<close>

text \<open>One slice of the waiting time: samples, then a step of the needle when it has somewhere to go.\<close>

definition anim_slice :: "'d hw \<Rightarrow> app \<Rightarrow> ('d, 'z) tuner_scheme \<Rightarrow> (app \<times> ('d, 'z) tuner_scheme) option" where
  "anim_slice hw a s = do {
     s \<leftarrow> tuner_pump hw (word_of_nat (TUNER_HOP div TUNER_ANIM_STEPS)) s;
     if showing a \<noteq> 0 \<and> anim_cents a \<noteq> target_cents a then do {
       let a = a\<lparr>anim_cents := tuner_anim_step (anim_cents a) (target_cents a)\<rparr>;
       s \<leftarrow> tuner_render hw (if showing a = 2 then prev a else cur a) (showing a = 2) (anim_cents a) s;
       s \<leftarrow> tuner_flush_display hw s;
       Some (a, s) }
     else Some (a, s) }"

fun anim_slices :: "'d hw \<Rightarrow> nat \<Rightarrow> app \<Rightarrow> ('d, 'z) tuner_scheme \<Rightarrow> (app \<times> ('d, 'z) tuner_scheme) option" where
  "anim_slices hw 0 a s = Some (a, s)"
| "anim_slices hw (Suc n) a s = do { (a, s) \<leftarrow> anim_slice hw a s; anim_slices hw n a s }"

text \<open>The first half of the loop body, to its two \<open>continue\<close>s: whether there is a clean window to analyse.\<close>

definition hop_window :: "'d hw \<Rightarrow> app \<Rightarrow> ('d, 'z) tuner_scheme \<Rightarrow> (bool \<times> app \<times> ('d, 'z) tuner_scheme) option" where
  "hop_window hw a s = do {
     (a, s) \<leftarrow> anim_slices hw TUNER_ANIM_STEPS a
       (s\<lparr>inp := (inp s)\<lparr>tuner_raw_min := 32767, tuner_raw_max := - 32768\<rparr>\<rparr>);
     let (ok, s) = fft_wait hw s;
     if \<not> ok then do { s \<leftarrow> tuner_puts hw (''FFT stalled'' @ crlf) s; Some (False, a, s) }
     else do {
       let s = fft_start hw (tuner_fill_fft hw s);
       s \<leftarrow> (if tuner_frame_ovr s then
              tuner_puts hw (''!! I2S overrun -- window discarded'' @ crlf) (s\<lparr>tuner_frame_ovr := False\<rparr>)
            else Some s);
       Some (tuner_dirty (inp s) = 0, a, s) } }"

text \<open>What a new reading in \<open>cur\<close> does to the locals, and to the detection threshold.\<close>

definition settle :: "app \<Rightarrow> app" where
  "settle a =
     (if valid (cur a) then
        (if showing a = 0 \<or> note_ix (cur a) \<noteq> note_ix (prev a) then a\<lparr>anim_cents := cents (cur a)\<rparr> else a)
          \<lparr>prev := cur a, hold := TUNER_HOLD_FRAMES, target_cents := cents (cur a), showing := 1\<rparr>
      else if hold a > 0 then a\<lparr>hold := hold a - 1, target_cents := cents (prev a), showing := 2\<rparr>
      else a\<lparr>showing := 0\<rparr>)"

definition settle_floor :: "app \<Rightarrow> nat \<Rightarrow> nat" where
  "settle_floor a fl =
     (if valid (cur a) then TUNER_FLOOR_HOLD else if hold a > 0 then fl else TUNER_FLOOR_ATTACK)"

definition show_reading :: "'d hw \<Rightarrow> app \<Rightarrow> ('d, 'z) tuner_scheme \<Rightarrow> (app \<times> ('d, 'z) tuner_scheme) option" where
  "show_reading hw a s = do {
     let b = settle a;
     s \<leftarrow> tuner_render hw (if showing b = 2 then prev b else cur b) (showing b = 2) (anim_cents b)
       (s\<lparr>tuner_floor := settle_floor a (tuner_floor s)\<rparr>);
     Some (b, s) }"

definition shown :: "app \<Rightarrow> tuner_result" where
  "shown a = (if valid (cur a) then cur a else if hold a > 0 then prev a else cur a)"

definition held :: "app \<Rightarrow> bool" where
  "held a \<longleftrightarrow> \<not> valid (cur a) \<and> hold a > 0"

definition report_reading :: "'d hw \<Rightarrow> app \<Rightarrow> ('d, 'z) tuner_scheme \<Rightarrow> (app \<times> ('d, 'z) tuner_scheme) option" where
  "report_reading hw a s =
     (let state = (if valid (shown a) then 1 else 0) + (if held a then 2 else 0);
          note = int (note_ix (shown a));
          news = (state \<noteq> last_state a \<or> note \<noteq> last_note a);
          a = (if news then a else a\<lparr>since_report := since_report a + 1\<rparr>)
      in if news \<or> since_report a \<ge> TUNER_REPORT_HOPS then do {
           s \<leftarrow> tuner_report hw (shown a) (held a) s;
           Some (a\<lparr>since_report := 0, last_state := state, last_note := note\<rparr>, s) }
         else Some (a, s))"

definition hop_reading :: "'d hw \<Rightarrow> app \<Rightarrow> ('d, 'z) tuner_scheme \<Rightarrow> (app \<times> ('d, 'z) tuner_scheme) option" where
  "hop_reading hw a s = do {
     let (r, s) = tuner_analyse hw s;
     (a, s) \<leftarrow> show_reading hw (a\<lparr>cur := r\<rparr>) s;
     (a, s) \<leftarrow> report_reading hw a s;
     s \<leftarrow> tuner_flush_display hw s;
     Some (a, s) }"

definition tuner_hop :: "'d hw \<Rightarrow> app \<Rightarrow> ('d, 'z) tuner_scheme \<Rightarrow> (app \<times> ('d, 'z) tuner_scheme) option" where
  "tuner_hop hw a s = do {
     (clean, a, s) \<leftarrow> hop_window hw a s;
     if clean then hop_reading hw a s else Some (a, s) }"

fun tuner_hops :: "'d hw \<Rightarrow> nat \<Rightarrow> app \<Rightarrow> ('d, 'z) tuner_scheme \<Rightarrow> (app \<times> ('d, 'z) tuner_scheme) option" where
  "tuner_hops hw 0 a s = Some (a, s)"
| "tuner_hops hw (Suc n) a s = do { (a, s) \<leftarrow> tuner_hop hw a s; tuner_hops hw n a s }"

section \<open>Nothing is drawn or said from memory that was never written\<close>

text \<open>
  Two sets of locals that differ only in readings the code may not look at: the current one matters while it is
  being shown, the previous one while something is shown or held.
\<close>

definition alike :: "app \<Rightarrow> app \<Rightarrow> bool" where
  "alike a b \<longleftrightarrow> b = a\<lparr>cur := cur b, prev := prev b\<rparr> \<and>
     (showing a \<noteq> 0 \<and> showing a \<noteq> 2 \<longrightarrow> cur a = cur b) \<and> (showing a \<noteq> 0 \<or> hold a \<noteq> 0 \<longrightarrow> prev a = prev b)"

lemma alike_fields:
  assumes "alike a b"
  shows "hold b = hold a" "since_report b = since_report a" "last_state b = last_state a" "last_note b = last_note a"
    "anim_cents b = anim_cents a" "target_cents b = target_cents a" "showing b = showing a"
  using assms by (cases a; cases b; simp add: alike_def)+

definition same_run :: "(app \<times> 's) option \<Rightarrow> (app \<times> 's) option \<Rightarrow> bool" where
  "same_run = rel_option (rel_prod alike (=))"

lemma same_run_bind:
  assumes "same_run x y" and "\<And>a b s. alike a b \<Longrightarrow> same_run (f a s) (g b s)"
  shows "same_run (x \<bind> (\<lambda>(a, s). f a s)) (y \<bind> (\<lambda>(a, s). g a s))"
  using assms by (cases x; cases y) (auto simp: same_run_def rel_prod_sel)

lemma same_run_simps [simp]:
  "same_run None None" "same_run (Some (a, s)) (Some (b, t)) \<longleftrightarrow> alike a b \<and> s = t"
  by (simp_all add: same_run_def)

lemma same_run_fetch:
  "(\<And>s. same_run (f s) (g s)) \<Longrightarrow> same_run (x \<bind> f) (x \<bind> g)"
  by (cases x) simp_all

lemma alike_slice: "alike a b \<Longrightarrow> same_run (anim_slice hw a s) (anim_slice hw b s)"
proof -
  assume ab: "alike a b"
  let ?a = "a\<lparr>anim_cents := tuner_anim_step (anim_cents a) (target_cents a)\<rparr>"
  let ?b = "b\<lparr>anim_cents := tuner_anim_step (anim_cents b) (target_cents b)\<rparr>"
  have "alike ?a ?b" using ab by (cases a; cases b) (simp add: alike_def)
  moreover have "(if showing a = 2 then prev a else cur a) = (if showing b = 2 then prev b else cur b)" if "showing a \<noteq> 0"
    using ab that alike_fields [OF ab] by (simp add: alike_def)
  ultimately show ?thesis
    using ab by (auto simp: anim_slice_def Let_def alike_fields [OF ab] intro!: same_run_fetch)
qed

lemma alike_slices: "alike a b \<Longrightarrow> same_run (anim_slices hw n a s) (anim_slices hw n b s)"
  by (induction n arbitrary: a b s) (auto intro!: same_run_bind alike_slice)

text \<open>Once a reading is in, only the locals that survive it are compared.\<close>

lemma alike_settle:
  assumes "alike a b" and "cur a = cur b"
  shows "settle a = settle b \<or> (settle a)\<lparr>prev := prev b\<rparr> = settle b \<and> showing (settle a) = 0 \<and> hold (settle a) = 0"
    and "settle_floor a fl = settle_floor b fl"
  using assms by (cases a; cases b; auto simp: alike_def settle_def settle_floor_def)+

lemma shown_count [simp]: "shown (a\<lparr>since_report := m\<rparr>) = shown a" "held (a\<lparr>since_report := m\<rparr>) = held a"
  by (simp_all add: shown_def held_def)

lemma alike_report:
  assumes "alike a b" and "cur a = cur b"
  shows "same_run (report_reading hw a s) (report_reading hw b s)"
proof -
  have "shown b = shown a" "held b = held a"
    using assms alike_fields [OF assms(1)] by (auto simp: shown_def held_def alike_def)
  moreover define news where "news = ((if valid (shown a) then 1 else 0) + (if held a then 2 else 0) \<noteq> last_state a \<or>
      int (note_ix (shown a)) \<noteq> last_note a)"
  moreover have upd: "alike (a\<lparr>since_report := m, last_state := i, last_note := j\<rparr>) (b\<lparr>since_report := m, last_state := i, last_note := j\<rparr>)"
    "alike (a\<lparr>since_report := m\<rparr>) (b\<lparr>since_report := m\<rparr>)"
    "alike (a\<lparr>since_report := m\<rparr>) (b\<lparr>since_report := m, last_state := last_state a, last_note := last_note a\<rparr>)" for m i j
    using assms(1) by (cases a; cases b; simp add: alike_def)+
  moreover have up2: "x\<lparr>since_report := m, since_report := n, last_state := i, last_note := j\<rparr> =
      x\<lparr>since_report := n, last_state := i, last_note := j\<rparr>" for x :: app and m n i j
    by simp
  ultimately show ?thesis
    unfolding report_reading_def Let_def alike_fields [OF assms(1)]
    by (cases news; cases "since_report a + 1 \<ge> TUNER_REPORT_HOPS"; cases "since_report a \<ge> TUNER_REPORT_HOPS")
      (simp_all add: same_run_fetch alike_fields [OF assms(1)] assms(1))
qed

lemma alike_reading:
  assumes "alike a b"
  shows "same_run (hop_reading hw a s) (hop_reading hw b s)"
proof -
  obtain r t where r: "tuner_analyse hw s = (r, t)" by fastforce
  let ?a = "a\<lparr>cur := r\<rparr>" and ?b = "b\<lparr>cur := r\<rparr>"
  have ab: "alike ?a ?b" using assms by (cases a; cases b) (simp add: alike_def)
  have c: "cur (settle c) = cur c" for c by (simp add: settle_def)
  have st: "alike (settle ?a) (settle ?b)" "cur (settle ?a) = cur (settle ?b)"
    using alike_settle(1) [OF ab] c [of ?a] c [of ?b] by (cases "settle ?a"; cases "settle ?b"; auto simp: alike_def)+
  have dr: "(if showing (settle ?a) = 2 then prev (settle ?a) else cur (settle ?a)) =
      (if showing (settle ?a) = 2 then prev (settle ?b) else cur (settle ?b))"
    using st alike_fields [OF st(1)] by (auto simp: alike_def)
  have h: "hop_reading hw x s = do {
      s \<leftarrow> tuner_render hw (if showing (settle (x\<lparr>cur := r\<rparr>)) = 2 then prev (settle (x\<lparr>cur := r\<rparr>)) else cur (settle (x\<lparr>cur := r\<rparr>)))
        (showing (settle (x\<lparr>cur := r\<rparr>)) = 2) (anim_cents (settle (x\<lparr>cur := r\<rparr>)))
        (t\<lparr>tuner_floor := settle_floor (x\<lparr>cur := r\<rparr>) (tuner_floor t)\<rparr>);
      (a, s) \<leftarrow> report_reading hw (settle (x\<lparr>cur := r\<rparr>)) s; s \<leftarrow> tuner_flush_display hw s; Some (a, s) }" for x
    by (simp add: hop_reading_def r show_reading_def Let_def)
  have rep: "same_run (do { (a, s) \<leftarrow> report_reading hw (settle ?a) s; s \<leftarrow> tuner_flush_display hw s; Some (a, s) })
      (do { (a, s) \<leftarrow> report_reading hw (settle ?b) s; s \<leftarrow> tuner_flush_display hw s; Some (a, s) })" for s
    by (rule same_run_bind [OF alike_report [OF st]]) (auto intro!: same_run_fetch)
  have fl: "settle_floor ?a x = settle_floor ?b x" for x using alike_settle(2) [OF ab] by simp
  show ?thesis
    unfolding h alike_fields [OF st(1)] fl dr by (rule same_run_fetch) (rule rep)
qed

lemma alike_hop:
  fixes s :: "('a, 'b) tuner_scheme"
  shows "alike a b \<Longrightarrow> same_run (tuner_hop hw a s) (tuner_hop hw b s)"
proof -
  assume ab: "alike a b"
  define s' where "s' = s\<lparr>inp := (inp s)\<lparr>tuner_raw_min := 32767, tuner_raw_max := - 32768\<rparr>\<rparr>"
  define w where "w = (\<lambda>a (s :: ('a, 'b) tuner_scheme). let (ok, s) = fft_wait hw s
     in if \<not> ok then do { s \<leftarrow> tuner_puts hw (''FFT stalled'' @ crlf) s; Some (a, s) }
     else do {
       let s = fft_start hw (tuner_fill_fft hw s);
       s \<leftarrow> (if tuner_frame_ovr s then
              tuner_puts hw (''!! I2S overrun -- window discarded'' @ crlf) (s\<lparr>tuner_frame_ovr := False\<rparr>)
            else Some s);
       if tuner_dirty (inp s) = 0 then hop_reading hw a s else Some (a, s) })"
  have "same_run (w a s) (w b s)" if "alike a b" for a b s
    using that unfolding w_def
    by (cases "fft_wait hw s") (auto simp: Let_def intro!: same_run_fetch alike_reading)
  then have "same_run (do { (a, s) \<leftarrow> anim_slices hw TUNER_ANIM_STEPS a s'; w a s })
      (do { (b, s) \<leftarrow> anim_slices hw TUNER_ANIM_STEPS b s'; w b s })"
    using alike_slices [OF ab] by (intro same_run_bind) simp_all
  moreover have "tuner_hop hw a s = do { (a, s) \<leftarrow> anim_slices hw TUNER_ANIM_STEPS a s'; w a s }" for a
    unfolding tuner_hop_def hop_window_def w_def s'_def [symmetric]
    by (cases "anim_slices hw TUNER_ANIM_STEPS a s'") (auto simp: Let_def split_beta cong: if_cong)
  ultimately show ?thesis by simp
qed

lemma alike_hops: "alike a b \<Longrightarrow> same_run (tuner_hops hw n a s) (tuner_hops hw n b s)"
  by (induction n arbitrary: a b s) (auto intro!: same_run_bind alike_hop)

text \<open>C28: the two readings \<open>main\<close> leaves uninitialised never reach the outside: over any number of hops, on any
  hardware and from any state, whatever these locals held before, the run ends in the same way and in the
  same state of the machine, so nothing stored in a device, drawn or printed depends on them.\<close>

theorem tuner_no_uninitialised_read:
  "map_option snd (tuner_hops hw n (app_start r0 l0) s) = map_option snd (tuner_hops hw n (app_start r1 l1) s)"
proof -
  have "alike (app_start r0 l0) (app_start r1 l1)" by (simp add: alike_def app_start_def)
  then have "same_run (tuner_hops hw n (app_start r0 l0) s) (tuner_hops hw n (app_start r1 l1) s)" by (rule alike_hops)
  then show ?thesis
    by (cases "tuner_hops hw n (app_start r0 l0) s"; cases "tuner_hops hw n (app_start r1 l1) s") (auto simp: same_run_def rel_prod_sel)
qed

section \<open>The threshold is only set by readings\<close>

definition floor_kept :: "(('d, 'z) tuner_scheme \<Rightarrow> ('d, 'z) tuner_scheme option) \<Rightarrow> bool" where
  "floor_kept g \<longleftrightarrow> (\<forall>s t. g s = Some t \<longrightarrow> tuner_floor t = tuner_floor s)"

lemma floor_keptD: "floor_kept g \<Longrightarrow> g s = Some t \<Longrightarrow> tuner_floor t = tuner_floor s"
  by (simp add: floor_kept_def)

lemma floor_kept_bind: "floor_kept f \<Longrightarrow> floor_kept g \<Longrightarrow> floor_kept (\<lambda>s. f s \<bind> g)"
  by (force simp: floor_kept_def elim!: bind_SomeE)

lemma only_bus_floor: "only_bus s t \<Longrightarrow> tuner_floor t = tuner_floor s"
  unfolding only_bus_def by (cases s; cases t) simp

lemma read_only: "i2s_read hw s = (r, t) \<Longrightarrow> only_bus s t"
  by (auto simp: i2s_read_def Let_def split: prod.splits if_splits dest!: rd_eqD intro: only_bus_trans)

lemma read_wait_only:
  assumes "i2s_read_wait hw s = Some rt"
  shows "only_bus s (snd rt)"
  by (rule i2s_read_wait.raw_induct [where P = "\<lambda>hw s rt. only_bus s (snd rt)", OF _ assms])
    (auto split: prod.splits option.splits dest!: read_only intro: only_bus_trans)

lemma note_overrun_floor [simp]: "tuner_floor (note_overrun hw s) = tuner_floor s"
  by (auto simp: note_overrun_def i2s_overrun_def i2s_overrun_clear_def rd_def wr_def Let_def split: prod.splits)

lemma pump_loop_floor:
  assumes "pump_loop hw m s = Some t"
  shows "tuner_floor t = tuner_floor s"
proof (rule pump_loop.raw_induct [where P = "\<lambda>hw m s t. tuner_floor t = tuner_floor s", OF _ assms])
  fix f :: "'a hw \<Rightarrow> u32 \<Rightarrow> ('a, 'b) tuner_scheme \<Rightarrow> ('a, 'b) tuner_scheme option" and hw m s t
  assume IH: "\<And>hw m s t. f hw m s = Some t \<Longrightarrow> tuner_floor t = tuner_floor s"
    and eq: "(if tuner_ring_count (inp s) < m then do {
        ((ch, w), s) \<leftarrow> i2s_read_wait hw s; f hw m (note_overrun hw (push_word w s)) } else Some s) = Some t"
  show "tuner_floor t = tuner_floor s"
  proof (cases "tuner_ring_count (inp s) < m")
    case True
    then obtain ch w u where u: "i2s_read_wait hw s = Some ((ch, w), u)" "f hw m (note_overrun hw (push_word w u)) = Some t"
      using eq by (auto elim!: bind_SomeE)
    then show ?thesis using IH [OF u(2)] only_bus_floor [OF read_wait_only [OF u(1)]] by (simp add: push_word_def)
  qed (use eq in simp)
qed

lemma pump_floor: "floor_kept (tuner_pump hw n)"
  by (auto simp: floor_kept_def tuner_pump_def dest: pump_loop_floor)

lemma drain_loop_floor:
  assumes "drain_loop hw w s = Some t"
  shows "tuner_floor t = tuner_floor s"
proof (rule drain_loop.raw_induct [where P = "\<lambda>hw w s t. tuner_floor t = tuner_floor s", OF _ assms])
  fix f :: "'a hw \<Rightarrow> u32 option \<Rightarrow> ('a, 'b) tuner_scheme \<Rightarrow> ('a, 'b) tuner_scheme option" and hw w s t
  assume IH: "\<And>hw w s t. f hw w s = Some t \<Longrightarrow> tuner_floor t = tuner_floor s"
    and eq: "(let (a, s) = i2s_available hw s
      in if \<not> a then Some s
         else let (r, s) = i2s_read hw s;
                  w = (case r of None \<Rightarrow> w | Some (ch, v) \<Rightarrow> Some v)
              in case w of None \<Rightarrow> None | Some v \<Rightarrow> f hw w (push_word v s)) = Some t"
  obtain a u where a: "i2s_available hw s = (a, u)" by fastforce
  then have u: "tuner_floor u = tuner_floor s"
    by (auto simp: i2s_available_def Let_def split: prod.splits dest!: rd_eqD intro: only_bus_floor)
  obtain r v where r: "i2s_read hw u = (r, v)" by fastforce
  then have v: "tuner_floor v = tuner_floor u" by (auto dest: read_only only_bus_floor)
  show "tuner_floor t = tuner_floor s"
    using eq a r u v by (auto simp: Let_def push_word_def split: if_splits option.splits dest!: IH)
qed

lemma drain_floor: "floor_kept (tuner_drain hw)"
  by (auto simp: floor_kept_def tuner_drain_def elim!: bind_SomeE dest: drain_loop_floor)

lemma write_regs_only:
  assumes "i2c_write_regs hw addr reg bs s = Some (rc, t)"
  shows "only_bus s t"
proof -
  obtain a b c d where a: "i2c_push hw (push_bit 1 addr) (i2c_clear_err hw s) = Some a"
    and b: "i2c_push hw reg a = Some b"
    and c: "put_all (i2c_push hw) bs (wr hw (I2c I2C_CMD) (I2C_CMD_START OR I2C_CMD_STOP) b) = Some c"
    and d: "i2c_wait_idle hw c = Some d" "i2c_check_err hw d = (rc, t)"
    using assms by (auto simp: i2c_write_regs_def Let_def elim!: bind_SomeE)
  have "only_bus s (i2c_clear_err hw s)" by (simp add: i2c_clear_err_def)
  moreover have "only_bus d t" using d(2) by (auto simp: i2c_check_err_def Let_def split: prod.splits dest!: rd_eqD)
  ultimately show ?thesis
    using i2c_push_only [OF a] i2c_push_only [OF b] i2c_push_all_only [OF c] i2c_wait_idle_only [OF d(1)]
    by (meson only_bus_trans only_bus_wr)
qed

lemma update_chunks_floor:
  assumes "floor_kept (call_yield y)"
  shows "update_chunks hw y page off s = Some t \<Longrightarrow> tuner_floor t = tuner_floor s"
proof (induction "128 - off" arbitrary: off s rule: less_induct)
  case less
  show ?case
  proof (cases "off < unat SSD1306_WIDTH")
    case False
    then show ?thesis using less.prems by (subst (asm) update_chunks.simps) simp
  next
    case True
    then obtain rc u v n where u: "i2c_write_regs hw (ssd1306_addr s) SSD1306_CTRL_DAT (page_bytes page off n (ssd1306_fb s)) s = Some (rc, u)"
      "call_yield y u = Some v" "update_chunks hw y page (off + n) v = Some t" "0 < n"
      using less.prems by (subst (asm) update_chunks.simps)
        (auto simp: Let_def SSD1306_CHUNK_def SSD1306_WIDTH_def elim!: bind_SomeE split: if_splits)
    have "128 - (off + n) < 128 - off" using True u(4) by (simp add: SSD1306_WIDTH_def)
    from less.hyps [OF this u(3)] show ?thesis
      using only_bus_floor [OF write_regs_only [OF u(1)]] floor_keptD [OF assms u(2)] by simp
  qed
qed

lemma flush_floor: "floor_kept (tuner_flush_display hw)"
proof -
  let ?y = "Some (tuner_drain hw)"
  have y: "floor_kept (call_yield ?y)" using drain_floor by (simp add: floor_kept_def call_yield_def)
  have cmds: "ssd1306_cmds hw cs s = Some t \<Longrightarrow> tuner_floor t = tuner_floor s" for cs s t
    by (auto simp: ssd1306_cmds_def elim!: bind_SomeE dest!: write_regs_only only_bus_floor)
  have page: "flush_page hw p s = Some t \<Longrightarrow> tuner_floor t = tuner_floor s" for p s t
    by (auto simp: flush_page_def ssd1306_update_page_def Let_def elim!: bind_SomeE split: if_splits
        dest!: cmds floor_keptD [OF y] update_chunks_floor [OF y])
  have pages: "flush_pages hw ps s = Some t \<Longrightarrow> tuner_floor t = tuner_floor s" for ps s t
    by (induction ps arbitrary: s) (auto elim!: bind_SomeE dest: page)
  then show ?thesis
    by (auto simp: floor_kept_def tuner_flush_display_def elim!: bind_SomeE dest!: floor_keptD [OF drain_floor] pages)
qed

lemma write_only:
  assumes "i2c_write hw addr bs s = Some (rc, t)"
  shows "only_bus s t"
proof -
  obtain a c d where a: "i2c_push hw (push_bit 1 addr) (i2c_clear_err hw s) = Some a"
    and c: "put_all (i2c_push hw) bs (wr hw (I2c I2C_CMD) (I2C_CMD_START OR I2C_CMD_STOP) a) = Some c"
    and d: "i2c_wait_idle hw c = Some d" "i2c_check_err hw d = (rc, t)"
    using assms by (auto simp: i2c_write_def Let_def elim!: bind_SomeE)
  have "only_bus s (i2c_clear_err hw s)" by (simp add: i2c_clear_err_def)
  moreover have "only_bus d t" using d(2) by (auto simp: i2c_check_err_def Let_def split: prod.splits dest!: rd_eqD)
  ultimately show ?thesis
    using i2c_push_only [OF a] i2c_push_all_only [OF c] i2c_wait_idle_only [OF d(1)]
    by (meson only_bus_trans only_bus_wr)
qed

lemma update_floor: "floor_kept (ssd1306_update hw)"
proof -
  have cmd: "ssd1306_cmd hw c s = Some t \<Longrightarrow> tuner_floor t = tuner_floor s" for c s t
    by (auto simp: ssd1306_cmd_def i2c_write_reg_def elim!: bind_SomeE dest!: write_only only_bus_floor)
  show ?thesis
    by (auto simp: floor_kept_def ssd1306_update_def elim!: bind_SomeE dest!: cmd write_regs_only only_bus_floor)
qed

lemma render_floor: "floor_kept (tuner_render hw r h c)"
  by (auto simp: floor_kept_def tuner_render_def Let_def elim!: bind_SomeE split: if_splits
      dest!: floor_keptD [OF drain_floor] floor_keptD [OF update_floor])

lemma puts_floor: "floor_kept (tuner_putc hw c)" "floor_kept (tuner_puts hw str)" "floor_kept (tuner_put_uint (tuner_putc hw) n)"
  "floor_kept (tuner_put_int (tuner_putc hw) i)" "floor_kept (tuner_put_chz (tuner_putc hw) n)"
proof -
  have p: "uart_putc hw c s = Some t \<Longrightarrow> only_bus s t" for c s t
    by (auto simp: uart_putc_def elim!: bind_SomeE dest!: wait_reg_log intro: only_bus_trans)
  show c: "floor_kept (tuner_putc hw c)" for c
    by (auto simp: floor_kept_def tuner_putc_def elim!: bind_SomeE dest!: floor_keptD [OF drain_floor] p [THEN only_bus_floor])
  have all: "put_all (tuner_putc hw) str s = Some t \<Longrightarrow> tuner_floor t = tuner_floor s" for str s t
    by (induction str arbitrary: s) (auto elim!: bind_SomeE dest!: floor_keptD [OF c])
  then show "floor_kept (tuner_puts hw str)" by (auto simp: floor_kept_def tuner_puts_def)
  show u: "floor_kept (tuner_put_uint (tuner_putc hw) n)" for n
    by (auto simp: floor_kept_def tuner_put_uint_def dest!: all)
  show "floor_kept (tuner_put_int (tuner_putc hw) i)"
    by (auto simp: floor_kept_def tuner_put_int_def elim!: bind_SomeE dest!: floor_keptD [OF u] floor_keptD [OF c] split: if_splits)
  show "floor_kept (tuner_put_chz (tuner_putc hw) n)"
    by (auto simp: floor_kept_def tuner_put_chz_def elim!: bind_SomeE dest!: floor_keptD [OF u] floor_keptD [OF c])
qed

lemma report_floor: "floor_kept (tuner_report hw r h)"
proof -
  have "floor_kept (report_silence hw r)"
    unfolding report_silence_def by (intro floor_kept_bind puts_floor)
      (auto simp: floor_kept_def elim!: bind_SomeE dest!: floor_keptD [OF puts_floor(2)] floor_keptD [OF puts_floor(3)]
        floor_keptD [OF puts_floor(4)])
  moreover have "floor_kept (report_pitch hw r)"
    by (auto simp: floor_kept_def report_pitch_def elim!: bind_SomeE split: if_splits dest!: floor_keptD [OF puts_floor(2)]
        floor_keptD [OF puts_floor(3)] floor_keptD [OF puts_floor(1)] floor_keptD [OF puts_floor(4)] floor_keptD [OF puts_floor(5)])
  ultimately show ?thesis
    by (auto simp: floor_kept_def tuner_report_def elim!: bind_SomeE split: if_splits dest!: floor_keptD [OF puts_floor(2)])
qed

lemma fill_floor [simp]: "tuner_floor (tuner_fill_fft hw s) = tuner_floor s" "tuner_floor (fft_start hw s) = tuner_floor s"
proof -
  have wr: "tuner_floor (fft_write_real hw i x s) = tuner_floor s" for i x and s :: "('a, 'b) tuner_scheme"
    by (simp add: fft_write_real_def wr_def)
  have "fill_rise hw xs n i r w s = (r', t) \<Longrightarrow> tuner_floor t = tuner_floor s" for xs n i r w r' and s t :: "('a, 'b) tuner_scheme"
    by (induction n arbitrary: i r w s) (auto simp: wr)
  moreover have "tuner_floor (fill_fall hw xs n i r w s) = tuner_floor s" for xs n i r w and s :: "('a, 'b) tuner_scheme"
    by (induction n arbitrary: i r w s) (auto simp: wr)
  ultimately show "tuner_floor (tuner_fill_fft hw s) = tuner_floor s"
    by (auto simp: tuner_fill_fft_def Let_def split: prod.splits)
  show "tuner_floor (fft_start hw s) = tuner_floor s" by (simp add: fft_start_def Let_def wr_def)
qed

lemma fft_wait_floor: "fft_wait hw s = (ok, t) \<Longrightarrow> tuner_floor t = tuner_floor s"
proof -
  have "fft_wait_loop hw k s = (ok, t) \<Longrightarrow> only_bus s t" for k
  proof (induction hw k s rule: fft_wait_loop.induct)
    case (1 hw k s)
    obtain v u where u: "rd hw (Fft FFT_STATUS) s = (v, u)" by fastforce
    then have "only_bus s u" using rd_eqD by blast
    then show ?case
      using "1.prems" "1.IH" [OF u [symmetric] refl] fft_wait_loop.simps [of hw k s] u
      by (auto simp: Let_def split: if_splits intro: only_bus_trans)
  qed
  then show "fft_wait hw s = (ok, t) \<Longrightarrow> tuner_floor t = tuner_floor s" by (auto simp: fft_wait_def dest: only_bus_floor)
qed

end
