(* ===== verification/Tuner_Hold.thy ===== *)
theory Tuner_Hold
  imports Tuner_App
begin

text \<open>
  What the tuner's loop (\<open>Tuner_App\<close>) keeps true between hops: which reading is on show, how long one is held
  after its signal has gone, and how the display and the console can differ about it.
\<close>

section \<open>The reading on show\<close>

definition pitch_ok :: "tuner_result \<Rightarrow> bool" where
  "pitch_ok r \<longleftrightarrow> valid r \<and> note_ix r < length tuner_notes \<and> 6771 \<le> unat (f_cHz r) \<and> unat (f_cHz r) \<le> 42248 \<and>
     \<bar>cents r\<bar> < 135"

text \<open>
  The state between hops: nothing shown and nothing held; or the current reading shown; or an older one shown,
  held for fewer hops than the limit.  What is shown or held is a reading that can be drawn.
\<close>

definition app_ok :: "app \<Rightarrow> nat \<Rightarrow> bool" where
  "app_ok a fl \<longleftrightarrow>
     (case showing a of
        0 \<Rightarrow> hold a = 0 \<and> fl = TUNER_FLOOR_ATTACK
      | Suc 0 \<Rightarrow> hold a = TUNER_HOLD_FRAMES \<and> prev a = cur a \<and> pitch_ok (cur a) \<and> fl = TUNER_FLOOR_HOLD
      | Suc (Suc 0) \<Rightarrow> hold a < TUNER_HOLD_FRAMES \<and> pitch_ok (prev a) \<and> \<not> valid (cur a) \<and> fl = TUNER_FLOOR_HOLD
      | _ \<Rightarrow> False) \<and>
     (showing a \<noteq> 0 \<longrightarrow> target_cents a = cents (prev a)) \<and> since_report a < TUNER_REPORT_HOPS \<and>
     \<bar>anim_cents a\<bar> < 135 \<and> \<bar>target_cents a\<bar> < 135"

lemma app_ok_cases:
  assumes "app_ok a fl"
  obtains "showing a = 0" "hold a = 0" "fl = TUNER_FLOOR_ATTACK"
  | "showing a = 1" "hold a = TUNER_HOLD_FRAMES" "prev a = cur a" "pitch_ok (cur a)" "fl = TUNER_FLOOR_HOLD"
  | "showing a = 2" "hold a < TUNER_HOLD_FRAMES" "pitch_ok (prev a)" "\<not> valid (cur a)" "fl = TUNER_FLOOR_HOLD"
proof -
  consider "showing a = 0" | "showing a = 1" | "showing a = 2" | n where "showing a = Suc (Suc (Suc n))"
    by (metis One_nat_def Suc_1 not0_implies_Suc)
  then show thesis using assms that by cases (auto simp: app_ok_def numeral_2_eq_2)
qed

lemma app_ok_slices:
  "app_ok a (tuner_floor s) \<Longrightarrow> anim_slices hw n a s = Some (b, t) \<Longrightarrow> app_ok b (tuner_floor t)"
proof (induction n arbitrary: a s)
  case (Suc n)
  obtain c u where u: "anim_slice hw a s = Some (c, u)" "anim_slices hw n c u = Some (b, t)"
    using Suc.prems(2) by (auto elim!: bind_SomeE)
  have side: "\<bar>tuner_anim_step x y\<bar> < 135" if "\<bar>x\<bar> < 135" "\<bar>y\<bar> < 135" for x y
    using anim_step_side [of x y] that by linarith
  have "tuner_floor u = tuner_floor s" "c = a \<or> c = a\<lparr>anim_cents := tuner_anim_step (anim_cents a) (target_cents a)\<rparr>"
    using u(1) by (auto simp: anim_slice_def Let_def elim!: bind_SomeE split: if_splits
        dest!: floor_keptD [OF pump_floor] floor_keptD [OF render_floor] floor_keptD [OF flush_floor])
  then have "app_ok c (tuner_floor u)" using Suc.prems(1) side by (auto simp: app_ok_def split: nat.splits)
  then show ?case using Suc.IH u(2) by blast
qed simp

lemma reading_ok:
  assumes "0 < tuner_floor s" and "tuner_analyse hw s = (r, t)"
  shows "valid r \<Longrightarrow> pitch_ok r" and "tuner_floor t = tuner_floor s"
proof -
  show "valid r \<Longrightarrow> pitch_ok r" using analyse_in_range [OF assms] by (auto simp: pitch_ok_def split: if_splits)
  show "tuner_floor t = tuner_floor s"
    using analyse_frame [OF assms(2)] by (simp add: tuner_read_spectrum_def read_bins_frame)
qed

lemma app_ok_settle:
  assumes "app_ok a fl" and "valid r \<Longrightarrow> pitch_ok r"
  shows "app_ok (settle (a\<lparr>cur := r\<rparr>)) (settle_floor (a\<lparr>cur := r\<rparr>) fl)"
proof (cases "valid r")
  case True
  then show ?thesis using assms by (auto simp: app_ok_def settle_def settle_floor_def pitch_ok_def)
next
  case False
  show ?thesis using assms(1)
  proof (cases rule: app_ok_cases)
    case 1
    then show ?thesis using False assms(1) by (simp add: app_ok_def settle_def settle_floor_def)
  next
    case 2
    then show ?thesis using False assms(1) by (auto simp: app_ok_def settle_def settle_floor_def TUNER_HOLD_FRAMES_def numeral_2_eq_2)
  next
    case 3
    then show ?thesis using False assms(1)
      by (cases "hold a") (auto simp: app_ok_def settle_def settle_floor_def pitch_ok_def numeral_2_eq_2 TUNER_FLOOR_ATTACK_def)
  qed
qed

lemma report_upd:
  assumes "report_reading hw a s = Some (b, t)"
  shows "\<exists>m i j. b = a\<lparr>since_report := m, last_state := i, last_note := j\<rparr> \<and> m < TUNER_REPORT_HOPS \<and> tuner_floor t = tuner_floor s
    \<or> since_report a \<ge> TUNER_REPORT_HOPS"
proof -
  define st :: int where "st = (if valid (shown a) then 1 else 0) + (if held a then 2 else 0)"
  define news where "news = (st \<noteq> last_state a \<or> int (note_ix (shown a)) \<noteq> last_note a)"
  define c where "c = (if news then a else a\<lparr>since_report := since_report a + 1\<rparr>)"
  have c: "c = a\<lparr>since_report := since_report c, last_state := last_state a, last_note := last_note a\<rparr>" by (simp add: c_def)
  have eq: "(if news \<or> since_report c \<ge> TUNER_REPORT_HOPS then do {
       s \<leftarrow> tuner_report hw (shown c) (held c) s;
       Some (c\<lparr>since_report := 0, last_state := st, last_note := int (note_ix (shown a))\<rparr>, s) } else Some (c, s)) = Some (b, t)"
    using assms unfolding report_reading_def Let_def st_def [symmetric] news_def [symmetric] c_def [symmetric] .
  show ?thesis
  proof (cases "news \<or> since_report c \<ge> TUNER_REPORT_HOPS")
    case True
    then have "b = c\<lparr>since_report := 0, last_state := st, last_note := int (note_ix (shown a))\<rparr>" "tuner_floor t = tuner_floor s"
      using eq by (auto elim!: bind_SomeE dest!: floor_keptD [OF report_floor])
    moreover from this(1) have "b = a\<lparr>since_report := 0, last_state := st, last_note := int (note_ix (shown a))\<rparr>"
      by (subst (asm) c) simp
    moreover have "0 < TUNER_REPORT_HOPS" by (simp add: TUNER_REPORT_HOPS_def)
    ultimately show ?thesis by blast
  next
    case False
    then have "b = c" "t = s" using eq by simp_all
    moreover have "since_report c < TUNER_REPORT_HOPS" using False by simp
    ultimately show ?thesis using c by blast
  qed
qed

lemma app_ok_report:
  assumes "app_ok a (tuner_floor s)" and "report_reading hw a s = Some (b, t)"
  shows "app_ok b (tuner_floor t)"
    and "cur b = cur a" "prev b = prev a" "hold b = hold a" "showing b = showing a"
proof -
  obtain m i j where b: "b = a\<lparr>since_report := m, last_state := i, last_note := j\<rparr>" "m < TUNER_REPORT_HOPS" "tuner_floor t = tuner_floor s"
    using report_upd [OF assms(2)] assms(1) unfolding app_ok_def by (metis not_le)
  show "app_ok b (tuner_floor t)" using assms(1) b(2) unfolding b(1,3) app_ok_def by (simp split: nat.splits)
  show "cur b = cur a" "prev b = prev a" "hold b = hold a" "showing b = showing a" unfolding b(1) by simp_all
qed

text \<open>The two halves of a hop.\<close>

lemma window_ok:
  assumes "app_ok a (tuner_floor s)" and "hop_window hw a s = Some (c, b, t)"
  shows "app_ok b (tuner_floor t) \<and> showing b = showing a \<and> hold b = hold a \<and> prev b = prev a \<and> cur b = cur a"
proof -
  let ?s = "s\<lparr>inp := (inp s)\<lparr>tuner_raw_min := 32767, tuner_raw_max := - 32768\<rparr>\<rparr>"
  obtain u where u: "anim_slices hw TUNER_ANIM_STEPS a ?s = Some (b, u)" and t: "tuner_floor t = tuner_floor u"
    using assms(2) by (auto simp: hop_window_def Let_def elim!: bind_SomeE split: if_splits prod.splits
        dest!: floor_keptD [OF puts_floor(2)] fft_wait_floor)
  have kept: "anim_slices hw n a s = Some (b, t) \<Longrightarrow> showing b = showing a \<and> hold b = hold a \<and> prev b = prev a \<and> cur b = cur a"
    for n a s and b t
  proof (induction n arbitrary: a s)
    case (Suc n)
    then obtain d v where d: "anim_slice hw a s = Some (d, v)" "anim_slices hw n d v = Some (b, t)" by (auto elim!: bind_SomeE)
    moreover from d(1) have "showing d = showing a \<and> hold d = hold a \<and> prev d = prev a \<and> cur d = cur a"
      by (auto simp: anim_slice_def Let_def elim!: bind_SomeE split: if_splits)
    ultimately show ?case using Suc.IH [of d v] by simp
  qed simp
  show ?thesis using app_ok_slices [OF _ u] assms(1) t kept [OF u] by simp
qed

lemma reading_step:
  assumes "app_ok a (tuner_floor s)" and "hop_reading hw a s = Some (b, t)"
  shows "app_ok b (tuner_floor t)" and "\<exists>r. valid r = valid (cur b) \<and> cur b = r \<and>
    prev b = prev (settle (a\<lparr>cur := r\<rparr>)) \<and> hold b = hold (settle (a\<lparr>cur := r\<rparr>)) \<and> showing b = showing (settle (a\<lparr>cur := r\<rparr>))"
proof -
  obtain r u where r: "tuner_analyse hw s = (r, u)" by fastforce
  let ?a = "a\<lparr>cur := r\<rparr>"
  obtain c v w where c: "show_reading hw ?a u = Some (c, v)" and w: "report_reading hw c v = Some (b, w)" "tuner_floor t = tuner_floor w"
    using assms(2) r by (auto simp: hop_reading_def elim!: bind_SomeE dest!: floor_keptD [OF flush_floor])
  have v: "c = settle ?a" "tuner_floor v = settle_floor ?a (tuner_floor u)"
    using c by (auto simp: show_reading_def Let_def elim!: bind_SomeE dest!: floor_keptD [OF render_floor])
  have "0 < tuner_floor s"
    using assms(1) by (cases rule: app_ok_cases) (simp_all add: TUNER_FLOOR_ATTACK_def TUNER_FLOOR_HOLD_def)
  note rk = reading_ok [OF this r]
  have "app_ok (settle ?a) (tuner_floor v)"
    unfolding v(2) rk(2) by (rule app_ok_settle [OF assms(1) rk(1)])
  note rep = app_ok_report [OF this w(1) [unfolded v(1)]]
  show "app_ok b (tuner_floor t)" using rep(1) w(2) by simp
  have "cur (settle ?a) = r" by (simp add: settle_def)
  then show "\<exists>r. valid r = valid (cur b) \<and> cur b = r \<and>
    prev b = prev (settle (a\<lparr>cur := r\<rparr>)) \<and> hold b = hold (settle (a\<lparr>cur := r\<rparr>)) \<and> showing b = showing (settle (a\<lparr>cur := r\<rparr>))"
    using rep(2-5) by (intro exI [of _ r]) simp
qed

lemma hop_ok:
  assumes "app_ok a (tuner_floor s)" and "tuner_hop hw a s = Some (b, t)"
  shows "app_ok b (tuner_floor t)"
proof -
  obtain c d u where d: "hop_window hw a s = Some (c, d, u)" "(if c then hop_reading hw d u else Some (d, u)) = Some (b, t)"
    using assms(2) by (auto simp: tuner_hop_def elim!: bind_SomeE)
  then have "app_ok d (tuner_floor u)" using window_ok [OF assms(1)] by blast
  then show ?thesis using d(2) reading_step(1) by (cases c) auto
qed

text \<open>C29: between hops the tuner is always in one of three states: nothing shown and nothing held, at the catching
  threshold; the current reading shown; an older one shown and held for fewer than 24 more hops, both at the
  releasing threshold.  What is shown or held is always a pitch of the instrument's range with a note of the
  table, the needle's position and its target are deviations a gauge can show, and a report is never
  overdue.  This holds over any number of hops on any hardware.\<close>

theorem tuner_state_invariant:
  "pred_option (\<lambda>(a, t). app_ok a (tuner_floor t))
     (tuner_hops hw n (app_start r0 l0) (s\<lparr>tuner_floor := TUNER_FLOOR_ATTACK\<rparr>))"
proof -
  have hops: "tuner_hops hw n a s = Some (b, t) \<Longrightarrow> app_ok a (tuner_floor s) \<Longrightarrow> app_ok b (tuner_floor t)" for n a s b t
    by (induction n arbitrary: a s) (auto elim!: bind_SomeE dest: hop_ok)
  have "app_ok (app_start r0 l0) TUNER_FLOOR_ATTACK" by (simp add: app_ok_def app_start_def TUNER_REPORT_HOPS_def)
  then show ?thesis
    by (cases "tuner_hops hw n (app_start r0 l0) (s\<lparr>tuner_floor := TUNER_FLOOR_ATTACK\<rparr>)") (auto dest!: hops)
qed

section \<open>How long a reading is held\<close>

text \<open>
  A run in which no reading is a pitch: hops that found no clean window do not count, the number is that of
  the readings.
\<close>

inductive silent :: "'d hw \<Rightarrow> app \<Rightarrow> ('d, 'z) tuner_scheme \<Rightarrow> nat \<Rightarrow> app \<Rightarrow> ('d, 'z) tuner_scheme \<Rightarrow> bool" for hw a s where
  start: "silent hw a s 0 a s"
| skip: "silent hw a s k b t \<Longrightarrow> hop_window hw b t = Some (False, c, u) \<Longrightarrow> silent hw a s k c u"
| hear: "silent hw a s k b t \<Longrightarrow> hop_window hw b t = Some (True, c, u) \<Longrightarrow> hop_reading hw c u = Some (d, v) \<Longrightarrow>
    \<not> valid (cur d) \<Longrightarrow> silent hw a s (Suc k) d v"

inductive_cases silent_SucE: "silent hw a s (Suc k) b t"

lemma silent_hops: "silent hw a s k b t \<Longrightarrow> \<exists>n. tuner_hops hw n a s = Some (b, t)"
proof -
  have snoc: "tuner_hops hw n a s = Some (b, t) \<Longrightarrow> tuner_hop hw b t = Some (c, u) \<Longrightarrow> tuner_hops hw (Suc n) a s = Some (c, u)"
    for n and a b c :: app and s t u
    by (induction n arbitrary: a s) (auto elim!: bind_SomeE)
  show "silent hw a s k b t \<Longrightarrow> ?thesis"
  proof (induction rule: silent.induct)
    case start
    then show ?case by (intro exI [of _ 0]) simp
  next
    case (skip k b t c u)
    then have "tuner_hop hw b t = Some (c, u)" by (simp add: tuner_hop_def)
    then show ?case using skip.IH snoc by blast
  next
    case (hear k b t c u d v)
    then have "tuner_hop hw b t = Some (d, v)" by (simp add: tuner_hop_def)
    then show ?case using hear.IH snoc by blast
  qed
qed

lemma silent_hold:
  assumes "app_ok a (tuner_floor s)" and "silent hw a s k b t"
  shows "app_ok b (tuner_floor t) \<and> hold b = hold a - k \<and> prev b = prev a \<and>
    (0 < k \<longrightarrow> showing b = (if k \<le> hold a then 2 else 0)) \<and> (k = 0 \<longrightarrow> showing b = showing a)"
  using assms(2,1)
proof (induction rule: silent.induct)
  case (skip k b t c u)
  then show ?case using window_ok [of b t hw False c u] by auto
next
  case (hear k b t c u d v)
  then have c: "app_ok c (tuner_floor u)" "showing c = showing b" "hold c = hold b" "prev c = prev b"
    using window_ok [of b t hw True c u] by auto
  obtain r where r: "\<not> valid r" "prev d = prev (settle (c\<lparr>cur := r\<rparr>))" "hold d = hold (settle (c\<lparr>cur := r\<rparr>))"
      "showing d = showing (settle (c\<lparr>cur := r\<rparr>))"
    using reading_step(2) [OF c(1) hear.hyps(3)] hear.hyps(4) by auto
  have "hold b = hold a - k" "prev b = prev a" using hear by simp_all
  then show ?case using r c reading_step(1) [OF c(1) hear.hyps(3)] by (auto simp: settle_def)
qed simp

text \<open>The same, of the locals alone: what a list of readings does to them, one after another.\<close>

definition settle_all :: "tuner_result list \<Rightarrow> app \<Rightarrow> app" where
  "settle_all rs a = fold (\<lambda>r a. settle (a\<lparr>cur := r\<rparr>)) rs a"

lemma settle_silence:
  "\<forall>r \<in> set rs. \<not> valid r \<Longrightarrow> rs \<noteq> [] \<Longrightarrow>
    (let b = settle_all rs a in hold b = hold a - length rs \<and> prev b = prev a \<and>
      showing b = (if length rs \<le> hold a then 2 else 0))"
proof (induction rs arbitrary: a)
  case (Cons r rs)
  define c where "c = settle (a\<lparr>cur := r\<rparr>)"
  have c: "hold c = hold a - 1" "prev c = prev a" "showing c = (if 0 < hold a then 2 else 0)"
    using Cons.prems by (simp_all add: c_def settle_def)
  show ?case
  proof (cases "rs = []")
    case True
    then show ?thesis using c by (simp add: settle_all_def Let_def flip: c_def)
  next
    case False
    then have "0 < length rs" by simp
    moreover from this have "length rs \<le> hold a - 1 \<longleftrightarrow> length (r # rs) \<le> hold a" by (cases "hold a") simp_all
    ultimately show ?thesis using False Cons.IH [of c] Cons.prems c by (auto simp: settle_all_def Let_def simp flip: c_def)
  qed
qed simp

text \<open>C30: a reading whose signal has gone stays on show, unchanged and marked as held, for exactly the next 24
  readings, and with the 25th the display admits that there is nothing.\<close>

theorem tuner_hold_release:
  assumes "valid r" and "\<forall>x \<in> set rs. \<not> valid x" and "rs \<noteq> []"
  shows "let b = settle_all (r # rs) a in
    if length rs \<le> 24 then showing b = 2 \<and> prev b = r \<and> hold b = 24 - length rs \<and> target_cents b = cents r
    else showing b = 0 \<and> hold b = 0"
proof -
  define c where "c = settle (a\<lparr>cur := r\<rparr>)"
  have c: "hold c = 24" "prev c = r" using assms(1) by (simp_all add: c_def settle_def TUNER_HOLD_FRAMES_def)
  have "showing (settle_all rs c) = 2 \<longrightarrow> target_cents (settle_all rs c) = cents (prev (settle_all rs c))"
  proof -
    obtain x ys where "rs = ys @ [x]" using assms(3) by (cases rs rule: rev_cases) auto
    then show ?thesis using assms(2) by (simp add: settle_all_def) (simp add: settle_def)
  qed
  then show ?thesis
    using settle_silence [OF assms(2,3), of c] c by (simp add: settle_all_def Let_def flip: c_def)
qed

theorem tuner_hold_release_witness:
  "let r = \<lparr>valid = True, f_cHz = 11000, peak = 900, note_ix = 7, cents = 3\<rparr>; x = \<lparr>valid = False, f_cHz = 0, peak = 9, note_ix = 0, cents = 0\<rparr>
   in showing (settle_all (r # replicate 25 x) (app_start x x)) = 0 \<and> prev (settle_all [r, x] (app_start x x)) = r"
  using tuner_hold_release [of "\<lparr>valid = True, f_cHz = 11000, peak = 900, note_ix = 7, cents = 3\<rparr>"
      "replicate 25 \<lparr>valid = False, f_cHz = 0, peak = 9, note_ix = 0, cents = 0\<rparr>"
      "app_start \<lparr>valid = False, f_cHz = 0, peak = 9, note_ix = 0, cents = 0\<rparr> \<lparr>valid = False, f_cHz = 0, peak = 9, note_ix = 0, cents = 0\<rparr>"]
    tuner_hold_release [of "\<lparr>valid = True, f_cHz = 11000, peak = 900, note_ix = 7, cents = 3\<rparr>"
      "[\<lparr>valid = False, f_cHz = 0, peak = 9, note_ix = 0, cents = 0\<rparr>]"
      "app_start \<lparr>valid = False, f_cHz = 0, peak = 9, note_ix = 0, cents = 0\<rparr> \<lparr>valid = False, f_cHz = 0, peak = 9, note_ix = 0, cents = 0\<rparr>"]
  by (simp add: Let_def)

text \<open>
  The report is decided after the hold counter has been lowered: on the last hop of a hold the display shows the
  held note and the report is that of a missing signal.
\<close>

lemma last_hop_of_hold:
  assumes "\<not> valid r" and "hold a = 1"
  shows "showing (settle (a\<lparr>cur := r\<rparr>)) = 2 \<and> \<not> held (settle (a\<lparr>cur := r\<rparr>)) \<and> shown (settle (a\<lparr>cur := r\<rparr>)) = r"
  using assms by (simp add: settle_def held_def shown_def)

end
