(* ===== verification/Sha256.thy ===== *)
theory Sha256
  imports Uart
begin

text \<open>
  \<open>sim/sw/sha256/sha256.c\<close>: a line editor on the serial port that prints the SHA-256 digest of each line.
  The hash is modelled statement by statement and shown equal to the standard's definition by recurrences over
  the padded message; the shell is shown never to overrun its line buffer and to print the digest of the line
  that the keys spell.
\<close>

definition INPUT_MAX :: nat where "INPUT_MAX = 128"

section \<open>The functions of the standard\<close>

definition rotr32 :: "u32 \<Rightarrow> nat \<Rightarrow> u32" where
  "rotr32 x n = drop_bit n x OR push_bit (32 - n) x"

definition ch :: "u32 \<Rightarrow> u32 \<Rightarrow> u32 \<Rightarrow> u32" where
  "ch x y z = (x AND y) XOR (NOT x AND z)"

definition maj :: "u32 \<Rightarrow> u32 \<Rightarrow> u32 \<Rightarrow> u32" where
  "maj x y z = (x AND y) XOR (x AND z) XOR (y AND z)"

definition big_sigma0 :: "u32 \<Rightarrow> u32" where
  "big_sigma0 x = rotr32 x 2 XOR rotr32 x 13 XOR rotr32 x 22"

definition big_sigma1 :: "u32 \<Rightarrow> u32" where
  "big_sigma1 x = rotr32 x 6 XOR rotr32 x 11 XOR rotr32 x 25"

definition small_sigma0 :: "u32 \<Rightarrow> u32" where
  "small_sigma0 x = rotr32 x 7 XOR rotr32 x 18 XOR drop_bit 3 x"

definition small_sigma1 :: "u32 \<Rightarrow> u32" where
  "small_sigma1 x = rotr32 x 17 XOR rotr32 x 19 XOR drop_bit 10 x"

definition sha_K :: "u32 list" where
  "sha_K = concat [
     [0x428a2f98, 0x71374491, 0xb5c0fbcf, 0xe9b5dba5],
     [0x3956c25b, 0x59f111f1, 0x923f82a4, 0xab1c5ed5],
     [0xd807aa98, 0x12835b01, 0x243185be, 0x550c7dc3],
     [0x72be5d74, 0x80deb1fe, 0x9bdc06a7, 0xc19bf174],
     [0xe49b69c1, 0xefbe4786, 0x0fc19dc6, 0x240ca1cc],
     [0x2de92c6f, 0x4a7484aa, 0x5cb0a9dc, 0x76f988da],
     [0x983e5152, 0xa831c66d, 0xb00327c8, 0xbf597fc7],
     [0xc6e00bf3, 0xd5a79147, 0x06ca6351, 0x14292967],
     [0x27b70a85, 0x2e1b2138, 0x4d2c6dfc, 0x53380d13],
     [0x650a7354, 0x766a0abb, 0x81c2c92e, 0x92722c85],
     [0xa2bfe8a1, 0xa81a664b, 0xc24b8b70, 0xc76c51a3],
     [0xd192e819, 0xd6990624, 0xf40e3585, 0x106aa070],
     [0x19a4c116, 0x1e376c08, 0x2748774c, 0x34b0bcb5],
     [0x391c0cb3, 0x4ed8aa4a, 0x5b9cca4f, 0x682e6ff3],
     [0x748f82ee, 0x78a5636f, 0x84c87814, 0x8cc70208],
     [0x90befffa, 0xa4506ceb, 0xbef9a3f7, 0xc67178f2]]"

definition H_INIT :: "u32 list" where
  "H_INIT = concat [
     [0x6a09e667, 0xbb67ae85, 0x3c6ef372, 0xa54ff53a],
     [0x510e527f, 0x9b05688c, 0x1f83d9ab, 0x5be0cd19]]"

section \<open>One block\<close>

text \<open>The 64 words, as the two loops that fill the array leave them: an array as far as it has been written.\<close>

definition load_word :: "u8 list \<Rightarrow> nat \<Rightarrow> u32" where
  "load_word block i =
     push_bit 24 (ucast (block ! (i * 4 + 0))) OR push_bit 16 (ucast (block ! (i * 4 + 1))) OR
     push_bit 8 (ucast (block ! (i * 4 + 2))) OR ucast (block ! (i * 4 + 3))"

definition schedule_step :: "nat \<Rightarrow> u32 list \<Rightarrow> u32 list" where
  "schedule_step i W = W @ [small_sigma1 (W ! (i - 2)) + W ! (i - 7) + small_sigma0 (W ! (i - 15)) + W ! (i - 16)]"

definition schedule :: "u8 list \<Rightarrow> u32 list" where
  "schedule block = fold schedule_step [16..<64] (map (load_word block) [0..<16])"

record work =
  va :: u32
  vb :: u32
  vc :: u32
  vd :: u32
  ve :: u32
  vf :: u32
  vg :: u32
  vh :: u32

text \<open>One round: the eight assignments in the order of the code.\<close>

definition round_step :: "u32 list \<Rightarrow> nat \<Rightarrow> work \<Rightarrow> work" where
  "round_step W i s =
     (let t1 = vh s + big_sigma1 (ve s) + ch (ve s) (vf s) (vg s) + sha_K ! i + W ! i;
          t2 = big_sigma0 (va s) + maj (va s) (vb s) (vc s);
          s = s\<lparr>vh := vg s\<rparr>;
          s = s\<lparr>vg := vf s\<rparr>;
          s = s\<lparr>vf := ve s\<rparr>;
          s = s\<lparr>ve := vd s + t1\<rparr>;
          s = s\<lparr>vd := vc s\<rparr>;
          s = s\<lparr>vc := vb s\<rparr>;
          s = s\<lparr>vb := va s\<rparr>
      in s\<lparr>va := t1 + t2\<rparr>)"

definition work_of :: "u32 list \<Rightarrow> work" where
  "work_of H = \<lparr>va = H ! 0, vb = H ! 1, vc = H ! 2, vd = H ! 3, ve = H ! 4, vf = H ! 5, vg = H ! 6, vh = H ! 7\<rparr>"

definition sha256_transform :: "u8 list \<Rightarrow> u32 list \<Rightarrow> u32 list" where
  "sha256_transform block H =
     (let s = fold (round_step (schedule block)) [0..<64] (work_of H)
      in [H ! 0 + va s, H ! 1 + vb s, H ! 2 + vc s, H ! 3 + vd s, H ! 4 + ve s, H ! 5 + vf s, H ! 6 + vg s, H ! 7 + vh s])"

section \<open>A message\<close>

text \<open>The last bytes of the message copied over a block of zeros, then the length over a block.\<close>

definition copy_tail :: "u8 list \<Rightarrow> nat \<Rightarrow> nat \<Rightarrow> u8 list \<Rightarrow> u8 list" where
  "copy_tail data at n block = fold (\<lambda>j b. b[j := data ! (at + j)]) [0..<n] block"

definition put_length :: "64 word \<Rightarrow> u8 list \<Rightarrow> u8 list" where
  "put_length bits block =
     block[56 := ucast (drop_bit 56 bits), 57 := ucast (drop_bit 48 bits), 58 := ucast (drop_bit 40 bits),
       59 := ucast (drop_bit 32 bits), 60 := ucast (drop_bit 24 bits), 61 := ucast (drop_bit 16 bits),
       62 := ucast (drop_bit 8 bits), 63 := ucast bits]"

text \<open>\<open>len\<close> is a 32-bit argument and the length of the data.\<close>

definition sha256 :: "u8 list \<Rightarrow> u32 list" where
  "sha256 data =
     (let len = word_of_nat (length data) :: u32;
          full_blocks = unat (len div 64);
          H = fold (\<lambda>i. sha256_transform (take 64 (drop (i * 64) data))) [0..<full_blocks] H_INIT;
          remainder = unat (len AND 63);
          block = copy_tail data (full_blocks * 64) remainder (replicate 64 0);
          block = block[remainder := 0x80];
          (block, H) = (if remainder \<ge> 56 then (replicate 64 0, sha256_transform block H) else (block, H));
          block = put_length (ucast len * 8) block
      in sha256_transform block H)"

section \<open>The shell\<close>

definition hex_lower :: string where
  "hex_lower = ''0123456789abcdef''"

definition cr_lf :: string where
  "cr_lf = [char_of (13 :: nat), char_of (10 :: nat)]"

definition print_digest :: "'d hw \<Rightarrow> u32 list \<Rightarrow> ('d, 'z) m \<Rightarrow> ('d, 'z) m option" where
  "print_digest hw digest s = do {
     s \<leftarrow> put_all (\<lambda>d. put_all (uart_putc hw) (map (\<lambda>i. hex_lower ! i) (hex_nibbles d))) digest s;
     put_all (uart_putc hw) cr_lf s }"

text \<open>One turn of the loop, from the character on; \<open>line\<close> is \<open>input[0..len)\<close>.\<close>

definition sha_key :: "'d hw \<Rightarrow> char \<Rightarrow> u8 list \<Rightarrow> ('d, 'z) m \<Rightarrow> (u8 list \<times> ('d, 'z) m) option" where
  "sha_key hw c line s =
     (let k = of_char c :: nat
      in if k = 13 \<or> k = 10 then do {
           s \<leftarrow> uart_puts hw cr_lf s;
           s \<leftarrow> (if length line \<noteq> 0 then do { s \<leftarrow> uart_puts hw ''SHA256: '' s; print_digest hw (sha256 line) s }
                else Some s);
           s \<leftarrow> uart_puts hw ''> '' s;
           Some ([], s) }
         else if k = 8 \<or> k = 127 then
           (if length line > 0 then do {
              s \<leftarrow> put_all (uart_putc hw) [char_of (8 :: nat), CHR '' '', char_of (8 :: nat)] s;
              Some (butlast line, s) }
            else Some (line, s))
         else if k \<ge> 32 \<and> k \<le> 126 then
           (if length line < INPUT_MAX - 1 then do {
              s \<leftarrow> uart_putc hw c s;
              Some (line @ [of_char c], s) }
            else Some (line, s))
         else Some (line, s))"

fun sha_keys :: "'d hw \<Rightarrow> string \<Rightarrow> u8 list \<Rightarrow> ('d, 'z) m \<Rightarrow> (u8 list \<times> ('d, 'z) m) option" where
  "sha_keys hw [] line s = Some (line, s)"
| "sha_keys hw (c # cs) line s = do { (line, s) \<leftarrow> sha_key hw c line s; sha_keys hw cs line s }"

text \<open>The greeting, then \<open>n\<close> turns of the endless loop.\<close>

fun sha_loop :: "'d hw \<Rightarrow> nat \<Rightarrow> u8 list \<Rightarrow> ('d, 'z) m \<Rightarrow> (u8 list \<times> ('d, 'z) m) option" where
  "sha_loop hw 0 line s = Some (line, s)"
| "sha_loop hw (Suc n) line s = do {
     (c, s) \<leftarrow> uart_getc hw s;
     (line, s) \<leftarrow> sha_key hw c line s;
     sha_loop hw n line s }"

definition sha_main :: "'d hw \<Rightarrow> nat \<Rightarrow> ('d, 'z) m \<Rightarrow> (u8 list \<times> ('d, 'z) m) option" where
  "sha_main hw n s = do {
     s \<leftarrow> uart_puts hw cr_lf s;
     s \<leftarrow> uart_puts hw (''YARV32 SHA-256 monitor'' @ cr_lf) s;
     s \<leftarrow> uart_puts hw ''> '' s;
     sha_loop hw n [] s }"

section \<open>The standard\<close>

text \<open>
  The padded message, its blocks, the message schedule and the rounds as the recurrences of FIPS 180-4; the
  functions and constants are those of the first section.
\<close>

definition be64 :: "64 word \<Rightarrow> u8 list" where
  "be64 v = map (\<lambda>i. ucast (drop_bit (8 * i) v)) (rev [0..<8])"

definition padded :: "u8 list \<Rightarrow> u8 list" where
  "padded m = m @ [0x80] @ replicate ((119 - length m mod 64) mod 64) 0 @ be64 (word_of_nat (8 * length m))"

function blocks :: "u8 list \<Rightarrow> u8 list list" where
  "blocks m = (if m = [] then [] else take 64 m # blocks (drop 64 m))"
  by pat_completeness auto
termination
  by (relation "measure length") auto

declare blocks.simps [simp del]

fun sched :: "u8 list \<Rightarrow> nat \<Rightarrow> u32" where
  "sched block t =
     (if t < 16 then load_word block t
      else small_sigma1 (sched block (t - 2)) + sched block (t - 7) + small_sigma0 (sched block (t - 15)) + sched block (t - 16))"

declare sched.simps [simp del]

text \<open>The state of the rounds as the sequences \<open>a\<close> and \<open>e\<close>: the other six variables are their past.\<close>

fun rounds :: "u8 list \<Rightarrow> u32 list \<Rightarrow> nat \<Rightarrow> u32 list" where
  "rounds block H 0 = H"
| "rounds block H (Suc t) =
     (let v = rounds block H t;
          t1 = v ! 7 + big_sigma1 (v ! 4) + ch (v ! 4) (v ! 5) (v ! 6) + sha_K ! t + sched block t;
          t2 = big_sigma0 (v ! 0) + maj (v ! 0) (v ! 1) (v ! 2)
      in [t1 + t2, v ! 0, v ! 1, v ! 2, v ! 3 + t1, v ! 4, v ! 5, v ! 6])"

definition compress :: "u8 list \<Rightarrow> u32 list \<Rightarrow> u32 list" where
  "compress block H = map2 (+) H (rounds block H 64)"

definition fips_sha256 :: "u8 list \<Rightarrow> u32 list" where
  "fips_sha256 m = fold compress (blocks (padded m)) H_INIT"

section \<open>A block is compressed as the standard says\<close>

lemma schedule_prefix:
  "n \<le> 48 \<Longrightarrow> fold schedule_step [16..<16 + n] (map (load_word block) [0..<16]) = map (sched block) [0..<16 + n]"
proof (induction n)
  case 0
  show ?case by (simp add: sched.simps del: upt_rec_numeral)
next
  case (Suc n)
  have "[16..<16 + Suc n] = [16..<16 + n] @ [16 + n]" "[0..<16 + Suc n] = [0..<16 + n] @ [16 + n]"
    using upt_Suc_append [of 16 "16 + n"] upt_Suc_append [of 0 "16 + n"] by simp_all
  moreover have "schedule_step (16 + n) (map (sched block) [0..<16 + n]) = map (sched block) [0..<16 + n] @ [sched block (16 + n)]"
    using sched.simps [of block "16 + n"] by (simp add: schedule_step_def)
  ultimately show ?case using Suc by simp
qed

lemma schedule_nth: "t < 64 \<Longrightarrow> schedule block ! t = sched block t"
  using schedule_prefix [of 48 block] by (simp add: schedule_def del: upt_rec_numeral)

definition words_of :: "work \<Rightarrow> u32 list" where
  "words_of s = [va s, vb s, vc s, vd s, ve s, vf s, vg s, vh s]"

lemma round_loop:
  assumes "length H = 8"
  shows "n \<le> 64 \<Longrightarrow> words_of (fold (round_step (schedule block)) [0..<n] (work_of H)) = rounds block H n"
proof (induction n)
  case 0
  obtain a b c d e f g h where "H = [a, b, c, d, e, f, g, h]"
    using assms by (auto simp: numeral_eq_Suc length_Suc_conv)
  then show ?case by (simp add: words_of_def work_of_def)
next
  case (Suc n)
  define s where "s = fold (round_step (schedule block)) [0..<n] (work_of H)"
  have "rounds block H n = words_of s" using Suc by (simp add: s_def)
  then have "rounds block H (Suc n) = words_of (round_step (schedule block) n s)"
    using Suc.prems by (simp add: words_of_def round_step_def Let_def schedule_nth)
  moreover have "[0..<Suc n] = [0..<n] @ [n]" by simp
  ultimately show ?case by (simp add: s_def)
qed

lemma transform_compress:
  assumes "length H = 8"
  shows "sha256_transform block H = compress block H"
proof -
  define s where "s = fold (round_step (schedule block)) [0..<64] (work_of H)"
  have "rounds block H 64 = words_of s" using round_loop [OF assms, of 64 block] by (simp add: s_def del: upt_rec_numeral)
  moreover obtain a b c d e f g h where "H = [a, b, c, d, e, f, g, h]"
    using assms by (auto simp: numeral_eq_Suc length_Suc_conv)
  ultimately show ?thesis
    unfolding sha256_transform_def s_def [symmetric] Let_def compress_def by (simp add: words_of_def)
qed

lemma length_transform [simp]: "length (sha256_transform block H) = 8"
  by (simp add: sha256_transform_def Let_def del: upt_rec_numeral)

lemma H_INIT_length [simp]: "length H_INIT = 8"
  by (simp add: H_INIT_def)

lemma fold_compress:
  "length H = 8 \<Longrightarrow> fold sha256_transform bs H = fold compress bs H"
  by (induction bs arbitrary: H) (simp_all add: transform_compress [symmetric])

section \<open>The padding\<close>

lemma blocks_append:
  "length xs = n * 64 \<Longrightarrow> blocks (xs @ ys) = map (\<lambda>i. take 64 (drop (i * 64) xs)) [0..<n] @ blocks ys"
proof (induction n arbitrary: xs)
  case (Suc n)
  then have len: "length (drop 64 xs) = n * 64" "xs \<noteq> []" "64 \<le> length xs" by auto
  have "blocks (xs @ ys) = take 64 xs # blocks (drop 64 xs @ ys)"
    using len by (subst blocks.simps) simp
  also have "blocks (drop 64 xs @ ys) = map (\<lambda>i. take 64 (drop (i * 64) (drop 64 xs))) [0..<n] @ blocks ys"
    using Suc.IH len(1) by blast
  also have "map (\<lambda>i. take 64 (drop (i * 64) (drop 64 xs))) [0..<n] = map (\<lambda>i. take 64 (drop (i * 64) xs)) [1..<Suc n]"
    by (simp add: map_Suc_upt [symmetric] comp_def add.commute del: upt_Suc)
  finally show ?case by (simp add: upt_conv_Cons del: upt_Suc)
qed simp

lemma blocks_one: "length xs = 64 \<Longrightarrow> blocks xs = [xs]"
  by (subst blocks.simps) (auto simp: blocks.simps)

lemma copy_tail_take:
  assumes "at + n \<le> length data" and "n \<le> length block"
  shows "copy_tail data at n block = take n (drop at data) @ drop n block"
  using assms
proof (induction n)
  case 0
  then show ?case by (simp add: copy_tail_def)
next
  case (Suc n)
  then have "copy_tail data at (Suc n) block = (take n (drop at data) @ drop n block)[n := data ! (at + n)]"
    by (simp add: copy_tail_def)
  also have "drop n block = block ! n # drop (Suc n) block" using Suc.prems by (simp add: Cons_nth_drop_Suc)
  finally show ?case using Suc.prems by (simp add: list_update_append take_Suc_conv_app_nth)
qed

lemma put_length_be64:
  assumes "length xs = 56" and "length ys = 8"
  shows "put_length bits (xs @ ys) = xs @ be64 bits"
proof -
  obtain a b c d e f g h where "ys = [a, b, c, d, e, f, g, h]"
    using assms(2) by (auto simp: numeral_eq_Suc length_Suc_conv)
  then show ?thesis
    using assms(1) by (simp add: put_length_def be64_def list_update_append upt_rec [of _ 8])
qed

lemma blocks_padded:
  fixes data :: "u8 list"
  defines "q \<equiv> length data div 64" and "r \<equiv> length data mod 64"
  defines "tail \<equiv> drop (q * 64) data" and "bits \<equiv> word_of_nat (8 * length data) :: 64 word"
  shows "blocks (padded data) = map (\<lambda>i. take 64 (drop (i * 64) data)) [0..<q] @
    (if r < 56 then [tail @ 0x80 # replicate (55 - r) 0 @ be64 bits]
     else [tail @ 0x80 # replicate (63 - r) 0, replicate 56 0 @ be64 bits])"
proof -
  have len: "length (take (q * 64) data) = q * 64" "length tail = r" "r < 64"
    using div_times_less_eq_dividend [of "length data" 64] by (simp_all add: q_def r_def tail_def minus_div_mult_eq_mod)
  have data: "data = take (q * 64) data @ tail" by (simp add: tail_def)
  have be: "length (be64 bits) = 8" by (simp add: be64_def)
  have full: "map (\<lambda>i. take 64 (drop (i * 64) (take (q * 64) data))) [0..<q] = map (\<lambda>i. take 64 (drop (i * 64) data)) [0..<q]"
  proof (rule map_cong [OF refl])
    fix i
    assume "i \<in> set [0..<q]"
    then have "i * 64 + 64 \<le> q * 64" by simp
    then have "64 \<le> q * 64 - i * 64" by linarith
    then show "take 64 (drop (i * 64) (take (q * 64) data)) = take 64 (drop (i * 64) data)" by (simp add: drop_take)
  qed
  have "padded data = (take (q * 64) data @ tail) @ 0x80 # replicate ((119 - r) mod 64) 0 @ be64 bits"
    unfolding data [symmetric] by (simp add: padded_def r_def bits_def)
  then have "blocks (padded data) = map (\<lambda>i. take 64 (drop (i * 64) data)) [0..<q] @
      blocks (tail @ 0x80 # replicate ((119 - r) mod 64) 0 @ be64 bits)"
    using blocks_append [OF len(1)] full by simp
  also have "blocks (tail @ 0x80 # replicate ((119 - r) mod 64) 0 @ be64 bits) =
      (if r < 56 then [tail @ 0x80 # replicate (55 - r) 0 @ be64 bits]
       else [tail @ 0x80 # replicate (63 - r) 0, replicate 56 0 @ be64 bits])"
  proof (cases "r < 56")
    case True
    then have "(119 - r) mod 64 = 55 - r" by (simp add: mod_if)
    then show ?thesis using True len(2) be by (simp add: blocks_one)
  next
    case False
    then have "(119 - r) mod 64 = 119 - r" "119 - r = (63 - r) + 56" using len(3) by simp_all
    then have "tail @ 0x80 # replicate ((119 - r) mod 64) 0 @ be64 bits =
        (tail @ 0x80 # replicate (63 - r) 0) @ (replicate 56 0 @ be64 bits)"
      by (simp only: replicate_add append_assoc append_Cons)
    moreover have "length (tail @ 0x80 # replicate (63 - r) 0) = 1 * 64" using len(2,3) by simp
    ultimately show ?thesis
      using False be blocks_append [of "tail @ 0x80 # replicate (63 - r) 0" 1 "replicate 56 0 @ be64 bits"]
      by (simp add: blocks_one)
  qed
  finally show ?thesis .
qed

lemma fold_blocks:
  "fold (\<lambda>i. sha256_transform (f i)) [0..<n] H = fold sha256_transform (map f [0..<n]) H"
  by (simp add: fold_map comp_def)

lemma sha256_core:
  assumes "length data < 2 ^ 32"
  shows "sha256 data = fips_sha256 data"
proof -
  define q r where "q = length data div 64" and "r = length data mod 64"
  define tail where "tail = drop (q * 64) data"
  define bits where "bits = (word_of_nat (8 * length data) :: 64 word)"
  define len where "len = (word_of_nat (length data) :: u32)"
  have ulen: "unat len = length data" using assms by (simp add: len_def unat_of_nat)
  have words: "unat (len div 64) = q" "unat (len AND 63) = r"
    using ulen by (simp_all add: and_masks unat_take_bit unat_div_distrib q_def r_def)
  have "ucast len * 8 = bits"
  proof -
    have "(ucast len :: 64 word) = word_of_nat (unat len)" by (simp add: word_unat_eq_iff unsigned_ucast_eq unat_of_nat take_bit_eq_mod)
    then show ?thesis by (simp add: ulen bits_def mult.commute)
  qed
  note words = words this
  have tail: "length tail = r" "r < 64" "q * 64 + r \<le> length data"
    by (simp_all add: tail_def q_def r_def minus_div_mult_eq_mod)
  define H where "H = fold sha256_transform (map (\<lambda>i. take 64 (drop (i * 64) data)) [0..<q]) H_INIT"
  have block: "(copy_tail data (q * 64) r (replicate 64 0))[r := 0x80] = tail @ 0x80 # replicate (63 - r) 0"
  proof -
    have "take r (drop (q * 64) data) = tail" using tail(1) by (simp add: tail_def)
    moreover have "replicate (64 - r) (0 :: u8) = 0 # replicate (63 - r) 0"
      using tail(2) by (cases "64 - r") (auto simp: Suc_diff_le)
    ultimately show ?thesis using tail by (simp add: copy_tail_take list_update_append)
  qed
  have "sha256 data = (if 56 \<le> r then sha256_transform (put_length bits (replicate 64 0)) (sha256_transform (tail @ 0x80 # replicate (63 - r) 0) H)
      else sha256_transform (put_length bits (tail @ 0x80 # replicate (63 - r) 0)) H)"
    unfolding sha256_def Let_def len_def [symmetric] words fold_blocks H_def [symmetric] block by simp
  also have "\<dots> = fold sha256_transform (blocks (padded data)) H_INIT"
  proof (cases "r < 56")
    case True
    then have "replicate (63 - r) (0 :: u8) = replicate (55 - r) 0 @ replicate 8 0"
      by (simp add: replicate_add [symmetric])
    then have "tail @ 0x80 # replicate (63 - r) 0 = (tail @ 0x80 # replicate (55 - r) 0) @ replicate 8 0" by simp
    then have "put_length bits (tail @ 0x80 # replicate (63 - r) 0) = tail @ 0x80 # replicate (55 - r) 0 @ be64 bits"
      using put_length_be64 [of "tail @ 0x80 # replicate (55 - r) 0" "replicate 8 0" bits] True tail(1) by simp
    then show ?thesis
      using True blocks_padded [of data] unfolding q_def [symmetric] r_def [symmetric] tail_def [symmetric] bits_def [symmetric]
      by (simp add: H_def)
  next
    case False
    have "put_length bits (replicate 64 0) = replicate 56 0 @ be64 bits"
      using put_length_be64 [of "replicate 56 0" "replicate 8 0" bits] by (simp add: replicate_add [symmetric])
    then show ?thesis
      using False blocks_padded [of data] unfolding q_def [symmetric] r_def [symmetric] tail_def [symmetric] bits_def [symmetric]
      by (simp add: H_def)
  qed
  finally show ?thesis by (simp add: fips_sha256_def fold_compress)
qed

text \<open>C32: the hash is the one of the standard: for every message whose length fits the argument, splitting it into
  blocks, padding the last one or two in place and running the rounds with the eight shifted variables gives
  the digest that FIPS 180-4 defines by recurrences over the padded message.\<close>

theorem sha256_is_fips:
  assumes "length data < 2 ^ 32"
  shows "sha256 data = fips_sha256 data"
  using assms by (rule sha256_core)

theorem sha256_is_fips_witness:
  "sha256 (replicate 119 0x61) = fips_sha256 (replicate 119 0x61) \<and> length (blocks (padded (replicate 119 0x61))) = 2"
  using sha256_is_fips [of "replicate 119 0x61"]
    blocks_padded [of "replicate 119 0x61"] by simp

section \<open>The constants\<close>

text \<open>The primes below 312: two, and the odd numbers without a smaller divisor whose square is below 312.\<close>

definition first_primes :: "nat list" where
  "first_primes = 2 # filter (\<lambda>p. \<forall>d \<in> {3, 5, 7, 11, 13, 17}. p = d \<or> p mod d \<noteq> 0) (map (\<lambda>n. 2 * n - 1) [2..<157])"

text \<open>The integer part of the root, and what it means that a word holds the first 32 bits of the fraction.\<close>

definition root_part :: "nat \<Rightarrow> nat \<Rightarrow> nat" where
  "root_part e p = 1 + length (filter (\<lambda>q. q ^ e \<le> p) [2..<8])"

definition root_fraction :: "nat \<Rightarrow> nat \<Rightarrow> u32 \<Rightarrow> bool" where
  "root_fraction e p k \<longleftrightarrow>
     (let n = root_part e p * 2 ^ 32 + unat k in n ^ e \<le> p * 2 ^ (32 * e) \<and> p * 2 ^ (32 * e) < (n + 1) ^ e)"

lemma first_primes_eq:
  "first_primes = [2, 3, 5, 7, 11, 13, 17, 19, 23, 29, 31, 37, 41, 43, 47, 53, 59, 61, 67, 71, 73, 79, 83, 89, 97, 101, 103, 107, 109, 113, 127, 131, 137, 139, 149, 151, 157, 163, 167, 173, 179, 181, 191, 193, 197, 199, 211, 223, 227, 229, 233, 239, 241, 251, 257, 263, 269, 271, 277, 281, 283, 293, 307, 311]"
  unfolding first_primes_def by simp

text \<open>The tables have no typing error: the 64 round constants are the first 32 bits of the fractions of the
  cube roots of the first 64 primes, and the initial state those of the square roots of the first eight.\<close>

theorem sha256_constants:
  "list_all2 (root_fraction 3) first_primes sha_K \<and> list_all2 (root_fraction 2) (take 8 first_primes) H_INIT"
  by (simp add: first_primes_eq sha_K_def H_INIT_def root_fraction_def root_part_def Let_def)

section \<open>What the shell prints\<close>

text \<open>What the keys spell: a line editor with a limit, and a digest in hexadecimal.\<close>

definition edit :: "u8 list \<Rightarrow> char \<Rightarrow> u8 list" where
  "edit line c =
     (let k = of_char c :: nat
      in if k = 8 \<or> k = 127 then butlast line
         else if k \<ge> 32 \<and> k \<le> 126 \<and> length line < 127 then line @ [of_char c] else line)"

definition digest_text :: "u32 list \<Rightarrow> string" where
  "digest_text ds = concat (map (\<lambda>d. map (\<lambda>i. hex_lower ! i) (hex_nibbles d)) ds)"

definition enter :: "char \<Rightarrow> bool" where
  "enter c \<longleftrightarrow> c = char_of (13 :: nat) \<or> c = char_of (10 :: nat)"

lemma enter_code: "enter c \<longleftrightarrow> of_char c = (13 :: nat) \<or> of_char c = (10 :: nat)"
proof -
  have "c = char_of n \<longleftrightarrow> of_char c = n" if "n < 256" for n :: nat
    using that by (metis char_of_char of_char_of mod_less)
  then show ?thesis by (simp add: enter_def)
qed

interpretation digest_sink: live_sink
  "\<lambda>d. put_all (uart_putc hw) (map (\<lambda>i. hex_lower ! i) (hex_nibbles d))" uart_out
  "\<lambda>d. map (\<lambda>i. hex_lower ! i) (hex_nibbles d)" "\<lambda>s. tx_live hw (dev s)" for hw
proof unfold_locales
  fix d :: u32 and s s' :: "('a, 'b) m"
  show "put_all (uart_putc hw) (map (\<lambda>i. hex_lower ! i) (hex_nibbles d)) s = Some s' \<Longrightarrow>
      uart_out s' = uart_out s @ map (\<lambda>i. hex_lower ! i) (hex_nibbles d)"
    using uart_line.put_all_out [of hw "map (\<lambda>i. hex_lower ! i) (hex_nibbles d)" s s'] by (simp del: map_map)
  show "tx_live hw (dev s) \<Longrightarrow>
      \<exists>s'. put_all (uart_putc hw) (map (\<lambda>i. hex_lower ! i) (hex_nibbles d)) s = Some s' \<and> tx_live hw (dev s')"
    by (rule uart_live.put_all_returns)
qed

lemma puts_live:
  assumes "tx_live hw (dev s)"
  obtains t where "put_all (uart_putc hw) str s = Some t" "tx_live hw (dev t)" "uart_out t = uart_out s @ str"
  using uart_live.put_all_returns [OF assms, of str] uart_line.put_all_out [of hw str s] by auto

lemma print_digest_live:
  assumes "tx_live hw (dev s)"
  obtains t where "print_digest hw ds s = Some t" "tx_live hw (dev t)" "uart_out t = uart_out s @ digest_text ds @ cr_lf"
proof -
  obtain u where u: "put_all (\<lambda>d. put_all (uart_putc hw) (map (\<lambda>i. hex_lower ! i) (hex_nibbles d))) ds s = Some u" "tx_live hw (dev u)"
    using digest_sink.put_all_returns [OF assms] by blast
  have "uart_out u = uart_out s @ digest_text ds" using digest_sink.put_all_out [OF u(1)] by (simp add: digest_text_def)
  moreover obtain t where "put_all (uart_putc hw) cr_lf u = Some t" "tx_live hw (dev t)" "uart_out t = uart_out u @ cr_lf"
    using puts_live [OF u(2)] .
  ultimately show ?thesis using that [of t] u(1) by (simp add: print_digest_def)
qed

lemma sha_key_edit:
  assumes "tx_live hw (dev s)" and "\<not> enter c"
  obtains t echo where "sha_key hw c line s = Some (edit line c, t)" "tx_live hw (dev t)" "uart_out t = uart_out s @ echo"
proof -
  let ?k = "of_char c :: nat"
  have k: "?k \<noteq> 13" "?k \<noteq> 10" using assms(2) by (simp_all add: enter_code)
  consider "?k = 8 \<or> ?k = 127" "line \<noteq> []" | "32 \<le> ?k \<and> ?k \<le> 126" "length line < 127"
    | "(?k = 8 \<or> ?k = 127) \<longrightarrow> line = []" "32 \<le> ?k \<and> ?k \<le> 126 \<longrightarrow> \<not> length line < 127"
    by blast
  then show thesis
  proof cases
    case 1
    obtain t where "put_all (uart_putc hw) [char_of (8 :: nat), CHR '' '', char_of (8 :: nat)] s = Some t" "tx_live hw (dev t)"
      "uart_out t = uart_out s @ [char_of (8 :: nat), CHR '' '', char_of (8 :: nat)]"
      using puts_live [OF assms(1)] .
    then show ?thesis using that 1 k by (auto simp: sha_key_def edit_def Let_def)
  next
    case 2
    obtain t where "uart_putc hw c s = Some t" "tx_live hw (dev t)" "uart_out t = uart_out s @ [c]"
      using uart_putc_returns [OF assms(1)] uart_putc_out by blast
    then show ?thesis using that [of t "[c]"] 2 k by (simp add: sha_key_def edit_def Let_def INPUT_MAX_def)
  next
    case 3
    then have "sha_key hw c line s = Some (edit line c, s)"
      using k by (auto simp: sha_key_def edit_def INPUT_MAX_def Let_def)
    then show ?thesis using that [of s "[]"] assms(1) by simp
  qed
qed

lemma sha_keys_edit:
  assumes "tx_live hw (dev s)" and "\<forall>c \<in> set ks. \<not> enter c"
  shows "\<exists>t echo. sha_keys hw ks line s = Some (fold (\<lambda>c l. edit l c) ks line, t) \<and> tx_live hw (dev t) \<and> uart_out t = uart_out s @ echo"
  using assms
proof (induction ks arbitrary: line s)
  case (Cons c ks)
  obtain t e where t: "sha_key hw c line s = Some (edit line c, t)" "tx_live hw (dev t)" "uart_out t = uart_out s @ e"
    using sha_key_edit [OF Cons.prems(1), of c line] Cons.prems(2) by auto
  then show ?case using Cons.IH [OF t(2), of "edit line c"] Cons.prems(2) by fastforce
qed simp

lemma edit_limit: "length line \<le> 127 \<Longrightarrow> length (fold (\<lambda>c l. edit l c) ks line) \<le> 127"
  by (induction ks arbitrary: line) (auto simp: edit_def Let_def)

lemma sha_key_enter:
  assumes "tx_live hw (dev s)" and "enter c"
  obtains t where "sha_key hw c line s = Some ([], t)" "tx_live hw (dev t)"
    "uart_out t = uart_out s @ cr_lf @ (if line = [] then [] else ''SHA256: '' @ digest_text (sha256 line) @ cr_lf) @ ''> ''"
proof -
  have k: "of_char c = (13 :: nat) \<or> of_char c = (10 :: nat)" using assms(2) by (simp add: enter_code)
  obtain u where u: "put_all (uart_putc hw) cr_lf s = Some u" "tx_live hw (dev u)" "uart_out u = uart_out s @ cr_lf"
    using puts_live [OF assms(1)] .
  have "\<exists>v. (if length line \<noteq> 0 then do { s \<leftarrow> uart_puts hw ''SHA256: '' u; print_digest hw (sha256 line) s } else Some u) = Some v \<and>
      tx_live hw (dev v) \<and> uart_out v = uart_out u @ (if line = [] then [] else ''SHA256: '' @ digest_text (sha256 line) @ cr_lf)"
  proof (cases "line = []")
    case False
    obtain a where a: "put_all (uart_putc hw) ''SHA256: '' u = Some a" "tx_live hw (dev a)" "uart_out a = uart_out u @ ''SHA256: ''"
      using puts_live [OF u(2)] .
    obtain b where "print_digest hw (sha256 line) a = Some b" "tx_live hw (dev b)"
        "uart_out b = uart_out a @ digest_text (sha256 line) @ cr_lf"
      using print_digest_live [OF a(2)] .
    then show ?thesis using a False by (simp add: uart_puts_def)
  qed (use u in simp)
  then obtain v where v: "(if length line \<noteq> 0 then do { s \<leftarrow> uart_puts hw ''SHA256: '' u; print_digest hw (sha256 line) s } else Some u) = Some v"
      "tx_live hw (dev v)" "uart_out v = uart_out u @ (if line = [] then [] else ''SHA256: '' @ digest_text (sha256 line) @ cr_lf)"
    by blast
  obtain t where t: "put_all (uart_putc hw) ''> '' v = Some t" "tx_live hw (dev t)" "uart_out t = uart_out v @ ''> ''"
    using puts_live [OF v(2)] .
  have "sha_key hw c line s = Some ([], t)"
    using k u(1) v(1) t(1) by (auto simp: sha_key_def Let_def uart_puts_def simp del: put_all.simps)
  then show ?thesis using that t u(3) v(3) by simp
qed

lemma sha_keys_snoc: "sha_keys hw (ks @ [c]) line s = sha_keys hw ks line s \<bind> (\<lambda>(l, s). sha_key hw c l s)"
  by (induction ks arbitrary: line s) (auto split: bind_splits prod.splits)

text \<open>C33: while the transmitter drains, typing any keys and then Enter at an empty line returns to an empty line,
  never holds more than the 127 characters the buffer has room for, and ends the output with the standard's
  digest, in hexadecimal, of the line the keys spell, backspaces and ignored keys included, or with the bare
  prompt when that line is empty.\<close>

theorem sha256_shell_prints:
  assumes "tx_live hw (dev s)" and "\<forall>c \<in> set ks. \<not> enter c" and "enter e"
  shows "\<exists>t echo. sha_keys hw (ks @ [e]) [] s = Some ([], t) \<and> length (fold (\<lambda>c l. edit l c) ks []) \<le> 127 \<and>
    uart_out t = uart_out s @ echo @ cr_lf @
      (let line = fold (\<lambda>c l. edit l c) ks []
       in if line = [] then [] else ''SHA256: '' @ digest_text (fips_sha256 line) @ cr_lf) @ ''> ''"
proof -
  define line where "line = fold (\<lambda>c l. edit l c) ks []"
  obtain u echo where u: "sha_keys hw ks [] s = Some (line, u)" "tx_live hw (dev u)" "uart_out u = uart_out s @ echo"
    using sha_keys_edit [OF assms(1,2), of "[]"] unfolding line_def [symmetric] by blast
  obtain t where t: "sha_key hw e line u = Some ([], t)"
    "uart_out t = uart_out u @ cr_lf @ (if line = [] then [] else ''SHA256: '' @ digest_text (sha256 line) @ cr_lf) @ ''> ''"
    using sha_key_enter [OF u(2) assms(3)] .
  have len: "length line \<le> 127" using edit_limit [of "[]" ks] by (simp add: line_def)
  have "sha_keys hw (ks @ [e]) [] s = Some ([], t)" using u(1) t(1) by (simp add: sha_keys_snoc)
  then show ?thesis
    using t(2) u(3) len sha256_core [of line] unfolding line_def [symmetric] by (intro exI [of _ t] exI [of _ echo]) (simp add: Let_def)
qed

theorem sha256_shell_prints_witness:
  "\<exists>t echo. sha_keys (const_hw (\<lambda>_. 1)) [CHR ''a'', CHR ''x'', char_of (127 :: nat), char_of (13 :: nat)] [] \<lparr>dev = (), evs = []\<rparr> = Some ([], t) \<and>
     uart_out t = echo @ cr_lf @ ''SHA256: '' @ digest_text (fips_sha256 [0x61]) @ cr_lf @ ''> ''"
proof -
  have "tx_live (const_hw (\<lambda>_. 1)) ()" by (rule tx_live_const) (simp add: UART_TX_READY_BIT_def)
  moreover have "fold (\<lambda>c l. edit l c) [CHR ''a'', CHR ''x'', char_of (127 :: nat)] [] = [0x61]"
    by (simp add: edit_def)
  ultimately show ?thesis
    using sha256_shell_prints [of "const_hw (\<lambda>_. 1)" "\<lparr>dev = (), evs = []\<rparr>" "[CHR ''a'', CHR ''x'', char_of (127 :: nat)]" "char_of (13 :: nat)"]
    by (simp add: enter_code uart_out_def)
qed

end
