(* ===== verification/Quicksort.thy ===== *)
theory Quicksort
  imports Uart "HOL-Library.Multiset"
begin

text \<open>
  \<open>sim/sw/quicksort/main.c\<close>: the in-place Lomuto quicksort that the processor's memory path is tested with.
  The array is a list whose accesses are checked, \<^const>\<open>None\<close> being an access outside it, so that the
  theorems also say that there is none.  The indexed load of \<open>lxsw\<close>, hand-encoded in the source, is a read.
\<close>

definition N :: nat where "N = 256"

section \<open>The array\<close>

definition arr_rd :: "int list \<Rightarrow> int \<Rightarrow> int option" where
  "arr_rd a i = (if 0 \<le> i \<and> nat i < length a then Some (a ! nat i) else None)"

definition arr_wr :: "int \<Rightarrow> int \<Rightarrow> int list \<Rightarrow> int list option" where
  "arr_wr i v a = (if 0 \<le> i \<and> nat i < length a then Some (a[nat i := v]) else None)"

text \<open>The linear congruential fill.\<close>

fun fill_loop :: "nat \<Rightarrow> u32 \<Rightarrow> int list" where
  "fill_loop 0 state = []"
| "fill_loop (Suc n) state =
     (let state = state * 1664525 + 1013904223
      in (uint (drop_bit 16 state AND 0x1FF) - 256) # fill_loop n state)"

definition fill_array :: "int list" where
  "fill_array = fill_loop N 0x12345678"

text \<open>Eight words a line; the list is what is left from index \<open>i\<close> on.\<close>

fun print_from :: "'d hw \<Rightarrow> nat \<Rightarrow> int list \<Rightarrow> ('d, 'z) m \<Rightarrow> ('d, 'z) m option" where
  "print_from hw i [] s = Some s"
| "print_from hw i (v # vs) s = do {
     s \<leftarrow> (if i mod 8 = 0 then uart_puts hw [char_of (13 :: nat), char_of (10 :: nat)] s else Some s);
     s \<leftarrow> uart_put_hex32 hw (word_of_int v) s;
     s \<leftarrow> uart_putc hw (CHR '' '') s;
     print_from hw (i + 1) vs s }"

definition print_array :: "'d hw \<Rightarrow> string \<Rightarrow> int list \<Rightarrow> ('d, 'z) m \<Rightarrow> ('d, 'z) m option" where
  "print_array hw label a s = do {
     s \<leftarrow> uart_puts hw label s;
     s \<leftarrow> print_from hw 0 a s;
     uart_puts hw [char_of (13 :: nat), char_of (10 :: nat)] s }"

section \<open>The sort\<close>

definition lxsw :: "int list \<Rightarrow> int \<Rightarrow> int option" where
  "lxsw base idx = arr_rd base idx"

text \<open>The body of the partition's loop for one \<open>j\<close>, on the index \<open>i\<close> and the array; then the loop.\<close>

definition partition_step :: "int \<Rightarrow> int \<Rightarrow> int \<times> int list \<Rightarrow> (int \<times> int list) option" where
  "partition_step pivot j = (\<lambda>(i, a). do {
     aj \<leftarrow> lxsw a j;
     if aj \<le> pivot then do {
       let i = i + 1;
       ai \<leftarrow> lxsw a i;
       a \<leftarrow> arr_wr i aj a;
       a \<leftarrow> arr_wr j ai a;
       Some (i, a) }
     else Some (i, a) })"

function partition_loop :: "int \<Rightarrow> int \<Rightarrow> int \<Rightarrow> int \<times> int list \<Rightarrow> (int \<times> int list) option" where
  "partition_loop pivot hi j ia =
     (if j < hi then do { ia \<leftarrow> partition_step pivot j ia; partition_loop pivot hi (j + 1) ia } else Some ia)"
  by pat_completeness auto
termination
  by (relation "measure (\<lambda>(pivot, hi, j, ia). nat (hi - j))") auto

declare partition_loop.simps [simp del]

definition qs_partition :: "int \<Rightarrow> int \<Rightarrow> int list \<Rightarrow> (int \<times> int list) option" where
  "qs_partition lo hi a = do {
     pivot \<leftarrow> lxsw a hi;
     (i, a) \<leftarrow> partition_loop pivot hi lo (lo - 1, a);
     lo_v \<leftarrow> lxsw a (i + 1);
     hi_v \<leftarrow> lxsw a hi;
     a \<leftarrow> arr_wr (i + 1) hi_v a;
     a \<leftarrow> arr_wr hi lo_v a;
     Some (i + 1, a) }"

text \<open>The pivot's place lies between the bounds, whatever the array holds; the recursion rests on it.\<close>

lemma partition_step_index:
  "partition_step pivot j (i, a) = Some (i', a') \<Longrightarrow> i \<le> i' \<and> i' \<le> i + 1"
  by (auto simp: partition_step_def Let_def split: if_splits bind_splits)

lemma partition_loop_index:
  "partition_loop pivot hi j (i, a) = Some (i', a') \<Longrightarrow> i < j \<Longrightarrow> i \<le> i' \<and> i' < max j hi"
proof (induction pivot hi j "(i, a)" arbitrary: i a rule: partition_loop.induct)
  case (1 pivot hi j i a)
  show ?case
  proof (cases "j < hi")
    case True
    then obtain k b where k: "partition_step pivot j (i, a) = Some (k, b)" "partition_loop pivot hi (j + 1) (k, b) = Some (i', a')"
      using "1.prems"(1) partition_loop.simps [of pivot hi j "(i, a)"] by (auto elim!: bind_SomeE)
    then have "i \<le> k" "k < j + 1" using partition_step_index [OF k(1)] "1.prems"(2) by simp_all
    then show ?thesis using "1.hyps" [OF True k] True by auto
  next
    case False
    then show ?thesis using "1.prems" partition_loop.simps [of pivot hi j "(i, a)"] by simp
  qed
qed

lemma qs_partition_index:
  assumes "qs_partition lo hi a = Some (p, b)" and "lo < hi"
  shows "lo \<le> p \<and> p \<le> hi"
proof -
  obtain pivot i c where "partition_loop pivot hi lo (lo - 1, a) = Some (i, c)" "p = i + 1"
    using assms(1) by (auto simp: qs_partition_def elim!: bind_SomeE)
  then show ?thesis using partition_loop_index [of pivot hi lo "lo - 1" a i c] assms(2) by auto
qed

function (domintros) quicksort :: "int \<Rightarrow> int \<Rightarrow> int list \<Rightarrow> int list option" where
  "quicksort lo hi a =
     (if lo < hi then do {
        (p, a) \<leftarrow> qs_partition lo hi a;
        a \<leftarrow> quicksort lo (p - 1) a;
        quicksort (p + 1) hi a }
      else Some a)"
  by pat_completeness auto
termination
  by (relation "measure (\<lambda>(lo, hi, a). nat (hi - lo + 1))") (auto dest: qs_partition_index)

declare quicksort.simps [simp del]

section \<open>The program\<close>

definition sorted_check :: "int list \<Rightarrow> bool" where
  "sorted_check a = list_all (\<lambda>i. \<not> a ! (i - 1) > a ! i) [1..<N]"

definition qs_main :: "'d hw \<Rightarrow> ('d, 'z) m \<Rightarrow> (u32 \<times> ('d, 'z) m) option" where
  "qs_main hw s = do {
     let a = fill_array;
     s \<leftarrow> print_array hw ''before:'' a s;
     a \<leftarrow> quicksort 0 (int N - 1) a;
     s \<leftarrow> print_array hw ''after:'' a s;
     if sorted_check a
     then do { s \<leftarrow> uart_puts hw (''OK'' @ [char_of (13 :: nat), char_of (10 :: nat)]) s; Some (0x600D, s) }
     else do { s \<leftarrow> uart_puts hw (''FAIL'' @ [char_of (13 :: nat), char_of (10 :: nat)]) s; Some (0x00000BAD, s) } }"

section \<open>Rearranging a part of the array\<close>

definition perm_in :: "int \<Rightarrow> int \<Rightarrow> int list \<Rightarrow> int list \<Rightarrow> bool" where
  "perm_in lo hi a b \<longleftrightarrow> length b = length a \<and> mset b = mset a \<and>
     (\<forall>k. 0 \<le> k \<and> k < int (length a) \<and> (k < lo \<or> hi < k) \<longrightarrow> b ! nat k = a ! nat k)"

lemma perm_in_refl [simp]: "perm_in lo hi a a"
  by (simp add: perm_in_def)

lemma perm_in_trans: "perm_in lo hi a b \<Longrightarrow> perm_in lo hi b c \<Longrightarrow> perm_in lo hi a c"
  by (simp add: perm_in_def)

lemma perm_in_mono: "perm_in lo hi a b \<Longrightarrow> l \<le> lo \<Longrightarrow> hi \<le> h \<Longrightarrow> perm_in l h a b"
  by (auto simp: perm_in_def)

lemma perm_in_swap:
  assumes "lo \<le> i" and "i \<le> hi" and "lo \<le> j" and "j \<le> hi" and "0 \<le> lo" and "hi < int (length a)"
  shows "perm_in lo hi a (a[nat i := a ! nat j, nat j := a ! nat i])"
proof -
  have "nat i < length a" "nat j < length a" using assms by auto
  then have "mset (a[nat i := a ! nat j, nat j := a ! nat i]) = mset a" by (rule mset_swap [of "nat j" a "nat i", rotated])
  moreover have "a[nat i := a ! nat j, nat j := a ! nat i] ! nat k = a ! nat k"
    if "0 \<le> k" "k < lo \<or> hi < k" for k
  proof -
    have "nat k \<noteq> nat i" "nat k \<noteq> nat j" using that assms by auto
    then show ?thesis by simp
  qed
  ultimately show ?thesis by (simp add: perm_in_def)
qed

text \<open>What holds of every element of the part before holds after.\<close>

lemma perm_in_all:
  assumes "perm_in lo hi a b" and "0 \<le> lo" and "hi < int (length a)"
    and "\<forall>k. lo \<le> k \<and> k \<le> hi \<longrightarrow> P (a ! nat k)"
  shows "\<forall>k. lo \<le> k \<and> k \<le> hi \<longrightarrow> P (b ! nat k)"
proof (intro allI impI)
  fix k
  assume k: "lo \<le> k \<and> k \<le> hi"
  define l m where "l = nat lo" and "m = nat (hi + 1)"
  have lm: "l \<le> m" "m \<le> length a" "l \<le> nat k" "nat k < m" using k assms(2,3) by (auto simp: l_def m_def)
  have len: "length b = length a" using assms(1) by (simp add: perm_in_def)
  have out: "b ! n = a ! n" if "n < length a" "n < l \<or> m \<le> n" for n
    using assms(1) that unfolding perm_in_def by (auto simp: l_def m_def dest!: spec [of _ "int n"])
  have pre: "take l b = take l a" "drop m b = drop m a"
    by (rule nth_equalityI; use len lm out in simp)+
  have split: "xs = take l xs @ drop l (take m xs) @ drop m xs" for xs :: "int list"
    using lm(1) by (metis append_assoc append_take_drop_id take_take min.absorb1 min.commute)
  have "mset (drop l (take m b)) = mset (drop l (take m a))"
  proof -
    have "mset b = mset a" using assms(1) by (simp add: perm_in_def)
    then have "mset (take l b @ drop l (take m b) @ drop m b) = mset (take l a @ drop l (take m a) @ drop m a)"
      using split [of a] split [of b] by simp
    then show ?thesis by (simp add: pre)
  qed
  then have "set (drop l (take m b)) = set (drop l (take m a))" by (metis set_mset_mset)
  moreover have "b ! nat k \<in> set (drop l (take m b))"
    using lm len by (auto simp: set_conv_nth intro!: exI [of _ "nat k - l"])
  ultimately obtain i where i: "i < m - l" "b ! nat k = a ! (l + i)"
    using lm len by (auto simp: set_conv_nth)
  have "nat (int (l + i)) = l + i" by (rule nat_int)
  moreover have "P (a ! nat (int (l + i)))" using assms(4) i(1) assms(2) by (intro assms(4) [rule_format]) (auto simp: l_def m_def)
  ultimately show "P (b ! nat k)" unfolding i(2) by (simp only:)
qed

section \<open>The partition\<close>

lemma partition_step_spec:
  assumes "0 \<le> lo" and "hi < int (length a)" and "lo - 1 \<le> i" and "i < j" and "lo \<le> j" and "j < hi"
    and "\<forall>k. lo \<le> k \<and> k \<le> i \<longrightarrow> a ! nat k \<le> pivot" and "\<forall>k. i < k \<and> k < j \<longrightarrow> pivot < a ! nat k"
  shows "\<exists>i' b. partition_step pivot j (i, a) = Some (i', b) \<and> perm_in lo (hi - 1) a b \<and> lo - 1 \<le> i' \<and> i' < j + 1 \<and>
    (\<forall>k. lo \<le> k \<and> k \<le> i' \<longrightarrow> b ! nat k \<le> pivot) \<and> (\<forall>k. i' < k \<and> k < j + 1 \<longrightarrow> pivot < b ! nat k)"
proof (cases "a ! nat j \<le> pivot")
  case False
  then have "partition_step pivot j (i, a) = Some (i, a)"
    using assms by (simp add: partition_step_def lxsw_def arr_rd_def)
  moreover have "pivot < a ! nat k" if "i < k \<and> k < j + 1" for k
    using that assms(8) False by (cases "k = j") auto
  ultimately show ?thesis using assms by (intro exI [of _ i] exI [of _ a]) auto
next
  case True
  define b where "b = a[nat (i + 1) := a ! nat j, nat j := a ! nat (i + 1)]"
  have ix: "0 \<le> i + 1" "nat (i + 1) < length a" "0 \<le> j" "nat j < length a" using assms by auto
  have "partition_step pivot j (i, a) = Some (i + 1, b)"
    using True ix by (simp add: partition_step_def lxsw_def arr_rd_def arr_wr_def Let_def b_def)
  moreover have "perm_in lo (hi - 1) a b"
    unfolding b_def using assms by (intro perm_in_swap) auto
  moreover have "b ! nat k \<le> pivot" if "lo \<le> k \<and> k \<le> i + 1" for k
  proof (cases "k = i + 1")
    case True
    then show ?thesis using \<open>a ! nat j \<le> pivot\<close> ix by (cases "i + 1 = j") (auto simp: b_def nth_list_update)
  next
    case False
    then have "nat k \<noteq> nat (i + 1)" "nat k \<noteq> nat j" using that assms by auto
    then show ?thesis using that False assms(7) by (simp add: b_def)
  qed
  moreover have "pivot < b ! nat k" if "i + 1 < k \<and> k < j + 1" for k
  proof (cases "k = j")
    case True
    then have "nat (i + 1) \<noteq> nat j" using that ix by auto
    then show ?thesis using True that assms(8) ix by (auto simp: b_def)
  next
    case False
    then have "nat k \<noteq> nat (i + 1)" "nat k \<noteq> nat j" using that ix by auto
    then show ?thesis using that False assms(8) by (simp add: b_def)
  qed
  ultimately show ?thesis using assms by (intro exI [of _ "i + 1"] exI [of _ b]) auto
qed

lemma partition_loop_spec:
  assumes "0 \<le> lo" and "hi < int (length a)" and "lo - 1 \<le> i" and "i < j" and "lo \<le> j" and "j \<le> hi"
    and "\<forall>k. lo \<le> k \<and> k \<le> i \<longrightarrow> a ! nat k \<le> pivot" and "\<forall>k. i < k \<and> k < j \<longrightarrow> pivot < a ! nat k"
  shows "\<exists>i' b. partition_loop pivot hi j (i, a) = Some (i', b) \<and> perm_in lo (hi - 1) a b \<and> lo - 1 \<le> i' \<and> i' < hi \<and>
    (\<forall>k. lo \<le> k \<and> k \<le> i' \<longrightarrow> b ! nat k \<le> pivot) \<and> (\<forall>k. i' < k \<and> k < hi \<longrightarrow> pivot < b ! nat k)"
  using assms
proof (induction "nat (hi - j)" arbitrary: i j a)
  case 0
  then have "j = hi" "partition_loop pivot hi j (i, a) = Some (i, a)"
    using partition_loop.simps [of pivot hi j "(i, a)"] by simp_all
  then show ?case using 0 by (intro exI [of _ i] exI [of _ a]) simp
next
  case (Suc n)
  then have j: "j < hi" by simp
  obtain k b where k: "partition_step pivot j (i, a) = Some (k, b)" "perm_in lo (hi - 1) a b" "lo - 1 \<le> k" "k < j + 1"
    "\<forall>m. lo \<le> m \<and> m \<le> k \<longrightarrow> b ! nat m \<le> pivot" "\<forall>m. k < m \<and> m < j + 1 \<longrightarrow> pivot < b ! nat m"
    using partition_step_spec [of lo hi a i j pivot] Suc.prems j by blast
  have len: "length b = length a" using k(2) by (simp add: perm_in_def)
  have left: "n = nat (hi - (j + 1))" using Suc.hyps(2) by simp
  obtain i' c where c: "partition_loop pivot hi (j + 1) (k, b) = Some (i', c)" "perm_in lo (hi - 1) b c" "lo - 1 \<le> i'" "i' < hi"
    "\<forall>m. lo \<le> m \<and> m \<le> i' \<longrightarrow> c ! nat m \<le> pivot" "\<forall>m. i' < m \<and> m < hi \<longrightarrow> pivot < c ! nat m"
    using Suc.hyps(1) [of "j + 1" b k] left Suc.prems k(3-6) len j by auto
  have "partition_loop pivot hi j (i, a) = Some (i', c)"
    using j k(1) c(1) by (simp add: partition_loop.simps [of pivot hi j "(i, a)"])
  then show ?case using c perm_in_trans [OF k(2) c(2)] by blast
qed

lemma qs_partition_spec:
  assumes "0 \<le> lo" and "lo < hi" and "hi < int (length a)"
  shows "\<exists>p b. qs_partition lo hi a = Some (p, b) \<and> perm_in lo hi a b \<and> lo \<le> p \<and> p \<le> hi \<and>
    (\<forall>k. lo \<le> k \<and> k < p \<longrightarrow> b ! nat k \<le> b ! nat p) \<and> (\<forall>k. p < k \<and> k \<le> hi \<longrightarrow> b ! nat p < b ! nat k)"
proof -
  define pivot where "pivot = a ! nat hi"
  obtain i b where b: "partition_loop pivot hi lo (lo - 1, a) = Some (i, b)" "perm_in lo (hi - 1) a b" "lo - 1 \<le> i" "i < hi"
    "\<forall>k. lo \<le> k \<and> k \<le> i \<longrightarrow> b ! nat k \<le> pivot" "\<forall>k. i < k \<and> k < hi \<longrightarrow> pivot < b ! nat k"
    using partition_loop_spec [of lo hi a "lo - 1" lo pivot] assms by fastforce
  have len: "length b = length a" and hi: "b ! nat hi = pivot"
    using b(2) assms by (simp_all add: perm_in_def pivot_def)
  define c where "c = b[nat (i + 1) := b ! nat hi, nat hi := b ! nat (i + 1)]"
  have ix: "0 \<le> i + 1" "nat (i + 1) < length b" "0 \<le> hi" "nat hi < length b" using assms b(3,4) len by auto
  have "qs_partition lo hi a = Some (i + 1, c)"
    using ix b(1) assms by (simp add: qs_partition_def lxsw_def arr_rd_def arr_wr_def len c_def pivot_def)
  moreover have "perm_in lo hi a c"
  proof (rule perm_in_trans [OF perm_in_mono [OF b(2)]])
    show "perm_in lo hi b c" unfolding c_def using assms b(3,4) len by (intro perm_in_swap) auto
  qed simp_all
  moreover have p: "c ! nat (i + 1) = pivot" using ix hi by (cases "i + 1 = hi") (auto simp: c_def nth_list_update)
  moreover have "c ! nat k \<le> pivot" if "lo \<le> k \<and> k < i + 1" for k
  proof -
    have "nat k \<noteq> nat (i + 1)" "nat k \<noteq> nat hi" using that assms b(4) by auto
    then show ?thesis using that b(5) by (simp add: c_def)
  qed
  moreover have "pivot < c ! nat k" if "i + 1 < k \<and> k \<le> hi" for k
  proof (cases "k = hi")
    case True
    then have "nat (i + 1) \<noteq> nat hi" using that ix by auto
    then show ?thesis using True that b(6) ix by (auto simp: c_def)
  next
    case False
    then have "nat k \<noteq> nat (i + 1)" "nat k \<noteq> nat hi" using that ix by auto
    then show ?thesis using that False b(6) by (simp add: c_def)
  qed
  ultimately show ?thesis using b(3,4) by (intro exI [of _ "i + 1"] exI [of _ c]) auto
qed

section \<open>The sort is correct\<close>

lemma quicksort_spec:
  "0 \<le> lo \<Longrightarrow> hi < int (length a) \<Longrightarrow>
    \<exists>b. quicksort lo hi a = Some b \<and> perm_in lo hi a b \<and> (\<forall>i j. lo \<le> i \<and> i \<le> j \<and> j \<le> hi \<longrightarrow> b ! nat i \<le> b ! nat j)"
proof (induction "nat (hi - lo + 1)" arbitrary: lo hi a rule: less_induct)
  case less
  show ?case
  proof (cases "lo < hi")
    case False
    have "a ! nat i \<le> a ! nat j" if "lo \<le> i \<and> i \<le> j \<and> j \<le> hi" for i j
    proof -
      have "i = j" using that False by linarith
      then show ?thesis by simp
    qed
    then show ?thesis using False by (intro exI [of _ a]) (simp add: quicksort.simps [of lo hi a])
  next
    case True
    obtain p b where b: "qs_partition lo hi a = Some (p, b)" "perm_in lo hi a b" "lo \<le> p" "p \<le> hi"
      "\<forall>k. lo \<le> k \<and> k < p \<longrightarrow> b ! nat k \<le> b ! nat p" "\<forall>k. p < k \<and> k \<le> hi \<longrightarrow> b ! nat p < b ! nat k"
      using qs_partition_spec [OF less.prems(1) True less.prems(2)] by blast
    have lb: "length b = length a" using b(2) by (simp add: perm_in_def)
    obtain c where c: "quicksort lo (p - 1) b = Some c" "perm_in lo (p - 1) b c"
      "\<forall>i j. lo \<le> i \<and> i \<le> j \<and> j \<le> p - 1 \<longrightarrow> c ! nat i \<le> c ! nat j"
    proof -
      have "nat (p - 1 - lo + 1) < nat (hi - lo + 1)" "p - 1 < int (length b)" using less.prems b(3,4) lb True by simp_all
      from less.hyps [OF this(1) less.prems(1) this(2)] show ?thesis using that by blast
    qed
    have lc: "length c = length a" using c(2) lb by (simp add: perm_in_def)
    obtain d where d: "quicksort (p + 1) hi c = Some d" "perm_in (p + 1) hi c d"
      "\<forall>i j. p + 1 \<le> i \<and> i \<le> j \<and> j \<le> hi \<longrightarrow> d ! nat i \<le> d ! nat j"
    proof -
      have "nat (hi - (p + 1) + 1) < nat (hi - lo + 1)" "0 \<le> p + 1" "hi < int (length c)" using less.prems b(3,4) lc True by simp_all
      from less.hyps [OF this] show ?thesis using that by blast
    qed
    have cp: "c ! nat k = b ! nat k" if "p \<le> k" "k \<le> hi" for k
      using c(2) that less.prems b(3) lb by (simp add: perm_in_def)
    have dp: "d ! nat k = c ! nat k" if "lo \<le> k" "k \<le> p" for k
      using d(2) that less.prems b(4) lc by (simp add: perm_in_def)
    have left: "\<forall>k. lo \<le> k \<and> k \<le> p - 1 \<longrightarrow> c ! nat k \<le> b ! nat p"
      using perm_in_all [OF c(2), where P = "\<lambda>v. v \<le> b ! nat p"] less.prems b(4,5) lb by simp
    have right: "\<forall>k. p + 1 \<le> k \<and> k \<le> hi \<longrightarrow> b ! nat p \<le> d ! nat k"
    proof (rule perm_in_all [OF d(2)])
      show "0 \<le> p + 1" "hi < int (length c)" using less.prems b(3) lc by simp_all
      show "\<forall>k. p + 1 \<le> k \<and> k \<le> hi \<longrightarrow> b ! nat p \<le> c ! nat k" using b(6) cp by (simp add: less_imp_le)
    qed
    have mid: "d ! nat p = b ! nat p" using dp cp b(3,4) by simp
    have "d ! nat i \<le> d ! nat j" if "lo \<le> i \<and> i \<le> j \<and> j \<le> hi" for i j
    proof (cases "p < i")
      case True
      then show ?thesis using that d(3) [rule_format, of i j] by linarith
    next
      case False
      have low: "d ! nat i \<le> b ! nat p"
      proof (cases "i = p")
        case False
        then have "c ! nat i \<le> b ! nat p" using that \<open>\<not> p < i\<close> left [rule_format, of i] by linarith
        then show ?thesis using that \<open>\<not> p < i\<close> dp [of i] by simp
      qed (simp add: mid)
      show ?thesis
      proof (cases "p \<le> j")
        case True
        have "b ! nat p \<le> d ! nat j"
        proof (cases "j = p")
          case False
          then show ?thesis using that True right [rule_format, of j] by linarith
        qed (simp add: mid)
        then show ?thesis using low by simp
      next
        case False
        then show ?thesis using that c(3) [rule_format, of i j] dp [of i] dp [of j] by simp
      qed
    qed
    moreover have "perm_in lo hi a d"
    proof (rule perm_in_trans [OF b(2)], rule perm_in_trans)
      show "perm_in lo hi b c" using b(4) by (intro perm_in_mono [OF c(2)]) simp_all
      show "perm_in lo hi c d" using b(3) by (intro perm_in_mono [OF d(2)]) simp_all
    qed
    moreover have "quicksort lo hi a = Some d"
      using True b(1) c(1) d(1) by (simp add: quicksort.simps [of lo hi a])
    ultimately show ?thesis by (intro exI [of _ d]) simp
  qed
qed

lemma quicksort_sort:
  "quicksort 0 (int (length a) - 1) a = Some (sort a)"
proof -
  obtain b where b: "quicksort 0 (int (length a) - 1) a = Some b" "perm_in 0 (int (length a) - 1) a b"
    "\<forall>i j. 0 \<le> i \<and> i \<le> j \<and> j \<le> int (length a) - 1 \<longrightarrow> b ! nat i \<le> b ! nat j"
    using quicksort_spec [of 0 "int (length a) - 1" a] by auto
  have "b ! i \<le> b ! j" if "i \<le> j" "j < length b" for i j
    using b(2) b(3) [rule_format, of "int i" "int j"] that by (simp add: perm_in_def)
  then have "sorted b" by (simp add: sorted_iff_nth_mono)
  then have "sort a = b" using b(2) by (intro properties_for_sort) (simp_all add: perm_in_def)
  then show ?thesis using b(1) by simp
qed

text \<open>The part between two indices, and what surrounds it.\<close>

lemma perm_in_parts:
  assumes "perm_in lo hi a b" and "0 \<le> lo" and "hi < int (length a)"
  defines "n \<equiv> nat (hi - lo + 1)"
  shows "b = take (nat lo) a @ take n (drop (nat lo) b) @ drop (nat lo + n) a"
    and "mset (take n (drop (nat lo) b)) = mset (take n (drop (nat lo) a))"
proof -
  have len: "length b = length a" and m: "mset b = mset a" using assms(1) by (simp_all add: perm_in_def)
  have out: "b ! k = a ! k" if "k < length a" "k < nat lo \<or> nat lo + n \<le> k" for k
    using assms(1) that unfolding perm_in_def by (auto simp: n_def dest!: spec [of _ "int k"])
  have "take (nat lo) b = take (nat lo) a" by (rule nth_equalityI) (simp_all add: len out)
  moreover have "drop (nat lo + n) b = drop (nat lo + n) a" by (rule nth_equalityI) (simp_all add: len out)
  moreover have split: "xs = take (nat lo) xs @ take n (drop (nat lo) xs) @ drop (nat lo + n) xs" for xs :: "int list"
    by (metis append_take_drop_id drop_drop add.commute)
  ultimately show b: "b = take (nat lo) a @ take n (drop (nat lo) b) @ drop (nat lo + n) a" by metis
  have "mset b = mset (take (nat lo) a) + mset (take n (drop (nat lo) b)) + mset (drop (nat lo + n) a)"
    by (subst b) simp
  moreover have "mset a = mset (take (nat lo) a) + mset (take n (drop (nat lo) a)) + mset (drop (nat lo + n) a)"
    by (subst split [of a]) simp
  ultimately show "mset (take n (drop (nat lo) b)) = mset (take n (drop (nat lo) a))" using m by simp
qed

text \<open>C34: the in-place sort of the part of an array from index \<open>lo\<close> to index \<open>hi\<close> returns, without an access outside
  the array, with that part sorted in ascending order, element for element the same, and everything before and
  behind it as it was.  The whole array is the case from 0 to its last index; an empty part is left alone.\<close>

theorem quicksort_sorts:
  assumes "0 \<le> lo" and "hi < int (length a)"
  shows "quicksort lo hi a =
    Some (take (nat lo) a @ sort (take (nat (hi - lo + 1)) (drop (nat lo) a)) @ drop (nat lo + nat (hi - lo + 1)) a)"
proof -
  let ?n = "nat (hi - lo + 1)"
  obtain b where b: "quicksort lo hi a = Some b" "perm_in lo hi a b"
    "\<forall>i j. lo \<le> i \<and> i \<le> j \<and> j \<le> hi \<longrightarrow> b ! nat i \<le> b ! nat j"
    using quicksort_spec [OF assms] by blast
  let ?p = "take ?n (drop (nat lo) b)"
  have "?p ! i \<le> ?p ! j" if "i \<le> j" "j < length ?p" for i j
  proof -
    have "b ! nat (lo + int i) \<le> b ! nat (lo + int j)" using that assms by (intro b(3) [rule_format]) auto
    moreover have "nat lo + j \<le> length b" "nat lo + i \<le> length b" using that by auto
    ultimately show ?thesis using that assms(1) by (simp add: nat_add_distrib)
  qed
  then have "sort (take ?n (drop (nat lo) a)) = ?p"
    by (intro properties_for_sort) (simp_all add: sorted_iff_nth_mono perm_in_parts(2) [OF b(2) assms])
  then show ?thesis using b(1) perm_in_parts(1) [OF b(2) assms] by simp
qed

theorem quicksort_sorts_witness:
  "quicksort 1 4 [9, 7, -3, 7, 2, 0] = Some [9, -3, 2, 7, 7, 0]"
  using quicksort_sorts [of 1 4 "[9, 7, -3, 7, 2, 0]"] by simp

text \<open>What the program prints of an array.\<close>

definition hex_text :: "int \<Rightarrow> string" where
  "hex_text v = ''0x'' @ map (\<lambda>d. hex_upper ! d) (hex_nibbles (word_of_int v))"

definition array_text :: "string \<Rightarrow> int list \<Rightarrow> string" where
  "array_text label a = label @ concat (map (\<lambda>(i, v). (if i mod 8 = 0 then [char_of (13 :: nat), char_of (10 :: nat)] else []) @
     hex_text v @ '' '') (enumerate 0 a)) @ [char_of (13 :: nat), char_of (10 :: nat)]"

lemma out_live:
  assumes "tx_live hw (dev s)"
  obtains t where "put_all (uart_putc hw) str s = Some t" "tx_live hw (dev t)" "uart_out t = uart_out s @ str"
  using uart_live.put_all_returns [OF assms, of str] uart_line.put_all_out [of hw str s] by auto

lemma hex_live:
  assumes "tx_live hw (dev s)"
  obtains t where "uart_put_hex32 hw (word_of_int v) s = Some t" "tx_live hw (dev t)" "uart_out t = uart_out s @ hex_text v"
proof -
  obtain u where u: "put_all (uart_putc hw) ''0x'' s = Some u" "tx_live hw (dev u)" "uart_out u = uart_out s @ ''0x''"
    using out_live [OF assms] .
  obtain t where "put_all (uart_putc hw) (map (\<lambda>d. hex_upper ! d) (hex_nibbles (word_of_int v))) u = Some t" "tx_live hw (dev t)"
    "uart_out t = uart_out u @ map (\<lambda>d. hex_upper ! d) (hex_nibbles (word_of_int v))"
    using out_live [OF u(2)] .
  then show ?thesis using that [of t] u by (simp add: uart_put_hex32_def uart_puts_def hex_text_def del: put_all.simps)
qed

lemma print_from_live:
  "tx_live hw (dev s) \<Longrightarrow> \<exists>t. print_from hw i a s = Some t \<and> tx_live hw (dev t) \<and> uart_out t = uart_out s @
     concat (map (\<lambda>(i, v). (if i mod 8 = 0 then [char_of (13 :: nat), char_of (10 :: nat)] else []) @ hex_text v @ '' '') (enumerate i a))"
proof (induction a arbitrary: i s)
  case (Cons v a)
  define nl where "nl = (if i mod 8 = 0 then [char_of (13 :: nat), char_of (10 :: nat)] else [])"
  obtain u where u: "put_all (uart_putc hw) nl s = Some u" "tx_live hw (dev u)" "uart_out u = uart_out s @ nl"
    using out_live [OF Cons.prems] .
  have nl: "(if i mod 8 = 0 then uart_puts hw [char_of (13 :: nat), char_of (10 :: nat)] s else Some s) = Some u"
    using u(1) by (cases "i mod 8 = 0") (simp_all add: nl_def uart_puts_def)
  obtain w where w: "uart_put_hex32 hw (word_of_int v) u = Some w" "tx_live hw (dev w)" "uart_out w = uart_out u @ hex_text v"
    using hex_live [OF u(2)] .
  obtain x where x: "put_all (uart_putc hw) '' '' w = Some x" "tx_live hw (dev x)" "uart_out x = uart_out w @ '' ''"
    using out_live [OF w(2)] .
  have "uart_putc hw (CHR '' '') w = Some x" using x(1) by (auto elim!: bind_SomeE)
  moreover obtain t where t: "print_from hw (i + 1) a x = Some t" "tx_live hw (dev t)" "uart_out t = uart_out x @
     concat (map (\<lambda>(i, v). (if i mod 8 = 0 then [char_of (13 :: nat), char_of (10 :: nat)] else []) @ hex_text v @ '' '') (enumerate (i + 1) a))"
    using Cons.IH [OF x(2)] by blast
  ultimately have "print_from hw i (v # a) s = Some t" using w(1) nl by simp
  then show ?case using t u(3) w(3) x(3) by (auto simp: nl_def)
qed simp

lemma print_array_live:
  assumes "tx_live hw (dev s)"
  obtains t where "print_array hw label a s = Some t" "tx_live hw (dev t)" "uart_out t = uart_out s @ array_text label a"
proof -
  obtain u where u: "put_all (uart_putc hw) label s = Some u" "tx_live hw (dev u)" "uart_out u = uart_out s @ label"
    using out_live [OF assms] .
  obtain w where w: "print_from hw 0 a u = Some w" "tx_live hw (dev w)" "uart_out w = uart_out u @
     concat (map (\<lambda>(i, v). (if i mod 8 = 0 then [char_of (13 :: nat), char_of (10 :: nat)] else []) @ hex_text v @ '' '') (enumerate 0 a))"
    using print_from_live [OF u(2)] by blast
  obtain t where t: "put_all (uart_putc hw) [char_of (13 :: nat), char_of (10 :: nat)] w = Some t" "tx_live hw (dev t)"
    "uart_out t = uart_out w @ [char_of (13 :: nat), char_of (10 :: nat)]"
    using out_live [OF w(2)] .
  then show ?thesis using that [of t] u w
    by (simp add: print_array_def uart_puts_def array_text_def del: put_all.simps)
qed

lemma fill_length: "length (fill_loop n state) = n"
  by (induction n arbitrary: state) (simp_all add: Let_def)

lemma sorted_passes: "sorted a \<Longrightarrow> length a = N \<Longrightarrow> sorted_check a"
  by (auto simp: sorted_check_def list_all_iff not_less sorted_iff_nth_mono)

text \<open>C35: the program passes its own check on every target whose transmitter drains: it returns the success marker,
  having printed the generated array, the same array in ascending order, and the verdict.\<close>

theorem quicksort_main_passes:
  assumes "tx_live hw (dev s)"
  shows "\<exists>t. qs_main hw s = Some (0x600D, t) \<and> uart_out t = uart_out s @ array_text ''before:'' fill_array @
    array_text ''after:'' (sort fill_array) @ ''OK'' @ [char_of (13 :: nat), char_of (10 :: nat)]"
proof -
  have len: "length fill_array = N" by (simp add: fill_array_def fill_length)
  obtain u where u: "print_array hw ''before:'' fill_array s = Some u" "tx_live hw (dev u)"
      "uart_out u = uart_out s @ array_text ''before:'' fill_array"
    using print_array_live [OF assms] .
  obtain w where w: "print_array hw ''after:'' (sort fill_array) u = Some w" "tx_live hw (dev w)"
      "uart_out w = uart_out u @ array_text ''after:'' (sort fill_array)"
    using print_array_live [OF u(2)] .
  obtain t where t: "put_all (uart_putc hw) (''OK'' @ [char_of (13 :: nat), char_of (10 :: nat)]) w = Some t"
      "uart_out t = uart_out w @ ''OK'' @ [char_of (13 :: nat), char_of (10 :: nat)]"
    using out_live [OF w(2)] .
  have "quicksort 0 (int N - 1) fill_array = Some (sort fill_array)"
    using quicksort_sort [of fill_array] len by simp
  moreover have "sorted_check (sort fill_array)" using sorted_passes len by simp
  ultimately have "qs_main hw s = Some (0x600D, t)"
    using u(1) w(1) t(1) by (simp add: qs_main_def Let_def uart_puts_def del: put_all.simps)
  then show ?thesis using t(2) u(3) w(3) by simp
qed

theorem quicksort_main_passes_witness:
  "\<exists>t. qs_main (const_hw (\<lambda>_. 1)) \<lparr>dev = (), evs = []\<rparr> = Some (0x600D, t)"
proof -
  have "tx_live (const_hw (\<lambda>_. 1)) ()" by (rule tx_live_const) (simp add: UART_TX_READY_BIT_def)
  then show ?thesis using quicksort_main_passes [of "const_hw (\<lambda>_. 1)" "\<lparr>dev = (), evs = []\<rparr>"] by auto
qed

end
