(* ===== verification/Yarvmon.thy ===== *)
theory Yarvmon
  imports Uart
begin

text \<open>
  \<open>sim/sw/yarvmon/yarvmon.c\<close>: the memory monitor on the serial port.  The bytes that its raw pointers reach
  are the field \<open>dmem\<close>, a total map: every address of the data memory answers, and the peripheral registers,
  whose loads have effects, are outside the model.  The call of \<open>R\<close> goes to code the monitor does not know,
  a parameter.
\<close>

definition IN_BUF_SIZE :: nat where "IN_BUF_SIZE = 132"

datatype mon_mode = MODE_XAM | MODE_STOR | MODE_BLOCK

record 'd mon = "'d mach" +
  dmem :: "u32 \<Rightarrow> u8"
  xam :: u32
  st_addr :: u32

section \<open>Printing\<close>

definition print_nibble :: "'d hw \<Rightarrow> u32 \<Rightarrow> ('d, 'z) m \<Rightarrow> ('d, 'z) m option" where
  "print_nibble hw v s = uart_putc hw (hex_upper ! unat (v AND 0xF)) s"

definition print_hex32 :: "'d hw \<Rightarrow> u32 \<Rightarrow> ('d, 'z) m \<Rightarrow> ('d, 'z) m option" where
  "print_hex32 hw v s = put_all (\<lambda>i. print_nibble hw (drop_bit i v)) [28, 24, 20, 16, 12, 8, 4, 0] s"

definition print_hex8 :: "'d hw \<Rightarrow> u8 \<Rightarrow> ('d, 'z) m \<Rightarrow> ('d, 'z) m option" where
  "print_hex8 hw v s = do { s \<leftarrow> print_nibble hw (ucast (drop_bit 4 v)) s; print_nibble hw (ucast v) s }"

definition newline :: "'d hw \<Rightarrow> ('d, 'z) m \<Rightarrow> ('d, 'z) m option" where
  "newline hw s = do { s \<leftarrow> uart_putc hw (char_of (13 :: nat)) s; uart_putc hw (char_of (10 :: nat)) s }"

definition print_addr_prefix :: "'d hw \<Rightarrow> u32 \<Rightarrow> ('d, 'z) m \<Rightarrow> ('d, 'z) m option" where
  "print_addr_prefix hw addr s = do {
     s \<leftarrow> newline hw s;
     s \<leftarrow> print_hex32 hw addr s;
     uart_putc hw (CHR '':'') s }"

section \<open>The line\<close>

definition is_hex_digit :: "char \<Rightarrow> u32 option" where
  "is_hex_digit c =
     (let k = of_char c :: nat
      in if k \<ge> 48 \<and> k \<le> 57 then Some (word_of_nat (k - 48))
         else if k \<ge> 65 \<and> k \<le> 70 then Some (word_of_nat (k - 65 + 10))
         else if k \<ge> 97 \<and> k \<le> 102 then Some (word_of_nat (k - 97 + 10))
         else None)"

text \<open>One key: the line as it is afterwards, or that it is complete.\<close>

definition line_key :: "'d hw \<Rightarrow> char \<Rightarrow> string \<Rightarrow> ('d, 'z) m \<Rightarrow> (bool \<times> string \<times> ('d, 'z) m) option" where
  "line_key hw c line s =
     (let k = of_char c :: nat
      in if k = 13 \<or> k = 10 then do { s \<leftarrow> newline hw s; Some (True, line, s) }
         else if c = CHR ''_'' \<or> k = 8 \<or> k = 127 then
           (if length line > 0 then do {
              s \<leftarrow> uart_puts hw [char_of (8 :: nat), CHR '' '', char_of (8 :: nat)] s;
              Some (False, butlast line, s) }
            else Some (False, line, s))
         else if length line \<ge> IN_BUF_SIZE - 1 then Some (False, line, s)
         else do { s \<leftarrow> uart_putc hw c s; Some (False, line @ [c], s) })"

partial_function (option) get_line_from :: "'d hw \<Rightarrow> string \<Rightarrow> ('d, 'z) m \<Rightarrow> (string \<times> ('d, 'z) m) option" where
  "get_line_from hw line s = do {
     (c, s) \<leftarrow> uart_getc hw s;
     (ended, line, s) \<leftarrow> line_key hw c line s;
     if ended then Some (line, s) else get_line_from hw line s }"

definition get_line :: "'d hw \<Rightarrow> ('d, 'z) m \<Rightarrow> (string \<times> ('d, 'z) m) option" where
  "get_line hw s = get_line_from hw [] s"

section \<open>A command line\<close>

text \<open>The inner loop over delimiters and mode characters; the flag says that it stopped at an \<open>R\<close>.\<close>

fun skip_delims :: "mon_mode \<Rightarrow> string \<Rightarrow> mon_mode \<times> bool \<times> string" where
  "skip_delims mode [] = (mode, False, [])"
| "skip_delims mode (c # cs) =
     (if c = CHR ''.'' then skip_delims MODE_BLOCK cs
      else if c = CHR '':'' then skip_delims MODE_STOR cs
      else if c = CHR '' '' then skip_delims mode cs
      else if c = CHR ''R'' \<or> c = CHR ''r'' then (mode, True, c # cs)
      else (mode, False, c # cs))"

text \<open>The run of hexadecimal digits: its value, their number, the rest.\<close>

fun hex_run :: "u32 \<Rightarrow> nat \<Rightarrow> string \<Rightarrow> u32 \<times> nat \<times> string" where
  "hex_run v nd [] = (v, nd, [])"
| "hex_run v nd (c # cs) =
     (case is_hex_digit c of
        Some d \<Rightarrow> hex_run (push_bit 4 v OR d) (nd + 1) cs
      | None \<Rightarrow> (v, nd, c # cs))"

text \<open>The block dump; \<open>x\<close> is \<open>xam\<close>, which is stored back at every step.\<close>

function block_loop :: "'d hw \<Rightarrow> u32 \<Rightarrow> u32 \<Rightarrow> ('d, 'z) mon_scheme \<Rightarrow> ('d, 'z) mon_scheme option" where
  "block_loop hw stop x s = do {
     s \<leftarrow> print_hex8 hw (dmem s x) s;
     if x = stop then Some s
     else do {
       let x' = x + 1;
       s \<leftarrow> (if x' AND 0x7 = 0 then print_addr_prefix hw x' (s\<lparr>xam := x'\<rparr>)
            else uart_putc hw (CHR '' '') (s\<lparr>xam := x'\<rparr>));
       block_loop hw stop x' s } }"
  by pat_completeness auto
termination
proof (relation "measure (\<lambda>(hw, stop, x, s). unat (stop - x))")
  fix hw stop x and s s' s'' x' :: u32
  show "wf (measure (\<lambda>(hw, stop, x, s). unat (stop - x)))" by simp
next
  fix hw and stop x :: u32 and s s' s'' and x'
  assume "x \<noteq> stop" and "x' = x + 1"
  define w where "w = stop - x"
  have "w \<noteq> 0" using \<open>x \<noteq> stop\<close> by (simp add: w_def)
  then have "unat (w - 1) < unat w" by (simp add: unat_sub word_le_nat_alt unat_gt_0 Suc_le_eq)
  moreover have "stop - x' = w - 1" using \<open>x' = x + 1\<close> by (simp add: w_def algebra_simps)
  ultimately have "unat (stop - x') < unat (stop - x)" by (simp only: w_def)
  then show "((hw, stop, x', s''), (hw, stop, x, s)) \<in> measure (\<lambda>(hw, stop, x, s). unat (stop - x))" by simp
qed

declare block_loop.simps [simp del]

lemma skip_length: "skip_delims mode cs = (mode', r, cs') \<Longrightarrow> length cs' \<le> length cs"
  by (induction mode cs rule: skip_delims.induct) (auto split: if_splits)

lemma hex_run_length: "hex_run v n cs = (v', n', cs') \<Longrightarrow> length cs' + n' = length cs + n"
  by (induction v n cs rule: hex_run.induct) (auto split: option.splits)

function exec_line ::
  "'d hw \<Rightarrow> (u32 \<Rightarrow> ('d, 'z) mon_scheme \<Rightarrow> ('d, 'z) mon_scheme option) \<Rightarrow> mon_mode \<Rightarrow> string \<Rightarrow> ('d, 'z) mon_scheme
   \<Rightarrow> ('d, 'z) mon_scheme option" where
  "exec_line hw call mode cs s =
     (let (mode, r, cs') = skip_delims mode cs
      in if r then call (xam s) s
         else if cs' = [] then Some s
         else let (v, nd, cs'') = hex_run 0 0 cs'
              in if nd = 0 then Some s
                 else case mode of
                   MODE_STOR \<Rightarrow>
                     exec_line hw call MODE_STOR cs''
                       (s\<lparr>dmem := (dmem s)(st_addr s := ucast v), st_addr := st_addr s + 1\<rparr>)
                 | MODE_BLOCK \<Rightarrow> do {
                     s \<leftarrow> print_addr_prefix hw (xam s) s;
                     s \<leftarrow> uart_putc hw (CHR '' '') s;
                     s \<leftarrow> block_loop hw v (xam s) s;
                     exec_line hw call MODE_XAM cs'' s }
                 | MODE_XAM \<Rightarrow> do {
                     s \<leftarrow> print_addr_prefix hw v (s\<lparr>xam := v, st_addr := v\<rparr>);
                     s \<leftarrow> uart_putc hw (CHR '' '') s;
                     s \<leftarrow> print_hex8 hw (dmem s v) s;
                     exec_line hw call MODE_XAM cs'' s })"
  by pat_completeness auto
termination
  by (relation "measure (\<lambda>(hw, call, mode, cs, s). length cs)")
    (auto dest!: skip_length [OF sym] hex_run_length [OF sym])

declare exec_line.simps [simp del]

text \<open>The monitor for \<open>n\<close> lines of its endless loop.\<close>

fun mon_lines ::
  "'d hw \<Rightarrow> (u32 \<Rightarrow> ('d, 'z) mon_scheme \<Rightarrow> ('d, 'z) mon_scheme option) \<Rightarrow> nat \<Rightarrow> ('d, 'z) mon_scheme
   \<Rightarrow> ('d, 'z) mon_scheme option" where
  "mon_lines hw call 0 s = Some s"
| "mon_lines hw call (Suc n) s = do {
     s \<leftarrow> uart_putc hw (char_of (92 :: nat)) s;
     s \<leftarrow> newline hw s;
     (line, s) \<leftarrow> get_line hw s;
     s \<leftarrow> exec_line hw call MODE_XAM line s;
     mon_lines hw call n s }"

definition yarvmon ::
  "'d hw \<Rightarrow> (u32 \<Rightarrow> ('d, 'z) mon_scheme \<Rightarrow> ('d, 'z) mon_scheme option) \<Rightarrow> nat \<Rightarrow> ('d, 'z) mon_scheme
   \<Rightarrow> ('d, 'z) mon_scheme option" where
  "yarvmon hw call n s = do {
     s \<leftarrow> uart_puts hw ([char_of (13 :: nat), char_of (10 :: nat)] @ ''RV32 YARV-Mon'' @ [char_of (13 :: nat), char_of (10 :: nat)]) s;
     mon_lines hw call n s }"

section \<open>What is printed\<close>

definition hex8 :: "u32 \<Rightarrow> string" where
  "hex8 v = map (\<lambda>d. hex_upper ! d) (hex_nibbles v)"

definition hex2 :: "u8 \<Rightarrow> string" where
  "hex2 b = map (\<lambda>d. hex_upper ! d) [unat b div 16, unat b mod 16]"

definition addr_text :: "u32 \<Rightarrow> string" where
  "addr_text a = [char_of (13 :: nat), char_of (10 :: nat)] @ hex8 a @ '':''"

text \<open>The bytes of \<open>n + 1\<close> addresses from \<open>x\<close> on, with a new row at every address divisible by eight.\<close>

fun dump_text :: "(u32 \<Rightarrow> u8) \<Rightarrow> u32 \<Rightarrow> nat \<Rightarrow> string" where
  "dump_text m x 0 = hex2 (m x)"
| "dump_text m x (Suc n) =
     hex2 (m x) @ (if (x + 1) AND 7 = 0 then addr_text (x + 1) else '' '') @ dump_text m (x + 1) n"

text \<open>A routine that prints a text, does nothing else, and returns while the line drains.\<close>

definition prints :: "'d hw \<Rightarrow> (('d, 'z) mon_scheme \<Rightarrow> ('d, 'z) mon_scheme option) \<Rightarrow> string \<Rightarrow> bool" where
  "prints hw g str \<longleftrightarrow> (\<forall>s. tx_live hw (dev s) \<longrightarrow> (\<exists>t. g s = Some t \<and> tx_live hw (dev t) \<and>
     uart_out t = uart_out s @ str \<and> dmem t = dmem s \<and> xam t = xam s \<and> st_addr t = st_addr s \<and> mon.more t = mon.more s))"

lemma printsE:
  assumes "prints hw g str" and "tx_live hw (dev s)"
  obtains t where "g s = Some t" "tx_live hw (dev t)" "uart_out t = uart_out s @ str" "dmem t = dmem s" "xam t = xam s"
    "st_addr t = st_addr s"
  using assms unfolding prints_def by blast

lemma prints_putc: "prints hw (uart_putc hw c) [c]"
  unfolding prints_def
proof (intro allI impI)
  fix s :: "('a, 'b) mon_scheme"
  assume "tx_live hw (dev s)"
  then obtain t where t: "uart_putc hw c s = Some t" "tx_live hw (dev t)" using uart_putc_returns by blast
  have "only_bus s t" using uart_putc_log [OF t(1)] by blast
  then have "dmem t = dmem s \<and> xam t = xam s \<and> st_addr t = st_addr s \<and> mon.more t = mon.more s"
    unfolding only_bus_def by (cases s; cases t) simp
  then show "\<exists>t. uart_putc hw c s = Some t \<and> tx_live hw (dev t) \<and> uart_out t = uart_out s @ [c] \<and> dmem t = dmem s \<and>
      xam t = xam s \<and> st_addr t = st_addr s \<and> mon.more t = mon.more s"
    using t uart_putc_out [OF t(1)] by blast
qed

lemma prints_bind: "prints hw g a \<Longrightarrow> prints hw h b \<Longrightarrow> prints hw (\<lambda>s. g s \<bind> h) (a @ b)"
  unfolding prints_def by fastforce

lemma prints_nibble: "prints hw (print_nibble hw v) [hex_upper ! unat (v AND 0xF)]"
  unfolding print_nibble_def by (rule prints_putc)

lemma prints_none: "prints hw Some []"
  by (simp add: prints_def)

lemma prints_all:
  "(\<And>x. prints hw (g x) (f x)) \<Longrightarrow> prints hw (put_all g xs) (concat (map f xs))"
proof (induction xs)
  case Nil
  have "put_all g [] = Some" by (rule ext) simp
  then show ?case using prints_none by simp
next
  case (Cons x xs)
  have "put_all g (x # xs) = (\<lambda>s. g x s \<bind> put_all g xs)" by (rule ext) simp
  then show ?case using prints_bind [OF Cons.prems Cons.IH [OF Cons.prems]] by simp
qed

lemma prints_hex32: "prints hw (print_hex32 hw v) (hex8 v)"
proof -
  have e: "hex8 v = concat (map (\<lambda>i. [hex_upper ! unat (drop_bit i v AND 0xF)]) [28, 24, 20, 16, 12, 8, 4, 0])"
    by (simp add: hex8_def hex_nibbles_def)
  have h: "print_hex32 hw v = put_all (\<lambda>i. print_nibble hw (drop_bit i v)) [28, 24, 20, 16, 12, 8, 4, 0]"
    by (rule ext) (simp only: print_hex32_def)
  show ?thesis unfolding h e by (rule prints_all, rule prints_nibble)
qed

lemma hex2_nibbles:
  "unat (ucast (drop_bit 4 (v :: u8)) AND (0xF :: u32)) = unat v div 16" "unat (ucast v AND (0xF :: u32)) = unat v mod 16"
proof -
  have m: "unat (w AND (0xF :: u32)) = unat w mod 16" for w :: u32
  proof -
    have "w AND 0xF = take_bit 4 w" by (simp add: and_masks)
    then show ?thesis by (simp only: unat_take_bit) (simp add: take_bit_eq_mod)
  qed
  have lt: "unat v < 256" using unat_bound [of v] by simp
  have u: "unat (ucast w :: u32) = unat w" for w :: u8
    using unat_bound [of w] by (simp add: unsigned_ucast_eq take_bit_nat_eq_self)
  show "unat (ucast (drop_bit 4 v) AND (0xF :: u32)) = unat v div 16"
    using lt by (simp only: m u unat_drop_bit) (simp add: drop_bit_eq_div)
  show "unat (ucast v AND (0xF :: u32)) = unat v mod 16" by (simp only: m u)
qed

lemma prints_hex8: "prints hw (print_hex8 hw v) (hex2 v)"
proof -
  have h: "print_hex8 hw v = (\<lambda>s. print_nibble hw (ucast (drop_bit 4 v)) s \<bind> print_nibble hw (ucast v))"
    by (rule ext) (simp add: print_hex8_def)
  have e: "hex2 v = [hex_upper ! unat (ucast (drop_bit 4 v) AND (0xF :: u32))] @ [hex_upper ! unat (ucast v AND (0xF :: u32))]"
    by (simp only: hex2_def hex2_nibbles [of v] list.map append.simps)
  show ?thesis unfolding h e by (rule prints_bind [OF prints_nibble prints_nibble])
qed

lemma prints_prefix: "prints hw (print_addr_prefix hw a) (addr_text a)"
proof -
  have h: "print_addr_prefix hw a = (\<lambda>s. (uart_putc hw (char_of (13 :: nat)) s \<bind> uart_putc hw (char_of (10 :: nat))) \<bind>
      (\<lambda>s. print_hex32 hw a s \<bind> uart_putc hw (CHR '':'')))"
    by (rule ext) (simp add: print_addr_prefix_def newline_def)
  have e: "addr_text a = ([char_of (13 :: nat)] @ [char_of (10 :: nat)]) @ (hex8 a @ '':'')"
    by (simp add: addr_text_def)
  show ?thesis unfolding h e by (intro prints_bind prints_putc prints_hex32)
qed

section \<open>The block dump\<close>

lemma unat_pred_diff:
  assumes "x \<noteq> (stop :: u32)"
  shows "unat (stop - (x + 1)) = unat (stop - x) - 1"
proof -
  define w where "w = stop - x"
  have "w \<noteq> 0" using assms by (simp add: w_def)
  then have "unat (w - 1) = unat w - 1" by (simp add: unat_sub word_le_nat_alt unat_gt_0 Suc_le_eq)
  moreover have "stop - (x + 1) = w - 1" by (simp add: w_def algebra_simps)
  ultimately show ?thesis by (simp only: w_def)
qed

lemma block_loop_prints:
  "tx_live hw (dev s) \<Longrightarrow> \<exists>t. block_loop hw stop x s = Some t \<and> tx_live hw (dev t) \<and> dmem t = dmem s \<and> st_addr t = st_addr s \<and>
    xam t = (if x = stop then xam s else stop) \<and> uart_out t = uart_out s @ dump_text (dmem s) x (unat (stop - x))"
proof (induction "unat (stop - x)" arbitrary: x s)
  case 0
  then have x: "x = stop" by (simp add: unat_eq_zero)
  obtain t where t: "print_hex8 hw (dmem s x) s = Some t" "tx_live hw (dev t)" "uart_out t = uart_out s @ hex2 (dmem s x)"
    "dmem t = dmem s" "xam t = xam s" "st_addr t = st_addr s"
    using printsE [OF prints_hex8 "0.prems"] .
  show ?case using t x by (intro exI [of _ t]) (simp add: block_loop.simps [of hw stop stop s])
next
  case (Suc n)
  then have x: "x \<noteq> stop" by auto
  obtain u where u: "print_hex8 hw (dmem s x) s = Some u" "tx_live hw (dev u)" "uart_out u = uart_out s @ hex2 (dmem s x)"
    "dmem u = dmem s" "xam u = xam s" "st_addr u = st_addr s"
    using printsE [OF prints_hex8 Suc.prems] .
  define sep where "sep = (if (x + 1) AND 7 = 0 then addr_text (x + 1) else '' '')"
  let ?u = "u\<lparr>xam := x + 1\<rparr>"
  have "prints hw (if (x + 1) AND 7 = 0 then print_addr_prefix hw (x + 1) else uart_putc hw (CHR '' '')) sep"
    by (simp add: sep_def prints_prefix prints_putc)
  moreover have "tx_live hw (dev ?u)" using u(2) by simp
  ultimately obtain v where v: "(if (x + 1) AND 7 = 0 then print_addr_prefix hw (x + 1) else uart_putc hw (CHR '' '')) ?u = Some v"
    "tx_live hw (dev v)" "uart_out v = uart_out ?u @ sep" "dmem v = dmem ?u" "xam v = xam ?u" "st_addr v = st_addr ?u"
    by (rule printsE)
  have n: "n = unat (stop - (x + 1))" using unat_pred_diff [OF x] Suc.hyps(2) by simp
  obtain t where t: "block_loop hw stop (x + 1) v = Some t" "tx_live hw (dev t)" "dmem t = dmem v" "st_addr t = st_addr v"
    "xam t = (if x + 1 = stop then xam v else stop)" "uart_out t = uart_out v @ dump_text (dmem v) (x + 1) (unat (stop - (x + 1)))"
    using Suc.hyps(1) [OF n v(2)] by blast
  have "block_loop hw stop x s = Some t"
    using x u(1) v(1) t(1) by (simp add: block_loop.simps [of hw stop x s] Let_def split: if_splits)
  moreover have "uart_out ?u = uart_out u" by (simp add: uart_out_def)
  moreover have "dump_text (dmem s) x (unat (stop - x)) = hex2 (dmem s x) @ sep @ dump_text (dmem s) (x + 1) n"
    using Suc.hyps(2) by (simp add: sep_def flip: Suc.hyps(2))
  ultimately show ?case using u v t x n by simp
qed

section \<open>Reading numbers back\<close>

lemma hex_digit_nat: "d < 16 \<Longrightarrow> is_hex_digit (hex_upper ! d) = Some (word_of_nat d)"
proof -
  have "list_all (\<lambda>d. is_hex_digit (hex_upper ! d) = Some (word_of_nat d)) (0 # 1 # [2..<16])"
    by (simp add: upt_rec_numeral is_hex_digit_def hex_upper_def)
  moreover assume "d < 16"
  then have "d \<in> set (0 # 1 # [2..<16])" by (simp only: list.set set_upt) auto
  ultimately show ?thesis by (simp only: list_all_iff)
qed

lemma and_15: "w AND 0xF = take_bit 4 (w :: u32)"
  by (simp add: and_masks)

lemma hex_digit_mask: "is_hex_digit (hex_upper ! unat (w AND 0xF)) = Some (w AND (0xF :: u32))"
proof -
  have "unat (w AND 0xF) = unat w mod 16" by (simp only: and_15 unat_take_bit) (simp add: take_bit_eq_mod)
  then have "unat (w AND 0xF) < 16" by (simp only: mod_less_divisor zero_less_numeral)
  moreover have r: "word_of_nat (unat x) = x" for x :: u32 by simp
  ultimately show ?thesis using hex_digit_nat [of "unat (w AND 0xF)"] by (simp only: r)
qed

lemma nibble_step: "push_bit 4 (drop_bit (i + 4) v) OR (drop_bit i v AND 0xF) = drop_bit i (v :: u32)"
  unfolding and_15
proof (rule bit_word_eqI)
  fix n :: nat
  show "bit (push_bit 4 (drop_bit (i + 4) v) OR take_bit 4 (drop_bit i v)) n \<longleftrightarrow> bit (drop_bit i v) n" if "n < LENGTH(32)"
    using that by (cases "n < 4") (simp_all add: bit_simps not_less)
qed

lemma hex_run_digit:
  "hex_run (drop_bit (i + 4) v) n ((hex_upper ! unat (drop_bit i v AND 0xF)) # cs) = hex_run (drop_bit i v) (Suc n) cs"
  by (simp add: hex_digit_mask nibble_step)

lemma hex_run_stop: "(case cs of [] \<Rightarrow> True | c # _ \<Rightarrow> is_hex_digit c = None) \<Longrightarrow> hex_run v n cs = (v, n, cs)"
  by (cases cs) simp_all

lemma hex8_chars:
  "hex8 v = map (\<lambda>i. hex_upper ! unat (drop_bit i v AND 0xF)) [28, 24, 20, 16, 12, 8, 4, 0]"
  by (simp add: hex8_def hex_nibbles_def)

lemma hex_run_hex8:
  assumes "case cs of [] \<Rightarrow> True | c # _ \<Rightarrow> is_hex_digit c = None"
  shows "hex_run 0 0 (hex8 v @ cs) = (v, 8, cs)"
proof -
  have z: "0 = drop_bit (28 + 4) (v :: u32)" by (rule bit_word_eqI) (simp add: bit_simps)
  have "hex_run (drop_bit (28 + 4) v) 0 (hex8 v @ cs) = hex_run v (Suc (Suc (Suc (Suc (Suc (Suc (Suc (Suc 0)))))))) cs"
    using hex_run_digit [of 28 v] hex_run_digit [of 24 v] hex_run_digit [of 20 v] hex_run_digit [of 16 v]
      hex_run_digit [of 12 v] hex_run_digit [of 8 v] hex_run_digit [of 4 v] hex_run_digit [of 0 v]
    by (simp add: hex8_chars del: hex_run.simps)
  then show ?thesis using hex_run_stop [OF assms] by (simp only: z [symmetric]) simp
qed

text \<open>The value of a two-digit byte.\<close>

lemma hex_run_hex2:
  assumes "case cs of [] \<Rightarrow> True | c # _ \<Rightarrow> is_hex_digit c = None"
  shows "hex_run 0 0 (hex2 b @ cs) = (ucast b, 2, cs)"
proof -
  have z: "0 = drop_bit (4 + 4) (ucast b :: u32)"
    by (rule bit_word_eqI) (auto simp: bit_simps dest: bit_imp_le_length)
  have "ucast (drop_bit 4 b) = drop_bit 4 (ucast b :: u32)"
    by (rule bit_word_eqI) (auto simp: bit_simps dest: bit_imp_le_length)
  then have e: "hex2 b = [hex_upper ! unat (drop_bit 4 (ucast b) AND (0xF :: u32)), hex_upper ! unat (drop_bit 0 (ucast b) AND (0xF :: u32))]"
    using hex2_nibbles [of b] by (simp add: hex2_def)
  have "hex_run (drop_bit (4 + 4) (ucast b)) 0 (hex2 b @ cs) = hex_run (ucast b) (Suc (Suc 0)) cs"
    using hex_run_digit [of 4 "ucast b"] hex_run_digit [of 0 "ucast b"]
    by (simp add: e del: hex_run.simps)
  then show ?thesis using hex_run_stop [OF assms] by (simp only: z [symmetric]) simp
qed

section \<open>Whole lines\<close>

text \<open>The text of a deposit: the address, a colon and the bytes.\<close>

definition deposit_line :: "u32 \<Rightarrow> u8 list \<Rightarrow> string" where
  "deposit_line a bs = hex8 a @ '':'' @ concat (map (\<lambda>b. '' '' @ hex2 b) bs)"

fun store_bytes :: "(u32 \<Rightarrow> u8) \<Rightarrow> u32 \<Rightarrow> u8 list \<Rightarrow> u32 \<Rightarrow> u8" where
  "store_bytes m a [] = m"
| "store_bytes m a (b # bs) = store_bytes (m(a := b)) (a + 1) bs"

lemma store_bytes_nth:
  assumes "length bs \<le> 2 ^ 32"
  shows "store_bytes m a bs x = (if unat (x - a) < length bs then bs ! unat (x - a) else m x)"
  using assms
proof (induction bs arbitrary: m a)
  case (Cons b bs)
  show ?case
  proof (cases "x = a")
    case True
    have "unat (a - (a + 1)) = unat (- 1 :: u32)" by (simp add: algebra_simps)
    then have "\<not> unat (a - (a + 1)) < length bs" using Cons.prems by (simp add: unsigned_minus_1_eq_mask mask_eq_exp_minus_1)
    then show ?thesis using Cons True by simp
  next
    case False
    have "unat (x - (a + 1)) = unat (x - a) - 1" "unat (x - a) \<noteq> 0"
      using unat_pred_diff [of a x] False by (auto simp: unat_eq_zero)
    then show ?thesis using Cons False by (cases "unat (x - a)") simp_all
  qed
qed simp

lemma skip_hex:
  assumes "is_hex_digit c = Some d"
  shows "skip_delims mode (c # cs) = (mode, False, c # cs)"
proof -
  have "c \<noteq> CHR ''.''" "c \<noteq> CHR '':''" "c \<noteq> CHR '' ''" "c \<noteq> CHR ''R''" "c \<noteq> CHR ''r''"
    using assms by (auto simp: is_hex_digit_def)
  then show ?thesis by simp
qed

lemma skip_hex8: "skip_delims mode (hex8 v @ cs) = (mode, False, hex8 v @ cs)"
  by (simp add: hex8_chars skip_hex [OF hex_digit_mask] del: skip_delims.simps)

lemma hex2_chars:
  "hex2 b = [hex_upper ! unat (ucast (drop_bit 4 b) AND (0xF :: u32)), hex_upper ! unat (ucast b AND (0xF :: u32))]"
  by (simp only: hex2_def hex2_nibbles [of b] list.map)

lemma skip_hex2: "skip_delims mode (hex2 b @ cs) = (mode, False, hex2 b @ cs)"
  by (simp only: hex2_chars append.simps skip_hex [OF hex_digit_mask])

lemma exec_store:
  assumes "case cs of [] \<Rightarrow> True | c # _ \<Rightarrow> is_hex_digit c = None"
  shows "exec_line hw call MODE_STOR ('' '' @ hex2 b @ cs) s =
    exec_line hw call MODE_STOR cs (s\<lparr>dmem := (dmem s)(st_addr s := b), st_addr := st_addr s + 1\<rparr>)"
proof -
  have "skip_delims MODE_STOR ('' '' @ hex2 b @ cs) = (MODE_STOR, False, hex2 b @ cs)"
    using skip_hex2 by simp
  moreover have "hex2 b \<noteq> []" by (simp add: hex2_def)
  moreover have "ucast (ucast b :: u32) = b" by (rule bit_word_eqI) (auto simp: bit_simps)
  ultimately show ?thesis
    using hex_run_hex2 [OF assms] by (subst exec_line.simps) (simp add: Let_def)
qed

lemma exec_store_bytes:
  "exec_line hw call MODE_STOR (concat (map (\<lambda>b. '' '' @ hex2 b) bs)) s =
    Some (s\<lparr>dmem := store_bytes (dmem s) (st_addr s) bs, st_addr := st_addr s + word_of_nat (length bs)\<rparr>)"
proof (induction bs arbitrary: s)
  case Nil
  show ?case by (subst exec_line.simps) simp
next
  case (Cons b bs)
  have "case concat (map (\<lambda>b. '' '' @ hex2 b) bs) of [] \<Rightarrow> True | c # _ \<Rightarrow> is_hex_digit c = None"
    by (cases bs) (simp_all add: is_hex_digit_def)
  from exec_store [OF this, of hw call b s] show ?case using Cons.IH by (simp add: algebra_simps fun_upd_def)
qed

text \<open>An examine: the address, and the byte there.\<close>

lemma exec_examine:
  assumes live: "tx_live hw (dev s)" and stop: "case cs of [] \<Rightarrow> True | c # _ \<Rightarrow> is_hex_digit c = None"
  obtains t where "exec_line hw call MODE_XAM (hex8 a @ cs) s = exec_line hw call MODE_XAM cs t"
    "tx_live hw (dev t)" "dmem t = dmem s" "xam t = a" "st_addr t = a"
    "uart_out t = uart_out s @ addr_text a @ '' '' @ hex2 (dmem s a)"
proof -
  let ?s = "s\<lparr>xam := a, st_addr := a\<rparr>"
  have "tx_live hw (dev ?s)" using live by simp
  with prints_prefix obtain u where u: "print_addr_prefix hw a ?s = Some u" "tx_live hw (dev u)"
    "uart_out u = uart_out ?s @ addr_text a" "dmem u = dmem ?s" "xam u = xam ?s" "st_addr u = st_addr ?s"
    by (rule printsE)
  from prints_putc u(2) obtain v where v: "uart_putc hw (CHR '' '') u = Some v" "tx_live hw (dev v)"
    "uart_out v = uart_out u @ '' ''" "dmem v = dmem u" "xam v = xam u" "st_addr v = st_addr u"
    by (rule printsE)
  from prints_hex8 v(2) obtain t where t: "print_hex8 hw (dmem v a) v = Some t" "tx_live hw (dev t)"
    "uart_out t = uart_out v @ hex2 (dmem v a)" "dmem t = dmem v" "xam t = xam v" "st_addr t = st_addr v"
    by (rule printsE)
  have "hex8 a \<noteq> []" by (simp add: hex8_chars)
  then have "exec_line hw call MODE_XAM (hex8 a @ cs) s = exec_line hw call MODE_XAM cs t"
    using skip_hex8 [of MODE_XAM a cs] hex_run_hex8 [OF stop, of a] u(1) v(1) t(1)
    by (subst exec_line.simps) (simp add: Let_def)
  moreover have "uart_out ?s = uart_out s" by (simp add: uart_out_def)
  ultimately show thesis using that u v t by simp
qed

text \<open>The line \<open>a: b0 b1 ...\<close> opens with an examine and then stores.\<close>

lemma deposit_core:
  assumes "tx_live hw (dev s)"
  shows "\<exists>t. exec_line hw call MODE_XAM (deposit_line a bs) s = Some t \<and> tx_live hw (dev t) \<and>
    dmem t = store_bytes (dmem s) a bs \<and> xam t = a \<and> st_addr t = a + word_of_nat (length bs) \<and>
    uart_out t = uart_out s @ addr_text a @ '' '' @ hex2 (dmem s a)"
proof -
  let ?bytes = "concat (map (\<lambda>b. '' '' @ hex2 b) bs)"
  have "case '':'' @ ?bytes of [] \<Rightarrow> True | c # _ \<Rightarrow> is_hex_digit c = None" by (simp add: is_hex_digit_def)
  with assms obtain t where t: "exec_line hw call MODE_XAM (hex8 a @ '':'' @ ?bytes) s = exec_line hw call MODE_XAM ('':'' @ ?bytes) t"
    "tx_live hw (dev t)" "dmem t = dmem s" "xam t = a" "st_addr t = a"
    "uart_out t = uart_out s @ addr_text a @ '' '' @ hex2 (dmem s a)"
    by (rule exec_examine)
  let ?t = "t\<lparr>dmem := store_bytes (dmem t) (st_addr t) bs, st_addr := st_addr t + word_of_nat (length bs)\<rparr>"
  have "exec_line hw call MODE_XAM ('':'' @ ?bytes) t = exec_line hw call MODE_STOR ?bytes t"
    by (subst (1 2) exec_line.simps) simp
  then have "exec_line hw call MODE_XAM (deposit_line a bs) s = Some ?t"
    using t(1) by (simp only: deposit_line_def exec_store_bytes)
  moreover have "uart_out ?t = uart_out t" by (simp add: uart_out_def)
  ultimately show ?thesis using t by (intro exI [of _ ?t]) simp
qed

text \<open>The line \<open>a.e\<close> dumps the block.\<close>

lemma block_core:
  assumes "tx_live hw (dev s)"
  shows "\<exists>t. exec_line hw call MODE_XAM (hex8 a @ ''.'' @ hex8 e) s = Some t \<and> tx_live hw (dev t) \<and>
    dmem t = dmem s \<and> xam t = e \<and> st_addr t = a \<and>
    uart_out t = uart_out s @ addr_text a @ '' '' @ hex2 (dmem s a) @ addr_text a @ '' '' @ dump_text (dmem s) a (unat (e - a))"
proof -
  have "case ''.'' @ hex8 e of [] \<Rightarrow> True | c # _ \<Rightarrow> is_hex_digit c = None" by (simp add: is_hex_digit_def)
  with assms obtain r where r: "exec_line hw call MODE_XAM (hex8 a @ ''.'' @ hex8 e) s = exec_line hw call MODE_XAM (''.'' @ hex8 e) r"
    "tx_live hw (dev r)" "dmem r = dmem s" "xam r = a" "st_addr r = a"
    "uart_out r = uart_out s @ addr_text a @ '' '' @ hex2 (dmem s a)"
    by (rule exec_examine)
  from prints_prefix r(2) obtain u where u: "print_addr_prefix hw (xam r) r = Some u" "tx_live hw (dev u)"
    "uart_out u = uart_out r @ addr_text (xam r)" "dmem u = dmem r" "xam u = xam r" "st_addr u = st_addr r"
    by (rule printsE)
  from prints_putc u(2) obtain v where v: "uart_putc hw (CHR '' '') u = Some v" "tx_live hw (dev v)"
    "uart_out v = uart_out u @ '' ''" "dmem v = dmem u" "xam v = xam u" "st_addr v = st_addr u"
    by (rule printsE)
  obtain t where t: "block_loop hw e (xam v) v = Some t" "tx_live hw (dev t)" "dmem t = dmem v" "st_addr t = st_addr v"
    "xam t = e" "uart_out t = uart_out v @ dump_text (dmem v) (xam v) (unat (e - xam v))"
    using block_loop_prints [OF v(2), of e "xam v"] by (auto split: if_splits)
  have "skip_delims MODE_XAM (''.'' @ hex8 e) = (MODE_BLOCK, False, hex8 e)"
    using skip_hex8 [of MODE_BLOCK e "[]"] by simp
  moreover have "hex8 e \<noteq> []" by (simp add: hex8_chars)
  moreover have "exec_line hw call MODE_XAM [] t = Some t" by (subst exec_line.simps) simp
  ultimately have "exec_line hw call MODE_XAM (''.'' @ hex8 e) r = Some t"
    using hex_run_hex8 [of "[]" e] u(1) v(1) t(1) by (subst exec_line.simps) (simp add: Let_def v(5))
  then show ?thesis using r u v t by simp
qed

section \<open>What the monitor promises\<close>

lemma length_deposit: "length (deposit_line a bs) = 9 + 3 * length bs"
proof -
  have "length (concat (map (\<lambda>b. '' '' @ hex2 b) bs)) = 3 * length bs"
    by (induction bs) (simp_all add: hex2_def)
  then show ?thesis by (simp add: deposit_line_def hex8_chars)
qed

text \<open>C36: a deposit line that fits the input buffer, an address, a colon and byte values of two digits, writes exactly
  those bytes to the consecutive addresses and leaves every other byte of memory alone; the examined address is
  the first one and the store address the one behind the last, and what is printed is one examine, of the byte
  before the deposit.
\<close>

theorem mon_deposit:
  assumes "tx_live hw (dev s)" and "length (deposit_line a bs) < IN_BUF_SIZE"
  shows "\<exists>t. exec_line hw call MODE_XAM (deposit_line a bs) s = Some t \<and>
    (\<forall>x. dmem t x = (if unat (x - a) < length bs then bs ! unat (x - a) else dmem s x)) \<and>
    xam t = a \<and> st_addr t = a + word_of_nat (length bs) \<and>
    uart_out t = uart_out s @ addr_text a @ '' '' @ hex2 (dmem s a)"
proof -
  have "length bs \<le> 2 ^ 32" using assms(2) by (simp add: length_deposit IN_BUF_SIZE_def)
  from store_bytes_nth [OF this] deposit_core [OF assms(1), of call a bs] show ?thesis by fastforce
qed

definition mon_start :: "unit mon" where
  "mon_start = \<lparr>dev = (), evs = [], dmem = (\<lambda>x. ucast x), xam = 0, st_addr = 0\<rparr>"

lemma mon_start_live: "tx_live (const_hw (\<lambda>_. 1)) (dev mon_start)"
  by (rule tx_live_const) (simp add: UART_TX_READY_BIT_def)

theorem mon_deposit_witness:
  "\<exists>t. exec_line (const_hw (\<lambda>_. 1)) (\<lambda>_. Some) MODE_XAM ''80000FFF: AB 01'' mon_start = Some t \<and>
     dmem t 0x80000FFF = 0xAB \<and> dmem t 0x80001000 = 1 \<and> dmem t 0x80001001 = 1 \<and> st_addr t = 0x80001001"
proof -
  have "deposit_line 0x80000FFF [0xAB, 1] = ''80000FFF: AB 01''"
    by (simp add: deposit_line_def hex8_chars hex2_def hex_upper_def)
  then obtain t where "exec_line (const_hw (\<lambda>_. 1)) (\<lambda>_. Some) MODE_XAM ''80000FFF: AB 01'' mon_start = Some t"
    and m: "\<forall>x. dmem t x = (if unat (x - 0x80000FFF) < length [0xAB, 1 :: u8] then [0xAB, 1] ! unat (x - 0x80000FFF) else dmem mon_start x)"
    and "st_addr t = 0x80000FFF + word_of_nat (length [0xAB, 1 :: u8])"
    using mon_deposit [OF mon_start_live, of "0x80000FFF" "[0xAB, 1]" "\<lambda>_. Some"]
    by (auto simp: IN_BUF_SIZE_def)
  moreover have "dmem t 0x80000FFF = 0xAB" "dmem t 0x80001000 = 1" "dmem t 0x80001001 = 1"
    using m [rule_format, of "0x80000FFF"] m [rule_format, of "0x80001000"] m [rule_format, of "0x80001001"]
    by (simp_all add: mon_start_def)
  ultimately show ?thesis by simp
qed

text \<open>C37: the dump of the block from \<open>a\<close> to \<open>e\<close> returns for every pair of addresses: it prints one
  examine, the row prefix and the bytes of exactly \<open>(e - a) mod 2^32 + 1\<close> addresses, each as two digits, a fresh row at
  each multiple of eight, leaves the memory as it was and ends with \<open>e\<close> as the examined address.  An end below
  the start therefore runs through the top of the address space.
\<close>

theorem mon_block_dump:
  assumes "tx_live hw (dev s)"
  shows "\<exists>t. exec_line hw call MODE_XAM (hex8 a @ ''.'' @ hex8 e) s = Some t \<and> dmem t = dmem s \<and> xam t = e \<and> st_addr t = a \<and>
    uart_out t = uart_out s @ addr_text a @ '' '' @ hex2 (dmem s a) @ addr_text a @ '' '' @ dump_text (dmem s) a (unat (e - a))"
  using block_core [OF assms, of call a e] by blast

theorem mon_block_dump_witness:
  "\<exists>t. exec_line (const_hw (\<lambda>_. 1)) (\<lambda>_. Some) MODE_XAM ''00000006.00000009'' mon_start = Some t \<and>
     uart_out t = addr_text 6 @ '' 06'' @ addr_text 6 @ '' 06 07'' @ addr_text 8 @ ''08 09''"
proof -
  have "hex8 6 @ ''.'' @ hex8 9 = ''00000006.00000009''"
    by (simp add: hex8_chars hex_upper_def)
  moreover have "dump_text (dmem mon_start) 6 3 = ''06 07'' @ addr_text 8 @ ''08 09''"
    by (simp add: mon_start_def numeral_3_eq_3 hex2_def hex_upper_def)
  moreover have "hex2 (dmem mon_start 6) = ''06''" by (simp add: mon_start_def hex2_def hex_upper_def)
  moreover have "uart_out mon_start = []" by (simp add: uart_out_def mon_start_def)
  moreover have "unat (9 - 6 :: u32) = 3" by simp
  ultimately show ?thesis
    using mon_block_dump [OF mon_start_live, of "\<lambda>_. Some" 6 9] by auto
qed

end
