(* ===== verification/Console.thy ===== *)
theory Console
  imports Printf
begin

text \<open>
  What the programs that report on the serial line share: a routine that, while the transmitter drains, returns
  having sent a given text, and how such routines compose.
\<close>

definition tells :: "'d hw \<Rightarrow> (('d, 'z) m \<Rightarrow> ('d, 'z) m option) \<Rightarrow> string \<Rightarrow> bool" where
  "tells hw g str \<longleftrightarrow> (\<forall>s. tx_live hw (dev s) \<longrightarrow>
     (\<exists>t. g s = Some t \<and> tx_live hw (dev t) \<and> uart_out t = uart_out s @ str \<and> only_bus s t))"

lemma tellsE:
  assumes "tells hw g str" and "tx_live hw (dev s)"
  obtains t where "g s = Some t" "tx_live hw (dev t)" "uart_out t = uart_out s @ str" "only_bus s t"
  using assms unfolding tells_def by blast

lemma tells_none: "tells hw Some []"
  by (simp add: tells_def only_bus_refl)

lemma tells_bind: "tells hw g a \<Longrightarrow> tells hw h b \<Longrightarrow> tells hw (\<lambda>s. g s \<bind> h) (a @ b)"
  unfolding tells_def
proof (intro allI impI)
  fix s :: "('a, 'b) m"
  assume g: "\<forall>s. tx_live hw (dev s) \<longrightarrow> (\<exists>t. g s = Some t \<and> tx_live hw (dev t) \<and> uart_out t = uart_out s @ a \<and> only_bus s t)"
    and h: "\<forall>s. tx_live hw (dev s) \<longrightarrow> (\<exists>t. h s = Some t \<and> tx_live hw (dev t) \<and> uart_out t = uart_out s @ b \<and> only_bus s t)"
    and s: "tx_live hw (dev s)"
  obtain t where t: "g s = Some t" "tx_live hw (dev t)" "uart_out t = uart_out s @ a" "only_bus s t" using g s by blast
  obtain u where u: "h t = Some u" "tx_live hw (dev u)" "uart_out u = uart_out t @ b" "only_bus t u" using h t(2) by blast
  show "\<exists>t. (g s \<bind> h) = Some t \<and> tx_live hw (dev t) \<and> uart_out t = uart_out s @ a @ b \<and> only_bus s t"
    using t u only_bus_trans [OF t(4) u(4)] by simp
qed

lemma tells_putc: "tells hw (uart_putc hw c) [c]"
  unfolding tells_def
proof (intro allI impI)
  fix s :: "('a, 'b) m"
  assume "tx_live hw (dev s)"
  then obtain t where t: "uart_putc hw c s = Some t" "tx_live hw (dev t)" using uart_putc_returns by blast
  then show "\<exists>t. uart_putc hw c s = Some t \<and> tx_live hw (dev t) \<and> uart_out t = uart_out s @ [c] \<and> only_bus s t"
    using uart_putc_out [OF t(1)] uart_putc_log [OF t(1)] by blast
qed

lemma put_all_fun: "put_all g [] = Some" "put_all g (x # xs) = (\<lambda>s. g x s \<bind> put_all g xs)"
  by (rule ext, simp)+

lemma tells_all: "(\<And>x. tells hw (g x) (f x)) \<Longrightarrow> tells hw (put_all g xs) (concat (map f xs))"
proof (induction xs)
  case Nil
  show ?case unfolding put_all_fun using tells_none by simp
next
  case (Cons x xs)
  show ?case unfolding put_all_fun using tells_bind [OF Cons.prems Cons.IH [OF Cons.prems]] by simp
qed

lemma tells_puts: "tells hw (uart_puts hw str) str"
proof -
  have e: "uart_puts hw str = put_all (uart_putc hw) str" by (rule ext) (simp add: uart_puts_def)
  have "str = concat (map (\<lambda>c. [c]) str)" by simp
  then show ?thesis unfolding e by (rule ssubst) (rule tells_all, rule tells_putc)
qed

lemma tells_char: "tells hw (put_char hw c) (crlf c)"
proof (cases "c = CHR 0x0A")
  case True
  have e: "put_char hw c = (\<lambda>s. uart_putc hw (CHR 0x0D) s \<bind> uart_putc hw c)" by (rule ext) (simp add: put_char_def True)
  have "crlf c = [CHR 0x0D] @ [c]" by (simp add: crlf_def True)
  then show ?thesis unfolding e by (simp only:) (rule tells_bind [OF tells_putc tells_putc])
next
  case False
  have e: "put_char hw c = uart_putc hw c" by (rule ext) (simp add: put_char_def False)
  show ?thesis unfolding e crlf_plain [OF False] by (rule tells_putc)
qed

lemma tells_printf:
  assumes "format_text fmt ap = Some t"
  shows "tells hw (printf hw fmt ap) (concat (map crlf t))"
proof -
  have e: "printf hw fmt ap = put_all (put_char hw) t" by (rule ext) (simp add: printf_text assms)
  show ?thesis unfolding e by (rule tells_all, rule tells_char)
qed

lemma tells_if: "(b \<Longrightarrow> tells hw g x) \<Longrightarrow> (\<not> b \<Longrightarrow> tells hw h y) \<Longrightarrow> tells hw (if b then g else h) (if b then x else y)"
  by simp

text \<open>Numbers as the reports print them: in decimal, and with two decimals after a division by hundred.\<close>

definition dec :: "nat \<Rightarrow> string" where
  "dec n = map dec_char (figures 10 (places 10 n) n)"

definition x100 :: "nat \<Rightarrow> string" where
  "x100 n = dec (n div 100) @ ''.'' @ map dec_char [n mod 100 div 10, n mod 10]"

definition line :: "string \<Rightarrow> string \<Rightarrow> string" where
  "line label val = label @ val @ [CHR 0x0D, CHR 0x0A]"

lemma dec_text_dec: "dec_text v False 0 = dec (unat v)"
proof -
  have "max (places 10 n) (min 0 12) = places 10 n" for n by simp
  moreover have "map (\<lambda>d. ''0123456789'' ! d) (figures 10 k n) = map dec_char (figures 10 k n)" for k n
    using figures_lt [of 10 _ k n] by (intro map_cong refl dec_char_numeral [symmetric]) simp
  ultimately show ?thesis by (simp only: dec_text_def dec_def Let_def if_False simp_thms append_Nil)
qed

lemma dec_text_2: "unat v < 100 \<Longrightarrow> dec_text v False 2 = map dec_char [unat v div 10, unat v mod 10]"
proof -
  assume v: "unat v < 100"
  have "\<not> 10 ^ k \<le> unat v" if "2 \<le> k" for k
    using power_increasing [of 2 k "10 :: nat"] that v by simp
  then have "filter (\<lambda>k. 10 ^ k \<le> unat v) [2..<32] = []" by (auto simp: filter_empty_conv simp del: upt_rec_numeral)
  moreover have "[1..<32] = (1 :: nat) # [2..<32]" by (subst upt_conv_Cons) (simp_all add: numeral_2_eq_2 del: upt_rec_numeral)
  ultimately have "max (places 10 (unat v)) (min 2 12) = 2" by (simp add: places_def del: upt_rec_numeral)
  moreover have "figures 10 2 (unat v) = [unat v div 10, unat v mod 10]"
    using v by (simp add: figures_def numeral_2_eq_2 div_less_iff_less_mult)
  moreover have "unat v div 10 < 10" "unat v mod 10 < 10" using v by simp_all
  ultimately show ?thesis by (simp add: dec_text_def Let_def dec_char_numeral del: nth_Cons_numeral)
qed

lemma x100_dec: "n div 100 = a \<Longrightarrow> n mod 100 = b \<Longrightarrow> x100 n = dec a @ ''.'' @ map dec_char [b div 10, b mod 10]"
proof -
  assume "n div 100 = a" "n mod 100 = b"
  moreover have "n mod 100 mod 10 = n mod 10" by (rule mod_mod_cancel) simp
  ultimately show ?thesis by (simp add: x100_def)
qed

lemma dec_plain: "concat (map crlf (dec n)) = dec n"
  using figures_lt [of 10 _ "places 10 n" n] by (intro concat_map_crlf) (auto simp: dec_def dest: dec_char_plain)

text \<open>Whole lines of \<open>printf\<close>.\<close>

definition lf :: string where "lf = [CHR 0x0A]"

lemma crlf_text: "concat (map crlf (t @ lf)) = concat (map crlf t) @ [CHR 0x0D, CHR 0x0A]"
  by (simp add: lf_def crlf_def)

lemma tells_lf: "tells hw (printf hw lf []) (line [] [])"
proof -
  have "format_text lf [] = Some lf" by (simp add: lf_def)
  from tells_printf [OF this] show ?thesis by (simp add: line_def lf_def crlf_def)
qed

lemma tells_text: "\<forall>c \<in> set str. c \<noteq> CHR 0x0A \<and> c \<noteq> CHR ''%'' \<Longrightarrow> tells hw (printf hw str []) str"
proof -
  assume plain: "\<forall>c \<in> set str. c \<noteq> CHR 0x0A \<and> c \<noteq> CHR ''%''"
  then have "format_text str [] = Some str" by (induction str) simp_all
  from tells_printf [OF this] show ?thesis using plain concat_map_crlf [of str] by simp
qed

lemma format_u: "format_text (''%u'' @ lf) [VWord v] = Some (dec (unat v) @ lf)"
  by (simp add: lf_def dec_text_dec)

lemma format_text_plain: "\<forall>c \<in> set str. c \<noteq> CHR ''%'' \<Longrightarrow> format_text (str @ fmt) ap = map_option ((@) str) (format_text fmt ap)"
  by (cases "format_text fmt ap"; induction str) simp_all

lemma tells_count:
  assumes "\<forall>c \<in> set str. c \<noteq> CHR 0x0A \<and> c \<noteq> CHR ''%''"
  shows "tells hw (printf hw (str @ ''%u'' @ lf) [VWord v]) (line str (dec (unat v)))"
proof -
  have "format_text (str @ ''%u'' @ lf) [VWord v] = Some (str @ dec (unat v) @ lf)"
    using assms format_text_plain [of str "''%u'' @ lf" "[VWord v]"] format_u by simp
  from tells_printf [OF this] show ?thesis
    using assms concat_map_crlf [of str] by (simp add: line_def dec_plain crlf_text) (simp add: lf_def crlf_def)
qed

text \<open>A routine that prints one thing after another.\<close>

lemma tells_seq: "list_all2 (tells hw) gs ts \<Longrightarrow> tells hw (put_all (\<lambda>g. g) gs) (concat ts)"
proof (induction gs ts rule: list_all2_induct)
  case Nil
  show ?case unfolding put_all_fun using tells_none by simp
next
  case (Cons g gs t ts)
  show ?case unfolding put_all_fun concat.simps by (rule tells_bind [OF Cons(1) Cons(3)])
qed

lemma tells_dec_2:
  assumes "unat b < 100"
  shows "tells hw (printf hw ''%u.%02u'' [VWord a, VWord b]) (dec (unat a) @ ''.'' @ map dec_char [unat b div 10, unat b mod 10])"
proof -
  have f: "format_text ''%u.%02u'' [VWord a, VWord b] = Some (dec_text a False 0 @ ''.'' @ dec_text b False 2)"
    by simp
  have plain: "concat (map crlf (dec_text a False 0 @ ''.'' @ dec_text b False 2)) = dec_text a False 0 @ ''.'' @ dec_text b False 2"
    using dec_text_plain [of a False 0] dec_text_plain [of b False 2] by simp
  show ?thesis using tells_printf [OF f, of hw] unfolding plain unfolding dec_text_dec dec_text_2 [OF assms] .
qed

lemma tells_x100:
  assumes "unat a = n div 100" and "unat b = n mod 100"
  shows "tells hw (printf hw ''%u.%02u'' [VWord a, VWord b]) (x100 n)"
proof -
  have "x100 n = dec (unat a) @ ''.'' @ map dec_char [unat b div 10, unat b mod 10]"
    unfolding assms by (rule x100_dec) simp_all
  then show ?thesis by (simp only:) (rule tells_dec_2, simp add: assms)
qed

lemma tells_line: "\<forall>c \<in> set str. c \<noteq> CHR 0x0A \<and> c \<noteq> CHR ''%'' \<Longrightarrow> tells hw (printf hw (str @ lf) []) (line str [])"
proof -
  assume plain: "\<forall>c \<in> set str. c \<noteq> CHR 0x0A \<and> c \<noteq> CHR ''%''"
  then have "format_text (str @ lf) [] = Some (str @ lf)"
    using format_text_plain [of str lf "[]"] by (simp add: lf_def)
  from tells_printf [OF this] show ?thesis
    using plain concat_map_crlf [of str] by (simp only: crlf_text line_def) simp
qed

section \<open>Times in seconds\<close>

text \<open>A quotient with two decimals from the whole quotient and the scaled remainder.\<close>

lemma scaled_quotient:
  assumes "0 < (p :: nat)"
  shows "100 * c div p div 100 = c div p" and "100 * c div p mod 100 = c mod p * 100 div p"
proof -
  have "100 * c = 100 * (c div p * p + c mod p)" by simp
  also have "\<dots> = 100 * (c div p) * p + c mod p * 100" by (simp only: distrib_left mult.assoc mult.commute)
  finally have d: "100 * c div p = 100 * (c div p) + c mod p * 100 div p" using assms by simp
  have "c mod p * 100 < 100 * p" using assms by simp
  then have "c mod p * 100 div p < 100" using assms by (simp add: less_mult_imp_div_less)
  then show "100 * c div p div 100 = c div p" "100 * c div p mod 100 = c mod p * 100 div p" unfolding d by simp_all
qed

text \<open>Seconds and hundredths of a cycle count at 50 MHz.\<close>

lemma total_time:
  "unat (ticks div 50000000 :: u32) = 100 * unat ticks div 50000000 div 100"
  "unat (ticks mod 50000000 div 500000 :: u32) = 100 * unat ticks div 50000000 mod 100"
proof -
  have "unat ticks div 500000 div 100 = unat ticks div 50000000" by (simp add: div_mult2_eq [symmetric])
  moreover have "unat ticks div 500000 mod 100 = unat ticks mod 50000000 div 500000"
    using mod_mult2_eq [of "unat ticks" 500000 100] by simp
  moreover have "100 * unat ticks div 50000000 = unat ticks div 500000"
    using div_mult_mult1 [of "100 :: nat" "unat ticks" 500000] by simp
  ultimately show "unat (ticks div 50000000) = 100 * unat ticks div 50000000 div 100"
    "unat (ticks mod 50000000 div 500000) = 100 * unat ticks div 50000000 mod 100"
    by (simp_all add: unat_div unat_mod)
qed

end
