(* ===== verification/Dhry_Port.thy ===== *)
theory Dhry_Port
  imports Console Sys
begin

text \<open>
  \<open>sim/sw/dhrystone/dhry_portme.c\<close>: what the vendored Dhrystone expects of a C library, and the report after
  the run.  Memory is a total map from addresses to bytes; a word access to an address that is not a multiple of
  four traps on this core and is \<^const>\<open>None\<close>.
\<close>

section \<open>The copy loops\<close>

type_synonym mem = "u32 \<Rightarrow> u8"

definition ld_w :: "mem \<Rightarrow> u32 \<Rightarrow> u32 option" where
  "ld_w m a =
     (if a AND 3 = 0
      then Some (ucast (m a) OR push_bit 8 (ucast (m (a + 1))) OR push_bit 16 (ucast (m (a + 2))) OR push_bit 24 (ucast (m (a + 3))))
      else None)"

definition st_w :: "u32 \<Rightarrow> u32 \<Rightarrow> mem \<Rightarrow> mem option" where
  "st_w a w m =
     (if a AND 3 = 0
      then Some (m(a := ucast w, a + 1 := ucast (drop_bit 8 w), a + 2 := ucast (drop_bit 16 w), a + 3 := ucast (drop_bit 24 w)))
      else None)"

definition HAS_ZERO_BYTE :: "u32 \<Rightarrow> u32" where
  "HAS_ZERO_BYTE w = ((w - 0x01010101) AND NOT w) AND 0x80808080"

text \<open>The byte loop up to a word boundary; the flag says that the terminator was among the bytes.\<close>

partial_function (option) align_copy :: "u32 \<Rightarrow> u32 \<Rightarrow> mem \<Rightarrow> (bool \<times> u32 \<times> u32 \<times> mem) option" where
  "align_copy d src m =
     (if src AND 3 \<noteq> 0 then
        (let c = m src; m = m(d := c)
         in if c = 0 then Some (True, d + 1, src + 1, m) else align_copy (d + 1) (src + 1) m)
      else Some (False, d, src, m))"

partial_function (option) word_copy :: "u32 \<Rightarrow> u32 \<Rightarrow> mem \<Rightarrow> (u32 \<times> u32 \<times> mem) option" where
  "word_copy wd ws m = do {
     w \<leftarrow> ld_w m ws;
     if HAS_ZERO_BYTE w \<noteq> 0 then Some (wd, ws, m)
     else do { m \<leftarrow> st_w wd w m; word_copy (wd + 4) (ws + 4) m } }"

partial_function (option) byte_copy :: "u32 \<Rightarrow> u32 \<Rightarrow> mem \<Rightarrow> mem option" where
  "byte_copy d src m =
     (let c = m src; m = m(d := c) in if c \<noteq> 0 then byte_copy (d + 1) (src + 1) m else Some m)"

definition strcpy :: "u32 \<Rightarrow> u32 \<Rightarrow> mem \<Rightarrow> (u32 \<times> mem) option" where
  "strcpy dst src m =
     (if (dst XOR src) AND 3 = 0 then do {
        (ended, d, src, m) \<leftarrow> align_copy dst src m;
        if ended then Some (dst, m)
        else do {
          (d, src, m) \<leftarrow> word_copy d src m;
          m \<leftarrow> byte_copy d src m;
          Some (dst, m) } }
      else do { m \<leftarrow> byte_copy dst src m; Some (dst, m) })"

section \<open>The zero-byte test\<close>

lemma odd_div_bit: "bit (of_int k :: u32) n \<longleftrightarrow> n < 32 \<and> odd (k div 2 ^ n)"
  by (simp only: bit_word_of_int_iff bit_iff_odd [where ?'a = int]) simp

lemma high_bits: "bit (0x80808080 :: u32) n \<longleftrightarrow> n = 7 \<or> n = 15 \<or> n = 23 \<or> n = 31"
proof -
  have "(0x80808080 :: u32) = push_bit 7 1 OR push_bit 15 1 OR push_bit 23 1 OR push_bit 31 1"
    by (simp add: push_bit_eq_mult)
  then have "bit (0x80808080 :: u32) n \<longleftrightarrow> n < 32 \<and> (n = 7 \<or> n = 15 \<or> n = 23 \<or> n = 31)"
    by (simp only: bit_or_iff bit_push_bit_iff bit_1_iff) auto
  then show ?thesis by auto
qed

lemma zero_test_bits:
  "HAS_ZERO_BYTE w = 0 \<longleftrightarrow>
    (\<forall>n \<in> {7, 15, 23, 31}. \<not> (odd ((uint w - 0x01010101) div 2 ^ n) \<and> even (uint w div 2 ^ n)))"
proof -
  have d: "w - 0x01010101 = of_int (uint w - 0x01010101)" and w: "w = of_int (uint w)" by simp_all
  have bits: "bit (HAS_ZERO_BYTE w) n \<longleftrightarrow>
      n \<in> {7, 15, 23, 31} \<and> odd ((uint w - 0x01010101) div 2 ^ n) \<and> even (uint w div 2 ^ n)" for n
    unfolding HAS_ZERO_BYTE_def bit_and_iff bit_not_iff high_bits d
    unfolding odd_div_bit by (subst w, subst odd_div_bit) auto
  have "HAS_ZERO_BYTE w = 0 \<longleftrightarrow> (\<forall>n. \<not> bit (HAS_ZERO_BYTE w) n)"
    using bit_imp_le_length [of "HAS_ZERO_BYTE w"] by (metis bit_0_eq bit_word_eqI bot_apply bot_bool_def)
  then show ?thesis unfolding bits by blast
qed

lemma byte_borrow:
  fixes low c z :: int
  assumes "k = low + p * c + 256 * p * z" and "0 \<le> low" and "low < p" and "- 1 \<le> c" and "c < 256"
  shows "odd (k div (128 * p)) \<longleftrightarrow> c = - 1 \<or> 128 \<le> c"
proof -
  have p: "0 < p" using assms by simp
  have "k div p = c + 256 * z"
  proof -
    have "k = low + p * (c + 256 * z)" using assms(1) by (simp add: algebra_simps)
    then show ?thesis using assms(2,3) p by simp
  qed
  moreover have "k div (128 * p) = k div p div 128" using p by (simp add: zdiv_zmult2_eq mult.commute)
  moreover have "(c + 256 * z) div 128 = c div 128 + 2 * z" by simp
  ultimately have "odd (k div (128 * p)) \<longleftrightarrow> odd (c div 128)" by simp
  moreover have "c div 128 = (if c = - 1 then - 1 else if c < 128 then 0 else 1)"
    using assms(4,5) by auto
  ultimately show ?thesis by auto
qed

lemma byte_even:
  fixes low c z :: int
  assumes "k = low + p * c + 256 * p * z" and "0 \<le> low" and "low < p" and "0 \<le> c" and "c < 256"
  shows "even (k div (128 * p)) \<longleftrightarrow> c < 128"
  using byte_borrow [of k low p c z] assms by auto

lemma base_256: "a = r + 256 * q \<Longrightarrow> q = r' + 256 * q' \<Longrightarrow> q' = r'' + 256 * q'' \<Longrightarrow> q'' = r3 \<Longrightarrow>
  a = r + 256 * r' + 65536 * r'' + 16777216 * (r3 :: int)"
  by simp

lemma uint_bytes:
  "uint (w :: u32) = uint (ucast w :: u8) + 256 * uint (ucast (drop_bit 8 w) :: u8) +
     65536 * uint (ucast (drop_bit 16 w) :: u8) + 16777216 * uint (ucast (drop_bit 24 w) :: u8)"
proof -
  have b: "uint (ucast (drop_bit n w) :: u8) = uint w div 2 ^ n mod 256" for n
  proof -
    have "uint (drop_bit n w) = uint w div 2 ^ n"
      by (simp only: unsigned_drop_bit_eq drop_bit_eq_div [where ?'a = int] take_bit_int_eq_self [OF unsigned_greater_eq unsigned_less])
    then show ?thesis by (simp only: unsigned_ucast_eq take_bit_eq_mod) simp
  qed
  have w: "uint w < 4294967296" "0 \<le> uint w" using uint_u32_bounds [of w] by simp_all
  have "uint w = uint w mod 256 + 256 * (uint w div 256 mod 256) + 65536 * (uint w div 65536 mod 256) +
      16777216 * (uint w div 16777216 mod 256)"
  proof -
    have "uint w = uint w mod 256 + 256 * (uint w div 256)" by simp
    moreover have "uint w div 256 = uint w div 256 mod 256 + 256 * (uint w div 65536)"
      using zdiv_zmult2_eq [of 256 "uint w" 256] by simp
    moreover have "uint w div 65536 = uint w div 65536 mod 256 + 256 * (uint w div 16777216)"
      using zdiv_zmult2_eq [of 256 "uint w" 65536] by simp
    moreover have "uint w div 16777216 mod 256 = uint w div 16777216"
      using w by (intro mod_pos_pos_trivial) (simp_all add: pos_imp_zdiv_nonneg_iff)
    ultimately show ?thesis by (rule base_256 [OF _ _ _ sym])
  qed
  moreover have "uint (ucast w :: u8) = uint w mod 256" using b [of 0] by simp
  moreover have "uint (ucast (drop_bit 8 w) :: u8) = uint w div 256 mod 256"
    "uint (ucast (drop_bit 16 w) :: u8) = uint w div 65536 mod 256"
    "uint (ucast (drop_bit 24 w) :: u8) = uint w div 16777216 mod 256"
    by (simp_all add: b del: numeral_1_eq_Suc_0)
  ultimately show ?thesis by (simp only:)
qed

text \<open>The test is exact: it is 0 just when no byte of the word is.\<close>

lemma zero_test:
  "HAS_ZERO_BYTE w = 0 \<longleftrightarrow> (\<forall>n \<in> {0, 8, 16, 24}. (ucast (drop_bit n w) :: u8) \<noteq> 0)"
proof -
  define y0 where "y0 = uint (ucast w :: u8)"
  define y1 where "y1 = uint (ucast (drop_bit 8 w) :: u8)"
  define y2 where "y2 = uint (ucast (drop_bit 16 w) :: u8)"
  define y3 where "y3 = uint (ucast (drop_bit 24 w) :: u8)"
  note y = y0_def y1_def y2_def y3_def
  have w: "uint w = y0 + 256 * y1 + 65536 * y2 + 16777216 * y3" unfolding y by (rule uint_bytes)
  have r: "0 \<le> uint b \<and> uint b < 256" for b :: u8 using unsigned_less [of b, where ?'a = int] by simp
  have y_r: "0 \<le> y0 \<and> y0 < 256" "0 \<le> y1 \<and> y1 < 256" "0 \<le> y2 \<and> y2 < 256" "0 \<le> y3 \<and> y3 < 256" using y r by simp_all
  define k where "k = uint w - 0x01010101"
  have kw: "k = y0 - 1 + 256 * (y1 - 1) + 65536 * (y2 - 1) + 16777216 * (y3 - 1)" by (simp add: k_def w)
  have even_w: "even (uint w div 2 ^ 7) \<longleftrightarrow> y0 < 128" "even (uint w div 2 ^ 15) \<longleftrightarrow> y1 < 128"
    "even (uint w div 2 ^ 23) \<longleftrightarrow> y2 < 128" "even (uint w div 2 ^ 31) \<longleftrightarrow> y3 < 128"
    using byte_even [of "uint w" 0 1 y0 "y1 + 256 * y2 + 65536 * y3"] byte_even [of "uint w" y0 256 y1 "y2 + 256 * y3"]
      byte_even [of "uint w" "y0 + 256 * y1" 65536 y2 y3] byte_even [of "uint w" "y0 + 256 * y1 + 65536 * y2" 16777216 y3 0]
      y_r w by simp_all
  have o0: "odd (k div 2 ^ 7) \<longleftrightarrow> y0 = 0 \<or> 128 < y0"
    using byte_borrow [of k 0 1 "y0 - 1" "y1 - 1 + 256 * (y2 - 1) + 65536 * (y3 - 1)"] kw y_r by simp
  have o1: "odd (k div 2 ^ 15) \<longleftrightarrow> y1 = 0 \<or> 128 < y1" if "y0 \<noteq> 0"
    using byte_borrow [of k "y0 - 1" 256 "y1 - 1" "y2 - 1 + 256 * (y3 - 1)"] kw y_r that by simp
  have o2: "odd (k div 2 ^ 23) \<longleftrightarrow> y2 = 0 \<or> 128 < y2" if "y0 \<noteq> 0" "y1 \<noteq> 0"
    using byte_borrow [of k "y0 - 1 + 256 * (y1 - 1)" 65536 "y2 - 1" "y3 - 1"] kw y_r that by simp
  have o3: "odd (k div 2 ^ 31) \<longleftrightarrow> y3 = 0 \<or> 128 < y3" if "y0 \<noteq> 0" "y1 \<noteq> 0" "y2 \<noteq> 0"
    using byte_borrow [of k "y0 - 1 + 256 * (y1 - 1) + 65536 * (y2 - 1)" 16777216 "y3 - 1" 0] kw y_r that by simp
  have nz: "uint b = 0 \<longleftrightarrow> b = 0" for b :: u8 by (rule unsigned_eq_0_iff)
  have test: "HAS_ZERO_BYTE w = 0 \<longleftrightarrow> \<not> (odd (k div 2 ^ 7) \<and> y0 < 128) \<and> \<not> (odd (k div 2 ^ 15) \<and> y1 < 128) \<and>
      \<not> (odd (k div 2 ^ 23) \<and> y2 < 128) \<and> \<not> (odd (k div 2 ^ 31) \<and> y3 < 128)"
    unfolding zero_test_bits k_def [symmetric] by (simp only: ball_simps even_w) simp
  consider "y0 = 0" | "y0 \<noteq> 0" "y1 = 0" | "y0 \<noteq> 0" "y1 \<noteq> 0" "y2 = 0" | "y0 \<noteq> 0" "y1 \<noteq> 0" "y2 \<noteq> 0" by blast
  then have "HAS_ZERO_BYTE w = 0 \<longleftrightarrow> y0 \<noteq> 0 \<and> y1 \<noteq> 0 \<and> y2 \<noteq> 0 \<and> y3 \<noteq> 0"
  proof cases
    case 1
    then show ?thesis using test o0 by simp
  next
    case 2
    then show ?thesis using test o1 by simp
  next
    case 3
    then show ?thesis using test o2 by simp
  next
    case 4
    then have "odd (k div 2 ^ 7) \<longleftrightarrow> 128 < y0" "odd (k div 2 ^ 15) \<longleftrightarrow> 128 < y1" "odd (k div 2 ^ 23) \<longleftrightarrow> 128 < y2"
      "odd (k div 2 ^ 31) \<longleftrightarrow> y3 = 0 \<or> 128 < y3"
      using o0 o1 o2 o3 by (simp_all only: simp_thms)
    then show ?thesis using 4 unfolding test by (simp only:) auto
  qed
  then show ?thesis by (simp add: y nz)
qed

section \<open>Copying a string\<close>

text \<open>\<open>n\<close> bytes before the terminator; the string and the place for the copy do not overlap.\<close>

definition cstring :: "mem \<Rightarrow> u32 \<Rightarrow> nat \<Rightarrow> bool" where
  "cstring m a n \<longleftrightarrow> (\<forall>i < n. m (a + of_nat i) \<noteq> 0) \<and> m (a + of_nat n) = 0"

definition apart :: "u32 \<Rightarrow> u32 \<Rightarrow> nat \<Rightarrow> bool" where
  "apart a b n \<longleftrightarrow> n < 2 ^ 32 - 4 \<and> (\<forall>i \<le> n. \<forall>j \<le> n. a + of_nat i \<noteq> b + of_nat j)"

definition copied :: "mem \<Rightarrow> u32 \<Rightarrow> u32 \<Rightarrow> nat \<Rightarrow> mem" where
  "copied m dst src k = (\<lambda>x. if unat (x - dst) < k then m (src + (x - dst)) else m x)"

lemma copied_0 [simp]: "copied m dst src 0 = m"
  by (simp add: copied_def)

lemma offset_iff: "k < 2 ^ 32 \<Longrightarrow> x = dst + of_nat k \<longleftrightarrow> unat (x - dst) = k" for x :: u32
proof
  assume k: "k < 2 ^ 32"
  show "unat (x - dst) = k" if "x = dst + of_nat k"
    using that k by (simp add: unsigned_of_nat take_bit_nat_eq_self)
  show "x = dst + of_nat k" if "unat (x - dst) = k"
  proof -
    have "x = dst + of_nat (unat (x - dst))" by simp
    then show ?thesis unfolding that .
  qed
qed

lemma copied_step:
  assumes "k < 2 ^ 32"
  shows "(copied m dst src k)(dst + of_nat k := m (src + of_nat k)) = copied m dst src (Suc k)"
proof
  fix x
  show "((copied m dst src k)(dst + of_nat k := m (src + of_nat k))) x = copied m dst src (Suc k) x"
  proof (cases "x = dst + of_nat k")
    case True
    then show ?thesis using offset_iff [OF assms, of x dst] by (simp add: copied_def)
  next
    case False
    then show ?thesis using offset_iff [OF assms, of x dst] by (simp add: copied_def less_Suc_eq)
  qed
qed

lemma copied_src:
  assumes "apart src dst n" and "i \<le> n" and "k \<le> Suc n"
  shows "copied m dst src k (src + of_nat i) = m (src + of_nat i)"
proof -
  let ?x = "src + of_nat i"
  have "\<not> unat (?x - dst) < k"
  proof
    assume "unat (?x - dst) < k"
    then have j: "unat (?x - dst) \<le> n" using assms(3) by simp
    have "?x = dst + of_nat (unat (?x - dst))" by simp
    then show False using assms(1,2) j unfolding apart_def by blast
  qed
  then show ?thesis by (simp add: copied_def)
qed

lemma byte_copy_from:
  assumes "apart src dst n" and "cstring m src n" and "k \<le> n"
  shows "byte_copy (dst + of_nat k) (src + of_nat k) (copied m dst src k) = Some (copied m dst src (Suc n))"
  using assms(3)
proof (induction "n - k" arbitrary: k)
  case 0
  then have k: "k = n" by simp
  have c: "copied m dst src n (src + of_nat n) = m (src + of_nat n)" "m (src + of_nat n) = 0"
    using copied_src [OF assms(1)] assms(2) by (simp_all add: cstring_def)
  have "(copied m dst src n)(dst + of_nat n := m (src + of_nat n)) = copied m dst src (Suc n)"
    using assms(1) by (intro copied_step) (simp add: apart_def)
  then show ?case unfolding k using c by (subst byte_copy.simps) (simp add: Let_def)
next
  case (Suc d)
  then have k: "k < n" by simp
  have c: "copied m dst src k (src + of_nat k) = m (src + of_nat k)" "m (src + of_nat k) \<noteq> 0"
    using copied_src [OF assms(1)] assms(2) k by (simp_all add: cstring_def)
  have st: "(copied m dst src k)(dst + of_nat k := m (src + of_nat k)) = copied m dst src (Suc k)"
    using assms(1) k by (intro copied_step) (simp add: apart_def)
  have IH: "byte_copy (dst + of_nat (Suc k)) (src + of_nat (Suc k)) (copied m dst src (Suc k)) = Some (copied m dst src (Suc n))"
    using Suc by (intro Suc.hyps(1)) simp_all
  show ?case using c st IH by (subst byte_copy.simps) (simp add: Let_def algebra_simps)
qed

lemma align_copy_from:
  assumes "apart src dst n" and "cstring m src n" and "k \<le> n"
  shows "align_copy (dst + of_nat k) (src + of_nat k) (copied m dst src k) =
      Some (True, dst + of_nat (Suc n), src + of_nat (Suc n), copied m dst src (Suc n)) \<or>
    (\<exists>k' \<le> n. (src + of_nat k') AND 3 = 0 \<and>
      align_copy (dst + of_nat k) (src + of_nat k) (copied m dst src k) =
        Some (False, dst + of_nat k', src + of_nat k', copied m dst src k'))"
  using assms(3)
proof (induction "n - k" arbitrary: k rule: less_induct)
  case less
  show ?case
  proof (cases "(src + of_nat k) AND 3 = 0")
    case True
    then show ?thesis using less.prems by (intro disjI2 exI [of _ k]) (simp add: align_copy.simps [of "dst + of_nat k"])
  next
    case False
    have c: "copied m dst src k (src + of_nat k) = m (src + of_nat k)"
      using copied_src [OF assms(1)] less.prems by simp
    have st: "(copied m dst src k)(dst + of_nat k := m (src + of_nat k)) = copied m dst src (Suc k)"
      using assms(1) less.prems by (intro copied_step) (simp add: apart_def)
    have e: "align_copy (dst + of_nat k) (src + of_nat k) (copied m dst src k) =
        (if m (src + of_nat k) = 0 then Some (True, dst + of_nat (Suc k), src + of_nat (Suc k), copied m dst src (Suc k))
         else align_copy (dst + of_nat (Suc k)) (src + of_nat (Suc k)) (copied m dst src (Suc k)))"
      using False c by (subst align_copy.simps) (simp add: Let_def algebra_simps st [symmetric] del: fun_upd_apply)
    show ?thesis
    proof (cases "k = n")
      case True
      then show ?thesis using e assms(2) by (simp add: cstring_def)
    next
      case False
      then have "m (src + of_nat k) \<noteq> 0" using assms(2) less.prems by (simp add: cstring_def)
      then show ?thesis unfolding e using less.hyps [of "Suc k"] less.prems False by simp
    qed
  qed
qed

lemma ld_w_bytes:
  assumes "ld_w m a = Some w"
  shows "ucast w = m a" "ucast (drop_bit 8 w) = m (a + 1)" "ucast (drop_bit 16 w) = m (a + 2)" "ucast (drop_bit 24 w) = m (a + 3)"
proof -
  have w: "w = ucast (m a) OR push_bit 8 (ucast (m (a + 1))) OR push_bit 16 (ucast (m (a + 2))) OR push_bit 24 (ucast (m (a + 3)))"
    using assms by (simp add: ld_w_def split: if_splits)
  show "ucast w = m a" unfolding w by (rule bit_word_eqI) (auto simp: bit_simps)
  show "ucast (drop_bit 8 w) = m (a + 1)" unfolding w by (rule bit_word_eqI) (auto simp: bit_simps dest: bit_imp_le_length)
  show "ucast (drop_bit 16 w) = m (a + 2)" unfolding w by (rule bit_word_eqI) (auto simp: bit_simps dest: bit_imp_le_length)
  show "ucast (drop_bit 24 w) = m (a + 3)" unfolding w by (rule bit_word_eqI) (auto simp: bit_simps dest: bit_imp_le_length)
qed

lemma and_3: "unat (y AND 3) = unat y mod 4" for y :: u32
proof -
  have "y AND 3 = take_bit 2 y" by (simp add: take_bit_eq_mask mask_eq_exp_minus_1)
  then show ?thesis by (simp only: unat_take_bit) simp
qed

lemma aligned_iff: "y AND 3 = 0 \<longleftrightarrow> unat y mod 4 = 0" for y :: u32
  using and_3 [of y] by (simp add: unat_eq_zero flip: and_3)

lemma unat_add_mod_4: "unat (x + y) mod 4 = (unat x + unat y) mod 4" for x y :: u32
  by (simp add: unat_word_ariths mod_mod_cancel)

lemma unat_numeral_4: "unat (4 :: u32) = 4"
  by simp

lemma aligned_add:
  assumes "(dst XOR src) AND 3 = (0 :: u32)"
  shows "(dst + x) AND 3 = 0 \<longleftrightarrow> (src + x) AND 3 = 0"
proof -
  have "dst AND 3 = src AND 3"
  proof (rule bit_word_eqI)
    fix n
    have "\<not> bit ((dst XOR src) AND 3) n" using assms by simp
    then show "bit (dst AND 3) n \<longleftrightarrow> bit (src AND 3) n" by (simp only: bit_xor_iff bit_and_iff) blast
  qed
  then have "unat dst mod 4 = unat src mod 4" using and_3 [of dst] and_3 [of src] by simp
  then have "unat (dst + x) mod 4 = unat (src + x) mod 4" unfolding unat_add_mod_4 by (rule mod_add_cong) simp
  then show ?thesis by (simp only: aligned_iff)
qed

lemma word_copy_from:
  assumes "apart src dst n" and "cstring m src n" and "(dst XOR src) AND 3 = 0"
  shows "k \<le> n \<Longrightarrow> (src + of_nat k) AND 3 = 0 \<Longrightarrow>
    \<exists>k' \<le> n. word_copy (dst + of_nat k) (src + of_nat k) (copied m dst src k) =
      Some (dst + of_nat k', src + of_nat k', copied m dst src k')"
proof (induction "n - k" arbitrary: k rule: less_induct)
  case less
  let ?s = "src + of_nat k" and ?d = "dst + of_nat k" and ?m = "copied m dst src k"
  obtain w where w: "ld_w ?m ?s = Some w" using less.prems by (simp add: ld_w_def)
  have at: "?s + 1 = src + of_nat (k + 1)" "?s + 2 = src + of_nat (k + 2)" "?s + 3 = src + of_nat (k + 3)" by simp_all
  note b = ld_w_bytes [OF w, unfolded at]
  show ?case
  proof (cases "HAS_ZERO_BYTE w = 0")
    case False
    then show ?thesis using w less.prems by (intro exI [of _ k]) (simp add: word_copy.simps [of ?d])
  next
    case True
    then have z: "(ucast w :: u8) \<noteq> 0" "(ucast (drop_bit 8 w) :: u8) \<noteq> 0" "(ucast (drop_bit 16 w) :: u8) \<noteq> 0"
      "(ucast (drop_bit 24 w) :: u8) \<noteq> 0" unfolding zero_test by simp_all
    have nz: "?m (src + of_nat (k + i)) \<noteq> 0" if "i < 4" for i
    proof -
      have "\<forall>i < 4. ?m (src + of_nat (k + i)) \<noteq> 0"
      proof (intro allI impI)
        fix i :: nat
        assume "i < 4"
        then consider "i = 0" | "i = 1" | "i = 2" | "i = 3" by linarith
        then show "?m (src + of_nat (k + i)) \<noteq> 0"
          using z [unfolded b] by cases (simp_all only: add_0_right simp_thms)
      qed
      then show ?thesis using that by blast
    qed
    have n: "k + 4 \<le> n"
    proof (rule ccontr)
      assume "\<not> k + 4 \<le> n"
      then have "n - k < 4" "n = k + (n - k)" using less.prems by simp_all
      then have "?m (src + of_nat n) \<noteq> 0" using nz [of "n - k"] by simp
      then show False using copied_src [OF assms(1), of n k] less.prems assms(2) by (simp add: cstring_def)
    qed
    have byte: "?m (src + of_nat (k + i)) = m (src + of_nat (k + i))" if "i < 4" for i
      using copied_src [OF assms(1), of "k + i" k] n that by simp
    have st: "(copied m dst src (k + i))(dst + of_nat (k + i) := m (src + of_nat (k + i))) = copied m dst src (Suc (k + i))"
      if "i < 4" for i
      using assms(1) n that by (intro copied_step) (simp add: apart_def)
    have "?d AND 3 = 0" using aligned_add [OF assms(3)] less.prems(2) by simp
    moreover have "?m(?d := m (src + of_nat k), ?d + 1 := m (src + of_nat (k + 1)), ?d + 2 := m (src + of_nat (k + 2)),
        ?d + 3 := m (src + of_nat (k + 3))) = copied m dst src (k + 4)"
      using st [of 0] st [of 1] st [of 2] st [of 3] by (simp add: algebra_simps numeral_eq_Suc)
    ultimately have "st_w ?d w ?m = Some (copied m dst src (k + 4))"
      using b byte [of 0] byte [of 1] byte [of 2] byte [of 3] by (simp add: st_w_def)
    then have "word_copy ?d ?s ?m = word_copy (dst + of_nat (k + 4)) (src + of_nat (k + 4)) (copied m dst src (k + 4))"
      using w True by (subst word_copy.simps) (simp add: algebra_simps)
    moreover have "(src + of_nat (k + 4)) AND 3 = 0"
    proof -
      have "unat (?s + 4) mod 4 = (unat ?s + unat (4 :: u32)) mod 4" by (rule unat_add_mod_4)
      also have "\<dots> = unat ?s mod 4" by (simp only: unat_numeral_4 mod_add_self2)
      finally show ?thesis using less.prems(2) by (simp add: aligned_iff algebra_simps)
    qed
    ultimately show ?thesis using less.hyps [of "k + 4"] n by simp
  qed
qed

lemma strcpy_core:
  assumes "apart src dst n" and "cstring m src n"
  shows "strcpy dst src m = Some (dst, copied m dst src (Suc n))"
proof (cases "(dst XOR src) AND 3 = 0")
  case False
  then show ?thesis using byte_copy_from [OF assms, of 0] by (simp add: strcpy_def)
next
  case True
  from align_copy_from [OF assms le0] show ?thesis
  proof
    assume "align_copy (dst + of_nat 0) (src + of_nat 0) (copied m dst src 0) =
      Some (True, dst + of_nat (Suc n), src + of_nat (Suc n), copied m dst src (Suc n))"
    then show ?thesis using True by (simp add: strcpy_def)
  next
    assume "\<exists>k' \<le> n. (src + of_nat k') AND 3 = 0 \<and>
      align_copy (dst + of_nat 0) (src + of_nat 0) (copied m dst src 0) =
        Some (False, dst + of_nat k', src + of_nat k', copied m dst src k')"
    then obtain k where k: "k \<le> n" "(src + of_nat k) AND 3 = 0"
      "align_copy dst src m = Some (False, dst + of_nat k, src + of_nat k, copied m dst src k)" by auto
    then obtain l where l: "l \<le> n"
      "word_copy (dst + of_nat k) (src + of_nat k) (copied m dst src k) = Some (dst + of_nat l, src + of_nat l, copied m dst src l)"
      using word_copy_from [OF assms True] by blast
    show ?thesis using True k(3) l(2) byte_copy_from [OF assms l(1)] by (simp add: strcpy_def)
  qed
qed

text \<open>C38: the word-at-a-time copy is the byte-by-byte one, for any two alignments: it returns the destination, writes the
  string with its terminator there and nothing else, not even within the last word, and never traps on an
  unaligned access.  The places must not overlap, and nothing is assumed of the bytes behind the terminator, which
  the last word may contain.\<close>

theorem strcpy_copies:
  assumes "apart src dst n" and "cstring m src n"
  shows "\<exists>m'. strcpy dst src m = Some (dst, m') \<and>
    (\<forall>x. m' x = (if unat (x - dst) \<le> n then m (src + (x - dst)) else m x))"
  using strcpy_core [OF assms] by (simp add: copied_def less_Suc_eq_le)

definition hello :: mem where
  "hello = (\<lambda>x. if 0x102 \<le> x \<and> x < 0x10B then of_char (''DHRYSTONE'' ! unat (x - 0x102)) else 0)"

theorem strcpy_copies_witness:
  "\<exists>m'. strcpy 0x202 0x102 hello = Some (0x202, m') \<and> map m' [0x201, 0x202, 0x203, 0x20A, 0x20B, 0x20C] = [0, 68, 72, 69, 0, 0]"
proof -
  have lo: "unat (0x102 + of_nat i :: u32) = 0x102 + i" "unat (0x202 + of_nat i :: u32) = 0x202 + i" if "i \<le> 9" for i
    using that by (simp_all add: unat_word_ariths unsigned_of_nat take_bit_nat_eq_self)
  have "apart 0x102 0x202 9"
    unfolding apart_def
  proof (intro conjI allI impI)
    fix i j :: nat
    assume "i \<le> 9" "j \<le> 9"
    then have "unat (0x102 + of_nat i :: u32) \<noteq> unat (0x202 + of_nat j :: u32)" by (simp only: lo)
    then show "0x102 + of_nat i \<noteq> (0x202 + of_nat j :: u32)" by metis
  qed simp
  moreover have "cstring hello 0x102 9"
  proof -
    have "\<forall>i \<in> set [0, 1, 2, 3, 4, 5, 6, 7, 8]. hello (0x102 + of_nat i) \<noteq> 0"
      by (simp add: hello_def of_char_def)
    moreover have "i \<in> set [0, 1, 2, 3, 4, 5, 6, 7, 8]" if "i < 9" for i :: nat using that by auto
    ultimately have "\<forall>i < 9. hello (0x102 + of_nat i) \<noteq> 0" by blast
    moreover have "hello (0x102 + of_nat 9) = 0" by (simp add: hello_def)
    ultimately show ?thesis unfolding cstring_def by blast
  qed
  ultimately obtain m' where "strcpy 0x202 0x102 hello = Some (0x202, m')"
    "\<forall>x. m' x = (if unat (x - 0x202) \<le> 9 then hello (0x102 + (x - 0x202)) else hello x)"
    using strcpy_copies [of "0x102" "0x202" 9 hello] by blast
  then show ?thesis by (simp add: hello_def)
qed

section \<open>The other routines\<close>

fun memcpy_loop :: "nat \<Rightarrow> u32 \<Rightarrow> u32 \<Rightarrow> mem \<Rightarrow> mem" where
  "memcpy_loop 0 d s m = m"
| "memcpy_loop (Suc n) d s m = memcpy_loop n (d + 1) (s + 1) (m(d := m s))"

definition memcpy :: "u32 \<Rightarrow> u32 \<Rightarrow> u32 \<Rightarrow> mem \<Rightarrow> u32 \<times> mem" where
  "memcpy dst src n m = (dst, memcpy_loop (unat n) dst src m)"

fun memset_loop :: "nat \<Rightarrow> u32 \<Rightarrow> u8 \<Rightarrow> mem \<Rightarrow> mem" where
  "memset_loop 0 d c m = m"
| "memset_loop (Suc n) d c m = memset_loop n (d + 1) c (m(d := c))"

definition memset :: "u32 \<Rightarrow> int \<Rightarrow> u32 \<Rightarrow> mem \<Rightarrow> u32 \<times> mem" where
  "memset dst c n m = (dst, memset_loop (unat n) dst (of_int c) m)"

record 'd dhry = "'d mach" +
  t_begin_cycles :: u32
  t_end_cycles :: u32
  t_calls :: nat
  heap_used :: u32

definition CLK_HZ :: u32 where "CLK_HZ = 50000000"
definition CYCLES_PER_ITER :: u64 where "CYCLES_PER_ITER = 686"
definition HEAP_BYTES :: u32 where "HEAP_BYTES = 256"
definition VAX_DHRY_PER_SEC :: u32 where "VAX_DHRY_PER_SEC = 1757"

text \<open>\<open>time\<close>; the counter is the one of \<open>sys_cycle\<close>.\<close>

definition dhry_time :: "'d hw \<Rightarrow> ('d, 'z) dhry_scheme \<Rightarrow> u32 \<times> ('d, 'z) dhry_scheme" where
  "dhry_time hw s =
     (let (c, s) = sys_cycle hw s;
          s = (if t_calls s = 0 then s\<lparr>t_begin_cycles := c\<rparr> else s\<lparr>t_end_cycles := c\<rparr>);
          s = s\<lparr>t_calls := t_calls s + 1\<rparr>
      in (c div CLK_HZ, s))"

text \<open>\<open>malloc\<close>; \<open>heap\<close> is the address the linker gives the pool.\<close>

definition malloc :: "u32 \<Rightarrow> u32 \<Rightarrow> ('d, 'z) dhry_scheme \<Rightarrow> u32 \<times> ('d, 'z) dhry_scheme" where
  "malloc heap n s =
     (let n = (n + (4 - 1)) AND NOT (4 - 1)
      in if heap_used s + n > HEAP_BYTES then (0, s)
         else (heap + heap_used s, s\<lparr>heap_used := heap_used s + n\<rparr>))"

definition print_x100 :: "'d hw \<Rightarrow> u32 \<Rightarrow> u32 \<Rightarrow> ('d, 'z) m \<Rightarrow> ('d, 'z) m option" where
  "print_x100 hw whole hundredths s = printf hw ''%u.%02u'' [VWord whole, VWord hundredths] s"

definition report_port_summary :: "'d hw \<Rightarrow> u32 \<Rightarrow> ('d, 'z) dhry_scheme \<Rightarrow> ('d, 'z) dhry_scheme option" where
  "report_port_summary hw iters s = do {
     let ticks = t_end_cycles s - t_begin_cycles s;
     s \<leftarrow> printf hw lf [] s;
     s \<leftarrow> printf hw (''  Ticks (core cycles) : %u'' @ lf) [VWord ticks] s;
     if ticks = 0 \<or> iters = 0 then Some s
     else do {
       let per_iter = ticks div iters;
       s \<leftarrow> printf hw (''  Cycles / iteration  : %u'' @ lf) [VWord per_iter] s;
       s \<leftarrow> printf hw ''  Total time (secs)   : '' [] s;
       s \<leftarrow> print_x100 hw (ticks div CLK_HZ) (ticks mod CLK_HZ div (CLK_HZ div 100)) s;
       s \<leftarrow> printf hw lf [] s;
       if per_iter = 0 then Some s
       else do {
         let dhry_per_sec = CLK_HZ div per_iter;
         s \<leftarrow> printf hw (''  Dhrystones / sec    : %u'' @ lf) [VWord dhry_per_sec] s;
         let dmips100 = dhry_per_sec * 100 div VAX_DHRY_PER_SEC;
         s \<leftarrow> printf hw ''  DMIPS               : '' [] s;
         s \<leftarrow> print_x100 hw (dmips100 div 100) (dmips100 mod 100) s;
         s \<leftarrow> printf hw lf [] s;
         let dmips_mhz100 = 100000000 div (per_iter * VAX_DHRY_PER_SEC);
         s \<leftarrow> printf hw ''  DMIPS / MHz         : '' [] s;
         s \<leftarrow> print_x100 hw (dmips_mhz100 div 100) (dmips_mhz100 mod 100) s;
         printf hw lf [] s } } }"

text \<open>\<open>main\<close> around the vendored benchmark \<open>dhry_main\<close>, for the number of runs of the build.\<close>

definition dhry_port_main ::
  "'d hw \<Rightarrow> u32 \<Rightarrow> (('d, 'z) dhry_scheme \<Rightarrow> ('d, 'z) dhry_scheme option) \<Rightarrow> ('d, 'z) dhry_scheme \<Rightarrow> ('d, 'z) dhry_scheme option" where
  "dhry_port_main hw iters dhry_main s = do {
     s \<leftarrow> printf hw lf [] s;
     s \<leftarrow> printf hw (''  YARV32-uC  --  RV32IMAC Zicsr Zifencei'' @ lf) [] s;
     s \<leftarrow> printf hw (''  Dhrystone 2.1  --  %u runs'' @ lf) [VWord iters] s;
     s \<leftarrow> printf hw (''  ------------------------------------------'' @ lf) [] s;
     s \<leftarrow> printf hw (''  Core clock : %u Hz'' @ lf) [VWord CLK_HZ] s;
     let expect_s = (ucast (ucast iters * CYCLES_PER_ITER div ucast CLK_HZ) :: u32);
     s \<leftarrow> (if expect_s \<noteq> 0 then printf hw (''  Expected   : ~%u s'' @ lf) [VWord expect_s] s
          else printf hw (''  Expected   : under 1 s (short run: Dhrystone wants 2 s)'' @ lf) [] s);
     s \<leftarrow> printf hw (lf @ ''  running...'' @ lf) [] s;
     s \<leftarrow> dhry_main s;
     report_port_summary hw iters s }"

text \<open>The copy of a structure, which does not overlap its source.\<close>

lemma memcpy_loop_from:
  "apart src dst n \<Longrightarrow> k + j = Suc n \<Longrightarrow>
    memcpy_loop j (dst + of_nat k) (src + of_nat k) (copied m dst src k) = copied m dst src (Suc n)"
proof (induction j arbitrary: k)
  case (Suc j)
  have "(copied m dst src k)(dst + of_nat k := copied m dst src k (src + of_nat k)) = copied m dst src (Suc k)"
    using copied_step [of k m dst src] copied_src [OF Suc.prems(1), of k k m] Suc.prems by (simp add: apart_def)
  then show ?case using Suc.IH [of "Suc k"] Suc.prems by (simp add: algebra_simps)
qed simp

lemma memcpy_copies: "apart src dst n \<Longrightarrow> memcpy dst src (of_nat (Suc n)) m = (dst, copied m dst src (Suc n))"
  using memcpy_loop_from [of src dst n 0 "Suc n" m]
  by (simp add: memcpy_def unsigned_of_nat take_bit_nat_eq_self apart_def del: of_nat_Suc)

section \<open>The heap\<close>

text \<open>A sequence of requests and the pointers they get.\<close>

fun mallocs :: "u32 \<Rightarrow> u32 list \<Rightarrow> ('d, 'z) dhry_scheme \<Rightarrow> u32 list" where
  "mallocs heap [] s = []"
| "mallocs heap (n # ns) s = (let (p, s) = malloc heap n s in p # mallocs heap ns s)"

definition rounded :: "u32 \<Rightarrow> u32" where
  "rounded n = (n + (4 - 1)) AND NOT (4 - 1)"

lemma minus_masked: "x - (x AND y) = x AND NOT (y :: u32)"
proof -
  have "x - (x AND y) = x AND NOT (x AND y)"
    by (rule disjunctive_diff) (simp add: bit_and_iff)
  also have "\<dots> = x AND NOT y"
    by (rule bit_word_eqI) (auto simp: bit_simps)
  finally show ?thesis .
qed

lemma unat_rounded: "unat n \<le> 2 ^ 32 - 4 \<Longrightarrow> unat (rounded n) = (unat n + 3) div 4 * 4"
proof -
  assume "unat n \<le> 2 ^ 32 - 4"
  then have s: "unat (n + 3) = unat n + 3" by (simp add: unat_word_ariths)
  have "rounded n = (n + 3) - ((n + 3) AND 3)" by (simp only: rounded_def minus_masked) simp
  moreover have "unat ((n + 3) AND 3) \<le> unat (n + 3)" by (simp only: and_3 mod_less_eq_dividend)
  ultimately have "unat (rounded n) = (unat n + 3) - (unat n + 3) mod 4"
    by (simp only: unat_sub word_le_nat_alt and_3 s)
  then show ?thesis by (simp add: minus_mod_eq_div_mult)
qed

lemma malloc_eq:
  assumes "heap_used s \<le> HEAP_BYTES" and "unat n \<le> 2 ^ 32 - 260"
  shows "malloc heap n s =
    (if unat (heap_used s) + (unat n + 3) div 4 * 4 > 256 then (0, s)
     else (heap + heap_used s, s\<lparr>heap_used := heap_used s + rounded n\<rparr>))"
    and "unat (heap_used s + rounded n) = unat (heap_used s) + (unat n + 3) div 4 * 4"
proof -
  have u: "unat (heap_used s) \<le> 256" using assms(1) by (simp add: word_le_nat_alt HEAP_BYTES_def)
  have r: "unat (rounded n) = (unat n + 3) div 4 * 4" using unat_rounded assms(2) by simp
  also have "\<dots> \<le> unat n + 3" by (rule div_times_less_eq_dividend)
  finally show sum: "unat (heap_used s + rounded n) = unat (heap_used s) + (unat n + 3) div 4 * 4"
    using u assms(2) r by (simp add: unat_word_ariths)
  have "heap_used s + rounded n > HEAP_BYTES \<longleftrightarrow> unat (heap_used s) + (unat n + 3) div 4 * 4 > 256"
    unfolding word_less_nat_alt sum by (simp add: HEAP_BYTES_def)
  then show "malloc heap n s =
    (if unat (heap_used s) + (unat n + 3) div 4 * 4 > 256 then (0, s)
     else (heap + heap_used s, s\<lparr>heap_used := heap_used s + rounded n\<rparr>))"
    by (simp only: malloc_def rounded_def [symmetric] Let_def)
qed

definition block_ok :: "u32 \<Rightarrow> nat \<Rightarrow> u32 \<Rightarrow> u32 \<Rightarrow> bool" where
  "block_ok heap used p n \<longleftrightarrow>
     unat heap + used \<le> unat p \<and> unat p + unat n \<le> unat heap + 256 \<and> (unat p - unat heap) mod 4 = 0"

text \<open>Requests \<open>ns\<close> got \<open>ps\<close>: nothing, or a block behind everything given out before.\<close>

fun granted :: "u32 \<Rightarrow> nat \<Rightarrow> u32 list \<Rightarrow> u32 list \<Rightarrow> bool" where
  "granted heap used [] ps \<longleftrightarrow> ps = []"
| "granted heap used (n # ns) [] \<longleftrightarrow> False"
| "granted heap used (n # ns) (p # ps) \<longleftrightarrow>
     (p = 0 \<and> granted heap used ns ps) \<or>
     (block_ok heap used p n \<and> (\<exists>used'. unat p + unat n \<le> unat heap + used' \<and> used \<le> used' \<and> granted heap used' ns ps))"

lemma mallocs_granted:
  assumes "unat heap + 256 \<le> 2 ^ 32"
  shows "heap_used s \<le> HEAP_BYTES \<Longrightarrow> unat (heap_used s) mod 4 = 0 \<Longrightarrow> \<forall>n \<in> set ns. unat n \<le> 2 ^ 32 - 260 \<Longrightarrow>
    granted heap (unat (heap_used s)) ns (mallocs heap ns s)"
proof (induction ns arbitrary: s)
  case Nil
  then show ?case by simp
next
  case (Cons n ns)
  have n: "unat n \<le> 2 ^ 32 - 260" using Cons.prems by simp
  note eq = malloc_eq(1) [OF Cons.prems(1) n, of heap] malloc_eq(2) [OF Cons.prems(1) n]
  show ?case
  proof (cases "unat (heap_used s) + (unat n + 3) div 4 * 4 > 256")
    case True
    then show ?thesis using eq(1) Cons by simp
  next
    case False
    let ?s = "s\<lparr>heap_used := heap_used s + rounded n\<rparr>"
    have used: "unat (heap_used ?s) = unat (heap_used s) + (unat n + 3) div 4 * 4" using eq(2) by simp
    have "unat (heap_used ?s) mod 4 = 0" unfolding used using Cons.prems(2) by (simp add: mod_add_eq)
    moreover have "heap_used ?s \<le> HEAP_BYTES" using used False by (simp add: word_le_nat_alt HEAP_BYTES_def)
    ultimately have IH: "granted heap (unat (heap_used ?s)) ns (mallocs heap ns ?s)"
      using Cons.prems(3) by (intro Cons.IH) simp_all
    have res: "mallocs heap (n # ns) s = (heap + heap_used s) # mallocs heap ns ?s" using eq(1) False by simp
    have more: "unat n \<le> (unat n + 3) div 4 * 4" by linarith
    have u: "unat (heap_used s) \<le> 256" using Cons.prems(1) by (simp add: word_le_nat_alt HEAP_BYTES_def)
    show ?thesis
    proof (cases "unat heap + unat (heap_used s) < 2 ^ 32")
      case True
      then have p: "unat (heap + heap_used s) = unat heap + unat (heap_used s)" by (simp add: unat_word_ariths)
      have "block_ok heap (unat (heap_used s)) (heap + heap_used s) n"
        using p False more Cons.prems(2) by (simp add: block_ok_def)
      moreover have "unat (heap + heap_used s) + unat n \<le> unat heap + unat (heap_used ?s)" using p used more by simp
      moreover have "unat (heap_used s) \<le> unat (heap_used ?s)" using used by simp
      ultimately show ?thesis unfolding res using IH by auto
    next
      case False
      then have e: "unat heap + unat (heap_used s) = 2 ^ 32" "unat (heap_used s) = 256" using u assms by simp_all
      then have "heap + heap_used s = 0" by (simp add: unat_word_ariths flip: unat_eq_zero)
      moreover have "unat (heap_used ?s) = unat (heap_used s)" using e(2) used \<open>heap_used ?s \<le> HEAP_BYTES\<close>
        by (simp add: word_le_nat_alt HEAP_BYTES_def)
      ultimately show ?thesis unfolding res using IH by simp
    qed
  qed
qed

lemma granted_lower:
  "granted heap used ns ps \<Longrightarrow> i < length ns \<Longrightarrow> ps ! i \<noteq> 0 \<Longrightarrow> unat heap + used \<le> unat (ps ! i) \<and>
     unat (ps ! i) + unat (ns ! i) \<le> unat heap + 256 \<and> (unat (ps ! i) - unat heap) mod 4 = 0"
proof (induction heap used ns ps arbitrary: i rule: granted.induct)
  case (3 heap used n ns p ps)
  show ?case
  proof (cases i)
    case 0
    then show ?thesis using "3.prems" by (auto simp: block_ok_def)
  next
    case (Suc k)
    then show ?thesis using "3.prems" "3.IH"(1) [of k] "3.IH"(2) [of _ k] by fastforce
  qed
qed simp_all

lemma granted_disjoint:
  "granted heap used ns ps \<Longrightarrow> i < j \<Longrightarrow> j < length ns \<Longrightarrow> ps ! i \<noteq> 0 \<Longrightarrow> ps ! j \<noteq> 0 \<Longrightarrow>
     unat (ps ! i) + unat (ns ! i) \<le> unat (ps ! j)"
proof (induction heap used ns ps arbitrary: i j rule: granted.induct)
  case (3 heap used n ns p ps)
  then obtain l where j: "j = Suc l" by (cases j) simp_all
  show ?case
  proof (cases i)
    case 0
    then obtain used' where "unat p + unat n \<le> unat heap + used'" "granted heap used' ns ps"
      using "3.prems" by auto
    then show ?thesis using granted_lower [of heap used' ns ps l] "3.prems" 0 j by simp
  next
    case (Suc k)
    then show ?thesis using "3.prems" j "3.IH"(1) [of k l] "3.IH"(2) [of _ k l] by auto
  qed
qed simp_all

text \<open>C39: whatever is asked for, up to a size of 2^32 - 260 beyond which the rounding could wrap, every pointer that
  is not null is a block of its own: a multiple of four bytes from the start of the pool, which is an array of words,
  inside the pool, and not overlapping any block given out before.\<close>

theorem malloc_blocks:
  assumes "unat heap + 256 \<le> 2 ^ 32" and "heap_used s = 0" and "\<forall>n \<in> set ns. unat n \<le> 2 ^ 32 - 260"
    and "ps = mallocs heap ns s" and "j < length ns" and "ps ! j \<noteq> 0"
  shows "unat heap \<le> unat (ps ! j) \<and> unat (ps ! j) + unat (ns ! j) \<le> unat heap + 256 \<and> (unat (ps ! j) - unat heap) mod 4 = 0 \<and>
    (\<forall>i < j. ps ! i \<noteq> 0 \<longrightarrow> unat (ps ! i) + unat (ns ! i) \<le> unat (ps ! j))"
proof -
  have "granted heap 0 ns ps" using mallocs_granted [OF assms(1) _ _ assms(3), of s] assms(2,4) by simp
  then show ?thesis using granted_lower [of heap 0 ns ps j] granted_disjoint [of heap 0 ns ps _ j] assms(5,6) by simp
qed

definition dhry_start :: "unit dhry" where
  "dhry_start = \<lparr>dev = (), evs = [], t_begin_cycles = 0, t_end_cycles = 0, t_calls = 0, heap_used = 0\<rparr>"

theorem malloc_blocks_witness:
  "mallocs 0x3000 [46, 48, 200, 5] dhry_start = [0x3000, 0x3030, 0, 0x3060] \<and>
   unat (mallocs 0x3000 [46, 48, 200, 5] dhry_start ! 1) + 48 \<le> unat (mallocs 0x3000 [46, 48, 200, 5] dhry_start ! 3)"
proof -
  have "mallocs 0x3000 [46, 48, 200, 5] dhry_start = [0x3000, 0x3030, 0, 0x3060]"
    by (simp add: dhry_start_def malloc_def HEAP_BYTES_def)
  then show ?thesis
    using malloc_blocks [of "0x3000" dhry_start "[46, 48, 200, 5]" "mallocs 0x3000 [46, 48, 200, 5] dhry_start" 3]
    by (simp add: dhry_start_def)
qed

text \<open>Above that size the rounded request is 0, and a pointer to no memory at all comes back.\<close>

lemma malloc_wraps: "heap_used s \<le> HEAP_BYTES \<Longrightarrow> malloc heap 0xFFFFFFFF s = (heap + heap_used s, s)"
proof -
  have "(0xFFFFFFFF + (4 - 1)) AND NOT (4 - 1) = (0 :: u32)" by code_simp
  then show "heap_used s \<le> HEAP_BYTES \<Longrightarrow> malloc heap 0xFFFFFFFF s = (heap + heap_used s, s)"
    by (simp only: malloc_def Let_def) (auto dest: leD)
qed

section \<open>The report\<close>

text \<open>What should be printed, on natural numbers: \<open>p\<close> is the number of cycles of one run.\<close>

definition report_text :: "nat \<Rightarrow> nat \<Rightarrow> string" where
  "report_text ticks iters =
     (let p = ticks div iters
      in line [] [] @ line ''  Ticks (core cycles) : '' (dec ticks) @ line ''  Cycles / iteration  : '' (dec p) @
         line ''  Total time (secs)   : '' (x100 (100 * ticks div 50000000)) @
         line ''  Dhrystones / sec    : '' (dec (50000000 div p)) @
         line ''  DMIPS               : '' (x100 (100 * (50000000 div p) div 1757)) @
         line ''  DMIPS / MHz         : '' (x100 (100000000 div (1757 * p))))"


lemma tells_hundredths: "unat a = n div 100 \<Longrightarrow> unat b = n mod 100 \<Longrightarrow> tells hw (print_x100 hw a b) (x100 n)"
  unfolding print_x100_def by (rule tells_x100)

lemma report_core:
  assumes "tx_live hw (dev s)" and "1757 \<le> unat iters" and "2 * unat iters \<le> unat (t_end_cycles s - t_begin_cycles s)"
  shows "\<exists>t. report_port_summary hw iters s = Some t \<and> tx_live hw (dev t) \<and>
    uart_out t = uart_out s @ report_text (unat (t_end_cycles s - t_begin_cycles s)) (unat iters)"
proof -
  define ticks where "ticks = t_end_cycles s - t_begin_cycles s"
  define p where "p = ticks div iters"
  define d100 where "d100 = CLK_HZ div p * 100 div VAX_DHRY_PER_SEC"
  define m100 where "m100 = 100000000 div (p * VAX_DHRY_PER_SEC)"
  have P: "unat p = unat ticks div unat iters" by (simp add: p_def unat_div)
  have p2: "2 \<le> unat p" unfolding P using assms(2,3) by (simp add: ticks_def less_eq_div_iff_mult_less_eq)
  have "unat ticks div unat iters \<le> unat ticks div 1757" using assms(2) by (simp add: div_le_mono2)
  then have pb: "unat p * 1757 < 2 ^ 32" unfolding P using unat_bound [of ticks] by simp
  have "50000000 div unat p \<le> 50000000 div 2" using p2 by (intro div_le_mono2) simp_all
  then have rate: "unat (CLK_HZ div p * 100) = 100 * (50000000 div unat p)"
    by (simp add: unat_word_ariths unat_div CLK_HZ_def)
  have D: "unat d100 = 100 * (50000000 div unat p) div 1757"
    by (simp add: d100_def unat_div rate VAX_DHRY_PER_SEC_def)
  have M: "unat m100 = 100000000 div (1757 * unat p)"
    using pb by (simp add: m100_def unat_div unat_word_ariths VAX_DHRY_PER_SEC_def mult.commute)
  have T: "unat (ticks div CLK_HZ) = 100 * unat ticks div 50000000 div 100"
    "unat (ticks mod CLK_HZ div (CLK_HZ div 100)) = 100 * unat ticks div 50000000 mod 100"
    using total_time [of ticks] by (simp_all add: CLK_HZ_def)
  let ?gs = "[printf hw lf [], printf hw (''  Ticks (core cycles) : '' @ ''%u'' @ lf) [VWord ticks],
    printf hw (''  Cycles / iteration  : '' @ ''%u'' @ lf) [VWord p],
    printf hw ''  Total time (secs)   : '' [], print_x100 hw (ticks div CLK_HZ) (ticks mod CLK_HZ div (CLK_HZ div 100)), printf hw lf [],
    printf hw (''  Dhrystones / sec    : '' @ ''%u'' @ lf) [VWord (CLK_HZ div p)],
    printf hw ''  DMIPS               : '' [], print_x100 hw (d100 div 100) (d100 mod 100), printf hw lf [],
    printf hw ''  DMIPS / MHz         : '' [], print_x100 hw (m100 div 100) (m100 mod 100), printf hw lf []]"
  have nz: "ticks \<noteq> 0" "iters \<noteq> 0" "p \<noteq> 0"
    using p2 assms(2,3) by (auto simp: ticks_def)
  have e: "report_port_summary hw iters s = put_all (\<lambda>g. g) ?gs s"
    using nz by (simp add: report_port_summary_def Let_def ticks_def [symmetric] p_def [symmetric] d100_def [symmetric] m100_def [symmetric] put_all_fun
        del: printf.simps put_all.simps)
  have t: "list_all2 (tells hw) ?gs
    [line [] [], line ''  Ticks (core cycles) : '' (dec (unat ticks)), line ''  Cycles / iteration  : '' (dec (unat p)),
     ''  Total time (secs)   : '', x100 (100 * unat ticks div 50000000), line [] [],
     line ''  Dhrystones / sec    : '' (dec (unat (CLK_HZ div p))),
     ''  DMIPS               : '', x100 (unat d100), line [] [], ''  DMIPS / MHz         : '', x100 (unat m100), line [] []]"
    unfolding list_all2_Cons list_all2_Nil
    by (intro conjI TrueI tells_lf tells_count tells_text tells_hundredths)
      (use T in \<open>simp_all add: unat_div unat_mod\<close>)
  obtain u where u: "put_all (\<lambda>g. g) ?gs s = Some u" "tx_live hw (dev u)"
    "uart_out u = uart_out s @ concat
    [line [] [], line ''  Ticks (core cycles) : '' (dec (unat ticks)), line ''  Cycles / iteration  : '' (dec (unat p)),
     ''  Total time (secs)   : '', x100 (100 * unat ticks div 50000000), line [] [],
     line ''  Dhrystones / sec    : '' (dec (unat (CLK_HZ div p))),
     ''  DMIPS               : '', x100 (unat d100), line [] [], ''  DMIPS / MHz         : '', x100 (unat m100), line [] []]"
    using tellsE [OF tells_seq [OF t] assms(1)] by blast
  have "unat (CLK_HZ div p) = 50000000 div unat p" by (simp add: unat_div CLK_HZ_def)
  then have "report_text (unat ticks) (unat iters) = concat
    [line [] [], line ''  Ticks (core cycles) : '' (dec (unat ticks)), line ''  Cycles / iteration  : '' (dec (unat p)),
     ''  Total time (secs)   : '', x100 (100 * unat ticks div 50000000), line [] [],
     line ''  Dhrystones / sec    : '' (dec (unat (CLK_HZ div p))),
     ''  DMIPS               : '', x100 (unat d100), line [] [], ''  DMIPS / MHz         : '', x100 (unat m100), line [] []]"
    by (simp add: report_text_def Let_def P D M line_def)
  then show ?thesis using e u by (simp add: ticks_def)
qed

text \<open>For a build of at least 1757 runs, and a run that took at least two cycles per iteration, the 32-bit
  arithmetic of the report never overflows: every figure printed is the exact quotient, rounded down to the
  decimals shown.\<close>

theorem dhry_report_exact:
  assumes "tx_live hw (dev s)" and "1757 \<le> unat iters" and "2 * unat iters \<le> unat (t_end_cycles s - t_begin_cycles s)"
  shows "\<exists>t. report_port_summary hw iters s = Some t \<and>
    uart_out t = uart_out s @ report_text (unat (t_end_cycles s - t_begin_cycles s)) (unat iters)"
  using report_core [OF assms] by blast

theorem dhry_report_exact_witness:
  "\<exists>t. report_port_summary (const_hw (\<lambda>_. 1)) 2000 (dhry_start\<lparr>t_begin_cycles := 0xFFFFFFFF, t_end_cycles := 1371999\<rparr>) = Some t \<and>
     uart_out t = report_text 1372000 2000"
proof -
  let ?s = "dhry_start\<lparr>t_begin_cycles := 0xFFFFFFFF, t_end_cycles := 1371999\<rparr>"
  have "tx_live (const_hw (\<lambda>_. 1)) (dev ?s)" by (rule tx_live_const) (simp add: UART_TX_READY_BIT_def)
  moreover have "t_end_cycles ?s - t_begin_cycles ?s = 1372000" by simp
  moreover have "uart_out ?s = []" by (simp add: uart_out_def dhry_start_def)
  ultimately show ?thesis using dhry_report_exact [of "const_hw (\<lambda>_. 1)" ?s 2000] by simp
qed

end
