(* ===== verification/Core_Port.thy ===== *)
theory Core_Port
  imports Console Sys
begin

text \<open>
  \<open>sim/sw/coremark/core_portme.c\<close>: the port of the vendored CoreMark, the build for the board (\<open>COSIM == 0\<close>,
  \<open>PERFORMANCE_RUN\<close>).  The number of iterations is the argument \<open>iters\<close>, as the build sets it; the other
  build constants are the defaults of the Makefile.
\<close>

record 'd cm = "'d mach" +
  start_ticks :: u32
  stop_ticks :: u32
  portable_id :: u8

definition CLK_HZ :: u32 where "CLK_HZ = 50000000"
definition CYCLES_PER_ITER :: u64 where "CYCLES_PER_ITER = 604704"
definition TOTAL_DATA_SIZE :: u32 where "TOTAL_DATA_SIZE = 2000"
definition CM_VERSION :: string where "CM_VERSION = ''CoreMark 1.0''"
definition RUN_NAME :: string where "RUN_NAME = ''performance''"

definition rdcycle :: "'d hw \<Rightarrow> ('d, 'z) m \<Rightarrow> u32 \<times> ('d, 'z) m" where
  "rdcycle hw s = csr_rd hw MCYCLE s"

definition start_time :: "'d hw \<Rightarrow> ('d, 'z) cm_scheme \<Rightarrow> ('d, 'z) cm_scheme" where
  "start_time hw s = (let (v, s) = rdcycle hw s in s\<lparr>start_ticks := v\<rparr>)"

definition stop_time :: "'d hw \<Rightarrow> ('d, 'z) cm_scheme \<Rightarrow> ('d, 'z) cm_scheme" where
  "stop_time hw s = (let (v, s) = rdcycle hw s in s\<lparr>stop_ticks := v\<rparr>)"

definition get_time :: "('d, 'z) cm_scheme \<Rightarrow> u32" where
  "get_time s = stop_ticks s - start_ticks s"

definition time_in_secs :: "u32 \<Rightarrow> u32" where
  "time_in_secs ticks = ticks div CLK_HZ"

definition print_x100 :: "'d hw \<Rightarrow> u32 \<Rightarrow> u32 \<Rightarrow> ('d, 'z) m \<Rightarrow> ('d, 'z) m option" where
  "print_x100 hw whole hundredths s = printf hw ''%u.%02u'' [VWord whole, VWord hundredths] s"

text \<open>The report on a trap; the value is the state in which the handler parks.\<close>

definition trap_report_c :: "'d hw \<Rightarrow> u32 \<Rightarrow> u32 \<Rightarrow> u32 \<Rightarrow> ('d, 'z) m \<Rightarrow> ('d, 'z) m option" where
  "trap_report_c hw mcause mepc mtval s = do {
     s \<leftarrow> printf hw (lf @ ''  *** TRAP  mcause=0x%08x mepc=0x%08x mtval=0x%08x'' @ lf) [VWord mcause, VWord mepc, VWord mtval] s;
     s \<leftarrow> printf hw (''  (4/6 = load/store misaligned, 2 = illegal, 1 = instr access, '' @ ''5/7 = load/store access)'' @ lf) [] s;
     printf hw (''  parked.'' @ lf) [] s }"

definition trap_report :: "'d hw \<Rightarrow> ('d, 'z) m \<Rightarrow> ('d, 'z) m option" where
  "trap_report hw s =
     (let (mcause, s) = csr_rd hw MCAUSE s; (mepc, s) = csr_rd hw MEPC s; (mtval, s) = csr_rd hw MTVAL s
      in trap_report_c hw mcause mepc mtval s)"

text \<open>\<open>handler\<close> is the address of the trap reporter.\<close>

definition portable_init :: "'d hw \<Rightarrow> u32 \<Rightarrow> u32 \<Rightarrow> ('d, 'z) cm_scheme \<Rightarrow> ('d, 'z) cm_scheme option" where
  "portable_init hw handler iters s = do {
     let s = s\<lparr>portable_id := 1\<rparr>;
     let s = csr_op hw CsrWrite MTVEC handler s;
     s \<leftarrow> printf hw lf [] s;
     s \<leftarrow> printf hw (''  YARV32-uC  --  RV32IMAC Zicsr Zifencei'' @ lf) [] s;
     s \<leftarrow> printf hw (''  %s  --  %u-byte %s run'' @ lf) [VStr CM_VERSION, VWord TOTAL_DATA_SIZE, VStr RUN_NAME] s;
     s \<leftarrow> printf hw (''  ------------------------------------------'' @ lf) [] s;
     s \<leftarrow> printf hw (''  Core clock : %u Hz'' @ lf) [VWord CLK_HZ] s;
     s \<leftarrow> printf hw (''  Iterations : %u'' @ lf) [VWord iters] s;
     s \<leftarrow> printf hw (''  Expected   : ~%u s'' @ lf) [VWord (ucast (ucast iters * CYCLES_PER_ITER div ucast CLK_HZ))] s;
     printf hw (lf @ ''  running...'' @ lf @ lf) [] s }"

definition report_port_summary :: "'d hw \<Rightarrow> u32 \<Rightarrow> ('d, 'z) cm_scheme \<Rightarrow> ('d, 'z) cm_scheme option" where
  "report_port_summary hw iters s = do {
     let ticks = get_time s;
     s \<leftarrow> printf hw lf [] s;
     s \<leftarrow> printf hw (''  Ticks (core cycles) : %u'' @ lf) [VWord ticks] s;
     if ticks = 0 \<or> iters = 0 then Some s
     else do {
       let per_iter = ticks div iters;
       s \<leftarrow> printf hw (''  Cycles / iteration  : %u'' @ lf) [VWord per_iter] s;
       s \<leftarrow> printf hw ''  Total time (secs)   : '' [] s;
       s \<leftarrow> print_x100 hw (ticks div CLK_HZ) (ticks mod CLK_HZ div (CLK_HZ div 100)) s;
       s \<leftarrow> printf hw lf [] s;
       s \<leftarrow> (if per_iter \<noteq> 0 then do {
              s \<leftarrow> printf hw ''  Iterations / sec    : '' [] s;
              s \<leftarrow> print_x100 hw (CLK_HZ div per_iter) (CLK_HZ mod per_iter * 100 div per_iter) s;
              s \<leftarrow> printf hw lf [] s;
              let score100 = 100000000 div per_iter;
              s \<leftarrow> printf hw ''  CoreMark / MHz      : '' [] s;
              s \<leftarrow> print_x100 hw (score100 div 100) (score100 mod 100) s;
              printf hw lf [] s }
            else Some s);
       if ticks div CLK_HZ < 10
       then printf hw (''  (short run: not a reportable score -- raise ITERATIONS)'' @ lf) [] s
       else Some s } }"

definition portable_fini :: "'d hw \<Rightarrow> u32 \<Rightarrow> ('d, 'z) cm_scheme \<Rightarrow> ('d, 'z) cm_scheme option" where
  "portable_fini hw iters s = report_port_summary hw iters (s\<lparr>portable_id := 0\<rparr>)"

section \<open>The report\<close>

text \<open>What should be printed, on natural numbers; \<open>r\<close> is the number of iterations in a hundred seconds.\<close>

definition short_note :: string where
  "short_note = ''  (short run: not a reportable score -- raise ITERATIONS)''"

definition rates_text :: "nat \<Rightarrow> nat \<Rightarrow> string" where
  "rates_text p r = line ''  Iterations / sec    : '' (x100 r) @
     line ''  CoreMark / MHz      : '' (x100 (100000000 div p))"

definition report_text :: "nat \<Rightarrow> nat \<Rightarrow> nat \<Rightarrow> string" where
  "report_text ticks iters r =
     line [] [] @ line ''  Ticks (core cycles) : '' (dec ticks) @
     (if ticks = 0 \<or> iters = 0 then []
      else line ''  Cycles / iteration  : '' (dec (ticks div iters)) @
        line ''  Total time (secs)   : '' (x100 (100 * ticks div 50000000)) @
        (if iters \<le> ticks then rates_text (ticks div iters) r else []) @
        (if ticks div 50000000 < 10 then line short_note [] else []))"

lemma cm_tells_hundredths: "unat a = n div 100 \<Longrightarrow> unat b = n mod 100 \<Longrightarrow> tells hw (print_x100 hw a b) (x100 n)"
  unfolding print_x100_def by (rule tells_x100)

text \<open>What the code makes of it: the second term wraps from 42949673 cycles per iteration on.\<close>

definition rate_shown :: "u32 \<Rightarrow> nat" where
  "rate_shown p = 100 * (50000000 div unat p) + unat (CLK_HZ mod p * 100) div unat p"

lemma rate_shown_parts:
  assumes "0 < unat p"
  shows "unat (CLK_HZ div p) = rate_shown p div 100" and "unat (CLK_HZ mod p * 100 div p) = rate_shown p mod 100"
    and "unat p \<le> 42949672 \<Longrightarrow> rate_shown p = 100 * 50000000 div unat p"
proof -
  have small: "unat (CLK_HZ mod p * 100) = 50000000 mod unat p * 100" if "unat p \<le> 42949672"
  proof -
    have "50000000 mod unat p < unat p" using assms by simp
    then have "50000000 mod unat p * 100 < 2 ^ 32" using that by simp
    then show ?thesis by (simp add: unat_word_ariths unat_mod CLK_HZ_def)
  qed
  have "unat (CLK_HZ mod p * 100) div unat p < 100"
  proof (cases "unat p \<le> 42949672")
    case True
    have "50000000 mod unat p * 100 < 100 * unat p" using assms by simp
    then show ?thesis unfolding small [OF True] using assms by (simp add: div_less_iff_less_mult)
  next
    case False
    have "unat (CLK_HZ mod p * 100) < 2 ^ 32" by (rule order_less_le_trans [OF unsigned_less]) simp
    then have "unat (CLK_HZ mod p * 100) < 100 * unat p" using False by simp
    then show ?thesis using assms by (simp add: div_less_iff_less_mult)
  qed
  then show "unat (CLK_HZ div p) = rate_shown p div 100" "unat (CLK_HZ mod p * 100 div p) = rate_shown p mod 100"
    by (simp_all add: rate_shown_def unat_div CLK_HZ_def)
  show "rate_shown p = 100 * 50000000 div unat p" if "unat p \<le> 42949672"
    using scaled_quotient [OF assms, of 50000000] div_mult_mod_eq [of "100 * 50000000 div unat p" 100]
    by (simp only: rate_shown_def small [OF that])
qed

lemma tells_rates:
  assumes "0 < unat p"
  shows "tells hw (\<lambda>s. do {
      s \<leftarrow> printf hw ''  Iterations / sec    : '' [] s;
      s \<leftarrow> print_x100 hw (CLK_HZ div p) (CLK_HZ mod p * 100 div p) s;
      s \<leftarrow> printf hw lf [] s;
      let score100 = 100000000 div p;
      s \<leftarrow> printf hw ''  CoreMark / MHz      : '' [] s;
      s \<leftarrow> print_x100 hw (score100 div 100) (score100 mod 100) s;
      printf hw lf [] s }) (rates_text (unat p) (rate_shown p))"
proof -
  let ?gs = "[printf hw ''  Iterations / sec    : '' [], print_x100 hw (CLK_HZ div p) (CLK_HZ mod p * 100 div p), printf hw lf [],
    printf hw ''  CoreMark / MHz      : '' [], print_x100 hw (100000000 div p div 100) (100000000 div p mod 100), printf hw lf []]"
  have h: "tells hw (print_x100 hw (CLK_HZ div p) (CLK_HZ mod p * 100 div p)) (x100 (rate_shown p))"
    "tells hw (print_x100 hw (100000000 div p div 100) (100000000 div p mod 100)) (x100 (100000000 div unat p))"
    using rate_shown_parts(1,2) [OF assms] by (intro cm_tells_hundredths; simp add: unat_div unat_mod)+
  have t: "rates_text (unat p) (rate_shown p) = concat [''  Iterations / sec    : '', x100 (rate_shown p), line [] [],
      ''  CoreMark / MHz      : '', x100 (100000000 div unat p), line [] []]"
    by (simp add: rates_text_def line_def)
  have e: "(\<lambda>s. do {
      s \<leftarrow> printf hw ''  Iterations / sec    : '' [] s;
      s \<leftarrow> print_x100 hw (CLK_HZ div p) (CLK_HZ mod p * 100 div p) s;
      s \<leftarrow> printf hw lf [] s;
      let score100 = 100000000 div p;
      s \<leftarrow> printf hw ''  CoreMark / MHz      : '' [] s;
      s \<leftarrow> print_x100 hw (score100 div 100) (score100 mod 100) s;
      printf hw lf [] s }) = put_all (\<lambda>g. g) ?gs"
    by (rule ext) (simp add: put_all_fun Let_def del: printf.simps put_all.simps)
  show ?thesis unfolding e t
    by (rule tells_seq, unfold list_all2_Cons list_all2_Nil) (intro conjI refl tells_lf tells_text h, simp_all)
qed

lemma cm_report_core:
  assumes "tx_live hw (dev s)"
  shows "\<exists>t. report_port_summary hw iters s = Some t \<and> tx_live hw (dev t) \<and>
    uart_out t = uart_out s @ report_text (unat (get_time s)) (unat iters) (rate_shown (get_time s div iters))"
proof -
  define ticks where "ticks = get_time s"
  define p where "p = ticks div iters"
  have p: "unat p = unat ticks div unat iters" by (simp add: p_def unat_div)
  let ?head = "[printf hw lf [], printf hw (''  Ticks (core cycles) : '' @ ''%u'' @ lf) [VWord ticks]]"
  let ?head_text = "[line [] [], line ''  Ticks (core cycles) : '' (dec (unat ticks))]"
  have head: "list_all2 (tells hw) ?head ?head_text"
    unfolding list_all2_Cons list_all2_Nil by (intro conjI refl tells_lf tells_count) simp_all
  show ?thesis
  proof (cases "ticks = 0 \<or> iters = 0")
    case True
    have e: "report_port_summary hw iters s = put_all (\<lambda>g. g) ?head s"
      using True by (simp add: report_port_summary_def Let_def ticks_def [symmetric] put_all_fun del: printf.simps put_all.simps)
    have out: "report_text (unat ticks) (unat iters) (rate_shown (ticks div iters)) = concat ?head_text"
      using True by (auto simp: report_text_def unat_eq_zero)
    show ?thesis
      unfolding ticks_def [symmetric] e out by (rule tellsE [OF tells_seq [OF head] assms]) blast
  next
    case False
    let ?rates = "\<lambda>s. do {
      s \<leftarrow> printf hw ''  Iterations / sec    : '' [] s;
      s \<leftarrow> print_x100 hw (CLK_HZ div p) (CLK_HZ mod p * 100 div p) s;
      s \<leftarrow> printf hw lf [] s;
      let score100 = 100000000 div p;
      s \<leftarrow> printf hw ''  CoreMark / MHz      : '' [] s;
      s \<leftarrow> print_x100 hw (score100 div 100) (score100 mod 100) s;
      printf hw lf [] s }"
    let ?tail = "[printf hw (''  Cycles / iteration  : '' @ ''%u'' @ lf) [VWord p], printf hw ''  Total time (secs)   : '' [],
      print_x100 hw (ticks div CLK_HZ) (ticks mod CLK_HZ div (CLK_HZ div 100)), printf hw lf [],
      if p \<noteq> 0 then ?rates else Some,
      if ticks div CLK_HZ < 10 then printf hw (short_note @ lf) [] else Some]"
    let ?tail_text = "[line ''  Cycles / iteration  : '' (dec (unat p)), ''  Total time (secs)   : '',
      x100 (100 * unat ticks div 50000000), line [] [],
      if p \<noteq> 0 then rates_text (unat p) (rate_shown p) else [],
      if ticks div CLK_HZ < 10 then line short_note [] else []]"
    have e: "report_port_summary hw iters s = put_all (\<lambda>g. g) (?head @ ?tail) s"
      using False
      by (simp add: report_port_summary_def Let_def ticks_def [symmetric] p_def [symmetric] put_all_fun short_note_def
          del: printf.simps put_all.simps cong: if_cong)
    have rates: "tells hw (if p \<noteq> 0 then ?rates else Some) (if p \<noteq> 0 then rates_text (unat p) (rate_shown p) else [])"
      by (intro tells_if tells_rates tells_none) (simp_all only: unat_gt_0 simp_thms)
    have remark: "tells hw (if ticks div CLK_HZ < 10 then printf hw (short_note @ lf) [] else Some)
        (if ticks div CLK_HZ < 10 then line short_note [] else [])"
      by (intro tells_if tells_line tells_none) (simp add: short_note_def)
    have time: "unat (ticks div CLK_HZ) = 100 * unat ticks div 50000000 div 100"
      "unat (ticks mod CLK_HZ div (CLK_HZ div 100)) = 100 * unat ticks div 50000000 mod 100"
      using total_time [of ticks] by (simp_all add: CLK_HZ_def)
    have "list_all2 (tells hw) ?tail ?tail_text"
      unfolding list_all2_Cons list_all2_Nil
      by (intro conjI refl tells_lf tells_text tells_count cm_tells_hundredths rates remark time) simp_all
    with head have all: "list_all2 (tells hw) (?head @ ?tail) (?head_text @ ?tail_text)" by (rule list_all2_appendI)
    have out: "report_text (unat ticks) (unat iters) (rate_shown (ticks div iters)) = concat (?head_text @ ?tail_text)"
    proof -
      have "p \<noteq> 0 \<longleftrightarrow> unat iters \<le> unat ticks"
        using p False by (metis div_eq_0_iff not_le unat_eq_zero)
      moreover have "ticks div CLK_HZ < 10 \<longleftrightarrow> unat ticks div 50000000 < 10" by (simp add: word_less_nat_alt unat_div CLK_HZ_def)
      ultimately show ?thesis using False p by (simp add: report_text_def unat_eq_zero line_def p_def [symmetric])
    qed
    show ?thesis
      unfolding ticks_def [symmetric] e out by (rule tellsE [OF tells_seq [OF all] assms]) blast
  qed
qed

text \<open>C40: while the transmitter drains, the report returns for any tick count and iteration count, zero included,
  and prints the lines it should: only the ticks when either is zero, the two rates unless an iteration takes no full
  cycle, the remark exactly for runs below ten seconds.  Every figure is the exact quotient, rounded down to the decimals
  shown, except for the decimals of the iterations per second, which are exact as long as one iteration takes
  at most 42949672 cycles.\<close>

theorem cm_report_exact:
  assumes "tx_live hw (dev s)"
  shows "\<exists>t r. report_port_summary hw iters s = Some t \<and>
    uart_out t = uart_out s @ report_text (unat (get_time s)) (unat iters) r \<and>
    (let p = unat (get_time s) div unat iters in 0 < p \<longrightarrow>
       r div 100 = 50000000 div p \<and> (p \<le> 42949672 \<longrightarrow> r = 100 * 50000000 div p))"
proof -
  obtain t where "report_port_summary hw iters s = Some t"
    "uart_out t = uart_out s @ report_text (unat (get_time s)) (unat iters) (rate_shown (get_time s div iters))"
    using cm_report_core [OF assms] by blast
  then show ?thesis
    using rate_shown_parts(1,3) [of "get_time s div iters"] by (auto simp: unat_div CLK_HZ_def Let_def)
qed

definition cm_run :: "unit cm" where
  "cm_run = \<lparr>dev = (), evs = [], start_ticks = 0xFFFFFF00, stop_ticks = 604447800, portable_id = 1\<rparr>"

theorem cm_report_exact_witness:
  "\<exists>t. report_port_summary (const_hw (\<lambda>_. 1)) 1000 cm_run = Some t \<and>
     uart_out t = line [] [] @ line ''  Ticks (core cycles) : '' (dec 604448056) @ line ''  Cycles / iteration  : '' (dec 604448) @
       line ''  Total time (secs)   : '' (x100 1208) @ line ''  Iterations / sec    : '' (x100 8272) @
       line ''  CoreMark / MHz      : '' (x100 165)"
proof -
  have "tx_live (const_hw (\<lambda>_. 1)) (dev cm_run)" by (rule tx_live_const) (simp add: UART_TX_READY_BIT_def)
  moreover have ticks: "get_time cm_run = 604448056" by (simp add: get_time_def cm_run_def)
  moreover have "uart_out cm_run = []" by (simp add: uart_out_def cm_run_def)
  moreover have "report_text 604448056 1000 8272 = line [] [] @ line ''  Ticks (core cycles) : '' (dec 604448056) @
      line ''  Cycles / iteration  : '' (dec 604448) @
      line ''  Total time (secs)   : '' (x100 1208) @ line ''  Iterations / sec    : '' (x100 8272) @
      line ''  CoreMark / MHz      : '' (x100 165)"
    by (simp add: report_text_def rates_text_def)
  ultimately show ?thesis using cm_report_exact [of "const_hw (\<lambda>_. 1)" cm_run 1000] by (auto simp: Let_def)
qed

text \<open>Above that bound the scaled remainder overflows: for 60 million cycles per iteration, 0.83 iterations per second,
  the two arguments of the line are 0 and 11.\<close>

lemma cm_rate_overflow: "CLK_HZ div 60000000 = 0" "CLK_HZ mod 60000000 * 100 div 60000000 = 11"
  by (simp_all add: CLK_HZ_def)

end
