(* ===== verification/Tuner_Sim.thy ===== *)
theory Tuner_Sim
  imports Tuner_App Sys
begin

text \<open>
  \<open>sim/sw/guitar_tuner/guitar_tuner.c\<close> built with \<open>TUNER_SIM\<close>: the self-check that drives the same chain
  and the same estimator from a synthetic oscillator.  The decimation rate is a variable there, and the
  chain is entered without the recording of the raw swing.
\<close>

definition TUNER_SRC_RICH :: u32 where "TUNER_SRC_RICH = 0"
definition TUNER_SRC_PURE :: u32 where "TUNER_SRC_PURE = 1"
definition TUNER_SRC_WEAK :: u32 where "TUNER_SRC_WEAK = 2"
definition TUNER_CENTS_TOL :: int where "TUNER_CENTS_TOL = 8"
definition TUNER_ALIAS_IN_CHZ :: u32 where "TUNER_ALIAS_IN_CHZ = 29366"
definition TUNER_ALIAS_OUT_CHZ :: u32 where "TUNER_ALIAS_OUT_CHZ = 170634"
definition TUNER_ALIAS_REJECT :: u32 where "TUNER_ALIAS_REJECT = 8"

record 'd sim = "'d tuner" +
  tuner_decim :: u32
  tuner_cic_shift :: u32
  tuner_sim_phase :: u32
  tuner_sim_inc :: u32
  tuner_sim_src :: u32

text \<open>The statics before \<open>main\<close>.\<close>

definition sim_statics :: "'d \<Rightarrow> 'd sim" where
  "sim_statics d = tuner.extend (tuner_statics d)
     (sim.fields (word_of_nat TUNER_DECIM) (word_of_nat TUNER_CIC_SHIFT) 0 0 0)"

section \<open>The rate of the decimator\<close>

function decim_shift :: "u32 \<Rightarrow> u32 \<Rightarrow> u32" where
  "decim_shift r sh = (if 1 < r then decim_shift (drop_bit 1 r) (sh + 2) else sh)"
  by pat_completeness auto
termination
  by (relation "measure (\<lambda>(r, sh). unat r)") (auto simp: unat_drop_bit_eq drop_bit_eq_div word_less_nat_alt unat_div)

declare decim_shift.simps [simp del]

definition tuner_set_decim :: "u32 \<Rightarrow> ('d, 'z) sim_scheme \<Rightarrow> ('d, 'z) sim_scheme" where
  "tuner_set_decim r s = s\<lparr>tuner_decim := r, tuner_cic_shift := decim_shift r 0\<rparr>"

section \<open>The oscillator\<close>

definition tuner_sinq :: "int list" where
  "tuner_sinq =
    [0, 201, 402, 603, 804, 1005, 1206, 1407, 1608, 1809, 2009, 2210, 2410, 2611, 2811, 3012,
     3212, 3412, 3612, 3811, 4011, 4210, 4410, 4609, 4808, 5007, 5205, 5404, 5602, 5800, 5998, 6195,
     6393, 6590, 6786, 6983, 7179, 7375, 7571, 7767, 7962, 8157, 8351, 8545, 8739, 8933, 9126, 9319,
     9512, 9704, 9896, 10087, 10278, 10469, 10659, 10849, 11039, 11228, 11417, 11605, 11793, 11980, 12167, 12353,
     12539, 12725, 12910, 13094, 13279, 13462, 13645, 13828, 14010, 14191, 14372, 14553, 14732, 14912, 15090, 15269,
     15446, 15623, 15800, 15976, 16151, 16325, 16499, 16673, 16846, 17018, 17189, 17360, 17530, 17700, 17869, 18037,
     18204, 18371, 18537, 18703, 18868, 19032, 19195, 19357, 19519, 19680, 19841, 20000, 20159, 20317, 20475, 20631,
     20787, 20942, 21096, 21250, 21403, 21554, 21705, 21856, 22005, 22154, 22301, 22448, 22594, 22739, 22884, 23027,
     23170, 23311, 23452, 23592, 23731, 23870, 24007, 24143, 24279, 24413, 24547, 24680, 24811, 24942, 25072, 25201,
     25329, 25456, 25582, 25708, 25832, 25955, 26077, 26198, 26319, 26438, 26556, 26674, 26790, 26905, 27019, 27133,
     27245, 27356, 27466, 27575, 27683, 27790, 27896, 28001, 28105, 28208, 28310, 28411, 28510, 28609, 28706, 28803,
     28898, 28992, 29085, 29177, 29268, 29358, 29447, 29534, 29621, 29706, 29791, 29874, 29956, 30037, 30117, 30195,
     30273, 30349, 30424, 30498, 30571, 30643, 30714, 30783, 30852, 30919, 30985, 31050, 31113, 31176, 31237, 31297,
     31356, 31414, 31470, 31526, 31580, 31633, 31685, 31736, 31785, 31833, 31880, 31926, 31971, 32014, 32057, 32098,
     32137, 32176, 32213, 32250, 32285, 32318, 32351, 32382, 32412, 32441, 32469, 32495, 32521, 32545, 32567, 32589,
     32609, 32628, 32646, 32663, 32678, 32692, 32705, 32717, 32728, 32737, 32745, 32752, 32757, 32761, 32765, 32766,
     32767]"

definition tuner_sim_set :: "u32 \<Rightarrow> u32 \<Rightarrow> u32 \<Rightarrow> ('d, 'z) sim_scheme \<Rightarrow> ('d, 'z) sim_scheme" where
  "tuner_sim_set f decim src s =
     s\<lparr>tuner_sim_phase := 0, tuner_sim_src := src,
       tuner_sim_inc := (if decim = 1 then f * 21990 + (f * 233) div 1000 else f * 2748 + (f * 779) div 1000)\<rparr>"

definition tuner_sin :: "u32 \<Rightarrow> int" where
  "tuner_sin ph =
     (let idx = drop_bit 22 ph AND 0x3FF;
          frac = drop_bit 6 ph AND 0xFFFF;
          quad = drop_bit 8 idx;
          i = unat (idx AND 0xFF);
          (a, b) = (if quad AND 1 \<noteq> 0 then (tuner_sinq ! (256 - i), tuner_sinq ! (255 - i))
                    else (tuner_sinq ! i, tuner_sinq ! (i + 1)));
          v = a + ((b - a) * uint frac) div 2 ^ 16
      in if quad AND 2 \<noteq> 0 then - v else v)"

definition source :: "u32 \<Rightarrow> u32 \<Rightarrow> int" where
  "source src ph =
     (if src = TUNER_SRC_PURE then tuner_sin ph div 2 ^ 1
      else if src = TUNER_SRC_WEAK then tuner_sin ph div 2 ^ 4 + tuner_sin (ph * 2) div 2 ^ 1
      else tuner_sin ph div 2 ^ 2 + tuner_sin (ph * 2) div 2 ^ 2 + tuner_sin (ph * 3) div 2 ^ 1)"

definition tuner_mic_sample :: "('d, 'z) sim_scheme \<Rightarrow> int \<times> ('d, 'z) sim_scheme" where
  "tuner_mic_sample s =
     (source (tuner_sim_src s) (tuner_sim_phase s), s\<lparr>tuner_sim_phase := tuner_sim_phase s + tuner_sim_inc s\<rparr>)"

text \<open>One sample through the chain at the rate in force, and the pump that asks for \<open>n\<close> of them.\<close>

definition push_sample :: "('d, 'z) sim_scheme \<Rightarrow> ('d, 'z) sim_scheme" where
  "push_sample s =
     (let (x, s) = tuner_mic_sample s
      in s\<lparr>inp := push_chain (unat (tuner_decim s)) (unat (tuner_cic_shift s)) x (inp s)\<rparr>)"

partial_function (option) sim_pump_loop :: "u32 \<Rightarrow> ('d, 'z) sim_scheme \<Rightarrow> ('d, 'z) sim_scheme option" where
  "sim_pump_loop target s =
     (if tuner_ring_count (inp s) < target then sim_pump_loop target (push_sample s) else Some s)"

definition sim_pump :: "u32 \<Rightarrow> ('d, 'z) sim_scheme \<Rightarrow> ('d, 'z) sim_scheme option" where
  "sim_pump n s = sim_pump_loop (tuner_ring_count (inp s) + n) s"

declare sim_pump_loop.simps [code]

section \<open>A frame and its report\<close>

definition sim_report :: "'d hw \<Rightarrow> tuner_result \<Rightarrow> bool \<Rightarrow> ('d, 'z) m \<Rightarrow> ('d, 'z) m option" where
  "sim_report hw r h s = do {
     s \<leftarrow> (if h then uart_puts hw ''(held) '' s else Some s);
     if \<not> valid r then do {
       s \<leftarrow> uart_puts hw ''-- no signal (peak '' s;
       s \<leftarrow> tuner_put_uint (uart_putc hw) (peak r) s;
       uart_puts hw ('')'' @ crlf) s }
     else do {
       s \<leftarrow> uart_puts hw (snd (tuner_notes ! note_ix r)) s;
       s \<leftarrow> uart_puts hw ''  '' s;
       s \<leftarrow> tuner_put_chz (uart_putc hw) (unat (f_cHz r)) s;
       s \<leftarrow> uart_puts hw '' Hz  '' s;
       s \<leftarrow> (if cents r \<ge> 0 then uart_putc hw (CHR ''+'') s else Some s);
       s \<leftarrow> tuner_put_int (uart_putc hw) (cents r) s;
       s \<leftarrow> uart_puts hw '' cents  peak '' s;
       s \<leftarrow> tuner_put_uint (uart_putc hw) (peak r) s;
       uart_puts hw crlf s } }"

text \<open>The reading of a frame is \<^const>\<open>None\<close> when the engine never finished.\<close>

definition tuner_run_frame ::
  "'d hw \<Rightarrow> u32 \<Rightarrow> u32 \<Rightarrow> ('d, 'z) sim_scheme \<Rightarrow> (tuner_result option \<times> ('d, 'z) sim_scheme) option" where
  "tuner_run_frame hw f src s = do {
     s \<leftarrow> sim_pump (word_of_nat TUNER_N) (tuner_sim_set f (tuner_decim s) src s);
     let (ok, s) = fft_wait hw (fft_start hw (tuner_fill_fft hw s));
     if \<not> ok then do { s \<leftarrow> uart_puts hw (''FFT never finished'' @ crlf) s; Some (None, s) }
     else let (r, s) = tuner_analyse hw (fft_swap hw s) in Some (Some r, s) }"

section \<open>The anti-aliasing check\<close>

definition peak_ratio :: "tuner_result \<Rightarrow> tuner_result \<Rightarrow> nat" where
  "peak_ratio a b = peak a div (if peak b \<noteq> 0 then peak b else 1)"

text \<open>The verdict on the two readings: what it prints and how many checks failed.\<close>

definition alias_passband :: "'d hw \<Rightarrow> tuner_result \<Rightarrow> ('d, 'z) m \<Rightarrow> (u32 \<times> ('d, 'z) m) option" where
  "alias_passband hw a s =
     (if \<not> valid a then do {
        s \<leftarrow> uart_puts hw (''   ^ decimator killed the passband'' @ crlf) s; Some (1, s) }
      else Some (0, s))"

definition alias_ratio :: "'d hw \<Rightarrow> tuner_result \<Rightarrow> tuner_result \<Rightarrow> ('d, 'z) m \<Rightarrow> (u32 \<times> ('d, 'z) m) option" where
  "alias_ratio hw a b s =
     (if word_of_nat (peak b) * TUNER_ALIAS_REJECT > word_of_nat (peak a) then do {
        s \<leftarrow> uart_puts hw ''   ^ alias rejection only '' s;
        s \<leftarrow> tuner_put_uint (uart_putc hw) (peak_ratio a b) s;
        s \<leftarrow> uart_puts hw (''x'' @ crlf) s;
        Some (1, s) }
      else do {
        s \<leftarrow> uart_puts hw ''alias rejection '' s;
        s \<leftarrow> tuner_put_uint (uart_putc hw) (peak_ratio a b) s;
        s \<leftarrow> uart_puts hw (''x'' @ crlf) s;
        Some (0, s) })"

text \<open>The two early returns leave the rate at that of the input.\<close>

definition tuner_check_alias :: "'d hw \<Rightarrow> ('d, 'z) sim_scheme \<Rightarrow> (u32 \<times> ('d, 'z) sim_scheme) option" where
  "tuner_check_alias hw s = do {
     (a, s) \<leftarrow> tuner_run_frame hw TUNER_ALIAS_IN_CHZ TUNER_SRC_PURE (tuner_set_decim (word_of_nat TUNER_DECIM) s);
     case a of None \<Rightarrow> Some (1, s)
     | Some a \<Rightarrow> do {
         s \<leftarrow> uart_puts hw ''in-band   '' s;
         s \<leftarrow> sim_report hw a False s;
         (b, s) \<leftarrow> tuner_run_frame hw TUNER_ALIAS_OUT_CHZ TUNER_SRC_PURE s;
         case b of None \<Rightarrow> Some (1, s)
         | Some b \<Rightarrow> do {
             s \<leftarrow> uart_puts hw ''aliasing  '' s;
             s \<leftarrow> sim_report hw b False s;
             (x, s) \<leftarrow> alias_passband hw a s;
             (y, s) \<leftarrow> alias_ratio hw a b s;
             Some (x + y, tuner_set_decim 1 s) } } }"

section \<open>The I2S front end\<close>

definition uint_out :: "'d hw \<Rightarrow> u32 \<Rightarrow> ('d, 'z) m \<Rightarrow> ('d, 'z) m option" where
  "uint_out hw v s = tuner_put_uint (uart_putc hw) (unat v) s"

text \<open>What \<open>if (bad) { uart_puts(msg); fails++; }\<close> does.\<close>

definition flag :: "'d hw \<Rightarrow> bool \<Rightarrow> string \<Rightarrow> ('d, 'z) m \<Rightarrow> (u32 \<times> ('d, 'z) m) option" where
  "flag hw bad msg s = (if bad then do { s \<leftarrow> uart_puts hw msg s; Some (1, s) } else Some (0, s))"

text \<open>The four words after the first: the first wrong one ends the loop.\<close>

fun mic_stream :: "'d hw \<Rightarrow> nat \<Rightarrow> u32 \<Rightarrow> ('d, 'z) m \<Rightarrow> (u32 \<times> ('d, 'z) m) option" where
  "mic_stream hw 0 before s = Some (0, s)"
| "mic_stream hw (Suc n) before s = do {
     ((ch, w), s) \<leftarrow> i2s_read_wait hw s;
     if ch \<noteq> I2S_CH_LEFT then flag hw True (''   ^ word came back on the wrong channel'' @ crlf) s
     else if w \<noteq> before + 16 then flag hw True (''   ^ mic stream lost a frame'' @ crlf) s
     else mic_stream hw n w s }"

definition check_rate :: "'d hw \<Rightarrow> ('d, 'z) m \<Rightarrow> (u32 \<times> ('d, 'z) m) option" where
  "check_rate hw s =
     (let (r, s) = i2s_master_hz hw TUNER_FS_IN_HZ TUNER_I2S_SLOT s
      in case r of
           None \<Rightarrow> None
         | Some fs \<Rightarrow> do {
             s \<leftarrow> uart_puts hw ''I2S master fs '' s;
             s \<leftarrow> uint_out hw fs s;
             s \<leftarrow> uart_puts hw ('' Hz'' @ crlf) s;
             flag hw (fs \<noteq> TUNER_FS_IN_HZ) (''   ^ rate is not the one the constants assume'' @ crlf) s })"

definition bad_period :: "u32 \<Rightarrow> bool" where
  "bad_period dt =
     (let want = TUNER_CORE_HZ div TUNER_FS_IN_HZ
      in dt < want - want div 16 \<or> dt > want + want div 16)"

definition check_stream :: "'d hw \<Rightarrow> ('d, 'z) m \<Rightarrow> (u32 \<times> ('d, 'z) m) option" where
  "check_stream hw s = do {
     s \<leftarrow> i2s_flush hw (i2s_begin hw I2S_WLEN_24 I2S_CHAN_LEFT I2S_FMT_I2S s);
     ((ch, before), s) \<leftarrow> i2s_read_wait hw s;
     let (t0, s) = sys_cycle hw s;
     (x, s) \<leftarrow> mic_stream hw 4 before s;
     let (t1, s) = sys_cycle hw s;
     s \<leftarrow> uart_puts hw ''frame period '' s;
     s \<leftarrow> uint_out hw ((t1 - t0) div 4) s;
     s \<leftarrow> uart_puts hw ('' cycles'' @ crlf) s;
     (y, s) \<leftarrow> flag hw (bad_period ((t1 - t0) div 4)) (''   ^ not the designed frame period'' @ crlf) s;
     Some (x + y, s) }"

text \<open>A piece of code between two readings of the cycle counter.\<close>

definition timed :: "'d hw \<Rightarrow> (('d, 'z) m \<Rightarrow> ('d, 'z) m) \<Rightarrow> ('d, 'z) m \<Rightarrow> u32 \<times> ('d, 'z) m" where
  "timed hw f s =
     (let (t0, s) = sys_cycle hw s; (t1, s) = sys_cycle hw (f s) in (t1 - t0, s))"

definition hop_budget :: u32 where
  "hop_budget = word_of_nat TUNER_HOP * (TUNER_CORE_HZ * word_of_nat TUNER_DECIM div TUNER_FS_IN_HZ)"

definition check_hop_cost :: "'d hw \<Rightarrow> ('d, 'z) sim_scheme \<Rightarrow> (u32 \<times> ('d, 'z) sim_scheme) option" where
  "check_hop_cost hw s =
     (let (fill, s) = timed hw (tuner_fill_fft hw) s;
          (read, s) = timed hw (tuner_read_spectrum hw) s
      in do {
        s \<leftarrow> uart_puts hw ''hop cost '' s;
        s \<leftarrow> uint_out hw (fill + read) s;
        s \<leftarrow> uart_puts hw '' cycles (fill '' s;
        s \<leftarrow> uint_out hw fill s;
        s \<leftarrow> uart_puts hw '' + read '' s;
        s \<leftarrow> uint_out hw read s;
        s \<leftarrow> uart_puts hw ''), budget '' s;
        s \<leftarrow> uint_out hw hop_budget s;
        s \<leftarrow> uart_puts hw crlf s;
        flag hw (fill + read > hop_budget div 4) (''   ^ MMIO cost is a quarter of the hop'' @ crlf) s })"

text \<open>
  The ring seen as 256 words in the last measurement: the word \<open>i\<close> stored at \<open>dmem[i]\<close> is the two samples
  \<open>i\<close> and 0, the low half first.
\<close>

definition dmem_put :: "nat \<Rightarrow> ('d, 'z) sim_scheme \<Rightarrow> ('d, 'z) sim_scheme" where
  "dmem_put i s = s\<lparr>inp := (inp s)\<lparr>tuner_ring := (tuner_ring (inp s))[2 * i := int i, 2 * i + 1 := 0]\<rparr>\<rparr>"

definition access_cost :: "'d hw \<Rightarrow> ('d, 'z) sim_scheme \<Rightarrow> ('d, 'z) sim_scheme option" where
  "access_cost hw s =
     (let (st_p, s) = timed hw (fold (\<lambda>i. wr hw (Fft (FFT_DATA i)) (word_of_nat i)) [0..<256]) s;
          (ld_p, s) = timed hw (fold (\<lambda>i s. snd (rd hw (Fft (FFT_DATA i)) s)) [0..<256]) s;
          (st_d, s) = timed hw (fold dmem_put [0..<256]) s;
          (ld_d, s) = timed hw id s
      in do {
        s \<leftarrow> uart_puts hw ''256 accesses: peri store '' s;
        s \<leftarrow> uint_out hw st_p s;
        s \<leftarrow> uart_puts hw '', peri load '' s;
        s \<leftarrow> uint_out hw ld_p s;
        s \<leftarrow> uart_puts hw '', dmem store '' s;
        s \<leftarrow> uint_out hw st_d s;
        s \<leftarrow> uart_puts hw '', dmem load '' s;
        s \<leftarrow> uint_out hw ld_d s;
        uart_puts hw ('' cycles'' @ crlf) s })"

definition tuner_check_i2s :: "'d hw \<Rightarrow> ('d, 'z) sim_scheme \<Rightarrow> (u32 \<times> ('d, 'z) sim_scheme) option" where
  "tuner_check_i2s hw s = do {
     (x, s) \<leftarrow> check_rate hw s;
     (y, s) \<leftarrow> check_stream hw s;
     (z, s) \<leftarrow> check_hop_cost hw s;
     s \<leftarrow> access_cost hw s;
     Some (x + y + z, i2s_master_off hw (i2s_end hw s)) }"

section \<open>The self-check\<close>

definition tuner_cases :: "(u32 \<times> nat \<times> int) list" where
  "tuner_cases = [(8241, 2, 0), (8146, 2, - 20), (11000, 7, 0), (14854, 12, 20), (19600, 17, 0), (24552, 21, - 10),
     (32963, 26, 0), (33539, 26, 30), (38415, 29, - 35)]"

text \<open>One pitch case on a reading: the failures it adds, and the worst error so far.\<close>

definition judge_case ::
  "'d hw \<Rightarrow> nat \<Rightarrow> int \<Rightarrow> tuner_result \<Rightarrow> u32 \<Rightarrow> ('d, 'z) m \<Rightarrow> ((u32 \<times> u32) \<times> ('d, 'z) m) option" where
  "judge_case hw want cts r worst s =
     (if \<not> valid r \<or> note_ix r \<noteq> want then do {
        s \<leftarrow> uart_puts hw ''   ^ wrong note, wanted '' s;
        s \<leftarrow> uart_puts hw (snd (tuner_notes ! want)) s;
        s \<leftarrow> uart_puts hw crlf s;
        Some ((1, worst), s) }
      else let err = (if cents r - cts < 0 then - (cents r - cts) else cents r - cts);
               worst = (if word_of_int err > worst then word_of_int err else worst)
           in if err > TUNER_CENTS_TOL then do {
                s \<leftarrow> uart_puts hw ''   ^ cents error '' s;
                s \<leftarrow> uint_out hw (word_of_int err) s;
                s \<leftarrow> uart_puts hw crlf s;
                Some ((1, worst), s) }
              else Some ((0, worst), s))"

fun run_cases ::
  "'d hw \<Rightarrow> (u32 \<times> nat \<times> int) list \<Rightarrow> u32 \<Rightarrow> u32 \<Rightarrow> ('d, 'z) sim_scheme \<Rightarrow> ((u32 \<times> u32) \<times> ('d, 'z) sim_scheme) option" where
  "run_cases hw [] fails worst s = Some ((fails, worst), s)"
| "run_cases hw ((f, want, cts) # cs) fails worst s = do {
     (r, s) \<leftarrow> tuner_run_frame hw f TUNER_SRC_RICH s;
     case r of
       None \<Rightarrow> Some ((fails + 1, worst), s)
     | Some r \<Rightarrow> do {
         s \<leftarrow> sim_report hw r False s;
         ((n, worst), s) \<leftarrow> judge_case hw want cts r worst s;
         run_cases hw cs (fails + n) worst s } }"

definition silence_case :: "'d hw \<Rightarrow> ('d, 'z) sim_scheme \<Rightarrow> (u32 \<times> ('d, 'z) sim_scheme) option" where
  "silence_case hw s = do {
     (r, s) \<leftarrow> tuner_run_frame hw 0 TUNER_SRC_RICH s;
     case r of
       None \<Rightarrow> Some (1, s)
     | Some r \<Rightarrow> do {
         s \<leftarrow> sim_report hw r False s;
         flag hw (valid r) (''   ^ silence reported as a pitch'' @ crlf) s } }"

fun weak_cases :: "'d hw \<Rightarrow> (u32 \<times> nat) list \<Rightarrow> u32 \<Rightarrow> ('d, 'z) sim_scheme \<Rightarrow> (u32 \<times> ('d, 'z) sim_scheme) option" where
  "weak_cases hw [] fails s = Some (fails, s)"
| "weak_cases hw ((f, want) # cs) fails s = do {
     (r, s) \<leftarrow> tuner_run_frame hw f TUNER_SRC_WEAK s;
     case r of
       None \<Rightarrow> Some (fails + 1, s)
     | Some r \<Rightarrow> do {
         s \<leftarrow> uart_puts hw ''weak fund '' s;
         s \<leftarrow> sim_report hw r False s;
         (n, s) \<leftarrow> flag hw (\<not> valid r \<or> note_ix r \<noteq> want) (''   ^ reported the octave, not the fundamental'' @ crlf) s;
         weak_cases hw cs (fails + n) s } }"

text \<open>\<open>main\<close> up to the loop in which it parks; the verdict goes to the word the harness looks at.\<close>

definition sim_main :: "'d hw \<Rightarrow> ('d, 'z) sim_scheme \<Rightarrow> ('d, 'z) sim_scheme option" where
  "sim_main hw s = do {
     s \<leftarrow> uart_puts hw (crlf @ ''guitar tuner self-check'' @ crlf) s;
     let (pts, s) = fft_begin hw TUNER_LOG2N s;
     (fails, s) \<leftarrow> tuner_check_i2s hw s;
     ((fails, worst), s) \<leftarrow> run_cases hw tuner_cases fails 0 (tuner_set_decim 1 s);
     (n, s) \<leftarrow> silence_case hw s;
     (fails, s) \<leftarrow> weak_cases hw [(8241, 2), (19600, 17)] (fails + n) s;
     (n, s) \<leftarrow> tuner_check_alias hw s;
     s \<leftarrow> uart_puts hw ''worst cents error '' s;
     s \<leftarrow> uint_out hw worst s;
     s \<leftarrow> uart_puts hw '', failures '' s;
     s \<leftarrow> uint_out hw (fails + n) s;
     s \<leftarrow> uart_puts hw crlf s;
     Some (wr hw (Dmem 0x3000) (if fails + n \<noteq> 0 then 0xBAD else 0x600D) s) }"

section \<open>The gain of the filter is undone\<close>

lemma unat_pow2: "k < 32 \<Longrightarrow> unat (2 ^ k :: u32) = 2 ^ k"
proof -
  assume "k < 32"
  then have "(2 :: nat) ^ k < 2 ^ 32" by (intro power_strict_increasing) simp_all
  then have "unat (word_of_nat (2 ^ k) :: u32) = 2 ^ k" by (simp only: unat_of_nat) simp
  then show ?thesis by simp
qed

lemma decim_shift_pow2: "k < 32 \<Longrightarrow> decim_shift (2 ^ k) sh = sh + 2 * of_nat k"
proof (induction k arbitrary: sh)
  case 0
  show ?case by (simp add: decim_shift.simps)
next
  case (Suc k)
  have p: "unat (2 ^ Suc k :: u32) = 2 ^ Suc k" using Suc.prems by (rule unat_pow2)
  have "1 < (2 :: nat) ^ Suc k" by (rule one_less_power) simp_all
  with p have lt: "1 < (2 ^ Suc k :: u32)" by (simp only: word_less_nat_alt unat_1)
  have "drop_bit 1 (2 ^ Suc k :: u32) = 2 ^ k"
    using p Suc.prems by (simp add: drop_bit_eq_div word_unat_eq_iff unat_div unat_pow2)
  then show ?case using lt Suc by (subst decim_shift.simps) (simp add: algebra_simps)
qed

lemma tent_between:
  assumes x: "\<And>i. l \<le> x i \<and> x i \<le> h"
  shows "int (R * R) * l \<le> tent R x (Suc k)" and "tent R x (Suc k) \<le> int (R * R) * h"
proof -
  have d: "l \<le> delayed R x (Suc k * R + 1 + j + i) \<and> delayed R x (Suc k * R + 1 + j + i) \<le> h" for j i
    using x by (simp add: delayed_def)
  show "int (R * R) * l \<le> tent R x (Suc k)" "tent R x (Suc k) \<le> int (R * R) * h"
    unfolding tent_def using double_sum_bounds [where R = R and f = "\<lambda>j i. delayed R x (Suc k * R + 1 + j + i)", OF d] by blast+
qed

lemma between_div:
  fixes a g l h :: int
  assumes "0 < g" and "g * l \<le> a" and "a \<le> g * h"
  shows "l \<le> a div g \<and> a div g \<le> h"
proof -
  have "(g * l) div g \<le> a div g" "a div g \<le> (g * h) div g"
    by (rule zdiv_mono1 [OF assms(2,1)], rule zdiv_mono1 [OF assms(3,1)])
  then show ?thesis using assms(1) by simp
qed

text \<open>C31: \<open>tuner_set_decim\<close> keeps rate and shift together.  Whatever power of two up to 256 the rate is set to (beyond,
  16-bit samples no longer fit the 32-bit integrators), the
  filter neither amplifies nor attenuates: from its second output on, each output lies between the bounds of the
  input, so that a constant comes out as itself.\<close>

theorem tuner_set_decim_unity:
  assumes "k \<le> 8" and "\<And>i. l \<le> x i \<and> x i \<le> h" and "-32768 \<le> l" and "h \<le> 32767" and "2 * 2 ^ k \<le> n"
  shows "let t = tuner_set_decim (2 ^ k) s;
             c = fold (push_chain (unat (tuner_decim t)) (unat (tuner_cic_shift t))) (map x [0..<n]) tuner_in_init
         in l \<le> tuner_dc_x1 c \<and> tuner_dc_x1 c \<le> h"
proof -
  let ?R = "2 ^ k :: nat"
  have k32: "k < 32" using assms(1) by simp
  have R: "unat (2 ^ k :: u32) = ?R" using k32 by (rule unat_pow2)
  have "decim_shift (2 ^ k) 0 = of_nat (2 * k)" using decim_shift_pow2 [OF k32, of 0] by simp
  then have sh: "unat (decim_shift (2 ^ k) 0) = 2 * k" using k32 by (simp only: unat_of_nat) simp
  obtain j where j: "n div ?R = Suc (Suc j)"
  proof -
    have "2 * ?R div ?R \<le> n div ?R" by (rule div_le_mono) (use assms(5) in simp)
    then have "2 \<le> n div ?R" by simp
    then show thesis using that by (metis Suc_le_D numeral_2_eq_2 Suc_le_mono)
  qed
  have le: "?R \<le> 2 ^ 8" using assms(1) by (intro power_increasing) simp_all
  have rr: "?R * ?R \<le> 2 ^ 16" using mult_le_mono [OF le le] by simp
  have sq: "int (?R * ?R) = 2 ^ (2 * k)" by (simp add: power_add [symmetric] mult_2)
  have b1: "- (2 ^ 31) \<le> int (?R * ?R) * (- 32768)" "int (?R * ?R) * 32767 < 2 ^ 31"
    using rr by (simp_all flip: of_nat_mult)
  have "- 32768 \<le> x i \<and> x i \<le> 32767" for i using assms(2) [of i] assms(3,4) by linarith
  then have "cic_out x ?R (2 * k) (Suc (Suc j)) = tent ?R x (Suc j) div 2 ^ (2 * k)"
    by (intro cic_out_tent [where lo = "- 32768" and hi = 32767] b1) simp_all
  moreover have "l \<le> tent ?R x (Suc j) div 2 ^ (2 * k) \<and> tent ?R x (Suc j) div 2 ^ (2 * k) \<le> h"
    using tent_between [where R = ?R and x = x, OF assms(2)] unfolding sq by (intro between_div) simp_all
  moreover have "filter_state x ?R (2 * k) n (fold (push_chain ?R (2 * k)) (map x [0..<n]) tuner_in_init)"
    by (rule filter_state_stream) simp
  ultimately show ?thesis by (simp add: tuner_set_decim_def filter_state_def R sh j Let_def)
qed

theorem tuner_set_decim_unity_witness:
  "let t = tuner_set_decim 4 (undefined :: unit sim);
       c = fold (push_chain (unat (tuner_decim t)) (unat (tuner_cic_shift t))) (map (\<lambda>_. -77) [0..<9]) tuner_in_init
   in tuner_dc_x1 c = -77"
proof -
  let ?t = "tuner_set_decim 4 (undefined :: unit sim)"
  let ?c = "fold (push_chain (unat (tuner_decim ?t)) (unat (tuner_cic_shift ?t))) (map (\<lambda>_. -77) [0..<9]) tuner_in_init"
  have "-77 \<le> tuner_dc_x1 ?c \<and> tuner_dc_x1 ?c \<le> -77"
    using tuner_set_decim_unity [of 2 "-77" "\<lambda>_. -77" "-77" 9 "undefined :: unit sim"] by (simp add: Let_def)
  then show ?thesis unfolding Let_def by (elim conjE) linarith
qed

text \<open>A rate that is not a power of two is scaled wrongly: three gives gain 9 against a shift of two.\<close>

lemma set_decim_three:
  "let t = tuner_set_decim 3 (undefined :: unit sim);
       c = fold (push_chain (unat (tuner_decim t)) (unat (tuner_cic_shift t))) (replicate 6 1000) tuner_in_init
   in tuner_dc_x1 c = 2250"
proof -
  have "decim_shift 3 0 = 2" by (subst decim_shift.simps, subst decim_shift.simps) (simp add: drop_bit_eq_div)
  moreover have "tuner_dc_x1 (fold (push_chain 3 2) (replicate 6 1000) tuner_in_init) = 2250"
    by (simp add: numeral_eq_Suc push_chain_def integrate_def comb_def dc_block_def ring_put_def tuner_in_init_def Let_def)
  ultimately show ?thesis by (simp add: tuner_set_decim_def Let_def)
qed

section \<open>The oscillator\<close>

lemma sinq_facts:
  "length tuner_sinq = 257" "sorted tuner_sinq" "tuner_sinq ! 0 = 0" "tuner_sinq ! 256 = 32767"
proof -
  show "length tuner_sinq = 257" "tuner_sinq ! 0 = 0" "tuner_sinq ! 256 = 32767" by (simp_all add: tuner_sinq_def)
  show "sorted tuner_sinq" unfolding tuner_sinq_def by (simp only: sorted2 sorted1) simp
qed

lemma sinq_mono: "i \<le> j \<Longrightarrow> j \<le> 256 \<Longrightarrow> tuner_sinq ! i \<le> tuner_sinq ! j"
  using sinq_facts(1,2) by (simp add: sorted_iff_nth_mono)

lemma sinq_range: "i \<le> 256 \<Longrightarrow> 0 \<le> tuner_sinq ! i \<and> tuner_sinq ! i \<le> 32767"
  using sinq_mono [of 0 i] sinq_mono [of i 256] sinq_facts(3,4) by simp

text \<open>A point on the way from \<open>a\<close> to \<open>b\<close> lies between them.\<close>

definition blend :: "int \<Rightarrow> int \<Rightarrow> int \<Rightarrow> int" where
  "blend a b f = a + ((b - a) * f) div 2 ^ 16"

lemma blend_between:
  assumes "0 \<le> f" and "f < 2 ^ 16"
  shows "min a b \<le> blend a b f \<and> blend a b f \<le> max a b"
proof (cases "a \<le> b")
  case True
  then have "(b - a) * f \<le> (b - a) * 2 ^ 16" using assms by (intro mult_left_mono) simp_all
  then have "(b - a) * f div 2 ^ 16 \<le> (b - a) * 2 ^ 16 div 2 ^ 16" by (rule zdiv_mono1) simp
  moreover have "0 \<le> (b - a) * f div 2 ^ 16" using True assms by (simp add: pos_imp_zdiv_nonneg_iff)
  ultimately show ?thesis using True by (simp add: blend_def)
next
  case False
  then have "(b - a) * 2 ^ 16 \<le> (b - a) * f" using assms by (intro mult_left_mono_neg) simp_all
  then have "(b - a) * 2 ^ 16 div 2 ^ 16 \<le> (b - a) * f div 2 ^ 16" by (rule zdiv_mono1) simp
  moreover have "(b - a) * f div 2 ^ 16 \<le> 0"
  proof -
    have "(b - a) * f \<le> 0" using False assms by (intro mult_nonpos_nonneg) simp_all
    then have "(b - a) * f div 2 ^ 16 \<le> 0 div 2 ^ 16" by (rule zdiv_mono1) simp
    then show ?thesis by simp
  qed
  ultimately show ?thesis using False by (simp add: blend_def)
qed

text \<open>The sine on the phase as a number: the quarter wave, and which quarter.\<close>

definition quarter :: "nat \<Rightarrow> int" where
  "quarter u =
     (let i = u div 2 ^ 22 mod 256; f = int (u div 2 ^ 6 mod 2 ^ 16)
      in if odd (u div 2 ^ 30) then blend (tuner_sinq ! (256 - i)) (tuner_sinq ! (255 - i)) f
         else blend (tuner_sinq ! i) (tuner_sinq ! (i + 1)) f)"

lemma sin_fields:
  fixes p :: u32
  shows "unat (drop_bit 6 p AND 0xFFFF) = unat p div 2 ^ 6 mod 2 ^ 16"
    and "uint (drop_bit 6 p AND 0xFFFF) = int (unat p div 2 ^ 6 mod 2 ^ 16)"
    and "unat ((drop_bit 22 p AND 0x3FF) AND 0xFF) = unat p div 2 ^ 22 mod 256"
    and "drop_bit 8 (drop_bit 22 p AND 0x3FF) AND 1 \<noteq> 0 \<longleftrightarrow> odd (unat p div 2 ^ 30)"
    and "drop_bit 8 (drop_bit 22 p AND 0x3FF) AND 2 \<noteq> 0 \<longleftrightarrow> odd (unat p div 2 ^ 31)"
proof -
  show f: "unat (drop_bit 6 p AND 0xFFFF) = unat p div 2 ^ 6 mod 2 ^ 16"
    unfolding and_masks by (simp add: unsigned_take_bit_eq take_bit_eq_mod unat_drop_bit_eq drop_bit_eq_div unat_div unat_mod)
  show "uint (drop_bit 6 p AND 0xFFFF) = int (unat p div 2 ^ 6 mod 2 ^ 16)"
    unfolding f [symmetric] by simp
  have i: "unat (drop_bit 22 p AND 0x3FF) = unat p div 2 ^ 22"
    unfolding and_masks using unat_bound [of p]
    by (simp add: unsigned_take_bit_eq take_bit_eq_mod unat_drop_bit_eq drop_bit_eq_div unat_div unat_mod)
  show "unat ((drop_bit 22 p AND 0x3FF) AND 0xFF) = unat p div 2 ^ 22 mod 256"
    unfolding and_masks(3) by (simp add: take_bit_eq_mod unat_mod i)
  have q: "unat (drop_bit 8 (drop_bit 22 p AND 0x3FF)) = unat p div 2 ^ 30"
    unfolding unat_drop_bit_eq i by (simp add: drop_bit_eq_div div_mult2_eq [symmetric])
  show "drop_bit 8 (drop_bit 22 p AND 0x3FF) AND 1 \<noteq> 0 \<longleftrightarrow> odd (unat p div 2 ^ 30)"
    unfolding q [symmetric] by (simp add: and_one_eq odd_iff_mod_2_eq_one word_unat_eq_iff unat_mod)
  show "drop_bit 8 (drop_bit 22 p AND 0x3FF) AND 2 \<noteq> 0 \<longleftrightarrow> odd (unat p div 2 ^ 31)"
  proof -
    have "x AND 2 \<noteq> 0 \<longleftrightarrow> bit x 1" for x :: u32
      using and_exp_eq_0_iff_not_bit [of x 1] by simp
    moreover have "bit x 1 \<longleftrightarrow> odd (unat x div 2)" for x :: u32
      by (simp add: bit_iff_odd odd_iff_mod_2_eq_one word_unat_eq_iff unat_mod unat_div)
    ultimately have t: "x AND 2 \<noteq> 0 \<longleftrightarrow> odd (unat x div 2)" for x :: u32 by simp
    show ?thesis unfolding t q by (simp add: div_mult2_eq [symmetric])
  qed
qed

lemma tuner_sin_quarter:
  "tuner_sin p = (if odd (unat p div 2 ^ 31) then - quarter (unat p) else quarter (unat p))"
  unfolding tuner_sin_def quarter_def Let_def sin_fields blend_def
  by simp

lemma quarter_range: "0 \<le> quarter u \<and> quarter u \<le> 32767"
proof -
  let ?i = "u div 2 ^ 22 mod 256" and ?f = "int (u div 2 ^ 6 mod 2 ^ 16)"
  have i: "?i < 256" by simp
  have f: "0 \<le> ?f" "?f < 2 ^ 16" by simp_all
  have "min 0 0 \<le> blend a b ?f \<and> blend a b ?f \<le> 32767" if "0 \<le> a \<and> a \<le> 32767" "0 \<le> b \<and> b \<le> 32767" for a b
    using blend_between [OF f, of a b] that by (auto simp: min_def max_def split: if_splits)
  then show ?thesis
    using sinq_range [of "?i"] sinq_range [of "?i + 1"] sinq_range [of "256 - ?i"] sinq_range [of "255 - ?i"] i
    unfolding quarter_def Let_def by simp
qed

lemma tuner_sin_range: "- 32767 \<le> tuner_sin p \<and> tuner_sin p \<le> 32767"
  using quarter_range [of "unat p"] unfolding tuner_sin_quarter by simp

lemma half_turn:
  fixes u :: nat
  assumes "u < 2 ^ 32"
  shows "quarter ((u + 2 ^ 31) mod 2 ^ 32) = quarter u"
    and "odd ((u + 2 ^ 31) mod 2 ^ 32 div 2 ^ 31) \<longleftrightarrow> even (u div 2 ^ 31)"
proof -
  have "\<exists>v. v < 2 ^ 31 \<and> (u = v \<and> (u + 2 ^ 31) mod 2 ^ 32 = v + 2 ^ 31 \<or> u = v + 2 ^ 31 \<and> (u + 2 ^ 31) mod 2 ^ 32 = v)"
  proof (cases "u < 2 ^ 31")
    case False
    then have "u - 2 ^ 31 < 2 ^ 31" "u = u - 2 ^ 31 + 2 ^ 31" using assms by simp_all
    then show ?thesis by (intro exI [of _ "u - 2 ^ 31"]) (simp add: mod_if)
  qed simp
  then obtain v where v: "v < 2 ^ 31"
      "u = v \<and> (u + 2 ^ 31) mod 2 ^ 32 = v + 2 ^ 31 \<or> u = v + 2 ^ 31 \<and> (u + 2 ^ 31) mod 2 ^ 32 = v" by blast
  have add: "(v + 2 ^ 31) div 2 ^ 22 = v div 2 ^ 22 + 2 ^ 9" "(v + 2 ^ 31) div 2 ^ 6 = v div 2 ^ 6 + 2 ^ 25"
    "(v + 2 ^ 31) div 2 ^ 30 = v div 2 ^ 30 + 2" by simp_all
  have "(w + 2 ^ 9) mod 256 = w mod 256" "(w + 2 ^ 25) mod 2 ^ 16 = w mod 2 ^ 16" for w :: nat
    using mod_add_self2 by (simp_all add: mod_add_eq [symmetric, of w])
  then have q: "quarter (v + 2 ^ 31) = quarter v" unfolding quarter_def add by simp
  show "quarter ((u + 2 ^ 31) mod 2 ^ 32) = quarter u" using v(2) q by auto
  have "(v + 2 ^ 31) div 2 ^ 31 = Suc (v div 2 ^ 31)" "v div 2 ^ 31 = 0" using v(1) by simp_all
  then show "odd ((u + 2 ^ 31) mod 2 ^ 32 div 2 ^ 31) \<longleftrightarrow> even (u div 2 ^ 31)" using v(2) by auto
qed

lemma tuner_sin_half_turn: "tuner_sin (p + 2 ^ 31) = - tuner_sin p"
proof -
  have "unat (p + 2 ^ 31) = (unat p + 2 ^ 31) mod 2 ^ 32" by (simp add: unat_word_ariths)
  then show ?thesis using half_turn [of "unat p"] unat_bound [of p] unfolding tuner_sin_quarter by simp
qed

text \<open>The oscillator of the self-check is a wave of the right shape: its sine never leaves the 16 bits of a
  sample, repeats itself negated after half a turn, and so does the pure tone mixed from it up to the rounding of
  one shift; the sum of the partials stays within a sample for every shape and phase, so that no test frame
  clips.\<close>

theorem tuner_oscillator_range:
  "- 32767 \<le> tuner_sin p \<and> tuner_sin p \<le> 32767 \<and> tuner_sin (p + 2 ^ 31) = - tuner_sin p \<and>
   - 32768 \<le> source src p \<and> source src p \<le> 32767 \<and>
   source TUNER_SRC_PURE (p + 2 ^ 31) + source TUNER_SRC_PURE p \<in> {- 1, 0}"
proof (intro conjI)
  have "- 8192 \<le> x div 2 ^ 2 \<and> x div 2 ^ 2 \<le> 8191" "- 16384 \<le> x div 2 ^ 1 \<and> x div 2 ^ 1 \<le> 16383"
    "- 2048 \<le> x div 2 ^ 4 \<and> x div 2 ^ 4 \<le> 2047" if "- 32767 \<le> x \<and> x \<le> 32767" for x :: int
    using that by (simp_all, presburger+)
  note b = this [OF tuner_sin_range]
  show "- 32768 \<le> source src p" "source src p \<le> 32767"
    using b(1) [of p] b(1) [of "p * 2"] b(2) [of p] b(2) [of "p * 2"] b(2) [of "p * 3"] b(3) [of p]
    unfolding source_def by (simp_all split: if_splits)
  have "(- x) div 2 ^ 1 + x div 2 ^ 1 \<in> {- 1, 0}" for x :: int by (cases "even x") (auto elim!: evenE oddE)
  then show "source TUNER_SRC_PURE (p + 2 ^ 31) + source TUNER_SRC_PURE p \<in> {- 1, 0}"
    unfolding source_def tuner_sin_half_turn by simp
qed (use tuner_sin_range [of p] tuner_sin_half_turn [of p] in simp_all)

section \<open>The frequency it plays\<close>

text \<open>How far the split form of the increment is from \<open>2\<^sup>32 f / (100 f\<^sub>s)\<close>: 390625 is twice a hundred times the
  analysis rate, 1562500 a hundred times the input rate.\<close>

lemma split_error:
  fixes n q r :: nat
  shows "n * 233 = 1000 * q + r \<Longrightarrow> r < 1000 \<Longrightarrow> \<bar>int (n * 21990 + q) * 390625 - int n * 2 ^ 33\<bar> \<le> 174 * int n + 390625"
    and "n * 779 = 1000 * q + r \<Longrightarrow> r < 1000 \<Longrightarrow> \<bar>int (n * 2748 + q) * 1562500 - int n * 2 ^ 32\<bar> \<le> 109 * int n + 1562500"
  by simp_all

lemma sim_set_inc:
  assumes "f \<le> 195312"
  shows "\<bar>int (unat (tuner_sim_inc (tuner_sim_set f 1 src s))) * 390625 - int (unat f) * 2 ^ 33\<bar> \<le> 174 * int (unat f) + 390625"
    and "d \<noteq> 1 \<Longrightarrow> \<bar>int (unat (tuner_sim_inc (tuner_sim_set f d src s))) * 1562500 - int (unat f) * 2 ^ 32\<bar>
      \<le> 109 * int (unat f) + 1562500"
proof -
  let ?f = "unat f"
  have f: "?f \<le> 195312" using assms by (simp add: word_le_nat_alt)
  have a: "unat ((f * 233) div 1000) = ?f * 233 div 1000" "unat ((f * 779) div 1000) = ?f * 779 div 1000"
    using f by (simp_all add: unat_div unat_word_ariths)
  have b: "?f * 233 div 1000 \<le> 45508" "?f * 779 div 1000 \<le> 152149"
    using f by (simp_all add: div_le_mono [of _ "195312 * 233", THEN order_trans] div_le_mono [of _ "195312 * 779", THEN order_trans])
  have c: "unat (f * 21990 + (f * 233) div 1000) = ?f * 21990 + ?f * 233 div 1000"
    "unat (f * 2748 + (f * 779) div 1000) = ?f * 2748 + ?f * 779 div 1000"
    using f b by (simp_all add: unat_word_ariths a)
  have d: "?f * 233 = 1000 * (?f * 233 div 1000) + ?f * 233 mod 1000" "?f * 233 mod 1000 < 1000"
    "?f * 779 = 1000 * (?f * 779 div 1000) + ?f * 779 mod 1000" "?f * 779 mod 1000 < 1000" by simp_all
  show "\<bar>int (unat (tuner_sim_inc (tuner_sim_set f 1 src s))) * 390625 - int (unat f) * 2 ^ 33\<bar> \<le> 174 * int (unat f) + 390625"
    using split_error(1) [OF d(1,2)] by (simp add: tuner_sim_set_def c del: of_nat_add of_nat_mult)
  show "\<bar>int (unat (tuner_sim_inc (tuner_sim_set f d src s))) * 1562500 - int (unat f) * 2 ^ 32\<bar>
      \<le> 109 * int (unat f) + 1562500" if "d \<noteq> 1"
    using split_error(2) [OF d(3,4)] that by (simp add: tuner_sim_set_def c del: of_nat_add of_nat_mult)
qed

section \<open>The pump of the self-check\<close>

lemma push_chain_counts:
  assumes "tuner_cic_phase c < R"
  shows "tuner_cic_phase (push_chain R sh x c) = Suc (tuner_cic_phase c) mod R"
    and "tuner_ring_count (push_chain R sh x c) = tuner_ring_count c + of_nat (Suc (tuner_cic_phase c) div R)"
proof -
  have "Suc (tuner_cic_phase c) = R \<or> Suc (tuner_cic_phase c) < R" using assms by linarith
  then show "tuner_cic_phase (push_chain R sh x c) = Suc (tuner_cic_phase c) mod R"
    "tuner_ring_count (push_chain R sh x c) = tuner_ring_count c + of_nat (Suc (tuner_cic_phase c) div R)"
    by (auto simp: push_chain_def integrate_def comb_def dc_block_def ring_put_def Let_def)
qed

text \<open>The sample of step \<open>j\<close> from a state.\<close>

definition osc :: "('d, 'z) sim_scheme \<Rightarrow> nat \<Rightarrow> int" where
  "osc s j = source (tuner_sim_src s) (tuner_sim_phase s + of_nat j * tuner_sim_inc s)"

lemma osc_push: "osc (push_sample s) j = osc s (Suc j)"
  by (simp add: osc_def push_sample_def tuner_mic_sample_def algebra_simps)

lemma push_sample_fields:
  "inp (push_sample s) = push_chain (unat (tuner_decim s)) (unat (tuner_cic_shift s)) (osc s 0) (inp s)"
  "tuner_decim (push_sample s) = tuner_decim s" "tuner_cic_shift (push_sample s) = tuner_cic_shift s"
  "tuner_sim_phase (push_sample s) = tuner_sim_phase s + tuner_sim_inc s" "tuner_sim_inc (push_sample s) = tuner_sim_inc s"
  by (simp_all add: osc_def push_sample_def tuner_mic_sample_def)

lemma sim_pump_loop_returns:
  "tuner_cic_phase (inp s) < unat (tuner_decim s) \<Longrightarrow> tuner_ring_count (inp s) \<le> target \<Longrightarrow>
   m = unat (tuner_decim s) * (unat target - unat (tuner_ring_count (inp s))) - tuner_cic_phase (inp s) \<Longrightarrow>
   \<exists>t. sim_pump_loop target s = Some t \<and> tuner_sim_phase t = tuner_sim_phase s + of_nat m * tuner_sim_inc s \<and>
     tuner_ring_count (inp t) = target \<and>
     inp t = fold (push_chain (unat (tuner_decim s)) (unat (tuner_cic_shift s))) (map (osc s) [0..<m]) (inp s)"
proof (induction m arbitrary: s)
  case 0
  have "unat target - unat (tuner_ring_count (inp s)) = 0"
  proof (rule ccontr)
    assume "unat target - unat (tuner_ring_count (inp s)) \<noteq> 0"
    then have "unat (tuner_decim s) \<le> unat (tuner_decim s) * (unat target - unat (tuner_ring_count (inp s)))"
      by (simp; linarith)
    then show False using 0(1,3) by linarith
  qed
  then have "tuner_ring_count (inp s) = target" using 0(2) by (simp add: word_le_nat_alt word_unat_eq_iff)
  then show ?case by (subst sim_pump_loop.simps) simp
next
  case (Suc m)
  let ?R = "unat (tuner_decim s)" and ?n = "tuner_ring_count (inp s)" and ?p = "tuner_cic_phase (inp s)"
  let ?u = "push_sample s"
  have lt: "?n < target" using Suc.prems(2,3) by (cases "?n = target") auto
  have d: "unat target - unat ?n = Suc (unat target - Suc (unat ?n))" using lt by (simp add: word_less_nat_alt)
  note cnt = push_chain_counts [OF Suc.prems(1), of "unat (tuner_cic_shift s)" "osc s 0"]
  have u: "tuner_cic_phase (inp ?u) = Suc ?p mod ?R" "tuner_ring_count (inp ?u) = ?n + of_nat (Suc ?p div ?R)"
    "unat (tuner_decim ?u) = ?R"
    using cnt by (simp_all add: push_sample_fields)
  have nx: "tuner_ring_count (inp ?u) \<le> target \<and>
      m = unat (tuner_decim ?u) * (unat target - unat (tuner_ring_count (inp ?u))) - tuner_cic_phase (inp ?u)"
  proof (cases "Suc ?p = ?R")
    case True
    then have "unat (tuner_ring_count (inp ?u)) = Suc (unat ?n)" "tuner_cic_phase (inp ?u) = 0"
      "tuner_ring_count (inp ?u) \<le> target"
      using u u32_less_Suc [OF lt] inc_le [OF lt] by (simp_all flip: True)
    moreover have "Suc m = Suc ?p * Suc (unat target - Suc (unat ?n)) - ?p" using Suc.prems(3) d by (simp add: True)
    ultimately show ?thesis using u(3) True by simp
  next
    case False
    then have "Suc ?p < ?R" using Suc.prems(1) by simp
    moreover have "m = ?R * (unat target - unat ?n) - Suc ?p" using Suc.prems(3) by linarith
    ultimately show ?thesis using u less_imp_le [OF lt] by simp
  qed
  have "tuner_cic_phase (inp ?u) < unat (tuner_decim ?u)" using Suc.prems(1) u by simp
  from Suc.IH [OF this] nx obtain t where t: "sim_pump_loop target ?u = Some t"
      "tuner_sim_phase t = tuner_sim_phase ?u + of_nat m * tuner_sim_inc ?u" "tuner_ring_count (inp t) = target"
      "inp t = fold (push_chain (unat (tuner_decim ?u)) (unat (tuner_cic_shift ?u))) (map (osc ?u) [0..<m]) (inp ?u)"
    by blast
  have "map (osc s) [0..<Suc m] = osc s 0 # map (osc ?u) [0..<m]"
    by (simp add: upt_conv_Cons osc_push map_Suc_upt [symmetric] del: upt_Suc)
  then show ?case using t lt by (subst sim_pump_loop.simps) (simp add: push_sample_fields algebra_simps del: upt_Suc)
qed

text \<open>A frame of the self-check is acquired completely: the pump always returns, having pushed exactly the
  oscillator samples the decimator needs for \<open>n\<close> outputs, at equidistant phases and in order, with the ring
  counter \<open>n\<close> further.\<close>

theorem sim_pump_exact:
  assumes "tuner_cic_phase (inp s) < unat (tuner_decim s)" and "unat (tuner_ring_count (inp s)) + unat n < 2 ^ 32"
  shows "\<exists>t. sim_pump n s = Some t \<and> tuner_ring_count (inp t) = tuner_ring_count (inp s) + n \<and>
    (let m = unat (tuner_decim s) * unat n - tuner_cic_phase (inp s) in
       tuner_sim_phase t = tuner_sim_phase s + of_nat m * tuner_sim_inc s \<and>
       inp t = fold (push_chain (unat (tuner_decim s)) (unat (tuner_cic_shift s)))
         (map (\<lambda>j. source (tuner_sim_src s) (tuner_sim_phase s + of_nat j * tuner_sim_inc s)) [0..<m]) (inp s))"
proof -
  let ?c = "tuner_ring_count (inp s)"
  have u: "unat (?c + n) = unat ?c + unat n" using assms(2) by (simp add: unat_word_ariths)
  have m: "?c \<le> ?c + n" "unat (?c + n) - unat ?c = unat n" using u by (simp_all add: word_le_nat_alt)
  have o': "map (osc s) js = map (\<lambda>j. source (tuner_sim_src s) (tuner_sim_phase s + of_nat j * tuner_sim_inc s)) js" for js
    by (simp add: osc_def)
  show ?thesis
    using sim_pump_loop_returns [OF assms(1) m(1) refl] unfolding m(2) o' sim_pump_def Let_def by blast
qed

theorem sim_pump_exact_witness:
  "\<exists>t. sim_pump 2 (tuner_sim_set 100 1 0 (tuner_set_decim 2 (sim_statics ()))) = Some t \<and>
     tuner_ring_count (inp t) = 2 \<and> tuner_sim_phase t = 8796092"
proof -
  have "decim_shift 2 0 = 2" using decim_shift_pow2 [of 1 0] by simp
  then show ?thesis
    using sim_pump_exact [of "tuner_sim_set 100 1 0 (tuner_set_decim 2 (sim_statics ()))" 2]
    by (auto simp: tuner_set_decim_def tuner_sim_set_def sim_statics_def tuner_statics_def tuner_in_init_def tuner.defs sim.defs Let_def)
qed

text \<open>On silence the DC blocker rests at any remainder below 256, not only at zero.\<close>

lemma dc_step_rest: "dc_step 0 y 0 = y \<longleftrightarrow> 0 \<le> y \<and> y < 256"
  by (simp add: dc_step_def TUNER_DC_SHIFT_def) presburger

end
