(* ===== verification/Board.thy ===== *)
theory Board
  imports Plic
begin

unbundle bit_operations_syntax

text \<open>
  What happens between two statements of a program whose interrupts are enabled.  The core is the one of
  \<open>trap_unit.sv\<close>: on an external interrupt it saves \<open>MIE\<close> in \<open>MPIE\<close> and clears it, and \<open>mret\<close>, with which every
  handler entry of \<open>sys.h\<close> ends, puts it back.  The controller is the one of \<open>axi4_lite_plic.sv\<close>: the lines
  themselves are what is pending, the lowest enabled one is claimed, and reading the claim changes nothing.
  Around them one peripheral is an argument: its registers, its interrupt lines, and what time does to it.
\<close>

section \<open>The board\<close>

record 'x peri =
  p_rd :: "mreg \<Rightarrow> 'x \<Rightarrow> u32 \<times> 'x"
  p_wr :: "mreg \<Rightarrow> u32 \<Rightarrow> 'x \<Rightarrow> 'x"
  p_lines :: "'x \<Rightarrow> u32"
  p_tick :: "'x \<Rightarrow> 'x"

record 'x board =
  mstatus_q :: u32
  mie_q :: u32
  mtvec_q :: u32
  mcause_q :: u32
  enable_q :: u32
  peri_q :: 'x

text \<open>Source 0 is none; lines and enables are sixteen bits wide.\<close>

definition claimable :: "'x peri \<Rightarrow> 'x board \<Rightarrow> u32" where
  "claimable p b = p_lines p (peri_q b) AND enable_q b AND 0xFFFE"

definition meip :: "'x peri \<Rightarrow> 'x board \<Rightarrow> bool" where
  "meip p b \<longleftrightarrow> claimable p b \<noteq> 0"

definition claimed :: "u32 \<Rightarrow> u32" where
  "claimed w = (case List.find (bit w) [1..<16] of Some i \<Rightarrow> of_nat i | None \<Rightarrow> 0)"

fun plic_rd :: "'x peri \<Rightarrow> plic_reg \<Rightarrow> 'x board \<Rightarrow> u32" where
  "plic_rd p PLIC_PENDING b = p_lines p (peri_q b) AND 0xFFFF"
| "plic_rd p PLIC_ENABLE b = enable_q b"
| "plic_rd p PLIC_CLAIM b = claimed (claimable p b)"

definition board_rd :: "'x peri \<Rightarrow> mreg \<Rightarrow> 'x board \<Rightarrow> u32 \<times> 'x board" where
  "board_rd p r b = (case r of Plic q \<Rightarrow> (plic_rd p q b, b)
     | _ \<Rightarrow> (let (v, x) = p_rd p r (peri_q b) in (v, b\<lparr>peri_q := x\<rparr>)))"

definition board_wr :: "'x peri \<Rightarrow> mreg \<Rightarrow> u32 \<Rightarrow> 'x board \<Rightarrow> 'x board" where
  "board_wr p r v b = (case r of Plic q \<Rightarrow> (if q = PLIC_ENABLE then b\<lparr>enable_q := v AND 0xFFFF\<rparr> else b)
     | _ \<Rightarrow> b\<lparr>peri_q := p_wr p r v (peri_q b)\<rparr>)"

fun csr_apply :: "csr_op \<Rightarrow> u32 \<Rightarrow> u32 \<Rightarrow> u32" where
  "csr_apply CsrWrite v old = v"
| "csr_apply CsrSet v old = old OR v"
| "csr_apply CsrClear v old = old AND NOT v"

fun board_csr_rd :: "'x peri \<Rightarrow> csr \<Rightarrow> 'x board \<Rightarrow> u32" where
  "board_csr_rd p MSTATUS b = mstatus_q b"
| "board_csr_rd p MIE b = mie_q b"
| "board_csr_rd p MIP b = (if meip p b then 0x800 else 0)"
| "board_csr_rd p MTVEC b = mtvec_q b"
| "board_csr_rd p MCAUSE b = mcause_q b"
| "board_csr_rd p _ b = 0"

fun board_csr_op :: "csr_op \<Rightarrow> csr \<Rightarrow> u32 \<Rightarrow> 'x board \<Rightarrow> 'x board" where
  "board_csr_op f MSTATUS v b = b\<lparr>mstatus_q := csr_apply f v (mstatus_q b)\<rparr>"
| "board_csr_op f MIE v b = b\<lparr>mie_q := csr_apply f v (mie_q b)\<rparr>"
| "board_csr_op f MTVEC v b = b\<lparr>mtvec_q := csr_apply f v (mtvec_q b)\<rparr>"
| "board_csr_op f MCAUSE v b = b\<lparr>mcause_q := csr_apply f v (mcause_q b)\<rparr>"
| "board_csr_op f _ v b = b"

definition board_hw :: "'x peri \<Rightarrow> 'x board hw" where
  "board_hw p = \<lparr>hw_rd = board_rd p, hw_wr = board_wr p, hw_csr_rd = \<lambda>c b. (board_csr_rd p c b, b),
     hw_csr_op = board_csr_op, hw_wfi = \<lambda>b. b\<lparr>peri_q := p_tick p (peri_q b)\<rparr>\<rparr>"

section \<open>Traps\<close>

definition irq_due :: "'x peri \<Rightarrow> 'x board \<Rightarrow> bool" where
  "irq_due p b \<longleftrightarrow> bit (mstatus_q b) 3 \<and> bit (mie_q b) 11 \<and> meip p b"

text \<open>Entry: \<open>MPIE\<close> takes \<open>MIE\<close>, \<open>MIE\<close> is cleared; return: \<open>MIE\<close> takes \<open>MPIE\<close>, \<open>MPIE\<close> is set.\<close>

definition enter_trap :: "'x board \<Rightarrow> 'x board" where
  "enter_trap b = b\<lparr>mcause_q := 0x8000000B, mstatus_q := (if bit (mstatus_q b) 3
     then mstatus_q b OR 0x80 else mstatus_q b AND NOT 0x80) AND NOT 8\<rparr>"

definition mret :: "'x board \<Rightarrow> 'x board" where
  "mret b = b\<lparr>mstatus_q := (if bit (mstatus_q b) 7 then mstatus_q b OR 8 else mstatus_q b AND NOT 8) OR 0x80\<rparr>"

text \<open>Between two statements: an interrupt that is due is taken, \<open>entry\<close> is what \<open>mtvec\<close> points to.\<close>

definition serve :: "'x peri \<Rightarrow> (('x board, 'z) m \<Rightarrow> ('x board, 'z) m option) \<Rightarrow> ('x board, 'z) m \<Rightarrow> ('x board, 'z) m option" where
  "serve p entry s = (if irq_due p (dev s)
     then map_option (\<lambda>s. s\<lparr>dev := mret (dev s)\<rparr>) (entry (s\<lparr>dev := enter_trap (dev s)\<rparr>)) else Some s)"

text \<open>As many times as the core finds one due before the next statement.\<close>

primrec serve_n :: "'x peri \<Rightarrow> (('x board, 'z) m \<Rightarrow> ('x board, 'z) m option) \<Rightarrow> nat \<Rightarrow> ('x board, 'z) m \<Rightarrow> ('x board, 'z) m option" where
  "serve_n p entry 0 s = Some s"
| "serve_n p entry (Suc n) s = serve p entry s \<bind> serve_n p entry n"

lemma bit_one_at: "k < 32 \<Longrightarrow> bit (push_bit k 1 :: u32) n \<longleftrightarrow> n = k"
  by (auto simp: bit_simps)

lemma bit_8: "bit (8 :: u32) n \<longleftrightarrow> n = 3"
  using bit_one_at [of 3 n] by simp

lemma bit_80: "bit (0x80 :: u32) n \<longleftrightarrow> n = 7"
  using bit_one_at [of 7 n] by simp

lemma bit_800: "bit (0x800 :: u32) n \<longleftrightarrow> n = 11"
  using bit_one_at [of 11 n] by simp

lemma enter_simps [simp]:
  "bit (mstatus_q (enter_trap b)) 3 \<longleftrightarrow> False" "bit (mstatus_q (enter_trap b)) 7 \<longleftrightarrow> bit (mstatus_q b) 3"
  "mcause_q (enter_trap b) = 0x8000000B" "peri_q (enter_trap b) = peri_q b" "mie_q (enter_trap b) = mie_q b"
  "enable_q (enter_trap b) = enable_q b" "mtvec_q (enter_trap b) = mtvec_q b"
  by (simp_all add: enter_trap_def bit_simps bit_8 bit_80)

lemma mret_simps [simp]:
  "bit (mstatus_q (mret b)) 3 \<longleftrightarrow> bit (mstatus_q b) 7" "bit (mstatus_q (mret b)) 7"
  "mcause_q (mret b) = mcause_q b" "peri_q (mret b) = peri_q b" "mie_q (mret b) = mie_q b"
  "enable_q (mret b) = enable_q b" "mtvec_q (mret b) = mtvec_q b"
  by (simp_all add: mret_def bit_simps bit_8 bit_80)

lemma claimable_mret [simp]: "claimable p (mret b) = claimable p b" "claimable p (enter_trap b) = claimable p b" by (simp_all add: claimable_def)

lemma csr_rd_board: "csr_rd (board_hw p) c s =
    (board_csr_rd p c (dev s), s\<lparr>dev := dev s, evs := evs s @ [CsrRd c (board_csr_rd p c (dev s))]\<rparr>)"
  by (simp add: csr_rd_def board_hw_def)

lemma csr_op_board: "csr_op (board_hw p) f c v s = s\<lparr>dev := board_csr_op f c v (dev s), evs := evs s @ [CsrOp f c v]\<rparr>"
  by (simp add: csr_op_def board_hw_def)

lemma rd_plic: "rd (board_hw p) (Plic q) s = (plic_rd p q (dev s), s\<lparr>dev := dev s, evs := evs s @ [Rd (Plic q) (plic_rd p q (dev s))]\<rparr>)"
  by (simp add: rd_def board_hw_def board_rd_def)

lemma mei_cause: "sys_cause_is_interrupt 0x8000000B" "sys_cause_code 0x8000000B = SYS_MCAUSE_MEI"
  by code_simp+

text \<open>An external interrupt whose cause has no handler goes to the hook, or is masked when there is none.\<close>

lemma entry_unhandled:
  assumes "sys_lookup s SYS_MCAUSE_MEI = None" and "mcause_q (dev s) = 0x8000000B"
  shows "sys_isr_entry (board_hw p) call hook s =
    (let t = s\<lparr>dev := dev s, evs := evs s @ [CsrRd MCAUSE 0x8000000B]\<rparr> in
     case sys_isr_unhandled s of Some u \<Rightarrow> hook u 0x8000000B t
     | None \<Rightarrow> Some (csr_op (board_hw p) CsrClear MSTATUS SYS_MSTATUS_MIE t))"
  using assms by (simp add: sys_isr_entry_lookup csr_rd_board mei_cause Let_def)

text \<open>C2: with no handler for the external cause and no hook, the entry of \<open>sys.h\<close> clears the global enable and
  returns, and the return puts it back: an interrupt whose line stays high is taken again before the next
  statement, for ever, and no statement of the program runs.  (The header promises that it does not fire again
  until it is enabled.)\<close>

theorem sys_unhandled_storm:
  assumes "irq_due p (dev s)" and "sys_lookup s SYS_MCAUSE_MEI = None" and "sys_isr_unhandled s = None"
  shows "\<exists>t. serve_n p (sys_isr_entry (board_hw p) call hook) n s = Some t \<and> irq_due p (dev t) \<and>
    evs t = evs s @ concat (replicate n [CsrRd MCAUSE 0x8000000B, CsrOp CsrClear MSTATUS 8])"
  using assms
proof (induction n arbitrary: s)
  case 0
  then show ?case by simp
next
  case (Suc n)
  let ?e = "s\<lparr>dev := enter_trap (dev s)\<rparr>"
  let ?t = "csr_op (board_hw p) CsrClear MSTATUS 8 (?e\<lparr>evs := evs s @ [CsrRd MCAUSE 0x8000000B]\<rparr>)"
  let ?u = "?t\<lparr>dev := mret (dev ?t)\<rparr>"
  have "sys_lookup ?e SYS_MCAUSE_MEI = None" "sys_isr_unhandled ?e = None" using Suc.prems(2,3) by (simp_all add: sys_lookup_def mei_valid)
  then have "sys_isr_entry (board_hw p) call hook ?e = Some ?t"
    by (simp add: entry_unhandled SYS_MSTATUS_MIE_def)
  then have s: "serve p (sys_isr_entry (board_hw p) call hook) s = Some ?u"
    using Suc.prems(1) by (simp add: serve_def)
  have "irq_due p (dev ?u)"
    using Suc.prems(1) by (simp add: irq_due_def meip_def claimable_def csr_op_board bit_simps bit_8)
  moreover have "sys_lookup ?u SYS_MCAUSE_MEI = None" "sys_isr_unhandled ?u = None" 
    using Suc.prems(2,3) by (simp_all add: sys_lookup_def csr_op_board mei_valid)
  ultimately obtain v where v: "serve_n p (sys_isr_entry (board_hw p) call hook) n ?u = Some v" "irq_due p (dev v)"
    "evs v = evs ?u @ concat (replicate n [CsrRd MCAUSE 0x8000000B, CsrOp CsrClear MSTATUS 8])"
    using Suc.IH [of ?u] by blast
  have "evs ?u = evs s @ [CsrRd MCAUSE 0x8000000B, CsrOp CsrClear MSTATUS 8]" by (simp add: csr_op_board)
  then show ?case using s v by simp
qed

text \<open>The interrupt of one peripheral whose line is stuck.\<close>

definition stuck_line :: "unit peri" where
  "stuck_line = \<lparr>p_rd = \<lambda>r x. (0, x), p_wr = \<lambda>r v x. x, p_lines = \<lambda>x. 0x10, p_tick = \<lambda>x. x\<rparr>"

theorem sys_unhandled_storm_witness:
  "\<exists>t. serve_n stuck_line (sys_isr_entry (board_hw stuck_line) (\<lambda>(_ :: unit). Some) (\<lambda>(_ :: unit) _. Some)) 3
     \<lparr>dev = \<lparr>mstatus_q = 8, mie_q = 0x800, mtvec_q = 0, mcause_q = 0, enable_q = 0xFFFF, peri_q = ()\<rparr>, evs = [],
      sys_isr_tab = sys_isr_tab_init, sys_isr_unhandled = None\<rparr> = Some t \<and> length (evs t) = 6"
proof -
  let ?s = "\<lparr>dev = \<lparr>mstatus_q = 8, mie_q = 0x800, mtvec_q = 0, mcause_q = 0, enable_q = 0xFFFF, peri_q = ()\<rparr>, evs = [],
      sys_isr_tab = sys_isr_tab_init :: unit option list, sys_isr_unhandled = None :: unit option\<rparr>"
  have "irq_due stuck_line (dev ?s)"
    by (simp add: irq_due_def meip_def claimable_def stuck_line_def bit_8 bit_800)
  moreover have "sys_lookup ?s SYS_MCAUSE_MEI = None"
    by (simp add: sys_lookup_def sys_isr_tab_init_def SYS_ISR_MAX_def SYS_MCAUSE_MEI_def)
  ultimately show ?thesis
    using sys_unhandled_storm [of stuck_line ?s "\<lambda>_. Some" "\<lambda>_ _. Some" 3] by (auto simp: numeral_3_eq_3)
qed

text \<open>A handler attached to a source runs, and on return the interrupt is due again exactly if a line is still
  high: the contract of \<open>plic.h\<close>.\<close>

lemma serve_attached:
  assumes "irq_due p (dev s)" and "plic_wf s" and "sys_lookup s SYS_MCAUSE_MEI = Some PlicMeiIsr"
    and "plic_lookup s src = Some f" and "claimed (claimable p (dev s)) = src" and "src \<noteq> 0"
    and "call f src (s\<lparr>dev := enter_trap (dev s),
      evs := evs s @ [CsrRd MCAUSE 0x8000000B, Rd (Plic PLIC_CLAIM) src]\<rparr>) = Some t"
    and "mstatus_q (dev t) = mstatus_q (enter_trap (dev s))" and "mie_q (dev t) = mie_q (dev s)"
  shows "serve p (sys_isr_entry (board_hw p) (call_isr (board_hw p) user call) hook) s = Some (t\<lparr>dev := mret (dev t)\<rparr>)"
    and "irq_due p (mret (dev t)) \<longleftrightarrow> meip p (dev t)"
proof -
  let ?e = "s\<lparr>dev := enter_trap (dev s)\<rparr>"
  have small: "src < 16" "src < PLIC_SRC_N"
    using assms(4) by (auto simp: plic_lookup_def PLIC_SRC_N_def split: if_splits)
  then have "src AND 0xFF = src"
    unfolding and_masks by (simp add: word_unat_eq_iff word_less_nat_alt unat_take_bit)
  then have "sys_isr_entry (board_hw p) (call_isr (board_hw p) user call) hook ?e = Some t"
    using assms(3-7) small
    by (simp add: sys_isr_entry_lookup csr_rd_board mei_cause mei_valid sys_lookup_def call_isr_def plic_mei_isr_def plic_claim_def
      rd_plic PLIC_SRC_NONE_def plic_lookup_def)
  then show "serve p (sys_isr_entry (board_hw p) (call_isr (board_hw p) user call) hook) s = Some (t\<lparr>dev := mret (dev t)\<rparr>)"
    using assms(1) by (simp add: serve_def)
  show "irq_due p (mret (dev t)) \<longleftrightarrow> meip p (dev t)"
    using assms(1,8,9) by (simp add: irq_due_def meip_def)
qed

end
