(* ===== verification/Fft_Tone.thy ===== *)
theory Fft_Tone
  imports Fft_Model
begin
unbundle bit_operations_syntax

text \<open>
  The 16-point transform, evaluated: the eight twiddle factors of the table it uses, and the four stages on the
  tone that the self-test of the coprocessor feeds it.  The frames are in the order of the stages, in which the
  bins come out bit-reversed.
\<close>

text \<open>One stage of a 16-point transform, on the whole frame; \<open>T\<close> holds the eight twiddle factors it uses.\<close>

definition next16 :: "c16 list \<Rightarrow> nat \<Rightarrow> c16 list \<Rightarrow> nat \<Rightarrow> c16" where
  "next16 T st a i = (let h = 2 ^ (3 - st); t = T ! (i mod h * 2 ^ st) in
     if i mod (2 * h) < h then fst (butterfly True (fst t) (snd t) (a ! i) (a ! (i + h)))
     else snd (butterfly True (fst t) (snd t) (a ! (i - h)) (a ! i)))"

lemma stage_next16:
  assumes "stage tw 4 sc False st a b" and "st < 4" and "bit sc st" and "length b = 16" and "\<forall>m<8. tw ! (64 * m) = T ! m"
  shows "b = map (next16 T st a) [0..<16]"
proof (rule nth_equalityI)
  show "length b = length (map (next16 T st a) [0..<16])" using assms(4) by simp
  fix i assume "i < length b"
  then have i: "i < 16" using assms(4) by simp
  let ?h = "2 ^ (3 - st) :: nat"
  have h2: "2 ^ (4 - st) = 2 * ?h" and h4: "2 ^ (4 - Suc st) = ?h" using assms(2) by (simp_all flip: power_Suc add: Suc_diff_le)
  have n: "16 = 2 ^ st * (2 * ?h)" using assms(2) by (simp flip: power_Suc power_add)
  let ?q = "i div (2 * ?h)" and ?j = "i mod ?h"
  have e: "i = (if i mod (2 * ?h) < ?h then ?q * (2 * ?h) + ?j else ?q * (2 * ?h) + ?j + ?h)"
  proof -
    have "i = i div ?h * ?h + ?j" by (rule div_mult_mod_eq [symmetric])
    also have "\<dots> = (if even (i div ?h) then i div ?h div 2 * (2 * ?h) + ?j else i div ?h div 2 * (2 * ?h) + ?j + ?h)"
      by (rule half_block)
    also have "i div ?h div 2 = ?q" by (simp add: div_mult2_eq [symmetric] mult.commute)
    also have "even (i div ?h) \<longleftrightarrow> i mod (2 * ?h) < ?h"
      using mod_mult2_eq [of i ?h 2] by (cases "even (i div ?h)") (simp_all add: mult.commute odd_iff_mod_2_eq_one)
    finally show ?thesis .
  qed
  have "?q < 2 ^ st" using i unfolding n by (simp add: less_mult_imp_div_less)
  moreover have j: "?j < ?h" by simp
  moreover have "?j * 2 ^ st < 8"
  proof -
    have "?j * 2 ^ st < ?h * 2 ^ st" using j by (intro mult_strict_right_mono) simp_all
    also have "\<dots> = 8" using assms(2) by (simp flip: power_add)
    finally show ?thesis .
  qed
  then have "tw ! (?j * (2 ^ st * (NMAX div 2 ^ 4))) = T ! (?j * 2 ^ st)"
    using assms(5) [rule_format, of "?j * 2 ^ st"] by (simp add: NMAX_def ac_simps)
  moreover have "bit sc st" by fact
  moreover have "\<forall>q<2 ^ st. \<forall>j<?h. (b ! (q * (2 * ?h) + j), b ! (q * (2 * ?h) + j + ?h)) =
      butterfly (bit sc st) (fst (tw ! (j * (2 ^ st * (NMAX div 2 ^ 4))))) (snd (tw ! (j * (2 ^ st * (NMAX div 2 ^ 4)))))
        (a ! (q * (2 * ?h) + j)) (a ! (q * (2 * ?h) + j + ?h))"
    using assms(1) unfolding stage_def Let_def h2 h4 by (simp add: conj_im_def)
  ultimately have p: "(b ! (?q * (2 * ?h) + ?j), b ! (?q * (2 * ?h) + ?j + ?h)) =
      butterfly True (fst (T ! (?j * 2 ^ st))) (snd (T ! (?j * 2 ^ st))) (a ! (?q * (2 * ?h) + ?j)) (a ! (?q * (2 * ?h) + ?j + ?h))"
    by (metis (full_types))
  have "b ! i = next16 T st a i"
  proof (cases "i mod (2 * ?h) < ?h")
    case True
    then have "?q * (2 * ?h) + ?j = i" using e by simp
    then show ?thesis using p True by (simp add: next16_def Let_def prod_eq_iff)
  next
    case False
    then have "?q * (2 * ?h) + ?j + ?h = i" using e by simp
    then have "?q * (2 * ?h) + ?j = i - ?h" "?q * (2 * ?h) + ?j + ?h = i" by linarith+
    then show ?thesis using p False by (simp add: next16_def Let_def prod_eq_iff)
  qed
  then show "b ! i = map (next16 T st a) [0..<16] ! i" using i by simp
qed

definition frame_0 :: "c16 list" where
  "frame_0 = [(16384, 0), (6270, 0), (- 11585, 0), (- 15137, 0), (0, 0), (15137, 0), (11585, 0), (- 6270, 0), (- 16384, 0), (- 6270, 0), (11585, 0), (15137, 0), (0, 0), (- 15137, 0), (- 11585, 0), (6270, 0)]"

definition frame_1 :: "c16 list" where
  "frame_1 = [(0, 0), (0, 0), (0, 0), (0, 0), (0, 0), (0, 0), (0, 0), (0, 0), (16384, 0), (5793, - 2399), (- 8191, 8192), (- 5793, 13985), (0, 0), (- 5793, - 13985), (- 8191, - 8191), (5793, 2400)]"

definition frame_2 :: "c16 list" where
  "frame_2 = [(0, 0), (0, 0), (0, 0), (0, 0), (0, 0), (0, 0), (0, 0), (0, 0), (8192, 0), (0, - 8192), (- 8191, 1), (0, 8193), (8192, 0), (8193, 0), (8192, 0), (8192, 1)]"

definition frame_3 :: "c16 list" where
  "frame_3 = [(0, 0), (0, 0), (0, 0), (0, 0), (0, 0), (0, 0), (0, 0), (0, 0), (1, 1), (0, 1), (8192, 0), (- 8192, 0), (8192, 0), (8193, 1), (0, 0), (0, 0)]"

definition frame_4 :: "c16 list" where
  "frame_4 = [(0, 0), (0, 0), (0, 0), (0, 0), (0, 0), (0, 0), (0, 0), (0, 0), (1, 1), (1, 0), (0, 0), (8192, 0), (8193, 1), (0, 0), (0, 0), (0, 0)]"

definition twiddles_16 :: "c16 list" where
  "twiddles_16 = [(32767, 0), (30274, - 12540), (23170, - 23170), (12540, - 30274), (0, - 32768), (- 12540, - 30274), (- 23170, - 23170), (- 30274, - 12540)]"

lemma frames_next: "map (next16 twiddles_16 0 frame_0) [0..<16] = frame_1"
  "map (next16 twiddles_16 1 frame_1) [0..<16] = frame_2"
  "map (next16 twiddles_16 2 frame_2) [0..<16] = frame_3"
  "map (next16 twiddles_16 3 frame_3) [0..<16] = frame_4"
  by code_simp+
lemma q15_eq: "of_int n \<le> x * 32768 + 1 / 2 \<Longrightarrow> x * 32768 + 1 / 2 < of_int n + 1 \<Longrightarrow> - 32768 \<le> n \<Longrightarrow> n \<le> 32767 \<Longrightarrow> q15 x = n"
proof -
  assume "of_int n \<le> x * 32768 + 1 / 2" "x * 32768 + 1 / 2 < of_int n + 1"
  then have f: "\<lfloor>x * 32768 + 1 / 2\<rfloor> = n" by (rule floor_unique)
  assume "- 32768 \<le> n" "n \<le> 32767"
  then show "q15 x = n" unfolding q15_def f by simp
qed

lemma sq_above: "0 \<le> x \<Longrightarrow> x\<^sup>2 = v \<Longrightarrow> a\<^sup>2 < v \<Longrightarrow> a < x" for x a v :: real
  using power2_less_imp_less [of a x] by simp

lemma sq_below: "0 \<le> b \<Longrightarrow> x\<^sup>2 = v \<Longrightarrow> v < b\<^sup>2 \<Longrightarrow> x < b" for x b v :: real
  using power2_less_imp_less [of x b] by simp

lemma root_2: "1414213 / 1000000 < sqrt 2" "sqrt 2 < 1414214 / 1000000"
  by (rule sq_above [where v = 2], simp, simp, simp add: power2_eq_square)
    (rule sq_below [where v = 2], simp, simp, simp add: power2_eq_square)

lemma cos_8: "923879 / 1000000 < cos (pi / 8)" "cos (pi / 8) < 923880 / 1000000"
  and sin_8: "382683 / 1000000 < sin (pi / 8)" "sin (pi / 8) < 382684 / 1000000"
proof -
  have c: "sqrt 2 / 2 = 2 * (cos (pi / 8))\<^sup>2 - 1"
    using cos_double_cos [of "pi / 8"] by (simp add: cos_45)
  have pos: "0 \<le> cos (pi / 8)" "0 \<le> sin (pi / 8)" by (rule cos_ge_zero, simp_all add: sin_ge_zero)
  have c2: "(cos (pi / 8))\<^sup>2 = (2 + sqrt 2) / 4" using c by (simp add: field_simps)
  have s2: "(sin (pi / 8))\<^sup>2 = (2 - sqrt 2) / 4" using sin_squared_eq [of "pi / 8"] c2 by (simp add: field_simps)
  show "923879 / 1000000 < cos (pi / 8)" by (rule sq_above [OF pos(1) c2]) (use root_2 in \<open>simp add: power2_eq_square\<close>)
  show "cos (pi / 8) < 923880 / 1000000" by (rule sq_below [OF _ c2]) (use root_2 in \<open>simp_all add: power2_eq_square\<close>)
  show "382683 / 1000000 < sin (pi / 8)" by (rule sq_above [OF pos(2) s2]) (use root_2 in \<open>simp add: power2_eq_square\<close>)
  show "sin (pi / 8) < 382684 / 1000000" by (rule sq_below [OF _ s2]) (use root_2 in \<open>simp_all add: power2_eq_square\<close>)
qed

lemma q15_8:
  "q15 (cos (pi / 8)) = 30274" "q15 (- cos (pi / 8)) = - 30274" "q15 (sin (pi / 8)) = 12540" "q15 (- sin (pi / 8)) = - 12540"
  "q15 (sqrt 2 / 2) = 23170" "q15 (- (sqrt 2 / 2)) = - 23170"
proof -
  note b = cos_8 sin_8 root_2
  show "q15 (cos (pi / 8)) = 30274" by (rule q15_eq) (use b in simp_all)
  show "q15 (- cos (pi / 8)) = - 30274" by (rule q15_eq) (use b in simp_all)
  show "q15 (sin (pi / 8)) = 12540" by (rule q15_eq) (use b in simp_all)
  show "q15 (- sin (pi / 8)) = - 12540" by (rule q15_eq) (use b in simp_all)
  show "q15 (sqrt 2 / 2) = 23170" by (rule q15_eq) (use b in simp_all)
  show "q15 (- (sqrt 2 / 2)) = - 23170" by (rule q15_eq) (use b in simp_all)
qed

lemma q15_unit: "q15 1 = 32767" "q15 0 = 0" "q15 (- 1) = - 32768"
  by (simp_all add: q15_def)

text \<open>The eight angles of the 16-point transform.\<close>

lemma angles_8:
  "cos (3 * pi / 8) = sin (pi / 8)" "sin (3 * pi / 8) = cos (pi / 8)"
  "cos (5 * pi / 8) = - sin (pi / 8)" "sin (5 * pi / 8) = cos (pi / 8)"
  "cos (3 * pi / 4) = - (sqrt 2 / 2)" "sin (3 * pi / 4) = sqrt 2 / 2"
  "cos (7 * pi / 8) = - cos (pi / 8)" "sin (7 * pi / 8) = sin (pi / 8)"
proof -
  have e: "3 * pi / 8 = pi / 2 - pi / 8" "5 * pi / 8 = pi / 2 + pi / 8" "3 * pi / 4 = pi / 2 + pi / 4" "7 * pi / 8 = pi - pi / 8"
    by simp_all
  show "cos (3 * pi / 8) = sin (pi / 8)" "sin (3 * pi / 8) = cos (pi / 8)" unfolding e(1) cos_diff sin_diff by simp_all
  show "cos (5 * pi / 8) = - sin (pi / 8)" "sin (5 * pi / 8) = cos (pi / 8)" unfolding e(2) cos_add sin_add by simp_all
  show "cos (3 * pi / 4) = - (sqrt 2 / 2)" "sin (3 * pi / 4) = sqrt 2 / 2" unfolding e(3) cos_add sin_add by (simp_all add: cos_45 sin_45)
  show "cos (7 * pi / 8) = - cos (pi / 8)" "sin (7 * pi / 8) = sin (pi / 8)" unfolding e(4) cos_diff sin_diff by simp_all
qed

lemma twiddle_angle: "m < 8 \<Longrightarrow> build_twiddle ! (64 * m) = (q15 (cos (real m * pi / 8)), q15 (- sin (real m * pi / 8)))"
proof -
  assume m: "m < 8"
  have "- 2 * pi * real (64 * m) / real NMAX = - (real m * pi / 8)" by (simp add: NMAX_def)
  then show ?thesis using m by (simp add: build_twiddle_def NMAX_def mult.commute)
qed

lemma build_twiddle_16: "\<forall>m<8. build_twiddle ! (64 * m) = twiddles_16 ! m"
proof (intro allI impI)
  fix m :: nat assume m: "m < 8"
  then have "m = 0 \<or> m = 1 \<or> m = 2 \<or> m = 3 \<or> m = 4 \<or> m = 5 \<or> m = 6 \<or> m = 7" by linarith
  moreover have "real 2 * pi / 8 = pi / 4" "real 4 * pi / 8 = pi / 2" "real 6 * pi / 8 = 3 * pi / 4" "real 1 * pi / 8 = pi / 8" by simp_all
  ultimately show "build_twiddle ! (64 * m) = twiddles_16 ! m"
    unfolding twiddle_angle [OF m]
    by (elim disjE) (simp_all add: twiddles_16_def q15_8 q15_unit angles_8 cos_45 sin_45)
qed

lemma tone_spectrum:
  assumes "k < 16"
  shows "model_fft build_twiddle 4 0x3FF False frame_0 ! k = frame_4 ! brev k 4"
proof -
  define F where "F = [frame_0, frame_1, frame_2, frame_3, frame_4]"
  have next_frame: "s < 4 \<Longrightarrow> map (next16 twiddles_16 s (F ! s)) [0..<16] = F ! Suc s" for s
    using frames_next by (auto simp: F_def numeral_eq_Suc less_Suc_eq)
  have on: "s < 4 \<Longrightarrow> bit (0x3FF :: u32) s" for s
  proof -
    assume "s < 4"
    moreover have "bit (mask 10 :: u32) s" if "s < 10" using that by (simp add: bit_mask_iff)
    moreover have "(0x3FF :: u32) = mask 10" by (simp add: mask_eq_exp_minus_1)
    ultimately show "bit (0x3FF :: u32) s" by simp
  qed
  have "\<exists>v. length v = 2 ^ 4 \<and> v = F ! 4 \<and> length (model_fft build_twiddle 4 0x3FF False frame_0) = 2 ^ 4 \<and>
    (\<forall>i<2 ^ 4. model_fft build_twiddle 4 0x3FF False frame_0 ! brev i 4 = v ! i)"
  proof (rule model_fft_stages [where P = "\<lambda>s v. v = F ! s"])
    fix s and a b :: "c16 list"
    assume s: "s < 4" and "length b = 2 ^ 4" "a = F ! s" and st: "stage build_twiddle 4 0x3FF False s a b"
    then show "b = F ! Suc s"
      using stage_next16 [OF st s on [OF s] _ build_twiddle_16] next_frame [OF s] by simp
  qed (simp_all add: F_def frame_0_def)
  then have "\<forall>i<16. model_fft build_twiddle 4 0x3FF False frame_0 ! brev i 4 = frame_4 ! i" by (simp add: F_def)
  moreover have "brev k 4 < 16" using brev_less [of k 4] by simp
  moreover have "brev (brev k 4) 4 = k" using brev_brev [of k 4] assms by simp
  ultimately show ?thesis by metis
qed

end
