(* ===== verification/Fft_Self.thy ===== *)
theory Fft_Self
  imports Board Fft_Tone
begin

unbundle bit_operations_syntax

text \<open>
  \<open>sim/sw/peri/fft/fft.c\<close>: the program that tries the coprocessor end to end, through \<open>fft.h\<close>, \<open>plic.h\<close> and
  \<open>sys.h\<close>.  A check that fails records its number and ends the run; the run is a list of steps.  While
  interrupts are enabled the core may take one before every statement: \<open>irq\<close> is that moment.
\<close>

section \<open>The program\<close>

datatype fft_handler = Fft_isr
datatype fft_hook = Unexpected_isr

text \<open>The statics of \<open>fft.h\<close> and of the program, after those of \<open>plic.h\<close>.\<close>

record 'd self = "('d, unit, fft_hook, fft_handler) plic" +
  ctrl_shadow :: u32
  fail_step :: u32
  irq_seen :: u32
  claim_id :: u32
  bad_cause :: u32
  last_cycles :: u32

text \<open>A call of a routine of \<open>fft.h\<close> that keeps the shadow of the control register.\<close>

definition on_fft :: "('d fft \<Rightarrow> 'a \<times> 'd fft) \<Rightarrow> 'd self \<Rightarrow> 'a \<times> 'd self" where
  "on_fft g s = (let (v, t) = g \<lparr>dev = dev s, evs = evs s, ssd1306_addr = 0, ssd1306_fb = [], fft_ctrl_shadow = ctrl_shadow s\<rparr>
     in (v, s\<lparr>dev := dev t, evs := evs t, ctrl_shadow := fft_ctrl_shadow t\<rparr>))"

definition do_fft :: "('d fft \<Rightarrow> 'd fft) \<Rightarrow> 'd self \<Rightarrow> 'd self" where
  "do_fft g s = snd (on_fft (\<lambda>s. ((), g s)) s)"

definition PLIC_SRC_FFT :: u32 where "PLIC_SRC_FFT = 5"
definition FFT_LOG2N_MIN :: u32 where "FFT_LOG2N_MIN = 2"
definition FFT_LOG2N_MAX :: u32 where "FFT_LOG2N_MAX = 10"
definition FFT_NMAX :: nat where "FFT_NMAX = 1024"

definition fft_isr :: "'d hw \<Rightarrow> u32 \<Rightarrow> 'd self \<Rightarrow> 'd self" where
  "fft_isr hw src s =
     (let s = s\<lparr>claim_id := src\<rparr>;
          s = fft_irq_clear hw s
      in s\<lparr>irq_seen := irq_seen s + 1\<rparr>)"

definition unexpected_isr :: "'d hw \<Rightarrow> u32 \<Rightarrow> 'd self \<Rightarrow> 'd self" where
  "unexpected_isr hw mcause s = (let s = s\<lparr>bad_cause := mcause\<rparr> in sys_irq_global_disable hw s)"

definition trap_entry :: "'d hw \<Rightarrow> 'd self \<Rightarrow> 'd self option" where
  "trap_entry hw = sys_isr_entry hw
     (call_isr hw (\<lambda>_. Some) (\<lambda>h src s. case h of Fft_isr \<Rightarrow> Some (fft_isr hw src s)))
     (\<lambda>u mcause s. case u of Unexpected_isr \<Rightarrow> Some (unexpected_isr hw mcause s))"

section \<open>Steps\<close>

text \<open>A step says whether the run goes on.\<close>

type_synonym 'd step = "'d self \<Rightarrow> (bool \<times> 'd self) option"

definition fail :: "u32 \<Rightarrow> 'd self \<Rightarrow> bool \<times> 'd self" where
  "fail step s = (False, if fail_step s = 0 then s\<lparr>fail_step := step\<rparr> else s)"

definition check :: "u32 \<Rightarrow> ('d self \<Rightarrow> bool \<times> 'd self) \<Rightarrow> 'd step" where
  "check n bad s = (let (b, s) = bad s in Some (if b then fail n s else (True, s)))"

definition act :: "('d self \<Rightarrow> 'd self) \<Rightarrow> 'd step" where
  "act g s = Some (True, g s)"

primrec steps :: "'d step list \<Rightarrow> 'd step" where
  "steps [] s = Some (True, s)"
| "steps (g # gs) s = g s \<bind> (\<lambda>(ok, s). if ok then steps gs s else Some (False, s))"

definition differs :: "('s \<Rightarrow> 'v \<times> 's) \<Rightarrow> 'v \<Rightarrow> 's \<Rightarrow> bool \<times> 's" where
  "differs g v s = (let (x, s) = g s in (x \<noteq> v, s))"

definition fails :: "('s \<Rightarrow> bool \<times> 's) \<Rightarrow> 's \<Rightarrow> bool \<times> 's" where
  "fails g s = (let (b, s) = g s in (\<not> b, s))"

text \<open>The short-circuit \<open>or\<close> of two tests.\<close>

definition either :: "('s \<Rightarrow> bool \<times> 's) \<Rightarrow> ('s \<Rightarrow> bool \<times> 's) \<Rightarrow> 's \<Rightarrow> bool \<times> 's" where
  "either f g s = (let (b, s) = f s in if b then (True, s) else g s)"

text \<open>A bin that is not what it should be.\<close>

definition bin_differs :: "'d hw \<Rightarrow> nat \<Rightarrow> int \<Rightarrow> int \<Rightarrow> 'd self \<Rightarrow> bool \<times> 'd self" where
  "bin_differs hw i re im = either (differs (fft_read_re hw i) re) (differs (fft_read_im hw i) im)"

section \<open>The run\<close>

definition run_registers :: "'d hw \<Rightarrow> 'd step" where
  "run_registers hw = steps [
     check 1 (differs (fft_log2n hw) 10),
     check 2 (differs (rd hw (Fft FFT_SCALE)) FFT_SCALE_FULL),
     check 3 (either (fft_busy hw) (fft_done hw)),
     check 4 (differs (on_fft (fft_begin hw 15)) FFT_LOG2N_MAX),
     check 5 (differs (on_fft (fft_begin hw 0)) FFT_LOG2N_MIN),
     act (snd \<circ> on_fft (fft_begin hw 10)),
     act (fft_write hw 0 0x5678 0x1234),
     check 6 (bin_differs hw 0 0x5678 0x1234),
     check 7 (differs (fft_log2n hw) 10),
     act (fft_write hw (FFT_NMAX - 1) (- 1) (- 1)),
     check 8 (differs (fft_read_re hw (FFT_NMAX - 1)) (- 1))]"

definition run_impulse :: "'d hw \<Rightarrow> 'd step" where
  "run_impulse hw = steps ([
     act (snd \<circ> on_fft (fft_begin hw 3)),
     act (fft_clear hw 8),
     act (fft_write_real hw 0 0x4000),
     act (do_fft (fft_start hw)),
     check 9 (fails (fft_wait hw)),
     act (\<lambda>s. let (v, s) = fft_cycles hw s in s\<lparr>last_cycles := v\<rparr>),
     act (do_fft (fft_swap hw))] @
     map (\<lambda>i. check 10 (bin_differs hw i 0x0800 0)) [0..<8])"

definition run_constant :: "'d hw \<Rightarrow> 'd step" where
  "run_constant hw = steps (
     [act (snd \<circ> on_fft (fft_begin hw 4))] @
     map (\<lambda>i. act (fft_write_real hw i 0x0100)) [0..<16] @ [
     act (do_fft (fft_start hw)),
     check 11 (fails (fft_wait hw)),
     act (do_fft (fft_swap hw)),
     check 12 (differs (fft_read_re hw 0) 0x0100)] @
     map (\<lambda>i. check 13 (bin_differs hw i 0 0)) [1..<16])"

definition run_streaming :: "'d hw \<Rightarrow> 'd step" where
  "run_streaming hw = steps ([
     act (snd \<circ> on_fft (fft_begin hw 3)),
     act (fft_clear hw 8),
     act (fft_write_real hw 0 0x4000),
     act (do_fft (fft_start hw)),
     check 14 (fails (fft_busy hw))] @
     map (\<lambda>i. act (fft_write_real hw i 0x0200)) [0..<8] @ [
     check 15 (fails (fft_wait hw)),
     act (do_fft (fft_start hw))] @
     map (\<lambda>i. check 16 (bin_differs hw i 0x0800 0)) [0..<8] @ [
     check 17 (fails (fft_wait hw)),
     act (do_fft (fft_swap hw)),
     check 18 (differs (fft_read_re hw 0) 0x0200)] @
     map (\<lambda>i. check 19 (bin_differs hw i 0 0)) [1..<8])"

text \<open>The wait for the handler: the core may take the interrupt before each statement of the loop.\<close>

function await_irq :: "'d hw \<Rightarrow> ('d self \<Rightarrow> 'd self option) \<Rightarrow> nat \<Rightarrow> 'd step" where
  "await_irq hw irq spin s = irq s \<bind> (\<lambda>s.
     if irq_seen s = 0 then
       irq (sys_wfi hw s) \<bind> (\<lambda>s.
       if spin + 1 \<ge> FFT_SPIN_LIMIT then Some (fail 21 s) else await_irq hw irq (spin + 1) s)
     else Some (True, s))"
  by pat_completeness auto
termination
  by (relation "measure (\<lambda>(hw, irq, spin, s). FFT_SPIN_LIMIT - spin)") auto

declare await_irq.simps [simp del]

text \<open>A statement of the program with interrupts enabled.\<close>

definition open_to :: "('d self \<Rightarrow> 'd self option) \<Rightarrow> 'd step \<Rightarrow> 'd step" where
  "open_to irq g s = irq s \<bind> g"

definition run_interrupt :: "'d hw \<Rightarrow> u32 \<Rightarrow> ('d self \<Rightarrow> 'd self option) \<Rightarrow> 'd step" where
  "run_interrupt hw isr_addr irq = steps ([
     act (snd \<circ> on_fft (fft_begin hw 5)),
     check 20 (\<lambda>s. let (v, s) = fft_irq_pending hw s in (v \<noteq> 0, s)),
     act (sys_isr_install hw isr_addr),
     act (sys_isr_set_unhandled (Some Unexpected_isr)),
     act (plic_attach PLIC_SRC_FFT Fft_isr),
     act (sys_irq_source_enable hw SYS_MIE_MEIE),
     act (sys_irq_global_enable hw)] @
     map (\<lambda>i. open_to irq (act (fft_write_real hw i 0x0080))) [0..<32] @ [
     open_to irq (act (do_fft (fft_irq_enable hw))),
     open_to irq (act (do_fft (fft_start hw))),
     await_irq hw irq 0,
     open_to irq (act (sys_irq_global_disable hw)),
     check 22 (\<lambda>s. (claim_id s \<noteq> PLIC_SRC_FFT, s)),
     check 23 (\<lambda>s. (bad_cause s \<noteq> 0, s)),
     check 24 (fft_done hw),
     act (do_fft (fft_swap hw)),
     check 25 (differs (fft_read_re hw 0) 0x0080)] @
     map (\<lambda>i. check 26 (bin_differs hw i 0 0)) [1..<32])"

definition cos3_16 :: "int list" where
  "cos3_16 = [16384, 6270, - 11585, - 15137, 0, 15137, 11585, - 6270,
     - 16384, - 6270, 11585, 15137, 0, - 15137, - 11585, 6270]"

text \<open>Bins 3 and 13 mirror each other to within two units.\<close>

definition not_mirrored :: "'d hw \<Rightarrow> 'd self \<Rightarrow> bool \<times> 'd self" where
  "not_mirrored hw s =
     (let (r13, s) = fft_read_re hw 13 s; (r3, s) = fft_read_re hw 3 s;
          (i13, s) = fft_read_im hw 13 s; (i3, s) = fft_read_im hw 3 s;
          d_re = r13 - r3; d_im = i13 + i3;
          d_re = (if d_re < 0 then - d_re else d_re);
          d_im = (if d_im < 0 then - d_im else d_im)
      in (d_re > 2 \<or> d_im > 2, s))"

definition run_helpers :: "'d hw \<Rightarrow> 'd step" where
  "run_helpers hw s =
     (let s = snd (on_fft (fft_begin hw 4) s);
          (out, s) = on_fft (fft_transform_real hw cos3_16) s
      in case out of None \<Rightarrow> Some (fail 27 s)
         | Some out \<Rightarrow> fft_peak_bin hw 1 8 s \<bind> (\<lambda>(peak, s).
             steps [
               check 28 (\<lambda>s. (peak \<noteq> 3, s)),
               check 29 (either (fails (\<lambda>s. let (v, s) = fft_power hw 3 s in (v \<noteq> 0, s)))
                                (fails (\<lambda>s. let (v, s) = fft_mag hw 3 s in (v \<noteq> 0, s)))),
               check 30 (not_mirrored hw),
               check 31 (\<lambda>s. let (v, s) = fft_read_re hw 3 s in (fst (out ! 3) \<noteq> v, s)),
               check 32 (\<lambda>s. (fft_bin_hz 3 16000 16 \<noteq> 3000, s))] s))"

definition run :: "'d hw \<Rightarrow> u32 \<Rightarrow> ('d self \<Rightarrow> 'd self option) \<Rightarrow> 'd step" where
  "run hw isr_addr irq = steps [run_registers hw, run_impulse hw, run_constant hw, run_streaming hw,
     run_interrupt hw isr_addr irq, run_helpers hw]"

definition fft_main :: "'d hw \<Rightarrow> u32 \<Rightarrow> ('d self \<Rightarrow> 'd self option) \<Rightarrow> 'd self \<Rightarrow> 'd self option" where
  "fft_main hw isr_addr irq s = run hw isr_addr irq s \<bind> (\<lambda>(ok, s).
     irq s \<bind> (\<lambda>s.
     let s = sys_irq_global_disable hw s;
         s = do_fft (fft_irq_disable hw) s
     in Some (wr hw (Dmem 0x3000) (if ok \<and> fail_step s = 0 then 0x600D else 0xBAD) s)))"

section \<open>The coprocessor on the board\<close>

text \<open>
  The device of \<open>Fft\<close> with its interrupt: the enable is bit 1 of the control register, the line is the sticky
  DONE gated by it, IRQ reads DONE.  The cycle count of a transform is what it is (\<open>cyc\<close>).
\<close>

record fft_slot =
  core :: fft_dev
  irq_en :: bool
  cyc :: u32

definition slot_rd :: "mreg \<Rightarrow> fft_slot \<Rightarrow> u32 \<times> fft_slot" where
  "slot_rd r x = (case r of
       Fft FFT_IRQ \<Rightarrow> (if done_q (core x) then 1 else 0, x)
     | Fft FFT_CYCLES \<Rightarrow> (cyc x, x)
     | Fft q \<Rightarrow> (let (v, d) = fft_reg_rd q (core x) in (v, x\<lparr>core := d\<rparr>))
     | _ \<Rightarrow> (0, x))"

definition slot_wr :: "transform \<Rightarrow> nat \<Rightarrow> mreg \<Rightarrow> u32 \<Rightarrow> fft_slot \<Rightarrow> fft_slot" where
  "slot_wr tr lat r v x = (case r of
       Fft q \<Rightarrow> x\<lparr>core := fft_reg_wr tr lat q v (core x), irq_en := (if q = FFT_CTRL then bit v 1 else irq_en x)\<rparr>
     | _ \<Rightarrow> x)"

definition fft_slot :: "transform \<Rightarrow> nat \<Rightarrow> fft_slot peri" where
  "fft_slot tr lat = \<lparr>p_rd = slot_rd, p_wr = slot_wr tr lat,
     p_lines = \<lambda>x. if done_q (core x) \<and> irq_en x then push_bit (unat PLIC_SRC_FFT) 1 else 0,
     p_tick = \<lambda>x. x\<lparr>core := fft_poll (core x)\<rparr>\<rparr>"

abbreviation fft_board :: "transform \<Rightarrow> nat \<Rightarrow> fft_slot board hw" where
  "fft_board tr lat \<equiv> board_hw (fft_slot tr lat)"

text \<open>What no access to the coprocessor changes: the core and the controller.\<close>

definition hart :: "'x board \<Rightarrow> u32 \<times> u32 \<times> u32 \<times> u32 \<times> u32" where
  "hart b = (mstatus_q b, mie_q b, mtvec_q b, mcause_q b, enable_q b)"

lemma slot_rd_visible: "visible q \<Longrightarrow> slot_rd (Fft q) x = (fst (fft_reg_rd q (core x)), x\<lparr>core := snd (fft_reg_rd q (core x))\<rparr>)"
  by (cases q) (simp_all add: slot_rd_def visible_def)

interpretation slot: coprocessor "fft_board tr lat" "\<lambda>b. core (peri_q b)" hart tr lat for tr lat
proof
  fix q and b :: "fft_slot board" and v
  show "fst (hw_rd (fft_board tr lat) (Fft q) b) = fst (fft_reg_rd q (core (peri_q b))) \<and>
      core (peri_q (snd (hw_rd (fft_board tr lat) (Fft q) b))) = snd (fft_reg_rd q (core (peri_q b))) \<and>
      hart (snd (hw_rd (fft_board tr lat) (Fft q) b)) = hart b" if "visible q"
    using that by (simp add: board_hw_def board_rd_def fft_slot_def slot_rd_visible hart_def)
  show "core (peri_q (hw_wr (fft_board tr lat) (Fft q) v b)) = fft_reg_wr tr lat q v (core (peri_q b)) \<and>
      hart (hw_wr (fft_board tr lat) (Fft q) v b) = hart b"
    by (simp add: board_hw_def board_wr_def fft_slot_def slot_wr_def hart_def)
qed

section \<open>What a step does to the coprocessor\<close>

text \<open>
  The device at rest or running: the size \<open>l\<close>, the polls \<open>b\<close> it still needs, DONE, the frame in the buffer of
  the program and the one in the buffer of the engine, with the scaling at its reset value.
\<close>

definition view :: "nat \<Rightarrow> nat \<Rightarrow> bool \<Rightarrow> u32 list \<Rightarrow> u32 list \<Rightarrow> u32 \<Rightarrow> fft_dev \<Rightarrow> u32 \<Rightarrow> bool" where
  "view l b dn xs ys sh d sh' \<longleftrightarrow> l \<le> 10 \<and> log2n_q d = l \<and> busy_for d = b \<and> done_q d = dn \<and> scale_q d = FFT_SCALE_FULL \<and> sh' = sh \<and>
     length (cpu_buf d) = 1024 \<and> length (eng_buf d) = 1024 \<and> take (2 ^ l) (cpu_buf d) = xs \<and> take (2 ^ l) (eng_buf d) = ys"

text \<open>Only the device, the log, the shadow and the cycle count have moved.\<close>

definition same :: "fft_slot board self \<Rightarrow> fft_slot board self \<Rightarrow> bool" where
  "same s t \<longleftrightarrow> t = s\<lparr>dev := dev t, evs := evs t, ctrl_shadow := ctrl_shadow t, last_cycles := last_cycles t\<rparr> \<and>
     hart (dev t) = hart (dev s)"

definition goes :: "fft_slot board step \<Rightarrow> (fft_dev \<Rightarrow> u32 \<Rightarrow> bool) \<Rightarrow> (fft_dev \<Rightarrow> u32 \<Rightarrow> bool) \<Rightarrow> bool" where
  "goes g P Q \<longleftrightarrow> (\<forall>s. P (core (peri_q (dev s))) (ctrl_shadow s) \<longrightarrow>
     (\<exists>t. g s = Some (True, t) \<and> same s t \<and> Q (core (peri_q (dev t))) (ctrl_shadow t)))"

lemma same_trans: "same s t \<Longrightarrow> same t u \<Longrightarrow> same s u"
  unfolding same_def by (cases s; cases t; cases u) simp

lemma same_refl: "same s s"
  by (simp add: same_def)

lemma goesD:
  assumes "goes g P Q" and "P (core (peri_q (dev s))) (ctrl_shadow s)"
  obtains t where "g s = Some (True, t)" "same s t" "Q (core (peri_q (dev t))) (ctrl_shadow t)"
  using assms unfolding goes_def by blast

lemma goes_nil: "goes (steps []) P P"
  by (auto simp: goes_def intro: same_refl)

lemma goes_cons: "goes g P Q \<Longrightarrow> goes (steps gs) Q R \<Longrightarrow> goes (steps (g # gs)) P R"
  unfolding goes_def
proof (intro allI impI)
  fix s :: "fft_slot board self"
  assume g: "\<forall>s. P (core (peri_q (dev s))) (ctrl_shadow s) \<longrightarrow> (\<exists>t. g s = Some (True, t) \<and> same s t \<and> Q (core (peri_q (dev t))) (ctrl_shadow t))"
    and gs: "\<forall>s. Q (core (peri_q (dev s))) (ctrl_shadow s) \<longrightarrow> (\<exists>t. steps gs s = Some (True, t) \<and> same s t \<and> R (core (peri_q (dev t))) (ctrl_shadow t))"
    and s: "P (core (peri_q (dev s))) (ctrl_shadow s)"
  obtain t where t: "g s = Some (True, t)" "same s t" "Q (core (peri_q (dev t))) (ctrl_shadow t)" using g s by blast
  obtain u where u: "steps gs t = Some (True, u)" "same t u" "R (core (peri_q (dev u))) (ctrl_shadow u)" using gs t(3) by blast
  show "\<exists>t. steps (g # gs) s = Some (True, t) \<and> same s t \<and> R (core (peri_q (dev t))) (ctrl_shadow t)"
    using t u same_trans [OF t(2) u(2)] by auto
qed

lemma steps_append: "steps (xs @ ys) s = steps xs s \<bind> (\<lambda>(ok, s). if ok then steps ys s else Some (False, s))"
proof (induction xs arbitrary: s)
  case Nil
  then show ?case by simp
next
  case (Cons g xs)
  then show ?case by (cases "g s") (auto split: option.splits)
qed

lemma goes_append:
  assumes "goes (steps xs) P Q" and "goes (steps ys) Q R"
  shows "goes (steps (xs @ ys)) P R"
  unfolding goes_def
proof (intro allI impI)
  fix s :: "fft_slot board self" assume s: "P (core (peri_q (dev s))) (ctrl_shadow s)"
  obtain t where t: "steps xs s = Some (True, t)" "same s t" "Q (core (peri_q (dev t))) (ctrl_shadow t)"
    using goesD [OF assms(1), of s] s by blast
  obtain u where u: "steps ys t = Some (True, u)" "same t u" "R (core (peri_q (dev u))) (ctrl_shadow u)"
    using goesD [OF assms(2), of t] t(3) by blast
  show "\<exists>t. steps (xs @ ys) s = Some (True, t) \<and> same s t \<and> R (core (peri_q (dev t))) (ctrl_shadow t)"
    using t u same_trans [OF t(2) u(2)] by (auto simp: steps_append)
qed

lemma goes_exC: "(\<And>xs ys. C xs ys \<Longrightarrow> goes g (P xs ys) Q) \<Longrightarrow> goes g (\<lambda>d sh. \<exists>xs ys. C xs ys \<and> P xs ys d sh) Q"
  unfolding goes_def by blast

text \<open>The same effect of every member of a list of steps, one after the other.\<close>

lemma goes_each: "(\<And>g. g \<in> set gs \<Longrightarrow> goes g P P) \<Longrightarrow> goes (steps gs) P P"
  by (induction gs) (auto intro: goes_nil goes_cons)

section \<open>The steps of this program\<close>

lemma same_only_bus: "only_bus s t \<Longrightarrow> hart (dev t) = hart (dev s) \<Longrightarrow> same s t \<and> ctrl_shadow t = ctrl_shadow s"
  unfolding same_def only_bus_def by (cases s; cases t) simp

lemma leads_same: "slot.leads s d t \<Longrightarrow> same s t \<and> ctrl_shadow t = ctrl_shadow s \<and> core (peri_q (dev t)) = d"
  using same_only_bus unfolding slot.leads_def by blast

text \<open>A step that is a routine of the bus.\<close>

lemma goes_leads:
  assumes "\<And>s. P (core (peri_q (dev s))) (ctrl_shadow s) \<Longrightarrow>
    \<exists>d t. g s = Some (True, t) \<and> slot.leads s d t \<and> Q d (ctrl_shadow s)"
  shows "goes g P Q"
  using assms unfolding goes_def by (metis leads_same)

text \<open>The state in which a routine of \<open>fft.h\<close> runs.\<close>

definition inner :: "'d self \<Rightarrow> 'd fft" where
  "inner s = \<lparr>dev = dev s, evs = evs s, ssd1306_addr = 0, ssd1306_fb = [], fft_ctrl_shadow = ctrl_shadow s\<rparr>"

lemma inner_simps [simp]: "dev (inner s) = dev s" "fft_ctrl_shadow (inner s) = ctrl_shadow s"
  by (simp_all add: inner_def)

lemma on_fft_inner: "on_fft g s = (fst (g (inner s)),
    s\<lparr>dev := dev (snd (g (inner s))), evs := evs (snd (g (inner s))), ctrl_shadow := fft_ctrl_shadow (snd (g (inner s)))\<rparr>)"
  by (simp add: on_fft_def inner_def case_prod_beta)

lemma same_on_fft:
  assumes "hart (dev (snd (g (inner s)))) = hart (dev s)"
  shows "same s (snd (on_fft g s))"
  using assms by (simp add: on_fft_inner same_def)

lemma goes_do:
  assumes "\<And>s. P (core (peri_q (dev s))) (fft_ctrl_shadow s) \<Longrightarrow>
    \<exists>d. slot.leads s d (g s) \<and> Q d (fft_ctrl_shadow s)"
  shows "goes (act (do_fft g)) P Q"
  unfolding goes_def
proof (intro allI impI)
  fix s :: "fft_slot board self" assume "P (core (peri_q (dev s))) (ctrl_shadow s)"
  then obtain d where d: "slot.leads (inner s) d (g (inner s))" "Q d (ctrl_shadow s)"
    using assms [of "inner s"] by auto
  have "fft_ctrl_shadow (g (inner s)) = ctrl_shadow s"
    using d(1) shadow_only_bus [of "inner s"] by (simp add: slot.leads_def)
  then show "\<exists>t. act (do_fft g) s = Some (True, t) \<and> same s t \<and> Q (core (peri_q (dev t))) (ctrl_shadow t)"
    using d by (simp add: act_def do_fft_def on_fft_inner same_def slot.leads_def)
qed

text \<open>The size a store to CONF sets.\<close>

definition size_of :: "u32 \<Rightarrow> nat" where
  "size_of n = max 2 (min 10 (unat (n AND 0xF)))"

context coprocessor
begin

lemma begin_leads:
  assumes "busy_for (co (dev s)) = 0"
  shows "fst (fft_begin hw n s) = of_nat (size_of n)"
    and "leads (s\<lparr>fft_ctrl_shadow := 0\<rparr>) ((co (dev s))\<lparr>done_q := False, log2n_q := size_of n, scale_q := 0x3FF\<rparr>) (snd (fft_begin hw n s))"
proof -
  let ?s = "s\<lparr>fft_ctrl_shadow := 0\<rparr>"
  let ?a = "wr hw (Fft FFT_CTRL) 0 ?s"
  let ?b = "wr hw (Fft FFT_IRQ) 1 ?a"
  let ?c = "wr hw (Fft FFT_CONF) n ?b"
  let ?e = "wr hw (Fft FFT_SCALE) FFT_SCALE_FULL ?c"
  have a: "leads ?s (co (dev s)) ?a" using wr_leads [of ?s FFT_CTRL 0] assms(1) by (simp add: fft_ctrl_wr_def)
  have b: "leads ?s ((co (dev s))\<lparr>done_q := False\<rparr>) ?b"
    using leads_trans [OF a wr_leads [of ?a FFT_IRQ 1]] leads_co [OF a] by simp
  have c: "leads ?s ((co (dev s))\<lparr>done_q := False, log2n_q := size_of n\<rparr>) ?c"
    using leads_trans [OF b wr_leads [of ?b FFT_CONF n]] leads_co [OF b] assms(1) by (simp add: size_of_def)
  have e: "leads ?s ((co (dev s))\<lparr>done_q := False, log2n_q := size_of n, scale_q := 0x3FF\<rparr>) ?e"
    using leads_trans [OF c wr_leads [of ?c FFT_SCALE FFT_SCALE_FULL]] leads_co [OF c] assms(1) by (simp add: FFT_SCALE_FULL_def)
  show "fst (fft_begin hw n s) = of_nat (size_of n)"
    using leads_co [OF e] by (simp add: fft_begin_def rd_co)
  show "leads ?s ((co (dev s))\<lparr>done_q := False, log2n_q := size_of n, scale_q := 0x3FF\<rparr>) (snd (fft_begin hw n s))"
    using leads_trans [OF e rd_leads [of FFT_CONF ?e]] leads_co [OF e] by (simp add: fft_begin_def)
qed

end

text \<open>An engine at rest.\<close>

definition idle :: "fft_dev \<Rightarrow> bool" where
  "idle d \<longleftrightarrow> busy_for d = 0 \<and> length (cpu_buf d) = 1024 \<and> length (eng_buf d) = 1024"

lemma view_idle: "view l 0 dn xs ys sh d sh' \<Longrightarrow> idle d"
  by (simp add: view_def idle_def)

lemma begin_self:
  assumes "idle (core (peri_q (dev s)))"
  obtains xs ys where "fst (on_fft (fft_begin (fft_board tr lat) n) s) = of_nat (size_of n)"
    "same s (snd (on_fft (fft_begin (fft_board tr lat) n) s))" "length xs = 2 ^ size_of n" "length ys = 2 ^ size_of n"
    "view (size_of n) 0 False xs ys 0 (core (peri_q (dev (snd (on_fft (fft_begin (fft_board tr lat) n) s)))))
       (ctrl_shadow (snd (on_fft (fft_begin (fft_board tr lat) n) s)))"
proof -
  let ?t = "snd (fft_begin (fft_board tr lat) n (inner s))" and ?d = "core (peri_q (dev s))"
  have b: "busy_for (core (peri_q (dev (inner s)))) = 0" using assms by (simp add: idle_def)
  note v = slot.begin_leads(1) [OF b] and l = slot.begin_leads(2) [OF b]
  have "only_bus ((inner s)\<lparr>fft_ctrl_shadow := 0\<rparr>) ?t" using l by (simp add: slot.leads_def)
  then have "fft_ctrl_shadow ?t = 0" using shadow_only_bus by fastforce
  moreover have "core (peri_q (dev ?t)) = ?d\<lparr>done_q := False, log2n_q := size_of n, scale_q := 0x3FF\<rparr>"
    using slot.leads_co [OF l] by simp
  moreover have "size_of n \<le> 10" by (simp add: size_of_def)
  moreover have "(2 :: nat) ^ size_of n \<le> 1024"
    using power_increasing [of "size_of n" 10 "2 :: nat"] by (simp add: size_of_def)
  ultimately show ?thesis
    using assms v l that [of "take (2 ^ size_of n) (cpu_buf ?d)" "take (2 ^ size_of n) (eng_buf ?d)"]
    by (simp add: on_fft_inner same_def slot.leads_def idle_def view_def FFT_SCALE_FULL_def)
qed

lemma goes_begin:
  "goes (act (snd \<circ> on_fft (fft_begin (fft_board tr lat) n))) (\<lambda>d sh. idle d)
     (\<lambda>d sh. \<exists>xs ys. (length xs = 2 ^ size_of n \<and> length ys = 2 ^ size_of n) \<and> view (size_of n) 0 False xs ys 0 d sh)"
  unfolding goes_def act_def by (auto elim!: begin_self [where tr = tr and lat = lat and n = n])

lemma goes_begin_check:
  assumes "of_nat (size_of n) = v"
  shows "goes (check k (differs (on_fft (fft_begin (fft_board tr lat) n)) v)) (\<lambda>d sh. idle d) (\<lambda>d sh. idle d)"
  unfolding goes_def
proof (intro allI impI)
  fix s :: "fft_slot board self" assume "idle (core (peri_q (dev s)))"
  then obtain xs ys where "fst (on_fft (fft_begin (fft_board tr lat) n) s) = of_nat (size_of n)"
    "same s (snd (on_fft (fft_begin (fft_board tr lat) n) s))"
    "view (size_of n) 0 False xs ys 0 (core (peri_q (dev (snd (on_fft (fft_begin (fft_board tr lat) n) s)))))
       (ctrl_shadow (snd (on_fft (fft_begin (fft_board tr lat) n) s)))"
    by (rule begin_self)
  then show "\<exists>t. check k (differs (on_fft (fft_begin (fft_board tr lat) n)) v) s = Some (True, t) \<and> same s t \<and> idle (core (peri_q (dev t)))"
    using assms by (simp add: check_def differs_def case_prod_beta view_idle)
qed

lemma goes_act:
  assumes "\<And>s. P (core (peri_q (dev s))) (ctrl_shadow s) \<Longrightarrow> \<exists>d. slot.leads s d (g s) \<and> Q d (ctrl_shadow s)"
  shows "goes (act g) P Q"
  by (rule goes_leads) (use assms in \<open>auto simp: act_def\<close>)

lemma goes_check:
  assumes "\<And>s. P (core (peri_q (dev s))) (ctrl_shadow s) \<Longrightarrow>
    \<exists>d t. bad s = (False, t) \<and> slot.leads s d t \<and> Q d (ctrl_shadow s)"
  shows "goes (check n bad) P Q"
  by (rule goes_leads) (use assms in \<open>fastforce simp: check_def\<close>)

lemma view_write:
  "view l b dn xs ys sh d sh' \<Longrightarrow> i < 2 ^ l \<Longrightarrow>
   view l b dn (xs[i := w]) ys sh (d\<lparr>cpu_buf := (cpu_buf d)[i := w]\<rparr>) sh'"
  by (auto simp: view_def take_update_swap)

lemma goes_write:
  "i < 2 ^ l \<Longrightarrow> goes (act (fft_write (fft_board tr lat) i re im)) (view l b dn xs ys sh) (view l b dn (xs[i := pack re im]) ys sh)"
  using slot.wr_leads [where q = "FFT_DATA i" and v = "pack re im"] view_write
  by (intro goes_act) (fastforce simp: fft_write_def)

lemma goes_write_real:
  "i < 2 ^ l \<Longrightarrow> goes (act (fft_write_real (fft_board tr lat) i re)) (view l b dn xs ys sh) (view l b dn (xs[i := pack re 0]) ys sh)"
  using goes_write [of i l tr lat re 0] by (simp add: fft_write_def [abs_def] fft_write_real_def [abs_def] pack_real)

lemma goes_fill_real:
  assumes "n \<le> 2 ^ l" and "length xs = 2 ^ l"
  shows "goes (steps (map (\<lambda>i. act (fft_write_real (fft_board tr lat) i c)) [0..<n])) (view l b dn xs ys sh)
    (view l b dn (replicate n (pack c 0) @ drop n xs) ys sh)"
  using assms(1)
proof (induction n)
  case 0
  show ?case using goes_nil [of "view l b dn xs ys sh"] by (simp del: steps.simps)
next
  case (Suc n)
  have "(replicate n (pack c 0) @ drop n xs)[n := pack c 0] = replicate (Suc n) (pack c 0) @ drop (Suc n) xs"
  proof -
    have "drop n xs = xs ! n # drop (Suc n) xs" using Suc.prems assms(2) by (simp add: Cons_nth_drop_Suc)
    then show ?thesis by (simp add: list_update_append replicate_append_same)
  qed
  then have "goes (act (fft_write_real (fft_board tr lat) n c)) (view l b dn (replicate n (pack c 0) @ drop n xs) ys sh)
      (view l b dn (replicate (Suc n) (pack c 0) @ drop (Suc n) xs) ys sh)"
    using goes_write_real [of n l tr lat c b dn "replicate n (pack c 0) @ drop n xs" ys sh] Suc.prems by simp
  then have "goes (steps [act (fft_write_real (fft_board tr lat) n c)]) (view l b dn (replicate n (pack c 0) @ drop n xs) ys sh)
      (view l b dn (replicate (Suc n) (pack c 0) @ drop (Suc n) xs) ys sh)"
    by (rule goes_cons) (rule goes_nil)
  from goes_append [OF Suc.IH this] Suc.prems show ?case by simp
qed

lemma goes_clear:
  assumes "n = 2 ^ l"
  shows "goes (act (fft_clear (fft_board tr lat) n)) (view l b dn xs ys sh) (view l b dn (replicate n 0) ys sh)"
proof (rule goes_act)
  fix s :: "fft_slot board self" assume v: "view l b dn xs ys sh (core (peri_q (dev s))) (ctrl_shadow s)"
  let ?d = "core (peri_q (dev s))"
  have "(2 :: nat) ^ l \<le> 1024" using power_increasing [of l 10 "2 :: nat"] v by (simp add: view_def)
  then have "slot.leads s (?d\<lparr>cpu_buf := replicate n 0 @ drop n (cpu_buf ?d)\<rparr>) (fft_clear (fft_board tr lat) n s)"
    using slot.fill_leads [where n = n and s = s and f = "\<lambda>_. 0" and tr = tr and lat = lat] v assms by (simp add: fft_clear_def view_def map_replicate_const)
  moreover have "view l b dn (replicate n 0) ys sh (?d\<lparr>cpu_buf := replicate n 0 @ drop n (cpu_buf ?d)\<rparr>) (ctrl_shadow s)"
    using v assms \<open>2 ^ l \<le> 1024\<close> by (simp add: view_def)
  ultimately show "\<exists>d. slot.leads s d (fft_clear (fft_board tr lat) n s) \<and> view l b dn (replicate n 0) ys sh d (ctrl_shadow s)"
    by blast
qed

lemma view_start:
  assumes "view l 0 dn xs ys sh d sh'" and "\<And>l b c xs. length (tr l b c xs) = length xs"
  shows "view l n dn' ys (tr l (bit sh 2) FFT_SCALE_FULL xs) sh (d\<lparr>cpu_buf := eng_buf d,
      eng_buf := run_on tr (bit sh' 2) d (cpu_buf d), busy_for := n, done_q := dn'\<rparr>) sh'"
proof -
  have "(2 :: nat) ^ l \<le> 1024" using power_increasing [of l 10 "2 :: nat"] assms(1) by (simp add: view_def)
  then show ?thesis using assms by (auto simp: view_def run_on_def min_def)
qed

lemma goes_start:
  assumes "\<And>l b c xs. length (tr l b c xs) = length xs"
  shows "goes (act (do_fft (fft_start (fft_board tr lat)))) (view l 0 dn xs ys sh)
    (view l lat (lat = 0) ys (tr l (bit sh 2) FFT_SCALE_FULL xs) sh)"
proof (rule goes_do)
  fix s :: "fft_slot board fft" assume v: "view l 0 dn xs ys sh (core (peri_q (dev s))) (fft_ctrl_shadow s)"
  then have "busy_for (core (peri_q (dev s))) = 0" by (simp add: view_def)
  from slot.start_leads [where tr = tr and lat = lat, OF this]
    view_start [where tr = tr and n = lat and dn' = "lat = 0", OF v assms]
  show "\<exists>d. slot.leads s d (fft_start (fft_board tr lat) s) \<and>
    view l lat (lat = 0) ys (tr l (bit sh 2) FFT_SCALE_FULL xs) sh d (fft_ctrl_shadow s)"
    by blast
qed

lemma goes_wait:
  assumes "b < FFT_SPIN_LIMIT" and "dn = (b = 0)"
  shows "goes (check n (fails (fft_wait (fft_board tr lat)))) (view l b dn xs ys sh) (view l 0 True xs ys sh)"
proof (rule goes_check)
  fix s :: "fft_slot board self" assume v: "view l b dn xs ys sh (core (peri_q (dev s))) (ctrl_shadow s)"
  then obtain t where t: "fft_wait_loop (fft_board tr lat) 0 s = (True, t)" "slot.leads s (core (peri_q (dev t))) t"
    "core (peri_q (dev t)) = (core (peri_q (dev s)))\<lparr>busy_for := 0, done_q := True\<rparr>"
    using slot.wait_leads [of s 0 tr lat] assms by (auto simp: view_def)
  then show "\<exists>d t. fails (fft_wait (fft_board tr lat)) s = (False, t) \<and> slot.leads s d t \<and> view l 0 True xs ys sh d (ctrl_shadow s)"
    using v by (auto simp: fails_def fft_wait_def view_def)
qed

lemma goes_swap:
  assumes "\<not> bit sh 0"
  shows "goes (act (do_fft (fft_swap (fft_board tr lat)))) (view l 0 dn xs ys sh) (view l 0 dn ys xs sh)"
proof (rule goes_do)
  fix s :: "fft_slot board fft" assume v: "view l 0 dn xs ys sh (core (peri_q (dev s))) (fft_ctrl_shadow s)"
  then have "busy_for (core (peri_q (dev s))) = 0" "\<not> bit (fft_ctrl_shadow s) 0" using assms by (simp_all add: view_def)
  from slot.swap_leads [OF this]
  show "\<exists>d. slot.leads s d (fft_swap (fft_board tr lat) s) \<and> view l 0 dn ys xs sh d (fft_ctrl_shadow s)"
    using v by (fastforce simp: view_def)
qed

lemma view_nth: "view l b dn xs ys sh d sh' \<Longrightarrow> i < 2 ^ l \<Longrightarrow> cpu_buf d ! i = xs ! i"
  by (auto simp: view_def)

lemma goes_read_check:
  assumes "i < 2 ^ l" and "s16 (xs ! i) = v"
  shows "goes (check n (differs (fft_read_re (fft_board tr lat) i) v)) (view l b dn xs ys sh) (view l b dn xs ys sh)"
proof (rule goes_check)
  fix s :: "fft_slot board self" assume w: "view l b dn xs ys sh (core (peri_q (dev s))) (ctrl_shadow s)"
  have "differs (fft_read_re (fft_board tr lat) i) v s = (False, snd (rd (fft_board tr lat) (Fft (FFT_DATA i)) s))"
    using assms view_nth [OF w] slot.rd_co [of "FFT_DATA i" tr lat s] by (simp add: differs_def fft_read_re_def case_prod_beta)
  then show "\<exists>d t. differs (fft_read_re (fft_board tr lat) i) v s = (False, t) \<and> slot.leads s d t \<and> view l b dn xs ys sh d (ctrl_shadow s)"
    using slot.rd_leads [of "FFT_DATA i" s tr lat] w by auto
qed

lemma goes_bin_check:
  assumes "i < 2 ^ l" and "(s16 (xs ! i), s16 (drop_bit 16 (xs ! i))) = (re, im)"
  shows "goes (check n (bin_differs (fft_board tr lat) i re im)) (view l b dn xs ys sh) (view l b dn xs ys sh)"
proof (rule goes_check)
  fix s :: "fft_slot board self" assume w: "view l b dn xs ys sh (core (peri_q (dev s))) (ctrl_shadow s)"
  let ?t = "snd (rd (fft_board tr lat) (Fft (FFT_DATA i)) s)" and ?d = "core (peri_q (dev s))"
  have l: "slot.leads s ?d ?t" using slot.rd_leads [of "FFT_DATA i" s tr lat] by simp
  note d = slot.leads_co [OF l]
  have m: "slot.leads s ?d (snd (rd (fft_board tr lat) (Fft (FFT_DATA i)) ?t))"
    using slot.leads_trans [OF l slot.rd_leads [of "FFT_DATA i" ?t tr lat]] d by simp
  have "bin_differs (fft_board tr lat) i re im s = (False, snd (rd (fft_board tr lat) (Fft (FFT_DATA i)) ?t))"
    using assms view_nth [OF w] slot.rd_co [of "FFT_DATA i" tr lat s] slot.rd_co [of "FFT_DATA i" tr lat ?t] d
    by (simp add: bin_differs_def either_def differs_def fft_read_re_def fft_read_im_def case_prod_beta)
  then show "\<exists>d t. bin_differs (fft_board tr lat) i re im s = (False, t) \<and> slot.leads s d t \<and> view l b dn xs ys sh d (ctrl_shadow s)"
    using m w by blast
qed

lemma goes_bins_check:
  assumes "\<And>i. i \<in> set is \<Longrightarrow> i < 2 ^ l \<and> (s16 (xs ! i), s16 (drop_bit 16 (xs ! i))) = (re, im)"
  shows "goes (steps (map (\<lambda>i. check n (bin_differs (fft_board tr lat) i re im)) is)) (view l b dn xs ys sh) (view l b dn xs ys sh)"
  using assms by (intro goes_each) (auto intro: goes_bin_check)

lemma goes_cycles:
  "goes (act (\<lambda>s. let (v, s) = fft_cycles (fft_board tr lat) s in s\<lparr>last_cycles := v\<rparr>)) (view l b dn xs ys sh) (view l b dn xs ys sh)"
  by (simp add: goes_def act_def fft_cycles_def rd_def board_hw_def board_rd_def fft_slot_def slot_rd_def same_def hart_def)

lemma goes_log2n:
  assumes "of_nat l = v"
  shows "goes (check n (differs (fft_log2n (fft_board tr lat)) v)) (view l b dn xs ys sh) (view l b dn xs ys sh)"
proof (rule goes_check)
  fix s :: "fft_slot board self" assume w: "view l b dn xs ys sh (core (peri_q (dev s))) (ctrl_shadow s)"
  have "differs (fft_log2n (fft_board tr lat)) v s = (False, snd (rd (fft_board tr lat) (Fft FFT_CONF) s))"
    using assms w slot.rd_co [of FFT_CONF tr lat s] by (simp add: differs_def fft_log2n_def case_prod_beta view_def)
  then show "\<exists>d t. differs (fft_log2n (fft_board tr lat)) v s = (False, t) \<and> slot.leads s d t \<and> view l b dn xs ys sh d (ctrl_shadow s)"
    using slot.rd_leads [of FFT_CONF s tr lat] w by auto
qed

lemma goes_scale:
  "goes (check n (differs (rd (fft_board tr lat) (Fft FFT_SCALE)) FFT_SCALE_FULL)) (view l b dn xs ys sh) (view l b dn xs ys sh)"
proof (rule goes_check)
  fix s :: "fft_slot board self" assume w: "view l b dn xs ys sh (core (peri_q (dev s))) (ctrl_shadow s)"
  have "differs (rd (fft_board tr lat) (Fft FFT_SCALE)) FFT_SCALE_FULL s = (False, snd (rd (fft_board tr lat) (Fft FFT_SCALE) s))"
    using w slot.rd_co [of FFT_SCALE tr lat s] by (simp add: differs_def case_prod_beta view_def)
  then show "\<exists>d t. differs (rd (fft_board tr lat) (Fft FFT_SCALE)) FFT_SCALE_FULL s = (False, t) \<and> slot.leads s d t \<and>
      view l b dn xs ys sh d (ctrl_shadow s)"
    using slot.rd_leads [of FFT_SCALE s tr lat] w by auto
qed

text \<open>The status bits of an engine at rest, and the busy bit of one that runs.\<close>

lemma status_self:
  fixes s :: "fft_slot board self"
  assumes "bits AND 3 = bits"
  shows "fft_status (fft_board tr lat) bits s =
      ((if busy_for (core (peri_q (dev s))) \<noteq> 0 then bits AND 1 \<noteq> 0 else False) \<or> (if done_q (core (peri_q (dev s))) then bits AND 2 \<noteq> 0 else False),
       snd (rd (fft_board tr lat) (Fft FFT_STATUS) s))"
proof -
  have "(3 :: u32) AND bits = bits" using assms by (simp add: and.commute)
  moreover have "bits \<noteq> 0 \<longleftrightarrow> bits AND 1 \<noteq> 0 \<or> bits AND 2 \<noteq> 0"
  proof
    assume "bits \<noteq> 0"
    show "bits AND 1 \<noteq> 0 \<or> bits AND 2 \<noteq> 0"
    proof (rule ccontr)
      assume "\<not> (bits AND 1 \<noteq> 0 \<or> bits AND 2 \<noteq> 0)"
      then have "bits AND (1 OR 2) = 0" unfolding bit.conj_disj_distrib by simp
      then show False using assms \<open>bits \<noteq> 0\<close> by simp
    qed
  qed auto
  ultimately show ?thesis
    using slot.rd_co [of FFT_STATUS tr lat s]
    by (simp add: fft_status_def case_prod_beta) (simp add: and.commute)
qed

lemma goes_at_rest:
  "goes (check n (either (fft_busy (fft_board tr lat)) (fft_done (fft_board tr lat)))) (view l 0 False xs ys sh) (view l 0 False xs ys sh)"
proof (rule goes_check)
  fix s :: "fft_slot board self" assume w: "view l 0 False xs ys sh (core (peri_q (dev s))) (ctrl_shadow s)"
  let ?t = "snd (rd (fft_board tr lat) (Fft FFT_STATUS) s)" and ?d = "core (peri_q (dev s))"
  have l: "slot.leads s ?d ?t" using slot.rd_leads [of FFT_STATUS s tr lat] w by (simp add: fft_poll_def view_def)
  note d = slot.leads_co [OF l]
  have m: "slot.leads s ?d (snd (rd (fft_board tr lat) (Fft FFT_STATUS) ?t))"
    using slot.leads_trans [OF l slot.rd_leads [of FFT_STATUS ?t tr lat]] d w by (simp add: fft_poll_def view_def)
  have "either (fft_busy (fft_board tr lat)) (fft_done (fft_board tr lat)) s = (False, snd (rd (fft_board tr lat) (Fft FFT_STATUS) ?t))"
    using w d by (simp add: either_def fft_busy_def fft_done_def status_self FFT_ST_BUSY_def FFT_ST_DONE_def view_def)
  then show "\<exists>d t. either (fft_busy (fft_board tr lat)) (fft_done (fft_board tr lat)) s = (False, t) \<and> slot.leads s d t \<and>
      view l 0 False xs ys sh d (ctrl_shadow s)"
    using m w by blast
qed

lemma goes_not_done:
  "goes (check n (fft_done (fft_board tr lat))) (view l 0 False xs ys sh) (view l 0 False xs ys sh)"
proof (rule goes_check)
  fix s :: "fft_slot board self" assume w: "view l 0 False xs ys sh (core (peri_q (dev s))) (ctrl_shadow s)"
  let ?t = "snd (rd (fft_board tr lat) (Fft FFT_STATUS) s)" and ?d = "core (peri_q (dev s))"
  have "slot.leads s ?d ?t" using slot.rd_leads [of FFT_STATUS s tr lat] w by (simp add: fft_poll_def view_def)
  moreover have "fft_done (fft_board tr lat) s = (False, ?t)"
    using w by (simp add: fft_done_def status_self FFT_ST_DONE_def view_def)
  ultimately show "\<exists>d t. fft_done (fft_board tr lat) s = (False, t) \<and> slot.leads s d t \<and> view l 0 False xs ys sh d (ctrl_shadow s)"
    using w by blast
qed

lemma goes_busy:
  assumes "0 < b"
  shows "goes (check n (fails (fft_busy (fft_board tr lat)))) (view l b False xs ys sh) (view l (b - 1) (b = 1) xs ys sh)"
proof (rule goes_check)
  fix s :: "fft_slot board self" assume w: "view l b False xs ys sh (core (peri_q (dev s))) (ctrl_shadow s)"
  let ?t = "snd (rd (fft_board tr lat) (Fft FFT_STATUS) s)" and ?d = "core (peri_q (dev s))"
  have "slot.leads s (?d\<lparr>busy_for := b - 1, done_q := (b = 1)\<rparr>) ?t"
    using slot.rd_leads [of FFT_STATUS s tr lat] w assms by (simp add: fft_poll_def view_def)
  moreover have "fails (fft_busy (fft_board tr lat)) s = (False, ?t)"
    using w assms by (simp add: fails_def fft_busy_def status_self FFT_ST_BUSY_def view_def)
  moreover have "view l (b - 1) (b = 1) xs ys sh (?d\<lparr>busy_for := b - 1, done_q := (b = 1)\<rparr>) (ctrl_shadow s)"
    using w by (simp add: view_def)
  ultimately show "\<exists>d t. fails (fft_busy (fft_board tr lat)) s = (False, t) \<and> slot.leads s d t \<and>
      view l (b - 1) (b = 1) xs ys sh d (ctrl_shadow s)"
    by blast
qed

section \<open>The spectra the program knows\<close>

lemma in16_unpack: "in16 (unpack w)"
  using sint_ge [of "ucast w :: u16"] sint_less [of "ucast w :: u16"]
    sint_ge [of "ucast (drop_bit 16 w) :: u16"] sint_less [of "ucast (drop_bit 16 w) :: u16"]
  by (simp add: in16_def unpack_def s16_eq)

lemma words_nth:
  assumes "0 < L" and "length ws = 2 ^ L" and "k < 2 ^ L"
  shows "unpack (fft_words tw L back c ws ! k) = model_fft tw L c back (map unpack ws) ! k"
proof -
  have "in16 (model_fft tw L c back (map unpack ws) ! k)"
    using assms in16_unpack by (intro model_fft_in16) auto
  then show ?thesis
    using assms unpack_pack [of "model_fft tw L c back (map unpack ws) ! k"]
    by (simp add: fft_words_def case_prod_beta unpack_def)
qed

lemma unpack_real: "- 32768 \<le> c \<Longrightarrow> c < 32768 \<Longrightarrow> unpack (pack c 0) = (c, 0)"
  using unpack_pack [of "(c, 0)"] by (simp add: in16_def unpack_def)

lemma unpack_0: "unpack 0 = (0, 0)"
  by (simp add: unpack_def s16_def)

lemma full_scale: "L \<le> 10 \<Longrightarrow> \<forall>i<L. bit FFT_SCALE_FULL i"
proof (intro allI impI)
  fix i assume "L \<le> 10" "i < L"
  moreover have "FFT_SCALE_FULL = mask 10" by (simp add: FFT_SCALE_FULL_def mask_eq_exp_minus_1)
  moreover have "bit (mask 10 :: u32) i" using calculation(1,2) by (simp add: bit_mask_iff)
  ultimately show "bit FFT_SCALE_FULL i" by (simp only:)
qed

text \<open>The impulse of the program and its constant frames.\<close>

lemma impulse_bins:
  assumes "0 < L" and "L \<le> 10" and "0 \<le> c" and "2 ^ L * c \<le> 16384" and "k < 2 ^ L"
  shows "unpack (fft_words build_twiddle L back FFT_SCALE_FULL ((replicate (2 ^ L) 0)[0 := pack (2 ^ L * c) 0]) ! k) = (c, 0)"
proof -
  have "(replicate (2 ^ L) (0 :: u32))[0 := pack (2 ^ L * c) 0] = pack (2 ^ L * c) 0 # replicate (2 ^ L - 1) 0"
    by (cases "2 ^ L :: nat") simp_all
  moreover have "unpack (pack (2 ^ L * c) 0) = (2 ^ L * c, 0)"
  proof (rule unpack_real)
    have "0 \<le> 2 ^ L * c" using assms(3) by simp
    then show "- 32768 \<le> 2 ^ L * c" by linarith
    show "2 ^ L * c < 32768" using assms(4) by linarith
  qed
  ultimately show ?thesis
    using assms model_fft_impulse [OF assms(1) full_scale [OF assms(2)] twiddle_0 assms(3,4,5), of "back"]
    by (simp add: words_nth unpack_0 map_replicate)
qed

lemma constant_bins:
  assumes "0 < L" and "L \<le> 10" and "- 32768 \<le> c" and "c \<le> 32767" and "k < 2 ^ L"
  shows "unpack (fft_words build_twiddle L back FFT_SCALE_FULL (replicate (2 ^ L) (pack c 0)) ! k) = (if k = 0 then (c, 0) else (0, 0))"
  using assms model_fft_constant [OF assms(1) full_scale [OF assms(2)] assms(3,4,5)] unpack_real [of c]
  by (simp add: words_nth map_replicate)

section \<open>The phases\<close>

lemma goes_weaken: "goes g P Q \<Longrightarrow> (\<And>d sh. Q d sh \<Longrightarrow> R d sh) \<Longrightarrow> goes g P R"
  unfolding goes_def by blast

lemma goes_strengthen: "goes g Q R \<Longrightarrow> (\<And>d sh. P d sh \<Longrightarrow> Q d sh) \<Longrightarrow> goes g P R"
  unfolding goes_def by blast

text \<open>A phase that begins by setting the size.\<close>

lemma goes_phase:
  assumes "size_of n = l"
    and "\<And>xs ys. length xs = 2 ^ l \<Longrightarrow> length ys = 2 ^ l \<Longrightarrow> goes (steps gs) (view l 0 False xs ys 0) Q"
  shows "goes (steps (act (snd \<circ> on_fft (fft_begin (fft_board tr lat) n)) # gs)) (\<lambda>d sh. idle d) Q"
  by (rule goes_cons [OF goes_begin]) (use assms in \<open>auto simp: goes_def\<close>)

lemma goes_begin_idle:
  "goes (act (snd \<circ> on_fft (fft_begin (fft_board tr lat) n))) (\<lambda>d sh. idle d) (\<lambda>d sh. idle d)"
  by (rule goes_weaken [OF goes_begin]) (auto intro: view_idle)

abbreviation engine :: transform where "engine \<equiv> fft_words build_twiddle"

lemma length_engine: "length (engine l b c xs) = length xs"
  by (rule length_fft_words)

lemma sizes: "size_of 15 = 10" "size_of 0 = 2" "size_of 10 = 10" "size_of 3 = 3" "size_of 4 = 4" "size_of 5 = 5"
  by code_simp+

text \<open>Start, wait, swap: the spectrum of the frame is where the program reads.\<close>

lemma goes_run:
  assumes "lat < FFT_SPIN_LIMIT" and "goes (steps gs) (view l 0 True (engine l False FFT_SCALE_FULL xs) ys 0) Q"
  shows "goes (steps (act (do_fft (fft_start (fft_board engine lat))) # check n (fails (fft_wait (fft_board engine lat))) #
      act (do_fft (fft_swap (fft_board engine lat))) # gs)) (view l 0 dn xs ys 0) Q"
proof (rule goes_cons)
  show "goes (act (do_fft (fft_start (fft_board engine lat)))) (view l 0 dn xs ys 0)
      (view l lat (lat = 0) ys (engine l False FFT_SCALE_FULL xs) 0)"
    using goes_start [where tr = engine and lat = lat and l = l and dn = dn and xs = xs and ys = ys and sh = 0, OF length_engine] by simp
  show "goes (steps (check n (fails (fft_wait (fft_board engine lat))) # act (do_fft (fft_swap (fft_board engine lat))) # gs))
      (view l lat (lat = 0) ys (engine l False FFT_SCALE_FULL xs) 0) Q"
    by (rule goes_cons [OF goes_wait [OF assms(1) refl]], rule goes_cons [OF goes_swap _]) (use assms(2) in simp_all)
qed

lemma bins_impulse:
  assumes "i < 8"
  shows "(s16 (engine 3 b FFT_SCALE_FULL ((replicate 8 0)[0 := pack 0x4000 0]) ! i),
      s16 (drop_bit 16 (engine 3 b FFT_SCALE_FULL ((replicate 8 0)[0 := pack 0x4000 0]) ! i))) = (0x0800, 0)"
  using impulse_bins [of 3 "0x0800" i b] assms by (simp add: unpack_def)

lemma bins_constant:
  assumes "n = 2 ^ L" and "0 < L" and "L \<le> 10" and "- 32768 \<le> c" and "c \<le> 32767" and "i < n"
  shows "(s16 (engine L b FFT_SCALE_FULL (replicate n (pack c 0)) ! i),
      s16 (drop_bit 16 (engine L b FFT_SCALE_FULL (replicate n (pack c 0)) ! i))) = (if i = 0 then (c, 0) else (0, 0))"
  using constant_bins [of L c i b] assms by (simp add: unpack_def)

lemma bins_zero:
  assumes "n = 2 ^ L" and "0 < L" and "L \<le> 10" and "- 32768 \<le> c" and "c \<le> 32767"
  shows "s16 (engine L b FFT_SCALE_FULL (replicate n (pack c 0)) ! 0) = c"
    and "i \<in> set [1..<n] \<Longrightarrow> i < 2 ^ L \<and> (s16 (engine L b FFT_SCALE_FULL (replicate n (pack c 0)) ! i),
      s16 (drop_bit 16 (engine L b FFT_SCALE_FULL (replicate n (pack c 0)) ! i))) = (0, 0)"
  using bins_constant [OF assms, of 0 b] bins_constant [OF assms, of i b] assms(1) by simp_all

lemma goes_registers:
  "goes (run_registers (fft_board tr lat)) (view 10 0 False xs ys sh) (\<lambda>d sh. idle d)"
  unfolding run_registers_def
proof (rule goes_cons [OF goes_log2n], simp, rule goes_cons [OF goes_scale], rule goes_cons [OF goes_at_rest],
    rule goes_strengthen [where Q = "\<lambda>d sh. idle d"])
  show "\<And>d sh'. view 10 0 False xs ys sh d sh' \<Longrightarrow> idle d" by (rule view_idle)
  let ?hw = "fft_board tr lat"
  let ?gs = "[act (fft_write ?hw 0 0x5678 0x1234), check 6 (bin_differs ?hw 0 0x5678 0x1234), check 7 (differs (fft_log2n ?hw) 10),
     act (fft_write ?hw (FFT_NMAX - 1) (- 1) (- 1)), check 8 (differs (fft_read_re ?hw (FFT_NMAX - 1)) (- 1))]"
  show "goes (steps (check 4 (differs (on_fft (fft_begin ?hw 15)) FFT_LOG2N_MAX) # check 5 (differs (on_fft (fft_begin ?hw 0)) FFT_LOG2N_MIN) #
      act (snd \<circ> on_fft (fft_begin ?hw 10)) # ?gs)) (\<lambda>d sh. idle d) (\<lambda>d sh. idle d)"
  proof (rule goes_cons [OF goes_begin_check], simp add: sizes FFT_LOG2N_MAX_def, rule goes_cons [OF goes_begin_check],
      simp add: sizes FFT_LOG2N_MIN_def, rule goes_phase [OF sizes(3)])
    fix xs ys :: "u32 list" assume len: "length xs = 2 ^ 10" "length ys = 2 ^ 10"
    let ?x = "xs[0 := pack 0x5678 0x1234]"
    let ?y = "?x[FFT_NMAX - 1 := pack (- 1) (- 1)]"
    have a: "(s16 (?x ! 0), s16 (drop_bit 16 (?x ! 0))) = (0x5678, 0x1234)"
      using len unpack_pack [of "(0x5678, 0x1234)"] by (simp add: in16_def)
    have b: "s16 (?y ! (FFT_NMAX - 1)) = - 1"
      using len unpack_pack [of "(- 1, - 1)"] by (simp add: in16_def FFT_NMAX_def)
    have "goes (steps ?gs) (view 10 0 False xs ys 0) (view 10 0 False ?y ys 0)"
    proof (rule goes_cons [OF goes_write], simp, rule goes_cons [OF goes_bin_check [OF _ a]], simp, rule goes_cons [OF goes_log2n], simp,
        rule goes_cons [OF goes_write], simp add: FFT_NMAX_def, rule goes_cons [OF goes_read_check [OF _ b]], simp add: FFT_NMAX_def)
      show "goes (steps []) (view 10 0 False ?y ys 0) (view 10 0 False ?y ys 0)" by (rule goes_nil)
    qed
    then show "goes (steps ?gs) (view 10 0 False xs ys 0) (\<lambda>d sh. idle d)" by (rule goes_weaken) (rule view_idle)
  qed
qed

lemma goes_to_idle: "goes (steps gs) P (view l 0 dn xs ys sh) \<Longrightarrow> goes (steps gs) P (\<lambda>d sh. idle d)"
  by (erule goes_weaken) (rule view_idle)

lemma goes_impulse:
  assumes "lat < FFT_SPIN_LIMIT"
  shows "goes (run_impulse (fft_board engine lat)) (\<lambda>d sh. idle d) (\<lambda>d sh. idle d)"
  unfolding run_impulse_def append_Cons append_Nil
proof (rule goes_phase [OF sizes(4)])
  fix xs ys :: "u32 list" assume len: "length xs = 2 ^ 3" "length ys = 2 ^ 3"
  let ?hw = "fft_board engine lat" and ?F = "(replicate 8 0)[0 := pack 0x4000 0]"
  let ?X = "engine 3 (bit (0 :: u32) 2) FFT_SCALE_FULL ?F"
  have c: "goes (steps (map (\<lambda>i. check 10 (bin_differs ?hw i 0x0800 0)) [0..<8])) (view 3 0 True ?X ys 0) (view 3 0 True ?X ys 0)"
    by (rule goes_bins_check) (use bins_impulse in simp)
  show "goes (steps (act (fft_clear ?hw 8) # act (fft_write_real ?hw 0 0x4000) # act (do_fft (fft_start ?hw)) #
      check 9 (fails (fft_wait ?hw)) # act (\<lambda>s. let (v, s) = fft_cycles ?hw s in s\<lparr>last_cycles := v\<rparr>) # act (do_fft (fft_swap ?hw)) #
      map (\<lambda>i. check 10 (bin_differs ?hw i 0x0800 0)) [0..<8])) (view 3 0 False xs ys 0) (\<lambda>d sh. idle d)"
    by (rule goes_to_idle, rule goes_cons [OF goes_clear], simp, rule goes_cons [OF goes_write_real], simp,
        rule goes_cons [OF goes_start [where tr = engine, OF length_engine]], rule goes_cons [OF goes_wait [OF assms refl]],
        rule goes_cons [OF goes_cycles], rule goes_cons [OF goes_swap], simp, rule c)
qed

lemma goes_constant:
  assumes "lat < FFT_SPIN_LIMIT"
  shows "goes (run_constant (fft_board engine lat)) (\<lambda>d sh. idle d) (\<lambda>d sh. idle d)"
  unfolding run_constant_def append_Cons append_Nil
proof (rule goes_phase [OF sizes(5)])
  fix xs ys :: "u32 list" assume len: "length xs = 2 ^ 4" "length ys = 2 ^ 4"
  let ?hw = "fft_board engine lat" and ?F = "replicate 16 (pack 0x0100 0)"
  let ?X = "engine 4 False FFT_SCALE_FULL ?F"
  have c: "goes (steps (map (\<lambda>i. check 13 (bin_differs ?hw i 0 0)) [1..<16])) (view 4 0 True ?X ys 0) (view 4 0 True ?X ys 0)"
    by (rule goes_bins_check, rule bins_zero(2)) simp_all
  have z: "s16 (?X ! 0) = 0x0100" by (rule bins_zero(1)) simp_all
  have "goes (steps (act (do_fft (fft_start ?hw)) # check 11 (fails (fft_wait ?hw)) # act (do_fft (fft_swap ?hw)) #
      check 12 (differs (fft_read_re ?hw 0) 0x0100) # map (\<lambda>i. check 13 (bin_differs ?hw i 0 0)) [1..<16]))
      (view 4 0 False ?F ys 0) (view 4 0 True ?X ys 0)"
    by (rule goes_run [OF assms], rule goes_cons [OF goes_read_check [OF _ z]]) (use c in simp_all)
  moreover have "goes (steps (map (\<lambda>i. act (fft_write_real ?hw i 0x0100)) [0..<16])) (view 4 0 False xs ys 0) (view 4 0 False ?F ys 0)"
    using goes_fill_real [of 16 4 xs engine lat "0x0100" 0 False ys 0] len by simp
  ultimately show "goes (steps (map (\<lambda>i. act (fft_write_real ?hw i 0x0100)) [0..<16] @
      act (do_fft (fft_start ?hw)) # check 11 (fails (fft_wait ?hw)) # act (do_fft (fft_swap ?hw)) #
      check 12 (differs (fft_read_re ?hw 0) 0x0100) # map (\<lambda>i. check 13 (bin_differs ?hw i 0 0)) [1..<16]))
      (view 4 0 False xs ys 0) (\<lambda>d sh. idle d)"
    by (intro goes_to_idle goes_append)
qed

lemma goes_streaming:
  assumes "0 < lat" and "lat < FFT_SPIN_LIMIT"
  shows "goes (run_streaming (fft_board engine lat)) (\<lambda>d sh. idle d) (\<lambda>d sh. idle d)"
  unfolding run_streaming_def append_Cons append_Nil append_assoc
proof (rule goes_phase [OF sizes(4)])
  fix xs ys :: "u32 list" assume len: "length xs = 2 ^ 3" "length ys = 2 ^ 3"
  let ?hw = "fft_board engine lat" and ?A = "(replicate 8 0)[0 := pack 0x4000 0]" and ?B = "replicate 8 (pack 0x0200 0)"
  let ?X = "engine 3 False FFT_SCALE_FULL ?A" and ?Y = "engine 3 False FFT_SCALE_FULL ?B"
  have z: "s16 (?Y ! 0) = 0x0200" by (rule bins_zero(1)) simp_all
  let ?last = "check 17 (fails (fft_wait ?hw)) # act (do_fft (fft_swap ?hw)) # check 18 (differs (fft_read_re ?hw 0) 0x0200) #
      map (\<lambda>i. check 19 (bin_differs ?hw i 0 0)) [1..<8]"
  have c: "goes (steps (map (\<lambda>i. check 19 (bin_differs ?hw i 0 0)) [1..<8])) (view 3 0 True ?Y ?X 0) (view 3 0 True ?Y ?X 0)"
    by (rule goes_bins_check, rule bins_zero(2)) simp_all
  have l: "goes (steps ?last) (view 3 lat (lat = 0) ?X ?Y 0) (view 3 0 True ?Y ?X 0)"
    by (rule goes_cons [OF goes_wait [OF assms(2) refl]], rule goes_cons [OF goes_swap], simp,
        rule goes_cons [OF goes_read_check [OF _ z]], simp, rule c)
  have r: "goes (steps (map (\<lambda>i. check 16 (bin_differs ?hw i 0x0800 0)) [0..<8])) (view 3 lat (lat = 0) ?X ?Y 0) (view 3 lat (lat = 0) ?X ?Y 0)"
    by (rule goes_bins_check) (use bins_impulse in simp)
  have s: "goes (act (do_fft (fft_start ?hw))) (view 3 0 dn xs ys 0) (view 3 lat (lat = 0) ys (engine 3 False FFT_SCALE_FULL xs) 0)" for dn xs ys
    using goes_start [where tr = engine and lat = lat and l = 3 and dn = dn and xs = xs and ys = ys and sh = 0, OF length_engine] by simp
  have w15: "goes (check 15 (fails (fft_wait ?hw))) (view 3 (lat - 1) (lat = 1) ?B ?X 0) (view 3 0 True ?B ?X 0)"
    by (rule goes_wait) (use assms in auto)
  have m: "goes (steps (check 15 (fails (fft_wait ?hw)) # act (do_fft (fft_start ?hw)) #
      map (\<lambda>i. check 16 (bin_differs ?hw i 0x0800 0)) [0..<8] @ ?last)) (view 3 (lat - 1) (lat = 1) ?B ?X 0) (view 3 0 True ?Y ?X 0)"
    by (rule goes_cons [OF w15], rule goes_cons [OF s], rule goes_append [OF r l])
  have w: "goes (steps (map (\<lambda>i. act (fft_write_real ?hw i 0x0200)) [0..<8])) (view 3 (lat - 1) (lat = 1) ys ?X 0) (view 3 (lat - 1) (lat = 1) ?B ?X 0)"
    using goes_fill_real [of 8 3 ys engine lat "0x0200" "lat - 1" "lat = 1" ?X 0] len by simp
  have "goes (check 14 (fails (fft_busy ?hw))) (view 3 lat (lat = 0) ys ?X 0) (view 3 (lat - 1) (lat = 1) ys ?X 0)"
    using goes_busy [OF assms(1), of 14 engine lat 3 ys ?X 0] assms(1) by simp
  from goes_cons [OF this goes_append [OF w m]]
  have "goes (steps (act (fft_clear ?hw 8) # act (fft_write_real ?hw 0 0x4000) # act (do_fft (fft_start ?hw)) #
      check 14 (fails (fft_busy ?hw)) # map (\<lambda>i. act (fft_write_real ?hw i 0x0200)) [0..<8] @ check 15 (fails (fft_wait ?hw)) #
      act (do_fft (fft_start ?hw)) # map (\<lambda>i. check 16 (bin_differs ?hw i 0x0800 0)) [0..<8] @ ?last))
      (view 3 0 False xs ys 0) (view 3 0 True ?Y ?X 0)"
    by (intro goes_cons [OF goes_clear, of 8 3] goes_cons [OF goes_write_real, of 0 3] goes_cons [OF s]) simp_all
  then show "goes (steps (act (fft_clear ?hw 8) # act (fft_write_real ?hw 0 0x4000) # act (do_fft (fft_start ?hw)) #
      check 14 (fails (fft_busy ?hw)) # map (\<lambda>i. act (fft_write_real ?hw i 0x0200)) [0..<8] @ check 15 (fails (fft_wait ?hw)) #
      act (do_fft (fft_start ?hw)) # map (\<lambda>i. check 16 (bin_differs ?hw i 0x0800 0)) [0..<8] @ ?last))
      (view 3 0 False xs ys 0) (\<lambda>d sh. idle d)"
    by (rule goes_to_idle)
qed

section \<open>The interrupt\<close>

abbreviation at_irq :: "transform \<Rightarrow> nat \<Rightarrow> fft_slot board self \<Rightarrow> fft_slot board self option" where
  "at_irq tr lat \<equiv> serve (fft_slot tr lat) (trap_entry (fft_board tr lat))"

lemma serve_masked: "\<not> bit (mstatus_q (dev s)) 3 \<Longrightarrow> serve p entry s = Some s"
  by (simp add: serve_def irq_due_def)

lemma serve_quiet: "\<not> done_q (core (peri_q (dev s))) \<Longrightarrow> serve (fft_slot tr lat) entry s = Some s"
  by (simp add: serve_def irq_due_def meip_def claimable_def fft_slot_def)

lemma goes_open:
  assumes "goes g (view l b False xs ys sh) Q"
  shows "goes (open_to (at_irq tr lat) g) (view l b False xs ys sh) Q"
  using assms unfolding goes_def open_to_def by (simp add: serve_quiet view_def)

text \<open>Everything is set up for the interrupt of the coprocessor.\<close>

definition armed :: "fft_slot board self \<Rightarrow> bool" where
  "armed s \<longleftrightarrow> bit (mstatus_q (dev s)) 3 \<and> bit (mie_q (dev s)) 11 \<and> bit (enable_q (dev s)) 5 \<and>
     plic_wf s \<and> sys_lookup s SYS_MCAUSE_MEI = Some PlicMeiIsr \<and> plic_lookup s PLIC_SRC_FFT = Some Fft_isr"

lemma armed_eq:
  assumes "hart (dev t) = hart (dev s)" and "sys_isr_tab t = sys_isr_tab s" and "plic_tab t = plic_tab s"
  shows "armed t = armed s"
  using assms by (simp add: armed_def hart_def plic_wf_def sys_wf_def sys_lookup_def plic_lookup_def)

lemma armed_same: "same s t \<Longrightarrow> armed t = armed s"
  unfolding same_def by (rule armed_eq) (blast, (cases s; cases t; simp)+)

lemma fft_line: "bit e 5 \<Longrightarrow> push_bit (unat PLIC_SRC_FFT) 1 AND e AND 0xFFFE = (0x20 :: u32)"
proof -
  have one: "bit w k \<Longrightarrow> push_bit k 1 AND w = push_bit k (1 :: u32)" for w k
    by (rule bit_word_eqI) (auto simp: bit_simps)
  have "bit (0xFFFE :: u32) 5" by code_simp
  then have "push_bit 5 1 AND 0xFFFE = push_bit 5 (1 :: u32)" by (rule one)
  moreover assume "bit e 5"
  then have "push_bit 5 1 AND e = push_bit 5 (1 :: u32)" by (rule one)
  moreover have "push_bit (unat PLIC_SRC_FFT) 1 = push_bit 5 (1 :: u32)" by (simp add: PLIC_SRC_FFT_def)
  moreover have "push_bit 5 1 = (0x20 :: u32)" by (simp add: push_bit_eq_mult)
  ultimately show ?thesis unfolding and.assoc [symmetric] by metis
qed

lemma claim_fft: "claimed 0x20 = PLIC_SRC_FFT"
  by code_simp

lemma dev_isr: "dev (fft_isr (fft_board tr lat) src s) = dev (wr (fft_board tr lat) (Fft FFT_IRQ) 1 s)"
  by (simp add: fft_isr_def fft_irq_clear_def wr_def)

text \<open>An interrupt that is due runs the handler once, and it has dropped the line.\<close>

lemma serve_fft:
  assumes "armed s" and "done_q (core (peri_q (dev s)))" and "irq_en (peri_q (dev s))"
  obtains t where "at_irq tr lat s = Some t"
    "t = s\<lparr>dev := dev t, evs := evs t, claim_id := PLIC_SRC_FFT, irq_seen := irq_seen s + 1\<rparr>"
    "core (peri_q (dev t)) = (core (peri_q (dev s)))\<lparr>done_q := False\<rparr>"
proof -
  let ?hw = "fft_board tr lat"
  have p: "claimable (fft_slot tr lat) (dev s) = 0x20"
    using assms fft_line by (simp add: claimable_def fft_slot_def armed_def and.assoc)
  let ?u = "s\<lparr>dev := enter_trap (dev s), evs := evs s @ [CsrRd MCAUSE 0x8000000B, Rd (Plic PLIC_CLAIM) PLIC_SRC_FFT]\<rparr>"
  let ?t = "fft_isr ?hw PLIC_SRC_FFT ?u"
  have l: "slot.leads ?u ((core (peri_q (dev s)))\<lparr>done_q := False\<rparr>) (wr ?hw (Fft FFT_IRQ) 1 ?u)"
    using slot.wr_leads [where q = FFT_IRQ and v = 1 and s = ?u and tr = tr and lat = lat] by simp
  then have h: "hart (dev ?t) = hart (enter_trap (dev s))" and c: "core (peri_q (dev ?t)) = (core (peri_q (dev s)))\<lparr>done_q := False\<rparr>"
    unfolding dev_isr by (simp_all add: slot.leads_def)
  have "serve (fft_slot tr lat) (trap_entry ?hw) s = Some (?t\<lparr>dev := mret (dev ?t)\<rparr>)"
    unfolding trap_entry_def
  proof (rule serve_attached)
    show "irq_due (fft_slot tr lat) (dev s)" using p assms(1) by (simp add: irq_due_def meip_def armed_def)
    show "claimed (claimable (fft_slot tr lat) (dev s)) = PLIC_SRC_FFT" unfolding p by (rule claim_fft)
    show "mstatus_q (dev ?t) = mstatus_q (enter_trap (dev s))" "mie_q (dev ?t) = mie_q (dev s)" using h by (simp_all add: hart_def)
    show "(case Fft_isr of Fft_isr \<Rightarrow> Some (fft_isr ?hw PLIC_SRC_FFT ?u)) = Some ?t" by (simp only: fft_handler.case)
    show "PLIC_SRC_FFT \<noteq> 0" by (simp add: PLIC_SRC_FFT_def)
  qed (use assms(1) in \<open>simp_all add: armed_def\<close>)
  moreover have "?t\<lparr>dev := mret (dev ?t)\<rparr> = s\<lparr>dev := mret (dev ?t), evs := evs ?t, claim_id := PLIC_SRC_FFT, irq_seen := irq_seen s + 1\<rparr>"
    by (simp add: fft_isr_def fft_irq_clear_def wr_def)
  ultimately show ?thesis using that [of "?t\<lparr>dev := mret (dev ?t)\<rparr>"] c by simp
qed

lemma wfi_slot: "sys_wfi (fft_board tr lat) s = s\<lparr>dev := (dev s)\<lparr>peri_q := (peri_q (dev s))\<lparr>core := fft_poll (core (peri_q (dev s)))\<rparr>\<rparr>,
    evs := evs s @ [Wfi]\<rparr>"
  by (simp add: sys_wfi_def wfi_def board_hw_def fft_slot_def)

lemma await_fft:
  assumes "armed s" and "irq_en (peri_q (dev s))" and "\<not> done_q (core (peri_q (dev s)))" and "irq_seen s = 0"
    and "busy_for (core (peri_q (dev s))) = Suc n" and "spin + Suc n < FFT_SPIN_LIMIT"
  shows "\<exists>t. await_irq (fft_board tr lat) (at_irq tr lat) spin s = Some (True, t) \<and>
     t = s\<lparr>dev := dev t, evs := evs t, claim_id := PLIC_SRC_FFT, irq_seen := 1\<rparr> \<and>
     core (peri_q (dev t)) = (core (peri_q (dev s)))\<lparr>busy_for := 0, done_q := False\<rparr>"
  using assms
proof (induction n arbitrary: s spin)
  case 0
  let ?w = "sys_wfi (fft_board tr lat) s"
  have w: "core (peri_q (dev ?w)) = (core (peri_q (dev s)))\<lparr>busy_for := 0, done_q := True\<rparr>" "irq_en (peri_q (dev ?w))"
    using 0 by (simp_all add: wfi_slot fft_poll_def)
  have "armed ?w = armed s" by (rule armed_eq) (simp_all add: wfi_slot hart_def)
  then obtain t where t: "at_irq tr lat ?w = Some t"
    "t = ?w\<lparr>dev := dev t, evs := evs t, claim_id := PLIC_SRC_FFT, irq_seen := irq_seen ?w + 1\<rparr>"
    "core (peri_q (dev t)) = (core (peri_q (dev ?w)))\<lparr>done_q := False\<rparr>"
    using serve_fft [of ?w tr lat] 0(1) w by auto
  have i: "irq_seen t = 1" using t(2) 0(4) by (cases t) (simp add: wfi_slot)
  have q: "at_irq tr lat t = Some t" using t(3) by (simp add: serve_quiet)
  have s: "at_irq tr lat s = Some s" using 0(3) by (simp add: serve_quiet)
  have "await_irq (fft_board tr lat) (at_irq tr lat) (spin + 1) t = Some (True, t)"
    by (subst await_irq.simps) (simp add: q i)
  then have "await_irq (fft_board tr lat) (at_irq tr lat) spin s = Some (True, t)"
    using 0(4,6) t(1) by (subst await_irq.simps) (simp add: s)
  moreover have "t = s\<lparr>dev := dev t, evs := evs t, claim_id := PLIC_SRC_FFT, irq_seen := 1\<rparr>"
    using t(2) 0(4) by (simp add: wfi_slot)
  ultimately show ?case using t(3) w by auto
next
  case (Suc n)
  let ?w = "sys_wfi (fft_board tr lat) s"
  have w: "core (peri_q (dev ?w)) = (core (peri_q (dev s)))\<lparr>busy_for := Suc n, done_q := False\<rparr>" "irq_en (peri_q (dev ?w))"
    "irq_seen ?w = 0"
    using Suc.prems by (simp_all add: wfi_slot fft_poll_def)
  have "armed ?w = armed s" by (rule armed_eq) (simp_all add: wfi_slot hart_def)
  then obtain t where t: "await_irq (fft_board tr lat) (at_irq tr lat) (spin + 1) ?w = Some (True, t)"
    "t = ?w\<lparr>dev := dev t, evs := evs t, claim_id := PLIC_SRC_FFT, irq_seen := 1\<rparr>"
    "core (peri_q (dev t)) = (core (peri_q (dev ?w)))\<lparr>busy_for := 0, done_q := False\<rparr>"
    using Suc.IH [of ?w "spin + 1"] Suc.prems w by auto
  have "at_irq tr lat s = Some s" "at_irq tr lat ?w = Some ?w" using Suc.prems(3) w by (simp_all add: serve_quiet)
  then have "await_irq (fft_board tr lat) (at_irq tr lat) spin s = Some (True, t)"
    using Suc.prems(4,6) t(1) by (subst await_irq.simps) simp
  moreover have "t = s\<lparr>dev := dev t, evs := evs t, claim_id := PLIC_SRC_FFT, irq_seen := 1\<rparr>"
    using t(2) by (simp add: wfi_slot)
  ultimately show ?case using t(3) w by auto
qed

lemma steps_then: "steps xs s = Some (True, t) \<Longrightarrow> steps (xs @ ys) s = steps ys t"
  by (simp add: steps_append)

lemma goes_irq_pending:
  "goes (check n (\<lambda>s. let (v, s) = fft_irq_pending (fft_board tr lat) s in (v \<noteq> 0, s))) (view l b False xs ys sh) (view l b False xs ys sh)"
  by (simp add: goes_def check_def fft_irq_pending_def rd_def board_hw_def board_rd_def fft_slot_def slot_rd_def view_def same_def hart_def)

lemma goes_irq_enable:
  "goes (act (do_fft (fft_irq_enable (fft_board tr lat)))) (view l 0 dn xs ys 0) (view l 0 dn xs ys FFT_CTRL_IRQ_EN)"
  by (simp add: goes_def act_def do_fft_def on_fft_inner fft_irq_enable_def wr_def board_hw_def board_wr_def fft_slot_def slot_wr_def
      inner_def fft_ctrl_wr_def FFT_CTRL_IRQ_EN_def view_def same_def hart_def bit_simps)

lemma bit_enable_mei: "bit (SYS_MIE_MEIE) 11" "bit SYS_MSTATUS_MIE 3"
  by code_simp+

text \<open>The five calls that arm the interrupt.\<close>

lemma arm_fft:
  assumes "plic_wf s" and "bit (enable_q (dev s)) 5"
  shows "\<exists>t. steps [act (sys_isr_install (fft_board tr lat) isr_addr), act (sys_isr_set_unhandled (Some Unexpected_isr)),
       act (plic_attach PLIC_SRC_FFT Fft_isr), act (sys_irq_source_enable (fft_board tr lat) SYS_MIE_MEIE),
       act (sys_irq_global_enable (fft_board tr lat))] s = Some (True, t) \<and> armed t \<and>
     core (peri_q (dev t)) = core (peri_q (dev s)) \<and> ctrl_shadow t = ctrl_shadow s \<and> fail_step t = fail_step s \<and>
     irq_seen t = irq_seen s \<and> bad_cause t = bad_cause s"
proof -
  let ?hw = "fft_board tr lat"
  let ?a = "sys_isr_set_unhandled (Some Unexpected_isr) (sys_isr_install ?hw isr_addr s)"
  let ?b = "plic_attach PLIC_SRC_FFT Fft_isr ?a"
  let ?t = "sys_irq_global_enable ?hw (sys_irq_source_enable ?hw SYS_MIE_MEIE ?b)"
  have v: "PLIC_SRC_FFT < PLIC_SRC_N" by (simp add: PLIC_SRC_FFT_def PLIC_SRC_N_def)
  have wf: "plic_wf ?a"
    using assms(1) by (simp add: plic_wf_def sys_wf_def sys_isr_set_unhandled_def sys_isr_install_def csr_op_board)
  have tabs: "sys_isr_tab ?t = sys_isr_tab ?b" "plic_tab ?t = plic_tab ?b"
    by (simp_all add: sys_irq_global_enable_def sys_irq_source_enable_def csr_op_board)
  have "plic_wf ?b" by (rule plic.wf_attach [OF wf])
  moreover have "plic_lookup ?b PLIC_SRC_FFT = Some Fft_isr" using plic.lookup_attach [OF wf v] by simp
  moreover have "sys_lookup ?b SYS_MCAUSE_MEI = Some PlicMeiIsr" using mei_attach [OF wf] v by simp
  moreover have d: "dev ?b = board_csr_op CsrWrite MTVEC isr_addr (dev s)"
    by (simp add: plic_attach_def sys_interrupt_attach_def sys_isr_set_unhandled_def sys_isr_install_def csr_op_board)
  moreover have "plic_wf ?t = plic_wf ?b" "plic_lookup ?t k = plic_lookup ?b k" "sys_lookup ?t k = sys_lookup ?b k" for k
    by (simp_all only: plic_wf_def sys_wf_def sys_lookup_def plic_lookup_def tabs)
  moreover have "bit (mstatus_q (dev ?t)) 3" "bit (mie_q (dev ?t)) 11" "bit (enable_q (dev ?t)) 5"
    using d assms(2) bit_enable_mei by (simp_all add: sys_irq_global_enable_def sys_irq_source_enable_def csr_op_board bit_or_iff)
  ultimately have "armed ?t" by (simp add: armed_def)
  then show ?thesis
    using d by (simp add: act_def sys_irq_global_enable_def sys_irq_source_enable_def csr_op_board)
      (simp add: plic_attach_def sys_interrupt_attach_def sys_isr_set_unhandled_def sys_isr_install_def csr_op_board)
qed

lemma goes_open_writes:
  assumes "length xs = 2 ^ 5"
  shows "goes (steps (map (\<lambda>i. open_to (at_irq tr lat) (act (fft_write_real (fft_board tr lat) i c))) [0..<32]))
    (view 5 0 False xs ys 0) (view 5 0 False (replicate 32 (pack c 0)) ys 0)"
proof -
  have "goes (steps (map (\<lambda>i. open_to (at_irq tr lat) (act (fft_write_real (fft_board tr lat) i c))) [0..<n]))
    (view 5 0 False xs ys 0) (view 5 0 False (replicate n (pack c 0) @ drop n xs) ys 0)" if "n \<le> 32" for n
    using that
  proof (induction n)
    case 0
    show ?case using goes_nil [of "view 5 0 False xs ys 0"] by (simp del: steps.simps)
  next
    case (Suc n)
    have "goes (act (fft_write_real (fft_board tr lat) n c)) (view 5 0 False (replicate n (pack c 0) @ drop n xs) ys 0)
        (view 5 0 False ((replicate n (pack c 0) @ drop n xs)[n := pack c 0]) ys 0)"
      using Suc.prems by (intro goes_write_real) simp
    moreover have "(replicate n (pack c 0) @ drop n xs)[n := pack c 0] = replicate (Suc n) (pack c 0) @ drop (Suc n) xs"
    proof -
      have "drop n xs = xs ! n # drop (Suc n) xs" using Suc.prems assms by (simp add: Cons_nth_drop_Suc)
      then show ?thesis by (simp add: list_update_append replicate_append_same)
    qed
    ultimately have "goes (open_to (at_irq tr lat) (act (fft_write_real (fft_board tr lat) n c)))
        (view 5 0 False (replicate n (pack c 0) @ drop n xs) ys 0)
        (view 5 0 False (replicate (Suc n) (pack c 0) @ drop (Suc n) xs) ys 0)"
      by (intro goes_open) simp
    from goes_append [OF Suc.IH goes_cons [OF this goes_nil]] Suc.prems show ?case by simp
  qed
  from this [of 32] assms show ?thesis by simp
qed

text \<open>The statement that starts the engine leaves its interrupt enabled as the shadow says.\<close>

lemma start_irq_en:
  assumes "\<not> done_q (core (peri_q (dev s)))" and "open_to (at_irq tr lat) (act (do_fft (fft_start (fft_board tr lat)))) s = Some (True, t)"
  shows "irq_en (peri_q (dev t)) \<longleftrightarrow> bit (ctrl_shadow s) 1"
proof -
  have "t = do_fft (fft_start (fft_board tr lat)) s"
    using assms by (simp add: open_to_def serve_quiet act_def)
  then show ?thesis
    by (simp add: do_fft_def on_fft_inner fft_start_def wr_def board_hw_def board_wr_def fft_slot_def slot_wr_def
        FFT_CTRL_START_def bit_simps)
qed

lemma same_fields:
  assumes "same s t"
  shows "fail_step t = fail_step s" "irq_seen t = irq_seen s" "bad_cause t = bad_cause s" "claim_id t = claim_id s"
    "mstatus_q (dev t) = mstatus_q (dev s)" "plic_wf t = plic_wf s" "enable_q (dev t) = enable_q (dev s)"
  using assms unfolding same_def plic_wf_def sys_wf_def hart_def by (cases s; cases t; simp)+

lemma goes_interrupt:
  assumes "0 < lat" and "lat < FFT_SPIN_LIMIT" and "idle (core (peri_q (dev s)))" and "plic_wf s" and "bit (enable_q (dev s)) 5"
    and "irq_seen s = 0" and "bad_cause s = 0"
  shows "\<exists>t. run_interrupt (fft_board engine lat) isr_addr (at_irq engine lat) s = Some (True, t) \<and> idle (core (peri_q (dev t))) \<and>
    \<not> bit (mstatus_q (dev t)) 3 \<and> fail_step t = fail_step s \<and> irq_seen t = 1"
proof -
  let ?hw = "fft_board engine lat" and ?irq = "at_irq engine lat"
  let ?A = "[act (snd \<circ> on_fft (fft_begin ?hw 5)), check 20 (\<lambda>s. let (v, s) = fft_irq_pending ?hw s in (v \<noteq> 0, s))]"
  let ?B = "[act (sys_isr_install ?hw isr_addr), act (sys_isr_set_unhandled (Some Unexpected_isr)), act (plic_attach PLIC_SRC_FFT Fft_isr),
     act (sys_irq_source_enable ?hw SYS_MIE_MEIE), act (sys_irq_global_enable ?hw)]"
  let ?W = "map (\<lambda>i. open_to ?irq (act (fft_write_real ?hw i 0x0080))) [0..<32]"
  let ?S = "open_to ?irq (act (do_fft (fft_start ?hw)))"
  let ?E = "check 24 (fft_done ?hw) # act (do_fft (fft_swap ?hw)) # check 25 (differs (fft_read_re ?hw 0) 0x0080) #
     map (\<lambda>i. check 26 (bin_differs ?hw i 0 0)) [1..<32]"
  let ?D = "[open_to ?irq (act (sys_irq_global_disable ?hw)), check 22 (\<lambda>s. (claim_id s \<noteq> PLIC_SRC_FFT, s)), check 23 (\<lambda>s. (bad_cause s \<noteq> 0, s))]"
  have parts: "run_interrupt ?hw isr_addr ?irq = steps (?A @ ?B @ (?W @ [open_to ?irq (act (do_fft (fft_irq_enable ?hw)))]) @ [?S] @ [await_irq ?hw ?irq 0] @ ?D @ ?E)"
    unfolding run_interrupt_def by (simp only: append_Cons append_Nil append_assoc)
  obtain a xs ys where a: "steps ?A s = Some (True, a)" "same s a" "length xs = 2 ^ 5" "length ys = 2 ^ 5"
    "view 5 0 False xs ys 0 (core (peri_q (dev a))) (ctrl_shadow a)"
  proof -
    have "goes (steps ?A) (\<lambda>d sh. idle d) (\<lambda>d sh. \<exists>xs ys. (length xs = 2 ^ 5 \<and> length ys = 2 ^ 5) \<and> view 5 0 False xs ys 0 d sh)"
    proof (rule goes_cons [OF goes_begin], unfold sizes)
      show "goes (steps [check 20 (\<lambda>s. let (v, s) = fft_irq_pending ?hw s in (v \<noteq> 0, s))])
        (\<lambda>d sh. \<exists>xs ys. (length xs = 2 ^ 5 \<and> length ys = 2 ^ 5) \<and> view 5 0 False xs ys 0 d sh)
        (\<lambda>d sh. \<exists>xs ys. (length xs = 2 ^ 5 \<and> length ys = 2 ^ 5) \<and> view 5 0 False xs ys 0 d sh)"
        by (rule goes_cons [OF goes_exC goes_nil], rule goes_weaken [OF goes_irq_pending], blast)
    qed
    from goesD [OF this, of s] assms(3) that show ?thesis by blast
  qed
  have "plic_wf a" "bit (enable_q (dev a)) 5" using same_fields [OF a(2)] assms(4,5) by simp_all
  from arm_fft [OF this, of engine lat isr_addr] obtain b where b: "steps ?B a = Some (True, b)" "armed b"
    "core (peri_q (dev b)) = core (peri_q (dev a))" "ctrl_shadow b = ctrl_shadow a" "fail_step b = fail_step a"
    "irq_seen b = irq_seen a" "bad_cause b = bad_cause a"
    by blast
  have vb: "view 5 0 False xs ys 0 (core (peri_q (dev b))) (ctrl_shadow b)" using a(5) b by simp
  let ?F = "replicate 32 (pack 0x0080 0)"
  let ?X = "engine 5 (bit FFT_CTRL_IRQ_EN 2) FFT_SCALE_FULL ?F"
  have "goes (steps (?W @ [open_to ?irq (act (do_fft (fft_irq_enable ?hw)))])) (view 5 0 False xs ys 0) (view 5 0 False ?F ys FFT_CTRL_IRQ_EN)"
    by (rule goes_append [OF goes_open_writes [OF a(3)] goes_cons [OF goes_open [OF goes_irq_enable] goes_nil]])
  from goesD [OF this vb] obtain c where c: "steps (?W @ [open_to ?irq (act (do_fft (fft_irq_enable ?hw)))]) b = Some (True, c)"
    "same b c" "view 5 0 False ?F ys FFT_CTRL_IRQ_EN (core (peri_q (dev c))) (ctrl_shadow c)"
    by blast
  have "goes ?S (view 5 0 False ?F ys FFT_CTRL_IRQ_EN) (view 5 lat (lat = 0) ys ?X FFT_CTRL_IRQ_EN)"
    by (rule goes_open, rule goes_start, rule length_engine)
  moreover have "(lat = 0) = False" using assms(1) by simp
  ultimately have "goes ?S (view 5 0 False ?F ys FFT_CTRL_IRQ_EN) (view 5 lat False ys ?X FFT_CTRL_IRQ_EN)" by (simp only:)
  from goesD [OF this c(3)] obtain e where e: "?S c = Some (True, e)" "same c e"
    "view 5 lat False ys ?X FFT_CTRL_IRQ_EN (core (peri_q (dev e))) (ctrl_shadow e)"
    by blast
  have en: "irq_en (peri_q (dev e))"
    using start_irq_en [OF _ e(1)] c(3) by (simp add: view_def FFT_CTRL_IRQ_EN_def)
  have ae: "armed e" using armed_same [OF e(2)] armed_same [OF c(2)] b(2) by simp
  have ie: "irq_seen e = 0" "bad_cause e = 0" "fail_step e = fail_step s"
    using same_fields [OF e(2)] same_fields [OF c(2)] same_fields [OF a(2)] b assms(6,7) by simp_all
  obtain n where n: "lat = Suc n" using assms(1) by (cases lat) simp_all
  have "\<exists>t. await_irq ?hw ?irq 0 e = Some (True, t) \<and>
     t = e\<lparr>dev := dev t, evs := evs t, claim_id := PLIC_SRC_FFT, irq_seen := 1\<rparr> \<and>
     core (peri_q (dev t)) = (core (peri_q (dev e)))\<lparr>busy_for := 0, done_q := False\<rparr>"
    by (rule await_fft [where n = n, OF ae en _ ie(1)]) (use e(3) n assms(2) in \<open>simp_all add: view_def\<close>)
  then obtain f where f: "await_irq ?hw ?irq 0 e = Some (True, f)"
     "f = e\<lparr>dev := dev f, evs := evs f, claim_id := PLIC_SRC_FFT, irq_seen := 1\<rparr>"
     "core (peri_q (dev f)) = (core (peri_q (dev e)))\<lparr>busy_for := 0, done_q := False\<rparr>"
    by blast
  have ff: "claim_id f = PLIC_SRC_FFT" "irq_seen f = 1" "bad_cause f = 0" "fail_step f = fail_step s" "ctrl_shadow f = ctrl_shadow e"
    using f(2) ie by (cases f; cases e; simp)+
  let ?g = "sys_irq_global_disable ?hw f"
  have g: "steps ?D f = Some (True, ?g)"
    using f(3) ff by (simp add: open_to_def serve_quiet act_def check_def sys_irq_global_disable_def csr_op_board)
  have vg: "view 5 0 False ys ?X FFT_CTRL_IRQ_EN (core (peri_q (dev ?g))) (ctrl_shadow ?g)"
    using e(3) f(3) ff by (simp add: sys_irq_global_disable_def csr_op_board view_def)
  have z: "s16 (?X ! 0) = 0x0080" by (rule bins_zero(1)) simp_all
  have r: "goes (steps (map (\<lambda>i. check 26 (bin_differs ?hw i 0 0)) [1..<32])) (view 5 0 False ?X ys FFT_CTRL_IRQ_EN) (view 5 0 False ?X ys FFT_CTRL_IRQ_EN)"
    by (rule goes_bins_check, rule bins_zero(2)) simp_all
  have "goes (steps ?E) (view 5 0 False ys ?X FFT_CTRL_IRQ_EN) (view 5 0 False ?X ys FFT_CTRL_IRQ_EN)"
    by (rule goes_cons [OF goes_not_done], rule goes_cons [OF goes_swap], simp add: FFT_CTRL_IRQ_EN_def,
        rule goes_cons [OF goes_read_check [OF _ z]], simp, rule r)
  from goesD [OF this vg] obtain t where t: "steps ?E ?g = Some (True, t)" "same ?g t"
    "view 5 0 False ?X ys FFT_CTRL_IRQ_EN (core (peri_q (dev t))) (ctrl_shadow t)"
    by blast
  have "run_interrupt ?hw isr_addr ?irq s = Some (True, t)"
    unfolding parts steps_then [OF a(1)] steps_then [OF b(1)] steps_then [OF c(1)]
    using e(1) f(1) steps_then [OF g, of ?E] t(1) by simp
  moreover have "\<not> bit (mstatus_q (dev t)) 3" "fail_step t = fail_step s" "irq_seen t = 1"
    using same_fields [OF t(2)] ff by (simp_all add: sys_irq_global_disable_def csr_op_board SYS_MSTATUS_MIE_def bit_simps bit_8)
  ultimately show ?thesis using view_idle [OF t(3)] by blast
qed

section \<open>The spectrum helpers\<close>

lemma samples_tone: "map unpack (samples cos3_16 None) = frame_0"
  using unpack_real by (simp add: samples_def cos3_16_def frame_0_def)

definition tone :: "u32 list" where
  "tone = engine 4 False FFT_SCALE_FULL (samples cos3_16 None)"

lemma length_tone: "length tone = 16"
  by (simp add: tone_def length_engine samples_def cos3_16_def)

lemma unpack_tone: "k < 16 \<Longrightarrow> unpack (tone ! k) = frame_4 ! brev k 4"
  using words_nth [of 4 "samples cos3_16 None" k build_twiddle False FFT_SCALE_FULL] tone_spectrum [of k]
  by (simp add: tone_def samples_tone FFT_SCALE_FULL_def) (simp add: samples_def cos3_16_def)

lemma tone_bins: "map (\<lambda>k. frame_4 ! brev k 4) [0..<16] =
   [(0, 0), (1, 1), (0, 0), (8193, 1), (0, 0), (0, 0), (0, 0), (0, 0), (0, 0), (1, 0), (0, 0), (0, 0), (0, 0), (8192, 0), (0, 0), (0, 0)]"
  by code_simp

lemma tone_at: "(s16 (tone ! 3), s16 (drop_bit 16 (tone ! 3))) = (8193, 1)"
  "(s16 (tone ! 13), s16 (drop_bit 16 (tone ! 13))) = (8192, 0)"
  "k \<in> {1, 2, 4, 5, 6, 7, 8} \<Longrightarrow> (s16 (tone ! k), s16 (drop_bit 16 (tone ! k))) \<in> {(0, 0), (1, 1)}"
proof -
  have "map (\<lambda>k. (s16 (tone ! k), s16 (drop_bit 16 (tone ! k)))) [0..<16] = map (\<lambda>k. frame_4 ! brev k 4) [0..<16]"
    using unpack_tone by (simp add: unpack_def)
  then have t: "map (\<lambda>k. (s16 (tone ! k), s16 (drop_bit 16 (tone ! k)))) [0..<16] =
     [(0, 0), (1, 1), (0, 0), (8193, 1), (0, 0), (0, 0), (0, 0), (0, 0), (0, 0), (1, 0), (0, 0), (0, 0), (0, 0), (8192, 0), (0, 0), (0, 0)]"
    unfolding tone_bins .
  have n: "(s16 (tone ! k), s16 (drop_bit 16 (tone ! k))) =
     [(0, 0), (1, 1), (0, 0), (8193, 1), (0, 0), (0, 0), (0, 0), (0, 0), (0, 0), (1, 0), (0, 0), (0, 0), (0, 0), (8192, 0), (0, 0), (0, 0)] ! k"
    if "k < 16" for k using that unfolding t [symmetric] by simp
  show "(s16 (tone ! 3), s16 (drop_bit 16 (tone ! 3))) = (8193, 1)"
    "(s16 (tone ! 13), s16 (drop_bit 16 (tone ! 13))) = (8192, 0)"
    using n [of 3] n [of 13] by simp_all
  show "(s16 (tone ! k), s16 (drop_bit 16 (tone ! k))) \<in> {(0, 0), (1, 1)}" if "k \<in> {1, 2, 4, 5, 6, 7, 8}"
    using that n [of k] by auto
qed

lemma tone_peak:
  assumes "view 4 b dn tone ys sh d sh'" and "first_max (bin_power d) 1 9 k"
  shows "k = 3"
proof (rule ccontr)
  assume "k \<noteq> 3"
  then have k: "k \<in> {1, 2, 4, 5, 6, 7, 8}" using assms(2) by (auto simp: first_max_def)
  have p: "bin_power d j = power_of (s16 (tone ! j)) (s16 (drop_bit 16 (tone ! j)))" if "j < 16" for j
    using view_nth [OF assms(1)] that by (simp add: bin_power_def)
  have "bin_power d 3 = 67125250" using p [of 3] tone_at(1) by (simp add: power_of_def)
  moreover have "k < 16" using k by auto
  from p [OF this] tone_at(3) [OF k] have "bin_power d k = 0 \<or> bin_power d k = 2" by (auto simp: power_of_def)
  moreover have "bin_power d 3 \<le> bin_power d k" using assms(2) by (simp add: first_max_def)
  ultimately show False by (auto simp: word_le_nat_alt)
qed

lemma read_re_self:
  fixes s :: "fft_slot board self"
  assumes "view l b dn xs ys sh (core (peri_q (dev s))) (ctrl_shadow s)" and "i < 2 ^ l"
  shows "fst (fft_read_re (fft_board tr lat) i s) = s16 (xs ! i)"
    "slot.leads s (core (peri_q (dev s))) (snd (fft_read_re (fft_board tr lat) i s))"
    "fst (fft_read_im (fft_board tr lat) i s) = s16 (drop_bit 16 (xs ! i))"
    "slot.leads s (core (peri_q (dev s))) (snd (fft_read_im (fft_board tr lat) i s))"
  using slot.rd_co [of "FFT_DATA i" tr lat s] slot.rd_leads [of "FFT_DATA i" s tr lat] view_nth [OF assms]
  by (simp_all add: fft_read_re_def fft_read_im_def case_prod_beta)

lemma view_leads:
  fixes s t :: "fft_slot board self"
  assumes "view l b dn xs ys sh (core (peri_q (dev s))) (ctrl_shadow s)" and "slot.leads s (core (peri_q (dev s))) t"
  shows "view l b dn xs ys sh (core (peri_q (dev t))) (ctrl_shadow t)"
  using assms leads_same [OF assms(2)] by simp

lemma goes_mirrored:
  "goes (check n (not_mirrored (fft_board tr lat))) (view 4 b dn tone ys sh) (view 4 b dn tone ys sh)"
proof (rule goes_check)
  let ?hw = "fft_board tr lat"
  fix s :: "fft_slot board self" assume v: "view 4 b dn tone ys sh (core (peri_q (dev s))) (ctrl_shadow s)"
  let ?a = "snd (fft_read_re ?hw 13 s)"
  let ?b = "snd (fft_read_re ?hw 3 ?a)"
  let ?c = "snd (fft_read_im ?hw 13 ?b)"
  let ?d = "snd (fft_read_im ?hw 3 ?c)"
  have i: "(13 :: nat) < 2 ^ 4" "(3 :: nat) < 2 ^ 4" by simp_all
  note r = read_re_self [where tr = tr and lat = lat]
  have la: "slot.leads s (core (peri_q (dev s))) ?a" by (rule r(2) [OF v i(1)])
  note va = view_leads [OF v la]
  have lb: "slot.leads s (core (peri_q (dev s))) ?b" using slot.leads_trans [OF la r(2) [OF va i(2)]] slot.leads_co [OF la] by simp
  note vb = view_leads [OF v lb]
  have lc: "slot.leads s (core (peri_q (dev s))) ?c" using slot.leads_trans [OF lb r(4) [OF vb i(1)]] slot.leads_co [OF lb] by simp
  note vc = view_leads [OF v lc]
  have "slot.leads s (core (peri_q (dev s))) ?d" using slot.leads_trans [OF lc r(4) [OF vc i(2)]] slot.leads_co [OF lc] by simp
  moreover have "not_mirrored ?hw s = (False, ?d)"
    using r(1) [OF v i(1)] r(1) [OF va i(2)] r(3) [OF vb i(1)] r(3) [OF vc i(2)] tone_at(1,2)
    by (simp add: not_mirrored_def case_prod_beta)
  ultimately show "\<exists>d t. not_mirrored ?hw s = (False, t) \<and> slot.leads s d t \<and> view 4 b dn tone ys sh d (ctrl_shadow s)"
    using v by blast
qed

lemma mag_self:
  fixes s :: "fft_slot board self"
  assumes "view l b dn xs ys sh (core (peri_q (dev s))) (ctrl_shadow s)" and "i < 2 ^ l"
  shows "fst (fft_mag (fft_board tr lat) i s) = mag_of (s16 (xs ! i)) (s16 (drop_bit 16 (xs ! i)))"
    "slot.leads s (core (peri_q (dev s))) (snd (fft_mag (fft_board tr lat) i s))"
proof -
  note l = read_re_self(2) [OF assms, of tr lat]
  note v = view_leads [OF assms(1) l]
  note m = read_re_self [OF v assms(2), of tr lat]
  show "fst (fft_mag (fft_board tr lat) i s) = mag_of (s16 (xs ! i)) (s16 (drop_bit 16 (xs ! i)))"
    using m(3) read_re_self(1) [OF assms, of tr lat] by (simp add: fft_mag_def case_prod_beta)
  show "slot.leads s (core (peri_q (dev s))) (snd (fft_mag (fft_board tr lat) i s))"
    using slot.leads_trans [OF l m(4)] slot.leads_co [OF l] by (simp add: fft_mag_def case_prod_beta)
qed

lemma goes_powers:
  "goes (check n (either (fails (\<lambda>s. let (v, s) = fft_power (fft_board tr lat) 3 s in (v \<noteq> 0, s)))
      (fails (\<lambda>s. let (v, s) = fft_mag (fft_board tr lat) 3 s in (v \<noteq> 0, s))))) (view 4 b dn tone ys sh) (view 4 b dn tone ys sh)"
proof (rule goes_check)
  let ?hw = "fft_board tr lat"
  fix s :: "fft_slot board self" assume v: "view 4 b dn tone ys sh (core (peri_q (dev s))) (ctrl_shadow s)"
  obtain t where t: "fft_power ?hw 3 s = (bin_power (core (peri_q (dev s))) 3, t)" "slot.leads s (core (peri_q (dev s))) t"
    using slot.power_leads by blast
  have "bin_power (core (peri_q (dev s))) 3 = 67125250"
    using view_nth [OF v, of 3] tone_at(1) by (simp add: bin_power_def power_of_def)
  moreover note u = mag_self [OF view_leads [OF v t(2)], of 3 tr lat]
  moreover have "mag_of 8193 1 = 8193" by code_simp
  ultimately show "\<exists>d t. either (fails (\<lambda>s. let (v, s) = fft_power ?hw 3 s in (v \<noteq> 0, s)))
      (fails (\<lambda>s. let (v, s) = fft_mag ?hw 3 s in (v \<noteq> 0, s))) s = (False, t) \<and> slot.leads s d t \<and> view 4 b dn tone ys sh d (ctrl_shadow s)"
    using t v tone_at(1) slot.leads_trans [OF t(2) u(2)] leads_same [OF t(2)]
    by (auto simp: either_def fails_def case_prod_beta)
qed

lemma goes_pure_check: "(\<And>s. P (core (peri_q (dev s))) (ctrl_shadow s) \<Longrightarrow> bad s = (False, s)) \<Longrightarrow> goes (check n bad) P P"
  by (simp add: goes_def check_def same_refl)

lemma goes_helpers:
  assumes "lat < FFT_SPIN_LIMIT"
  shows "goes (run_helpers (fft_board engine lat)) (\<lambda>d sh. idle d) (\<lambda>d sh. True)"
  unfolding goes_def
proof (intro allI impI)
  let ?hw = "fft_board engine lat"
  fix s :: "fft_slot board self" assume "idle (core (peri_q (dev s)))"
  then obtain xs ys where a: "same s (snd (on_fft (fft_begin ?hw 4) s))"
    "view 4 0 False xs ys 0 (core (peri_q (dev (snd (on_fft (fft_begin ?hw 4) s))))) (ctrl_shadow (snd (on_fft (fft_begin ?hw 4) s)))"
    by (rule begin_self [of s engine lat 4]) (simp add: sizes)
  define u where "u = snd (on_fft (fft_begin ?hw 4) s)"
  have vu: "view 4 0 False xs ys 0 (core (peri_q (dev u))) (ctrl_shadow u)" using a(2) by (simp add: u_def)
  let ?out = "map (\<lambda>w. (s16 w, s16 (drop_bit 16 w))) tone"
  obtain w where w: "fft_transform_real ?hw cos3_16 (inner u) = (Some ?out, w)" "slot.leads (inner u) (core (peri_q (dev w))) w"
    "core (peri_q (dev w)) = (core (peri_q (dev u)))\<lparr>done_q := True, cpu_buf := tone @ drop 16 (cpu_buf (core (peri_q (dev u))))\<rparr>"
    using slot.transform_leads [where s = "inner u" and re = cos3_16 and im = None and tr = engine and lat = lat] vu assms length_engine
    by (auto simp: fft_transform_real_def view_def tone_def cos3_16_def)
  define z where "z = snd (on_fft (fft_transform_real ?hw cos3_16) u)"
  have sw: "fft_ctrl_shadow w = ctrl_shadow u" using w(2) shadow_only_bus [of "inner u" w] by (simp add: slot.leads_def)
  have x: "on_fft (fft_transform_real ?hw cos3_16) u = (Some ?out, z)" "same u z" "dev z = dev w" "ctrl_shadow z = ctrl_shadow u"
    using w(1,2) sw by (simp_all add: z_def on_fft_inner same_def slot.leads_def)
  have vx: "view 4 0 True tone ys 0 (core (peri_q (dev z))) (ctrl_shadow z)"
    using vu w(3) length_tone by (simp add: x(3,4) view_def)
  obtain b y where y: "fft_peak_bin ?hw 1 8 z = Some (b, y)" "slot.leads z (core (peri_q (dev z))) y"
    "first_max (bin_power (core (peri_q (dev z)))) 1 9 (unat b)"
    using slot.peak_bin_leads [of 1 8 engine lat z] by auto
  have "b = 3" using tone_peak [OF vx y(3)] by (simp add: word_unat_eq_iff)
  have vy: "view 4 0 True tone ys 0 (core (peri_q (dev y))) (ctrl_shadow y)" by (rule view_leads [OF vx y(2)])
  let ?gs = "[check 28 (\<lambda>s. (b \<noteq> 3, s)),
     check 29 (either (fails (\<lambda>s. let (v, s) = fft_power ?hw 3 s in (v \<noteq> 0, s))) (fails (\<lambda>s. let (v, s) = fft_mag ?hw 3 s in (v \<noteq> 0, s)))),
     check 30 (not_mirrored ?hw),
     check 31 (\<lambda>s. let (v, s) = fft_read_re ?hw 3 s in (fst (?out ! 3) \<noteq> v, s)),
     check 32 (\<lambda>s. (fft_bin_hz 3 16000 16 \<noteq> 3000, s))]"
  have c31: "goes (check 31 (\<lambda>s. let (v, s) = fft_read_re ?hw 3 s in (fst (?out ! 3) \<noteq> v, s))) (view 4 0 True tone ys 0) (view 4 0 True tone ys 0)"
  proof (rule goes_check)
    fix s :: "fft_slot board self" assume v: "view 4 0 True tone ys 0 (core (peri_q (dev s))) (ctrl_shadow s)"
    have "(let (v, s) = fft_read_re ?hw 3 s in (fst (?out ! 3) \<noteq> v, s)) = (False, snd (fft_read_re ?hw 3 s))"
      using read_re_self(1) [OF v, of 3 engine lat] length_tone by (simp add: case_prod_beta)
    then show "\<exists>d t. (let (v, s) = fft_read_re ?hw 3 s in (fst (?out ! 3) \<noteq> v, s)) = (False, t) \<and> slot.leads s d t \<and>
        view 4 0 True tone ys 0 d (ctrl_shadow s)"
      using read_re_self(2) [OF v, of 3 engine lat] v by auto
  qed
  have hz: "fft_bin_hz 3 16000 16 = 3000" by (simp add: fft_bin_hz_def)
  have "goes (steps ?gs) (view 4 0 True tone ys 0) (view 4 0 True tone ys 0)"
    by (rule goes_cons [OF goes_pure_check], simp add: \<open>b = 3\<close>, rule goes_cons [OF goes_powers], rule goes_cons [OF goes_mirrored],
        rule goes_cons [OF c31], rule goes_cons [OF goes_pure_check goes_nil], simp add: hz)
  from goesD [OF this vy] obtain t where t: "steps ?gs y = Some (True, t)" "same y t" by blast
  have "run_helpers ?hw s = Some (True, t)"
    unfolding run_helpers_def Let_def u_def [symmetric] x(1) using y(1) t(1) by (simp del: steps.simps)
  moreover have "same s t"
    using same_trans [OF a(1) [folded u_def] same_trans [OF x(2) same_trans [OF _ t(2)]]] leads_same [OF y(2)] by blast
  ultimately show "\<exists>t. run_helpers ?hw s = Some (True, t) \<and> same s t \<and> True" by blast
qed

section \<open>The verdict\<close>

text \<open>A machine after reset: whatever the sample memories and the tables hold.\<close>

definition after_reset :: "fft_slot board self \<Rightarrow> bool" where
  "after_reset s \<longleftrightarrow>
     (let d = core (peri_q (dev s)) in log2n_q d = 10 \<and> scale_q d = FFT_SCALE_FULL \<and> busy_for d = 0 \<and> \<not> done_q d \<and>
        length (cpu_buf d) = 1024 \<and> length (eng_buf d) = 1024) \<and>
     \<not> bit (mstatus_q (dev s)) 3 \<and> enable_q (dev s) = 0xFFFF \<and> plic_wf s \<and>
     fail_step s = 0 \<and> irq_seen s = 0 \<and> bad_cause s = 0"

lemma reset_view: "after_reset s \<Longrightarrow> view 10 0 False (cpu_buf (core (peri_q (dev s)))) (eng_buf (core (peri_q (dev s)))) (ctrl_shadow s)
    (core (peri_q (dev s))) (ctrl_shadow s)"
  by (simp add: after_reset_def view_def Let_def)

lemma impulse_too_slow:
  assumes "\<not> lat < FFT_SPIN_LIMIT" and "idle (core (peri_q (dev s)))" and "fail_step s = 0"
  shows "\<exists>t. run_impulse (fft_board engine lat) s = Some (False, t) \<and> fail_step t = 9 \<and> irq_seen t = irq_seen s \<and>
    mstatus_q (dev t) = mstatus_q (dev s)"
proof -
  let ?hw = "fft_board engine lat"
  let ?A = "[act (snd \<circ> on_fft (fft_begin ?hw 3)), act (fft_clear ?hw 8), act (fft_write_real ?hw 0 0x4000), act (do_fft (fft_start ?hw))]"
  let ?E = "check 9 (fails (fft_wait ?hw)) # act (\<lambda>s. let (v, s) = fft_cycles ?hw s in s\<lparr>last_cycles := v\<rparr>) # act (do_fft (fft_swap ?hw)) #
      map (\<lambda>i. check 10 (bin_differs ?hw i 0x0800 0)) [0..<8]"
  have lat: "(lat = 0) = False" using assms(1) by (simp add: FFT_SPIN_LIMIT_def)
  have "goes (steps ?A) (\<lambda>d sh. idle d) (\<lambda>d sh. \<exists>xs ys. True \<and> view 3 lat False xs ys 0 d sh)"
  proof (rule goes_phase [OF sizes(4)])
    fix xs ys :: "u32 list" assume "length xs = 2 ^ 3" "length ys = 2 ^ 3"
    have "goes (steps [act (fft_clear ?hw 8), act (fft_write_real ?hw 0 0x4000), act (do_fft (fft_start ?hw))]) (view 3 0 False xs ys 0)
        (view 3 lat (lat = 0) ys (engine 3 (bit (0 :: u32) 2) FFT_SCALE_FULL ((replicate 8 0)[0 := pack 0x4000 0])) 0)"
      by (rule goes_cons [OF goes_clear], simp, rule goes_cons [OF goes_write_real], simp,
          rule goes_cons [OF goes_start [where tr = engine, OF length_engine] goes_nil])
    then show "goes (steps [act (fft_clear ?hw 8), act (fft_write_real ?hw 0 0x4000), act (do_fft (fft_start ?hw))]) (view 3 0 False xs ys 0)
        (\<lambda>d sh. \<exists>xs ys. True \<and> view 3 lat False xs ys 0 d sh)"
      unfolding lat by (rule goes_weaken) blast
  qed
  from goesD [OF this assms(2)] obtain xs ys a where a: "steps ?A s = Some (True, a)" "same s a"
    "view 3 lat False xs ys 0 (core (peri_q (dev a))) (ctrl_shadow a)"
    by blast
  obtain t where t: "fft_wait_loop ?hw 0 a = (False, t)" "slot.leads a (core (peri_q (dev t))) t"
    using slot.wait_leads [of a 0 engine lat] a(3) assms(1) lat by (auto simp: view_def FFT_SPIN_LIMIT_def)
  have "fail_step t = 0" "irq_seen t = irq_seen s" "mstatus_q (dev t) = mstatus_q (dev s)"
    using same_fields [OF a(2)] leads_same [OF t(2)] same_fields [of a t] assms(3) by simp_all
  moreover have "steps ?E a = Some (False, t\<lparr>fail_step := 9\<rparr>)"
    using t(1) \<open>fail_step t = 0\<close> by (simp add: check_def fails_def fft_wait_def fail_def)
  moreover have "run_impulse ?hw s = steps (?A @ ?E) s" unfolding run_impulse_def by (simp only: append_Cons append_Nil)
  ultimately show ?thesis using steps_then [OF a(1), of ?E] by simp
qed

lemma main_verdict:
  assumes "run hw isr_addr irq s = Some (ok, t)" and "irq t = Some t"
  shows "\<exists>u. fft_main hw isr_addr irq s = Some u \<and> irq_seen u = irq_seen t \<and> fail_step u = fail_step t \<and>
    (\<exists>es. evs u = es @ [Wr (Dmem 0x3000) (if ok \<and> fail_step t = 0 then 0x600D else 0xBAD)])"
  using assms by (simp add: fft_main_def do_fft_def on_fft_inner sys_irq_global_disable_def csr_op_def wr_def Let_def)

text \<open>C1: from reset, whatever the sample memories hold, the self-test of the coprocessor passes on a device with the
  bit-exact datapath: every one of its 32 checks, through the drivers of the coprocessor, the interrupt controller
  and the trap entry, with a frame written while another is transformed and the interrupt taken exactly once,
  before the first statement at which it is due.  A device slower than the polling bound is reported at check 9.\<close>

theorem fft_selftest_verdict:
  assumes "after_reset s" and "0 < lat"
  shows "\<exists>t es. fft_main (fft_board engine lat) isr_addr (at_irq engine lat) s = Some t \<and>
    evs t = es @ [Wr (Dmem 0x3000) (if lat < FFT_SPIN_LIMIT then 0x600D else 0xBAD)] \<and>
    (if lat < FFT_SPIN_LIMIT then fail_step t = 0 \<and> irq_seen t = 1 else fail_step t = 9 \<and> irq_seen t = 0)"
proof -
  let ?hw = "fft_board engine lat" and ?irq = "at_irq engine lat"
  obtain a where a: "run_registers ?hw s = Some (True, a)" "same s a" "idle (core (peri_q (dev a)))"
    using goesD [OF goes_registers reset_view [OF assms(1)], of engine lat] by blast
  have sa: "fail_step a = 0" "irq_seen a = 0" "bad_cause a = 0" "\<not> bit (mstatus_q (dev a)) 3" "enable_q (dev a) = 0xFFFF" "plic_wf a"
    using same_fields [OF a(2)] assms(1) by (simp_all add: after_reset_def)
  show ?thesis
  proof (cases "lat < FFT_SPIN_LIMIT")
    case False
    from impulse_too_slow [OF False a(3) sa(1)] obtain t where t: "run_impulse ?hw a = Some (False, t)" "fail_step t = 9"
      "irq_seen t = 0" "\<not> bit (mstatus_q (dev t)) 3"
      using sa by auto
    have "run ?hw isr_addr ?irq s = Some (False, t)" using a(1) t(1) by (simp add: run_def)
    then show ?thesis using main_verdict [of ?hw isr_addr ?irq s False t] serve_masked [OF t(4)] t False by auto
  next
    case True
    have "goes (steps [run_impulse ?hw, run_constant ?hw, run_streaming ?hw]) (\<lambda>d sh. idle d) (\<lambda>d sh. idle d)"
      by (rule goes_cons [OF goes_impulse [OF True]], rule goes_cons [OF goes_constant [OF True]],
          rule goes_cons [OF goes_streaming [OF assms(2) True] goes_nil])
    from goesD [OF this a(3)] obtain b where b: "steps [run_impulse ?hw, run_constant ?hw, run_streaming ?hw] a = Some (True, b)"
      "same a b" "idle (core (peri_q (dev b)))" by blast
    have "bit (0xFFFF :: u32) 5" by code_simp
    then have sb: "fail_step b = 0" "irq_seen b = 0" "bad_cause b = 0" "bit (enable_q (dev b)) 5" "plic_wf b"
      using same_fields [OF b(2)] sa by simp_all
    from goes_interrupt [OF assms(2) True b(3) sb(5,4,2,3)] obtain c where
      c: "run_interrupt ?hw isr_addr ?irq b = Some (True, c)" "idle (core (peri_q (dev c)))" "\<not> bit (mstatus_q (dev c)) 3"
        "fail_step c = 0" "irq_seen c = 1"
      using sb(1) by auto
    from goesD [OF goes_helpers [OF True] c(2)] obtain d where d: "run_helpers ?hw c = Some (True, d)" "same c d" by blast
    have sd: "\<not> bit (mstatus_q (dev d)) 3" "fail_step d = 0" "irq_seen d = 1" using same_fields [OF d(2)] c by simp_all
    have "run ?hw isr_addr ?irq s = steps ([run_registers ?hw] @ [run_impulse ?hw, run_constant ?hw, run_streaming ?hw] @
        [run_interrupt ?hw isr_addr ?irq, run_helpers ?hw]) s"
      unfolding run_def by (simp only: append_Cons append_Nil)
    also have "\<dots> = Some (True, d)" using a(1) steps_then [OF b(1)] c(1) d(1) by simp
    finally show ?thesis
      using main_verdict [of ?hw isr_addr ?irq s True d] serve_masked [OF sd(1)] sd True by auto
  qed
qed

text \<open>The state the image starts in: the shadow and the counters are zero, the tables are empty.\<close>

definition boot_self :: "fft_slot board self" where
  "boot_self = \<lparr>dev = \<lparr>mstatus_q = 0x1800, mie_q = 0, mtvec_q = 0, mcause_q = 0, enable_q = 0xFFFF,
       peri_q = \<lparr>core = \<lparr>cpu_buf = replicate 1024 0, eng_buf = replicate 1024 0, busy_for = 0, done_q = False,
         log2n_q = 10, scale_q = 0x3FF\<rparr>, irq_en = False, cyc = 0\<rparr>\<rparr>,
     evs = [], sys_isr_tab = sys_isr_tab_init, sys_isr_unhandled = None, plic_tab = plic_tab_init,
     ctrl_shadow = 0, fail_step = 0, irq_seen = 0, claim_id = 0, bad_cause = 0, last_cycles = 0\<rparr>"

theorem fft_selftest_verdict_witness:
  "\<exists>t es. fft_main (fft_board engine 34) 0x80 (at_irq engine 34) boot_self = Some t \<and>
     evs t = es @ [Wr (Dmem 0x3000) 0x600D] \<and> irq_seen t = 1"
proof -
  have "\<not> bit (0x1800 :: u32) 3" by code_simp
  then have "after_reset boot_self"
    by (simp add: after_reset_def boot_self_def FFT_SCALE_FULL_def plic_wf_def sys_wf_def sys_isr_tab_init_def plic_tab_init_def)
  from fft_selftest_verdict [OF this, of 34 "0x80"] show ?thesis by (auto simp: FFT_SPIN_LIMIT_def)
qed

end
