(* ===== verification/Spec2Isabelle.thy ===== *)
theory Spec2Isabelle
  imports Prelude Machine Uart Printf Sys Plic Gpio Timer I2c I2c_Engine Spi Spi_Bus W25q Mcp3208 Ds3231 Bmp280 Oled Oled_Panel Oled_Text Fft Fft_Model I2s Tuner_In Tuner_Pitch Tuner_Screen Tuner_App Tuner_Hold Sha256 Quicksort Yarvmon Console Dhry_Port Core_Port Tuner_Sim Board Fft_Tone Fft_Self
begin

text \<open>
  The firmware of the yarv32-uc microcontroller: the C drivers of \<open>sim/sw/common\<close> and the programs built on
  them.

  \<^bold>\<open>The program and its parts.\<close>  The core is a 32-bit RISC-V with memory-mapped peripherals.  Every driver is a
  header of polled register accesses: UART, timer, I2C, SPI, GPIO, interrupt controller, FFT coprocessor and I2S
  receiver.  On I2C and SPI sit the drivers of external chips (display, clock, pressure sensor; flash,
  converter).  The programs call the drivers and share no state among themselves.

  \<^bold>\<open>The model.\<close>  \<open>Machine\<close> gives the register map and a state of two fields: the state of the devices,
  of any type, and a log of every access in order.  What a device answers to a read and how it
  changes on an access is the parameter \<open>hw\<close>, two functions; the drivers are definitions over any \<open>hw\<close>.  A
  driver with statics extends the record (\<open>'d oled\<close>, \<open>'d fft\<close>, \<open>'d tuner\<close>, \<open>'d mon\<close>), in the
  order in which a program includes the headers.  A C \<open>unsigned\<close> is a word of its width, so that it wraps; a C
  \<open>int\<close> is an integer where the code stays in range, and the bounds theorems say so.  An operation that may wait
  for ever returns an option, \<open>None\<close> being the endless wait; an access outside an array of the quicksort
  program is \<open>None\<close> too.  The properties put device models behind the parameter, read off the
  RTL (\<open>src/rtl/utils/axi4_lite_*.sv\<close>) or off what the drivers' comments quote from the datasheets; what is
  needed of a device is always a hypothesis or a model, never built into a driver's definition.

  \<^bold>\<open>Theories and sources.\<close>
  \<^item> \<open>Prelude\<close>: C types, word facts, the digit loop of the printers, and the interface of anything a routine can push
    elements into (locales \<open>sink\<close> and \<open>live_sink\<close>, interpreted on the UART in \<open>Uart\<close>).
  \<^item> \<open>Uart\<close> (\<open>uart.h\<close>), \<open>Printf\<close> (\<open>ee_printf.c\<close>), \<open>Timer\<close> (\<open>timer.h\<close>), \<open>Gpio\<close> (\<open>gpio.h\<close>).
  \<^item> \<open>Sys\<close> (\<open>sys.h\<close>) and \<open>Plic\<close> (\<open>plic.h\<close>): trap entry and the two handler tables, which share the
    interface \<open>handler_table\<close>.
  \<^item> \<open>I2c\<close> (\<open>i2c.h\<close>); on it \<open>Ds3231\<close> (\<open>ds3231.h\<close>), \<open>Bmp280\<close> (\<open>bmp280.h\<close>), \<open>Oled\<close>
    (\<open>ssd1306.h\<close>, with the interface \<open>canvas\<close> of what can be drawn on) and \<open>Oled_Text\<close> (\<open>ssd1306_text.h\<close>).
    \<open>I2c_Engine\<close> is the master of \<open>axi4_lite_i2c.sv\<close>, with the target on the bus, the pace of the firmware and the rest
    of the board as arguments, and what the operations of \<open>i2c.h\<close> do on it; \<open>Oled_Panel\<close> puts the display on that bus.
  \<^item> \<open>Spi\<close> (\<open>spi.h\<close>), \<open>Spi_Bus\<close> (frames on the bus); on it \<open>W25q\<close> (\<open>w25q.h\<close>) and \<open>Mcp3208\<close> (\<open>mcp3208.h\<close>).
  \<^item> \<open>Fft\<close> (\<open>fft.h\<close>) and \<open>I2s\<close> (\<open>i2s.h\<close>).  \<open>Fft_Model\<close> is the bit-exact model of the coprocessor's datapath that the
    test bench of the hardware keeps (\<open>fft_tb.cpp\<close>): the driver's transform on it is within the tolerance of the
    bench of the exact discrete Fourier transform.
  \<^item> \<open>Board\<close> is the core and the interrupt controller around a peripheral: when an interrupt is taken between two
    statements, and what \<open>sys.h\<close> and \<open>plic.h\<close> make of it.  On it runs \<open>Fft_Self\<close> (\<open>peri/fft/fft.c\<close>), the self-test of
    the coprocessor, with the transform of its tone evaluated in \<open>Fft_Tone\<close>.
  \<^item> The guitar tuner (\<open>guitar_tuner.c\<close>): \<open>Tuner_In\<close> is the input chain up to the window in the coprocessor,
    \<open>Tuner_Pitch\<close> the analysis, \<open>Tuner_Screen\<close> display and console, \<open>Tuner_App\<close> the main function of the
    board build, \<open>Tuner_Hold\<close> what its loop keeps true, \<open>Tuner_Sim\<close> the self-check build.
  \<^item> \<open>Sha256\<close> (\<open>sha256.c\<close>), \<open>Quicksort\<close> (\<open>quicksort/main.c\<close>) and \<open>Yarvmon\<close> (\<open>yarvmon.c\<close>).
  \<^item> \<open>Console\<close>: the combinators of programs that only print.  On it the ports of the two benchmarks,
    \<open>Dhry_Port\<close> (\<open>dhry_portme.c\<close>: clock, pool, \<open>strcpy\<close>, \<open>memcpy\<close>, \<open>memset\<close> on a byte-addressed memory, report) and
    \<open>Core_Port\<close> (\<open>core_portme.c\<close>: clock, trap report, final report).  The benchmark program, its iteration count
    and the base of the pool are arguments.

  \<^bold>\<open>What the lemmas show.\<close>  For each bus driver: what goes over the bus, byte for byte and frame for frame, and that the
  operation returns on the engine of the hardware (on I2C also when it does not: a long write to an absent target).  For each chip driver: against a model of the chip, the round
  trip or the value delivered (the flash ignores all but the status read while it is busy); for the arithmetic, equality with a reference on exact integers, or an error
  bound.  For \<open>printf\<close>: the text sent is the one an independent reading of the
  format denotes.  For the display: the memory of a panel that is addressed, and acknowledges, on the I2C bus shows the
  framebuffer.  For the
  tuner: the decimator equals a moving sum, the window holds the last samples, the search meets its
  specification, every frame is drawn to the end, and a pitch that has gone is held for exactly the number of
  hops intended; no value that is read was never written.  For the programs: the hash is the one of the standard,
  sorting sorts in place, the monitor stores and dumps exactly the bytes of its command line; the word-wise
  string copy writes what the byte-wise one would, and blocks of the pool do not overlap;
  the self-test of the coprocessor reports success on a device that works and exactly one interrupt.

  \<^bold>\<open>Bounds and fuel.\<close>  Waits with a limit in the code have that limit (\<open>FFT_SPIN_LIMIT\<close>, 2000000 polls; the probe of
  the microphone in \<open>Tuner_App\<close>).  Waits without one are partial functions, and liveness is proved from
  what the device does.  The length of a busy period of the flash, the arrivals at the receiver and the pace of the
  firmware on I2C are functions the properties quantify over.  The endless loops of the programs are functions of a number of turns (\<open>tuner_hops\<close>,
  \<open>sha_loop\<close>, \<open>mon_lines\<close>); their theorems hold for every number.

  \<^bold>\<open>Not modelled.\<close>  The hardware description itself (SystemVerilog) and its C++ test benches (but for the
  reference model of the transform), whose subject is signals of that hardware; the vendored CoreMark and Dhrystone sources; the compliance environment, startup code and probe programs in assembly or built around single
  instructions.  Timing is not modelled: a cycle counter returns what the device says.  An interrupt is
  taken between two statements of a program (\<open>Board\<close>), not in the middle of a driver, and volatile accesses happen
  in program order.  \<open>wfi\<close> lets one step of the device pass and does not wait, so that an interrupt lost between a test
  of a flag and the \<open>wfi\<close> that follows it would go unnoticed.  On I2C, clock stretching and a second master are left out,
  and so is, for the display, a transfer that is refused.
\<close>

end
